(* ===== verification/Prelude.thy ===== *)
theory Prelude
  imports Main "HOL-Library.Word" "HOL-Library.Monad_Syntax"
begin

text \<open>
  Shared vocabulary of the development.

  \<^item> C++ \<open>int\<close> and \<open>int32_t\<close> values are \<open>int\<close>; \<open>i32\<close> is the two's complement
    wrap-around of a 32-bit result and is written at every operation that can leave the range
    for the inputs the code meets. \<open>u64\<close> wraps 64-bit unsigned results (times in microseconds).
  \<^item> C++ division and remainder truncate towards zero: \<open>c_div\<close>, \<open>c_rem\<close>.
  \<^item> A fixed C array is a function from indices together with its length; it is only read and
    written through \<open>rd\<close> and \<open>wr\<close>, which return \<open>None\<close> for an index outside the array.
    So a result \<open>Some _\<close> of an operation also says that it stayed inside its arrays.
\<close>

named_theorems seq_simps \<open>rewriting of wrapped sequence numbers to unbounded integers\<close>
named_theorems arr_simps \<open>array reads and writes inside the bounds\<close>

subsection \<open>Machine integers\<close>

definition i32 :: "int \<Rightarrow> int" where
  "i32 x = (x + 2147483648) mod 4294967296 - 2147483648"

definition u32 :: "int \<Rightarrow> int" where
  "u32 x = x mod 4294967296"

definition i64 :: "int \<Rightarrow> int" where
  "i64 x = (x + 9223372036854775808) mod 18446744073709551616 - 9223372036854775808"

definition u64 :: "int \<Rightarrow> int" where
  "u64 x = x mod 18446744073709551616"

definition c_div :: "int \<Rightarrow> int \<Rightarrow> int" where
  "c_div a b = sgn a * sgn b * (\<bar>a\<bar> div \<bar>b\<bar>)"

definition c_rem :: "int \<Rightarrow> int \<Rightarrow> int" where
  "c_rem a b = a - b * c_div a b"

lemma i32_id [simp]: "- 2147483648 \<le> x \<Longrightarrow> x < 2147483648 \<Longrightarrow> i32 x = x"
  by (simp add: i32_def)

lemma i32_range: "- 2147483648 \<le> i32 x" "i32 x < 2147483648"
  using pos_mod_bound [of 4294967296 "x + 2147483648"] by (auto simp: i32_def)

lemma u32_id [simp]: "0 \<le> x \<Longrightarrow> x < 4294967296 \<Longrightarrow> u32 x = x"
  by (simp add: u32_def)

lemma u64_id [simp]: "0 \<le> x \<Longrightarrow> x < 18446744073709551616 \<Longrightarrow> u64 x = x"
  by (simp add: u64_def)

lemma i64_id [simp]:
  "- 9223372036854775808 \<le> x \<Longrightarrow> x < 9223372036854775808 \<Longrightarrow> i64 x = x"
  by (simp add: i64_def)

lemma c_div_nonneg [simp]: "0 \<le> a \<Longrightarrow> 0 < b \<Longrightarrow> c_div a b = a div b"
  by (auto simp: c_div_def sgn_if)

lemma c_rem_nonneg [simp]: "0 \<le> a \<Longrightarrow> 0 < b \<Longrightarrow> c_rem a b = a mod b"
  by (simp add: c_rem_def minus_mult_div_eq_mod)

lemma c_rem_neg:
  assumes "a < 0" "0 < b"
  shows "c_rem a b \<le> 0" "c_rem a b = - ((- a) mod b)"
proof -
  have "c_rem a b = - ((- a) - b * ((- a) div b))"
    using assms by (simp add: c_rem_def c_div_def)
  then show eq: "c_rem a b = - ((- a) mod b)"
    by (simp only: minus_mult_div_eq_mod)
  from assms have "0 \<le> (- a) mod b" by simp
  with eq show "c_rem a b \<le> 0" by simp
qed

subsection \<open>Arrays with checked access\<close>

definition rd :: "int \<Rightarrow> (int \<Rightarrow> 'a) \<Rightarrow> int \<Rightarrow> 'a option" where
  "rd n a i = (if 0 \<le> i \<and> i < n then Some (a i) else None)"

definition wr :: "int \<Rightarrow> (int \<Rightarrow> 'a) \<Rightarrow> int \<Rightarrow> 'a \<Rightarrow> (int \<Rightarrow> 'a) option" where
  "wr n a i v = (if 0 \<le> i \<and> i < n then Some (a(i := v)) else None)"

lemma rd_in [simp, arr_simps]: "0 \<le> i \<Longrightarrow> i < n \<Longrightarrow> rd n a i = Some (a i)"
  by (simp add: rd_def)

lemma wr_in [simp, arr_simps]: "0 \<le> i \<Longrightarrow> i < n \<Longrightarrow> wr n a i v = Some (a(i := v))"
  by (simp add: wr_def)

lemma rd_out [simp]: "i < 0 \<or> n \<le> i \<Longrightarrow> rd n a i = None"
  by (auto simp: rd_def)

lemma wr_out [simp]: "i < 0 \<or> n \<le> i \<Longrightarrow> wr n a i v = None"
  by (auto simp: wr_def)

lemma rd_Some_iff: "rd n a i = Some v \<longleftrightarrow> 0 \<le> i \<and> i < n \<and> v = a i"
  by (auto simp: rd_def)

subsection \<open>Residues in a window\<close>

text \<open>Two positions less than the ring size apart share a slot only if they are equal.\<close>

lemma mod_window_eq:
  fixes a b n :: int
  assumes "a mod n = b mod n" "\<bar>a - b\<bar> < n"
  shows "a = b"
proof -
  from assms(1) have "n dvd a - b" by (simp add: mod_eq_dvd_iff)
  with assms(2) have "a - b = 0"
    using dvd_imp_le_int [of "a - b" n] by linarith
  then show ?thesis by simp
qed

lemma mod_in_range [simp]: "0 < (n::int) \<Longrightarrow> 0 \<le> x mod n" "0 < (n::int) \<Longrightarrow> x mod n < n"
  by simp_all

end
