(* ===== verification/SeqNo.thy ===== *)
theory SeqNo
  imports Prelude
begin

text \<open>
  Sequence number arithmetic: \<open>CSeqNo\<close> and \<open>CAckNo\<close> of \<open>include/common.h\<close>.

  A sequence number is a value \<open>0 .. 2^31 - 1\<close>. The code compares two of them by the shorter way
  round the circle. The reference point of every lemma here is an unbounded position \<open>a :: int\<close>
  and \<open>sq a\<close>, the number the protocol sees for it: as long as two positions stay less than
  \<open>m_iSeqNoTH\<close> apart, the code's arithmetic on the wrapped numbers is exactly the arithmetic on
  the positions.
\<close>

definition m_iSeqNoTH :: int where
  "m_iSeqNoTH = 0x3FFFFFFF"

definition m_iMaxSeqNo :: int where
  "m_iMaxSeqNo = 0x7FFFFFFF"

definition seqcmp :: "int \<Rightarrow> int \<Rightarrow> int" where
  "seqcmp seq1 seq2 =
     (if \<bar>i32 (seq1 - seq2)\<bar> < m_iSeqNoTH then i32 (seq1 - seq2) else i32 (seq2 - seq1))"

definition seqlen :: "int \<Rightarrow> int \<Rightarrow> int" where
  "seqlen seq1 seq2 =
     (if seq1 \<le> seq2 then i32 (seq2 - seq1 + 1) else i32 (seq2 - seq1 + m_iMaxSeqNo + 2))"

definition seqoff :: "int \<Rightarrow> int \<Rightarrow> int" where
  "seqoff seq1 seq2 =
     (if \<bar>i32 (seq1 - seq2)\<bar> < m_iSeqNoTH then i32 (seq2 - seq1)
      else if seq1 < seq2 then i32 (seq2 - seq1 - m_iMaxSeqNo - 1)
      else i32 (seq2 - seq1 + m_iMaxSeqNo + 1))"

definition incseq :: "int \<Rightarrow> int" where
  "incseq seq = (if seq = m_iMaxSeqNo then 0 else seq + 1)"

definition decseq :: "int \<Rightarrow> int" where
  "decseq seq = (if seq = 0 then m_iMaxSeqNo else seq - 1)"

definition incseq_by :: "int \<Rightarrow> int \<Rightarrow> int" where
  "incseq_by seq inc =
     (if m_iMaxSeqNo - seq \<ge> inc then i32 (seq + inc) else i32 (seq - m_iMaxSeqNo + inc - 1))"

definition decseq_by :: "int \<Rightarrow> int \<Rightarrow> int" where
  "decseq_by seq dec =
     (if seq < dec then (let left = i32 (dec - seq) in i32 (m_iMaxSeqNo - left + 1))
      else i32 (seq - dec))"

definition m_iMaxAckSeqNo :: int where
  "m_iMaxAckSeqNo = 0x7FFFFFFF"

definition incack :: "int \<Rightarrow> int" where
  "incack ackno = (if ackno = m_iMaxAckSeqNo then 0 else ackno + 1)"

subsection \<open>Positions and wrapped numbers\<close>

definition valid_seq :: "int \<Rightarrow> bool" where
  "valid_seq s \<longleftrightarrow> 0 \<le> s \<and> s \<le> m_iMaxSeqNo"

definition sq :: "int \<Rightarrow> int" where
  "sq a = a mod 2147483648"

lemmas seq_consts = m_iSeqNoTH_def m_iMaxSeqNo_def

lemma sq_range [simp]: "0 \<le> sq a" "sq a < 2147483648" "sq a \<le> 2147483647" "sq a \<noteq> - 1"
  "- 1 \<noteq> sq a" "- 1 < sq a" "\<not> sq a < 0"
proof -
  have "0 \<le> sq a" "sq a < 2147483648" by (simp_all add: sq_def)
  then show "0 \<le> sq a" "sq a < 2147483648" "sq a \<le> 2147483647" "sq a \<noteq> - 1" "- 1 \<noteq> sq a"
    "- 1 < sq a" "\<not> sq a < 0"
    by linarith+
qed

lemma valid_sq [simp]: "valid_seq (sq a)"
  by (simp add: valid_seq_def seq_consts)

lemma sq_valid: "valid_seq s \<Longrightarrow> sq s = s"
  by (simp add: valid_seq_def sq_def seq_consts)

lemma sq_eq_iff: "\<bar>a - b\<bar> < 2147483648 \<Longrightarrow> sq a = sq b \<longleftrightarrow> a = b"
  using mod_window_eq [of a 2147483648 b] by (auto simp: sq_def)

text \<open>The difference of two wrapped numbers is the distance, or off by one turn of the circle.\<close>

lemma sq_diff_cases:
  assumes "\<bar>b - a\<bar> < 2147483648"
  obtains "sq b - sq a = b - a" | "sq b - sq a = b - a + 2147483648"
    | "sq b - sq a = b - a - 2147483648"
proof -
  have a: "a = 2147483648 * (a div 2147483648) + sq a" and
    b: "b = 2147483648 * (b div 2147483648) + sq b"
    by (simp_all add: sq_def)
  define k where "k = b div 2147483648 - a div 2147483648"
  have eq: "sq b - sq a = b - a - 2147483648 * k"
    using a b by (simp add: k_def algebra_simps)
  have "\<bar>sq b - sq a\<bar> < 2147483648"
    using sq_range(1,2) [of a] sq_range(1,2) [of b] by linarith
  with eq assms have "- 1 \<le> k" "k \<le> 1" by linarith+
  then have "k = - 1 \<or> k = 0 \<or> k = 1" by linarith
  with eq that show ?thesis by auto
qed

lemma sq_diff_window:
  assumes "\<bar>b - a\<bar> < 1073741823"
  shows "sq b - sq a = b - a \<or> sq b - sq a = b - a + 2147483648 \<or> sq b - sq a = b - a - 2147483648"
proof -
  from assms have "\<bar>b - a\<bar> < 2147483648" by simp
  then show ?thesis by (rule sq_diff_cases) simp_all
qed

text \<open>On valid sequence numbers no intermediate result leaves 32 bits.\<close>

lemma seqcmp_valid:
  assumes "valid_seq x" "valid_seq y"
  shows "seqcmp x y = (if \<bar>x - y\<bar> < 1073741823 then x - y else y - x)"
proof -
  have "i32 (x - y) = x - y" "i32 (y - x) = y - x"
    using assms by (auto simp: valid_seq_def seq_consts intro!: i32_id)
  then show ?thesis by (simp add: seqcmp_def seq_consts)
qed

lemma seqoff_valid:
  assumes "valid_seq x" "valid_seq y"
  shows "seqoff x y = (if \<bar>x - y\<bar> < 1073741823 then y - x
    else if x < y then y - x - 2147483648 else y - x + 2147483648)"
proof -
  have "i32 (x - y) = x - y" "i32 (y - x) = y - x"
    "\<not> \<bar>x - y\<bar> < 1073741823 \<Longrightarrow> x < y \<Longrightarrow> i32 (y - x - 2147483647 - 1) = y - x - 2147483648"
    "\<not> \<bar>x - y\<bar> < 1073741823 \<Longrightarrow> \<not> x < y \<Longrightarrow> i32 (y - x + 2147483647 + 1) = y - x + 2147483648"
    using assms by (auto simp: valid_seq_def seq_consts abs_if split: if_splits)
  then show ?thesis by (auto simp: seqoff_def seq_consts)
qed

text \<open>The length of the whole circle does not fit into 32 bits; every shorter range does.\<close>

lemma seqlen_valid:
  assumes "valid_seq x" "valid_seq y" "x \<noteq> y + 1" "y - x < 2147483647"
  shows "seqlen x y = (if x \<le> y then y - x + 1 else y - x + 2147483649)"
proof -
  have "x \<le> y \<Longrightarrow> i32 (y - x + 1) = y - x + 1"
    "\<not> x \<le> y \<Longrightarrow> i32 (y - x + 2147483647 + 2) = y - x + 2147483649"
    using assms by (auto simp: valid_seq_def seq_consts)
  then show ?thesis by (auto simp: seqlen_def seq_consts)
qed

lemma seqoff_sq:
  assumes "\<bar>b - a\<bar> < 1073741823"
  shows "seqoff (sq a) (sq b) = b - a"
  using sq_diff_window [OF assms] assms sq_range(1,2) [of a] sq_range(1,2) [of b]
  by (auto simp: seqoff_valid abs_if simp del: sq_range split: if_splits)

lemma seqcmp_cases:
  assumes "\<bar>b - a\<bar> < 1073741823"
  shows "seqcmp (sq a) (sq b) = a - b \<or> seqcmp (sq a) (sq b) = b - a + 2147483648 \<and> b < a
    \<or> seqcmp (sq a) (sq b) = b - a - 2147483648 \<and> a < b"
  using sq_diff_window [OF assms] assms sq_range(1,2) [of a] sq_range(1,2) [of b]
  by (auto simp: seqcmp_valid abs_if simp del: sq_range split: if_splits)

lemma seqcmp_sq:
  assumes "\<bar>b - a\<bar> < 1073741823"
  shows "seqcmp (sq a) (sq b) < 0 \<longleftrightarrow> a < b"
    and "0 < seqcmp (sq a) (sq b) \<longleftrightarrow> b < a"
    and "seqcmp (sq a) (sq b) = 0 \<longleftrightarrow> a = b"
    and "seqcmp (sq a) (sq b) \<le> 0 \<longleftrightarrow> a \<le> b"
    and "0 \<le> seqcmp (sq a) (sq b) \<longleftrightarrow> b \<le> a"
  using seqcmp_cases [OF assms] assms by linarith+

text \<open>The same with the distance as two linear bounds, the form the simplifier discharges.\<close>

lemma seqcmp_near [seq_simps]:
  assumes "a - b < 1073741823" "b - a < 1073741823"
  shows "seqcmp (sq a) (sq b) < 0 \<longleftrightarrow> a < b"
    and "0 < seqcmp (sq a) (sq b) \<longleftrightarrow> b < a"
    and "seqcmp (sq a) (sq b) = 0 \<longleftrightarrow> a = b"
    and "seqcmp (sq a) (sq b) \<le> 0 \<longleftrightarrow> a \<le> b"
    and "0 \<le> seqcmp (sq a) (sq b) \<longleftrightarrow> b \<le> a"
  using assms by (simp_all add: seqcmp_sq abs_less_iff)

lemma seqoff_near [seq_simps]:
  "a - b < 1073741823 \<Longrightarrow> b - a < 1073741823 \<Longrightarrow> seqoff (sq a) (sq b) = b - a"
  by (simp add: seqoff_sq abs_less_iff)

lemma sq_near_eq [seq_simps]:
  "a - b < 2147483648 \<Longrightarrow> b - a < 2147483648 \<Longrightarrow> sq a = sq b \<longleftrightarrow> a = b"
  by (simp add: sq_eq_iff abs_less_iff)

lemma sq_add: "0 \<le> n \<Longrightarrow> n \<le> 2147483648 \<Longrightarrow>
    sq (a + n) = (if sq a + n < 2147483648 then sq a + n else sq a + n - 2147483648)"
proof -
  assume n: "0 \<le> n" "n \<le> 2147483648"
  have eq: "sq (a + n) = (sq a + n) mod 2147483648"
    by (simp add: sq_def mod_add_left_eq)
  show ?thesis
  proof (cases "sq a + n < 2147483648")
    case True
    with eq n show ?thesis by simp
  next
    case False
    then have "(sq a + n) mod 2147483648 = (sq a + n - 2147483648) mod 2147483648"
      by (simp only: minus_mod_self2)
    also have "\<dots> = sq a + n - 2147483648"
      using False n sq_range(2) [of a] by (intro mod_pos_pos_trivial) linarith+
    finally show ?thesis using eq False by simp
  qed
qed

lemma incseq_sq [seq_simps]: "incseq (sq a) = sq (a + 1)"
  using sq_range(1,2) [of a] by (auto simp: incseq_def seq_consts sq_add simp del: sq_range)

lemma incseq_by_sq [seq_simps]:
  assumes "0 \<le> n" "n \<le> 2147483647"
  shows "incseq_by (sq a) n = sq (a + n)"
  using assms sq_range(1,2) [of a]
  by (auto simp: incseq_by_def seq_consts sq_add simp del: sq_range)

lemma decseq_by_sq [seq_simps]:
  assumes "0 \<le> n" "n \<le> 2147483647"
  shows "decseq_by (sq a) n = sq (a - n)"
  using assms sq_range(1,2) [of "a - n"] sq_range(1,2) [of a] sq_add [of n "a - n"]
  by (auto simp: decseq_by_def seq_consts Let_def simp del: sq_range split: if_splits)

lemma decseq_sq [seq_simps]: "decseq (sq a) = sq (a - 1)"
  using sq_range(1,2) [of "a - 1"] sq_range(1,2) [of a] sq_add [of 1 "a - 1"]
  by (auto simp: decseq_def seq_consts simp del: sq_range split: if_splits)

lemma seqlen_sq [seq_simps]:
  assumes "a \<le> b" "b - a < 2147483647"
  shows "seqlen (sq a) (sq b) = b - a + 1"
proof -
  from assms have "\<bar>b - a\<bar> < 2147483648" by simp
  then show ?thesis
    by (rule sq_diff_cases)
      (use assms sq_range(1,2) [of a] sq_range(1,2) [of b] in
        \<open>auto simp: seqlen_valid simp del: sq_range\<close>)
qed

end
