(* ===== verification/Intervals.thy ===== *)
theory Intervals
  imports SeqNo
begin

text \<open>
  Lists of closed intervals of positions, the abstract content of both loss lists
  (\<open>CSndLossList\<close>, \<open>CRcvLossList\<close>), and the circular placement of an interval in the array of
  a loss list: the record of the interval that starts at position \<open>x\<close> lives in slot
  \<open>(c + x) mod n\<close>, so two starts less than \<open>n\<close> apart never share a slot.
\<close>

type_synonym ivl = "int \<times> int"

definition ivset :: "ivl list \<Rightarrow> int set" where
  "ivset xs = (\<Union>(l, h)\<in>set xs. {l..h})"

definition ivlen :: "ivl list \<Rightarrow> int" where
  "ivlen xs = (\<Sum>(l, h)\<leftarrow>xs. h - l + 1)"

definition nonempty_ivls :: "ivl list \<Rightarrow> bool" where
  "nonempty_ivls xs \<longleftrightarrow> (\<forall>(l, h)\<in>set xs. l \<le> h)"

definition lo_sorted :: "ivl list \<Rightarrow> bool" where
  "lo_sorted xs \<longleftrightarrow> sorted_wrt (\<lambda>x y. fst x < fst y) xs \<and> nonempty_ivls xs"

definition separated :: "ivl list \<Rightarrow> bool" where
  "separated xs \<longleftrightarrow> sorted_wrt (\<lambda>x y. snd x < fst y) xs \<and> nonempty_ivls xs"

definition in_win :: "int \<Rightarrow> int \<Rightarrow> ivl list \<Rightarrow> bool" where
  "in_win b n xs \<longleftrightarrow> (\<forall>(l, h)\<in>set xs. b \<le> l \<and> h < b + n)"

definition slot :: "int \<Rightarrow> int \<Rightarrow> int \<Rightarrow> int" where
  "slot n c x = (c + x) mod n"

subsection \<open>Content and length\<close>

lemma ivset_simps [simp]:
  "ivset [] = {}" "ivset ((l, h) # xs) = {l..h} \<union> ivset xs" "ivset (xs @ ys) = ivset xs \<union> ivset ys"
  by (auto simp: ivset_def)

lemma ivlen_simps [simp]:
  "ivlen [] = 0" "ivlen ((l, h) # xs) = h - l + 1 + ivlen xs" "ivlen (xs @ ys) = ivlen xs + ivlen ys"
  by (auto simp: ivlen_def)

lemma nonempty_ivls_simps [simp]:
  "nonempty_ivls []" "nonempty_ivls ((l, h) # xs) \<longleftrightarrow> l \<le> h \<and> nonempty_ivls xs"
  "nonempty_ivls (xs @ ys) \<longleftrightarrow> nonempty_ivls xs \<and> nonempty_ivls ys"
  by (auto simp: nonempty_ivls_def)

lemma in_win_simps [simp]:
  "in_win b n []" "in_win b n ((l, h) # xs) \<longleftrightarrow> b \<le> l \<and> h < b + n \<and> in_win b n xs"
  "in_win b n (xs @ ys) \<longleftrightarrow> in_win b n xs \<and> in_win b n ys"
  by (auto simp: in_win_def)

lemma lo_sorted_simps [simp]:
  "lo_sorted []"
  "lo_sorted ((l, h) # xs) \<longleftrightarrow> l \<le> h \<and> (\<forall>y\<in>set xs. l < fst y) \<and> lo_sorted xs"
  "lo_sorted (xs @ ys) \<longleftrightarrow> lo_sorted xs \<and> lo_sorted ys \<and> (\<forall>x\<in>set xs. \<forall>y\<in>set ys. fst x < fst y)"
  by (auto simp: lo_sorted_def sorted_wrt_append)

lemma separated_simps [simp]:
  "separated []"
  "separated ((l, h) # xs) \<longleftrightarrow> l \<le> h \<and> (\<forall>y\<in>set xs. h < fst y) \<and> separated xs"
  "separated (xs @ ys) \<longleftrightarrow> separated xs \<and> separated ys \<and> (\<forall>x\<in>set xs. \<forall>y\<in>set ys. snd x < fst y)"
  by (auto simp: separated_def sorted_wrt_append)

lemma separated_nonempty: "separated xs \<Longrightarrow> nonempty_ivls xs"
  by (simp add: separated_def)

lemma lo_sorted_nonempty: "lo_sorted xs \<Longrightarrow> nonempty_ivls xs"
  by (simp add: lo_sorted_def)

lemma nonempty_ivlsD: "nonempty_ivls xs \<Longrightarrow> (l, h) \<in> set xs \<Longrightarrow> l \<le> h"
  by (auto simp: nonempty_ivls_def)

lemma separated_lo_sorted: "separated xs \<Longrightarrow> lo_sorted xs"
proof (induction xs)
  case (Cons x xs)
  then show ?case by (cases x) force
qed simp

lemma finite_ivset [simp]: "finite (ivset xs)"
  by (auto simp: ivset_def)

lemma ivset_ge: "\<forall>y\<in>set xs. a < fst y \<Longrightarrow> x \<in> ivset xs \<Longrightarrow> a < x"
  by (force simp: ivset_def)

lemma ivset_le: "\<forall>y\<in>set xs. snd y < a \<Longrightarrow> x \<in> ivset xs \<Longrightarrow> x < a"
  by (force simp: ivset_def)

lemma ivset_memI: "(l, h) \<in> set xs \<Longrightarrow> l \<le> x \<Longrightarrow> x \<le> h \<Longrightarrow> x \<in> ivset xs"
  by (force simp: ivset_def)

lemma ivlen_card: "separated xs \<Longrightarrow> ivlen xs = int (card (ivset xs))"
proof (induction xs)
  case (Cons x xs)
  obtain l h where x: "x = (l, h)" by (cases x)
  from Cons.prems x have "{l..h} \<inter> ivset xs = {}"
    using ivset_ge [of xs h] by (fastforce simp: disjoint_iff)
  with Cons x show ?case by (simp add: card_Un_disjoint)
qed simp

lemma ivlen_nonneg: "nonempty_ivls xs \<Longrightarrow> 0 \<le> ivlen xs"
  by (induction xs) (auto simp: nonempty_ivls_def)

lemma ivlen_pos: "nonempty_ivls xs \<Longrightarrow> xs \<noteq> [] \<Longrightarrow> 0 < ivlen xs"
  using ivlen_nonneg by (cases xs) (auto, fastforce)

lemma ivlen_eq_0: "nonempty_ivls xs \<Longrightarrow> ivlen xs = 0 \<longleftrightarrow> xs = []"
  using ivlen_pos [of xs] by (cases "xs = []") auto

text \<open>The head of a sorted list starts lowest.\<close>

lemma separated_hd_le: "separated ((l, h) # xs) \<Longrightarrow> x \<in> ivset ((l, h) # xs) \<Longrightarrow> l \<le> x"
  using ivset_ge [of xs h x] by auto

lemma in_win_ivset: "in_win b n xs \<Longrightarrow> x \<in> ivset xs \<Longrightarrow> b \<le> x \<and> x < b + n"
  by (force simp: in_win_def ivset_def)

lemma in_winD: "in_win b n xs \<Longrightarrow> (l, h) \<in> set xs \<Longrightarrow> b \<le> l \<and> h < b + n"
  by (force simp: in_win_def)

subsection \<open>Slots\<close>

lemma slot_range [simp]: "0 < n \<Longrightarrow> 0 \<le> slot n c x" "0 < n \<Longrightarrow> slot n c x < n"
  "0 < n \<Longrightarrow> slot n c x \<noteq> - 1" "0 < n \<Longrightarrow> - 1 \<noteq> slot n c x"
  by (simp_all add: slot_def) (metis mod_in_range(1) not_numeral_le_zero zero_le_numeral
      neg_0_le_iff_le not_one_le_zero)+

lemma slot_inj: "slot n c x = slot n c y \<Longrightarrow> \<bar>x - y\<bar> < n \<Longrightarrow> x = y"
  using mod_window_eq [of "c + x" n "c + y"] by (simp add: slot_def)

lemma slot_eq_iff: "\<bar>x - y\<bar> < n \<Longrightarrow> slot n c x = slot n c y \<longleftrightarrow> x = y"
  using slot_inj by blast

lemma slot_shift: "0 < n \<Longrightarrow> (slot n c x + d + n) mod n = slot n c (x + d)"
  "0 < n \<Longrightarrow> (slot n c x + d) mod n = slot n c (x + d)"
  by (simp_all add: slot_def mod_add_left_eq add.assoc) (simp add: mod_add_left_eq flip: add.assoc)

lemma slot_c_rem:
  assumes "0 < n" "- n \<le> d"
  shows "c_rem (slot n c x + d + n) n = slot n c (x + d)"
proof -
  have "0 \<le> slot n c x + d + n" using slot_range(1) [of n c x] assms by linarith
  then show ?thesis using assms by (simp add: slot_shift)
qed

definition slots :: "int \<Rightarrow> int \<Rightarrow> ivl list \<Rightarrow> int set" where
  "slots n c xs = slot n c ` fst ` set xs"

lemma slots_simps [simp]:
  "slots n c [] = {}" "slots n c ((l, h) # xs) = insert (slot n c l) (slots n c xs)"
  "slots n c (xs @ ys) = slots n c xs \<union> slots n c ys"
  by (auto simp: slots_def)

lemma slot_notin_slots:
  assumes "in_win b n xs" "nonempty_ivls xs" "b \<le> x" "x < b + n" "x \<notin> fst ` set xs"
  shows "slot n c x \<notin> slots n c xs"
proof
  assume "slot n c x \<in> slots n c xs"
  then obtain l h where lh: "(l, h) \<in> set xs" "slot n c x = slot n c l"
    by (force simp: slots_def)
  with assms have "b \<le> l" "l < b + n"
    using in_winD [OF assms(1) lh(1)] nonempty_ivlsD [OF assms(2) lh(1)] by auto
  with lh assms have "x = l" by (intro slot_inj [OF lh(2)]) linarith
  with lh assms(5) show False by force
qed

subsection \<open>Encoding of an interval in a node\<close>

text \<open>A single loss has \<open>-1\<close> as its range end. A list starts at the slot of its first interval.\<close>

definition enc_end :: "int \<Rightarrow> int \<Rightarrow> int" where
  "enc_end l h = (if l = h then - 1 else sq h)"

lemma enc_end_simps [simp]: "enc_end l l = - 1" "l \<noteq> h \<Longrightarrow> enc_end l h = sq h"
  "enc_end l h = - 1 \<longleftrightarrow> l = h" "- 1 = enc_end l h \<longleftrightarrow> l = h"
  by (auto simp: enc_end_def)

fun start :: "int \<Rightarrow> int \<Rightarrow> ivl list \<Rightarrow> int \<Rightarrow> int" where
  "start n c [] r = r"
| "start n c ((l, h) # xs) r = slot n c l"

lemma start_append: "start n c (xs @ ys) r = start n c xs (start n c ys r)"
  by (cases xs) auto

lemma start_end [simp]: "0 < n \<Longrightarrow> start n c xs (- 1) = - 1 \<longleftrightarrow> xs = []"
  by (cases xs) auto

text \<open>Starts of a sorted list in a window use pairwise different slots.\<close>

lemma slot_neq:
  assumes "in_win b n xs" "lo_sorted xs" "x \<in> set xs" "y \<in> set xs" "fst x \<noteq> fst y"
  shows "slot n c (fst x) \<noteq> slot n c (fst y)"
proof -
  obtain lx hx ly hy where xy: "x = (lx, hx)" "y = (ly, hy)" by (cases x, cases y)
  have "b \<le> lx" "lx \<le> hx" "hx < b + n" "b \<le> ly" "ly \<le> hy" "hy < b + n"
    using assms xy in_winD [OF assms(1)] nonempty_ivlsD [OF lo_sorted_nonempty [OF assms(2)]] by auto
  then have "\<bar>lx - ly\<bar> < n" by linarith
  then show ?thesis using assms(5) slot_inj [of n c lx ly] xy by auto
qed

lemma slots_middle:
  assumes "in_win b n (pre @ (l, h) # ys)" "lo_sorted (pre @ (l, h) # ys)"
  shows "slot n c l \<notin> slots n c pre" "slot n c l \<notin> slots n c ys" "slots n c pre \<inter> slots n c ys = {}"
proof -
  have *: "slot n c (fst x) \<noteq> slot n c (fst y)"
    if "x \<in> set (pre @ (l, h) # ys)" "y \<in> set (pre @ (l, h) # ys)" "fst x < fst y" for x y
    using slot_neq [OF assms that(1,2)] that(3) by auto
  show "slot n c l \<notin> slots n c pre"
  proof
    assume "slot n c l \<in> slots n c pre"
    then obtain x where x: "x \<in> set pre" "slot n c l = slot n c (fst x)" by (auto simp: slots_def)
    then show False using *[of x "(l, h)"] assms(2) by auto
  qed
  show "slot n c l \<notin> slots n c ys"
  proof
    assume "slot n c l \<in> slots n c ys"
    then obtain y where y: "y \<in> set ys" "slot n c l = slot n c (fst y)" by (auto simp: slots_def)
    then show False using *[of "(l, h)" y] assms(2) by auto
  qed
  show "slots n c pre \<inter> slots n c ys = {}"
  proof (rule ccontr)
    assume "slots n c pre \<inter> slots n c ys \<noteq> {}"
    then obtain x y where xy: "x \<in> set pre" "y \<in> set ys" "slot n c (fst x) = slot n c (fst y)"
      unfolding slots_def by blast
    then show False using *[of x y] assms(2) by auto
  qed
qed

end
