(* ===== verification/SndLossList.thy ===== *)
theory SndLossList
  imports Intervals
begin

text \<open>
  \<open>CSndLossList\<close> (\<open>list.cpp\<close>, \<open>include/list.h\<close>): the sender's list of sequence numbers to
  retransmit, a linked list of ranges laid out in a circular array. Every operation is in the option
  monad: \<open>None\<close> is an access outside \<open>m_caSeq\<close>, or a walk that would not end. The fuel of a walk
  is the array size: a list without a cycle visits no more nodes. The mutex is left out: every method
  holds it from the first to the last statement.
\<close>

record snd_node =
  sdata1 :: int
  sdata2 :: int
  snext :: int

record CSndLossList =
  sl_seq :: "int \<Rightarrow> snd_node"
  sl_head :: int
  sl_length :: int
  sl_size :: int
  sl_lastins :: int

text \<open>The constructor leaves the \<open>next\<close> fields uninitialised: they are the argument \<open>junk\<close>.\<close>

definition snd_new :: "int \<Rightarrow> (int \<Rightarrow> int) \<Rightarrow> CSndLossList" where
  "snd_new sz junk =
     \<lparr>sl_seq = (\<lambda>i. \<lparr>sdata1 = - 1, sdata2 = - 1, snext = junk i\<rparr>),
      sl_head = - 1, sl_length = 0, sl_size = sz, sl_lastins = - 1\<rparr>"

definition sl_get :: "CSndLossList \<Rightarrow> int \<Rightarrow> snd_node option" where
  "sl_get s i = rd (sl_size s) (sl_seq s) i"

definition sl_upd :: "CSndLossList \<Rightarrow> int \<Rightarrow> (snd_node \<Rightarrow> snd_node) \<Rightarrow> CSndLossList option" where
  "sl_upd s i f =
     (if 0 \<le> i \<and> i < sl_size s then Some (s\<lparr>sl_seq := (sl_seq s)(i := f (sl_seq s i))\<rparr>) else None)"

definition sl_add_len :: "int \<Rightarrow> CSndLossList \<Rightarrow> CSndLossList" where
  "sl_add_len d s = s\<lparr>sl_length := sl_length s + d\<rparr>"

text \<open>The node for the range \<open>[seqno1, seqno2]\<close> is written in two steps, as in the code.\<close>

definition snd_put :: "CSndLossList \<Rightarrow> int \<Rightarrow> int \<Rightarrow> int \<Rightarrow> CSndLossList option" where
  "snd_put s loc seqno1 seqno2 = do {
     s \<leftarrow> sl_upd s loc (\<lambda>n. n\<lparr>sdata1 := seqno1\<rparr>);
     if seqno2 \<noteq> seqno1 then sl_upd s loc (\<lambda>n. n\<lparr>sdata2 := seqno2\<rparr>) else Some s
   }"

text \<open>The last node, from \<open>i\<close> on, whose successor does not start before \<open>seqno1\<close>.\<close>

fun snd_find_prior :: "nat \<Rightarrow> CSndLossList \<Rightarrow> int \<Rightarrow> int \<Rightarrow> int option" where
  "snd_find_prior 0 s i seqno1 = None"
| "snd_find_prior (Suc fuel) s i seqno1 = do {
     n \<leftarrow> sl_get s i;
     if snext n \<noteq> - 1 then do {
       m \<leftarrow> sl_get s (snext n);
       if seqcmp (sdata1 m) seqno1 < 0 then snd_find_prior fuel s (snext n) seqno1 else Some i
     } else Some i
   }"

text \<open>
  The three cases of \<open>insert\<close> by the offset of \<open>seqno1\<close> from the head. The second component of
  the result is the node to coalesce with its successors, or \<open>None\<close> for the code's \<open>return 0\<close>.
\<close>

definition snd_insert_before ::
    "CSndLossList \<Rightarrow> int \<Rightarrow> int \<Rightarrow> int \<Rightarrow> (CSndLossList \<times> int option) option" where
  "snd_insert_before s loc seqno1 seqno2 = do {
     s \<leftarrow> snd_put s loc seqno1 seqno2;
     s \<leftarrow> sl_upd s loc (\<lambda>n. n\<lparr>snext := sl_head s\<rparr>);
     let s = s\<lparr>sl_head := loc, sl_lastins := loc\<rparr>;
     Some (sl_add_len (seqlen seqno1 seqno2) s, Some loc)
   }"

definition snd_extend ::
    "CSndLossList \<Rightarrow> int \<Rightarrow> int \<Rightarrow> int \<Rightarrow> (CSndLossList \<times> int option) option" where
  "snd_extend s loc from seqno2 = do {
     s \<leftarrow> sl_upd (sl_add_len (seqlen from seqno2 - 1) s) loc (\<lambda>n. n\<lparr>sdata2 := seqno2\<rparr>);
     Some (s, Some loc)
   }"

text \<open>The range goes behind the prior node \<open>i\<close>, or into it where they overlap.\<close>

definition snd_insert_behind ::
    "CSndLossList \<Rightarrow> int \<Rightarrow> int \<Rightarrow> int \<Rightarrow> int \<Rightarrow> (CSndLossList \<times> int option) option" where
  "snd_insert_behind s i loc seqno1 seqno2 = do {
     m \<leftarrow> sl_get s i;
     if sdata2 m = - 1 \<or> seqcmp (sdata2 m) seqno1 < 0 then do {
       s \<leftarrow> snd_put (s\<lparr>sl_lastins := loc\<rparr>) loc seqno1 seqno2;
       m \<leftarrow> sl_get s i;
       s \<leftarrow> sl_upd s loc (\<lambda>n. n\<lparr>snext := snext m\<rparr>);
       s \<leftarrow> sl_upd s i (\<lambda>n. n\<lparr>snext := loc\<rparr>);
       Some (sl_add_len (seqlen seqno1 seqno2) s, Some loc)
     } else do {
       let s = s\<lparr>sl_lastins := i\<rparr>;
       if seqcmp (sdata2 m) seqno2 < 0 then snd_extend s i (sdata2 m) seqno2 else Some (s, None)
     }
   }"

definition snd_insert_after ::
    "CSndLossList \<Rightarrow> int \<Rightarrow> int \<Rightarrow> int \<Rightarrow> (CSndLossList \<times> int option) option" where
  "snd_insert_after s loc seqno1 seqno2 = do {
     n \<leftarrow> sl_get s loc;
     if seqno1 = sdata1 n then do {
       let s = s\<lparr>sl_lastins := loc\<rparr>;
       if sdata2 n = - 1 then
         (if seqno2 \<noteq> seqno1 then snd_extend s loc seqno1 seqno2 else Some (s, Some loc))
       else if seqcmp seqno2 (sdata2 n) > 0 then snd_extend s loc (sdata2 n) seqno2
       else Some (s, None)
     } else do {
       i \<leftarrow> (if sl_lastins s \<noteq> - 1
             then do { m \<leftarrow> sl_get s (sl_lastins s);
                       Some (if seqcmp (sdata1 m) seqno1 < 0 then sl_lastins s else sl_head s) }
             else Some (sl_head s));
       i \<leftarrow> snd_find_prior (nat (sl_size s)) s i seqno1;
       snd_insert_behind s i loc seqno1 seqno2
     }
   }"

definition snd_insert_at_head ::
    "CSndLossList \<Rightarrow> int \<Rightarrow> int \<Rightarrow> int \<Rightarrow> (CSndLossList \<times> int option) option" where
  "snd_insert_at_head s loc seqno1 seqno2 = do {
     let s = s\<lparr>sl_lastins := sl_head s\<rparr>;
     if seqno2 \<noteq> seqno1 then do {
       n \<leftarrow> sl_get s loc;
       if sdata2 n = - 1 then snd_extend s loc seqno1 seqno2
       else if seqcmp seqno2 (sdata2 n) > 0 then snd_extend s loc (sdata2 n) seqno2
       else Some (s, None)
     } else Some (s, None)
   }"

text \<open>Coalescing with the next node, e.g. [3, 7], ..., [6, 9] becomes [3, 9].\<close>

fun snd_coalesce :: "nat \<Rightarrow> CSndLossList \<Rightarrow> int \<Rightarrow> CSndLossList option" where
  "snd_coalesce 0 s loc = None"
| "snd_coalesce (Suc fuel) s loc = do {
     n \<leftarrow> sl_get s loc;
     if snext n \<noteq> - 1 \<and> sdata2 n \<noteq> - 1 then do {
       let i = snext n;
       m \<leftarrow> sl_get s i;
       if seqcmp (sdata1 m) (incseq (sdata2 n)) > 0 then Some s
       else do {
         s \<leftarrow> (if sdata2 m \<noteq> - 1 then
                 (if seqcmp (sdata2 m) (sdata2 n) > 0
                  then sl_upd (if seqcmp (sdata2 n) (sdata1 m) \<ge> 0
                               then sl_add_len (- seqlen (sdata1 m) (sdata2 n)) s else s)
                         loc (\<lambda>n. n\<lparr>sdata2 := sdata2 m\<rparr>)
                  else Some (sl_add_len (- seqlen (sdata1 m) (sdata2 m)) s))
               else if sdata1 m = incseq (sdata2 n) then sl_upd s loc (\<lambda>n. n\<lparr>sdata2 := sdata1 m\<rparr>)
               else Some (sl_add_len (- 1) s));
         s \<leftarrow> sl_upd s i (\<lambda>m. m\<lparr>sdata1 := - 1, sdata2 := - 1\<rparr>);
         s \<leftarrow> sl_upd s loc (\<lambda>n. n\<lparr>snext := snext m\<rparr>);
         snd_coalesce fuel s loc
       }
     } else Some s
   }"

definition snd_insert :: "CSndLossList \<Rightarrow> int \<Rightarrow> int \<Rightarrow> (int \<times> CSndLossList) option" where
  "snd_insert s seqno1 seqno2 =
     (if sl_length s = 0 then do {
        s \<leftarrow> snd_put (s\<lparr>sl_head := 0\<rparr>) 0 seqno1 seqno2;
        s \<leftarrow> sl_upd s 0 (\<lambda>n. n\<lparr>snext := - 1\<rparr>);
        let s = sl_add_len (seqlen seqno1 seqno2) (s\<lparr>sl_lastins := 0\<rparr>);
        Some (sl_length s, s)
      } else do {
        let origlen = sl_length s;
        n \<leftarrow> sl_get s (sl_head s);
        let offset = seqoff (sdata1 n) seqno1;
        let loc = c_rem (sl_head s + offset + sl_size s) (sl_size s);
        r \<leftarrow> (if offset < 0 then snd_insert_before s loc seqno1 seqno2
              else if offset > 0 then snd_insert_after s loc seqno1 seqno2
              else snd_insert_at_head s loc seqno1 seqno2);
        case r of
          (s, None) \<Rightarrow> Some (0, s)
        | (s, Some loc) \<Rightarrow> do {
            s \<leftarrow> snd_coalesce (nat (sl_size s)) s loc;
            Some (sl_length s - origlen, s)
          }
      })"

subsection \<open>Removal and retrieval\<close>

text \<open>Remove all nodes prior to the new head.\<close>

fun snd_drop_until :: "nat \<Rightarrow> CSndLossList \<Rightarrow> int \<Rightarrow> CSndLossList option" where
  "snd_drop_until 0 s h = None"
| "snd_drop_until (Suc fuel) s h =
     (if h \<noteq> sl_head s then do {
        n \<leftarrow> sl_get s h;
        s \<leftarrow> (if sdata2 n \<noteq> - 1
              then sl_upd (sl_add_len (- seqlen (sdata1 n) (sdata2 n)) s) h (\<lambda>n. n\<lparr>sdata2 := - 1\<rparr>)
              else Some (sl_add_len (- 1) s));
        s \<leftarrow> sl_upd s h (\<lambda>n. n\<lparr>sdata1 := - 1\<rparr>);
        let s = (if sl_lastins s = h then s\<lparr>sl_lastins := - 1\<rparr> else s);
        snd_drop_until fuel s (snext n)
      } else Some s)"

text \<open>The rest of a range after \<open>seqno\<close> moves to the slot \<open>loc\<close>: \<open>[seqno + 1, last]\<close>.\<close>

definition snd_put_tail :: "CSndLossList \<Rightarrow> int \<Rightarrow> int \<Rightarrow> int \<Rightarrow> CSndLossList option" where
  "snd_put_tail s loc seqno seqend = do {
     s \<leftarrow> sl_upd s loc (\<lambda>n. n\<lparr>sdata1 := incseq seqno\<rparr>);
     if seqcmp seqend (incseq seqno) > 0 then sl_upd s loc (\<lambda>n. n\<lparr>sdata2 := seqend\<rparr>) else Some s
   }"

definition snd_remove_head :: "CSndLossList \<Rightarrow> int \<Rightarrow> int \<Rightarrow> CSndLossList option" where
  "snd_remove_head s loc seqno = do {
     let loc = c_rem (loc + 1) (sl_size s);
     n \<leftarrow> sl_get s (sl_head s);
     sl \<leftarrow> (if sdata2 n = - 1 then Some (s, snext n)
            else do {
              s \<leftarrow> snd_put_tail s loc seqno (sdata2 n);
              s \<leftarrow> sl_upd s (sl_head s) (\<lambda>n. n\<lparr>sdata2 := - 1\<rparr>);
              n \<leftarrow> sl_get s (sl_head s);
              s \<leftarrow> sl_upd s loc (\<lambda>m. m\<lparr>snext := snext n\<rparr>);
              Some (s, loc)
            });
     let (s, loc) = sl;
     s \<leftarrow> sl_upd s (sl_head s) (\<lambda>n. n\<lparr>sdata1 := - 1\<rparr>);
     let s = (if sl_lastins s = sl_head s then s\<lparr>sl_lastins := - 1\<rparr> else s);
     Some (sl_add_len (- 1) (s\<lparr>sl_head := loc\<rparr>))
   }"

definition snd_remove_inner :: "CSndLossList \<Rightarrow> int \<Rightarrow> int \<Rightarrow> CSndLossList option" where
  "snd_remove_inner s loc seqno = do {
     let h = sl_head s;
     n \<leftarrow> sl_get s loc;
     s \<leftarrow>
       (if seqno = sdata1 n then do {
          let temp = loc;
          let loc = c_rem (loc + 1) (sl_size s);
          if sdata2 n = - 1 then Some (s\<lparr>sl_head := snext n\<rparr>)
          else do {
            s \<leftarrow> snd_put_tail s loc seqno (sdata2 n);
            let s = s\<lparr>sl_head := loc\<rparr>;
            n \<leftarrow> sl_get s temp;
            s \<leftarrow> sl_upd s loc (\<lambda>m. m\<lparr>snext := snext n\<rparr>);
            sl_upd s temp (\<lambda>n. n\<lparr>snext := loc, sdata2 := - 1\<rparr>)
          }
        } else do {
          i \<leftarrow> snd_find_prior (nat (sl_size s)) s (sl_head s) seqno;
          let loc = c_rem (loc + 1) (sl_size s);
          m \<leftarrow> sl_get s i;
          if sdata2 m = - 1 then Some (s\<lparr>sl_head := snext m\<rparr>)
          else if seqcmp (sdata2 m) seqno > 0 then do {
            s \<leftarrow> snd_put_tail s loc seqno (sdata2 m);
            s \<leftarrow> sl_upd s i (\<lambda>n. n\<lparr>sdata2 := seqno\<rparr>);
            m \<leftarrow> sl_get s i;
            s \<leftarrow> sl_upd s loc (\<lambda>n. n\<lparr>snext := snext m\<rparr>);
            s \<leftarrow> sl_upd s i (\<lambda>n. n\<lparr>snext := loc\<rparr>);
            Some (s\<lparr>sl_head := loc\<rparr>)
          } else Some (s\<lparr>sl_head := snext m\<rparr>)
        });
     snd_drop_until (Suc (nat (sl_size s))) s h
   }"

definition snd_remove :: "CSndLossList \<Rightarrow> int \<Rightarrow> CSndLossList option" where
  "snd_remove s seqno =
     (if sl_length s = 0 then Some s
      else do {
        n \<leftarrow> sl_get s (sl_head s);
        let offset = seqoff (sdata1 n) seqno;
        let loc = c_rem (sl_head s + offset + sl_size s) (sl_size s);
        if offset = 0 then snd_remove_head s loc seqno
        else if offset > 0 then snd_remove_inner s loc seqno
        else Some s
      })"

definition snd_getLossLength :: "CSndLossList \<Rightarrow> int" where
  "snd_getLossLength s = sl_length s"

definition snd_popLostSeq :: "CSndLossList \<Rightarrow> (int \<times> CSndLossList) option" where
  "snd_popLostSeq s =
     (if sl_length s = 0 then Some (- 1, s)
      else do {
        let s = (if sl_lastins s = sl_head s then s\<lparr>sl_lastins := - 1\<rparr> else s);
        n \<leftarrow> sl_get s (sl_head s);
        let seqno = sdata1 n;
        s \<leftarrow>
          (if sdata2 n = - 1 then do {
             s \<leftarrow> sl_upd s (sl_head s) (\<lambda>n. n\<lparr>sdata1 := - 1\<rparr>);
             Some (s\<lparr>sl_head := snext n\<rparr>)
           } else do {
             let loc = c_rem (sl_head s + 1) (sl_size s);
             s \<leftarrow> snd_put_tail s loc seqno (sdata2 n);
             s \<leftarrow> sl_upd s (sl_head s) (\<lambda>n. n\<lparr>sdata1 := - 1, sdata2 := - 1\<rparr>);
             n \<leftarrow> sl_get s (sl_head s);
             s \<leftarrow> sl_upd s loc (\<lambda>m. m\<lparr>snext := snext n\<rparr>);
             Some (s\<lparr>sl_head := loc\<rparr>)
           });
        Some (seqno, sl_add_len (- 1) s)
      })"

subsection \<open>Representation\<close>

fun snd_links :: "int \<Rightarrow> int \<Rightarrow> (int \<Rightarrow> snd_node) \<Rightarrow> ivl list \<Rightarrow> int \<Rightarrow> bool" where
  "snd_links n c A [] r \<longleftrightarrow> True"
| "snd_links n c A ((l, h) # xs) r \<longleftrightarrow>
     A (slot n c l) = \<lparr>sdata1 = sq l, sdata2 = enc_end l h, snext = start n c xs r\<rparr> \<and>
     snd_links n c A xs r"

definition snd_free :: "int \<Rightarrow> (int \<Rightarrow> snd_node) \<Rightarrow> int set \<Rightarrow> bool" where
  "snd_free n A S \<longleftrightarrow> (\<forall>p. 0 \<le> p \<and> p < n \<and> p \<notin> S \<longrightarrow> sdata1 (A p) = - 1 \<and> sdata2 (A p) = - 1)"

definition snd_rep0 :: "int \<Rightarrow> int \<Rightarrow> CSndLossList \<Rightarrow> ivl list \<Rightarrow> bool" where
  "snd_rep0 c b s xs \<longleftrightarrow>
     0 < sl_size s \<and> sl_size s \<le> 536870912 \<and> lo_sorted xs \<and> in_win b (sl_size s) xs \<and>
     snd_links (sl_size s) c (sl_seq s) xs (- 1) \<and>
     snd_free (sl_size s) (sl_seq s) (slots (sl_size s) c xs) \<and>
     (xs \<noteq> [] \<longrightarrow> sl_head s = start (sl_size s) c xs (- 1)) \<and>
     sl_length s = ivlen xs \<and>
     (sl_lastins s = - 1 \<or> sl_lastins s \<in> slots (sl_size s) c xs)"

definition snd_rep :: "int \<Rightarrow> int \<Rightarrow> CSndLossList \<Rightarrow> ivl list \<Rightarrow> bool" where
  "snd_rep c b s xs \<longleftrightarrow> snd_rep0 c b s xs \<and> separated xs"

lemma snd_links_append [simp]:
  "snd_links n c A (xs @ ys) r \<longleftrightarrow> snd_links n c A xs (start n c ys r) \<and> snd_links n c A ys r"
  by (induction n c A xs r rule: snd_links.induct) (auto simp: start_append)

lemma snd_links_upd [simp]:
  "q \<notin> slots n c xs \<Longrightarrow> snd_links n c (A(q := v)) xs r = snd_links n c A xs r"
  by (induction n c A xs r rule: snd_links.induct) auto

lemma snd_rep0_merge:
  assumes "snd_rep0 c b s (pre @ (l, h) # (l2, h2) # zs)"
    and "l < h'" "h' < b + sl_size s"
    and "sl_seq s' = (sl_seq s)(slot (sl_size s) c l := \<lparr>sdata1 = sq l, sdata2 = sq h',
          snext = start (sl_size s) c zs (- 1)\<rparr>, slot (sl_size s) c l2 := \<lparr>sdata1 = - 1, sdata2 = - 1, snext = w\<rparr>)"
    and "sl_size s' = sl_size s" "sl_head s' = sl_head s" "sl_lastins s' = slot (sl_size s) c l"
    and "sl_length s' = sl_length s - (h - l + 1) - (h2 - l2 + 1) + (h' - l + 1)"
  shows "snd_rep0 c b s' (pre @ (l, h') # zs)"
proof -
  let ?n = "sl_size s"
  have w: "in_win b ?n (pre @ (l, h) # (l2, h2) # zs)" and lo: "lo_sorted (pre @ (l, h) # (l2, h2) # zs)"
    using assms(1) by (simp_all add: snd_rep0_def)
  have d1: "slot ?n c l \<notin> slots ?n c pre" "slot ?n c l \<noteq> slot ?n c l2" "slot ?n c l \<notin> slots ?n c zs"
    using slots_middle [OF w lo] by auto
  have d2: "slot ?n c l2 \<notin> slots ?n c pre" "slot ?n c l2 \<notin> slots ?n c zs"
    using slots_middle [of b ?n "pre @ [(l, h)]" l2 h2 zs c] w lo by auto
  show ?thesis
    using assms d1 d2 unfolding snd_rep0_def
    by (auto simp: start_append snd_free_def split: if_splits)
qed

lemma snd_rep0D:
  assumes "snd_rep0 c b s xs"
  shows "0 < sl_size s" "sl_size s \<le> 536870912" "lo_sorted xs" "in_win b (sl_size s) xs"
    "snd_links (sl_size s) c (sl_seq s) xs (- 1)"
    "xs \<noteq> [] \<Longrightarrow> sl_head s = start (sl_size s) c xs (- 1)" "sl_length s = ivlen xs"
  using assms by (simp_all add: snd_rep0_def)

lemma snd_rep0_node:
  assumes "snd_rep0 c b s (pre @ (l, h) # ys)"
  shows "sl_seq s (slot (sl_size s) c l) =
    \<lparr>sdata1 = sq l, sdata2 = enc_end l h, snext = start (sl_size s) c ys (- 1)\<rparr>"
  using assms by (simp add: snd_rep0_def)

lemma sl_get_in [simp]: "0 \<le> i \<Longrightarrow> i < sl_size s \<Longrightarrow> sl_get s i = Some (sl_seq s i)"
  by (simp add: sl_get_def)

lemma sl_upd_in [simp]: "0 \<le> i \<Longrightarrow> i < sl_size s \<Longrightarrow>
    sl_upd s i f = Some (s\<lparr>sl_seq := (sl_seq s)(i := f (sl_seq s i))\<rparr>)"
  by (simp add: sl_upd_def)

lemma sl_add_len_simps [simp]:
  "sl_size (sl_add_len d s) = sl_size s" "sl_seq (sl_add_len d s) = sl_seq s"
  "sl_head (sl_add_len d s) = sl_head s" "sl_lastins (sl_add_len d s) = sl_lastins s"
  "sl_length (sl_add_len d s) = sl_length s + d"
  by (simp_all add: sl_add_len_def)

text \<open>
  Coalescing: only the node at \<open>l\<close> may overlap its successors; afterwards it does not, and the
  content is the same.
\<close>

lemma snd_coalesce_correct:
  assumes "snd_rep0 c b s (pre @ (l, h) # ys)" "separated pre" "separated ys"
    "\<forall>x\<in>set pre. snd x < l"
    "sl_lastins s = slot (sl_size s) c l" "length ys < fuel"
  shows "\<exists>s' h' ys'. snd_coalesce fuel s (slot (sl_size s) c l) = Some s' \<and>
    snd_rep c b s' (pre @ (l, h') # ys') \<and> sl_size s' = sl_size s \<and>
    ivset ((l, h') # ys') = ivset ((l, h) # ys)"
  using assms
proof (induction ys arbitrary: s h fuel)
  case Nil
  then obtain f where f: "fuel = Suc f" by (cases fuel) auto
  have "l \<le> h" using snd_rep0D(3) [OF Nil.prems(1)] by simp
  have "snd_coalesce fuel s (slot (sl_size s) c l) = Some s"
    using f snd_rep0_node [OF Nil.prems(1)] snd_rep0D(1) [OF Nil.prems(1)] by simp
  moreover have "snd_rep c b s (pre @ (l, h) # [])"
    using Nil.prems \<open>l \<le> h\<close> by (simp add: snd_rep_def)
  ultimately show ?case by blast
next
  case (Cons y zs)
  obtain l2 h2 where y: "y = (l2, h2)" by (cases y)
  obtain f where f: "fuel = Suc f" using Cons.prems by (cases fuel) auto
  let ?n = "sl_size s"
  let ?p = "slot ?n c l" and ?i = "slot ?n c l2"
  note rep = Cons.prems(1) [unfolded y]
  note D = snd_rep0D [OF rep]
  have nl: "sl_seq s ?p = \<lparr>sdata1 = sq l, sdata2 = enc_end l h, snext = ?i\<rparr>"
    using snd_rep0_node [OF rep] by simp
  have n2: "sl_seq s ?i = \<lparr>sdata1 = sq l2, sdata2 = enc_end l2 h2, snext = start ?n c zs (- 1)\<rparr>"
    using snd_rep0_node [of c b s "pre @ [(l, h)]" l2 h2 zs] rep by simp
  have b: "b \<le> l" "l \<le> h" "h < b + ?n" "l < l2" "l2 \<le> h2" "h2 < b + ?n" "?n \<le> 536870912" "0 < ?n"
    using D by auto
  have pi: "?p \<noteq> ?i" using slots_middle [OF D(4,3)] by auto
  show ?case
  proof (cases "l = h \<or> h + 1 < l2")
    case True
    have "snd_coalesce fuel s ?p = Some s"
      using True nl n2 b f by (cases "l = h") (auto simp: seq_simps)
    moreover have "\<forall>x\<in>set pre. \<forall>u\<in>set (y # zs). snd x < fst u"
      using Cons.prems(3,4) y b by fastforce
    then have "separated (pre @ (l, h) # y # zs)"
      using Cons.prems True y b by fastforce
    moreover have "snd_rep c b s (pre @ (l, h) # y # zs)"
      using Cons.prems calculation by (simp add: snd_rep_def)
    ultimately show ?thesis by blast
  next
    case False
    let ?h' = "max h h2"
    define s' where "s' = s\<lparr>sl_length := sl_length s - (h - l + 1) - (h2 - l2 + 1) + (?h' - l + 1),
      sl_seq := (sl_seq s)(?p := \<lparr>sdata1 = sq l, sdata2 = sq ?h', snext = start ?n c zs (- 1)\<rparr>,
        ?i := \<lparr>sdata1 = - 1, sdata2 = - 1, snext = start ?n c zs (- 1)\<rparr>)\<rparr>"
    have step: "snd_coalesce fuel s ?p = snd_coalesce f s' ?p"
      using False nl n2 b pi f
      by (cases "l2 = h2"; cases "h < h2"; cases "l2 \<le> h")
        (auto simp: seq_simps s'_def fun_upd_twist max_def Let_def sl_add_len_def
          intro!: arg_cong2 [where f = "snd_coalesce f"] CSndLossList.equality)
    have "snd_rep0 c b s' (pre @ (l, ?h') # zs)"
      using rep by (rule snd_rep0_merge) (use False b Cons.prems(5) in \<open>auto simp: s'_def\<close>)
    from Cons.IH [OF this, of f] Cons.prems f y obtain s'' h'' ys'
      where "snd_coalesce f s' ?p = Some s''" "snd_rep c b s'' (pre @ (l, h'') # ys')"
        "sl_size s'' = sl_size s" "ivset ((l, h'') # ys') = ivset ((l, ?h') # zs)"
      by (auto simp: s'_def)
    moreover have "ivset ((l, ?h') # zs) = ivset ((l, h) # y # zs)"
      using False y b by auto
    ultimately show ?thesis using step by auto
  qed
qed

lemma snd_find_prior_correct:
  assumes "snd_rep0 c b s (pre @ (l, h) # ys)" "b - 268435456 \<le> q" "q < b + 805306368"
    "length ys < fuel"
  shows "\<exists>mid l' h' post. (l, h) # ys = mid @ (l', h') # post \<and>
    snd_find_prior fuel s (slot (sl_size s) c l) (sq q) = Some (slot (sl_size s) c l') \<and>
    (\<forall>y\<in>set post. q \<le> fst y) \<and> (l < q \<longrightarrow> l' < q)"
  using assms
proof (induction ys arbitrary: pre l h fuel)
  case Nil
  then obtain f where "fuel = Suc f" by (cases fuel) auto
  then have "snd_find_prior fuel s (slot (sl_size s) c l) (sq q) = Some (slot (sl_size s) c l)"
    using snd_rep0_node [OF Nil.prems(1)] snd_rep0D(1) [OF Nil.prems(1)] by simp
  then show ?case by (intro exI [of _ "[]"]) auto
next
  case (Cons y zs)
  obtain l2 h2 where y: "y = (l2, h2)" by (cases y)
  obtain f where f: "fuel = Suc f" using Cons.prems by (cases fuel) auto
  let ?n = "sl_size s"
  note rep = Cons.prems(1) [unfolded y]
  note D = snd_rep0D [OF rep]
  have rep2: "snd_rep0 c b s ((pre @ [(l, h)]) @ (l2, h2) # zs)" using rep by simp
  have nl: "sl_seq s (slot ?n c l) = \<lparr>sdata1 = sq l, sdata2 = enc_end l h, snext = slot ?n c l2\<rparr>"
    using snd_rep0_node [OF rep] by simp
  note n2 = snd_rep0_node [OF rep2]
  have b: "b \<le> l" "l2 < b + ?n" "l < l2" "?n \<le> 536870912" "0 < ?n" using D by auto
  show ?case
  proof (cases "l2 < q")
    case True
    have "snd_find_prior fuel s (slot ?n c l) (sq q) = snd_find_prior f s (slot ?n c l2) (sq q)"
      using True nl n2 b f Cons.prems(2,3) by (simp add: seq_simps)
    moreover from Cons.IH [OF rep2 Cons.prems(2,3), of f] Cons.prems(4) f
    obtain mid l' h' post where "(l2, h2) # zs = mid @ (l', h') # post"
      "snd_find_prior f s (slot ?n c l2) (sq q) = Some (slot ?n c l')"
      "\<forall>y\<in>set post. q \<le> fst y" "l2 < q \<longrightarrow> l' < q" by auto
    ultimately show ?thesis using True y by (intro exI [of _ "(l, h) # mid"]) auto
  next
    case False
    have "snd_find_prior fuel s (slot ?n c l) (sq q) = Some (slot ?n c l)"
      using False nl n2 b f Cons.prems(2,3) by (simp add: seq_simps)
    moreover have "\<forall>u\<in>set (y # zs). q \<le> fst u" using False D(3) y by fastforce
    ultimately show ?thesis by (intro exI [of _ "[]"]) auto
  qed
qed

text \<open>A new node between two neighbours, and in front of the head.\<close>

lemma snd_rep0_new:
  assumes "snd_rep0 c b s (pre @ ys)" and q: "q1 \<le> q2" "b \<le> q1" "q2 < b + sl_size s"
    and o: "\<forall>x\<in>set pre. fst x < q1" "\<forall>y\<in>set ys. q1 < fst y"
    and ne: "pre @ ys \<noteq> []"
    and A: "sl_seq s' = (if pre = [] then sl_seq s
        else (sl_seq s)(slot (sl_size s) c (fst (last pre)) :=
          (sl_seq s (slot (sl_size s) c (fst (last pre))))\<lparr>snext := slot (sl_size s) c q1\<rparr>))
        (slot (sl_size s) c q1 :=
          \<lparr>sdata1 = sq q1, sdata2 = enc_end q1 q2, snext = start (sl_size s) c ys (- 1)\<rparr>)"
    and h: "sl_head s' = (if pre = [] then slot (sl_size s) c q1 else sl_head s)"
    and l: "sl_length s' = sl_length s + (q2 - q1 + 1)"
    and i: "sl_lastins s' = slot (sl_size s) c q1" and z: "sl_size s' = sl_size s"
  shows "snd_rep0 c b s' (pre @ (q1, q2) # ys)"
proof -
  let ?n = "sl_size s" let ?p = "slot ?n c q1"
  note D = snd_rep0D [OF assms(1)]
  have lo: "lo_sorted (pre @ (q1, q2) # ys)" and w: "in_win b ?n (pre @ (q1, q2) # ys)"
    using D o q by auto
  have p: "?p \<notin> slots ?n c pre" "?p \<notin> slots ?n c ys" "slots ?n c pre \<inter> slots ?n c ys = {}"
    using slots_middle [OF w lo] by auto
  show ?thesis
  proof (cases pre rule: rev_cases)
    case Nil
    with assms p w lo show ?thesis by (auto simp: snd_rep0_def snd_free_def)
  next
    case (snoc us u)
    obtain ul uh where u: "u = (ul, uh)" by (cases u)
    have u2: "slot ?n c ul \<notin> slots ?n c us" "slot ?n c ul \<notin> slots ?n c ys"
      using slots_middle [of b ?n us ul uh ys c] D snoc u by auto
    have node: "sl_seq s (slot ?n c ul) = \<lparr>sdata1 = sq ul, sdata2 = enc_end ul uh, snext = start ?n c ys (- 1)\<rparr>"
      using snd_rep0_node [of c b s us ul uh ys] assms(1) snoc u by simp
    have "snd_links ?n c (sl_seq s') (pre @ (q1, q2) # ys) (- 1)"
      using D(5) p u2 node snoc u A by (auto simp: start_append)
    moreover have "snd_free ?n (sl_seq s') (slots ?n c (pre @ (q1, q2) # ys))"
      using assms(1) snoc u A by (auto simp: snd_rep0_def snd_free_def)
    moreover have "sl_head s' = start ?n c (pre @ (q1, q2) # ys) (- 1)"
      using D(6) ne h snoc u by (auto simp: start_append)
    ultimately show ?thesis using D lo w l i z by (simp add: snd_rep0_def)
  qed
qed

lemma snd_rep0_extend:
  assumes "snd_rep0 c b s (pre @ (l, h) # ys)" "l < h'" "h' < b + sl_size s"
    and "sl_seq s' = (sl_seq s)(slot (sl_size s) c l :=
        \<lparr>sdata1 = sq l, sdata2 = sq h', snext = start (sl_size s) c ys (- 1)\<rparr>)"
    and "sl_head s' = sl_head s" "sl_length s' = sl_length s + (h' - h)"
    and "sl_lastins s' = slot (sl_size s) c l" "sl_size s' = sl_size s"
  shows "snd_rep0 c b s' (pre @ (l, h') # ys)"
proof -
  have "slot (sl_size s) c l \<notin> slots (sl_size s) c pre" "slot (sl_size s) c l \<notin> slots (sl_size s) c ys"
    using slots_middle [of b "sl_size s" pre l h ys c] snd_rep0D [OF assms(1)] by auto
  then show ?thesis
    using assms by (auto simp: snd_rep0_def snd_free_def start_append)
qed

lemma snd_rep0_lastins: "snd_rep0 c b s xs \<Longrightarrow> p \<in> slots (sl_size s) c xs \<Longrightarrow>
    snd_rep0 c b (s\<lparr>sl_lastins := p\<rparr>) xs"
  by (simp add: snd_rep0_def)

lemma snd_rep_window:
  "snd_rep c b s xs \<Longrightarrow> in_win b' (sl_size s) xs \<Longrightarrow> snd_rep c b' s xs"
  by (simp add: snd_rep_def snd_rep0_def)

text \<open>There are at most as many nodes as slots, so the walks never run out of fuel.\<close>

lemma lo_sorted_length:
  assumes "lo_sorted xs" "in_win b n xs" "xs \<noteq> []"
  shows "int (length xs) \<le> b + n - fst (hd xs)"
  using assms
proof (induction xs)
  case (Cons x xs)
  obtain l h where x: "x = (l, h)" by (cases x)
  show ?case
  proof (cases xs)
    case Nil
    with Cons.prems x show ?thesis by auto
  next
    case (Cons y ys)
    with \<open>lo_sorted (x # xs)\<close> x have "l < fst (hd xs)" by auto
    with Cons.IH Cons.prems x Cons show ?thesis by auto
  qed
qed simp

lemma snd_rep0_length:
  assumes "snd_rep0 c b s xs"
  shows "length xs \<le> nat (sl_size s)"
proof (cases xs)
  case (Cons x ys)
  obtain l h where "x = (l, h)" by (cases x)
  with lo_sorted_length [OF snd_rep0D(3,4) [OF assms]] Cons snd_rep0D(4) [OF assms]
  show ?thesis by auto
qed simp

text \<open>What each case of \<open>insert\<close> leaves for the coalescing loop.\<close>

definition ins_post :: "int \<Rightarrow> int \<Rightarrow> ivl list \<Rightarrow> int \<Rightarrow> int \<Rightarrow> int \<Rightarrow> CSndLossList \<Rightarrow> int option \<Rightarrow> bool" where
  "ins_post c b xs n q1 q2 s r \<longleftrightarrow> sl_size s = n \<and> (case r of
     None \<Rightarrow> snd_rep c b s xs \<and> {q1..q2} \<subseteq> ivset xs
   | Some p \<Rightarrow> (\<exists>pre l h ys. p = slot n c l \<and> snd_rep0 c b s (pre @ (l, h) # ys) \<and>
       separated pre \<and> separated ys \<and> (\<forall>x\<in>set pre. snd x < l) \<and> sl_lastins s = slot n c l \<and>
       ivset (pre @ (l, h) # ys) = ivset xs \<union> {q1..q2}))"

lemma ins_postI:
  assumes "snd_rep0 c b s (pre @ (l, h) # ys)" "separated pre" "separated ys"
    "\<forall>x\<in>set pre. snd x < l" "sl_lastins s = slot (sl_size s) c l" "sl_size s = n" "p = slot n c l"
    "ivset (pre @ (l, h) # ys) = ivset xs \<union> {q1..q2}"
  shows "ins_post c b xs n q1 q2 s (Some p)"
  using assms unfolding ins_post_def by auto

lemma snd_finish:
  assumes "ins_post c b xs n q1 q2 s (Some p)"
  shows "\<exists>s' xs'. snd_coalesce (nat (sl_size s)) s p = Some s' \<and> snd_rep c b s' xs' \<and>
    sl_size s' = n \<and> ivset xs' = ivset xs \<union> {q1..q2}"
proof -
  from assms obtain pre l h ys where
    r: "p = slot n c l" "snd_rep0 c b s (pre @ (l, h) # ys)" "separated pre" "separated ys"
      "\<forall>x\<in>set pre. snd x < l" "sl_lastins s = slot n c l" "sl_size s = n"
      "ivset (pre @ (l, h) # ys) = ivset xs \<union> {q1..q2}"
    by (auto simp: ins_post_def)
  have "length ys < nat (sl_size s)" using snd_rep0_length [OF r(2)] by simp
  from snd_coalesce_correct [OF r(2-5) _ this] r obtain s' h' ys' where
    s': "snd_coalesce (nat (sl_size s)) s p = Some s'" "snd_rep c b s' (pre @ (l, h') # ys')"
      "sl_size s' = n" "ivset ((l, h') # ys') = ivset ((l, h) # ys)"
    by auto
  moreover have "ivset (pre @ (l, h') # ys') = ivset xs \<union> {q1..q2}"
    using s'(4) r(8) by auto
  ultimately show ?thesis by blast
qed

lemma snd_rep0_free:
  assumes "snd_rep0 c b s xs" "b \<le> q" "q < b + sl_size s" "q \<notin> fst ` set xs"
  shows "sdata1 (sl_seq s (slot (sl_size s) c q)) = - 1" "sdata2 (sl_seq s (slot (sl_size s) c q)) = - 1"
  using assms slot_notin_slots [OF snd_rep0D(4) [OF assms(1)] lo_sorted_nonempty [OF snd_rep0D(3) [OF assms(1)]]]
    slot_range [of "sl_size s" c q]
  unfolding snd_rep0_def snd_free_def by blast+

lemma snd_put_free:
  assumes "0 \<le> p" "p < sl_size s" "sdata2 (sl_seq s p) = - 1"
    "q2 - q1 < 2147483648" "q1 \<le> q2"
  shows "snd_put s p (sq q1) (sq q2) = Some (s\<lparr>sl_seq := (sl_seq s)(p := (sl_seq s p)
    \<lparr>sdata1 := sq q1, sdata2 := enc_end q1 q2\<rparr>)\<rparr>)"
  using assms by (auto simp: snd_put_def seq_simps intro!: CSndLossList.equality snd_node.equality)

lemma snd_insert_before_correct:
  assumes "snd_rep c b s xs" "xs \<noteq> []" "q1 < fst (hd xs)" "q1 \<le> q2" "b \<le> q1" "q2 < b + sl_size s"
  shows "\<exists>s' r. snd_insert_before s (slot (sl_size s) c q1) (sq q1) (sq q2) = Some (s', r) \<and>
    ins_post c b xs (sl_size s) q1 q2 s' r \<and> r \<noteq> None"
proof -
  let ?n = "sl_size s" let ?p = "slot ?n c q1"
  have rep: "snd_rep0 c b s ([] @ xs)" and sep: "separated xs" using assms(1) by (simp_all add: snd_rep_def)
  note D = snd_rep0D [OF rep]
  have o: "\<forall>y\<in>set xs. q1 < fst y" using assms(2,3) D(3) by (cases xs) fastforce+
  have fr: "sdata2 (sl_seq s ?p) = - 1"
    using snd_rep0_free(2) [OF rep, of q1] assms o by auto
  define s' where "s' = s\<lparr>sl_seq := (sl_seq s)(?p := \<lparr>sdata1 = sq q1, sdata2 = enc_end q1 q2,
    snext = start ?n c xs (- 1)\<rparr>), sl_head := ?p, sl_lastins := ?p, sl_length := sl_length s + (q2 - q1 + 1)\<rparr>"
  have step: "snd_insert_before s ?p (sq q1) (sq q2) = Some (s', Some ?p)"
    using D(1,2,6) assms fr
    by (auto simp: snd_insert_before_def snd_put_free s'_def seq_simps sl_add_len_def
        intro!: CSndLossList.equality)
  have "snd_rep0 c b s' ([] @ (q1, q2) # xs)"
    by (rule snd_rep0_new [OF rep]) (use assms o in \<open>auto simp: s'_def\<close>)
  then have "ins_post c b xs ?n q1 q2 s' (Some ?p)"
    by (rule ins_postI) (use sep in \<open>auto simp: s'_def\<close>)
  with step show ?thesis by auto
qed

lemma snd_extend_correct:
  assumes "snd_rep0 c b s (pre @ (l, h) # ys)" "separated (pre @ (l, h) # ys)"
    "h < h'" "h' < b + sl_size s" "sl_lastins s = slot (sl_size s) c l" "x = sq h"
    "{q1..q2} \<subseteq> {l..h'}" "{h + 1..h'} \<subseteq> {q1..q2}"
  shows "\<exists>s' r. snd_extend s (slot (sl_size s) c l) x (sq h') = Some (s', r) \<and>
    ins_post c b (pre @ (l, h) # ys) (sl_size s) q1 q2 s' r \<and> r \<noteq> None"
proof -
  let ?n = "sl_size s" let ?p = "slot ?n c l"
  note D = snd_rep0D [OF assms(1)]
  have b: "l \<le> h" "b \<le> l" using D by auto
  define s' where "s' = s\<lparr>sl_seq := (sl_seq s)(?p := \<lparr>sdata1 = sq l, sdata2 = sq h',
    snext = start ?n c ys (- 1)\<rparr>), sl_length := sl_length s + (h' - h)\<rparr>"
  have step: "snd_extend s ?p x (sq h') = Some (s', Some ?p)"
    using D(1,2) assms b snd_rep0_node [OF assms(1)]
    by (auto simp: snd_extend_def s'_def seq_simps sl_add_len_def intro!: CSndLossList.equality)
  have "snd_rep0 c b s' (pre @ (l, h') # ys)"
    by (rule snd_rep0_extend [OF assms(1)]) (use assms b in \<open>auto simp: s'_def\<close>)
  then have "ins_post c b (pre @ (l, h) # ys) ?n q1 q2 s' (Some ?p)"
    by (rule ins_postI) (use assms b in \<open>auto simp: s'_def\<close>)
  with step show ?thesis by auto
qed

lemma snd_insert_at_head_correct:
  assumes "snd_rep c b s ((q1, h) # ys)" "q1 \<le> q2" "q2 < b + sl_size s"
  shows "\<exists>s' r. snd_insert_at_head s (slot (sl_size s) c q1) (sq q1) (sq q2) = Some (s', r) \<and>
    ins_post c b ((q1, h) # ys) (sl_size s) q1 q2 s' r"
proof -
  let ?n = "sl_size s" let ?p = "slot ?n c q1"
  have rep: "snd_rep0 c b s ([] @ (q1, h) # ys)" and sep: "separated ([] @ (q1, h) # ys)"
    using assms(1) by (simp_all add: snd_rep_def)
  note D = snd_rep0D [OF rep]
  let ?s = "s\<lparr>sl_lastins := ?p\<rparr>"
  have hd: "sl_head s = ?p" using D(6) by simp
  have rep': "snd_rep0 c b ?s ([] @ (q1, h) # ys)"
    using snd_rep0_lastins [OF rep, of ?p] by simp
  have node: "sl_seq s ?p = \<lparr>sdata1 = sq q1, sdata2 = enc_end q1 h, snext = start ?n c ys (- 1)\<rparr>"
    using snd_rep0_node [OF rep] by simp
  have b: "b \<le> q1" "q1 \<le> h" "h < b + ?n" using D by auto
  show ?thesis
  proof (cases "q2 \<le> h")
    case True
    have "snd_insert_at_head s ?p (sq q1) (sq q2) = Some (?s, None)"
      using True node b assms D(1,2) hd by (auto simp: snd_insert_at_head_def seq_simps Let_def)
    moreover have "ins_post c b ((q1, h) # ys) ?n q1 q2 ?s None"
      using rep' sep True by (auto simp: ins_post_def snd_rep_def)
    ultimately show ?thesis by blast
  next
    case False
    have "snd_insert_at_head s ?p (sq q1) (sq q2) = snd_extend ?s ?p (sq h) (sq q2)"
      using False node b assms D(1,2) hd
      by (cases "q1 = h") (auto simp: snd_insert_at_head_def seq_simps Let_def)
    with snd_extend_correct [OF rep' sep, of q2 "sq h" q1 q2] False b assms show ?thesis by auto
  qed
qed

lemma snd_insert_after_hit:
  assumes "snd_rep c b s (pre @ (q1, h) # ys)" "q1 \<le> q2" "q2 < b + sl_size s"
  shows "\<exists>s' r. snd_insert_after s (slot (sl_size s) c q1) (sq q1) (sq q2) = Some (s', r) \<and>
    ins_post c b (pre @ (q1, h) # ys) (sl_size s) q1 q2 s' r"
proof -
  let ?n = "sl_size s" let ?p = "slot ?n c q1"
  have rep: "snd_rep0 c b s (pre @ (q1, h) # ys)" and sep: "separated (pre @ (q1, h) # ys)"
    using assms(1) by (simp_all add: snd_rep_def)
  note D = snd_rep0D [OF rep]
  let ?s = "s\<lparr>sl_lastins := ?p\<rparr>"
  have rep': "snd_rep0 c b ?s (pre @ (q1, h) # ys)"
    using snd_rep0_lastins [OF rep, of ?p] by simp
  have node: "sl_seq s ?p = \<lparr>sdata1 = sq q1, sdata2 = enc_end q1 h, snext = start ?n c ys (- 1)\<rparr>"
    using snd_rep0_node [OF rep] by simp
  have b: "b \<le> q1" "q1 \<le> h" "h < b + ?n" using D by auto
  consider "q1 = h" "q2 = h" | "q2 \<le> h" "q1 \<noteq> h" | "h < q2" using assms(2) by linarith
  then show ?thesis
  proof cases
    case 1
    have "snd_insert_after s ?p (sq q1) (sq q2) = Some (?s, Some ?p)"
      using 1 node b D(1,2) by (auto simp: snd_insert_after_def Let_def)
    moreover have "ins_post c b (pre @ (q1, h) # ys) ?n q1 q2 ?s (Some ?p)"
      by (rule ins_postI [OF rep']) (use sep 1 in auto)
    ultimately show ?thesis by blast
  next
    case 2
    have "snd_insert_after s ?p (sq q1) (sq q2) = Some (?s, None)"
      using 2 node b assms D(1,2) by (auto simp: snd_insert_after_def seq_simps Let_def)
    moreover have "ins_post c b (pre @ (q1, h) # ys) ?n q1 q2 ?s None"
      using rep' sep 2 by (auto simp: ins_post_def snd_rep_def)
    ultimately show ?thesis by blast
  next
    case 3
    have "snd_insert_after s ?p (sq q1) (sq q2) = snd_extend ?s ?p (sq h) (sq q2)"
      using 3 node b assms D(1,2)
      by (cases "q1 = h") (auto simp: snd_insert_after_def seq_simps Let_def)
    with snd_extend_correct [OF rep' sep, of q2 "sq h" q1 q2] 3 b assms show ?thesis by auto
  qed
qed

text \<open>No node starts at \<open>q1\<close>: the range goes behind the last node that starts before it.\<close>

lemma snd_insert_behind_correct:
  assumes "snd_rep c b s (pre @ (l, h) # ys)" "l < q1" "\<forall>y\<in>set ys. q1 < fst y"
    "q1 \<le> q2" "q2 < b + sl_size s"
  shows "\<exists>s' r. snd_insert_behind s (slot (sl_size s) c l) (slot (sl_size s) c q1) (sq q1) (sq q2) = Some (s', r)
    \<and> ins_post c b (pre @ (l, h) # ys) (sl_size s) q1 q2 s' r"
proof -
  let ?n = "sl_size s" let ?p = "slot ?n c q1" and ?i = "slot ?n c l"
  have rep: "snd_rep0 c b s (pre @ (l, h) # ys)" and sep: "separated (pre @ (l, h) # ys)"
    using assms(1) by (simp_all add: snd_rep_def)
  note D = snd_rep0D [OF rep]
  have node: "sl_seq s ?i = \<lparr>sdata1 = sq l, sdata2 = enc_end l h, snext = start ?n c ys (- 1)\<rparr>"
    by (rule snd_rep0_node [OF rep])
  have b: "b \<le> l" "l \<le> h" "h < b + ?n" using D by auto
  have notin: "q1 \<notin> fst ` set (pre @ (l, h) # ys)" using D(3) assms by force
  have fr: "sdata2 (sl_seq s ?p) = - 1"
    using snd_rep0_free(2) [OF rep, of q1] notin b assms by auto
  have pi: "?p \<noteq> ?i"
    using slot_inj [of ?n c q1 l] b assms by auto
  show ?thesis
  proof (cases "h < q1")
    case True
    define s' where "s' = s\<lparr>sl_seq := (sl_seq s)(?i := (sl_seq s ?i)\<lparr>snext := ?p\<rparr>,
      ?p := \<lparr>sdata1 = sq q1, sdata2 = enc_end q1 q2, snext = start ?n c ys (- 1)\<rparr>),
      sl_lastins := ?p, sl_length := sl_length s + (q2 - q1 + 1)\<rparr>"
    have step: "snd_insert_behind s ?i ?p (sq q1) (sq q2) = Some (s', Some ?p)"
      unfolding snd_insert_behind_def using True node b assms(2-5) D(1,2) fr pi
      by (auto simp: snd_put_free s'_def seq_simps sl_add_len_def fun_upd_twist enc_end_def
          intro!: CSndLossList.equality)
    have "snd_rep0 c b s' ((pre @ [(l, h)]) @ (q1, q2) # ys)"
    proof (rule snd_rep0_new)
      show "\<forall>x\<in>set (pre @ [(l, h)]). fst x < q1" using D(3) assms(2) by fastforce
    qed (use rep assms b in \<open>auto simp: s'_def\<close>)
    then have "ins_post c b (pre @ (l, h) # ys) ?n q1 q2 s' (Some ?p)"
    proof (rule ins_postI)
      show "\<forall>x\<in>set (pre @ [(l, h)]). snd x < q1" using sep True assms(2) by fastforce
    qed (use sep in \<open>auto simp: s'_def\<close>)
    with step show ?thesis by auto
  next
    case False
    let ?s = "s\<lparr>sl_lastins := ?i\<rparr>"
    have rep': "snd_rep0 c b ?s (pre @ (l, h) # ys)"
      using snd_rep0_lastins [OF rep, of ?i] by simp
    have req: "snd_insert_behind s ?i ?p (sq q1) (sq q2) = (if h < q2 then snd_extend ?s ?i (sq h) (sq q2) else Some (?s, None))"
      unfolding snd_insert_behind_def using False node b assms(2-5) D(1,2) by (auto simp: seq_simps Let_def)
    show ?thesis
    proof (cases "h < q2")
      case True
      with req snd_extend_correct [OF rep' sep, of q2 "sq h" q1 q2] False b assms show ?thesis by auto
    next
      case F: False
      have "ins_post c b (pre @ (l, h) # ys) ?n q1 q2 ?s None"
        using rep' sep False F assms(2) by (auto simp: ins_post_def snd_rep_def)
      with req F show ?thesis by auto
    qed
  qed
qed

lemma snd_walk_start:
  assumes "snd_rep0 c b s xs" "xs \<noteq> []" "fst (hd xs) < q1" "b \<le> q1" "q1 < b + sl_size s"
  shows "\<exists>pre l h ys. xs = pre @ (l, h) # ys \<and> l < q1 \<and>
    (if sl_lastins s \<noteq> - 1
     then do { m \<leftarrow> sl_get s (sl_lastins s);
               Some (if seqcmp (sdata1 m) (sq q1) < 0 then sl_lastins s else sl_head s) }
     else Some (sl_head s)) = Some (slot (sl_size s) c l)"
proof -
  note D = snd_rep0D [OF assms(1)]
  obtain l0 h0 zs where xs: "xs = (l0, h0) # zs" using assms(2) by (cases xs) auto
  have hd: "sl_head s = slot (sl_size s) c l0" using D(6) xs by simp
  show ?thesis
  proof (cases "sl_lastins s = - 1")
    case True
    then show ?thesis using xs hd assms(3) by (intro exI [of _ "[]"]) auto
  next
    case False
    then have "sl_lastins s \<in> slots (sl_size s) c xs" using assms(1) by (simp add: snd_rep0_def)
    then obtain l h where lh: "(l, h) \<in> set xs" "sl_lastins s = slot (sl_size s) c l"
      by (force simp: slots_def)
    then obtain pre ys where sp: "xs = pre @ (l, h) # ys" by (meson split_list)
    note node = snd_rep0_node [OF assms(1) [unfolded sp]]
    have b: "b \<le> l" "l < b + sl_size s"
      using in_winD [OF D(4) lh(1)] nonempty_ivlsD [OF lo_sorted_nonempty [OF D(3)] lh(1)] by auto
    show ?thesis
    proof (cases "l < q1")
      case True
      then show ?thesis using sp lh node b D(1,2) assms
        by (intro exI [of _ pre] exI [of _ l] exI [of _ h] exI [of _ ys]) (simp add: seq_simps)
    next
      case F: False
      then show ?thesis using xs lh node b D(1,2) assms hd
        by (intro exI [of _ "[]"] exI [of _ l0] exI [of _ h0] exI [of _ zs]) (simp add: seq_simps)
    qed
  qed
qed

lemma snd_insert_after_correct:
  assumes "snd_rep c b s xs" "xs \<noteq> []" "fst (hd xs) < q1" "q1 \<le> q2" "b \<le> q1" "q2 < b + sl_size s"
  shows "\<exists>s' r. snd_insert_after s (slot (sl_size s) c q1) (sq q1) (sq q2) = Some (s', r) \<and>
    ins_post c b xs (sl_size s) q1 q2 s' r"
proof (cases "q1 \<in> fst ` set xs")
  case True
  then obtain h where "(q1, h) \<in> set xs" by force
  then obtain pre ys where "xs = pre @ (q1, h) # ys" by (meson split_list)
  with snd_insert_after_hit assms show ?thesis by simp
next
  case False
  have rep: "snd_rep0 c b s xs" using assms(1) by (simp add: snd_rep_def)
  note D = snd_rep0D [OF rep]
  let ?n = "sl_size s"
  have q: "q1 < b + ?n" using assms by simp
  from snd_walk_start [OF rep assms(2,3,5) q] obtain pre l h ys where
    st: "xs = pre @ (l, h) # ys" "l < q1"
      "(if sl_lastins s \<noteq> - 1
       then do { m \<leftarrow> sl_get s (sl_lastins s);
               Some (if seqcmp (sdata1 m) (sq q1) < 0 then sl_lastins s else sl_head s) }
       else Some (sl_head s)) = Some (slot ?n c l)" by blast
  have "length ys < nat ?n" using snd_rep0_length [OF rep] st by simp
  from snd_find_prior_correct [OF rep [unfolded st(1)] _ _ this, of q1] assms(5) q D(2)
  obtain mid l' h' post where fp: "(l, h) # ys = mid @ (l', h') # post"
    "snd_find_prior (nat ?n) s (slot ?n c l) (sq q1) = Some (slot ?n c l')"
    "\<forall>y\<in>set post. q1 \<le> fst y" "l < q1 \<longrightarrow> l' < q1" by auto
  have xs: "xs = (pre @ mid) @ (l', h') # post" using st(1) fp(1) by simp
  have post: "\<forall>y\<in>set post. q1 < fst y"
    using fp(3) False xs by (force simp: order_less_le)
  have ne: "sdata1 (sl_seq s (slot ?n c q1)) \<noteq> sq q1"
    using snd_rep0_free(1) [OF rep assms(5) q False] by simp
  show ?thesis
    using snd_insert_behind_correct [OF assms(1) [unfolded xs] _ post assms(4) assms(6)] st fp ne D(1) xs
    by (simp add: snd_insert_after_def)
qed

lemma snd_insert_empty:
  assumes "snd_rep c b s []" "q1 \<le> q2" "b \<le> q1" "q2 < b + sl_size s"
  shows "\<exists>s'. snd_insert s (sq q1) (sq q2) = Some (q2 - q1 + 1, s') \<and>
    snd_rep (- q1) b s' [(q1, q2)] \<and> sl_size s' = sl_size s"
proof -
  have rep: "snd_rep0 c b s []" using assms(1) by (simp add: snd_rep_def)
  note D = snd_rep0D [OF rep]
  have fr: "\<And>p. 0 \<le> p \<Longrightarrow> p < sl_size s \<Longrightarrow> sdata1 (sl_seq s p) = - 1 \<and> sdata2 (sl_seq s p) = - 1"
    using rep by (simp add: snd_rep0_def snd_free_def)
  have sl: "slot (sl_size s) (- q1) q1 = 0" using D(1) by (simp add: slot_def)
  define s' where "s' = s\<lparr>sl_seq := (sl_seq s)(0 := \<lparr>sdata1 = sq q1, sdata2 = enc_end q1 q2, snext = - 1\<rparr>),
    sl_head := 0, sl_lastins := 0, sl_length := q2 - q1 + 1\<rparr>"
  have "snd_insert s (sq q1) (sq q2) = Some (q2 - q1 + 1, s')"
    using D(1,2,7) assms fr [of 0]
    by (auto simp: snd_insert_def snd_put_free s'_def seq_simps sl_add_len_def
        intro!: CSndLossList.equality)
  moreover have "snd_rep (- q1) b s' [(q1, q2)]"
    using D assms fr sl by (auto simp: s'_def snd_rep_def snd_rep0_def snd_free_def)
  ultimately show ?thesis by (auto simp: s'_def)
qed

lemma snd_rep_length_card: "snd_rep c b s xs \<Longrightarrow> sl_length s = int (card (ivset xs))"
  using ivlen_card snd_rep0D(7) unfolding snd_rep_def by auto

lemma card_Un_Diff_int:
  "finite A \<Longrightarrow> finite B \<Longrightarrow> int (card (A \<union> B)) - int (card A) = int (card (B - A))"
  using card_Un_disjoint [of A "B - A"] by simp

lemma snd_insert_correct:
  assumes "snd_rep c b s xs" "q1 \<le> q2" "b \<le> q1" "q2 < b + sl_size s"
  shows "\<exists>s' c' xs' k. snd_insert s (sq q1) (sq q2) = Some (k, s') \<and> snd_rep c' b s' xs' \<and>
    sl_size s' = sl_size s \<and> ivset xs' = ivset xs \<union> {q1..q2} \<and> k = int (card ({q1..q2} - ivset xs))"
proof (cases xs)
  case Nil
  with snd_insert_empty [of c b s q1 q2] assms show ?thesis by fastforce
next
  case (Cons x zs)
  obtain l0 h0 where x: "x = (l0, h0)" by (cases x)
  let ?n = "sl_size s"
  have rep: "snd_rep0 c b s ([] @ (l0, h0) # zs)" using assms(1) Cons x by (simp add: snd_rep_def)
  note D = snd_rep0D [OF rep]
  have hd: "sl_head s = slot ?n c l0" using D(6) by simp
  have len: "sl_length s \<noteq> 0"
    using ivlen_eq_0 [OF lo_sorted_nonempty [OF D(3)]] D(7) by simp
  have b: "b \<le> l0" "l0 < b + ?n" using D by auto
  have off: "seqoff (sq l0) (sq q1) = q1 - l0" using b assms D(2) by (simp add: seq_simps)
  have loc: "c_rem (slot ?n c l0 + (q1 - l0) + ?n) ?n = slot ?n c q1"
    using slot_c_rem [of ?n "q1 - l0" c l0] D(1) b assms by simp
  define r where "r = (if q1 - l0 < 0 then snd_insert_before s (slot ?n c q1) (sq q1) (sq q2)
    else if q1 - l0 > 0 then snd_insert_after s (slot ?n c q1) (sq q1) (sq q2)
    else snd_insert_at_head s (slot ?n c q1) (sq q1) (sq q2))"
  have "\<exists>s' r'. r = Some (s', r') \<and> ins_post c b xs ?n q1 q2 s' r'"
    using snd_insert_before_correct [OF assms(1), of q1 q2] snd_insert_after_correct [OF assms(1), of q1 q2]
      snd_insert_at_head_correct [of c b s q1 h0 zs q2] assms Cons x
    unfolding r_def by (cases q1 l0 rule: linorder_cases) auto
  then obtain s' r' where s': "r = Some (s', r')" "ins_post c b xs ?n q1 q2 s' r'" by blast
  have ins: "snd_insert s (sq q1) (sq q2) = (case r' of None \<Rightarrow> Some (0, s')
      | Some loc \<Rightarrow> do { s'' \<leftarrow> snd_coalesce (nat (sl_size s')) s' loc;
          Some (sl_length s'' - sl_length s, s'') })"
    using len hd snd_rep0_node [OF rep] D(1) off loc s'(1) unfolding snd_insert_def r_def
    by (simp add: Let_def slot_shift cong: if_cong split del: if_split)
  show ?thesis
  proof (cases r')
    case None
    with s'(2) have p: "snd_rep c b s' xs" "{q1..q2} \<subseteq> ivset xs" "sl_size s' = ?n"
      by (auto simp: ins_post_def)
    from p(2) have e: "{q1..q2} - ivset xs = {}" by blast
    have "snd_insert s (sq q1) (sq q2) = Some (0, s')" using ins None by simp
    with p e show ?thesis by (intro exI conjI) (assumption, auto)
  next
    case (Some p)
    from snd_finish [OF s'(2) [unfolded Some]] obtain s'' xs' where
      f: "snd_coalesce (nat (sl_size s')) s' p = Some s''" "snd_rep c b s'' xs'"
        "sl_size s'' = ?n" "ivset xs' = ivset xs \<union> {q1..q2}" by auto
    have "sl_length s'' - sl_length s = int (card ({q1..q2} - ivset xs))"
      using snd_rep_length_card [OF f(2)] snd_rep_length_card [OF assms(1)]
        card_Un_Diff_int [of "ivset xs" "{q1..q2}"] f(4) by simp
    with f ins Some show ?thesis by auto
  qed
qed

subsection \<open>Removal: representation steps\<close>

lemma snd_put_tail_free:
  assumes "0 \<le> p" "p < sl_size s" "sdata2 (sl_seq s p) = - 1" "q < h" "h - q < 536870912"
  shows "snd_put_tail s p (sq q) (sq h) = Some (s\<lparr>sl_seq := (sl_seq s)(p := (sl_seq s p)
    \<lparr>sdata1 := sq (q + 1), sdata2 := enc_end (q + 1) h\<rparr>)\<rparr>)"
  using assms by (auto simp: snd_put_tail_def seq_simps intro!: CSndLossList.equality snd_node.equality)

lemma snd_rep0_drop_head:
  assumes "snd_rep0 c b s ((l, h) # ys)"
    and "sl_seq s' = (sl_seq s)(slot (sl_size s) c l := \<lparr>sdata1 = - 1, sdata2 = - 1, snext = w\<rparr>)"
    and "ys \<noteq> [] \<Longrightarrow> sl_head s' = start (sl_size s) c ys (- 1)" "sl_length s' = sl_length s - (h - l + 1)"
    and "sl_lastins s' = (if sl_lastins s = slot (sl_size s) c l then - 1 else sl_lastins s)"
    and "sl_size s' = sl_size s"
  shows "snd_rep0 c b s' ys"
proof -
  have "slot (sl_size s) c l \<notin> slots (sl_size s) c ys"
    using slots_middle [of b "sl_size s" "[]" l h ys c] snd_rep0D [OF assms(1)] by auto
  then show ?thesis
    using assms by (auto simp: snd_rep0_def snd_free_def)
qed

lemma snd_rep0_next_free:
  assumes "snd_rep0 c b s (pre @ (l, h) # ys)" "separated (pre @ (l, h) # ys)" "l \<le> q" "q < h"
  shows "sdata1 (sl_seq s (slot (sl_size s) c (q + 1))) = - 1"
    "sdata2 (sl_seq s (slot (sl_size s) c (q + 1))) = - 1"
    "slot (sl_size s) c (q + 1) \<notin> slots (sl_size s) c (pre @ (l, h) # ys)"
    "b \<le> q" "h < b + sl_size s"
proof -
  note D = snd_rep0D [OF assms(1)]
  have b: "b \<le> l" "h < b + sl_size s" using D by auto
  have n: "q + 1 \<notin> fst ` set (pre @ (l, h) # ys)"
    using assms(2-4) D(3) by force
  show "sdata1 (sl_seq s (slot (sl_size s) c (q + 1))) = - 1"
    "sdata2 (sl_seq s (slot (sl_size s) c (q + 1))) = - 1"
    using snd_rep0_free [OF assms(1) _ _ n] b assms(3,4) by auto
  show "slot (sl_size s) c (q + 1) \<notin> slots (sl_size s) c (pre @ (l, h) # ys)"
    using slot_notin_slots [OF D(4) lo_sorted_nonempty [OF D(3)] _ _ n] b assms(3,4) by auto
  show "b \<le> q" "h < b + sl_size s" using b assms by auto
qed

lemma snd_rep0_shift_head:
  assumes "snd_rep0 c b s ((l, h) # ys)" "separated ((l, h) # ys)" "l < h"
    and "sl_seq s' = (sl_seq s)(slot (sl_size s) c l := \<lparr>sdata1 = - 1, sdata2 = - 1, snext = w\<rparr>,
      slot (sl_size s) c (l + 1) := \<lparr>sdata1 = sq (l + 1), sdata2 = enc_end (l + 1) h,
        snext = start (sl_size s) c ys (- 1)\<rparr>)"
    and "sl_head s' = slot (sl_size s) c (l + 1)" "sl_length s' = sl_length s - 1"
    and "sl_lastins s' = (if sl_lastins s = slot (sl_size s) c l then - 1 else sl_lastins s)"
    and "sl_size s' = sl_size s"
  shows "snd_rep0 c b s' ((l + 1, h) # ys)"
proof -
  have n: "slot (sl_size s) c l \<notin> slots (sl_size s) c ys"
    using slots_middle [of b "sl_size s" "[]" l h ys c] snd_rep0D [OF assms(1)] by auto
  have "snd_rep0 c b s ([] @ (l, h) # ys)" "separated ([] @ (l, h) # ys)" using assms(1,2) by simp_all
  from snd_rep0_next_free [OF this, of l] assms(3)
  have m: "slot (sl_size s) c (l + 1) \<notin> slots (sl_size s) c ys"
    "slot (sl_size s) c (l + 1) \<noteq> slot (sl_size s) c l" by auto
  have "\<forall>y\<in>set ys. l + 1 < fst y" using assms(2,3) by fastforce
  with n m show ?thesis
    using assms by (auto simp: snd_rep0_def snd_free_def)
qed

text \<open>A range is cut behind \<open>q\<close>: no node leaves the list.\<close>

lemma snd_rep0_split:
  assumes "snd_rep0 c b s (pre @ (l, h) # ys)" "separated (pre @ (l, h) # ys)" "l \<le> q" "q < h"
    and A: "sl_seq s' = (sl_seq s)(slot (sl_size s) c l := \<lparr>sdata1 = sq l, sdata2 = enc_end l q,
        snext = slot (sl_size s) c (q + 1)\<rparr>,
      slot (sl_size s) c (q + 1) := \<lparr>sdata1 = sq (q + 1), sdata2 = enc_end (q + 1) h,
        snext = start (sl_size s) c ys (- 1)\<rparr>)"
    and "sl_head s' = sl_head s" "sl_length s' = sl_length s" "sl_lastins s' = sl_lastins s"
    and "sl_size s' = sl_size s"
  shows "snd_rep0 c b s' (pre @ (l, q) # (q + 1, h) # ys)"
    "separated (pre @ (l, q) # (q + 1, h) # ys)"
proof -
  let ?n = "sl_size s"
  note D = snd_rep0D [OF assms(1)]
  have n: "slot ?n c l \<notin> slots ?n c pre" "slot ?n c l \<notin> slots ?n c ys"
    using slots_middle [of b ?n pre l h ys c] D by auto
  from snd_rep0_next_free [OF assms(1-4)]
  have m: "slot ?n c (q + 1) \<notin> slots ?n c pre" "slot ?n c (q + 1) \<notin> slots ?n c ys"
    "slot ?n c (q + 1) \<noteq> slot ?n c l" by auto
  show sep: "separated (pre @ (l, q) # (q + 1, h) # ys)"
    using assms(2-4) by fastforce
  have "snd_links ?n c (sl_seq s') (pre @ (l, q) # (q + 1, h) # ys) (- 1)"
    using D(5) n m A by (auto simp: start_append)
  moreover have "snd_free ?n (sl_seq s') (slots ?n c (pre @ (l, q) # (q + 1, h) # ys))"
    using assms(1) A by (auto simp: snd_rep0_def snd_free_def)
  ultimately show "snd_rep0 c b s' (pre @ (l, q) # (q + 1, h) # ys)"
    using assms separated_lo_sorted [OF sep] by (auto simp: snd_rep0_def start_append)
qed

lemma snd_drop_until_correct:
  assumes "snd_rep0 c b (s\<lparr>sl_head := start (sl_size s) c (pre @ post) (- 1)\<rparr>) (pre @ post)"
    "sl_head s = start (sl_size s) c post (- 1)" "length pre < fuel"
  shows "\<exists>s'. snd_drop_until fuel s (start (sl_size s) c (pre @ post) (- 1)) = Some s' \<and>
    snd_rep0 c b s' post \<and> sl_size s' = sl_size s"
  using assms
proof (induction pre arbitrary: s fuel)
  case Nil
  then obtain f where "fuel = Suc f" by (cases fuel) auto
  moreover have "snd_rep0 c b s post" using Nil.prems by (simp add: snd_rep0_def)
  ultimately show ?case using Nil.prems by simp
next
  case (Cons x pre)
  obtain l h where x: "x = (l, h)" by (cases x)
  obtain f where f: "fuel = Suc f" using Cons.prems by (cases fuel) auto
  let ?n = "sl_size s" let ?p = "slot ?n c l"
  let ?s0 = "s\<lparr>sl_head := ?p\<rparr>"
  have rep: "snd_rep0 c b ?s0 ((l, h) # (pre @ post))" using Cons.prems(1) x by simp
  note D = snd_rep0D [OF rep, simplified]
  have node: "sl_seq s ?p = \<lparr>sdata1 = sq l, sdata2 = enc_end l h, snext = start ?n c (pre @ post) (- 1)\<rparr>"
    using snd_rep0_node [of c b ?s0 "[]" l h "pre @ post"] rep by simp
  have "?p \<notin> slots ?n c (pre @ post)"
    using slots_middle [of b ?n "[]" l h "pre @ post" c] D by auto
  then have hd: "?p \<noteq> sl_head s"
    using Cons.prems(2) D(1) by (cases post) auto
  have b: "l \<le> h" "b \<le> l" "h < b + ?n" using D by auto
  define s' where "s' = s\<lparr>sl_seq := (sl_seq s)(?p := \<lparr>sdata1 = - 1, sdata2 = - 1,
      snext = start ?n c (pre @ post) (- 1)\<rparr>),
    sl_lastins := (if sl_lastins s = ?p then - 1 else sl_lastins s),
    sl_length := sl_length s - (h - l + 1)\<rparr>"
  have step: "snd_drop_until fuel s ?p = snd_drop_until f s' (start ?n c (pre @ post) (- 1))"
    using f hd node D(1,2) b
    by (cases "l = h"; cases "sl_lastins s = ?p")
      (auto simp: Let_def s'_def seq_simps sl_add_len_def
        intro!: arg_cong2 [where f = "snd_drop_until f" and d = "start _ _ _ _"] CSndLossList.equality)
  have "snd_rep0 c b (s'\<lparr>sl_head := start ?n c (pre @ post) (- 1)\<rparr>) (pre @ post)"
    by (rule snd_rep0_drop_head [OF rep]) (auto simp: s'_def)
  with Cons.IH [of s' f] Cons.prems f step x show ?case by (auto simp: s'_def)
qed

subsection \<open>Removal and retrieval: correctness\<close>

lemma ivset_above:
  assumes "separated (pre @ ys)" "\<forall>x\<in>set pre. snd x \<le> q" "\<forall>y\<in>set ys. q < fst y"
  shows "{x \<in> ivset (pre @ ys). q < x} = ivset ys"
  using ivset_le [of pre "q + 1"] ivset_ge [of ys q] assms by fastforce

lemma ivset_behind_head:
  assumes "separated ((l, h) # ys)"
  shows "{x \<in> ivset ((l, h) # ys). l < x} = (if l < h then ivset ((l + 1, h) # ys) else ivset ys)"
    and "ivset ((l, h) # ys) - {l} = (if l < h then ivset ((l + 1, h) # ys) else ivset ys)"
proof -
  have ys: "h < x" if "x \<in> ivset ys" for x using assms ivset_ge [of ys h x] that by simp
  have lh: "l \<le> h" using assms by simp
  show "{x \<in> ivset ((l, h) # ys). l < x} = (if l < h then ivset ((l + 1, h) # ys) else ivset ys)"
    and "ivset ((l, h) # ys) - {l} = (if l < h then ivset ((l + 1, h) # ys) else ivset ys)"
    using lh by (auto dest: ys)
qed

lemma snd_remove_head_correct:
  assumes "snd_rep c b s ((l, h) # ys)"
  shows "\<exists>s' xs'. snd_remove_head s (slot (sl_size s) c l) (sq l) = Some s' \<and> snd_rep c b s' xs' \<and>
    sl_size s' = sl_size s \<and> ivset xs' = {x \<in> ivset ((l, h) # ys). l < x}"
proof -
  let ?n = "sl_size s" let ?p = "slot ?n c l" let ?q = "slot ?n c (l + 1)"
  have rep: "snd_rep0 c b s ([] @ (l, h) # ys)" and sep: "separated ([] @ (l, h) # ys)"
    using assms by (simp_all add: snd_rep_def)
  note D = snd_rep0D [OF rep]
  have hd: "sl_head s = ?p" using D(6) by simp
  have node: "sl_seq s ?p = \<lparr>sdata1 = sq l, sdata2 = enc_end l h, snext = start ?n c ys (- 1)\<rparr>"
    using snd_rep0_node [OF rep] by simp
  have loc: "c_rem (?p + 1) ?n = ?q"
    using slot_range(1) [of ?n c l] D(1) by (simp add: slot_shift)
  have abv: "{x \<in> ivset ((l, h) # ys). l < x} = (if l < h then ivset ((l + 1, h) # ys) else ivset ys)"
    using ivset_behind_head [of l h ys] sep by simp
  show ?thesis
  proof (cases "l = h")
    case True
    define s' where "s' = s\<lparr>sl_seq := (sl_seq s)(?p := \<lparr>sdata1 = - 1, sdata2 = - 1, snext = start ?n c ys (- 1)\<rparr>),
      sl_lastins := (if sl_lastins s = ?p then - 1 else sl_lastins s),
      sl_length := sl_length s - 1, sl_head := start ?n c ys (- 1)\<rparr>"
    have "snd_remove_head s ?p (sq l) = Some s'"
      using hd node D(1) True
      by (auto simp: snd_remove_head_def Let_def s'_def sl_add_len_def intro!: CSndLossList.equality)
    moreover have "snd_rep0 c b s' ys"
      by (rule snd_rep0_drop_head [OF rep [unfolded append_Nil]]) (use True in \<open>auto simp: s'_def\<close>)
    ultimately show ?thesis using abv True sep
      by (intro exI [of _ s'] exI [of _ ys]) (auto simp: snd_rep_def s'_def)
  next
    case False
    then have lh: "l < h" using D(3) by auto
    note fr = snd_rep0_next_free [OF rep sep _ lh, simplified]
    define s' where "s' = s\<lparr>sl_seq := (sl_seq s)(?p := \<lparr>sdata1 = - 1, sdata2 = - 1, snext = start ?n c ys (- 1)\<rparr>,
        ?q := \<lparr>sdata1 = sq (l + 1), sdata2 = enc_end (l + 1) h, snext = start ?n c ys (- 1)\<rparr>),
      sl_lastins := (if sl_lastins s = ?p then - 1 else sl_lastins s),
      sl_length := sl_length s - 1, sl_head := ?q\<rparr>"
    have pt: "snd_put_tail s ?q (sq l) (sq h) = Some (s\<lparr>sl_seq := (sl_seq s)(?q := (sl_seq s ?q)
      \<lparr>sdata1 := sq (l + 1), sdata2 := enc_end (l + 1) h\<rparr>)\<rparr>)"
      using snd_put_tail_free [of ?q s l h] D(1,2) fr lh by simp
    have "snd_remove_head s ?p (sq l) = Some s'"
      using hd node D(1) lh loc pt fr(3)
      by (auto simp: snd_remove_head_def Let_def s'_def sl_add_len_def fun_upd_twist simp del: c_rem_nonneg
          intro!: CSndLossList.equality)
    moreover have "snd_rep0 c b s' ((l + 1, h) # ys)"
      by (rule snd_rep0_shift_head [OF rep [unfolded append_Nil] sep [unfolded append_Nil]]) (use lh in \<open>auto simp: s'_def\<close>)
    moreover have "separated ((l + 1, h) # ys)" using sep lh by auto
    ultimately show ?thesis using abv lh
      by (intro exI [of _ s'] exI [of _ "(l + 1, h) # ys"]) (auto simp: snd_rep_def s'_def)
  qed
qed

lemma snd_popLostSeq_correct:
  assumes "snd_rep c b s ((l, h) # ys)"
  shows "\<exists>s' xs'. snd_popLostSeq s = Some (sq l, s') \<and> snd_rep c b s' xs' \<and>
    sl_size s' = sl_size s \<and> ivset xs' = ivset ((l, h) # ys) - {l}"
proof -
  let ?n = "sl_size s" let ?p = "slot ?n c l" let ?q = "slot ?n c (l + 1)"
  have rep: "snd_rep0 c b s ([] @ (l, h) # ys)" and sep: "separated ([] @ (l, h) # ys)"
    using assms by (simp_all add: snd_rep_def)
  note D = snd_rep0D [OF rep]
  have hd: "sl_head s = ?p" using D(6) by simp
  have len: "sl_length s \<noteq> 0"
    using ivlen_eq_0 [OF lo_sorted_nonempty [OF D(3)]] D(7) by simp
  have node: "sl_seq s ?p = \<lparr>sdata1 = sq l, sdata2 = enc_end l h, snext = start ?n c ys (- 1)\<rparr>"
    using snd_rep0_node [OF rep] by simp
  have loc: "c_rem (?p + 1) ?n = ?q"
    using slot_range(1) [of ?n c l] D(1) by (simp add: slot_shift)
  have abv: "ivset ((l, h) # ys) - {l} = (if l < h then ivset ((l + 1, h) # ys) else ivset ys)"
    using ivset_behind_head [of l h ys] sep by simp
  show ?thesis
  proof (cases "l = h")
    case True
    define s' where "s' = s\<lparr>sl_seq := (sl_seq s)(?p := \<lparr>sdata1 = - 1, sdata2 = - 1, snext = start ?n c ys (- 1)\<rparr>),
      sl_lastins := (if sl_lastins s = ?p then - 1 else sl_lastins s),
      sl_length := sl_length s - 1, sl_head := start ?n c ys (- 1)\<rparr>"
    have "snd_popLostSeq s = Some (sq l, s')"
      using hd node D(1) True len
      by (auto simp: snd_popLostSeq_def Let_def s'_def sl_add_len_def intro!: CSndLossList.equality)
    moreover have "snd_rep0 c b s' ys"
      by (rule snd_rep0_drop_head [OF rep [unfolded append_Nil]]) (use True in \<open>auto simp: s'_def\<close>)
    ultimately show ?thesis using abv True sep
      by (intro exI [of _ s'] exI [of _ ys]) (auto simp: snd_rep_def s'_def)
  next
    case False
    then have lh: "l < h" using D(3) by auto
    note fr = snd_rep0_next_free [OF rep sep _ lh, simplified]
    define s' where "s' = s\<lparr>sl_seq := (sl_seq s)(?p := \<lparr>sdata1 = - 1, sdata2 = - 1, snext = start ?n c ys (- 1)\<rparr>,
        ?q := \<lparr>sdata1 = sq (l + 1), sdata2 = enc_end (l + 1) h, snext = start ?n c ys (- 1)\<rparr>),
      sl_lastins := (if sl_lastins s = ?p then - 1 else sl_lastins s),
      sl_length := sl_length s - 1, sl_head := ?q\<rparr>"
    have pt: "\<And>i. snd_put_tail (s\<lparr>sl_lastins := i\<rparr>) ?q (sq l) (sq h) = Some (s\<lparr>sl_lastins := i,
      sl_seq := (sl_seq s)(?q := (sl_seq s ?q)\<lparr>sdata1 := sq (l + 1), sdata2 := enc_end (l + 1) h\<rparr>)\<rparr>)"
      using snd_put_tail_free [of ?q "s\<lparr>sl_lastins := _\<rparr>" l h] D(1,2) fr lh by simp
    from pt [of "sl_lastins s"] have pt': "snd_put_tail s ?q (sq l) (sq h) = Some (s\<lparr>
      sl_seq := (sl_seq s)(?q := (sl_seq s ?q)\<lparr>sdata1 := sq (l + 1), sdata2 := enc_end (l + 1) h\<rparr>)\<rparr>)" by simp
    have "snd_popLostSeq s = Some (sq l, s')"
      using hd node D(1) lh loc pt pt' fr(3) len
      by (auto simp: snd_popLostSeq_def Let_def s'_def sl_add_len_def fun_upd_twist simp del: c_rem_nonneg
          intro!: CSndLossList.equality)
    moreover have "snd_rep0 c b s' ((l + 1, h) # ys)"
      by (rule snd_rep0_shift_head [OF rep [unfolded append_Nil] sep [unfolded append_Nil]]) (use lh in \<open>auto simp: s'_def\<close>)
    moreover have "separated ((l + 1, h) # ys)" using sep lh by auto
    ultimately show ?thesis using abv lh
      by (intro exI [of _ s'] exI [of _ "(l + 1, h) # ys"]) (auto simp: snd_rep_def s'_def)
  qed
qed

lemma snd_rep0_set_head: "snd_rep0 c b s xs \<Longrightarrow> snd_rep0 c b (s\<lparr>sl_head := start (sl_size s) c xs (- 1)\<rparr>) xs"
  by (simp add: snd_rep0_def)

text \<open>Cutting the list before \<open>post\<close> and dropping what is in front of it.\<close>

lemma snd_drop_rest:
  assumes "snd_rep0 c b s (pre @ post)" "separated (pre @ post)" "pre @ post \<noteq> []"
    "\<forall>x\<in>set pre. snd x \<le> q" "\<forall>y\<in>set post. q < fst y"
    "ivset (pre @ post) = X"
    "h = sl_head s" "s1 = s\<lparr>sl_head := start (sl_size s) c post (- 1)\<rparr>" "n = sl_size s"
  shows "\<exists>s' xs'. snd_drop_until (Suc (nat n)) s1 h = Some s' \<and> snd_rep c b s' xs' \<and>
    sl_size s' = sl_size s \<and> ivset xs' = {x \<in> X. q < x}"
proof -
  have "h = start (sl_size s1) c (pre @ post) (- 1)"
    using snd_rep0D(6) [OF assms(1) assms(3)] assms by simp
  moreover have "length pre < Suc (nat n)" using snd_rep0_length [OF assms(1)] assms by simp
  moreover have "snd_rep0 c b (s1\<lparr>sl_head := start (sl_size s1) c (pre @ post) (- 1)\<rparr>) (pre @ post)"
    using snd_rep0_set_head [OF assms(1)] assms by simp
  ultimately obtain s' where "snd_drop_until (Suc (nat n)) s1 h = Some s'" "snd_rep0 c b s' post"
    "sl_size s' = sl_size s1"
    using snd_drop_until_correct [of c b s1 pre post "Suc (nat n)"] assms by auto
  moreover have "ivset post = {x \<in> X. q < x}"
    using ivset_above [OF assms(2,4,5)] unfolding assms(6) by simp
  ultimately show ?thesis using assms by (auto simp: snd_rep_def)
qed

lemma snd_remove_inner_correct:
  assumes "snd_rep c b s ((l0, h0) # zs)" "l0 < q" "q - b < 805306368" "n = sl_size s"
  shows "\<exists>s' xs'. snd_remove_inner s (slot n c q) (sq q) = Some s' \<and> snd_rep c b s' xs' \<and>
    sl_size s' = sl_size s \<and> ivset xs' = {x \<in> ivset ((l0, h0) # zs). q < x}"
proof -
  let ?n = "sl_size s" let ?p = "slot ?n c q" let ?q = "slot ?n c (q + 1)"
  have rep: "snd_rep0 c b s ([] @ (l0, h0) # zs)" and sep: "separated ([] @ (l0, h0) # zs)"
    using assms(1) by (simp_all add: snd_rep_def)
  note D = snd_rep0D [OF rep]
  have hd: "sl_head s = slot ?n c l0" using D(6) by simp
  have b: "b \<le> l0" using D by auto
  have loc: "c_rem (?p + 1) ?n = ?q"
    using slot_range(1) [of ?n c q] D(1) by (simp add: slot_shift)
  show ?thesis
  proof (cases "sdata1 (sl_seq s ?p) = sq q")
    case True
    then have "?p \<in> slots ?n c ((l0, h0) # zs)"
      using rep D(1) slot_range [of ?n c q] sq_range(4) [of q] unfolding snd_rep0_def snd_free_def
      by (metis append_Nil)
    then obtain l h where lh: "(l, h) \<in> set ((l0, h0) # zs)" "?p = slot ?n c l"
      unfolding slots_def by fastforce
    then obtain pre ys where sp: "(l0, h0) # zs = pre @ (l, h) # ys" by (meson split_list)
    have rep': "snd_rep0 c b s (pre @ (l, h) # ys)" and sep': "separated (pre @ (l, h) # ys)"
      using rep sep sp by simp_all
    have node: "sl_seq s ?p = \<lparr>sdata1 = sq l, sdata2 = enc_end l h, snext = start ?n c ys (- 1)\<rparr>"
      using snd_rep0_node [OF rep'] lh(2) by simp
    have bl: "b \<le> l" "l \<le> h" "h < b + ?n" using snd_rep0D [OF rep'] by auto
    have "l = q" using True node bl assms D(2) b by (simp add: seq_simps)
    have pre: "\<forall>x\<in>set pre. snd x \<le> q" using sep' \<open>l = q\<close> by fastforce
    show ?thesis
    proof (cases "q = h")
      case True
      have "snd_remove_inner s ?p (sq q) =
          snd_drop_until (Suc (nat ?n)) (s\<lparr>sl_head := start ?n c ys (- 1)\<rparr>) (sl_head s)"
        using node D(1) True \<open>l = q\<close> by (simp add: snd_remove_inner_def Let_def del: snd_drop_until.simps)
      moreover have "\<exists>s' xs'. snd_drop_until (Suc (nat ?n)) (s\<lparr>sl_head := start ?n c ys (- 1)\<rparr>) (sl_head s)
          = Some s' \<and> snd_rep c b s' xs' \<and> sl_size s' = ?n \<and> ivset xs' = {x \<in> ivset ((l0, h0) # zs). q < x}"
        by (rule snd_drop_rest [of c b s "pre @ [(l, h)]" ys]) (use rep' sep' pre True \<open>l = q\<close> sp in auto)
      ultimately show ?thesis using assms(4) by (simp del: snd_drop_until.simps)
    next
      case False
      then have lq: "l \<le> q" "q < h" using bl \<open>l = q\<close> by auto
      note fr = snd_rep0_next_free [OF rep' sep' lq]
      define s1 where "s1 = s\<lparr>sl_seq := (sl_seq s)(?p := \<lparr>sdata1 = sq l, sdata2 = enc_end l q, snext = ?q\<rparr>,
        ?q := \<lparr>sdata1 = sq (q + 1), sdata2 = enc_end (q + 1) h, snext = start ?n c ys (- 1)\<rparr>)\<rparr>"
      have pt: "snd_put_tail s ?q (sq q) (sq h) = Some (s\<lparr>sl_seq := (sl_seq s)(?q := (sl_seq s ?q)
          \<lparr>sdata1 := sq (q + 1), sdata2 := enc_end (q + 1) h\<rparr>)\<rparr>)"
        using snd_put_tail_free [of ?q s q h] D(1,2) fr lq by simp
      have pq: "?q \<noteq> ?p" using fr(3) lh by auto
      have eq: "snd_remove_inner s ?p (sq q) =
          snd_drop_until (Suc (nat ?n)) (s1\<lparr>sl_head := ?q\<rparr>) (sl_head s)"
        using node D(1) lq \<open>l = q\<close> loc pt pq
        by (auto simp: snd_remove_inner_def Let_def s1_def fun_upd_twist simp del: c_rem_nonneg snd_drop_until.simps
          intro!: arg_cong2 [where f = "snd_drop_until _" and d = "sl_head _"] CSndLossList.equality)
      have sep1: "separated (pre @ (l, q) # (q + 1, h) # ys)"
        using sep' lq by fastforce
      have rep1: "snd_rep0 c b s1 (pre @ (l, q) # (q + 1, h) # ys)"
        by (rule snd_rep0_split [OF rep' sep' lq]) (simp_all add: s1_def lh(2) [symmetric])
      from rep1 sep1 have "\<exists>s' xs'. snd_drop_until (Suc (nat ?n)) (s1\<lparr>sl_head := ?q\<rparr>) (sl_head s)
          = Some s' \<and> snd_rep c b s' xs' \<and> sl_size s' = sl_size s1 \<and>
            ivset xs' = {x \<in> ivset ((l0, h0) # zs). q < x}"
        by (intro snd_drop_rest [of c b s1 "pre @ [(l, q)]" "(q + 1, h) # ys"])
          (use pre lq sp sep' in \<open>auto simp: s1_def\<close>)
      then show ?thesis unfolding assms(4) eq by (simp add: s1_def del: snd_drop_until.simps)
    qed
  next
    case miss: False
    have "length zs < nat ?n" using snd_rep0_length [OF rep] by simp
    from snd_find_prior_correct [OF rep _ _ this, of q] b assms(2,3) D(2)
    obtain mid l h ys where fp: "(l0, h0) # zs = mid @ (l, h) # ys"
      "snd_find_prior (nat ?n) s (slot ?n c l0) (sq q) = Some (slot ?n c l)"
      "\<forall>y\<in>set ys. q \<le> fst y" "l < q" by auto
    have rep': "snd_rep0 c b s (mid @ (l, h) # ys)" and sep': "separated (mid @ (l, h) # ys)"
      using rep sep fp(1) by simp_all
    have node: "sl_seq s (slot ?n c l) = \<lparr>sdata1 = sq l, sdata2 = enc_end l h, snext = start ?n c ys (- 1)\<rparr>"
      using snd_rep0_node [OF rep'] by simp
    have bl: "b \<le> l" "l \<le> h" "h < b + ?n" using snd_rep0D [OF rep'] by auto
    have ys: "\<forall>y\<in>set ys. q < fst y"
    proof
      fix y assume y: "y \<in> set ys"
      obtain yl yh where "y = (yl, yh)" by (cases y)
      with y have "yl \<noteq> q"
        using miss snd_rep0_node [of c b s "mid @ (l, h) # _" yl yh] rep' split_list [OF y] by force
      with fp(3) y \<open>y = _\<close> show "q < fst y" by force
    qed
    have pre: "\<forall>x\<in>set mid. snd x \<le> q" using sep' \<open>l < q\<close> by fastforce
    show ?thesis
    proof (cases "q < h")
      case False
      have "snd_remove_inner s ?p (sq q) =
          snd_drop_until (Suc (nat ?n)) (s\<lparr>sl_head := start ?n c ys (- 1)\<rparr>) (sl_head s)"
        using node D(1,2) False \<open>l < q\<close> bl fp hd miss assms(3)
        by (auto simp: snd_remove_inner_def Let_def seq_simps simp del: snd_drop_until.simps)
      moreover have "\<exists>s' xs'. snd_drop_until (Suc (nat ?n)) (s\<lparr>sl_head := start ?n c ys (- 1)\<rparr>) (sl_head s)
          = Some s' \<and> snd_rep c b s' xs' \<and> sl_size s' = ?n \<and> ivset xs' = {x \<in> ivset ((l0, h0) # zs). q < x}"
        by (rule snd_drop_rest [of c b s "mid @ [(l, h)]" ys]) (use rep' sep' pre False fp ys in auto)
      ultimately show ?thesis using assms(4) by (simp del: snd_drop_until.simps)
    next
      case True
      then have lq: "l \<le> q" "q < h" using \<open>l < q\<close> by auto
      note fr = snd_rep0_next_free [OF rep' sep' lq]
      let ?i = "slot ?n c l"
      define s1 where "s1 = s\<lparr>sl_seq := (sl_seq s)(?i := \<lparr>sdata1 = sq l, sdata2 = enc_end l q, snext = ?q\<rparr>,
        ?q := \<lparr>sdata1 = sq (q + 1), sdata2 = enc_end (q + 1) h, snext = start ?n c ys (- 1)\<rparr>)\<rparr>"
      have pt: "snd_put_tail s ?q (sq q) (sq h) = Some (s\<lparr>sl_seq := (sl_seq s)(?q := (sl_seq s ?q)
          \<lparr>sdata1 := sq (q + 1), sdata2 := enc_end (q + 1) h\<rparr>)\<rparr>)"
        using snd_put_tail_free [of ?q s q h] D(1,2) fr lq by simp
      have pq: "?q \<noteq> ?i" using fr(3) by auto
      have eq: "snd_remove_inner s ?p (sq q) =
          snd_drop_until (Suc (nat ?n)) (s1\<lparr>sl_head := ?q\<rparr>) (sl_head s)"
        using node D(1,2) lq \<open>l < q\<close> loc pt pq bl fp hd miss
        by (auto simp: snd_remove_inner_def Let_def s1_def fun_upd_twist seq_simps simp del: c_rem_nonneg snd_drop_until.simps
          intro!: arg_cong2 [where f = "snd_drop_until _" and d = "slot _ _ _"] CSndLossList.equality)
      have sep1: "separated (mid @ (l, q) # (q + 1, h) # ys)"
        using sep' lq by fastforce
      have rep1: "snd_rep0 c b s1 (mid @ (l, q) # (q + 1, h) # ys)"
        by (rule snd_rep0_split [OF rep' sep' lq]) (simp_all add: s1_def)
      from rep1 sep1 have "\<exists>s' xs'. snd_drop_until (Suc (nat ?n)) (s1\<lparr>sl_head := ?q\<rparr>) (sl_head s)
          = Some s' \<and> snd_rep c b s' xs' \<and> sl_size s' = sl_size s1 \<and>
            ivset xs' = {x \<in> ivset ((l0, h0) # zs). q < x}"
        by (intro snd_drop_rest [of c b s1 "mid @ [(l, q)]" "(q + 1, h) # ys"])
          (use pre lq fp sep' in \<open>auto simp: s1_def\<close>)
      then show ?thesis unfolding assms(4) eq by (simp add: s1_def del: snd_drop_until.simps)
    qed
  qed
qed

lemma snd_rep_empty:
  assumes "snd_rep c b s []"
  shows "sl_length s = 0"
  using assms by (simp add: snd_rep_def snd_rep0_def)

lemma snd_rep_length_0:
  assumes "snd_rep c b s xs"
  shows "sl_length s = 0 \<longleftrightarrow> xs = []"
  using assms ivlen_eq_0 [OF separated_nonempty, of xs] by (simp add: snd_rep_def snd_rep0_def)

lemma snd_remove_correct:
  assumes "snd_rep c b s xs" "b - 268435456 < q" "q - b < 805306368"
  shows "\<exists>s' xs'. snd_remove s (sq q) = Some s' \<and> snd_rep c b s' xs' \<and>
    sl_size s' = sl_size s \<and> ivset xs' = {x \<in> ivset xs. q < x}"
proof (cases xs)
  case Nil
  then have "snd_remove s (sq q) = Some s" using snd_rep_length_0 [OF assms(1)] by (simp add: snd_remove_def)
  then show ?thesis using assms Nil by auto
next
  case (Cons x ys)
  obtain l h where x: "x = (l, h)" by (cases x)
  let ?n = "sl_size s"
  have rep: "snd_rep0 c b s ([] @ (l, h) # ys)" and sep: "separated ((l, h) # ys)"
    using assms(1) Cons x by (simp_all add: snd_rep_def)
  note D = snd_rep0D [OF rep]
  have hd: "sl_head s = slot ?n c l" using D(6) by simp
  have len: "sl_length s \<noteq> 0" using snd_rep_length_0 [OF assms(1)] Cons by simp
  have node: "sdata1 (sl_seq s (slot ?n c l)) = sq l" using snd_rep0_node [OF rep] by simp
  have bl: "b \<le> l" "l \<le> h" "h < b + ?n" using D by auto
  have off: "seqoff (sq l) (sq q) = q - l" using bl D(2) assms(2,3) by (simp add: seq_simps)
  have rm: "snd_remove s (sq q) = (if q = l then snd_remove_head s (c_rem (slot ?n c l + (q - l) + ?n) ?n) (sq q)
      else if q > l then snd_remove_inner s (c_rem (slot ?n c l + (q - l) + ?n) ?n) (sq q) else Some s)"
    using len hd node off D(1) by (simp add: snd_remove_def Let_def sl_get_def seq_simps)
  consider "q = l" | "l < q" | "q < l" by linarith
  then show ?thesis
  proof cases
    case 1
    then show ?thesis
      using snd_remove_head_correct [of c b s l h ys] rm assms(1) Cons x D(1) slot_c_rem [of ?n 0 c l] by auto
  next
    case 2
    then show ?thesis
      using snd_remove_inner_correct [of c b s l h ys q ?n] rm assms Cons x D(1) slot_c_rem [of ?n "q - l" c l] by auto
  next
    case 3
    then have "{x \<in> ivset xs. q < x} = ivset xs"
      using separated_hd_le [OF sep] Cons x by fastforce
    then show ?thesis using rm 3 assms(1) by auto
  qed
qed

lemma snd_new_rep: "0 < n \<Longrightarrow> n \<le> 536870912 \<Longrightarrow> snd_rep c b (snd_new n junk) []"
  by (simp add: snd_rep_def snd_rep0_def snd_new_def snd_free_def)

lemma snd_length_correct: "snd_rep c b s xs \<Longrightarrow> snd_getLossLength s = int (card (ivset xs))"
  by (simp add: snd_getLossLength_def snd_rep_def snd_rep0_def ivlen_card)

subsection \<open>The list as a set of lost positions\<close>

text \<open>
  \<open>snd_holds s X\<close>: the list is well formed and contains exactly the positions \<open>X\<close>. The placement
  of the ranges in the array is hidden; only the span of \<open>X\<close> matters to the caller.
\<close>

definition snd_holds :: "CSndLossList \<Rightarrow> int set \<Rightarrow> bool" where
  "snd_holds s X \<longleftrightarrow> (\<exists>c b xs. snd_rep c b s xs \<and> ivset xs = X)"

lemma snd_rep_rebase:
  assumes "snd_rep c b s xs" "\<forall>x\<in>ivset xs. b' \<le> x \<and> x < b' + sl_size s"
  shows "snd_rep c b' s xs"
proof -
  have "in_win b' (sl_size s) xs"
    unfolding in_win_def
  proof (intro ballI, clarify)
    fix l h assume lh: "(l, h) \<in> set xs"
    then have "l \<le> h" using assms(1) nonempty_ivlsD separated_nonempty unfolding snd_rep_def by blast
    then have "l \<in> ivset xs" "h \<in> ivset xs" using ivset_memI [OF lh] by auto
    then show "b' \<le> l \<and> h < b' + sl_size s" using assms(2) by auto
  qed
  then show ?thesis using assms(1) by (simp add: snd_rep_def snd_rep0_def)
qed

lemma snd_holdsE:
  assumes "snd_holds s X" "\<forall>x\<in>X. b \<le> x \<and> x < b + sl_size s"
  obtains c xs where "snd_rep c b s xs" "ivset xs = X"
  using assms snd_rep_rebase unfolding snd_holds_def by blast

lemma snd_holdsI: "snd_rep c b s xs \<Longrightarrow> ivset xs = X \<Longrightarrow> snd_holds s X"
  by (auto simp: snd_holds_def)

lemma snd_holds_finite: "snd_holds s X \<Longrightarrow> finite X"
  by (auto simp: snd_holds_def)

lemma snd_holds_size: "snd_holds s X \<Longrightarrow> 0 < sl_size s \<and> sl_size s \<le> 536870912"
  by (auto simp: snd_holds_def snd_rep_def snd_rep0_def)

lemma snd_holds_new: "0 < n \<Longrightarrow> n \<le> 536870912 \<Longrightarrow> snd_holds (snd_new n junk) {}"
  using snd_new_rep [of n 0 0 junk] by (auto intro: snd_holdsI)

lemma snd_holds_length: "snd_holds s X \<Longrightarrow> snd_getLossLength s = int (card X)"
  by (auto simp: snd_holds_def snd_length_correct)

lemma snd_holds_insert:
  assumes "snd_holds s X" "q1 \<le> q2" "\<forall>x\<in>X \<union> {q1..q2}. b \<le> x \<and> x < b + sl_size s"
  shows "\<exists>s'. snd_insert s (sq q1) (sq q2) = Some (int (card ({q1..q2} - X)), s') \<and>
    snd_holds s' (X \<union> {q1..q2}) \<and> sl_size s' = sl_size s"
proof -
  obtain c xs where "snd_rep c b s xs" "ivset xs = X" using snd_holdsE [OF assms(1)] assms(3) by blast
  with snd_insert_correct [of c b s xs q1 q2] assms(2,3) show ?thesis
    by (auto simp: snd_holds_def)
qed

lemma snd_holds_remove:
  assumes "snd_holds s X" "\<forall>x\<in>X. q - 536870912 < x \<and> x < q + 268435456"
    "\<forall>x\<in>X. b \<le> x \<and> x < b + sl_size s"
  shows "\<exists>s'. snd_remove s (sq q) = Some s' \<and> snd_holds s' {x \<in> X. q < x} \<and> sl_size s' = sl_size s"
proof (cases "X = {}")
  case True
  then obtain c xs where "snd_rep c q s xs" "ivset xs = X" using snd_holdsE [OF assms(1), of q] by blast
  with snd_remove_correct [of c q s xs q] show ?thesis by (auto simp: snd_holds_def)
next
  case False
  define b' where "b' = Min X"
  have fin: "finite X" using assms(1) by (rule snd_holds_finite)
  have mem: "b' \<in> X" using False fin by (simp add: b'_def)
  have "\<forall>x\<in>X. b' \<le> x \<and> x < b' + sl_size s"
    using Min_le [OF fin] mem assms(3) unfolding b'_def by (meson add_le_cancel_right less_le_trans)
  then obtain c xs where "snd_rep c b' s xs" "ivset xs = X" using snd_holdsE [OF assms(1), of b'] by blast
  with snd_remove_correct [of c b' s xs q] assms(2) mem show ?thesis
    by (fastforce simp: snd_holds_def)
qed

lemma snd_holds_pop:
  assumes "snd_holds s X"
  shows "X = {} \<Longrightarrow> snd_popLostSeq s = Some (- 1, s)"
    and "X \<noteq> {} \<Longrightarrow> \<exists>s'. snd_popLostSeq s = Some (sq (Min X), s') \<and> snd_holds s' (X - {Min X}) \<and>
      sl_size s' = sl_size s"
proof -
  obtain c b xs where r: "snd_rep c b s xs" "ivset xs = X" using assms by (auto simp: snd_holds_def)
  then have sep: "separated xs" by (simp add: snd_rep_def)
  show "X = {} \<Longrightarrow> snd_popLostSeq s = Some (- 1, s)"
  proof -
    assume "X = {}"
    then have "xs = []" using r(2) separated_nonempty [OF sep] by (cases xs) auto
    then show ?thesis using r(1) snd_rep_length_0 by (auto simp: snd_popLostSeq_def)
  qed
  show "X \<noteq> {} \<Longrightarrow> \<exists>s'. snd_popLostSeq s = Some (sq (Min X), s') \<and> snd_holds s' (X - {Min X}) \<and>
      sl_size s' = sl_size s"
  proof -
    assume "X \<noteq> {}"
    then obtain l h ys where xs: "xs = (l, h) # ys" using r(2) by (cases xs) auto
    have "l \<in> X" using sep r(2) xs by auto
    then have "Min X = l"
      using separated_hd_le [of l h ys] sep xs r(2) snd_holds_finite [OF assms] by (intro Min_eqI) auto
    then show ?thesis using snd_popLostSeq_correct [of c b s l h ys] r xs by (auto simp: snd_holds_def)
  qed
qed

subsection \<open>Properties\<close>

text \<open>
  C23. The sender's loss list is a set of positions: inserting the range \<open>[q1, q2]\<close> into a well formed
  list with content \<open>X\<close> stays inside the array, gives a well formed list with content
  \<open>X \<union> {q1..q2}\<close> and returns how many numbers were new, wherever the numbers wrap and however the
  range overlaps the ranges present, as long as everything spans less than the array size.
\<close>

theorem snd_insert_spec:
  assumes "snd_holds s X" "q1 \<le> q2" "\<forall>x\<in>X \<union> {q1..q2}. b \<le> x \<and> x < b + sl_size s"
  shows "\<exists>s'. snd_insert s (sq q1) (sq q2) = Some (int (card ({q1..q2} - X)), s') \<and>
    snd_holds s' (X \<union> {q1..q2}) \<and> sl_size s' = sl_size s \<and>
    snd_getLossLength s' = int (card (X \<union> {q1..q2}))"
  using snd_holds_insert [OF assms] snd_holds_length by blast

lemma snd_insert_spec_witness:
  "\<exists>s s'. snd_insert (snd_new 16 (\<lambda>_. 7)) (sq 2147483646) (sq 2147483650) = Some (5, s) \<and>
     snd_holds s {2147483646..2147483650} \<and> snd_insert s (sq 2147483640) (sq 2147483647) = Some (6, s') \<and>
     snd_getLossLength s' = 11"
proof -
  have new: "snd_holds (snd_new 16 (\<lambda>_. 7)) {}" by (rule snd_holds_new) simp_all
  have size: "sl_size (snd_new 16 (\<lambda>_. 7)) = 16" by (simp add: snd_new_def)
  have b: "\<forall>x\<in>{} \<union> {2147483646..2147483650}. 2147483640 \<le> x \<and> x < 2147483640 + (16::int)" by auto
  obtain s where s: "snd_insert (snd_new 16 (\<lambda>_. 7)) (sq 2147483646) (sq 2147483650) = Some (5, s)"
    "snd_holds s {2147483646..2147483650}" "sl_size s = 16"
    using snd_insert_spec [OF new, of 2147483646 2147483650 2147483640] b size by auto
  have b': "\<forall>x\<in>{2147483646..2147483650} \<union> {2147483640..2147483647}.
      2147483640 \<le> x \<and> x < 2147483640 + (16::int)" by auto
  have e: "{2147483640..2147483647} - {2147483646..2147483650::int} = {2147483640..2147483645}"
    "{2147483646..2147483650} \<union> {2147483640..2147483647::int} = {2147483640..2147483650}" by auto
  show ?thesis
    using snd_insert_spec [OF s(2), of 2147483640 2147483647 2147483640] b' s by (auto simp: e)
qed

text \<open>
  C24. An acknowledgement: \<open>remove(q)\<close> keeps exactly the positions behind \<open>q\<close>.
\<close>

theorem snd_remove_spec:
  assumes "snd_holds s X" "\<forall>x\<in>X. q - 536870912 < x \<and> x < q + 268435456"
    "\<forall>x\<in>X. b \<le> x \<and> x < b + sl_size s"
  shows "\<exists>s'. snd_remove s (sq q) = Some s' \<and> snd_holds s' {x \<in> X. q < x} \<and>
    sl_size s' = sl_size s \<and> snd_getLossLength s' = int (card {x \<in> X. q < x})"
  using snd_holds_remove [OF assms] snd_holds_length by blast

lemma snd_remove_spec_witness:
  "\<exists>s s'. snd_insert (snd_new 16 (\<lambda>_. 7)) (sq 2147483646) (sq 2147483650) = Some (5, s) \<and>
     snd_remove s (sq 2147483648) = Some s' \<and> snd_holds s' {2147483649..2147483650}"
proof -
  have new: "snd_holds (snd_new 16 (\<lambda>_. 7)) {}" by (rule snd_holds_new) simp_all
  have size: "sl_size (snd_new 16 (\<lambda>_. 7)) = 16" by (simp add: snd_new_def)
  have b: "\<forall>x\<in>{} \<union> {2147483646..2147483650}. 2147483640 \<le> x \<and> x < 2147483640 + (16::int)" by auto
  obtain s where s: "snd_insert (snd_new 16 (\<lambda>_. 7)) (sq 2147483646) (sq 2147483650) = Some (5, s)"
    "snd_holds s {2147483646..2147483650}" "sl_size s = 16"
    using snd_holds_insert [OF new, of 2147483646 2147483650 2147483640] b size by auto
  have e: "{x \<in> {2147483646..2147483650::int}. 2147483648 < x} = {2147483649..2147483650}" by auto
  show ?thesis
    using snd_remove_spec [OF s(2), of 2147483648 2147483640, unfolded e] s by auto
qed

text \<open>
  Retransmission takes the lost positions in order: \<open>popLostSeq\<close> returns and removes the smallest
  position, and returns -1 exactly when nothing is lost.
\<close>

theorem snd_pop_spec:
  assumes "snd_holds s X"
  shows "\<exists>r s'. snd_popLostSeq s = Some (r, s') \<and>
    (if X = {} then r = - 1 \<and> s' = s
     else r = sq (Min X) \<and> snd_holds s' (X - {Min X}) \<and> sl_size s' = sl_size s \<and>
       snd_getLossLength s' = int (card X) - 1)"
proof (cases "X = {}")
  case True
  then show ?thesis using snd_holds_pop(1) [OF assms] by simp
next
  case False
  then have "card X - 1 = card (X - {Min X})" "0 < card X"
    using snd_holds_finite [OF assms] by (simp_all add: card_gt_0_iff)
  then show ?thesis
    using False snd_holds_pop(2) [OF assms False] snd_holds_length [of _ "X - {Min X}"] by fastforce
qed

lemma snd_pop_spec_witness:
  "\<exists>s s'. snd_insert (snd_new 16 (\<lambda>_. 7)) (sq 2147483648) (sq 2147483650) = Some (3, s) \<and>
     snd_popLostSeq s = Some (0, s') \<and> snd_holds s' {2147483649..2147483650}"
proof -
  have new: "snd_holds (snd_new 16 (\<lambda>_. 7)) {}" by (rule snd_holds_new) simp_all
  have size: "sl_size (snd_new 16 (\<lambda>_. 7)) = 16" by (simp add: snd_new_def)
  have b: "\<forall>x\<in>{} \<union> {2147483648..2147483650}. 2147483640 \<le> x \<and> x < 2147483640 + (16::int)" by auto
  obtain s where s: "snd_insert (snd_new 16 (\<lambda>_. 7)) (sq 2147483648) (sq 2147483650) = Some (3, s)"
    "snd_holds s {2147483648..2147483650}" "sl_size s = 16"
    using snd_holds_insert [OF new, of 2147483648 2147483650 2147483640] b size by auto
  have e: "Min {2147483648..2147483650::int} = 2147483648" "sq 2147483648 = 0"
    "{2147483648..2147483650} - {2147483648::int} = {2147483649..2147483650}"
    by (auto simp: sq_def intro: Min_eqI)
  show ?thesis
    using snd_pop_spec [OF s(2)] s by (auto simp: e)
qed

text \<open>
  Outside that span the code leaves its array: a range that starts more than the array size before
  the head gets a negative slot.
\<close>

lemma snd_insert_far_below:
  "do { (k, s) \<leftarrow> snd_insert (snd_new 16 (\<lambda>_. 0)) 50 51; snd_insert s 20 22 } = None"
  by (simp add: snd_insert_def snd_new_def snd_put_def sl_upd_def sl_get_def sl_add_len_def seqlen_def
      seqoff_def seq_consts snd_insert_before_def c_rem_def c_div_def)

end
