(* ===== verification/BitFields.thy ===== *)
theory BitFields
  imports Prelude
begin

text \<open>
  The bit field templates of \<open>include/utilities.h\<close>: \<open>BitsetMask<L, R>\<close> and \<open>Bits<L, R>\<close> on 32-bit
  words. The lemmas give the content of a wrapped and of an unwrapped field bit by bit, that
  unwrapping inverts wrapping for a value that fits, and that fields in disjoint bit ranges do not
  disturb each other.
\<close>

unbundle bit_operations_syntax

fun BitsetMask :: "nat \<Rightarrow> nat \<Rightarrow> 32 word" where
  "BitsetMask L R = (if R < L then push_bit L 1 OR BitsetMask (L - 1) R else push_bit R 1)"

declare BitsetMask.simps [simp del]

definition bits_fit :: "nat \<Rightarrow> nat \<Rightarrow> 32 word \<Rightarrow> bool" where
  "bits_fit L R v \<longleftrightarrow> BitsetMask (L - R) 0 AND v = v"

definition bits_wrap :: "nat \<Rightarrow> nat \<Rightarrow> 32 word \<Rightarrow> 32 word" where
  "bits_wrap L R baseval = push_bit R baseval AND BitsetMask L R"

definition bits_unwrap :: "nat \<Rightarrow> nat \<Rightarrow> 32 word \<Rightarrow> 32 word" where
  "bits_unwrap L R bitset = drop_bit R (bitset AND BitsetMask L R)"

lemma bit_BitsetMask: "R \<le> L \<Longrightarrow> bit (BitsetMask L R) n \<longleftrightarrow> R \<le> n \<and> n \<le> L \<and> n < 32"
proof (induction "L - R" arbitrary: L)
  case 0
  then have "L = R" by simp
  then show ?case by (subst BitsetMask.simps) (auto simp: bit_exp_iff)
next
  case (Suc k)
  then have "R < L" by linarith
  moreover have "bit (BitsetMask (L - 1) R) n \<longleftrightarrow> R \<le> n \<and> n \<le> L - 1 \<and> n < 32"
    using Suc.hyps(1) [of "L - 1"] Suc.hyps(2) \<open>R < L\<close> by simp
  ultimately show ?case
    by (subst BitsetMask.simps) (auto simp: bit_or_iff bit_exp_iff)
qed

lemma bit_wrap: "R \<le> L \<Longrightarrow> bit (bits_wrap L R v) n \<longleftrightarrow> R \<le> n \<and> n \<le> L \<and> n < 32 \<and> bit v (n - R)"
  by (auto simp: bits_wrap_def bit_and_iff bit_push_bit_iff bit_BitsetMask)

lemma bit_unwrap: "R \<le> L \<Longrightarrow> bit (bits_unwrap L R x) n \<longleftrightarrow> R + n \<le> L \<and> bit x (R + n)"
  using bit_imp_le_length [of x "R + n"]
  by (auto simp: bits_unwrap_def bit_and_iff bit_drop_bit_eq bit_BitsetMask)


lemma fit_iff:
  assumes "R \<le> L" "L < 32"
  shows "bits_fit L R v \<longleftrightarrow> (\<forall>n. bit v n \<longrightarrow> n \<le> L - R)"
  using assms bit_imp_le_length [of v] unfolding bits_fit_def
  by (simp add: bit_eq_iff bit_and_iff bit_BitsetMask) (metis le_eq_less_or_eq)

lemma unwrap_wrap:
  assumes "R \<le> L" "L < 32" "bits_fit L R v"
  shows "bits_unwrap L R (bits_wrap L R v) = v"
  using assms by (intro bit_eqI) (auto simp: bit_unwrap bit_wrap fit_iff)

lemma unwrap_or: "R \<le> L \<Longrightarrow> bits_unwrap L R (x OR y) = bits_unwrap L R x OR bits_unwrap L R y"
  by (intro bit_eqI) (auto simp: bit_unwrap bit_or_iff)

lemma unwrap_wrap_disjoint:
  assumes "R \<le> L" "R' \<le> L'" "L < R' \<or> L' < R"
  shows "bits_unwrap L R (bits_wrap L' R' v) = 0"
  using assms by (intro bit_eqI) (auto simp: bit_unwrap bit_wrap)

lemma unwrap_fit: "R \<le> L \<Longrightarrow> L < 32 \<Longrightarrow> bits_fit L R (bits_unwrap L R x)"
  by (auto simp: fit_iff bit_unwrap)

lemma wrap_unwrap: "R \<le> L \<Longrightarrow> bits_wrap L R (bits_unwrap L R x) = x AND BitsetMask L R"
  by (intro bit_eqI) (auto simp: bit_wrap bit_unwrap bit_and_iff bit_BitsetMask)

lemma fit_less:
  assumes "R \<le> L" "L < 32" "uint v < 2 ^ (L - R + 1)"
  shows "bits_fit L R v"
proof -
  have "take_bit (L - R + 1) (uint v) = uint v" using assms(3) by (simp add: take_bit_int_eq_self)
  then have "bit (uint v) n \<Longrightarrow> n < L - R + 1" for n by (metis bit_take_bit_iff)
  then have "bit v n \<Longrightarrow> n \<le> L - R" for n by (fastforce simp: bit_uint_iff dest: bit_imp_le_length)
  then show ?thesis using assms by (simp add: fit_iff)
qed

lemma unwrap_take: "L < 32 \<Longrightarrow> bits_unwrap L 0 x = take_bit (L + 1) x"
  by (intro bit_eqI) (auto simp: bit_unwrap bit_take_bit_iff)

end
