(* ===== verification/Packet.thy ===== *)
theory Packet
  imports BitFields
begin

text \<open>
  \<open>CPacket\<close> (\<open>packet.cpp\<close>, \<open>include/packet.h\<close>): the four header words, the accessors of the bit
  fields in the first two of them, and the packing of control packets. The payload is a pointer to
  bytes (\<open>None\<close> is \<open>NULL\<close>) with a length. \<open>pack\<close> yields \<open>None\<close> where the code reads through a null
  \<open>lparam\<close>.
\<close>

datatype PacketBoundary = PB_SUBSEQUENT | PB_LAST | PB_FIRST | PB_SOLO

fun boundary_code :: "PacketBoundary \<Rightarrow> 32 word" where
  "boundary_code PB_SUBSEQUENT = 0"
| "boundary_code PB_LAST = 1"
| "boundary_code PB_FIRST = 2"
| "boundary_code PB_SOLO = 3"

datatype EncryptionKeySpec = EK_NOENC | EK_EVEN | EK_ODD

fun keyspec_code :: "EncryptionKeySpec \<Rightarrow> 32 word" where
  "keyspec_code EK_NOENC = 0"
| "keyspec_code EK_EVEN = 1"
| "keyspec_code EK_ODD = 2"

datatype UDTMessageType =
    UMSG_HANDSHAKE | UMSG_KEEPALIVE | UMSG_ACK | UMSG_LOSSREPORT | UMSG_CGWARNING | UMSG_SHUTDOWN
  | UMSG_ACKACK | UMSG_DROPREQ | UMSG_PEERERROR | UMSG_END_OF_TYPES | UMSG_EXT

fun msgtype_code :: "UDTMessageType \<Rightarrow> 32 word" where
  "msgtype_code UMSG_HANDSHAKE = 0"
| "msgtype_code UMSG_KEEPALIVE = 1"
| "msgtype_code UMSG_ACK = 2"
| "msgtype_code UMSG_LOSSREPORT = 3"
| "msgtype_code UMSG_CGWARNING = 4"
| "msgtype_code UMSG_SHUTDOWN = 5"
| "msgtype_code UMSG_ACKACK = 6"
| "msgtype_code UMSG_DROPREQ = 7"
| "msgtype_code UMSG_PEERERROR = 8"
| "msgtype_code UMSG_END_OF_TYPES = 9"
| "msgtype_code UMSG_EXT = 0x7FFF"

subsection \<open>Header fields\<close>

definition SEQNO_CONTROL_mask :: "32 word" where
  "SEQNO_CONTROL_mask = BitsetMask 31 31"

definition SEQNO_MSGTYPE_wrap :: "32 word \<Rightarrow> 32 word" where
  "SEQNO_MSGTYPE_wrap = bits_wrap 30 16"

definition SEQNO_EXTTYPE_wrap :: "32 word \<Rightarrow> 32 word" where
  "SEQNO_EXTTYPE_wrap = bits_wrap 15 0"

definition CreateControlSeqNo :: "UDTMessageType \<Rightarrow> 32 word" where
  "CreateControlSeqNo t = SEQNO_CONTROL_mask OR SEQNO_MSGTYPE_wrap (msgtype_code t)"

definition CreateControlExtSeqNo :: "32 word \<Rightarrow> 32 word" where
  "CreateControlExtSeqNo exttype =
     SEQNO_CONTROL_mask OR SEQNO_MSGTYPE_wrap (msgtype_code UMSG_EXT) OR SEQNO_EXTTYPE_wrap exttype"

definition PacketBoundaryBits :: "PacketBoundary \<Rightarrow> 32 word" where
  "PacketBoundaryBits b = bits_wrap 31 30 (boundary_code b)"

definition MSGNO_PACKET_INORDER_wrap :: "bool \<Rightarrow> 32 word" where
  "MSGNO_PACKET_INORDER_wrap b = bits_wrap 29 29 (if b then 1 else 0)"

definition EncryptionKeyBits :: "EncryptionKeySpec \<Rightarrow> 32 word" where
  "EncryptionKeyBits f = bits_wrap 28 27 (keyspec_code f)"

definition GetEncryptionKeySpec :: "32 word \<Rightarrow> 32 word" where
  "GetEncryptionKeySpec msgno = bits_unwrap 28 27 msgno"

definition PACKET_SND_REXMIT :: "32 word" where
  "PACKET_SND_REXMIT = BitsetMask 26 26"

definition MSGNO_SEQ_mask :: "32 word" where
  "MSGNO_SEQ_mask = BitsetMask 25 0"

subsection \<open>The packet\<close>

record CPacket =
  ph_seqno :: "32 word"
  ph_msgno :: "32 word"
  ph_timestamp :: "32 word"
  ph_id :: "32 word"
  pv_data :: "8 word list option"
  pv_len :: nat
  p_data_owned :: bool

definition packet_new :: CPacket where
  "packet_new = \<lparr>ph_seqno = 0, ph_msgno = 0, ph_timestamp = 0, ph_id = 0, pv_data = None, pv_len = 0,
     p_data_owned = False\<rparr>"

definition packet_allocate :: "8 word list \<Rightarrow> CPacket \<Rightarrow> CPacket" where
  "packet_allocate junk p = p\<lparr>pv_data := Some junk, pv_len := length junk, p_data_owned := True\<rparr>"

definition packet_deallocate :: "CPacket \<Rightarrow> CPacket" where
  "packet_deallocate p = p\<lparr>pv_data := None, pv_len := 0\<rparr>"

definition getLength :: "CPacket \<Rightarrow> nat" where
  "getLength p = pv_len p"

definition setLength :: "nat \<Rightarrow> CPacket \<Rightarrow> CPacket" where
  "setLength len p = p\<lparr>pv_len := len\<rparr>"

definition set_data :: "8 word list option \<Rightarrow> nat \<Rightarrow> CPacket \<Rightarrow> CPacket" where
  "set_data buf len p = p\<lparr>pv_data := buf, pv_len := len\<rparr>"

definition isControl :: "CPacket \<Rightarrow> bool" where
  "isControl p \<longleftrightarrow> 0 \<noteq> bits_unwrap 31 31 (ph_seqno p)"

definition setControl :: "UDTMessageType \<Rightarrow> CPacket \<Rightarrow> CPacket" where
  "setControl t p = p\<lparr>ph_seqno := SEQNO_CONTROL_mask OR SEQNO_MSGTYPE_wrap (msgtype_code t)\<rparr>"

text \<open>The member \<open>__pad\<close>, four zero bytes, stands for an empty control field.\<close>

definition pad :: "8 word list" where
  "pad = replicate 4 0"

fun pack :: "UDTMessageType \<Rightarrow> 32 word option \<Rightarrow> 8 word list option \<Rightarrow> nat \<Rightarrow> CPacket \<Rightarrow> CPacket option" where
  "pack UMSG_ACK lparam rparam sz p =
     (let p = setControl UMSG_ACK p;
          p = (case lparam of Some v \<Rightarrow> p\<lparr>ph_msgno := v\<rparr> | None \<Rightarrow> p)
      in Some (set_data rparam sz p))"
| "pack UMSG_ACKACK lparam rparam sz p =
     do { v \<leftarrow> lparam; Some (set_data (Some pad) 4 ((setControl UMSG_ACKACK p)\<lparr>ph_msgno := v\<rparr>)) }"
| "pack UMSG_LOSSREPORT lparam rparam sz p = Some (set_data rparam sz (setControl UMSG_LOSSREPORT p))"
| "pack UMSG_CGWARNING lparam rparam sz p = Some (set_data (Some pad) 4 (setControl UMSG_CGWARNING p))"
| "pack UMSG_KEEPALIVE lparam rparam sz p = Some (set_data (Some pad) 4 (setControl UMSG_KEEPALIVE p))"
| "pack UMSG_HANDSHAKE lparam rparam sz p = Some (set_data rparam sz (setControl UMSG_HANDSHAKE p))"
| "pack UMSG_SHUTDOWN lparam rparam sz p = Some (set_data (Some pad) 4 (setControl UMSG_SHUTDOWN p))"
| "pack UMSG_DROPREQ lparam rparam sz p =
     do { v \<leftarrow> lparam; Some (set_data rparam sz ((setControl UMSG_DROPREQ p)\<lparr>ph_msgno := v\<rparr>)) }"
| "pack UMSG_PEERERROR lparam rparam sz p =
     do { v \<leftarrow> lparam; Some (set_data (Some pad) 4 ((setControl UMSG_PEERERROR p)\<lparr>ph_msgno := v\<rparr>)) }"
| "pack UMSG_EXT lparam rparam sz p =
     do {
       v \<leftarrow> lparam;
       let p = setControl UMSG_EXT p;
       let p = p\<lparr>ph_seqno := ph_seqno p OR v\<rparr>;
       Some (if rparam \<noteq> None then set_data rparam sz p else set_data (Some pad) 4 p)
     }"
| "pack UMSG_END_OF_TYPES lparam rparam sz p = Some (setControl UMSG_END_OF_TYPES p)"

subsection \<open>Accessors\<close>

text \<open>The casts to the enumerations do not check: \<open>getType\<close> and the others return the number.\<close>

definition getType :: "CPacket \<Rightarrow> 32 word" where
  "getType p = bits_unwrap 30 16 (ph_seqno p)"

definition getExtendedType :: "CPacket \<Rightarrow> 32 word" where
  "getExtendedType p = bits_unwrap 15 0 (ph_seqno p)"

definition getAckSeqNo :: "CPacket \<Rightarrow> 32 word" where
  "getAckSeqNo p = ph_msgno p"

definition getControlFlags :: "CPacket \<Rightarrow> 16 word" where
  "getControlFlags p = ucast (bits_unwrap 15 0 (ph_seqno p))"

definition getMsgBoundary :: "CPacket \<Rightarrow> 32 word" where
  "getMsgBoundary p = bits_unwrap 31 30 (ph_msgno p)"

definition getMsgOrderFlag :: "CPacket \<Rightarrow> bool" where
  "getMsgOrderFlag p \<longleftrightarrow> 0 \<noteq> bits_unwrap 29 29 (ph_msgno p)"

definition getMsgSeq :: "CPacket \<Rightarrow> bool \<Rightarrow> 32 word" where
  "getMsgSeq p has_rexmit =
     (if has_rexmit then bits_unwrap 25 0 (ph_msgno p) else bits_unwrap 26 0 (ph_msgno p))"

definition getRexmitFlag :: "CPacket \<Rightarrow> bool" where
  "getRexmitFlag p \<longleftrightarrow> 0 \<noteq> bits_unwrap 26 26 (ph_msgno p)"

definition getMsgCryptoFlags :: "CPacket \<Rightarrow> 32 word" where
  "getMsgCryptoFlags p = bits_unwrap 28 27 (ph_msgno p)"

definition setMsgCryptoFlags :: "EncryptionKeySpec \<Rightarrow> CPacket \<Rightarrow> CPacket" where
  "setMsgCryptoFlags spec p =
     (let clr_msgno = ph_msgno p AND NOT (BitsetMask 28 27)
      in p\<lparr>ph_msgno := clr_msgno OR EncryptionKeyBits spec\<rparr>)"

definition getMsgTimeStamp :: "CPacket \<Rightarrow> 32 word" where
  "getMsgTimeStamp p = ph_timestamp p AND 0xFFFFFFFF"

text \<open>\<open>clone\<close> copies through \<open>memcpy\<close>, which the code only calls with a valid payload.\<close>

definition packet_clone :: "CPacket \<Rightarrow> CPacket option" where
  "packet_clone p = do {
     d \<leftarrow> pv_data p;
     if pv_len p \<le> length d
     then Some (p\<lparr>pv_data := Some (take (pv_len p) d), p_data_owned := False\<rparr>)
     else None
   }"

definition PacketMessageFlagStr :: "32 word \<Rightarrow> string" where
  "PacketMessageFlagStr msgno_field =
     [''PB_SUBSEQUENT'', ''PB_LAST'', ''PB_FIRST'', ''PB_SOLO''] ! unat (bits_unwrap 31 30 msgno_field) @ '' '' @
     [''ORD_RELAXED'', ''ORD_REQUIRED''] ! unat (bits_unwrap 29 29 msgno_field) @ '' '' @
     [''EK_NOENC'', ''EK_EVEN'', ''EK_ODD'', ''EK*ERROR''] ! unat (bits_unwrap 28 27 msgno_field) @ '' '' @
     [''SN_ORIGINAL'', ''SN_REXMIT''] ! unat (bits_unwrap 26 26 msgno_field)"

subsection \<open>Fields read back\<close>

lemma fit_codes [simp]:
  "bits_fit 31 30 (boundary_code b)" "bits_fit 28 27 (keyspec_code k)" "bits_fit 30 16 (msgtype_code t)"
  "bits_fit 29 29 (if x then 1 else 0)" "bits_fit 26 26 1" "bits_fit 31 31 1"
  by ((cases b; simp add: fit_less) | (cases k; simp add: fit_less) | (cases t; simp add: fit_less)
    | simp add: fit_less)+

lemma wrap_seq: "bits_fit L 0 v \<Longrightarrow> L < 32 \<Longrightarrow> bits_wrap L 0 v = v"
  by (intro bit_eqI) (auto simp: bit_wrap fit_iff dest: bit_imp_le_length)

lemma mask_as_wrap: "PACKET_SND_REXMIT = bits_wrap 26 26 1" "SEQNO_CONTROL_mask = bits_wrap 31 31 1"
  by (rule bit_eqI, auto simp: PACKET_SND_REXMIT_def SEQNO_CONTROL_mask_def bit_BitsetMask bit_wrap bit_1_iff)+

lemmas header_defs = PacketBoundaryBits_def MSGNO_PACKET_INORDER_wrap_def EncryptionKeyBits_def
  SEQNO_MSGTYPE_wrap_def SEQNO_EXTTYPE_wrap_def mask_as_wrap

lemma unwrap_0 [simp]: "R \<le> L \<Longrightarrow> bits_unwrap L R 0 = 0"
  by (intro bit_eqI) (simp add: bit_unwrap)

lemma unwrap_and_not:
  "R \<le> L \<Longrightarrow> R' \<le> L' \<Longrightarrow> L < R' \<or> L' < R \<Longrightarrow> bits_unwrap L R (x AND NOT (BitsetMask L' R')) = bits_unwrap L R x"
  "R \<le> L \<Longrightarrow> L < 32 \<Longrightarrow> bits_unwrap L R (x AND NOT (BitsetMask L R)) = 0"
  by (intro bit_eqI; auto simp: bit_unwrap bit_and_iff bit_not_iff bit_BitsetMask dest: bit_imp_le_length)+

text \<open>The message number word of a data packet, as the sender puts it together.\<close>

definition msgno_word :: "PacketBoundary \<Rightarrow> bool \<Rightarrow> EncryptionKeySpec \<Rightarrow> bool \<Rightarrow> 32 word \<Rightarrow> 32 word" where
  "msgno_word b i k r m = PacketBoundaryBits b OR MSGNO_PACKET_INORDER_wrap i OR EncryptionKeyBits k OR
     (if r then PACKET_SND_REXMIT else 0) OR m"

text \<open>
  Every field of the message number word that the sender puts together is the field that the
  receiver reads: boundary, order flag, key, retransmission flag and message number do not disturb
  each other.
\<close>

theorem msgno_fields:
  assumes "ph_msgno p = msgno_word b i k r m" "m AND MSGNO_SEQ_mask = m"
  shows "getMsgBoundary p = boundary_code b \<and> getMsgOrderFlag p = i \<and> getMsgCryptoFlags p = keyspec_code k \<and>
    getRexmitFlag p = r \<and> getMsgSeq p True = m"
proof -
  have fit: "bits_fit 25 0 m" using assms(2) by (simp add: bits_fit_def MSGNO_SEQ_mask_def and.commute)
  have m: "m = bits_wrap 25 0 m" using wrap_seq [OF fit] by simp
  have w: "ph_msgno p = bits_wrap 31 30 (boundary_code b) OR bits_wrap 29 29 (if i then 1 else 0) OR
      bits_wrap 28 27 (keyspec_code k) OR (if r then bits_wrap 26 26 1 else 0) OR bits_wrap 25 0 m"
    using assms(1) m by (simp add: msgno_word_def header_defs)
  show ?thesis
    by (simp add: getMsgBoundary_def getMsgOrderFlag_def getMsgCryptoFlags_def getRexmitFlag_def
        getMsgSeq_def w unwrap_or unwrap_wrap unwrap_wrap_disjoint fit)
qed

lemma msgno_fields_witness:
  "\<exists>p. ph_msgno p = msgno_word PB_FIRST True EK_ODD False 0x3FFFFFF \<and>
     getMsgBoundary p = 2 \<and> getMsgOrderFlag p \<and> getMsgCryptoFlags p = 2 \<and> \<not> getRexmitFlag p \<and>
     getMsgSeq p True = 0x3FFFFFF"
proof -
  let ?p = "packet_new\<lparr>ph_msgno := msgno_word PB_FIRST True EK_ODD False 0x3FFFFFF\<rparr>"
  have "0x3FFFFFF AND MSGNO_SEQ_mask = 0x3FFFFFF"
    unfolding MSGNO_SEQ_mask_def by code_simp
  from msgno_fields [of ?p, OF _ this] show ?thesis by (intro exI [of _ ?p]) simp
qed

text \<open>Encrypting or decrypting in place changes the key field only.\<close>

lemma setMsgCryptoFlags_spec:
  "getMsgCryptoFlags (setMsgCryptoFlags k p) = keyspec_code k \<and>
   getMsgBoundary (setMsgCryptoFlags k p) = getMsgBoundary p \<and>
   getMsgOrderFlag (setMsgCryptoFlags k p) = getMsgOrderFlag p \<and>
   getRexmitFlag (setMsgCryptoFlags k p) = getRexmitFlag p \<and>
   getMsgSeq (setMsgCryptoFlags k p) b = getMsgSeq p b \<and>
   ph_seqno (setMsgCryptoFlags k p) = ph_seqno p"
  by (simp add: setMsgCryptoFlags_def Let_def getMsgBoundary_def getMsgOrderFlag_def getMsgCryptoFlags_def
      getRexmitFlag_def getMsgSeq_def EncryptionKeyBits_def unwrap_or unwrap_wrap unwrap_wrap_disjoint
      unwrap_and_not)

lemma control_seqno:
  "bits_unwrap 31 31 (SEQNO_CONTROL_mask OR SEQNO_MSGTYPE_wrap t) = 1"
  "bits_fit 30 16 t \<Longrightarrow> bits_unwrap 30 16 (SEQNO_CONTROL_mask OR SEQNO_MSGTYPE_wrap t) = t"
  "bits_unwrap 15 0 (SEQNO_CONTROL_mask OR SEQNO_MSGTYPE_wrap t) = 0"
  by (simp_all add: header_defs unwrap_or unwrap_wrap unwrap_wrap_disjoint)

text \<open>
  A packed control packet is recognised as one of its type; the extended type of a user message is
  the number given, when it fits its 16 bits.
\<close>

theorem pack_type:
  assumes "pack t lparam rparam sz p = Some p'" "t = UMSG_EXT \<Longrightarrow> bits_fit 15 0 (the lparam)"
  shows "isControl p' \<and> getType p' = msgtype_code t \<and>
    getExtendedType p' = (if t = UMSG_EXT then the lparam else 0)"
proof -
  have "ph_seqno p' = SEQNO_CONTROL_mask OR SEQNO_MSGTYPE_wrap (msgtype_code t) OR
      (if t = UMSG_EXT then bits_wrap 15 0 (the lparam) else 0)"
    using assms by (cases t) (auto simp: setControl_def set_data_def Let_def wrap_seq or.assoc
      bind_eq_Some_conv split: option.splits if_splits)
  then show ?thesis
    using assms(2) by (auto simp: isControl_def getType_def getExtendedType_def header_defs unwrap_or unwrap_wrap
      unwrap_wrap_disjoint)
qed

lemma pack_type_witness:
  "\<exists>p'. pack UMSG_EXT (Some 5) None 0 packet_new = Some p' \<and> isControl p' \<and> getType p' = 0x7FFF \<and>
     getExtendedType p' = 5"
proof -
  obtain p' where p': "pack UMSG_EXT (Some 5) None 0 packet_new = Some p'" by (simp add: Let_def)
  have "bits_fit 15 0 (the (Some 5))" by (simp add: fit_less)
  with pack_type [OF p'] show ?thesis using p' by simp
qed

end
