(* ===== verification/NakCodec.thy ===== *)
theory NakCodec
  imports Intervals Packet
begin

text \<open>
  The loss report on the wire: a single loss is its sequence number, a range is two words of which
  the first has bit 31 set (\<open>LOSSDATA_SEQNO_RANGE_FIRST\<close> of \<open>include/packet.h\<close>,
  \<open>CUDT::addLossRecord\<close> of \<open>core.cpp\<close>). The words are \<open>int32_t\<close>, so the set bit makes them
  negative.
\<close>

definition LOSSDATA_SEQNO_RANGE_FIRST :: int where
  "LOSSDATA_SEQNO_RANGE_FIRST = sint SEQNO_CONTROL_mask"

definition IsSet :: "int \<Rightarrow> int \<Rightarrow> bool" where
  "IsSet bitset flagset \<longleftrightarrow> bitset AND flagset = flagset"

definition SEQNO_VALUE_unwrap :: "int \<Rightarrow> int" where
  "SEQNO_VALUE_unwrap x = sint (bits_unwrap 30 0 (word_of_int x))"

definition addLossRecord :: "int list \<Rightarrow> int \<Rightarrow> int \<Rightarrow> int list" where
  "addLossRecord lr lo hi =
     (if lo = hi then lr @ [lo] else lr @ [lo OR LOSSDATA_SEQNO_RANGE_FIRST, hi])"

lemma sint_2p31: "sint (2147483648 :: 32 word) = - 2147483648"
  by simp

lemma not_mask_31: "NOT (mask 31) = (- 2147483648 :: int)"
  by (simp add: not_int_def mask_eq_exp_minus_1)

lemma range_first: "LOSSDATA_SEQNO_RANGE_FIRST = - 2147483648"
proof -
  have "SEQNO_CONTROL_mask = 2147483648"
    by (simp add: SEQNO_CONTROL_mask_def BitsetMask.simps)
  then show ?thesis unfolding LOSSDATA_SEQNO_RANGE_FIRST_def by (metis sint_2p31)
qed

lemma or_range_first:
  assumes "0 \<le> x" "x < 2147483648"
  shows "x OR LOSSDATA_SEQNO_RANGE_FIRST = x - 2147483648"
proof -
  have "\<not> bit x n \<or> \<not> bit (push_bit 31 (- 1 :: int)) n" for n
  proof (cases "31 \<le> n")
    case True
    have "take_bit 31 x = x" using assms by (simp add: take_bit_int_eq_self)
    then have "\<not> bit x n" using True by (metis bit_take_bit_iff not_le)
    then show ?thesis by simp
  qed (simp add: bit_not_iff bit_mask_iff)
  then have "x + push_bit 31 (- 1) = x OR push_bit 31 (- 1)" by (rule disjunctive_add)
  then show ?thesis by (simp add: range_first not_mask_31)
qed

lemma IsSet_range_first:
  assumes "- 2147483648 \<le> x" "x < 2147483648"
  shows "IsSet x LOSSDATA_SEQNO_RANGE_FIRST \<longleftrightarrow> x < 0"
proof (cases "x < 0")
  case True
  have "x AND - 2147483648 = - 2147483648" 
  proof -
    have "x AND push_bit 31 (- 1) = push_bit 31 (- 1)"
    proof (rule bit_eqI)
      fix n
      show "bit (x AND push_bit 31 (- 1)) n = bit (push_bit 31 (- 1 :: int)) n"
      proof (cases "31 \<le> n")
        case True
        have "bit (NOT x) n = False"
        proof -
          have "take_bit 31 (NOT x) = NOT x" using assms \<open>x < 0\<close> by (simp add: take_bit_int_eq_self not_int_def)
          then show ?thesis using True by (metis bit_take_bit_iff not_le)
        qed
        then have "bit x n" by (simp add: bit_not_iff)
        then show ?thesis using True by (simp add: bit_and_iff bit_push_bit_iff)
      qed (simp add: bit_and_iff bit_not_iff bit_mask_iff)
    qed
    then show ?thesis by (simp add: not_mask_31)
  qed
  then show ?thesis using True by (simp add: IsSet_def range_first)
next
  case False
  then have "0 \<le> x AND - 2147483648" by (simp only: and_nonnegative_int_iff) simp
  then have "x AND - 2147483648 \<noteq> - 2147483648" by linarith
  then show ?thesis using False by (simp add: IsSet_def range_first)
qed

lemma SEQNO_VALUE_unwrap_mod: "SEQNO_VALUE_unwrap x = x mod 2147483648"
proof -
  have "uint (bits_unwrap 30 0 (word_of_int x)) = uint (take_bit 31 (word_of_int x :: 32 word))"
    using unwrap_take [of 30 "word_of_int x"] by simp
  also have "\<dots> = take_bit 31 (take_bit 32 x)"
    by (simp only: unsigned_take_bit_eq uint_word_of_int_eq) simp
  also have "\<dots> = x mod 2147483648" by (simp add: take_bit_eq_mod mod_mod_cancel)
  finally have u: "uint (bits_unwrap 30 0 (word_of_int x)) = x mod 2147483648" .
  have "- 2147483648 \<le> x mod 2147483648" by (rule order_trans [of _ 0]) simp_all
  then show ?thesis
    unfolding SEQNO_VALUE_unwrap_def sint_uint u by (simp add: signed_take_bit_int_eq_self)
qed

subsection \<open>Encoded ranges\<close>

fun nak_enc :: "ivl list \<Rightarrow> int list" where
  "nak_enc [] = []"
| "nak_enc ((l, h) # xs) = (if l = h then sq l # nak_enc xs else (sq l - 2147483648) # sq h # nak_enc xs)"

lemma nak_enc_append [simp]: "nak_enc (xs @ ys) = nak_enc xs @ nak_enc ys"
  by (induction xs rule: nak_enc.induct) auto

lemma addLossRecord_enc:
  assumes "l \<le> h" "h - l < 2147483648"
  shows "addLossRecord (nak_enc xs) (sq l) (sq h) = nak_enc (xs @ [(l, h)])"
  using assms sq_near_eq [of l h] by (auto simp: addLossRecord_def or_range_first)

end
