(* ===== verification/RcvLossList.thy ===== *)
theory RcvLossList
  imports NakCodec
begin

text \<open>
  \<open>CRcvLossList\<close> and \<open>CRcvFreshLoss\<close> (\<open>list.cpp\<close>, \<open>include/list.h\<close>): the receiver's list of missing
  sequence numbers, a doubly linked list of ranges in a circular array, and the timed records of
  fresh losses. As for the sender's list, \<open>None\<close> is an access outside \<open>m_caSeq\<close>, undefined
  behaviour, or a walk that would not end; the fuel of a walk is the array size.
\<close>

record rcv_node =
  rdata1 :: int
  rdata2 :: int
  rnext :: int
  rprior :: int

record CRcvLossList =
  rl_seq :: "int \<Rightarrow> rcv_node"
  rl_head :: int
  rl_tail :: int
  rl_length :: int
  rl_size :: int

definition rcv_new :: "int \<Rightarrow> (int \<Rightarrow> int) \<Rightarrow> (int \<Rightarrow> int) \<Rightarrow> CRcvLossList" where
  "rcv_new sz junk1 junk2 =
     \<lparr>rl_seq = (\<lambda>i. \<lparr>rdata1 = - 1, rdata2 = - 1, rnext = junk1 i, rprior = junk2 i\<rparr>),
      rl_head = - 1, rl_tail = - 1, rl_length = 0, rl_size = sz\<rparr>"

definition rl_get :: "CRcvLossList \<Rightarrow> int \<Rightarrow> rcv_node option" where
  "rl_get s i = rd (rl_size s) (rl_seq s) i"

definition rl_upd :: "CRcvLossList \<Rightarrow> int \<Rightarrow> (rcv_node \<Rightarrow> rcv_node) \<Rightarrow> CRcvLossList option" where
  "rl_upd s i f =
     (if 0 \<le> i \<and> i < rl_size s then Some (s\<lparr>rl_seq := (rl_seq s)(i := f (rl_seq s i))\<rparr>) else None)"

definition rl_add_len :: "int \<Rightarrow> CRcvLossList \<Rightarrow> CRcvLossList" where
  "rl_add_len d s = s\<lparr>rl_length := rl_length s + d\<rparr>"

definition rcv_put :: "CRcvLossList \<Rightarrow> int \<Rightarrow> int \<Rightarrow> int \<Rightarrow> CRcvLossList option" where
  "rcv_put s loc seqno1 seqno2 = do {
     s \<leftarrow> rl_upd s loc (\<lambda>n. n\<lparr>rdata1 := seqno1\<rparr>);
     if seqno2 \<noteq> seqno1 then rl_upd s loc (\<lambda>n. n\<lparr>rdata2 := seqno2\<rparr>) else Some s
   }"

definition rcv_insert :: "CRcvLossList \<Rightarrow> int \<Rightarrow> int \<Rightarrow> CRcvLossList option" where
  "rcv_insert s seqno1 seqno2 =
     (if rl_length s = 0 then do {
        s \<leftarrow> rcv_put (s\<lparr>rl_head := 0, rl_tail := 0\<rparr>) 0 seqno1 seqno2;
        s \<leftarrow> rl_upd s 0 (\<lambda>n. n\<lparr>rnext := - 1, rprior := - 1\<rparr>);
        Some (rl_add_len (seqlen seqno1 seqno2) s)
      } else do {
        n \<leftarrow> rl_get s (rl_head s);
        let offset = seqoff (rdata1 n) seqno1;
        let loc = c_rem (rl_head s + offset) (rl_size s);
        t \<leftarrow> rl_get s (rl_tail s);
        s \<leftarrow>
          (if rdata2 t \<noteq> - 1 \<and> incseq (rdata2 t) = seqno1
           then rl_upd s (rl_tail s) (\<lambda>n. n\<lparr>rdata2 := seqno2\<rparr>)
           else do {
             s \<leftarrow> rcv_put s loc seqno1 seqno2;
             s \<leftarrow> rl_upd s (rl_tail s) (\<lambda>n. n\<lparr>rnext := loc\<rparr>);
             s \<leftarrow> rl_upd s loc (\<lambda>n. n\<lparr>rprior := rl_tail s, rnext := - 1\<rparr>);
             Some (s\<lparr>rl_tail := loc\<rparr>)
           });
        Some (rl_add_len (seqlen seqno1 seqno2) s)
      })"

text \<open>The number starts a range at \<open>loc\<close>: the only one of its node, or the first of several.\<close>

definition rcv_unlink :: "CRcvLossList \<Rightarrow> int \<Rightarrow> CRcvLossList option" where
  "rcv_unlink s loc = do {
     n \<leftarrow> rl_get s loc;
     s \<leftarrow>
       (if rl_head s = loc then do {
          let s = s\<lparr>rl_head := rnext n\<rparr>;
          if rl_head s \<noteq> - 1 then rl_upd s (rl_head s) (\<lambda>m. m\<lparr>rprior := - 1\<rparr>) else Some s
        } else do {
          s \<leftarrow> rl_upd s (rprior n) (\<lambda>m. m\<lparr>rnext := rnext n\<rparr>);
          n \<leftarrow> rl_get s loc;
          if rnext n \<noteq> - 1 then rl_upd s (rnext n) (\<lambda>m. m\<lparr>rprior := rprior n\<rparr>)
          else Some (s\<lparr>rl_tail := rprior n\<rparr>)
        });
     rl_upd s loc (\<lambda>n. n\<lparr>rdata1 := - 1\<rparr>)
   }"

definition rcv_put_tail :: "CRcvLossList \<Rightarrow> int \<Rightarrow> int \<Rightarrow> int \<Rightarrow> CRcvLossList option" where
  "rcv_put_tail s i seqno seqend = do {
     s \<leftarrow> rl_upd s i (\<lambda>n. n\<lparr>rdata1 := incseq seqno\<rparr>);
     if seqcmp seqend (incseq seqno) > 0 then rl_upd s i (\<lambda>n. n\<lparr>rdata2 := seqend\<rparr>) else Some s
   }"

definition rcv_shift :: "CRcvLossList \<Rightarrow> int \<Rightarrow> CRcvLossList option" where
  "rcv_shift s loc = do {
     let i = c_rem (loc + 1) (rl_size s);
     n \<leftarrow> rl_get s loc;
     s \<leftarrow> rcv_put_tail s i (rdata1 n) (rdata2 n);
     s \<leftarrow> rl_upd s loc (\<lambda>n. n\<lparr>rdata1 := - 1, rdata2 := - 1\<rparr>);
     n \<leftarrow> rl_get s loc;
     s \<leftarrow> rl_upd s i (\<lambda>m. m\<lparr>rnext := rnext n, rprior := rprior n\<rparr>);
     m \<leftarrow> rl_get s i;
     s \<leftarrow> (if rl_head s = loc then Some (s\<lparr>rl_head := i\<rparr>)
           else rl_upd s (rprior m) (\<lambda>m. m\<lparr>rnext := i\<rparr>));
     m \<leftarrow> rl_get s i;
     if rl_tail s = loc then Some (s\<lparr>rl_tail := i\<rparr>)
     else rl_upd s (rnext m) (\<lambda>m. m\<lparr>rprior := i\<rparr>)
   }"

fun rcv_find_back :: "nat \<Rightarrow> CRcvLossList \<Rightarrow> int \<Rightarrow> int option" where
  "rcv_find_back 0 s i = None"
| "rcv_find_back (Suc fuel) s i = do {
     n \<leftarrow> rl_get s i;
     if rdata1 n = - 1 then rcv_find_back fuel s (c_rem (i - 1 + rl_size s) (rl_size s)) else Some i
   }"

text \<open>The number lies inside the node \<open>i\<close>, not at its start.\<close>

definition rcv_cut :: "CRcvLossList \<Rightarrow> int \<Rightarrow> int \<Rightarrow> CRcvLossList option" where
  "rcv_cut s i seqno = do {
     n \<leftarrow> rl_get s i;
     rl_upd s i (\<lambda>n. n\<lparr>rdata2 := if seqno = incseq (rdata1 n) then - 1 else decseq seqno\<rparr>)
   }"

definition rcv_split :: "CRcvLossList \<Rightarrow> int \<Rightarrow> int \<Rightarrow> int \<Rightarrow> CRcvLossList option" where
  "rcv_split s i loc seqno = do {
     let loc = c_rem (loc + 1) (rl_size s);
     n \<leftarrow> rl_get s i;
     s \<leftarrow> rcv_put_tail s loc seqno (rdata2 n);
     s \<leftarrow> rcv_cut s i seqno;
     n \<leftarrow> rl_get s i;
     s \<leftarrow> rl_upd s loc (\<lambda>m. m\<lparr>rnext := rnext n\<rparr>);
     s \<leftarrow> rl_upd s i (\<lambda>n. n\<lparr>rnext := loc\<rparr>);
     s \<leftarrow> rl_upd s loc (\<lambda>m. m\<lparr>rprior := i\<rparr>);
     m \<leftarrow> rl_get s loc;
     if rl_tail s = i then Some (s\<lparr>rl_tail := loc\<rparr>)
     else rl_upd s (rnext m) (\<lambda>m. m\<lparr>rprior := loc\<rparr>)
   }"

definition rcv_remove :: "CRcvLossList \<Rightarrow> int \<Rightarrow> (bool \<times> CRcvLossList) option" where
  "rcv_remove s seqno =
     (if rl_length s = 0 then Some (False, s)
      else do {
        n \<leftarrow> rl_get s (rl_head s);
        let offset = seqoff (rdata1 n) seqno;
        if offset < 0 then Some (False, s)
        else do {
          let loc = c_rem (rl_head s + offset) (rl_size s);
          m \<leftarrow> rl_get s loc;
          if seqno = rdata1 m then do {
            s \<leftarrow> (if rdata2 m = - 1 then rcv_unlink s loc else rcv_shift s loc);
            Some (True, rl_add_len (- 1) s)
          } else do {
            i \<leftarrow> rcv_find_back (nat (rl_size s)) s (c_rem (loc - 1 + rl_size s) (rl_size s));
            m \<leftarrow> rl_get s i;
            if rdata2 m = - 1 \<or> seqcmp seqno (rdata2 m) > 0 then Some (False, s)
            else do {
              s \<leftarrow> (if seqno = rdata2 m then rcv_cut s i seqno else rcv_split s i loc seqno);
              Some (True, rl_add_len (- 1) s)
            }
          }
        }
      })"

text \<open>
  The two loops of the range variant. Incrementing an \<open>int32_t\<close> at its maximum is undefined
  behaviour, here \<open>None\<close>.
\<close>

function rcv_remove_loop :: "CRcvLossList \<Rightarrow> int \<Rightarrow> int \<Rightarrow> CRcvLossList option" where
  "rcv_remove_loop s i seqno2 =
     (if i \<le> seqno2 then do {
        (_, s) \<leftarrow> rcv_remove s i;
        if i < 2147483647 then rcv_remove_loop s (i + 1) seqno2 else None
      } else Some s)"
  by pat_completeness auto
termination by (relation "measure (\<lambda>(_, i, seqno2). nat (seqno2 + 1 - i))") auto

definition rcv_remove_range :: "CRcvLossList \<Rightarrow> int \<Rightarrow> int \<Rightarrow> (bool \<times> CRcvLossList) option" where
  "rcv_remove_range s seqno1 seqno2 =
     (if seqno1 \<le> seqno2 then do {
        s \<leftarrow> rcv_remove_loop s seqno1 seqno2;
        Some (True, s)
      } else do {
        s \<leftarrow> rcv_remove_loop s seqno1 (m_iMaxSeqNo - 1);
        s \<leftarrow> rcv_remove_loop s 0 seqno2;
        Some (True, s)
      })"

fun rcv_find_from :: "nat \<Rightarrow> CRcvLossList \<Rightarrow> int \<Rightarrow> int \<Rightarrow> int \<Rightarrow> bool option" where
  "rcv_find_from 0 s p seqno1 seqno2 = None"
| "rcv_find_from (Suc fuel) s p seqno1 seqno2 =
     (if p \<noteq> - 1 then do {
        n \<leftarrow> rl_get s p;
        if seqcmp (rdata1 n) seqno1 = 0
          \<or> seqcmp (rdata1 n) seqno1 > 0 \<and> seqcmp (rdata1 n) seqno2 \<le> 0
          \<or> seqcmp (rdata1 n) seqno1 < 0 \<and> rdata2 n \<noteq> - 1 \<and> seqcmp (rdata2 n) seqno1 \<ge> 0
        then Some True
        else rcv_find_from fuel s (rnext n) seqno1 seqno2
      } else Some False)"

definition rcv_find :: "CRcvLossList \<Rightarrow> int \<Rightarrow> int \<Rightarrow> bool option" where
  "rcv_find s seqno1 seqno2 =
     (if rl_length s = 0 then Some False
      else rcv_find_from (Suc (nat (rl_size s))) s (rl_head s) seqno1 seqno2)"

definition rcv_getLossLength :: "CRcvLossList \<Rightarrow> int" where
  "rcv_getLossLength s = rl_length s"

definition rcv_getFirstLostSeq :: "CRcvLossList \<Rightarrow> int option" where
  "rcv_getFirstLostSeq s = (if rl_length s = 0 then Some (- 1) else do { n \<leftarrow> rl_get s (rl_head s); Some (rdata1 n) })"

text \<open>The encoded loss report; the list is \<open>array[len], array[len + 1], \<dots>\<close>.\<close>

fun rcv_loss_array :: "nat \<Rightarrow> CRcvLossList \<Rightarrow> int \<Rightarrow> int \<Rightarrow> int \<Rightarrow> int list option" where
  "rcv_loss_array 0 s i len limit = None"
| "rcv_loss_array (Suc fuel) s i len limit =
     (if len < limit - 1 \<and> i \<noteq> - 1 then do {
        n \<leftarrow> rl_get s i;
        if rdata2 n \<noteq> - 1 then do {
          rest \<leftarrow> rcv_loss_array fuel s (rnext n) (len + 2) limit;
          Some ((rdata1 n OR LOSSDATA_SEQNO_RANGE_FIRST) # rdata2 n # rest)
        } else do {
          rest \<leftarrow> rcv_loss_array fuel s (rnext n) (len + 1) limit;
          Some (rdata1 n # rest)
        }
      } else Some [])"

definition rcv_getLossArray :: "CRcvLossList \<Rightarrow> int \<Rightarrow> int list option" where
  "rcv_getLossArray s limit = rcv_loss_array (Suc (nat (rl_size s))) s (rl_head s) 0 limit"

subsection \<open>Representation\<close>

fun rend :: "int \<Rightarrow> int \<Rightarrow> ivl list \<Rightarrow> int \<Rightarrow> int" where
  "rend n c [] p = p"
| "rend n c ((l, h) # xs) p = rend n c xs (slot n c l)"

fun rcv_links :: "int \<Rightarrow> int \<Rightarrow> (int \<Rightarrow> rcv_node) \<Rightarrow> int \<Rightarrow> ivl list \<Rightarrow> int \<Rightarrow> bool" where
  "rcv_links n c A p [] r \<longleftrightarrow> True"
| "rcv_links n c A p ((l, h) # xs) r \<longleftrightarrow>
     A (slot n c l) = \<lparr>rdata1 = sq l, rdata2 = enc_end l h, rnext = start n c xs r, rprior = p\<rparr> \<and>
     rcv_links n c A (slot n c l) xs r"

definition rcv_free :: "int \<Rightarrow> (int \<Rightarrow> rcv_node) \<Rightarrow> int set \<Rightarrow> bool" where
  "rcv_free n A S \<longleftrightarrow> (\<forall>p. 0 \<le> p \<and> p < n \<and> p \<notin> S \<longrightarrow> rdata1 (A p) = - 1 \<and> rdata2 (A p) = - 1)"

definition rcv_rep :: "int \<Rightarrow> int \<Rightarrow> CRcvLossList \<Rightarrow> ivl list \<Rightarrow> bool" where
  "rcv_rep c b s xs \<longleftrightarrow>
     0 < rl_size s \<and> rl_size s \<le> 536870912 \<and> separated xs \<and> in_win b (rl_size s) xs \<and>
     rcv_links (rl_size s) c (rl_seq s) (- 1) xs (- 1) \<and>
     rcv_free (rl_size s) (rl_seq s) (slots (rl_size s) c xs) \<and>
     rl_head s = start (rl_size s) c xs (- 1) \<and>
     (xs \<noteq> [] \<longrightarrow> rl_tail s = rend (rl_size s) c xs (- 1)) \<and>
     rl_length s = ivlen xs"

lemma rend_append [simp]: "rend n c (xs @ ys) p = rend n c ys (rend n c xs p)"
  by (induction n c xs p rule: rend.induct) auto

lemma rcv_links_append [simp]:
  "rcv_links n c A p (xs @ ys) r \<longleftrightarrow>
     rcv_links n c A p xs (start n c ys r) \<and> rcv_links n c A (rend n c xs p) ys r"
  by (induction n c A p xs r rule: rcv_links.induct) (auto simp: start_append)

lemma rcv_links_upd [simp]:
  "q \<notin> slots n c xs \<Longrightarrow> rcv_links n c (A(q := v)) p xs r = rcv_links n c A p xs r"
  by (induction n c A p xs r rule: rcv_links.induct) auto

lemma rend_in_slots: "xs \<noteq> [] \<Longrightarrow> rend n c xs p \<in> slots n c xs"
  by (induction n c xs p rule: rend.induct) (auto, metis rend.simps(1))

lemma start_in_slots: "xs \<noteq> [] \<Longrightarrow> start n c xs r \<in> slots n c xs"
  by (cases xs) auto

lemma rend_irrelevant: "xs \<noteq> [] \<Longrightarrow> rend n c xs p = rend n c xs q"
  by (cases xs) auto

text \<open>Redirecting the last or the first node of a segment.\<close>

lemma rcv_links_set_next:
  assumes "rcv_links n c A p xs r" "in_win b n xs" "lo_sorted xs" "xs \<noteq> []"
  shows "rcv_links n c (A(rend n c xs p := (A (rend n c xs p))\<lparr>rnext := r'\<rparr>)) p xs r'"
proof -
  obtain ys l h where xs: "xs = ys @ [(l, h)]" using assms(4) by (cases xs rule: rev_cases) auto
  have "slot n c l \<notin> slots n c ys"
    using slots_middle(1) [of b n ys l h "[]" c] assms(2,3) xs by simp
  then show ?thesis using assms(1) xs by simp
qed

lemma rcv_links_set_prior:
  assumes "rcv_links n c A p xs r" "in_win b n xs" "lo_sorted xs" "xs \<noteq> []"
  shows "rcv_links n c (A(start n c xs r := (A (start n c xs r))\<lparr>rprior := p'\<rparr>)) p' xs r"
proof -
  obtain l h ys where xs: "xs = (l, h) # ys" using assms(4) by (cases xs) auto
  have "slot n c l \<notin> slots n c ys"
    using slots_middle(2) [of b n "[]" l h ys c] assms(2,3) xs by simp
  then show ?thesis using assms(1) xs by simp
qed

lemma rcv_repD:
  assumes "rcv_rep c b s xs"
  shows "0 < rl_size s" "rl_size s \<le> 536870912" "separated xs" "in_win b (rl_size s) xs"
    "rcv_links (rl_size s) c (rl_seq s) (- 1) xs (- 1)"
    "rcv_free (rl_size s) (rl_seq s) (slots (rl_size s) c xs)"
    "rl_head s = start (rl_size s) c xs (- 1)" "xs \<noteq> [] \<Longrightarrow> rl_tail s = rend (rl_size s) c xs (- 1)"
    "rl_length s = ivlen xs" "lo_sorted xs"
  using assms separated_lo_sorted by (auto simp: rcv_rep_def)

lemma rl_get_in [simp]: "0 \<le> i \<Longrightarrow> i < rl_size s \<Longrightarrow> rl_get s i = Some (rl_seq s i)"
  by (simp add: rl_get_def)

lemma rl_upd_in [simp]:
  "0 \<le> i \<Longrightarrow> i < rl_size s \<Longrightarrow> rl_upd s i f = Some (s\<lparr>rl_seq := (rl_seq s)(i := f (rl_seq s i))\<rparr>)"
  by (simp add: rl_upd_def)

lemma rl_add_len_simps [simp]:
  "rl_seq (rl_add_len d s) = rl_seq s" "rl_size (rl_add_len d s) = rl_size s"
  "rl_head (rl_add_len d s) = rl_head s" "rl_tail (rl_add_len d s) = rl_tail s"
  "rl_length (rl_add_len d s) = rl_length s + d"
  by (simp_all add: rl_add_len_def)

lemma slots_range: "0 < n \<Longrightarrow> p \<in> slots n c xs \<Longrightarrow> 0 \<le> p \<and> p < n \<and> p \<noteq> - 1"
  by (auto simp: slots_def)

lemma rend_range:
  "0 < n \<Longrightarrow> xs \<noteq> [] \<Longrightarrow> 0 \<le> rend n c xs p \<and> rend n c xs p < n"
  using slots_range [of n] rend_in_slots by blast

lemma start_range:
  "0 < n \<Longrightarrow> xs \<noteq> [] \<Longrightarrow> 0 \<le> start n c xs p \<and> start n c xs p < n"
  using slots_range [of n] start_in_slots by blast

lemma rcv_rep_node:
  assumes "rcv_rep c b s (pre @ (l, h) # ys)"
  shows "rl_seq s (slot (rl_size s) c l) = \<lparr>rdata1 = sq l, rdata2 = enc_end l h,
    rnext = start (rl_size s) c ys (- 1), rprior = rend (rl_size s) c pre (- 1)\<rparr>"
  using rcv_repD(5) [OF assms] by simp

lemma rcv_rep_length_0: "rcv_rep c b s xs \<Longrightarrow> rl_length s = 0 \<longleftrightarrow> xs = []"
  using ivlen_eq_0 [OF separated_nonempty, of xs] by (simp add: rcv_rep_def)

lemma rcv_new_rep: "0 < n \<Longrightarrow> n \<le> 536870912 \<Longrightarrow> rcv_rep c b (rcv_new n j k) []"
  by (simp add: rcv_rep_def rcv_new_def rcv_free_def)

text \<open>A slot is in use exactly when its number starts a range.\<close>

lemma rcv_rep_used:
  assumes "rcv_rep c b s xs" "b \<le> q" "q < b + rl_size s"
  shows "rdata1 (rl_seq s (slot (rl_size s) c q)) = (if q \<in> fst ` set xs then sq q else - 1)"
    and "q \<notin> fst ` set xs \<Longrightarrow> rdata2 (rl_seq s (slot (rl_size s) c q)) = - 1"
proof -
  note D = rcv_repD [OF assms(1)]
  have f: "rdata1 (rl_seq s (slot (rl_size s) c q)) = - 1 \<and> rdata2 (rl_seq s (slot (rl_size s) c q)) = - 1"
    if "q \<notin> fst ` set xs"
    using slot_notin_slots [OF D(4) separated_nonempty [OF D(3)] assms(2,3) that] D(1,6)
    by (simp add: rcv_free_def)
  have u: "rdata1 (rl_seq s (slot (rl_size s) c q)) = sq q" if q: "q \<in> fst ` set xs"
  proof -
    obtain x where "x \<in> set xs" "q = fst x" using q by auto
    then have "(q, snd x) \<in> set xs" by simp
    then obtain pre ys where "xs = pre @ (q, snd x) # ys" by (meson split_list)
    then show ?thesis using rcv_rep_node assms(1) by simp
  qed
  show "rdata1 (rl_seq s (slot (rl_size s) c q)) = (if q \<in> fst ` set xs then sq q else - 1)"
    using f u by auto
  show "q \<notin> fst ` set xs \<Longrightarrow> rdata2 (rl_seq s (slot (rl_size s) c q)) = - 1" using f by simp
qed

text \<open>How the representation changes when the nodes of one segment are replaced.\<close>

lemma rcv_rep_replace:
  assumes "rcv_rep c b s xs"
    and "separated ys" "in_win b (rl_size s) ys" "rl_size s' = rl_size s"
    and "rcv_links (rl_size s) c (rl_seq s') (- 1) ys (- 1)"
    and "\<And>p. p \<notin> slots (rl_size s) c ys \<Longrightarrow> p \<in> slots (rl_size s) c xs \<or> rl_seq s' p \<noteq> rl_seq s p \<Longrightarrow>
      rdata1 (rl_seq s' p) = - 1 \<and> rdata2 (rl_seq s' p) = - 1"
    and "rl_head s' = start (rl_size s) c ys (- 1)" "ys \<noteq> [] \<Longrightarrow> rl_tail s' = rend (rl_size s) c ys (- 1)"
    and "rl_length s' = ivlen ys"
  shows "rcv_rep c b s' ys"
  unfolding rcv_rep_def
proof (intro conjI)
  show "rcv_free (rl_size s') (rl_seq s') (slots (rl_size s') c ys)"
    unfolding rcv_free_def
  proof (intro allI impI)
    fix p assume p: "0 \<le> p \<and> p < rl_size s' \<and> p \<notin> slots (rl_size s') c ys"
    show "rdata1 (rl_seq s' p) = - 1 \<and> rdata2 (rl_seq s' p) = - 1"
    proof (cases "p \<in> slots (rl_size s) c xs \<or> rl_seq s' p \<noteq> rl_seq s p")
      case True then show ?thesis using assms(4,6) p by auto
    next
      case False then show ?thesis using rcv_repD(6) [OF assms(1)] assms(4) p by (auto simp: rcv_free_def)
    qed
  qed
qed (use assms rcv_repD [OF assms(1)] in auto)

subsection \<open>Insertion\<close>

lemma rcv_insert_empty:
  assumes "rcv_rep c b s []" "q1 \<le> q2" "b' \<le> q1" "q2 < b' + rl_size s"
  shows "\<exists>s'. rcv_insert s (sq q1) (sq q2) = Some s' \<and> rcv_rep (- q1) b' s' [(q1, q2)] \<and> rl_size s' = rl_size s"
proof -
  note D = rcv_repD [OF assms(1)]
  have fr: "\<And>p. 0 \<le> p \<Longrightarrow> p < rl_size s \<Longrightarrow> rdata1 (rl_seq s p) = - 1 \<and> rdata2 (rl_seq s p) = - 1"
    using D(6) by (simp add: rcv_free_def)
  have len: "seqlen (sq q1) (sq q2) = q2 - q1 + 1" using assms D(2) by (simp add: seq_simps)
  have slot: "slot (rl_size s) (- q1) q1 = 0" by (simp add: slot_def)
  define s' where "s' = s\<lparr>rl_seq := (rl_seq s)(0 := \<lparr>rdata1 = sq q1, rdata2 = enc_end q1 q2, rnext = - 1, rprior = - 1\<rparr>),
    rl_head := 0, rl_tail := 0, rl_length := q2 - q1 + 1\<rparr>"
  have "rcv_insert s (sq q1) (sq q2) = Some s'"
    using D(1,2,9) fr [of 0] len assms(2-4)
    by (cases "q1 = q2") (auto simp: rcv_insert_def rcv_put_def s'_def rl_add_len_def seq_simps
      intro!: CRcvLossList.equality)
  moreover have "rcv_rep (- q1) b' s' [(q1, q2)]"
    using assms D fr by (auto simp: rcv_rep_def rcv_free_def s'_def slot)
  ultimately show ?thesis by (auto simp: s'_def)
qed

lemma rcv_insert_nonempty:
  assumes "rcv_rep c b s (xs @ [(l, h)])" "h < q1" "q1 \<le> q2" "q2 < b + rl_size s"
  shows "\<exists>s' ys. rcv_insert s (sq q1) (sq q2) = Some s' \<and> rcv_rep c b s' ys \<and> rl_size s' = rl_size s \<and>
    ivset ys = ivset (xs @ [(l, h)]) \<union> {q1..q2}"
proof -
  let ?n = "rl_size s"
  note D = rcv_repD [OF assms(1)]
  obtain l0 h0 zs where cons: "xs @ [(l, h)] = (l0, h0) # zs" by (metis list.exhaust surj_pair snoc_eq_iff_butlast)
  have bl: "b \<le> l" "l \<le> h" "h < b + ?n" using D(3,4) by auto
  have bl0: "b \<le> l0" "l0 \<le> l" "l0 < q1"
    using D(3,4) cons assms(2) by (cases xs; force)+
  have hd: "rl_head s = slot ?n c l0" using D(7) cons by simp
  have tl: "rl_tail s = slot ?n c l" using D(8) by simp
  have hnode: "rdata1 (rl_seq s (slot ?n c l0)) = sq l0" using rcv_rep_node [of c b s "[]" l0 h0 zs] assms(1) cons by simp
  have tnode: "rl_seq s (slot ?n c l) = \<lparr>rdata1 = sq l, rdata2 = enc_end l h, rnext = - 1, rprior = rend ?n c xs (- 1)\<rparr>"
    using rcv_rep_node [of c b s xs l h "[]"] assms(1) by simp
  have len: "seqlen (sq q1) (sq q2) = q2 - q1 + 1" using assms D(2) bl by (simp add: seq_simps)
  have off: "seqoff (sq l0) (sq q1) = q1 - l0" using bl0 assms D(2) by (simp add: seq_simps)
  have loc: "c_rem (slot ?n c l0 + (q1 - l0)) ?n = slot ?n c q1"
    using slot_range(1) [of ?n c l0] D(1) bl0 by (simp add: slot_shift(2))
  have ne: "rl_length s \<noteq> 0" using rcv_rep_length_0 [OF assms(1)] by simp
  have nl: "slot ?n c l \<notin> slots ?n c xs" using slots_middle(1) [of b ?n xs l h "[]" c] D by auto
  show ?thesis
  proof (cases "l < h \<and> h + 1 = q1")
    case True
    define s' where "s' = s\<lparr>rl_seq := (rl_seq s)(slot ?n c l := (rl_seq s (slot ?n c l))\<lparr>rdata2 := sq q2\<rparr>),
      rl_length := rl_length s + (q2 - q1 + 1)\<rparr>"
    have "rcv_insert s (sq q1) (sq q2) = Some s'"
      using ne D(1) hd tl hnode tnode off loc len True
      by (auto simp: rcv_insert_def Let_def s'_def rl_add_len_def seq_simps intro!: CRcvLossList.equality)
    moreover have "rcv_rep c b s' (xs @ [(l, q2)])"
      by (rule rcv_rep_replace [OF assms(1)])
        (use D assms tnode nl True in \<open>auto simp: s'_def start_append\<close>)
    moreover have "ivset (xs @ [(l, q2)]) = ivset (xs @ [(l, h)]) \<union> {q1..q2}" using True assms by auto
    ultimately show ?thesis by (auto simp: s'_def)
  next
    case False
    have q1n: "q1 \<notin> fst ` set (xs @ [(l, h)])" using assms(2) D(10) by auto
    have b1: "b \<le> q1" "q1 < b + ?n" using assms bl by auto
    note free = rcv_rep_used [OF assms(1) b1]
    have nq: "slot ?n c q1 \<notin> slots ?n c (xs @ [(l, h)])"
      using slot_notin_slots [OF D(4) separated_nonempty [OF D(3)] b1 q1n] .
    define s' where "s' = s\<lparr>rl_seq := (rl_seq s)(slot ?n c l := (rl_seq s (slot ?n c l))\<lparr>rnext := slot ?n c q1\<rparr>,
        slot ?n c q1 := \<lparr>rdata1 = sq q1, rdata2 = enc_end q1 q2, rnext = - 1, rprior = slot ?n c l\<rparr>),
      rl_tail := slot ?n c q1, rl_length := rl_length s + (q2 - q1 + 1)\<rparr>"
    have nc: "\<not> (enc_end l h \<noteq> - 1 \<and> incseq (enc_end l h) = sq q1)"
      using False bl assms D(2) by (auto simp: seq_simps)
    have "rcv_insert s (sq q1) (sq q2) = Some s'"
      using ne D(1,2) hd tl hnode tnode off loc len nc nq free q1n assms bl
      by (cases "q1 = q2")
        (auto simp: rcv_insert_def rcv_put_def Let_def s'_def rl_add_len_def fun_upd_twist seq_simps
          intro!: CRcvLossList.equality)
    moreover have "rcv_rep c b s' (xs @ [(l, h), (q1, q2)])"
      by (rule rcv_rep_replace [OF assms(1)])
        (use D assms tnode nl nq in \<open>auto simp: s'_def start_append\<close>)
    moreover have "ivset (xs @ [(l, h), (q1, q2)]) = ivset (xs @ [(l, h)]) \<union> {q1..q2}" by auto
    ultimately show ?thesis by (auto simp: s'_def)
  qed
qed

subsection \<open>Removal\<close>

text \<open>
  A node is replaced by the nodes of \<open>mid\<close>, and the neighbours are redirected: all removals are
  instances. \<open>A1\<close> is the array with the new nodes written.
\<close>

definition relinked :: "int \<Rightarrow> int \<Rightarrow> (int \<Rightarrow> rcv_node) \<Rightarrow> (int \<Rightarrow> rcv_node) \<Rightarrow> ivl list \<Rightarrow> ivl list \<Rightarrow> ivl list \<Rightarrow>
    int \<Rightarrow> rcv_node" where
  "relinked n c A A1 pre mid post p =
     (if pre \<noteq> [] \<and> p = rend n c pre (- 1) then (A p)\<lparr>rnext := start n c (mid @ post) (- 1)\<rparr>
      else if post \<noteq> [] \<and> p = start n c post (- 1) then (A p)\<lparr>rprior := rend n c (pre @ mid) (- 1)\<rparr>
      else A1 p)"

lemma relinked_links:
  assumes "rcv_links n c A (- 1) (pre @ (l, h) # post) (- 1)"
    and "in_win b n (pre @ (l, h) # post)" "lo_sorted (pre @ (l, h) # post)"
    and "rcv_links n c A1 (rend n c pre (- 1)) mid (start n c post (- 1))"
    and "slots n c mid \<inter> (slots n c pre \<union> slots n c post) = {}"
    and "\<And>p. p \<in> slots n c pre \<union> slots n c post \<Longrightarrow> A1 p = A p"
  shows "rcv_links n c (relinked n c A A1 pre mid post) (- 1) (pre @ mid @ post) (- 1)"
proof -
  let ?R = "relinked n c A A1 pre mid post"
  have cong: "rcv_links n c B p xs r = rcv_links n c B' p xs r" if "\<And>q. q \<in> slots n c xs \<Longrightarrow> B q = B' q"
    for B B' p xs r
    using that by (induction n c B p xs r rule: rcv_links.induct) auto
  have dis: "slots n c pre \<inter> slots n c post = {}"
    using slots_middle(3) [OF assms(2,3)] .
  have lk: "rcv_links n c A (- 1) pre (slot n c l)" "rcv_links n c A (slot n c l) post (- 1)"
    using assms(1) by simp_all
  have "rcv_links n c ?R (- 1) pre (start n c (mid @ post) (- 1))"
  proof (cases "pre = []")
    case False
    have "rcv_links n c (A(rend n c pre (- 1) := (A (rend n c pre (- 1)))\<lparr>rnext := start n c (mid @ post) (- 1)\<rparr>))
        (- 1) pre (start n c (mid @ post) (- 1))"
      using rcv_links_set_next [OF lk(1), of b] assms(2,3) False by simp
    moreover have "post \<noteq> [] \<Longrightarrow> start n c post (- 1) \<notin> slots n c pre"
      using dis start_in_slots by blast
    ultimately show ?thesis
      using False by (subst cong [where B' = "A(rend n c pre (- 1) := _)"])
        (auto simp: relinked_def assms(6))
  qed simp
  moreover have "rcv_links n c ?R (rend n c (pre @ mid) (- 1)) post (- 1)"
  proof (cases "post = []")
    case False
    have "rcv_links n c (A(start n c post (- 1) := (A (start n c post (- 1)))\<lparr>rprior := rend n c (pre @ mid) (- 1)\<rparr>))
        (rend n c (pre @ mid) (- 1)) post (- 1)"
      using rcv_links_set_prior [OF lk(2), of b] assms(2,3) False by simp
    moreover have "pre \<noteq> [] \<Longrightarrow> rend n c pre (- 1) \<notin> slots n c post"
      using dis rend_in_slots by blast
    ultimately show ?thesis
      using False by (subst cong [where B' = "A(start n c post (- 1) := _)"])
        (auto simp: relinked_def assms(6))
  qed simp
  moreover have "rcv_links n c ?R (rend n c pre (- 1)) mid (start n c post (- 1))"
  proof -
    have "pre \<noteq> [] \<Longrightarrow> rend n c pre (- 1) \<notin> slots n c mid" "post \<noteq> [] \<Longrightarrow> start n c post (- 1) \<notin> slots n c mid"
      using assms(5) rend_in_slots start_in_slots by blast+
    then show ?thesis using assms(4)
      by (subst cong [where B' = A1]) (auto simp: relinked_def)
  qed
  ultimately show ?thesis by (simp add: start_append)
qed

lemma rcv_rep_splice:
  assumes rep: "rcv_rep c b s (pre @ (l, h) # post)"
    and sep: "separated (pre @ mid @ post)" and mid: "\<forall>(x, y)\<in>set mid. l \<le> x \<and> y \<le> h"
    and A1: "rcv_links (rl_size s) c A1 (rend (rl_size s) c pre (- 1)) mid (start (rl_size s) c post (- 1))"
    and eq: "\<And>p. p \<noteq> slot (rl_size s) c l \<Longrightarrow> p \<notin> slots (rl_size s) c mid \<Longrightarrow> A1 p = rl_seq s p"
    and fr: "slot (rl_size s) c l \<notin> slots (rl_size s) c mid \<Longrightarrow>
      rdata1 (A1 (slot (rl_size s) c l)) = - 1 \<and> rdata2 (A1 (slot (rl_size s) c l)) = - 1"
    and s': "rl_seq s' = relinked (rl_size s) c (rl_seq s) A1 pre mid post" "rl_size s' = rl_size s"
      "rl_head s' = start (rl_size s) c (pre @ mid @ post) (- 1)"
      "pre @ mid @ post \<noteq> [] \<Longrightarrow> rl_tail s' = rend (rl_size s) c (pre @ mid @ post) (- 1)"
      "rl_length s' = ivlen (pre @ mid @ post)"
  shows "rcv_rep c b s' (pre @ mid @ post)"
proof -
  let ?n = "rl_size s"
  note D = rcv_repD [OF rep]
  have bl: "b \<le> l" "h < b + ?n" using D(4) by auto
  have "in_win b ?n mid" using mid bl by (auto simp: in_win_def)
  then have win: "in_win b ?n (pre @ mid @ post)" using D(4) by simp
  have dis: "slots ?n c mid \<inter> (slots ?n c pre \<union> slots ?n c post) = {}"
  proof -
    have "slot ?n c (fst x) \<noteq> slot ?n c (fst y)" if "x \<in> set mid" "y \<in> set pre \<union> set post" for x y
    proof (rule slot_neq [OF win separated_lo_sorted [OF sep]])
      have "\<forall>x\<in>set mid. (\<forall>y\<in>set pre. fst y < fst x) \<and> (\<forall>y\<in>set post. fst x < fst y)"
        using separated_lo_sorted [OF sep] by simp
      then show "fst x \<noteq> fst y" using that by (metis UnE order_less_irrefl)
    qed (use that in auto)
    then show ?thesis unfolding slots_def by blast
  qed
  have ends: "pre \<noteq> [] \<Longrightarrow> rend ?n c pre (- 1) \<in> slots ?n c pre"
    "post \<noteq> [] \<Longrightarrow> start ?n c post (- 1) \<in> slots ?n c post"
    using rend_in_slots start_in_slots by blast+
  have l: "slot ?n c l \<notin> slots ?n c pre \<union> slots ?n c post"
    using slots_middle [OF D(4,10)] by auto
  show ?thesis
  proof (rule rcv_rep_replace [OF rep sep win s'(2)])
    show "rcv_links ?n c (rl_seq s') (- 1) (pre @ mid @ post) (- 1)"
      unfolding s'(1)
    proof (rule relinked_links [OF D(5,4,10) A1 dis])
      show "A1 p = rl_seq s p" if "p \<in> slots ?n c pre \<union> slots ?n c post" for p
        using eq [of p] l dis that by blast
    qed
    show "rdata1 (rl_seq s' p) = - 1 \<and> rdata2 (rl_seq s' p) = - 1"
      if "p \<notin> slots ?n c (pre @ mid @ post)"
        "p \<in> slots ?n c (pre @ (l, h) # post) \<or> rl_seq s' p \<noteq> rl_seq s p" for p
    proof -
      have "rl_seq s' p = A1 p" using that(1) ends by (auto simp: s'(1) relinked_def)
      moreover have "p = slot ?n c l"
        using that eq [of p] \<open>rl_seq s' p = A1 p\<close> by auto
      ultimately show ?thesis using fr that(1) by simp
    qed
  qed (use s' in auto)
qed

lemma rcv_rep_ends:
  assumes "rcv_rep c b s (pre @ (l, h) # post)"
  defines "n \<equiv> rl_size s"
  shows "pre \<noteq> [] \<Longrightarrow> rend n c pre (- 1) \<noteq> slot n c l" "post \<noteq> [] \<Longrightarrow> start n c post (- 1) \<noteq> slot n c l"
    "pre \<noteq> [] \<Longrightarrow> post \<noteq> [] \<Longrightarrow> rend n c pre (- 1) \<noteq> start n c post (- 1)"
    "pre \<noteq> [] \<Longrightarrow> 0 \<le> rend n c pre (- 1) \<and> rend n c pre (- 1) < n \<and> rend n c pre (- 1) \<noteq> - 1"
    "post \<noteq> [] \<Longrightarrow> 0 \<le> start n c post (- 1) \<and> start n c post (- 1) < n \<and> start n c post (- 1) \<noteq> - 1"
    "rl_head s = (if pre = [] then slot n c l else start n c pre (- 1))"
    "rl_head s = slot n c l \<longleftrightarrow> pre = []" "rl_tail s = slot n c l \<longleftrightarrow> post = []"
proof -
  note D = rcv_repD [OF assms(1)]
  note M = slots_middle [OF D(4,10), of c, folded n_def]
  have n: "0 < n" using D(1) by (simp add: n_def)
  have r: "pre \<noteq> [] \<Longrightarrow> rend n c pre (- 1) \<in> slots n c pre" by (rule rend_in_slots)
  have t: "post \<noteq> [] \<Longrightarrow> start n c post (- 1) \<in> slots n c post" by (rule start_in_slots)
  have e: "post \<noteq> [] \<Longrightarrow> rend n c post p \<in> slots n c post" for p by (rule rend_in_slots)
  have t': "pre \<noteq> [] \<Longrightarrow> start n c pre q \<in> slots n c pre" for q by (rule start_in_slots)
  show "pre \<noteq> [] \<Longrightarrow> rend n c pre (- 1) \<noteq> slot n c l" using M(1) r by auto
  show "post \<noteq> [] \<Longrightarrow> start n c post (- 1) \<noteq> slot n c l" using M(2) t by auto
  show "pre \<noteq> [] \<Longrightarrow> post \<noteq> [] \<Longrightarrow> rend n c pre (- 1) \<noteq> start n c post (- 1)"
    using M(3) r t by (metis disjoint_iff)
  show "pre \<noteq> [] \<Longrightarrow> 0 \<le> rend n c pre (- 1) \<and> rend n c pre (- 1) < n \<and> rend n c pre (- 1) \<noteq> - 1"
    using slots_range [OF n r] by simp
  show "post \<noteq> [] \<Longrightarrow> 0 \<le> start n c post (- 1) \<and> start n c post (- 1) < n \<and> start n c post (- 1) \<noteq> - 1"
    using slots_range [OF n t] by simp
  show "rl_head s = (if pre = [] then slot n c l else start n c pre (- 1))"
    using D(7) by (cases pre) (auto simp: n_def)
  show "rl_head s = slot n c l \<longleftrightarrow> pre = []"
    using D(7) M(1) t' [of "start n c ((l, h) # post) (- 1)"]
    by (cases "pre = []") (auto simp: start_append n_def)
  show "rl_tail s = slot n c l \<longleftrightarrow> post = []"
    using D(8) M(2) e [of "slot n c l"] by (cases "post = []") (auto simp: n_def)
qed

lemma rcv_unlink_correct:
  assumes "rcv_rep c b s (pre @ (l, l) # post)"
  shows "\<exists>s'. rcv_unlink s (slot (rl_size s) c l) = Some s' \<and>
    rcv_rep c b (rl_add_len (- 1) s') (pre @ post) \<and> rl_size s' = rl_size s"
proof -
  let ?n = "rl_size s" let ?p = "slot ?n c l"
  note D = rcv_repD [OF assms] and E = rcv_rep_ends [OF assms]
  have node: "rl_seq s ?p = \<lparr>rdata1 = sq l, rdata2 = - 1, rnext = start ?n c post (- 1), rprior = rend ?n c pre (- 1)\<rparr>"
    using rcv_rep_node [OF assms] by simp
  define A1 where "A1 = (rl_seq s)(?p := (rl_seq s ?p)\<lparr>rdata1 := - 1\<rparr>)"
  define s' where "s' = s\<lparr>rl_seq := relinked ?n c (rl_seq s) A1 pre [] post,
    rl_head := (if pre = [] then start ?n c post (- 1) else start ?n c pre (- 1)),
    rl_tail := (if post = [] then (if pre = [] then rl_tail s else rend ?n c pre (- 1)) else rl_tail s)\<rparr>"
  have "rcv_unlink s ?p = Some s'"
    using D(1) E node
    by (cases "pre = []"; cases "post = []")
      (auto simp: rcv_unlink_def Let_def s'_def A1_def relinked_def fun_eq_iff
        intro!: CRcvLossList.equality ext)
  moreover have "rcv_rep c b (rl_add_len (- 1) s') (pre @ [] @ post)"
    by (rule rcv_rep_splice [OF assms, where ?A1.0 = A1])
      (use D node in \<open>auto simp: s'_def A1_def start_append neq_Nil_conv\<close>)
  ultimately show ?thesis by (auto simp: s'_def)
qed

lemma rcv_links_end: "rcv_links n c A p xs r \<Longrightarrow> xs \<noteq> [] \<Longrightarrow> rnext (A (rend n c xs p)) = r"
  by (cases xs rule: rev_cases) auto

lemma rcv_rep_slot_free:
  assumes "rcv_rep c b s xs" "b \<le> q" "q < b + rl_size s" "q \<notin> fst ` set xs"
  shows "slot (rl_size s) c q \<notin> slots (rl_size s) c xs"
  using slot_notin_slots [OF rcv_repD(4) [OF assms(1)] separated_nonempty [OF rcv_repD(3) [OF assms(1)]]
    assms(2-4)] .

lemma rcv_put_tail_free:
  assumes "0 \<le> p" "p < rl_size s" "rdata2 (rl_seq s p) = - 1" "q < h" "h - q < 536870912"
  shows "rcv_put_tail s p (sq q) (sq h) = Some (s\<lparr>rl_seq := (rl_seq s)(p := (rl_seq s p)
    \<lparr>rdata1 := sq (q + 1), rdata2 := enc_end (q + 1) h\<rparr>)\<rparr>)"
  using assms by (auto simp: rcv_put_tail_def seq_simps intro!: CRcvLossList.equality rcv_node.equality)

lemma inner_not_start:
  assumes "separated (pre @ (l, h) # post)" "l < q" "q \<le> h"
  shows "q \<notin> fst ` set (pre @ (l, h) # post)"
proof -
  have "\<forall>x\<in>set pre. fst x < l" using separated_lo_sorted [OF assms(1)] by simp
  moreover have "\<forall>y\<in>set post. h < fst y" using assms(1) by simp
  ultimately show ?thesis using assms(2,3) by auto
qed

lemma rcv_node_all [simp]:
  "(x :: rcv_node)\<lparr>rdata1 := a, rdata2 := b, rnext := c, rprior := d\<rparr> =
    \<lparr>rdata1 = a, rdata2 = b, rnext = c, rprior = d\<rparr>"
  by (cases x) simp

lemma relinked_upd:
  defines "r \<equiv> \<lambda>n c pre. rend n c pre (- 1)" and "t \<equiv> \<lambda>n c post. start n c post (- 1)"
  shows "relinked n c A A1 [] mid [] = A1"
    "pre \<noteq> [] \<Longrightarrow> relinked n c A A1 pre mid [] =
      A1(r n c pre := (A (r n c pre))\<lparr>rnext := start n c mid (- 1)\<rparr>)"
    "post \<noteq> [] \<Longrightarrow> relinked n c A A1 [] mid post =
      A1(t n c post := (A (t n c post))\<lparr>rprior := rend n c mid (- 1)\<rparr>)"
    "pre \<noteq> [] \<Longrightarrow> post \<noteq> [] \<Longrightarrow> r n c pre \<noteq> t n c post \<Longrightarrow> relinked n c A A1 pre mid post =
      A1(r n c pre := (A (r n c pre))\<lparr>rnext := start n c (mid @ post) (- 1)\<rparr>,
         t n c post := (A (t n c post))\<lparr>rprior := rend n c (pre @ mid) (- 1)\<rparr>)"
  by (auto simp: relinked_def r_def t_def fun_eq_iff)

lemma rcv_shift_correct:
  assumes "rcv_rep c b s (pre @ (l, h) # post)" "l < h"
  shows "\<exists>s'. rcv_shift s (slot (rl_size s) c l) = Some s' \<and>
    rcv_rep c b (rl_add_len (- 1) s') (pre @ (l + 1, h) # post) \<and> rl_size s' = rl_size s"
proof -
  let ?n = "rl_size s" let ?p = "slot ?n c l" let ?q = "slot ?n c (l + 1)"
  note D = rcv_repD [OF assms(1)] and E = rcv_rep_ends [OF assms(1)]
  have node: "rl_seq s ?p = \<lparr>rdata1 = sq l, rdata2 = sq h, rnext = start ?n c post (- 1), rprior = rend ?n c pre (- 1)\<rparr>"
    using rcv_rep_node [OF assms(1)] assms(2) by simp
  have bl: "b \<le> l" "h < b + ?n" using D(4) by auto
  have ns: "l + 1 \<notin> fst ` set (pre @ (l, h) # post)"
    using inner_not_start [OF D(3), of "l + 1"] assms(2) by simp
  have b1: "b \<le> l + 1" "l + 1 < b + ?n" using bl assms(2) by auto
  note U = rcv_rep_used [OF assms(1) b1] and F = rcv_rep_slot_free [OF assms(1) b1 ns]
  have F': "?q \<noteq> ?p" "?p \<noteq> ?q" "pre \<noteq> [] \<Longrightarrow> rend ?n c pre (- 1) \<noteq> ?q" "post \<noteq> [] \<Longrightarrow> start ?n c post (- 1) \<noteq> ?q"
    using F rend_in_slots [of pre ?n c "- 1"] start_in_slots [of post ?n c "- 1"] by auto
  have loc: "c_rem (?p + 1) ?n = ?q" using slot_range(1) [of ?n c l] D(1) by (simp add: slot_shift)
  have pt: "rcv_put_tail s ?q (sq l) (sq h) = Some (s\<lparr>rl_seq := (rl_seq s)(?q := (rl_seq s ?q)
      \<lparr>rdata1 := sq (l + 1), rdata2 := enc_end (l + 1) h\<rparr>)\<rparr>)"
    using rcv_put_tail_free [of ?q s l h] U(2) ns D(1,2) assms(2) bl by simp
  define A1 where "A1 = (rl_seq s)(?q := (rl_seq s ?q)\<lparr>rdata1 := sq (l + 1), rdata2 := enc_end (l + 1) h\<rparr>,
    ?p := (rl_seq s ?p)\<lparr>rdata1 := - 1, rdata2 := - 1\<rparr>, ?q := \<lparr>rdata1 = sq (l + 1), rdata2 = enc_end (l + 1) h, rnext = start ?n c post (- 1), rprior = rend ?n c pre (- 1)\<rparr>)"
  define s' where "s' = s\<lparr>rl_seq := relinked ?n c (rl_seq s) A1 pre [(l + 1, h)] post,
    rl_head := (if pre = [] then ?q else start ?n c pre (- 1)),
    rl_tail := (if post = [] then ?q else rl_tail s)\<rparr>"
  have hd: "pre \<noteq> [] \<Longrightarrow> start ?n c pre (- 1) \<noteq> ?p" using E(6,7) by simp
  note sym = not_sym [OF E(3)] not_sym [OF F'(3)] not_sym [OF F'(4)]
  have "rcv_shift s ?p = Some s'"
    by (cases "pre = []"; cases "post = []";
      simp add: rcv_shift_def Let_def s'_def A1_def relinked_upd D(1) E(1-6) E(8) hd sym node F' loc pt
        del: c_rem_nonneg)
  moreover have "rcv_rep c b (rl_add_len (- 1) s') (pre @ [(l + 1, h)] @ post)"
    by (rule rcv_rep_splice [OF assms(1), where ?A1.0 = A1])
      (use D node F' assms(2) in \<open>auto simp: s'_def A1_def start_append neq_Nil_conv\<close>)
  ultimately show ?thesis by (auto simp: s'_def)
qed

lemma rcv_cut_correct:
  assumes "rcv_rep c b s (pre @ (l, h) # post)" "l < h"
  shows "\<exists>s'. rcv_cut s (slot (rl_size s) c l) (sq h) = Some s' \<and>
    rcv_rep c b (rl_add_len (- 1) s') (pre @ (l, h - 1) # post) \<and> rl_size s' = rl_size s"
proof -
  let ?n = "rl_size s" let ?p = "slot ?n c l"
  note D = rcv_repD [OF assms(1)]
  have node: "rl_seq s ?p = \<lparr>rdata1 = sq l, rdata2 = sq h, rnext = start ?n c post (- 1), rprior = rend ?n c pre (- 1)\<rparr>"
    using rcv_rep_node [OF assms(1)] assms(2) by simp
  have bl: "b \<le> l" "h < b + ?n" using D(4) by auto
  define s' where "s' = s\<lparr>rl_seq := (rl_seq s)(?p := (rl_seq s ?p)\<lparr>rdata2 := enc_end l (h - 1)\<rparr>)\<rparr>"
  have "rcv_cut s ?p (sq h) = Some s'"
    using D(1,2) node assms(2) bl by (auto simp: rcv_cut_def s'_def enc_end_def seq_simps)
  moreover have "rcv_rep c b (rl_add_len (- 1) s') (pre @ (l, h - 1) # post)"
    by (rule rcv_rep_replace [OF assms(1)])
      (use D node assms(2) slots_middle [OF D(4,10), of c] in \<open>auto simp: s'_def start_append\<close>)
  ultimately show ?thesis by (auto simp: s'_def)
qed

lemma rcv_split_correct:
  assumes "rcv_rep c b s (pre @ (l, h) # post)" "l < q" "q < h"
  shows "\<exists>s'. rcv_split s (slot (rl_size s) c l) (slot (rl_size s) c q) (sq q) = Some s' \<and>
    rcv_rep c b (rl_add_len (- 1) s') (pre @ (l, q - 1) # (q + 1, h) # post) \<and> rl_size s' = rl_size s"
proof -
  let ?n = "rl_size s" let ?p = "slot ?n c l" let ?q = "slot ?n c (q + 1)"
  let ?r = "rend ?n c pre (- 1)" let ?t = "start ?n c post (- 1)"
  note D = rcv_repD [OF assms(1)] and E = rcv_rep_ends [OF assms(1)]
  have node: "rl_seq s ?p = \<lparr>rdata1 = sq l, rdata2 = sq h, rnext = ?t, rprior = ?r\<rparr>"
    using rcv_rep_node [OF assms(1)] assms(2,3) by simp
  have bl: "b \<le> l" "h < b + ?n" using D(4) by auto
  have ns: "q + 1 \<notin> fst ` set (pre @ (l, h) # post)"
    using inner_not_start [OF D(3), of "q + 1"] assms(2,3) by simp
  have b1: "b \<le> q + 1" "q + 1 < b + ?n" using bl assms(2,3) by auto
  note U = rcv_rep_used [OF assms(1) b1] and F = rcv_rep_slot_free [OF assms(1) b1 ns]
  have F': "?q \<noteq> ?p" "?p \<noteq> ?q" "pre \<noteq> [] \<Longrightarrow> ?r \<noteq> ?q" "post \<noteq> [] \<Longrightarrow> ?t \<noteq> ?q"
    using F rend_in_slots [of pre ?n c "- 1"] start_in_slots [of post ?n c "- 1"] by auto
  have loc: "c_rem (slot ?n c q + 1) ?n = ?q" using slot_range(1) [of ?n c q] D(1) by (simp add: slot_shift)
  have pt: "rcv_put_tail s ?q (sq q) (sq h) = Some (s\<lparr>rl_seq := (rl_seq s)(?q := (rl_seq s ?q)
      \<lparr>rdata1 := sq (q + 1), rdata2 := enc_end (q + 1) h\<rparr>)\<rparr>)"
    using rcv_put_tail_free [of ?q s q h] U(2) ns D(1,2) assms(2,3) bl by simp
  define A1 where "A1 = (rl_seq s)(
    ?q := \<lparr>rdata1 = sq (q + 1), rdata2 = enc_end (q + 1) h, rnext = ?t, rprior = ?p\<rparr>,
    ?p := \<lparr>rdata1 = sq l, rdata2 = enc_end l (q - 1), rnext = ?q, rprior = ?r\<rparr>)"
  define B where "B = (if post = [] then A1 else A1(?t := (A1 ?t)\<lparr>rprior := ?q\<rparr>))"
  define s' where "s' = s\<lparr>rl_seq := B, rl_tail := (if post = [] then ?q else rl_tail s)\<rparr>"
  have cut: "(if sq q = incseq (sq l) then - 1 else decseq (sq q)) = enc_end l (q - 1)"
    using assms(2,3) bl D(2) by (auto simp: seq_simps enc_end_def)
  have "rcv_split s ?p (slot ?n c q) (sq q) = Some s'"
    using D(1) E(2,5,8) node F' loc pt cut
    by (cases "post = []")
      (auto simp: rcv_split_def rcv_cut_def Let_def s'_def A1_def B_def fun_upd_twist [of ?p ?q]
        simp del: c_rem_nonneg intro!: CRcvLossList.equality)
  moreover have "B = relinked ?n c (rl_seq s) A1 pre [(l, q - 1), (q + 1, h)] post"
  proof -
    have "pre \<noteq> [] \<Longrightarrow> rnext (rl_seq s ?r) = ?p" using rcv_links_end [of ?n c _ _ pre] D(5) by fastforce
    then have "pre \<noteq> [] \<Longrightarrow> (rl_seq s ?r)\<lparr>rnext := ?p\<rparr> = rl_seq s ?r" by (metis rcv_node.surjective rcv_node.update_convs(3))
    then show ?thesis using E F' by (auto simp: B_def A1_def relinked_def fun_eq_iff)
  qed
  then have "rcv_rep c b (rl_add_len (- 1) s') (pre @ [(l, q - 1), (q + 1, h)] @ post)"
    by (intro rcv_rep_splice [OF assms(1), where ?A1.0 = A1])
      (use D node F' assms(2,3) in \<open>auto simp: s'_def A1_def start_append neq_Nil_conv\<close>)
  ultimately show ?thesis by (auto simp: s'_def)
qed

text \<open>The backward search ends at the last range that starts before \<open>q\<close>.\<close>

lemma rcv_find_back_correct:
  assumes "rcv_rep c b s (pre @ (l, h) # post)" "l \<le> q" "q < b + rl_size s"
    "\<forall>y\<in>set post. q < fst y" "nat (q - l) < fuel"
  shows "rcv_find_back fuel s (slot (rl_size s) c q) = Some (slot (rl_size s) c l)"
  using assms(2-5)
proof (induction "nat (q - l)" arbitrary: q fuel)
  case 0
  note D = rcv_repD [OF assms(1)]
  have "q = l" using 0 by simp
  obtain f where "fuel = Suc f" using 0 by (cases fuel) auto
  then show ?case using \<open>q = l\<close> rcv_rep_node [OF assms(1)] D(1) by simp
next
  case (Suc k)
  note D = rcv_repD [OF assms(1)]
  let ?n = "rl_size s"
  have bl: "b \<le> l" using D(4) by simp
  have lq: "l < q" using Suc.hyps(2) by simp
  obtain f where f: "fuel = Suc f" using Suc.prems by (cases fuel) auto
  have "\<forall>x\<in>set pre. fst x < l" using D(10) by simp
  then have "q \<notin> fst ` set (pre @ (l, h) # post)" using lq Suc.prems(3) by auto
  then have "rdata1 (rl_seq s (slot ?n c q)) = - 1"
    using rcv_rep_used(1) [OF assms(1), of q] bl lq Suc.prems(2) by simp
  moreover have "c_rem (slot ?n c q - 1 + ?n) ?n = slot ?n c (q - 1)"
    using slot_c_rem [of ?n "- 1" c q] D(1) by simp
  moreover have "rcv_find_back f s (slot ?n c (q - 1)) = Some (slot ?n c l)"
    using Suc.hyps(1) [of "q - 1" f] Suc.prems Suc.hyps(2) lq f by force
  ultimately show ?case using f D(1) by (simp del: c_rem_nonneg)
qed

lemma ivset_remove:
  assumes "separated (pre @ (l, h) # post)" "l \<le> q" "q \<le> h"
  shows "ivset (pre @ (l, h) # post) - {q} = ivset pre \<union> {l..q - 1} \<union> {q + 1..h} \<union> ivset post"
proof -
  have "x < l" if "x \<in> ivset pre" for x using ivset_le [of pre l x] assms(1) that by simp
  moreover have "h < x" if "x \<in> ivset post" for x using ivset_ge [of post h x] assms(1) that by simp
  ultimately show ?thesis using assms(2,3) by force
qed

text \<open>The last range that starts at or before \<open>q\<close>.\<close>

lemma split_at_start:
  assumes "separated ((l0, h0) # zs)" "l0 \<le> q"
  obtains pre l h post where "(l0, h0) # zs = pre @ (l, h) # post" "l \<le> q" "\<forall>y\<in>set post. q < fst y"
proof -
  have "\<exists>pre l h post. (l0, h0) # zs = pre @ (l, h) # post \<and> l \<le> q \<and> (\<forall>y\<in>set post. q < fst y)"
    using assms
  proof (induction zs arbitrary: l0 h0)
    case (Cons z zs)
    obtain l1 h1 where z: "z = (l1, h1)" by (cases z)
    show ?case
    proof (cases "l1 \<le> q")
      case True
      then obtain pre l h post where "(l1, h1) # zs = pre @ (l, h) # post" "l \<le> q" "\<forall>y\<in>set post. q < fst y"
        using Cons.IH [of l1 h1] Cons.prems z by auto
      then show ?thesis by (intro exI [of _ "(l0, h0) # pre"]) (auto simp: z)
    next
      case False
      then show ?thesis using Cons.prems z by (intro exI [of _ "[]"]) force
    qed
  next
    case Nil
    then show ?case by (intro exI [of _ "[]"] exI [of _ l0] exI [of _ h0]) simp
  qed
  then show ?thesis using that by blast
qed

lemma rcv_remove_correct:
  assumes "rcv_rep c b s xs" "b - 268435456 < q" "q < b + rl_size s"
  shows "\<exists>s' xs'. rcv_remove s (sq q) = Some (q \<in> ivset xs, s') \<and> rcv_rep c b s' xs' \<and>
    rl_size s' = rl_size s \<and> ivset xs' = ivset xs - {q}"
proof (cases xs)
  case Nil
  then have "rcv_remove s (sq q) = Some (False, s)" using rcv_rep_length_0 [OF assms(1)] by (simp add: rcv_remove_def)
  then show ?thesis using assms Nil by auto
next
  case (Cons x zs)
  obtain l0 h0 where x: "x = (l0, h0)" by (cases x)
  let ?n = "rl_size s"
  have rep: "rcv_rep c b s ([] @ (l0, h0) # zs)" using assms(1) Cons x by simp
  note D = rcv_repD [OF rep]
  have ne: "rl_length s \<noteq> 0" using rcv_rep_length_0 [OF rep] by simp
  have hd: "rl_head s = slot ?n c l0" using D(7) by simp
  have node0: "rdata1 (rl_seq s (slot ?n c l0)) = sq l0" using rcv_rep_node [OF rep] by simp
  have b0: "b \<le> l0" "l0 \<le> h0" "h0 < b + ?n" using D(3,4) by auto
  have off: "seqoff (sq l0) (sq q) = q - l0" using b0 D(2) assms(2,3) by (simp add: seq_simps)
  have loc: "c_rem (slot ?n c l0 + (q - l0)) ?n = slot ?n c q" if "l0 \<le> q"
    using slot_range(1) [of ?n c l0] D(1) that by (simp add: slot_shift(2))
  show ?thesis
  proof (cases "l0 \<le> q")
    case False
    then have "q \<notin> ivset xs" using separated_hd_le [of l0 h0 zs q] D(3) Cons x by auto
    moreover have "rcv_remove s (sq q) = Some (False, s)"
      using ne hd node0 off D(1) False by (simp add: rcv_remove_def Let_def)
    ultimately show ?thesis using assms(1) by auto
  next
    case True
    obtain pre l h post where sp: "(l0, h0) # zs = pre @ (l, h) # post" "l \<le> q" "\<forall>y\<in>set post. q < fst y"
      by (rule split_at_start [of l0 h0 zs q]) (use D(3) True in simp_all)
    have rep': "rcv_rep c b s (pre @ (l, h) # post)" and xs: "xs = pre @ (l, h) # post"
      using rep sp(1) Cons x by simp_all
    note D' = rcv_repD [OF rep']
    have bl: "b \<le> l" "l \<le> h" "h < b + ?n" using D'(3,4) by auto
    have node: "rl_seq s (slot ?n c l) = \<lparr>rdata1 = sq l, rdata2 = enc_end l h, rnext = start ?n c post (- 1),
        rprior = rend ?n c pre (- 1)\<rparr>" using rcv_rep_node [OF rep'] .
    have mem: "q \<in> ivset xs \<longleftrightarrow> q \<le> h"
      using sp D'(3) xs ivset_le [of pre l q] ivset_ge [of post q q] by auto
    have rem: "q \<le> h \<Longrightarrow> ivset xs - {q} = ivset pre \<union> {l..q - 1} \<union> {q + 1..h} \<union> ivset post"
      using ivset_remove [of pre l h post q] D'(3) xs sp(2) by simp
    have bq: "b \<le> q" using bl sp(2) by simp
    note U = rcv_rep_used(1) [OF rep' bq assms(3)]
    note run = rcv_remove_def [of s "sq q"] ne hd node0 off loc [OF True]
    show ?thesis
    proof (cases "l = q")
      case True
      have r: "rcv_remove s (sq q) = (if l = h then rcv_unlink s (slot ?n c l) else rcv_shift s (slot ?n c l))
          \<bind> (\<lambda>s. Some (True, rl_add_len (- 1) s))"
        using run D(1) True \<open>l0 \<le> q\<close> node by (simp add: Let_def)
      show ?thesis
      proof (cases "l = h")
        case True
        then show ?thesis
          using rcv_unlink_correct [of c b s pre l post] r rep' \<open>l = q\<close> mem rem by fastforce
      next
        case False
        then show ?thesis
          using rcv_shift_correct [OF rep'] r bl \<open>l = q\<close> mem rem by fastforce
      qed
    next
      case False
      then have lq: "l < q" using sp(2) by simp
      have "\<forall>x\<in>set pre. fst x < l" using D'(10) by simp
      then have qn: "q \<notin> fst ` set (pre @ (l, h) # post)" using lq sp(3) by auto
      have bk: "c_rem (slot ?n c q - 1 + ?n) ?n = slot ?n c (q - 1)"
        using slot_c_rem [of ?n "- 1" c q] D(1) by simp
      have find: "rcv_find_back (nat ?n) s (slot ?n c (q - 1)) = Some (slot ?n c l)"
        by (rule rcv_find_back_correct [OF rep']) (use lq sp(3) assms(3) bl in auto)
      have r: "rcv_remove s (sq q) =
          (if l = h \<or> h < q then Some (False, s)
           else (if q = h then rcv_cut s (slot ?n c l) (sq q) else rcv_split s (slot ?n c l) (slot ?n c q) (sq q))
             \<bind> (\<lambda>s. Some (True, rl_add_len (- 1) s)))"
        using run D(1,2) \<open>l0 \<le> q\<close> node lq bl assms(3) U qn find bk
        by (auto simp: Let_def seq_simps simp del: c_rem_nonneg)
      consider "h < q" | "q = h" | "q < h" by linarith
      then show ?thesis
      proof cases
        case 1
        then show ?thesis using r mem assms(1) by auto
      next
        case 2
        then show ?thesis using rcv_cut_correct [OF rep'] r lq mem rem by fastforce
      next
        case 3
        then show ?thesis using rcv_split_correct [OF rep' lq 3] r lq mem rem by fastforce
      qed
    qed
  qed
qed

subsection \<open>Queries\<close>

lemma rcv_find_from_correct:
  assumes "rcv_rep c b s (pre @ xs)" "length xs < fuel" "b - 268435456 < q1" "q1 \<le> q2" "q2 < b + 805306368"
  shows "rcv_find_from fuel s (start (rl_size s) c xs (- 1)) (sq q1) (sq q2) =
    Some (ivset xs \<inter> {q1..q2} \<noteq> {})"
  using assms(1,2)
proof (induction xs arbitrary: pre fuel)
  case Nil
  then obtain f where "fuel = Suc f" by (cases fuel) auto
  then show ?case by simp
next
  case (Cons x xs)
  obtain l h where x: "x = (l, h)" by (cases x)
  obtain f where f: "fuel = Suc f" using Cons.prems by (cases fuel) auto
  note D = rcv_repD [OF Cons.prems(1)]
  have bl: "b \<le> l" "l \<le> h" "h < b + rl_size s" using D(3,4) x by auto
  have node: "rl_seq s (slot (rl_size s) c l) = \<lparr>rdata1 = sq l, rdata2 = enc_end l h,
      rnext = start (rl_size s) c xs (- 1), rprior = rend (rl_size s) c pre (- 1)\<rparr>"
    using rcv_rep_node [of c b s pre l h xs] Cons.prems x by simp
  have IH: "rcv_find_from f s (start (rl_size s) c xs (- 1)) (sq q1) (sq q2) = Some (ivset xs \<inter> {q1..q2} \<noteq> {})"
    using Cons.IH [of "pre @ [x]" f] Cons.prems f by simp
  have hit: "(seqcmp (sq l) (sq q1) = 0 \<or> seqcmp (sq l) (sq q1) > 0 \<and> seqcmp (sq l) (sq q2) \<le> 0
      \<or> seqcmp (sq l) (sq q1) < 0 \<and> enc_end l h \<noteq> - 1 \<and> seqcmp (enc_end l h) (sq q1) \<ge> 0) \<longleftrightarrow>
    {l..h} \<inter> {q1..q2} \<noteq> {}"
  proof -
    have a: "seqcmp (sq l) (sq q1) = 0 \<longleftrightarrow> l = q1" "seqcmp (sq l) (sq q1) > 0 \<longleftrightarrow> q1 < l"
      "seqcmp (sq l) (sq q1) < 0 \<longleftrightarrow> l < q1" "seqcmp (sq l) (sq q2) \<le> 0 \<longleftrightarrow> l \<le> q2"
      "seqcmp (sq h) (sq q1) \<ge> 0 \<longleftrightarrow> q1 \<le> h"
      using bl D(2) assms(3-5) by (auto simp: seq_simps)
    have "{l..h} \<inter> {q1..q2} \<noteq> {} \<longleftrightarrow> l \<le> q2 \<and> q1 \<le> h"
      using bl(2) assms(4) by auto
    with a bl(2) assms(4) show ?thesis by (cases "l = h") auto
  qed
  have "rcv_find_from fuel s (slot (rl_size s) c l) (sq q1) (sq q2) =
      (if {l..h} \<inter> {q1..q2} \<noteq> {} then Some True else Some (ivset xs \<inter> {q1..q2} \<noteq> {}))"
    using f D(1) node IH hit by simp
  moreover have "(ivset (x # xs) \<inter> {q1..q2} \<noteq> {}) = ({l..h} \<inter> {q1..q2} \<noteq> {} \<or> ivset xs \<inter> {q1..q2} \<noteq> {})"
    unfolding x ivset_simps Int_Un_distrib2 by blast
  ultimately show ?case using x by (auto simp del: ivset_simps(2))
qed

lemma ivlen_ge_length: "nonempty_ivls xs \<Longrightarrow> int (length xs) \<le> ivlen xs"
  by (induction xs) (auto simp: nonempty_ivls_def)

lemma rcv_rep_card: "rcv_rep c b s xs \<Longrightarrow> rl_length s = int (card (ivset xs))"
  by (simp add: rcv_rep_def ivlen_card)

lemma rcv_rep_length:
  assumes "rcv_rep c b s xs"
  shows "length xs < Suc (nat (rl_size s))"
proof -
  note D = rcv_repD [OF assms]
  have "ivset xs \<subseteq> {b..<b + rl_size s}" using in_win_ivset [OF D(4)] by auto
  then have "card (ivset xs) \<le> nat (rl_size s)" using card_mono [of "{b..<b + rl_size s}" "ivset xs"] by simp
  then show ?thesis
    using ivlen_ge_length [OF separated_nonempty [OF D(3)]] ivlen_card [OF D(3)] by linarith
qed

lemma rcv_find_correct:
  assumes "rcv_rep c b s xs" "b - 268435456 < q1" "q1 \<le> q2" "q2 < b + 805306368"
  shows "rcv_find s (sq q1) (sq q2) = Some (ivset xs \<inter> {q1..q2} \<noteq> {})"
proof (cases "xs = []")
  case True
  then show ?thesis using rcv_rep_length_0 [OF assms(1)] by (simp add: rcv_find_def)
next
  case False
  then show ?thesis
    using rcv_find_from_correct [of c b s "[]" xs "Suc (nat (rl_size s))" q1 q2] assms
      rcv_rep_length [OF assms(1)] rcv_rep_length_0 [OF assms(1)] rcv_repD(7) [OF assms(1)]
    by (simp add: rcv_find_def del: rcv_find_from.simps)
qed

subsection \<open>The list as a set of missing positions\<close>

definition rcv_holds :: "CRcvLossList \<Rightarrow> int set \<Rightarrow> bool" where
  "rcv_holds s X \<longleftrightarrow> (\<exists>c b xs. rcv_rep c b s xs \<and> ivset xs = X)"

lemma rcv_holdsI: "rcv_rep c b s xs \<Longrightarrow> ivset xs = X \<Longrightarrow> rcv_holds s X"
  by (auto simp: rcv_holds_def)

lemma rcv_rep_rebase:
  assumes "rcv_rep c b s xs" "\<forall>x\<in>ivset xs. b' \<le> x \<and> x < b' + rl_size s"
  shows "rcv_rep c b' s xs"
proof -
  have "in_win b' (rl_size s) xs"
    unfolding in_win_def
  proof (intro ballI, clarify)
    fix l h assume lh: "(l, h) \<in> set xs"
    then have "l \<le> h" using assms(1) nonempty_ivlsD separated_nonempty unfolding rcv_rep_def by blast
    then have "l \<in> ivset xs" "h \<in> ivset xs" using ivset_memI [OF lh] by auto
    then show "b' \<le> l \<and> h < b' + rl_size s" using assms(2) by auto
  qed
  then show ?thesis using assms(1) by (simp add: rcv_rep_def)
qed

lemma rcv_holdsE:
  assumes "rcv_holds s X" "\<forall>x\<in>X. b \<le> x \<and> x < b + rl_size s"
  obtains c xs where "rcv_rep c b s xs" "ivset xs = X"
  using assms rcv_rep_rebase unfolding rcv_holds_def by blast

lemma rcv_holds_finite: "rcv_holds s X \<Longrightarrow> finite X"
  by (auto simp: rcv_holds_def)

lemma rcv_holds_size: "rcv_holds s X \<Longrightarrow> 0 < rl_size s \<and> rl_size s \<le> 536870912"
  by (auto simp: rcv_holds_def rcv_rep_def)

lemma rcv_holds_new: "0 < n \<Longrightarrow> n \<le> 536870912 \<Longrightarrow> rcv_holds (rcv_new n j k) {}"
  using rcv_new_rep [of n 0 0 j k] by (auto intro: rcv_holdsI)

lemma rcv_holds_length: "rcv_holds s X \<Longrightarrow> rcv_getLossLength s = int (card X)"
  by (auto simp: rcv_holds_def rcv_getLossLength_def rcv_rep_card)

lemma rcv_holds_insert:
  assumes "rcv_holds s X" "q1 \<le> q2" "\<forall>x\<in>X. x < q1" "\<forall>x\<in>X \<union> {q1..q2}. b \<le> x \<and> x < b + rl_size s"
  shows "\<exists>s'. rcv_insert s (sq q1) (sq q2) = Some s' \<and> rcv_holds s' (X \<union> {q1..q2}) \<and> rl_size s' = rl_size s"
proof -
  obtain c xs where r: "rcv_rep c b s xs" "ivset xs = X" using rcv_holdsE [OF assms(1)] assms(4) by blast
  show ?thesis
  proof (cases xs rule: rev_cases)
    case Nil
    then obtain s' where "rcv_insert s (sq q1) (sq q2) = Some s'" "rcv_rep (- q1) b s' [(q1, q2)]"
      "rl_size s' = rl_size s" using rcv_insert_empty [of c b s q1 q2 b] r(1) assms by auto
    moreover have "ivset [(q1, q2)] = X \<union> {q1..q2}" using Nil r(2) by simp
    ultimately show ?thesis using rcv_holdsI by blast
  next
    case (snoc ys y)
    obtain l h where y: "y = (l, h)" by (cases y)
    have "l \<le> h" using rcv_repD(3) [OF r(1)] snoc y by simp
    then have "h < q1" using assms(3) r(2) snoc y by auto
    then show ?thesis using rcv_insert_nonempty [of c b s ys l h q1 q2] r assms snoc y
      by (auto simp: rcv_holds_def)
  qed
qed

lemma rcv_holds_remove:
  assumes "rcv_holds s X" "\<forall>x\<in>X. x - 268435456 < q \<and> q < x + rl_size s" "\<forall>x\<in>X. b \<le> x \<and> x < b + rl_size s"
  shows "\<exists>s'. rcv_remove s (sq q) = Some (q \<in> X, s') \<and> rcv_holds s' (X - {q}) \<and> rl_size s' = rl_size s"
proof -
  define b' where "b' = (if X = {} then q else Min X)"
  have fin: "finite X" using assms(1) by (rule rcv_holds_finite)
  have mem: "X \<noteq> {} \<Longrightarrow> b' \<in> X" using fin by (simp add: b'_def)
  have "\<forall>x\<in>X. b' \<le> x \<and> x < b' + rl_size s"
  proof
    fix x assume x: "x \<in> X"
    have "b' \<le> x" using fin x by (auto simp: b'_def)
    moreover have "b \<le> b'" "x < b + rl_size s" using assms(3) mem x by auto
    ultimately show "b' \<le> x \<and> x < b' + rl_size s" by linarith
  qed
  then obtain c xs where "rcv_rep c b' s xs" "ivset xs = X" using rcv_holdsE [OF assms(1)] by blast
  moreover have "b' - 268435456 < q" "q < b' + rl_size s"
    using assms(2) mem rcv_holds_size [OF assms(1)] by (cases "X = {}"; auto simp: b'_def)+
  ultimately show ?thesis using rcv_remove_correct [of c b' s xs q] by (auto simp: rcv_holds_def)
qed

lemma rcv_holds_first: "rcv_holds s X \<Longrightarrow> rcv_getFirstLostSeq s = Some (if X = {} then - 1 else sq (Min X))"
proof -
  assume h: "rcv_holds s X"
  then obtain c b xs where r: "rcv_rep c b s xs" "ivset xs = X" by (auto simp: rcv_holds_def)
  note D = rcv_repD [OF r(1)]
  show ?thesis
  proof (cases xs)
    case Nil
    then show ?thesis using r rcv_rep_length_0 [OF r(1)] by (auto simp: rcv_getFirstLostSeq_def)
  next
    case (Cons x ys)
    obtain l h where x: "x = (l, h)" by (cases x)
    have "l \<in> X" using D(3) Cons x r(2) by auto
    moreover have "Min X = l"
      using separated_hd_le [of l h ys] D(3) Cons x r(2) rcv_holds_finite [OF h] \<open>l \<in> X\<close> by (intro Min_eqI) auto
    ultimately show ?thesis
      using rcv_rep_node [of c b s "[]" l h ys] r(1) Cons x D(1,7) rcv_rep_length_0 [OF r(1)]
      by (auto simp: rcv_getFirstLostSeq_def)
  qed
qed

subsection \<open>Removing a range\<close>

declare rcv_remove_loop.simps [simp del]

lemma sq_step: "sq q + d \<le> 2147483647 \<Longrightarrow> 0 \<le> d \<Longrightarrow> sq (q + d) = sq q + d"
  using sq_range(1) [of q] sq_add [of d q] by (auto simp del: sq_range)

lemma rcv_remove_loop_correct:
  assumes "rcv_holds s X" "\<forall>x\<in>X. x - 268435456 < q1 \<and> q2 < x + rl_size s"
    "\<forall>x\<in>X. b \<le> x \<and> x < b + rl_size s" "q1 \<le> q2 + 1" "sq q1 + (q2 - q1) < 2147483647"
  shows "\<exists>s'. rcv_remove_loop s (sq q1) (sq q1 + (q2 - q1)) = Some s' \<and> rcv_holds s' (X - {q1..q2}) \<and>
    rl_size s' = rl_size s"
  using assms
proof (induction "nat (q2 + 1 - q1)" arbitrary: q1 s X)
  case 0
  then have "q1 = q2 + 1" by simp
  with 0 show ?case by (simp add: rcv_remove_loop.simps)
next
  case (Suc k)
  have le: "q1 \<le> q2" using Suc.hyps(2) by simp
  have "\<forall>x\<in>X. x - 268435456 < q1 \<and> q1 < x + rl_size s" using Suc.prems(2) le by fastforce
  from rcv_holds_remove [OF Suc.prems(1) this Suc.prems(3)]
  obtain s1 where s1: "rcv_remove s (sq q1) = Some (q1 \<in> X, s1)" "rcv_holds s1 (X - {q1})" "rl_size s1 = rl_size s"
    by blast
  have step: "sq (q1 + 1) = sq q1 + 1" using sq_step [of q1 1] Suc.prems(5) le by simp
  have "\<exists>s'. rcv_remove_loop s1 (sq (q1 + 1)) (sq (q1 + 1) + (q2 - (q1 + 1))) = Some s' \<and>
      rcv_holds s' (X - {q1} - {q1 + 1..q2}) \<and> rl_size s' = rl_size s1"
  proof (rule Suc.hyps(1))
    show "rcv_holds s1 (X - {q1})" by (rule s1(2))
    show "\<forall>x\<in>X - {q1}. x - 268435456 < q1 + 1 \<and> q2 < x + rl_size s1" using Suc.prems(2) s1(3) by auto
    show "\<forall>x\<in>X - {q1}. b \<le> x \<and> x < b + rl_size s1" using Suc.prems(3) s1(3) by auto
  qed (use Suc.prems(5) Suc.hyps(2) step le in auto)
  moreover have "X - {q1} - {q1 + 1..q2} = X - {q1..q2}" using le by auto
  moreover have "rcv_remove_loop s (sq q1) (sq q1 + (q2 - q1)) =
      rcv_remove_loop s1 (sq (q1 + 1)) (sq (q1 + 1) + (q2 - (q1 + 1)))"
    using s1(1) step le Suc.prems(5) by (subst rcv_remove_loop.simps) simp
  ultimately show ?case using s1(3) by simp
qed

lemma rcv_remove_range_correct:
  assumes "rcv_holds s X" "\<forall>x\<in>X. x - 268435456 < q1 \<and> q2 < x + rl_size s"
    "\<forall>x\<in>X. b \<le> x \<and> x < b + rl_size s" "q1 \<le> q2" "q2 - q1 < 1073741824" "sq q2 \<noteq> m_iMaxSeqNo"
  shows "\<exists>s'. rcv_remove_range s (sq q1) (sq q2) = Some (True, s') \<and>
    rcv_holds s' (X - {q \<in> {q1..q2}. sq q \<noteq> m_iMaxSeqNo}) \<and> rl_size s' = rl_size s"
proof (cases "sq q1 \<le> sq q2")
  case True
  have d: "sq q2 = sq q1 + (q2 - q1)"
    using sq_diff_cases [of q2 q1] assms(4,5) True sq_range(1,2) [of q1] sq_range(1,2) [of q2] by fastforce
  have lt: "sq q1 + (q2 - q1) < 2147483647"
    using d assms(6) sq_range(2) [of q2] by (simp add: seq_consts)
  have "{q \<in> {q1..q2}. sq q \<noteq> m_iMaxSeqNo} = {q1..q2}"
  proof -
    have "sq q \<noteq> m_iMaxSeqNo" if "q \<in> {q1..q2}" for q
      using sq_step [of q1 "q - q1"] lt that by (simp add: seq_consts)
    then show ?thesis by auto
  qed
  then show ?thesis
    using rcv_remove_loop_correct [OF assms(1-3) _ lt] assms(4) True d
    by (auto simp: rcv_remove_range_def)
next
  case False
  define m where "m = q1 + (2147483647 - sq q1)"
  have sm: "sq m = 2147483647" "q1 \<le> m"
    using sq_step [of q1 "2147483647 - sq q1"] sq_range(3) [of q1] by (simp_all add: m_def)
  have d: "sq q2 = sq q1 + (q2 - q1) - 2147483648"
    using sq_diff_cases [of q2 q1] assms(4,5) False sq_range(1,2) [of q1] sq_range(1,2) [of q2] by fastforce
  have sm1: "sq (m + 1) = 0" using sm(1) by (simp add: sq_def mod_add_left_eq [symmetric])
  have q2: "q2 = m + 1 + sq q2" using d by (simp add: m_def)
  have mq: "m < q2" using q2 sq_range(1) [of q2] by linarith
  have s2: "sq q2 < 2147483647" using assms(6) sq_range(2) [of q2] unfolding seq_consts by linarith
  have w1: "\<forall>x\<in>X. x - 268435456 < q1 \<and> m - 1 < x + rl_size s" using assms(2) mq by fastforce
  obtain s1 where s1: "rcv_remove_loop s (sq q1) (sq q1 + (m - 1 - q1)) = Some s1"
    "rcv_holds s1 (X - {q1..m - 1})" "rl_size s1 = rl_size s"
    using rcv_remove_loop_correct [OF assms(1) w1 assms(3)] sm by (auto simp: m_def)
  have "\<forall>x\<in>X - {q1..m - 1}. x - 268435456 < m + 1 \<and> q2 < x + rl_size s1"
    "\<forall>x\<in>X - {q1..m - 1}. b \<le> x \<and> x < b + rl_size s1"
    using assms(2,3) sm(2) s1(3) by fastforce+
  from rcv_remove_loop_correct [OF s1(2) this] obtain s2 where s2:
    "rcv_remove_loop s1 (sq (m + 1)) (sq (m + 1) + (q2 - (m + 1))) = Some s2"
    "rcv_holds s2 (X - {q1..m - 1} - {m + 1..q2})" "rl_size s2 = rl_size s"
    using mq sm1 s2 q2 s1(3) by (auto)
  have "{q \<in> {q1..q2}. sq q \<noteq> m_iMaxSeqNo} = {q1..m - 1} \<union> {m + 1..q2}"
  proof -
    have "sq q = m_iMaxSeqNo \<longleftrightarrow> q = m" if "q \<in> {q1..q2}" for q
      using sq_near_eq [of q m] sm that assms(5) mq by (auto simp: seq_consts)
    then show ?thesis using sm(2) mq by auto
  qed
  then have "X - {q \<in> {q1..q2}. sq q \<noteq> m_iMaxSeqNo} = X - {q1..m - 1} - {m + 1..q2}" by blast
  moreover have e: "sq q1 + (m - 1 - q1) = m_iMaxSeqNo - 1" by (simp add: m_def seq_consts)
  have "rcv_remove_loop s (sq q1) (m_iMaxSeqNo - 1) = Some s1" using s1(1) unfolding e .
  moreover have "sq (m + 1) + (q2 - (m + 1)) = sq q2" using q2 sm1 by simp
  then have "rcv_remove_loop s1 0 (sq q2) = Some s2" using s2(1) sm1 by simp
  ultimately show ?thesis
    using s2(2,3) False by (auto simp: rcv_remove_range_def)
qed

text \<open>A range that ends at the largest sequence number runs into the end of \<open>int32_t\<close>.\<close>

lemma rcv_remove_range_at_max:
  "rcv_remove_range (rcv_new 16 (\<lambda>_. 0) (\<lambda>_. 0)) 2147483646 2147483647 = None"
  by (simp add: rcv_remove_range_def rcv_remove_loop.simps rcv_remove_def rcv_new_def)

subsection \<open>The loss report\<close>

text \<open>
  The array is the encoding of the first ranges of the list, as many as the limit admits. A range
  may need two words, so the loop stops one word early.
\<close>

lemma rcv_loss_array_correct:
  assumes "rcv_rep c b s (pre @ xs)" "length xs < fuel"
  shows "\<exists>ys zs. xs = ys @ zs \<and> rcv_loss_array fuel s (start (rl_size s) c xs (- 1)) len limit = Some (nak_enc ys) \<and>
    (zs \<noteq> [] \<longrightarrow> limit - 1 \<le> len + int (length (nak_enc ys))) \<and>
    (ys \<noteq> [] \<longrightarrow> len + int (length (nak_enc ys)) \<le> limit)"
  using assms
proof (induction xs arbitrary: pre fuel len)
  case Nil
  then obtain f where "fuel = Suc f" by (cases fuel) auto
  then show ?case by simp
next
  case (Cons x xs)
  obtain l h where x: "x = (l, h)" by (cases x)
  obtain f where f: "fuel = Suc f" using Cons.prems by (cases fuel) auto
  note D = rcv_repD [OF Cons.prems(1)]
  have node: "rl_seq s (slot (rl_size s) c l) = \<lparr>rdata1 = sq l, rdata2 = enc_end l h,
      rnext = start (rl_size s) c xs (- 1), rprior = rend (rl_size s) c pre (- 1)\<rparr>"
    using rcv_rep_node [of c b s pre l h xs] Cons.prems x by simp
  show ?case
  proof (cases "len < limit - 1")
    case False
    then show ?thesis using f by (intro exI [of _ "[]"] exI [of _ "x # xs"]) auto
  next
    case True
    let ?len = "if l = h then len + 1 else len + 2"
    obtain ys zs where IH: "xs = ys @ zs"
      "rcv_loss_array f s (start (rl_size s) c xs (- 1)) ?len limit = Some (nak_enc ys)"
      "zs \<noteq> [] \<Longrightarrow> limit - 1 \<le> ?len + int (length (nak_enc ys))"
      "ys \<noteq> [] \<Longrightarrow> ?len + int (length (nak_enc ys)) \<le> limit"
      using Cons.IH [of "pre @ [x]" f ?len] Cons.prems f by auto
    have "rcv_loss_array fuel s (slot (rl_size s) c l) len limit = Some (nak_enc ((l, h) # ys))"
      using f D(1) node True IH(2) or_range_first [of "sq l"] by (cases "l = h") auto
    moreover have "?len \<le> limit" using True by simp
    ultimately show ?thesis
      using IH x by - (rule exI [of _ "x # ys"], rule exI [of _ zs], cases "ys = []"; auto split: if_splits)
  qed
qed

lemma rcv_getLossArray_correct:
  assumes "rcv_rep c b s xs"
  shows "\<exists>ys zs. xs = ys @ zs \<and> rcv_getLossArray s limit = Some (nak_enc ys) \<and>
    (zs \<noteq> [] \<longrightarrow> limit - 1 \<le> int (length (nak_enc ys))) \<and> int (length (nak_enc ys)) \<le> max 0 limit"
proof -
  have "rcv_rep c b s ([] @ xs)" using assms by simp
  from rcv_loss_array_correct [OF this rcv_rep_length [OF assms], of 0 limit]
  obtain ys zs where "xs = ys @ zs" "rcv_getLossArray s limit = Some (nak_enc ys)"
    "zs \<noteq> [] \<Longrightarrow> limit - 1 \<le> int (length (nak_enc ys))" "ys \<noteq> [] \<Longrightarrow> int (length (nak_enc ys)) \<le> limit"
    unfolding rcv_getLossArray_def rcv_repD(7) [OF assms] by auto
  then have "xs = ys @ zs \<and> rcv_getLossArray s limit = Some (nak_enc ys) \<and>
    (zs \<noteq> [] \<longrightarrow> limit - 1 \<le> int (length (nak_enc ys))) \<and> int (length (nak_enc ys)) \<le> max 0 limit"
    by (cases "ys = []") auto
  then show ?thesis by blast
qed

subsection \<open>Fresh losses\<close>

datatype Emod = NONE | STRIPPED | SPLIT | DELETE

record CRcvFreshLoss =
  fl_lo :: int
  fl_hi :: int
  fl_ttl :: int
  fl_timestamp :: int

definition fresh_new :: "int \<Rightarrow> int \<Rightarrow> int \<Rightarrow> int \<Rightarrow> CRcvFreshLoss" where
  "fresh_new now seqlo seqhi initial_age =
     \<lparr>fl_lo = seqlo, fl_hi = seqhi, fl_ttl = initial_age, fl_timestamp = now\<rparr>"

definition fresh_revoke :: "CRcvFreshLoss \<Rightarrow> int \<Rightarrow> Emod \<times> CRcvFreshLoss" where
  "fresh_revoke s sequence =
     (let diffbegin = seqcmp sequence (fl_lo s);
          diffend = seqcmp sequence (fl_hi s)
      in if diffbegin < 0 \<or> diffend > 0 then (NONE, s)
         else if diffbegin = 0 then
           (if diffend = 0 then (DELETE, s) else (STRIPPED, s\<lparr>fl_lo := incseq (fl_lo s)\<rparr>))
         else if diffend = 0 then (STRIPPED, s\<lparr>fl_hi := decseq (fl_hi s)\<rparr>)
         else (SPLIT, s))"

definition fresh_revoke_range :: "CRcvFreshLoss \<Rightarrow> int \<Rightarrow> int \<Rightarrow> Emod \<times> CRcvFreshLoss" where
  "fresh_revoke_range s lo hi =
     (if seqcmp lo (fl_hi s) > 0 then (DELETE, s)
      else if seqcmp hi (fl_lo s) < 0 then (NONE, s)
      else if seqcmp hi (fl_hi s) < 0 then (STRIPPED, s\<lparr>fl_lo := incseq hi\<rparr>)
      else (DELETE, s))"

lemma fresh_revoke_correct:
  assumes "l \<le> h" "h - l < 536870912" "\<bar>q - l\<bar> < 536870912"
    "fl_lo s = sq l" "fl_hi s = sq h"
  shows "fresh_revoke s (sq q) =
    (if q < l \<or> h < q then (NONE, s)
     else if l = h then (DELETE, s)
     else if q = l then (STRIPPED, s\<lparr>fl_lo := sq (l + 1)\<rparr>)
     else if q = h then (STRIPPED, s\<lparr>fl_hi := sq (h - 1)\<rparr>)
     else (SPLIT, s))"
proof -
  have "seqcmp (sq q) (sq l) < 0 \<longleftrightarrow> q < l" "seqcmp (sq q) (sq l) = 0 \<longleftrightarrow> q = l"
    "seqcmp (sq q) (sq h) > 0 \<longleftrightarrow> h < q" "seqcmp (sq q) (sq h) = 0 \<longleftrightarrow> q = h"
    using assms by (auto simp: seqcmp_sq abs_if split: if_splits)
  then show ?thesis using assms by (auto simp: fresh_revoke_def Let_def seq_simps)
qed

lemma fresh_revoke_range_correct:
  assumes "l \<le> h" "h - l < 268435456" "a \<le> q" "q - a < 268435456" "\<bar>q - l\<bar> < 268435456"
    "fl_lo s = sq l" "fl_hi s = sq h"
  shows "fresh_revoke_range s (sq a) (sq q) =
    (if q < l then (NONE, s) else if q < h then (STRIPPED, s\<lparr>fl_lo := sq (q + 1)\<rparr>) else (DELETE, s))"
proof -
  have "seqcmp (sq a) (sq h) > 0 \<longleftrightarrow> h < a" "seqcmp (sq q) (sq l) < 0 \<longleftrightarrow> q < l"
    "seqcmp (sq q) (sq h) < 0 \<longleftrightarrow> q < h"
    using assms by (auto simp: seqcmp_sq abs_if split: if_splits)
  then show ?thesis using assms by (auto simp: fresh_revoke_range_def seq_simps)
qed

subsection \<open>Properties\<close>

text \<open>A list with the positions \<open>2147483640 .. 2147483650\<close>, across the wrap of the numbers.\<close>

lemma rcv_example:
  obtains s where "rcv_insert (rcv_new 64 (\<lambda>_. 7) (\<lambda>_. 9)) (sq 2147483640) (sq 2147483650) = Some s"
    "rcv_holds s {2147483640..2147483650}" "rl_size s = 64"
proof -
  have new: "rcv_holds (rcv_new 64 (\<lambda>_. 7) (\<lambda>_. 9)) {}" by (rule rcv_holds_new) simp_all
  have "rl_size (rcv_new 64 (\<lambda>_. 7) (\<lambda>_. 9)) = 64" by (simp add: rcv_new_def)
  then show ?thesis
    using that rcv_holds_insert [OF new, of 2147483640 2147483650 2147483640] by auto
qed

text \<open>
  C25. A gap detected by the receiver, behind everything missing so far, is added to the missing
  positions exactly, wherever the numbers wrap, inside the array.
\<close>

theorem rcv_insert_spec:
  assumes "rcv_holds s X" "q1 \<le> q2" "\<forall>x\<in>X. x < q1" "\<forall>x\<in>X \<union> {q1..q2}. b \<le> x \<and> x < b + rl_size s"
  shows "\<exists>s'. rcv_insert s (sq q1) (sq q2) = Some s' \<and> rcv_holds s' (X \<union> {q1..q2}) \<and>
    rl_size s' = rl_size s \<and> rcv_getLossLength s' = int (card (X \<union> {q1..q2}))"
  using rcv_holds_insert [OF assms] rcv_holds_length by blast

lemma rcv_insert_spec_witness:
  "\<exists>s s'. rcv_insert (rcv_new 64 (\<lambda>_. 7) (\<lambda>_. 9)) (sq 2147483640) (sq 2147483650) = Some s \<and>
     rcv_insert s (sq 2147483651) (sq 2147483652) = Some s' \<and> rcv_getLossLength s' = 13"
proof -
  obtain s where s: "rcv_insert (rcv_new 64 (\<lambda>_. 7) (\<lambda>_. 9)) (sq 2147483640) (sq 2147483650) = Some s"
    "rcv_holds s {2147483640..2147483650}" "rl_size s = 64" by (rule rcv_example)
  have e: "{2147483640..2147483650} \<union> {2147483651..2147483652::int} = {2147483640..2147483652}" by auto
  show ?thesis
    using rcv_insert_spec [OF s(2), of 2147483651 2147483652 2147483640, unfolded e] s by auto
qed

text \<open>
  C26. The arrival of a missing packet: \<open>remove\<close> reports whether the position was missing and
  removes that position alone, whether it is a single loss or at the start, the end or the inside of
  a range.
\<close>

theorem rcv_remove_spec:
  assumes "rcv_holds s X" "\<forall>x\<in>X. x - 268435456 < q \<and> q < x + rl_size s"
    "\<forall>x\<in>X. b \<le> x \<and> x < b + rl_size s"
  shows "\<exists>s'. rcv_remove s (sq q) = Some (q \<in> X, s') \<and> rcv_holds s' (X - {q}) \<and> rl_size s' = rl_size s \<and>
    rcv_getFirstLostSeq s' = Some (if X - {q} = {} then - 1 else sq (Min (X - {q})))"
  using rcv_holds_remove [OF assms] rcv_holds_first by blast

lemma rcv_remove_spec_witness:
  "\<exists>s s'. rcv_insert (rcv_new 64 (\<lambda>_. 7) (\<lambda>_. 9)) (sq 2147483640) (sq 2147483650) = Some s \<and>
     rcv_remove s 0 = Some (True, s') \<and> rcv_getFirstLostSeq s' = Some 2147483640"
proof -
  obtain s where s: "rcv_insert (rcv_new 64 (\<lambda>_. 7) (\<lambda>_. 9)) (sq 2147483640) (sq 2147483650) = Some s"
    "rcv_holds s {2147483640..2147483650}" "rl_size s = 64" by (rule rcv_example)
  have "Min ({2147483640..2147483650} - {2147483648::int}) = 2147483640" by (rule Min_eqI) auto
  moreover have "sq 2147483648 = 0" "sq 2147483640 = 2147483640" by (simp_all add: sq_def)
  moreover have "2147483640 \<in> {2147483640..2147483650} - {2147483648::int}" by simp
  then have "{2147483640..2147483650} - {2147483648::int} \<noteq> {}" by blast
  ultimately show ?thesis
    using rcv_remove_spec [OF s(2), of 2147483648 2147483640] s by auto
qed

text \<open>
  C27. The range variant of \<open>remove\<close> removes all positions of the range but the one whose number is
  the largest sequence number: when the range wraps, its first loop stops one short of it.
\<close>

theorem rcv_remove_range_spec:
  assumes "rcv_holds s X" "\<forall>x\<in>X. x - 268435456 < q1 \<and> q2 < x + rl_size s"
    "\<forall>x\<in>X. b \<le> x \<and> x < b + rl_size s" "q1 \<le> q2" "q2 - q1 < 1073741824" "sq q2 \<noteq> m_iMaxSeqNo"
  shows "\<exists>s'. rcv_remove_range s (sq q1) (sq q2) = Some (True, s') \<and>
    rcv_holds s' (X - {q \<in> {q1..q2}. sq q \<noteq> m_iMaxSeqNo}) \<and> rl_size s' = rl_size s"
  by (rule rcv_remove_range_correct [OF assms])

lemma rcv_remove_range_spec_witness:
  "\<exists>s s'. rcv_insert (rcv_new 64 (\<lambda>_. 7) (\<lambda>_. 9)) (sq 2147483640) (sq 2147483650) = Some s \<and>
     rcv_remove_range s (sq 2147483642) (sq 2147483650) = Some (True, s') \<and>
     rcv_holds s' {2147483640, 2147483641, 2147483647}"
proof -
  obtain s where s: "rcv_insert (rcv_new 64 (\<lambda>_. 7) (\<lambda>_. 9)) (sq 2147483640) (sq 2147483650) = Some s"
    "rcv_holds s {2147483640..2147483650}" "rl_size s = 64" by (rule rcv_example)
  have "{q \<in> {2147483642..2147483650::int}. sq q \<noteq> m_iMaxSeqNo} = {2147483642..2147483650} - {2147483647}"
  proof -
    have "sq q = m_iMaxSeqNo \<longleftrightarrow> q = 2147483647" if "q \<in> {2147483642..2147483650}" for q
      using sq_near_eq [of q 2147483647] that by (simp add: sq_def m_iMaxSeqNo_def)
    then show ?thesis by auto
  qed
  then have e: "{2147483640..2147483650} - {q \<in> {2147483642..2147483650::int}. sq q \<noteq> m_iMaxSeqNo} =
      {2147483640, 2147483641, 2147483647}"
    by (simp only:) (rule set_eqI, simp, presburger)
  have m: "sq 2147483650 \<noteq> m_iMaxSeqNo" by (simp add: sq_def m_iMaxSeqNo_def)
  show ?thesis
    using rcv_remove_range_spec [OF s(2), of 2147483642 2147483650 2147483640, unfolded e, OF _ _ _ _ m] s(1,3)
    by (simp add: s(1)) blast
qed

end
