(* ===== verification/LossReport.thy ===== *)
theory LossReport
  imports SndLossList RcvLossList
begin

text \<open>
  The loss report between the two ends (\<open>core.cpp\<close>): the receiver's loss lists with the records of
  fresh losses (\<open>CUDT::unlose\<close>, \<open>dropFromLossLists\<close>, \<open>sendLossReport\<close>) and the handler of
  \<open>UMSG_LOSSREPORT\<close> in \<open>CUDT::processCtrl\<close> on the sender. Locks are left out except for
  \<open>m_RecvAckLock\<close>, whose balance the handler's error path gets wrong. Calls into other components
  (\<open>updateCC\<close>, the send queue's list) are recorded in order.
\<close>

subsection \<open>The sender: \<open>UMSG_LOSSREPORT\<close>\<close>

datatype nak_call = Call_updateCC "int list" | Call_SndUList_update

record nak_state =
  nk_list :: CSndLossList
  nk_SndLastAck :: int
  nk_SndCurrSeqNo :: int
  nk_broken :: bool
  nk_brokenCounter :: int
  nk_traceSndLoss :: int
  nk_sndLossTotal :: int
  nk_recvNAK :: int
  nk_recvNAKTotal :: int
  nk_ackLock :: int
  nk_calls :: "nak_call list"

definition nak_insert :: "nak_state \<Rightarrow> int \<Rightarrow> int \<Rightarrow> nak_state option" where
  "nak_insert st lo hi = do {
     (num, l) \<leftarrow> snd_insert (nk_list st) lo hi;
     Some (st\<lparr>nk_list := l, nk_traceSndLoss := nk_traceSndLoss st + num,
       nk_sndLossTotal := nk_sndLossTotal st + num\<rparr>)
   }"

text \<open>
  The decoding loop. \<open>None\<close> is also the read behind the end of the payload when the last word
  announces a range. The first component is \<open>secure\<close>.
\<close>

fun nak_loop :: "int list \<Rightarrow> nak_state \<Rightarrow> (bool \<times> nak_state) option" where
  "nak_loop [] st = Some (True, st)"
| "nak_loop (x # rest) st =
     (if IsSet x LOSSDATA_SEQNO_RANGE_FIRST then
        (case rest of
           [] \<Rightarrow> None
         | losslist_hi # rest' \<Rightarrow>
             (let losslist_lo = SEQNO_VALUE_unwrap x in
              if seqcmp losslist_lo losslist_hi > 0 \<or> seqcmp losslist_hi (nk_SndCurrSeqNo st) > 0
              then Some (False, st\<lparr>nk_ackLock := nk_ackLock st - 1\<rparr>)
              else do {
                st \<leftarrow> (if seqcmp losslist_lo (nk_SndLastAck st) \<ge> 0 then nak_insert st losslist_lo losslist_hi
                      else if seqcmp losslist_hi (nk_SndLastAck st) \<ge> 0
                      then nak_insert st (nk_SndLastAck st) losslist_hi
                      else Some st);
                nak_loop rest' st
              }))
      else if seqcmp x (nk_SndLastAck st) \<ge> 0 then
        (if seqcmp x (nk_SndCurrSeqNo st) > 0
         then Some (False, st\<lparr>nk_ackLock := nk_ackLock st - 1\<rparr>)
         else do { st \<leftarrow> nak_insert st x x; nak_loop rest st })
      else nak_loop rest st)"

definition processCtrl_LOSSREPORT :: "int list \<Rightarrow> nak_state \<Rightarrow> nak_state option" where
  "processCtrl_LOSSREPORT losslist st = do {
     (secure, st) \<leftarrow> nak_loop losslist (st\<lparr>nk_ackLock := nk_ackLock st + 1\<rparr>);
     let st = st\<lparr>nk_ackLock := nk_ackLock st - 1\<rparr>;
     let st = st\<lparr>nk_calls := nk_calls st @ [Call_updateCC losslist]\<rparr>;
     if \<not> secure then Some (st\<lparr>nk_broken := True, nk_brokenCounter := 0\<rparr>)
     else Some (st\<lparr>nk_calls := nk_calls st @ [Call_SndUList_update],
       nk_recvNAK := nk_recvNAK st + 1, nk_recvNAKTotal := nk_recvNAKTotal st + 1\<rparr>)
   }"

text \<open>The sender sits between its last acknowledgement \<open>A\<close> and its last sent position \<open>C\<close>.\<close>

definition nak_ready :: "nak_state \<Rightarrow> int \<Rightarrow> int \<Rightarrow> int set \<Rightarrow> bool" where
  "nak_ready st A C X \<longleftrightarrow> nk_SndLastAck st = sq A \<and> nk_SndCurrSeqNo st = sq C \<and> A \<le> C + 1 \<and>
     C < A + sl_size (nk_list st) \<and> snd_holds (nk_list st) X \<and> X \<subseteq> {A..C}"

lemma nak_insert_correct:
  assumes "nak_ready st A C X" "A \<le> l" "l \<le> h" "h \<le> C"
  shows "\<exists>st'. nak_insert st (sq l) (sq h) = Some st' \<and> nak_ready st' A C (X \<union> {l..h}) \<and>
    nk_traceSndLoss st' = nk_traceSndLoss st + int (card ({l..h} - X)) \<and>
    nk_ackLock st' = nk_ackLock st \<and> nk_calls st' = nk_calls st \<and> nk_broken st' = nk_broken st \<and>
    sl_size (nk_list st') = sl_size (nk_list st)"
proof -
  have R: "snd_holds (nk_list st) X" "X \<subseteq> {A..C}" "C < A + sl_size (nk_list st)"
    using assms(1) by (simp_all add: nak_ready_def)
  have "\<forall>x\<in>X \<union> {l..h}. A \<le> x \<and> x < A + sl_size (nk_list st)" using R(2,3) assms by auto
  from snd_holds_insert [OF R(1) assms(3) this] show ?thesis
    using assms by (auto simp: nak_insert_def nak_ready_def)
qed

lemma nak_loop_correct:
  assumes "nak_ready st A C X" "\<forall>(l, h)\<in>set xs. l \<le> h \<and> h \<le> C \<and> A - 268435456 < l"
  shows "\<exists>st'. nak_loop (nak_enc xs) st = Some (True, st') \<and> nak_ready st' A C (X \<union> (ivset xs \<inter> {A..})) \<and>
    nk_traceSndLoss st' = nk_traceSndLoss st + int (card (ivset xs \<inter> {A..} - X)) \<and>
    nk_ackLock st' = nk_ackLock st \<and> nk_calls st' = nk_calls st \<and> nk_broken st' = nk_broken st \<and>
    sl_size (nk_list st') = sl_size (nk_list st)"
  using assms
proof (induction xs arbitrary: st X)
  case (Cons x xs)
  obtain l h where x: "x = (l, h)" by (cases x)
  have lh: "l \<le> h" "h \<le> C" "A - 268435456 < l" using Cons.prems(2) x by auto
  have R: "nk_SndLastAck st = sq A" "nk_SndCurrSeqNo st = sq C" "A \<le> C + 1" "C - A < 536870912"
    using Cons.prems(1) snd_holds_size by (fastforce simp: nak_ready_def)+
  have cmp: "seqcmp (sq l) (sq h) > 0 \<longleftrightarrow> h < l" "seqcmp (sq h) (sq C) > 0 \<longleftrightarrow> C < h"
    "seqcmp (sq l) (sq A) \<ge> 0 \<longleftrightarrow> A \<le> l" "seqcmp (sq h) (sq A) \<ge> 0 \<longleftrightarrow> A \<le> h"
    using lh R by (auto simp: seq_simps)
  have enc: "IsSet (sq l - 2147483648) LOSSDATA_SEQNO_RANGE_FIRST" "SEQNO_VALUE_unwrap (sq l - 2147483648) = sq l"
    "\<not> IsSet (sq l) LOSSDATA_SEQNO_RANGE_FIRST"
    using IsSet_range_first [of "sq l - 2147483648"] IsSet_range_first [of "sq l"] sq_range(1,2) [of l]
    by (auto simp: SEQNO_VALUE_unwrap_mod sq_def)
  show ?case
  proof (cases "A \<le> h")
    case False
    have "ivset (x # xs) \<inter> {A..} = ivset xs \<inter> {A..}" using x False by auto
    moreover have "nak_loop (nak_enc (x # xs)) st = nak_loop (nak_enc xs) st"
      using x False lh cmp R(1,2) enc by auto
    ultimately show ?thesis using Cons by auto
  next
    case True
    let ?l = "max l A"
    obtain st1 where st1: "nak_insert st (sq ?l) (sq h) = Some st1" "nak_ready st1 A C (X \<union> {?l..h})"
      "nk_traceSndLoss st1 = nk_traceSndLoss st + int (card ({?l..h} - X))"
      "nk_ackLock st1 = nk_ackLock st" "nk_calls st1 = nk_calls st" "nk_broken st1 = nk_broken st" "sl_size (nk_list st1) = sl_size (nk_list st)"
      using nak_insert_correct [OF Cons.prems(1), of ?l h] lh True by auto
    have step: "nak_loop (nak_enc (x # xs)) st = nak_loop (nak_enc xs) st1"
    proof (cases "l = h")
      case True
      then have "?l = l" using \<open>A \<le> h\<close> by simp
      then show ?thesis using True x lh cmp R(1,2) enc st1(1) \<open>A \<le> h\<close> by simp
    next
      case False
      then show ?thesis using x lh cmp R(1,2) enc st1(1) \<open>A \<le> h\<close> by (cases "A \<le> l") (auto simp: max_def)
    qed
    obtain st' where st': "nak_loop (nak_enc xs) st1 = Some (True, st')"
      "nak_ready st' A C (X \<union> {?l..h} \<union> (ivset xs \<inter> {A..}))"
      "nk_traceSndLoss st' = nk_traceSndLoss st1 + int (card (ivset xs \<inter> {A..} - (X \<union> {?l..h})))"
      "nk_ackLock st' = nk_ackLock st1" "nk_calls st' = nk_calls st1" "nk_broken st' = nk_broken st1" "sl_size (nk_list st') = sl_size (nk_list st1)"
      using Cons.IH [OF st1(2)] Cons.prems(2) by auto
    have set: "X \<union> {?l..h} \<union> (ivset xs \<inter> {A..}) = X \<union> (ivset (x # xs) \<inter> {A..})"
      "ivset (x # xs) \<inter> {A..} - X = ({?l..h} - X) \<union> (ivset xs \<inter> {A..} - (X \<union> {?l..h}))"
      using x by auto
    have "card (ivset (x # xs) \<inter> {A..} - X) = card ({?l..h} - X) + card (ivset xs \<inter> {A..} - (X \<union> {?l..h}))"
      unfolding set(2) by (rule card_Un_disjoint) auto
    then show ?thesis using step st' st1 set(1) by auto
  qed
qed auto

lemma nak_enc_length: "nonempty_ivls xs \<Longrightarrow> int (length (nak_enc xs)) \<le> ivlen xs"
  by (induction xs rule: nak_enc.induct) auto

text \<open>
  C4. What the receiver reports as lost is what the sender schedules for retransmission: the encoded
  loss list is decoded into the sender's list without an error, up to the report's size limit the
  lowest losses first, without the positions the sender knows to be acknowledged, and the loss
  counter grows by the number of positions that are new to it.
\<close>

theorem loss_report_end_to_end:
  assumes "rcv_holds r X" "nak_ready st A C Y" "\<forall>x\<in>X. A - 268435456 < x \<and> x \<le> C"
  shows "\<exists>arr Z st'. rcv_getLossArray r limit = Some arr \<and> int (length arr) \<le> max 0 limit \<and>
    processCtrl_LOSSREPORT arr st = Some st' \<and> Z \<subseteq> X \<and> (\<forall>z\<in>Z. \<forall>x\<in>X - Z. z < x) \<and>
    (int (card X) < limit \<longrightarrow> Z = X) \<and>
    snd_holds (nk_list st') (Y \<union> (Z \<inter> {A..})) \<and> nk_broken st' = nk_broken st \<and>
    nk_traceSndLoss st' = nk_traceSndLoss st + int (card (Z \<inter> {A..} - Y)) \<and>
    nk_ackLock st' = nk_ackLock st \<and> nk_calls st' = nk_calls st @ [Call_updateCC arr, Call_SndUList_update]"
proof -
  obtain c b xs where rep: "rcv_rep c b r xs" "ivset xs = X" using assms(1) by (auto simp: rcv_holds_def)
  note D = rcv_repD [OF rep(1)]
  obtain ys zs where arr: "xs = ys @ zs" "rcv_getLossArray r limit = Some (nak_enc ys)"
    "zs \<noteq> [] \<longrightarrow> limit - 1 \<le> int (length (nak_enc ys))" "int (length (nak_enc ys)) \<le> max 0 limit"
    using rcv_getLossArray_correct [OF rep(1), of limit] by blast
  let ?st = "st\<lparr>nk_ackLock := nk_ackLock st + 1\<rparr>"
  have ready: "nak_ready ?st A C Y" using assms(2) by (simp add: nak_ready_def)
  have ivls: "\<forall>(l, h)\<in>set ys. l \<le> h \<and> h \<le> C \<and> A - 268435456 < l"
  proof clarify
    fix l h assume lh: "(l, h) \<in> set ys"
    then have "(l, h) \<in> set xs" using arr(1) by simp
    moreover have "l \<le> h" using nonempty_ivlsD [OF separated_nonempty [OF D(3)] \<open>(l, h) \<in> set xs\<close>] .
    ultimately show "l \<le> h \<and> h \<le> C \<and> A - 268435456 < l"
      using assms(3) rep(2) ivset_memI [of l h xs l] ivset_memI [of l h xs h] by auto
  qed
  from nak_loop_correct [OF ready ivls] obtain st1 where st1:
    "nak_loop (nak_enc ys) ?st = Some (True, st1)" "nak_ready st1 A C (Y \<union> (ivset ys \<inter> {A..}))"
    "nk_traceSndLoss st1 = nk_traceSndLoss st + int (card (ivset ys \<inter> {A..} - Y))"
    "nk_ackLock st1 = nk_ackLock st + 1" "nk_calls st1 = nk_calls st" "nk_broken st1 = nk_broken st"
    by auto
  have full: "ivset ys = X" if "int (card X) < limit"
  proof (cases "zs = []")
    case False
    have "int (length (nak_enc ys)) \<le> ivlen ys"
      using nak_enc_length separated_nonempty [OF D(3)] arr(1) by simp
    moreover have "ivlen xs = int (card X)" using ivlen_card [OF D(3)] rep(2) by simp
    moreover have "0 < ivlen zs" using ivlen_pos [of zs] separated_nonempty [OF D(3)] arr(1) False by simp
    ultimately show ?thesis using arr(1,3) False that by simp
  qed (use arr rep in simp)
  have low: "z < x" if "z \<in> ivset ys" "x \<in> X - ivset ys" for z x
  proof -
    have "x \<in> ivset zs" using that(2) rep(2) arr(1) by auto
    then obtain l h where zs: "(l, h) \<in> set zs" "l \<le> x" by (auto simp: ivset_def)
    moreover have "\<forall>y\<in>set ys. \<forall>w\<in>set zs. snd y < fst w" using D(3) arr(1) by simp
    ultimately have "\<forall>y\<in>set ys. snd y < l" by fastforce
    then show ?thesis using ivset_le [of ys l z] that(1) zs by simp
  qed
  have run: "processCtrl_LOSSREPORT (nak_enc ys) st = Some (st1\<lparr>nk_ackLock := nk_ackLock st1 - 1,
      nk_calls := nk_calls st1 @ [Call_updateCC (nak_enc ys), Call_SndUList_update],
      nk_recvNAK := nk_recvNAK st1 + 1, nk_recvNAKTotal := nk_recvNAKTotal st1 + 1\<rparr>)"
    using st1(1) by (auto simp: processCtrl_LOSSREPORT_def Let_def intro!: nak_state.equality)
  show ?thesis
    by (intro exI [of _ "nak_enc ys"] exI [of _ "ivset ys"] exI conjI, rule arr(2), rule arr(4), rule run)
      (use st1 full low rep arr(1) in \<open>auto simp: nak_ready_def\<close>)
qed

lemma loss_report_end_to_end_witness:
  "\<exists>r arr st st'. rcv_insert (rcv_new 64 (\<lambda>_. 7) (\<lambda>_. 9)) (sq 2147483640) (sq 2147483650) = Some r \<and>
     rcv_getLossArray r 100 = Some arr \<and> processCtrl_LOSSREPORT arr st = Some st' \<and>
     snd_holds (nk_list st) {} \<and> snd_holds (nk_list st') {2147483640..2147483650}"
proof -
  obtain r where r: "rcv_insert (rcv_new 64 (\<lambda>_. 7) (\<lambda>_. 9)) (sq 2147483640) (sq 2147483650) = Some r"
    "rcv_holds r {2147483640..2147483650}" "rl_size r = 64" by (rule rcv_example)
  define st where "st = \<lparr>nk_list = snd_new 64 (\<lambda>_. 5), nk_SndLastAck = sq 2147483630, nk_SndCurrSeqNo = sq 2147483660,
    nk_broken = False, nk_brokenCounter = 0, nk_traceSndLoss = 0, nk_sndLossTotal = 0, nk_recvNAK = 0,
    nk_recvNAKTotal = 0, nk_ackLock = 0, nk_calls = []\<rparr>"
  have new: "snd_holds (nk_list st) {}" unfolding st_def by (simp add: snd_holds_new)
  then have ready: "nak_ready st 2147483630 2147483660 {}"
    by (simp add: nak_ready_def st_def snd_new_def)
  have "{2147483640..2147483650} \<inter> {2147483630..} = {2147483640..2147483650::int}" by auto
  then show ?thesis
    using loss_report_end_to_end [OF r(2) ready, of 100] r(1) new by auto
qed

text \<open>
  C36. A report of packets that were never sent breaks the connection - and releases the lock twice:
  the error path leaves it once in the loop and once behind it.
\<close>

theorem loss_report_out_of_band:
  assumes "nak_ready st A C Y" "C < h" "l \<le> h" "A \<le> l" "h < A + 536870912"
  shows "\<exists>st'. processCtrl_LOSSREPORT (nak_enc [(l, h)]) st = Some st' \<and> nk_broken st' \<and>
    nk_list st' = nk_list st \<and> nk_traceSndLoss st' = nk_traceSndLoss st \<and>
    nk_ackLock st' = nk_ackLock st - 1"
proof -
  have R: "nk_SndLastAck st = sq A" "nk_SndCurrSeqNo st = sq C" "A \<le> C + 1" "C - A < 536870912"
    using assms(1) snd_holds_size by (fastforce simp: nak_ready_def)+
  have cmp: "seqcmp (sq h) (sq C) > 0" "seqcmp (sq l) (sq A) \<ge> 0"
    using assms R by (auto simp: seq_simps)
  have enc: "IsSet (sq l - 2147483648) LOSSDATA_SEQNO_RANGE_FIRST" "\<not> IsSet (sq l) LOSSDATA_SEQNO_RANGE_FIRST"
    using IsSet_range_first [of "sq l - 2147483648"] IsSet_range_first [of "sq l"] sq_range(1,2) [of l] by auto
  show ?thesis
    using cmp enc R by (cases "l = h") (auto simp: processCtrl_LOSSREPORT_def Let_def)
qed

lemma loss_report_out_of_band_witness:
  "\<exists>st st'. nk_ackLock st = 0 \<and> processCtrl_LOSSREPORT (nak_enc [(150, 160)]) st = Some st' \<and>
     nk_broken st' \<and> nk_ackLock st' = - 1"
proof -
  define st where "st = \<lparr>nk_list = snd_new 64 (\<lambda>_. 5), nk_SndLastAck = sq 100, nk_SndCurrSeqNo = sq 120,
    nk_broken = False, nk_brokenCounter = 0, nk_traceSndLoss = 0, nk_sndLossTotal = 0, nk_recvNAK = 0,
    nk_recvNAKTotal = 0, nk_ackLock = 0, nk_calls = []\<rparr>"
  have "nak_ready st 100 120 {}" by (simp add: nak_ready_def st_def snd_holds_new) (simp add: snd_new_def)
  moreover have "nk_ackLock st = 0" by (simp add: st_def)
  ultimately show ?thesis
    using loss_report_out_of_band [of st 100 120 "{}" 160 150] by - (rule exI [of _ st], auto)
qed

text \<open>A range announced by the last word makes the decoder read behind the payload.\<close>

lemma loss_report_truncated: "processCtrl_LOSSREPORT [- 2147483648] st = None"
  by (simp add: processCtrl_LOSSREPORT_def IsSet_range_first)

subsection \<open>The receiver: belated loss reports\<close>

record rloss_state =
  rc_loss :: CRcvLossList
  rc_fresh :: "CRcvFreshLoss list"
  rc_RcvCurrSeqNo :: int
  rc_PeerRexmitFlag :: bool
  rc_ReorderTolerance :: int
  rc_MaxReorderTolerance :: int
  rc_ConsecEarlyDelivery :: int
  rc_ConsecOrderedDelivery :: int
  rc_traceReorderDistance :: int

text \<open>
  The loop of \<open>unlose\<close> over the fresh records. It returns \<open>had_ttl\<close>, the time to live of the last
  record looked at. \<open>now\<close> is the clock read by the constructor of a new record.
\<close>

fun fresh_unlose :: "int \<Rightarrow> int \<Rightarrow> int \<Rightarrow> CRcvFreshLoss list \<Rightarrow> int \<times> CRcvFreshLoss list" where
  "fresh_unlose now sequence had_ttl [] = (had_ttl, [])"
| "fresh_unlose now sequence had_ttl (r # rs) =
     (case fresh_revoke r sequence of
        (NONE, r') \<Rightarrow> (let (t, rs') = fresh_unlose now sequence (fl_ttl r) rs in (t, r' # rs'))
      | (STRIPPED, r') \<Rightarrow> (fl_ttl r, r' # rs)
      | (DELETE, r') \<Rightarrow> (fl_ttl r, rs)
      | (SPLIT, r') \<Rightarrow>
          (let next_end = fl_hi r';
               r'' = r'\<lparr>fl_hi := decseq sequence\<rparr>;
               next_begin = incseq sequence
           in (fl_ttl r, r'' # fresh_new now next_begin next_end (fl_ttl r'') # rs)))"

definition unlose_tolerance :: "int \<Rightarrow> bool \<Rightarrow> rloss_state \<Rightarrow> bool \<times> bool \<times> rloss_state" where
  "unlose_tolerance sequence rexmit_flag s =
     (if rc_PeerRexmitFlag s then
        (let was_reordered = (\<not> rexmit_flag) in
         if was_reordered then
           (let seqdiff = \<bar>seqcmp (rc_RcvCurrSeqNo s) sequence\<bar>;
                s = s\<lparr>rc_traceReorderDistance := max seqdiff (rc_traceReorderDistance s)\<rparr>
            in if seqdiff > rc_ReorderTolerance s
               then (True, True, s\<lparr>rc_ReorderTolerance := min seqdiff (rc_MaxReorderTolerance s)\<rparr>)
               else (True, False, s))
         else (False, False, s))
      else (False, False, s))"

definition unlose_counters :: "bool \<Rightarrow> bool \<Rightarrow> int \<Rightarrow> rloss_state \<Rightarrow> rloss_state" where
  "unlose_counters was_reordered has_increased_tolerance had_ttl s =
     (if was_reordered then
        (let s = s\<lparr>rc_ConsecOrderedDelivery := 0\<rparr> in
         if has_increased_tolerance then s\<lparr>rc_ConsecEarlyDelivery := 0\<rparr>
         else if had_ttl > 2 then
           (let s = s\<lparr>rc_ConsecEarlyDelivery := rc_ConsecEarlyDelivery s + 1\<rparr> in
            if rc_ConsecEarlyDelivery s \<ge> 10 then
              (let s = s\<lparr>rc_ConsecEarlyDelivery := 0\<rparr> in
               if rc_ReorderTolerance s > 0
               then s\<lparr>rc_ReorderTolerance := rc_ReorderTolerance s - 1,
                      rc_traceReorderDistance := rc_traceReorderDistance s - 1\<rparr>
               else s)
            else s)
         else s)
      else s)"

definition unlose :: "int \<Rightarrow> int \<Rightarrow> bool \<Rightarrow> rloss_state \<Rightarrow> rloss_state option" where
  "unlose now sequence rexmit_flag s = do {
     (_, l) \<leftarrow> rcv_remove (rc_loss s) sequence;
     let (was_reordered, has_increased_tolerance, s) = unlose_tolerance sequence rexmit_flag (s\<lparr>rc_loss := l\<rparr>);
     if \<not> rc_PeerRexmitFlag s \<or> rc_ReorderTolerance s = 0 then Some s
     else do {
       let (had_ttl, fresh) = fresh_unlose now sequence 0 (rc_fresh s);
       Some (unlose_counters was_reordered has_increased_tolerance had_ttl (s\<lparr>rc_fresh := fresh\<rparr>))
     }
   }"

text \<open>The loop of \<open>dropFromLossLists\<close>: how many records go, and the records with their changes.\<close>

fun fresh_drop :: "int \<Rightarrow> int \<Rightarrow> nat \<Rightarrow> nat \<Rightarrow> CRcvFreshLoss list \<Rightarrow> nat \<times> CRcvFreshLoss list" where
  "fresh_drop from to i delete_index [] = (delete_index, [])"
| "fresh_drop from to i delete_index (r # rs) =
     (case fresh_revoke_range r from to of
        (DELETE, r') \<Rightarrow> (let (d, rs') = fresh_drop from to (i + 1) (i + 1) rs in (d, r' # rs'))
      | (_, r') \<Rightarrow> (delete_index, r' # rs))"

definition dropFromLossLists :: "int \<Rightarrow> int \<Rightarrow> rloss_state \<Rightarrow> rloss_state option" where
  "dropFromLossLists from to s = do {
     (_, l) \<leftarrow> rcv_remove_range (rc_loss s) from to;
     let s = s\<lparr>rc_loss := l\<rparr>;
     if \<not> rc_PeerRexmitFlag s \<or> rc_ReorderTolerance s = 0 then Some s
     else do {
       let (delete_index, fresh) = fresh_drop from to 0 0 (rc_fresh s);
       Some (s\<lparr>rc_fresh := drop delete_index fresh\<rparr>)
     }
   }"

text \<open>
  The end of \<open>processData\<close>: records whose time is over are reported and removed, the time of the
  others is reduced. The result is the report and the remaining records.
\<close>

definition fresh_expire :: "int \<Rightarrow> CRcvFreshLoss list \<Rightarrow> int list \<times> CRcvFreshLoss list" where
  "fresh_expire initial_loss_ttl fresh =
     (if initial_loss_ttl \<noteq> 0 \<and> fresh \<noteq> [] then
        (let expired = takeWhile (\<lambda>r. fl_ttl r \<le> 0) fresh;
             lossdata = foldl (\<lambda>lr r. addLossRecord lr (fl_lo r) (fl_hi r)) [] expired;
             rest = drop (length expired) fresh
         in (lossdata, map (\<lambda>r. r\<lparr>fl_ttl := fl_ttl r - 1\<rparr>) rest))
      else ([], fresh))"

definition ordered_delivery :: "bool \<Rightarrow> rloss_state \<Rightarrow> rloss_state" where
  "ordered_delivery was_sent_in_order s =
     (if rc_PeerRexmitFlag s \<and> was_sent_in_order then
        (let s = s\<lparr>rc_ConsecOrderedDelivery := rc_ConsecOrderedDelivery s + 1\<rparr> in
         if rc_ConsecOrderedDelivery s \<ge> 50 then
           (let s = s\<lparr>rc_ConsecOrderedDelivery := 0\<rparr> in
            if rc_ReorderTolerance s > 0
            then s\<lparr>rc_ReorderTolerance := rc_ReorderTolerance s - 1,
                   rc_traceReorderDistance := rc_traceReorderDistance s - 1\<rparr>
            else s)
         else s)
      else s)"

fun sendLossReport :: "(int \<times> int) list \<Rightarrow> int list" where
  "sendLossReport [] = []"
| "sendLossReport ((a, b) # rest) =
     (if a = b then a # sendLossReport rest
      else (a OR LOSSDATA_SEQNO_RANGE_FIRST) # b # sendLossReport rest)"

subsection \<open>The fresh records as a set\<close>

definition fresh_rep :: "CRcvFreshLoss list \<Rightarrow> ivl list \<Rightarrow> bool" where
  "fresh_rep rs xs \<longleftrightarrow> list_all2 (\<lambda>r (l, h). fl_lo r = sq l \<and> fl_hi r = sq h) rs xs \<and> separated xs"

lemma fresh_rep_Nil [simp]: "fresh_rep [] xs \<longleftrightarrow> xs = []"
  by (auto simp: fresh_rep_def)

lemma fresh_rep_Cons:
  "fresh_rep (r # rs) xs \<longleftrightarrow> (\<exists>l h ys. xs = (l, h) # ys \<and> fl_lo r = sq l \<and> fl_hi r = sq h \<and> l \<le> h \<and>
     (\<forall>y\<in>set ys. h < fst y) \<and> fresh_rep rs ys)"
  by (auto simp: fresh_rep_def list_all2_Cons1)

lemma fresh_repI:
  "fl_lo r = sq l \<Longrightarrow> fl_hi r = sq h \<Longrightarrow> l \<le> h \<Longrightarrow> \<forall>y\<in>set ys. h < fst y \<Longrightarrow> fresh_rep rs ys \<Longrightarrow>
    fresh_rep (r # rs) ((l, h) # ys)"
  unfolding fresh_rep_Cons by blast

lemma fresh_unlose_correct:
  assumes "fresh_rep rs xs" "\<forall>x\<in>ivset xs. \<bar>q - x\<bar> < 268435456"
  shows "\<exists>t rs' ys. fresh_unlose now (sq q) t0 rs = (t, rs') \<and> fresh_rep rs' ys \<and> ivset ys = ivset xs - {q} \<and>
    (\<forall>l. (\<forall>x\<in>set xs. l < fst x) \<longrightarrow> (\<forall>y\<in>set ys. l < fst y))"
  using assms
proof (induction rs arbitrary: xs t0)
  case (Cons r rs)
  obtain l h zs where xs: "xs = (l, h) # zs" "fl_lo r = sq l" "fl_hi r = sq h" "l \<le> h"
    "\<forall>y\<in>set zs. h < fst y" "fresh_rep rs zs"
    using Cons.prems(1) unfolding fresh_rep_Cons by blast
  have near: "\<bar>q - l\<bar> < 268435456" "\<bar>q - h\<bar> < 268435456" using Cons.prems(2) xs by auto
  have above: "h < x" if "x \<in> ivset zs" for x using ivset_ge [of zs h x] xs(5) that by simp
  have qn: "q \<notin> ivset zs" if "q \<le> h" using above [of q] that by auto
  have rv: "fresh_revoke r (sq q) = (if q < l \<or> h < q then (NONE, r)
     else if l = h then (DELETE, r)
     else if q = l then (STRIPPED, r\<lparr>fl_lo := sq (l + 1)\<rparr>)
     else if q = h then (STRIPPED, r\<lparr>fl_hi := sq (h - 1)\<rparr>)
     else (SPLIT, r))"
    by (rule fresh_revoke_correct) (use xs near in auto)
  consider "q < l \<or> h < q" | "l = h" "q = l" | "l < h" "q = l" | "l < h" "q = h" | "l < q" "q < h"
    using xs(4) by atomize_elim linarith
  then show ?case
  proof cases
    case 1
    have "\<forall>x\<in>ivset zs. \<bar>q - x\<bar> < 268435456" using Cons.prems(2) xs(1) by simp
    from Cons.IH [OF xs(6) this, of "fl_ttl r"]
    obtain t rs' ys where IH: "fresh_unlose now (sq q) (fl_ttl r) rs = (t, rs')" "fresh_rep rs' ys"
      "ivset ys = ivset zs - {q}" "\<forall>l. (\<forall>x\<in>set zs. l < fst x) \<longrightarrow> (\<forall>y\<in>set ys. l < fst y)" by blast
    have low: "\<forall>y\<in>set ys. h < fst y" using IH(4) xs(5) by blast
    have "fresh_unlose now (sq q) t0 (r # rs) = (t, r # rs')" using 1 rv IH(1) by simp
    moreover have "fresh_rep (r # rs') ((l, h) # ys)" using IH(2) low xs(2-4) by (intro fresh_repI)
    moreover have "q \<notin> {l..h}" using 1 by auto
    then have "ivset ((l, h) # ys) = ivset xs - {q}" unfolding xs(1) ivset_simps IH(3) by blast
    moreover have "\<forall>k. (\<forall>x\<in>set xs. k < fst x) \<longrightarrow> (\<forall>y\<in>set ((l, h) # ys). k < fst y)"
    proof (intro allI impI)
      fix k assume k: "\<forall>x\<in>set xs. k < fst x"
      then have "\<forall>y\<in>set ys. k < fst y" using IH(4) xs(1) by simp
      then show "\<forall>y\<in>set ((l, h) # ys). k < fst y" using k xs(1) by simp
    qed
    ultimately show ?thesis by - (rule exI, rule exI, rule exI, intro conjI, assumption+)
  next
    case 2
    then have "ivset zs = ivset xs - {q}" using qn xs(1) by auto
    moreover have "fresh_unlose now (sq q) t0 (r # rs) = (fl_ttl r, rs)" using 2 rv xs(4) by simp
    moreover have "\<forall>k. (\<forall>x\<in>set xs. k < fst x) \<longrightarrow> (\<forall>y\<in>set zs. k < fst y)" using xs(1) by auto
    ultimately show ?thesis using xs(6) by - (rule exI, rule exI, rule exI, intro conjI, assumption+)
  next
    case 3
    then have "ivset ((l + 1, h) # zs) = ivset xs - {q}" using qn xs(1) by auto
    moreover have "fresh_unlose now (sq q) t0 (r # rs) = (fl_ttl r, r\<lparr>fl_lo := sq (l + 1)\<rparr> # rs)" using 3 rv by simp
    moreover have "fresh_rep (r\<lparr>fl_lo := sq (l + 1)\<rparr> # rs) ((l + 1, h) # zs)" using 3 xs by (intro fresh_repI) simp_all
    moreover have "\<forall>k. (\<forall>x\<in>set xs. k < fst x) \<longrightarrow> (\<forall>y\<in>set ((l + 1, h) # zs). k < fst y)" using xs(1) by auto
    ultimately show ?thesis by - (rule exI, rule exI, rule exI, intro conjI, assumption+)
  next
    case 4
    then have "ivset ((l, h - 1) # zs) = ivset xs - {q}" using qn xs(1) by auto
    moreover have "fresh_unlose now (sq q) t0 (r # rs) = (fl_ttl r, r\<lparr>fl_hi := sq (h - 1)\<rparr> # rs)" using 4 rv by simp
    moreover have "\<forall>y\<in>set zs. h - 1 < fst y" using xs(5) by auto
    then have "fresh_rep (r\<lparr>fl_hi := sq (h - 1)\<rparr> # rs) ((l, h - 1) # zs)" using 4 xs by (intro fresh_repI) simp_all
    moreover have "\<forall>k. (\<forall>x\<in>set xs. k < fst x) \<longrightarrow> (\<forall>y\<in>set ((l, h - 1) # zs). k < fst y)" using xs(1) by auto
    ultimately show ?thesis by - (rule exI, rule exI, rule exI, intro conjI, assumption+)
  next
    case 5
    let ?new = "fresh_new now (sq (q + 1)) (sq h) (fl_ttl r)"
    have "ivset ((l, q - 1) # (q + 1, h) # zs) = ivset xs - {q}" using 5 qn xs(1) by auto
    moreover have "fresh_unlose now (sq q) t0 (r # rs) = (fl_ttl r, r\<lparr>fl_hi := sq (q - 1)\<rparr> # ?new # rs)"
      using 5 rv xs(3) by (simp add: Let_def seq_simps)
    moreover have "fresh_rep (?new # rs) ((q + 1, h) # zs)" using 5 xs by (intro fresh_repI) (simp_all add: fresh_new_def)
    moreover have "\<forall>y\<in>set ((q + 1, h) # zs). q - 1 < fst y" using xs(5) 5 by auto
    ultimately have "fresh_rep (r\<lparr>fl_hi := sq (q - 1)\<rparr> # ?new # rs) ((l, q - 1) # (q + 1, h) # zs)"
      using 5 xs(2) by (simp add: fresh_repI)
    moreover have "\<forall>k. (\<forall>x\<in>set xs. k < fst x) \<longrightarrow> (\<forall>y\<in>set ((l, q - 1) # (q + 1, h) # zs). k < fst y)"
      using xs(1) 5 by auto
    ultimately show ?thesis
      using \<open>ivset ((l, q - 1) # (q + 1, h) # zs) = ivset xs - {q}\<close>
        \<open>fresh_unlose now (sq q) t0 (r # rs) = (fl_ttl r, r\<lparr>fl_hi := sq (q - 1)\<rparr> # ?new # rs)\<close>
      by - (rule exI, rule exI, rule exI, intro conjI, assumption+)
  qed
next
  case Nil
  then have "xs = []" by simp
  then show ?case by (intro exI [of _ t0] exI [of _ "[]"]) simp
qed

lemma fresh_rep_near:
  assumes "fresh_rep rs xs" "xs \<noteq> []"
  shows "rs \<noteq> []"
  using assms by auto

lemma fresh_drop_correct:
  assumes "fresh_rep rs xs" "\<forall>x\<in>ivset xs. \<bar>q - x\<bar> < 134217728" "a \<le> q" "q - a < 268435456"
  shows "\<exists>d rs' ys. fresh_drop (sq a) (sq q) i i rs = (i + d, rs') \<and> fresh_rep (drop d rs') ys \<and>
    ivset ys = {x \<in> ivset xs. q < x}"
  using assms(1,2)
proof (induction rs arbitrary: xs i)
  case Nil
  then have "fresh_drop (sq a) (sq q) i i [] = (i + 0, [])" "fresh_rep (drop 0 []) []"
    "ivset [] = {x \<in> ivset xs. q < x}" by auto
  then show ?case by - (rule exI, rule exI, rule exI, intro conjI, assumption+)
next
  case (Cons r rs)
  obtain l h zs where xs: "xs = (l, h) # zs" "fl_lo r = sq l" "fl_hi r = sq h" "l \<le> h"
    "\<forall>y\<in>set zs. h < fst y" "fresh_rep rs zs"
    using Cons.prems(1) unfolding fresh_rep_Cons by blast
  have near: "\<bar>q - l\<bar> < 134217728" "\<bar>q - h\<bar> < 134217728" using Cons.prems(2) xs by auto
  have above: "\<forall>x\<in>ivset zs. h < x" using ivset_ge [of zs h] xs(5) by blast
  have rv: "fresh_revoke_range r (sq a) (sq q) =
    (if q < l then (NONE, r) else if q < h then (STRIPPED, r\<lparr>fl_lo := sq (q + 1)\<rparr>) else (DELETE, r))"
    by (rule fresh_revoke_range_correct) (use xs near assms(3,4) in auto)
  consider "q < l" | "l \<le> q" "q < h" | "h \<le> q" by linarith
  then show ?case
  proof cases
    case 1
    have "{x \<in> ivset xs. q < x} = ivset xs"
      using 1 above xs(4) unfolding xs(1) ivset_simps by (fastforce simp: Ball_def)
    moreover have "fresh_drop (sq a) (sq q) i i (r # rs) = (i + 0, r # rs)" using 1 rv by simp
    ultimately show ?thesis using Cons.prems(1) by (metis drop0)
  next
    case 2
    have "\<forall>x\<in>ivset zs. q < x" using above 2 by force
    then have "ivset ((q + 1, h) # zs) = {x \<in> ivset xs. q < x}" using 2 unfolding xs(1) ivset_simps by auto
    moreover have "fresh_drop (sq a) (sq q) i i (r # rs) = (i + 0, r\<lparr>fl_lo := sq (q + 1)\<rparr> # rs)" using 2 rv by simp
    moreover have "fresh_rep (drop 0 (r\<lparr>fl_lo := sq (q + 1)\<rparr> # rs)) ((q + 1, h) # zs)"
      using 2 xs by (simp add: fresh_repI)
    ultimately show ?thesis by metis
  next
    case 3
    have "\<forall>x\<in>ivset zs. \<bar>q - x\<bar> < 134217728" using Cons.prems(2) xs(1) by simp
    from Cons.IH [OF xs(6) this, of "i + 1"]
    obtain d rs' ys where IH: "fresh_drop (sq a) (sq q) (i + 1) (i + 1) rs = (i + 1 + d, rs')"
      "fresh_rep (drop d rs') ys" "ivset ys = {x \<in> ivset zs. q < x}" by blast
    have "fresh_drop (sq a) (sq q) i i (r # rs) = (i + Suc d, r # rs')" using 3 xs(4) rv IH(1) by simp
    moreover have "fresh_rep (drop (Suc d) (r # rs')) ys" using IH(2) by simp
    moreover have "ivset ys = {x \<in> ivset xs. q < x}" using 3 unfolding IH(3) xs(1) ivset_simps by auto
    ultimately show ?thesis by metis
  qed
qed

text \<open>The report of the expired records is the encoding of their ranges.\<close>

lemma fresh_report:
  assumes "fresh_rep rs xs" "\<forall>(l, h)\<in>set xs. h - l < 2147483648"
  shows "foldl (\<lambda>lr r. addLossRecord lr (fl_lo r) (fl_hi r)) (nak_enc pre) rs = nak_enc (pre @ xs)"
  using assms
proof (induction rs arbitrary: xs pre)
  case (Cons r rs)
  obtain l h zs where xs: "xs = (l, h) # zs" "fl_lo r = sq l" "fl_hi r = sq h" "l \<le> h" "fresh_rep rs zs"
    using Cons.prems(1) unfolding fresh_rep_Cons by blast
  have "h - l < 2147483648" "\<forall>(l, h)\<in>set zs. h - l < 2147483648" using Cons.prems(2) xs(1) by auto
  then show ?case
    using Cons.IH [OF xs(5), of "pre @ [(l, h)]"] addLossRecord_enc [of l h pre] xs by simp
qed simp

lemma fresh_expire_correct:
  assumes "fresh_rep rs xs" "\<forall>(l, h)\<in>set xs. h - l < 2147483648" "initial \<noteq> 0"
  defines "k \<equiv> length (takeWhile (\<lambda>r. fl_ttl r \<le> 0) rs)"
  shows "fresh_expire initial rs =
    (nak_enc (take k xs), map (\<lambda>r. r\<lparr>fl_ttl := fl_ttl r - 1\<rparr>) (drop k rs))"
    "fresh_rep (snd (fresh_expire initial rs)) (drop k xs)"
proof -
  have tk: "takeWhile (\<lambda>r. fl_ttl r \<le> 0) rs = take k rs" unfolding k_def by (rule takeWhile_eq_take)
  have "k \<le> length rs" unfolding k_def by (rule length_takeWhile_le)
  then have kl: "min (length rs) k = k" by simp
  have all: "list_all2 (\<lambda>r (l, h). fl_lo r = sq l \<and> fl_hi r = sq h) rs xs" "separated xs"
    using assms(1) by (simp_all add: fresh_rep_def)
  have sep: "separated (take k xs)" "separated (drop k xs)"
    using all(2) separated_simps(3) [of "take k xs" "drop k xs"] by simp_all
  have "fresh_rep (take k rs) (take k xs)"
    using all sep by (simp add: fresh_rep_def list_all2_takeI)
  moreover have "\<forall>(l, h)\<in>set (take k xs). h - l < 2147483648" using assms(2) by (auto dest: in_set_takeD)
  ultimately have "foldl (\<lambda>lr r. addLossRecord lr (fl_lo r) (fl_hi r)) (nak_enc []) (take k rs) = nak_enc ([] @ take k xs)"
    by (rule fresh_report)
  then show eq: "fresh_expire initial rs =
    (nak_enc (take k xs), map (\<lambda>r. r\<lparr>fl_ttl := fl_ttl r - 1\<rparr>) (drop k rs))"
    using assms(1,3) by (cases "rs = []") (auto simp: fresh_expire_def Let_def tk kl simp flip: k_def)
  show "fresh_rep (snd (fresh_expire initial rs)) (drop k xs)"
    unfolding eq using all sep by (auto simp: fresh_rep_def list_all2_conv_all_nth)
qed

lemma sendLossReport_enc:
  "\<forall>(l, h)\<in>set xs. l \<le> h \<and> h - l < 2147483648 \<Longrightarrow> sendLossReport (map (\<lambda>(l, h). (sq l, sq h)) xs) = nak_enc xs"
proof (induction xs)
  case (Cons x xs)
  then show ?case by (cases x) (auto simp: sq_near_eq or_range_first)
qed simp

subsection \<open>Properties of the receiver's bookkeeping\<close>

definition rloss_ready :: "rloss_state \<Rightarrow> int set \<Rightarrow> int set \<Rightarrow> bool" where
  "rloss_ready s X F \<longleftrightarrow> rcv_holds (rc_loss s) X \<and> (\<exists>xs. fresh_rep (rc_fresh s) xs \<and> ivset xs = F)"

lemma unlose_tolerance_keeps:
  assumes "unlose_tolerance q f s = (w, i, s')"
  shows "rc_loss s' = rc_loss s" "rc_fresh s' = rc_fresh s" "rc_PeerRexmitFlag s' = rc_PeerRexmitFlag s"
  using assms by (auto simp: unlose_tolerance_def Let_def split: if_splits)

lemma unlose_counters_keeps:
  "rc_loss (unlose_counters w i t s) = rc_loss s" "rc_fresh (unlose_counters w i t s) = rc_fresh s"
  by (auto simp: unlose_counters_def Let_def)

text \<open>
  A packet that arrives late leaves the loss records: it is no longer missing, and when belated
  reports are in use it will not be reported later either; no other position is touched, also when
  it falls inside a range and the record is split.
\<close>

theorem unlose_spec:
  assumes "rloss_ready s X F" "\<forall>x\<in>X. x - 268435456 < q \<and> q < x + rl_size (rc_loss s)"
    "\<forall>x\<in>X. b \<le> x \<and> x < b + rl_size (rc_loss s)" "\<forall>x\<in>F. \<bar>q - x\<bar> < 268435456"
  shows "\<exists>s' F'. unlose now (sq q) rexmit s = Some s' \<and> rloss_ready s' (X - {q}) F' \<and>
    (F' = F \<or> F' = F - {q}) \<and> (rc_PeerRexmitFlag s \<and> 0 < rc_ReorderTolerance s' \<longrightarrow> F' = F - {q})"
proof -
  from assms(1) obtain xs where hx: "rcv_holds (rc_loss s) X" "fresh_rep (rc_fresh s) xs" "ivset xs = F"
    by (auto simp: rloss_ready_def)
  from rcv_holds_remove [OF hx(1) assms(2,3)] obtain l where
    l: "rcv_remove (rc_loss s) (sq q) = Some (q \<in> X, l)" "rcv_holds l (X - {q})" by blast
  obtain w i s1 where tol: "unlose_tolerance (sq q) rexmit (s\<lparr>rc_loss := l\<rparr>) = (w, i, s1)"
    by (metis prod_cases3)
  note K = unlose_tolerance_keeps [OF tol]
  have "\<forall>x\<in>ivset xs. \<bar>q - x\<bar> < 268435456" using assms(4) hx(3) by simp
  from fresh_unlose_correct [OF hx(2) this, of now 0] obtain t rs' ys where
    fu: "fresh_unlose now (sq q) 0 (rc_fresh s) = (t, rs')" "fresh_rep rs' ys" "ivset ys = F - {q}"
    using hx(3) by metis
  show ?thesis
  proof (cases "\<not> rc_PeerRexmitFlag s1 \<or> rc_ReorderTolerance s1 = 0")
    case True
    have "unlose now (sq q) rexmit s = Some s1" using l(1) tol True by (simp add: unlose_def)
    moreover have "rloss_ready s1 (X - {q}) F" using K l(2) hx by (auto simp: rloss_ready_def)
    moreover have "\<not> (rc_PeerRexmitFlag s \<and> 0 < rc_ReorderTolerance s1)" using True K(3) by auto
    ultimately show ?thesis by blast
  next
    case False
    let ?s2 = "unlose_counters w i t (s1\<lparr>rc_fresh := rs'\<rparr>)"
    have "unlose now (sq q) rexmit s = Some ?s2" using l(1) tol False fu(1) K(2) by (simp add: unlose_def)
    moreover have "rloss_ready ?s2 (X - {q}) (F - {q})"
      using K l(2) fu(2,3) by (auto simp: rloss_ready_def unlose_counters_keeps)
    ultimately show ?thesis by blast
  qed
qed

text \<open>A retransmitted packet says nothing about reordering.\<close>

lemma unlose_rexmit_tolerance:
  assumes "unlose now q True s = Some s'"
  shows "rc_ReorderTolerance s' = rc_ReorderTolerance s"
proof -
  have tol: "unlose_tolerance q True s = (False, False, s)" for s
    by (simp add: unlose_tolerance_def)
  have cnt: "unlose_counters False False t s = s" for t s
    by (simp add: unlose_counters_def)
  show ?thesis
    using assms by (auto simp: unlose_def tol cnt bind_eq_Some_conv Let_def split: if_splits prod.splits)
qed

lemma unlose_spec_witness:
  "\<exists>s s'. rloss_ready s {2147483640..2147483650} {2147483640..2147483650} \<and>
     unlose 0 (sq 2147483648) True s = Some s' \<and>
     rloss_ready s' ({2147483640..2147483650} - {2147483648}) ({2147483640..2147483650} - {2147483648})"
proof -
  obtain r where r: "rcv_insert (rcv_new 64 (\<lambda>_. 7) (\<lambda>_. 9)) (sq 2147483640) (sq 2147483650) = Some r"
    "rcv_holds r {2147483640..2147483650}" "rl_size r = 64" by (rule rcv_example)
  define s where "s = \<lparr>rc_loss = r, rc_fresh = [fresh_new 0 (sq 2147483640) (sq 2147483650) 3],
    rc_RcvCurrSeqNo = sq 2147483651, rc_PeerRexmitFlag = True, rc_ReorderTolerance = 5, rc_MaxReorderTolerance = 10,
    rc_ConsecEarlyDelivery = 0, rc_ConsecOrderedDelivery = 0, rc_traceReorderDistance = 0\<rparr>"
  have "fresh_rep (rc_fresh s) [(2147483640, 2147483650)]"
    unfolding s_def by (simp add: fresh_repI fresh_new_def)
  then have ready: "rloss_ready s {2147483640..2147483650} {2147483640..2147483650}"
    using r(2) unfolding rloss_ready_def by (intro conjI exI [of _ "[(2147483640, 2147483650)]"]) (simp_all add: s_def)
  have size: "rl_size (rc_loss s) = 64" using r(3) by (simp add: s_def)
  have near: "\<forall>x\<in>{2147483640..2147483650}. \<bar>2147483648 - x\<bar> < (268435456 :: int)"
    by (simp add: abs_less_iff)
  obtain s' F' where u: "unlose 0 (sq 2147483648) True s = Some s'"
    "rloss_ready s' ({2147483640..2147483650} - {2147483648}) F'"
    "rc_PeerRexmitFlag s \<and> 0 < rc_ReorderTolerance s' \<longrightarrow> F' = {2147483640..2147483650} - {2147483648}"
    using unlose_spec [OF ready, of 2147483648 2147483640 0 True] near unfolding size by auto
  have "rc_ReorderTolerance s' = 5"
    using unlose_rexmit_tolerance [OF u(1)] by (simp add: s_def)
  then have "F' = {2147483640..2147483650} - {2147483648}" using u(3) by (simp add: s_def)
  then show ?thesis using ready u(1,2) by blast
qed

end
