(* ===== verification/Windows.thy ===== *)
theory Windows
  imports Complex_Main SeqNo
begin

text \<open>
  The time windows of \<open>window.cpp\<close> and \<open>include/window.h\<close>: the ring of sent acknowledgements
  (\<open>ACKWindowTools\<close>, \<open>CACKWindow\<close>) with its queue of outstanding entries, and the arrival and probe
  windows with their median filters (\<open>CPktTimeWindowTools\<close>, \<open>CPktTimeWindow\<close>). The clock is an
  argument \<open>now\<close>. Floating point divisions go through a rounding function that is a parameter of
  the model, as its exact values are not part of the code.
\<close>

subsection \<open>The ring of acknowledgements\<close>

record ack_seq =
  iACKSeqNo :: int
  iACK :: int
  TimeStamp :: int

record CACKWindow =
  aw_aSeq :: "ack_seq list"
  aw_iHead :: nat
  aw_iTail :: nat

definition aw_size :: "CACKWindow \<Rightarrow> nat" where
  "aw_size w = length (aw_aSeq w)"

definition aw_new :: "nat \<Rightarrow> CACKWindow" where
  "aw_new sz = \<lparr>aw_aSeq = (replicate sz \<lparr>iACKSeqNo = 0, iACK = 0, TimeStamp = 0\<rparr>)[0 := \<lparr>iACKSeqNo = - 1, iACK = 0, TimeStamp = 0\<rparr>],
     aw_iHead = 0, aw_iTail = 0\<rparr>"

definition aw_store :: "int \<Rightarrow> int \<Rightarrow> int \<Rightarrow> CACKWindow \<Rightarrow> CACKWindow" where
  "aw_store now seq ack w =
     (let w = w\<lparr>aw_aSeq := (aw_aSeq w)[aw_iHead w := \<lparr>iACKSeqNo = seq, iACK = ack, TimeStamp = now\<rparr>]\<rparr>;
          w = w\<lparr>aw_iHead := (aw_iHead w + 1) mod aw_size w\<rparr>
      in if aw_iHead w = aw_iTail w then w\<lparr>aw_iTail := (aw_iTail w + 1) mod aw_size w\<rparr> else w)"

definition aw_reset :: "CACKWindow \<Rightarrow> CACKWindow" where
  "aw_reset w = w\<lparr>aw_iTail := 0, aw_iHead := 0, aw_aSeq := (aw_aSeq w)[0 := (aw_aSeq w ! 0)\<lparr>iACKSeqNo := - 1\<rparr>]\<rparr>"

text \<open>The result is the round trip time (or -1), the new value of \<open>r_ack\<close>, and the window.\<close>

definition aw_acknowledge :: "int \<Rightarrow> int \<Rightarrow> int \<Rightarrow> CACKWindow \<Rightarrow> int \<times> int \<times> CACKWindow" where
  "aw_acknowledge now seq r_ack w =
     (if aw_iHead w \<ge> aw_iTail w then
        (case find (\<lambda>i. seq = iACKSeqNo (aw_aSeq w ! i)) [aw_iTail w..<aw_iHead w] of
           None \<Rightarrow> (- 1, r_ack, w)
         | Some i \<Rightarrow>
             (let rtt = i32 (now - TimeStamp (aw_aSeq w ! i));
                  ack = iACK (aw_aSeq w ! i)
              in if i + 1 = aw_iHead w then (rtt, ack, aw_reset w)
                 else (rtt, ack, w\<lparr>aw_iTail := (i + 1) mod aw_size w\<rparr>)))
      else
        (case find (\<lambda>j. seq = iACKSeqNo (aw_aSeq w ! (j mod aw_size w))) [aw_iTail w..<aw_iHead w + aw_size w] of
           None \<Rightarrow> (- 1, r_ack, w)
         | Some j \<Rightarrow>
             (let j = j mod aw_size w;
                  rtt = i32 (now - TimeStamp (aw_aSeq w ! j));
                  ack = iACK (aw_aSeq w ! j)
              in if j = aw_iHead w then (rtt, ack, aw_reset w)
                 else (rtt, ack, w\<lparr>aw_iTail := (j + 1) mod aw_size w\<rparr>))))"

text \<open>The outstanding acknowledgements, oldest first.\<close>

definition aw_wf :: "CACKWindow \<Rightarrow> bool" where
  "aw_wf w \<longleftrightarrow> 1 < aw_size w \<and> aw_iHead w < aw_size w \<and> aw_iTail w < aw_size w"

definition aw_count :: "CACKWindow \<Rightarrow> nat" where
  "aw_count w = (if aw_iTail w \<le> aw_iHead w then aw_iHead w - aw_iTail w else aw_iHead w + aw_size w - aw_iTail w)"

definition aw_queue :: "CACKWindow \<Rightarrow> ack_seq list" where
  "aw_queue w = map (\<lambda>i. aw_aSeq w ! (i mod aw_size w)) [aw_iTail w..<aw_iTail w + aw_count w]"

lemma ring_mod: "(n::nat) \<le> j \<Longrightarrow> j < n + n \<Longrightarrow> j mod n = j - n"
  by (simp add: le_mod_geq)

lemma aw_count_lt: "aw_wf w \<Longrightarrow> aw_count w < aw_size w"
  by (auto simp: aw_wf_def aw_count_def)

lemma aw_queue_head_free:
  assumes "aw_wf w" "aw_iTail w \<le> i" "i < aw_iTail w + aw_count w"
  shows "i mod aw_size w \<noteq> aw_iHead w"
proof (cases "i < aw_size w")
  case True
  then show ?thesis using assms by (auto simp: aw_wf_def aw_count_def split: if_splits)
next
  case False
  then have "i mod aw_size w = i - aw_size w"
    using assms by (intro ring_mod) (auto simp: aw_wf_def aw_count_def split: if_splits)
  then show ?thesis using assms False by (auto simp: aw_wf_def aw_count_def split: if_splits)
qed

lemma aw_new_wf: "1 < n \<Longrightarrow> aw_wf (aw_new n) \<and> aw_queue (aw_new n) = []"
  by (simp add: aw_wf_def aw_new_def aw_size_def aw_queue_def aw_count_def)

lemma find_mem: "find P xs = Some x \<Longrightarrow> x \<in> set xs"
  by (induction xs) (auto split: if_splits)

lemma ring_map_shift:
  "map (\<lambda>i. f (i mod n)) [t mod n..<t mod n + c] = map (\<lambda>i. f (i mod n)) [t..<t + c]"
  for t n c :: nat
  by (rule nth_equalityI) (simp_all add: mod_add_left_eq)

lemma dropWhile_upt:
  assumes "dropWhile P [t..<u] = x # r"
  shows "x # r = [x..<u] \<and> t \<le> x \<and> x < u"
  using assms
proof (induction "u - t" arbitrary: t)
  case (Suc k)
  then have "[t..<u] = t # [Suc t..<u]" by (simp add: upt_conv_Cons)
  with Suc show ?case by (cases "P t") (force, auto)
qed simp

text \<open>
  The ring of sent acknowledgements is a bounded queue: storing appends an entry, and when the
  ring is full it forgets the oldest one and nothing else.
\<close>

theorem aw_store_queue:
  assumes "aw_wf w"
  shows "aw_wf (aw_store now seq ack w) \<and> aw_size (aw_store now seq ack w) = aw_size w \<and>
    aw_queue (aw_store now seq ack w) =
      (let q = aw_queue w @ [\<lparr>iACKSeqNo = seq, iACK = ack, TimeStamp = now\<rparr>]
       in if length q = aw_size w then tl q else q)"
proof -
  let ?n = "aw_size w" and ?h = "aw_iHead w" and ?t = "aw_iTail w" and ?c = "aw_count w"
  let ?e = "\<lparr>iACKSeqNo = seq, iACK = ack, TimeStamp = now\<rparr>"
  let ?a = "(aw_aSeq w)[?h := ?e]"
  have wf: "1 < ?n" "?h < ?n" "?t < ?n" using assms by (simp_all add: aw_wf_def)
  have end_: "(?t + ?c) mod ?n = ?h"
    using wf by (auto simp: aw_count_def)
  have old: "map (\<lambda>i. ?a ! (i mod ?n)) [?t..<?t + ?c] = aw_queue w"
    unfolding aw_queue_def using aw_queue_head_free [OF assms] by (intro map_cong refl) (metis atLeastLessThan_iff nth_list_update_neq set_upt)
  have new: "map (\<lambda>i. ?a ! (i mod ?n)) [?t..<?t + Suc ?c] = aw_queue w @ [?e]"
    using old wf end_ by (simp add: aw_size_def)
  have len: "length (aw_queue w) = ?c" by (simp add: aw_queue_def)
  show ?thesis
  proof (cases "(?h + 1) mod ?n = ?t")
    case False
    let ?w = "w\<lparr>aw_aSeq := ?a, aw_iHead := (?h + 1) mod ?n\<rparr>"
    have st: "aw_store now seq ack w = ?w" using False by (simp add: aw_store_def Let_def aw_size_def)
    have c: "aw_count ?w = Suc ?c" "aw_size ?w = ?n" "Suc ?c < ?n"
      using wf False by (auto simp: aw_count_def aw_size_def mod_Suc split: if_splits)
    then show ?thesis using st new len wf by (simp add: aw_queue_def aw_wf_def del: upt_Suc)
  next
    case True
    let ?w = "w\<lparr>aw_aSeq := ?a, aw_iHead := (?h + 1) mod ?n, aw_iTail := (?t + 1) mod ?n\<rparr>"
    have st: "aw_store now seq ack w = ?w" using True by (simp add: aw_store_def Let_def aw_size_def)
    have c: "aw_count ?w = ?c" "aw_size ?w = ?n" "Suc ?c = ?n"
      using wf True by (auto simp: aw_count_def aw_size_def mod_Suc split: if_splits)
    have "aw_queue ?w = map (\<lambda>i. ?a ! (i mod ?n)) [?t + 1..<?t + 1 + ?c]"
      using ring_map_shift [of "\<lambda>i. ?a ! i" ?n "?t + 1" ?c] c(1,2) by (simp add: aw_queue_def)
    also have "\<dots> = tl (aw_queue w @ [?e])"
      unfolding new [symmetric] by (simp add: map_tl [symmetric] del: upt_Suc)
    finally show ?thesis using st len c(2,3) wf by (simp add: aw_wf_def)
  qed
qed

lemma aw_store_queue_witness:
  "aw_wf (aw_new 2) \<and> aw_queue (aw_store 30 2 200 (aw_store 20 1 100 (aw_new 2))) =
     [\<lparr>iACKSeqNo = 2, iACK = 200, TimeStamp = 30\<rparr>]"
  using aw_store_queue [of "aw_new 2" 20 1 100] aw_store_queue [of "aw_store 20 1 100 (aw_new 2)" 30 2 200]
    aw_new_wf [of 2] by (simp add: Let_def aw_new_def aw_size_def)

text \<open>
  C39. An ACKACK finds the entry it confirms: the result is the time since that ACK was sent and the
  data sequence number it carried, the entry and everything older leave the queue, and an unknown
  number changes nothing and yields -1.
\<close>

theorem aw_acknowledge_queue:
  assumes "aw_wf w"
  shows "\<exists>rtt ack w'. aw_acknowledge now seq r_ack w = (rtt, ack, w') \<and> aw_wf w' \<and> aw_size w' = aw_size w \<and>
    (case dropWhile (\<lambda>e. seq \<noteq> iACKSeqNo e) (aw_queue w) of
       [] \<Rightarrow> rtt = - 1 \<and> ack = r_ack \<and> w' = w
     | e # rest \<Rightarrow> rtt = i32 (now - TimeStamp e) \<and> ack = iACK e \<and> aw_queue w' = rest)"
proof -
  let ?n = "aw_size w" and ?h = "aw_iHead w" and ?t = "aw_iTail w" and ?c = "aw_count w"
  let ?g = "\<lambda>i. aw_aSeq w ! (i mod ?n)"
  have wf: "1 < ?n" "?h < ?n" "?t < ?n" using assms by (simp_all add: aw_wf_def)
  have dw: "dropWhile (\<lambda>e. seq \<noteq> iACKSeqNo e) (aw_queue w) =
      map ?g (dropWhile (\<lambda>i. seq \<noteq> iACKSeqNo (?g i)) [?t..<?t + ?c])"
    unfolding aw_queue_def dropWhile_map by (simp add: comp_def)
  have fd: "find (\<lambda>i. seq = iACKSeqNo (?g i)) [?t..<?t + ?c] =
      (case dropWhile (\<lambda>i. seq \<noteq> iACKSeqNo (?g i)) [?t..<?t + ?c] of [] \<Rightarrow> None | x # _ \<Rightarrow> Some x)"
    unfolding find_dropWhile by (simp add: comp_def)
  have uni: "aw_acknowledge now seq r_ack w =
      (case find (\<lambda>i. seq = iACKSeqNo (?g i)) [?t..<?t + ?c] of
         None \<Rightarrow> (- 1, r_ack, w)
       | Some i \<Rightarrow> (i32 (now - TimeStamp (?g i)), iACK (?g i),
           if ?t \<le> ?h \<and> i + 1 = ?h then aw_reset w else w\<lparr>aw_iTail := (i mod ?n + 1) mod ?n\<rparr>))"
  proof (cases "?t \<le> ?h")
    case True
    have "find (\<lambda>i. seq = iACKSeqNo (aw_aSeq w ! i)) [?t..<?h] = find (\<lambda>i. seq = iACKSeqNo (?g i)) [?t..<?h]"
      using wf by (intro find_cong refl) simp
    moreover have "i < ?h" if "find (\<lambda>i. seq = iACKSeqNo (?g i)) [?t..<?h] = Some i" for i
      using find_mem [OF that] by simp
    ultimately show ?thesis
      using True wf by (auto simp: aw_acknowledge_def aw_count_def Let_def split: option.split)
  next
    case False
    have "j mod ?n \<noteq> ?h" if "find (\<lambda>i. seq = iACKSeqNo (?g i)) [?t..<?t + ?c] = Some j" for j
      using find_mem [OF that] aw_queue_head_free [OF assms, of j] by simp
    then show ?thesis
      using False wf by (auto simp: aw_acknowledge_def aw_count_def Let_def split: option.split)
  qed
  show ?thesis
  proof (cases "dropWhile (\<lambda>i. seq \<noteq> iACKSeqNo (?g i)) [?t..<?t + ?c]")
    case Nil
    show ?thesis unfolding dw uni fd Nil using assms by simp
  next
    case (Cons i r)
    from dropWhile_upt [OF Cons] have i: "i # r = [i..<?t + ?c]" "?t \<le> i" "i < ?t + ?c" by blast+
    then have r: "r = [Suc i..<?t + ?c]" by (metis list.inject upt_conv_Cons)
    define w' where "w' = (if ?t \<le> ?h \<and> i + 1 = ?h then aw_reset w else w\<lparr>aw_iTail := (i mod ?n + 1) mod ?n\<rparr>)"
    have size: "aw_size w' = ?n" by (simp add: w'_def aw_reset_def aw_size_def)
    have "aw_queue w' = map ?g r"
    proof (cases "?t \<le> ?h \<and> i + 1 = ?h")
      case True
      then show ?thesis using r by (simp add: w'_def aw_reset_def aw_queue_def aw_count_def)
    next
      case False
      then have w': "w' = w\<lparr>aw_iTail := (i + 1) mod ?n\<rparr>" by (auto simp: w'_def mod_Suc_eq)
      have c: "aw_count w' = ?t + ?c - Suc i"
      proof (cases "?t \<le> ?h")
        case True
        then have "i + 1 < ?h" using i(3) False by (simp add: aw_count_def)
        then show ?thesis using True wf by (simp add: w' aw_count_def aw_size_def)
      next
        case f: False
        then have ih: "i < ?h + ?n" using i(3) wf by (simp add: aw_count_def)
        show ?thesis
        proof (cases "i + 1 < ?n")
          case True
          then show ?thesis using f i(2) wf by (simp add: w' aw_count_def aw_size_def)
        next
          case g: False
          then have "(i + 1) mod ?n = i + 1 - ?n" using ih wf by (intro ring_mod) auto
          moreover have "i + 1 - ?n \<le> ?h" using ih by simp
          ultimately show ?thesis using f g ih wf by (simp add: w' aw_count_def aw_size_def)
        qed
      qed
      have "aw_queue w' = map ?g [(i + 1) mod ?n..<(i + 1) mod ?n + aw_count w']"
        by (simp add: aw_queue_def w' aw_size_def)
      also have "\<dots> = map ?g [i + 1..<i + 1 + aw_count w']"
        using ring_map_shift [of "\<lambda>i. aw_aSeq w ! i" ?n "i + 1" "aw_count w'"] by simp
      also have "i + 1 + aw_count w' = ?t + ?c" using c i(3) by simp
      finally show ?thesis using r by simp
    qed
    moreover have "aw_wf w'" unfolding aw_wf_def size using wf by (simp add: w'_def aw_reset_def)
    moreover have "aw_acknowledge now seq r_ack w = (i32 (now - TimeStamp (?g i)), iACK (?g i), w')"
      by (simp add: uni fd Cons w'_def)
    ultimately show ?thesis using size by (simp add: dw Cons)
  qed
qed

lemma aw_acknowledge_queue_witness:
  "\<exists>w'. aw_acknowledge 75 2 0 (aw_store 30 2 200 (aw_store 20 1 100 (aw_new 4))) = (45, 200, w') \<and>
     aw_queue w' = []"
proof -
  have w1: "aw_wf (aw_store 20 1 100 (aw_new 4))" "aw_size (aw_store 20 1 100 (aw_new 4)) = 4"
    "aw_queue (aw_store 20 1 100 (aw_new 4)) = [\<lparr>iACKSeqNo = 1, iACK = 100, TimeStamp = 20\<rparr>]"
    using aw_store_queue [of "aw_new 4" 20 1 100] aw_new_wf [of 4] by (simp_all add: aw_new_def aw_size_def)
  have w2: "aw_wf (aw_store 30 2 200 (aw_store 20 1 100 (aw_new 4)))"
    "aw_queue (aw_store 30 2 200 (aw_store 20 1 100 (aw_new 4))) =
       [\<lparr>iACKSeqNo = 1, iACK = 100, TimeStamp = 20\<rparr>, \<lparr>iACKSeqNo = 2, iACK = 200, TimeStamp = 30\<rparr>]"
    using aw_store_queue [OF w1(1), of 30 2 200] w1(2,3) by simp_all
  show ?thesis using aw_acknowledge_queue [OF w2(1), of 75 2 0] w2(2) by auto
qed

subsection \<open>Arrival and probe windows\<close>

definition SRT_DATA_HDR_SIZE :: int where
  "SRT_DATA_HDR_SIZE = 28 + 16"

definition SRT_MAX_PAYLOAD_SIZE :: int where
  "SRT_MAX_PAYLOAD_SIZE = 1500 - SRT_DATA_HDR_SIZE"

record CPktTimeWindow =
  pw_aPktWindow :: "int list"
  pw_aBytesWindow :: "int list"
  pw_iPktWindowPtr :: nat
  pw_aProbeWindow :: "int list"
  pw_iProbeWindowPtr :: nat
  pw_iLastSentTime :: int
  pw_iMinPktSndInt :: int
  pw_LastArrTime :: int
  pw_CurrArrTime :: int
  pw_ProbeTime :: int
  pw_Probe1Sequence :: int

definition pw_new :: "nat \<Rightarrow> nat \<Rightarrow> int \<Rightarrow> CPktTimeWindow" where
  "pw_new asize psize now =
     \<lparr>pw_aPktWindow = replicate asize 1000000, pw_aBytesWindow = replicate asize SRT_MAX_PAYLOAD_SIZE,
      pw_iPktWindowPtr = 0, pw_aProbeWindow = replicate psize 1000, pw_iProbeWindowPtr = 0,
      pw_iLastSentTime = 0, pw_iMinPktSndInt = 1000000, pw_LastArrTime = now, pw_CurrArrTime = 0,
      pw_ProbeTime = 0, pw_Probe1Sequence = - 1\<rparr>"

text \<open>\<open>nth_element\<close> puts the element of a sorted sequence into its place.\<close>

definition median_of :: "int list \<Rightarrow> nat \<Rightarrow> int" where
  "median_of replica k = sort replica ! k"

definition in_filter :: "int \<Rightarrow> int \<Rightarrow> bool" where
  "in_filter median p \<longleftrightarrow> p < i32 (median * 8) \<and> p > median div 8"

definition getPktRcvSpeed_in :: "(rat \<Rightarrow> rat) \<Rightarrow> int list \<Rightarrow> int list \<Rightarrow> nat \<Rightarrow> int \<times> int" where
  "getPktRcvSpeed_in rnd window abytes asize =
     (let median = median_of (take asize window) (asize div 2);
          sel = filter (\<lambda>(p, bp). in_filter median p) (zip (take asize window) (take asize abytes));
          count = int (length sel);
          sum = i32 (sum_list (map fst sel));
          bytes = u64 (sum_list (map snd sel))
      in if count > int (asize div 2) then
           (let bytes = u64 (bytes + SRT_DATA_HDR_SIZE * count)
            in (i32 \<lceil>rnd (1000000 / of_int (u32 sum div count))\<rceil>,
                i32 \<lceil>rnd (1000000 / rnd (of_int sum / of_int bytes))\<rceil>))
         else (0, 0))"

definition getBandwidth_in :: "(rat \<Rightarrow> rat) \<Rightarrow> int list \<Rightarrow> nat \<Rightarrow> int" where
  "getBandwidth_in rnd window psize =
     (let median = median_of (take (psize - 1) window) (psize div 2);
          sel = filter (in_filter median) (take psize window);
          count = 1 + int (length sel);
          sum = i32 (median + sum_list sel)
      in i32 \<lceil>rnd (1000000 / rnd (of_int sum / of_int count))\<rceil>)"

definition getPktRcvSpeed :: "(rat \<Rightarrow> rat) \<Rightarrow> CPktTimeWindow \<Rightarrow> int \<times> int" where
  "getPktRcvSpeed rnd w = getPktRcvSpeed_in rnd (pw_aPktWindow w) (pw_aBytesWindow w) (length (pw_aPktWindow w))"

definition getBandwidth :: "(rat \<Rightarrow> rat) \<Rightarrow> CPktTimeWindow \<Rightarrow> int" where
  "getBandwidth rnd w = getBandwidth_in rnd (pw_aProbeWindow w) (length (pw_aProbeWindow w))"

definition onPktSent :: "int \<Rightarrow> CPktTimeWindow \<Rightarrow> CPktTimeWindow" where
  "onPktSent currtime w =
     (let interval = i32 (currtime - pw_iLastSentTime w);
          w = (if interval < pw_iMinPktSndInt w \<and> interval > 0 then w\<lparr>pw_iMinPktSndInt := interval\<rparr> else w)
      in w\<lparr>pw_iLastSentTime := currtime\<rparr>)"

definition onPktArrival :: "int \<Rightarrow> int \<Rightarrow> CPktTimeWindow \<Rightarrow> CPktTimeWindow" where
  "onPktArrival now pktsz w =
     (let w = w\<lparr>pw_CurrArrTime := now\<rparr>;
          w = w\<lparr>pw_aPktWindow := (pw_aPktWindow w)[pw_iPktWindowPtr w := i32 (pw_CurrArrTime w - pw_LastArrTime w)],
                pw_aBytesWindow := (pw_aBytesWindow w)[pw_iPktWindowPtr w := pktsz]\<rparr>;
          w = w\<lparr>pw_iPktWindowPtr := pw_iPktWindowPtr w + 1\<rparr>;
          w = (if pw_iPktWindowPtr w = length (pw_aPktWindow w) then w\<lparr>pw_iPktWindowPtr := 0\<rparr> else w)
      in w\<lparr>pw_LastArrTime := pw_CurrArrTime w\<rparr>)"

definition probe1Arrival :: "int \<Rightarrow> int \<Rightarrow> bool \<Rightarrow> CPktTimeWindow \<Rightarrow> CPktTimeWindow" where
  "probe1Arrival now seqno unordered w =
     (if unordered \<and> seqno = pw_Probe1Sequence w then w\<lparr>pw_Probe1Sequence := - 1\<rparr>
      else w\<lparr>pw_ProbeTime := now, pw_Probe1Sequence := seqno\<rparr>)"

definition probe2Arrival :: "int \<Rightarrow> int \<Rightarrow> int \<Rightarrow> CPktTimeWindow \<Rightarrow> CPktTimeWindow" where
  "probe2Arrival now seqno pktsz w =
     (if pw_Probe1Sequence w = - 1 \<or> incseq (pw_Probe1Sequence w) \<noteq> seqno then w
      else
        (let w = w\<lparr>pw_CurrArrTime := now, pw_Probe1Sequence := - 1\<rparr>;
             timediff = i64 (pw_CurrArrTime w - pw_ProbeTime w);
             timediff_times_pl_size = i64 (timediff * SRT_MAX_PAYLOAD_SIZE);
             v = i32 (if pktsz \<noteq> 0 then u64 timediff_times_pl_size div pktsz else i32 timediff);
             w = w\<lparr>pw_aProbeWindow := (pw_aProbeWindow w)[pw_iProbeWindowPtr w := v],
                   pw_iProbeWindowPtr := pw_iProbeWindowPtr w + 1\<rparr>
         in if pw_iProbeWindowPtr w = length (pw_aProbeWindow w) then w\<lparr>pw_iProbeWindowPtr := 0\<rparr> else w))"

text \<open>The two calls of the clock inside \<open>probeArrival\<close> exclude each other.\<close>

definition probeArrival :: "int \<Rightarrow> int \<Rightarrow> int \<Rightarrow> bool \<Rightarrow> CPktTimeWindow \<Rightarrow> CPktTimeWindow" where
  "probeArrival now seqno pktsz unordered w =
     (let inorder16 = seqno mod 16;
          w = (if inorder16 = 0 then probe1Arrival now seqno unordered w else w)
      in if unordered then w
         else if inorder16 = 1 then probe2Arrival now seqno pktsz w else w)"

definition pw_wf :: "CPktTimeWindow \<Rightarrow> bool" where
  "pw_wf w \<longleftrightarrow> pw_iPktWindowPtr w < length (pw_aPktWindow w) \<and> length (pw_aBytesWindow w) = length (pw_aPktWindow w) \<and>
     pw_iProbeWindowPtr w < length (pw_aProbeWindow w) \<and> 0 < pw_iMinPktSndInt w \<and> pw_iMinPktSndInt w \<le> 1000000"

lemma pw_ops_wf:
  "0 < a \<Longrightarrow> 0 < p \<Longrightarrow> pw_wf (pw_new a p now)"
  "pw_wf w \<Longrightarrow> pw_wf (onPktSent t w)"
  "pw_wf w \<Longrightarrow> pw_wf (onPktArrival now sz w)"
  "pw_wf w \<Longrightarrow> pw_wf (probe1Arrival now q u w)"
  "pw_wf w \<Longrightarrow> pw_wf (probe2Arrival now q sz w)"
  "pw_wf w \<Longrightarrow> pw_wf (probeArrival now q sz u w)"
proof -
  show 1: "pw_wf w \<Longrightarrow> pw_wf (probe1Arrival now q u w)" for w by (simp add: pw_wf_def probe1Arrival_def)
  show 2: "pw_wf w \<Longrightarrow> pw_wf (probe2Arrival now q sz w)" for w by (auto simp: pw_wf_def probe2Arrival_def Let_def)
  show "pw_wf w \<Longrightarrow> pw_wf (probeArrival now q sz u w)" using 1 2 by (simp add: probeArrival_def Let_def)
qed (auto simp: pw_wf_def pw_new_def onPktSent_def onPktArrival_def Let_def)






end
