(* ===== verification/Handshake.thy ===== *)
theory Handshake
  imports BitFields
begin

text \<open>
  The handshake messages of \<open>handshake.cpp\<close> and \<open>include/handshake.h\<close>: the 48-byte structure
  \<open>CHandShake\<close> with its serialisation, the request types and rejection codes it carries, the flag
  words, and the extension structure \<open>SrtHSRequest\<close>. A \<open>char*\<close> buffer that the code casts to
  \<open>int32_t*\<close> is a list of 32-bit words in host order together with a size in bytes. The serialisers
  meet the contract \<open>wire_codec\<close> of fixed-size codecs, which is interpreted for both structures.
\<close>

subsection \<open>Fixed-size codecs\<close>

locale wire_codec =
  fixes enc :: "'a \<Rightarrow> 32 word list"
    and dec :: "32 word list \<Rightarrow> 'a"
    and wf :: "'a \<Rightarrow> bool"
    and n :: nat
  assumes enc_length: "length (enc x) = n"
    and dec_enc: "wf x \<Longrightarrow> dec (enc x) = x"
begin

lemma enc_inj: "inj_on enc {x. wf x}"
  by (metis (mono_tags) dec_enc inj_on_inverseI mem_Collect_eq)

lemma dec_prefix: "wf x \<Longrightarrow> dec (take n (enc x @ rest)) = x"
  by (simp add: enc_length dec_enc)

lemma prefix_eq:
  assumes "wf x" "wf y" "enc x @ u = enc y @ v"
  shows "x = y \<and> u = v"
proof -
  have "enc x = enc y \<and> u = v" using assms(3) by (simp add: enc_length)
  with assms(1,2) show ?thesis using enc_inj by (auto dest: inj_onD)
qed

end

locale wire_bijection = wire_codec +
  assumes dec_wf: "length ws = n \<Longrightarrow> wf (dec ws)"
    and enc_dec: "length ws = n \<Longrightarrow> enc (dec ws) = ws"
begin

lemma dec_inj: "inj_on dec {ws. length ws = n}"
  by (metis (mono_tags) enc_dec inj_on_inverseI mem_Collect_eq)

lemma enc_image: "enc ` {x. wf x} = {ws. length ws = n}"
proof -
  have "\<exists>x. wf x \<and> enc x = ws" if "length ws = n" for ws
    using dec_wf [OF that] enc_dec [OF that] by (intro exI [of _ "dec ws"]) simp
  then show ?thesis using enc_length by (auto simp: image_def)
qed

end

subsection \<open>Request types and rejection reasons\<close>

definition URQ_INDUCTION_TYPES :: int where "URQ_INDUCTION_TYPES = 0"
definition URQ_INDUCTION :: int where "URQ_INDUCTION = 1"
definition URQ_WAVEAHAND :: int where "URQ_WAVEAHAND = 0"
definition URQ_CONCLUSION :: int where "URQ_CONCLUSION = - 1"
definition URQ_AGREEMENT :: int where "URQ_AGREEMENT = - 2"
definition URQ_DONE :: int where "URQ_DONE = - 3"
definition URQ_FAILURE_TYPES :: int where "URQ_FAILURE_TYPES = 1000"

lemmas urq_defs = URQ_INDUCTION_TYPES_def URQ_INDUCTION_def URQ_WAVEAHAND_def URQ_CONCLUSION_def
  URQ_AGREEMENT_def URQ_DONE_def URQ_FAILURE_TYPES_def

datatype SRT_REJECT_REASON =
    SRT_REJ_UNKNOWN | SRT_REJ_SYSTEM | SRT_REJ_PEER | SRT_REJ_RESOURCE | SRT_REJ_ROGUE
  | SRT_REJ_BACKLOG | SRT_REJ_IPE | SRT_REJ_CLOSE | SRT_REJ_VERSION | SRT_REJ_RDVCOOKIE
  | SRT_REJ_BADSECRET | SRT_REJ_UNSECURE | SRT_REJ_MESSAGEAPI | SRT_REJ_CONGESTION | SRT_REJ_FILTER

definition SRT_REJ_list :: "SRT_REJECT_REASON list" where
  "SRT_REJ_list = [SRT_REJ_UNKNOWN, SRT_REJ_SYSTEM, SRT_REJ_PEER, SRT_REJ_RESOURCE, SRT_REJ_ROGUE,
     SRT_REJ_BACKLOG, SRT_REJ_IPE, SRT_REJ_CLOSE, SRT_REJ_VERSION, SRT_REJ_RDVCOOKIE,
     SRT_REJ_BADSECRET, SRT_REJ_UNSECURE, SRT_REJ_MESSAGEAPI, SRT_REJ_CONGESTION, SRT_REJ_FILTER]"

definition SRT_REJ__SIZE :: int where
  "SRT_REJ__SIZE = 15"

fun reject_code :: "SRT_REJECT_REASON \<Rightarrow> nat" where
  "reject_code SRT_REJ_UNKNOWN = 0"
| "reject_code SRT_REJ_SYSTEM = 1"
| "reject_code SRT_REJ_PEER = 2"
| "reject_code SRT_REJ_RESOURCE = 3"
| "reject_code SRT_REJ_ROGUE = 4"
| "reject_code SRT_REJ_BACKLOG = 5"
| "reject_code SRT_REJ_IPE = 6"
| "reject_code SRT_REJ_CLOSE = 7"
| "reject_code SRT_REJ_VERSION = 8"
| "reject_code SRT_REJ_RDVCOOKIE = 9"
| "reject_code SRT_REJ_BADSECRET = 10"
| "reject_code SRT_REJ_UNSECURE = 11"
| "reject_code SRT_REJ_MESSAGEAPI = 12"
| "reject_code SRT_REJ_CONGESTION = 13"
| "reject_code SRT_REJ_FILTER = 14"

text \<open>The enumeration is compared by its codes.\<close>

lemma reject_code_less: "int (reject_code r) < SRT_REJ__SIZE"
  by (cases r) (simp_all add: SRT_REJ__SIZE_def)

lemma SRT_REJ_nth: "SRT_REJ_list ! reject_code r = r"
  by (cases r) (simp_all add: SRT_REJ_list_def)

lemma reject_code_nth: "n < 15 \<Longrightarrow> reject_code (SRT_REJ_list ! n) = n"
  unfolding SRT_REJ_list_def by (auto simp: less_Suc_eq numeral_eq_Suc)

lemma reject_code_inj: "inj reject_code"
  by (metis SRT_REJ_nth injI)

instantiation SRT_REJECT_REASON :: linorder
begin

definition less_eq_SRT_REJECT_REASON :: "SRT_REJECT_REASON \<Rightarrow> SRT_REJECT_REASON \<Rightarrow> bool" where
  "a \<le> b \<longleftrightarrow> reject_code a \<le> reject_code b"

definition less_SRT_REJECT_REASON :: "SRT_REJECT_REASON \<Rightarrow> SRT_REJECT_REASON \<Rightarrow> bool" where
  "a < b \<longleftrightarrow> reject_code a < reject_code b"

instance
  by standard (auto simp: less_eq_SRT_REJECT_REASON_def less_SRT_REJECT_REASON_def dest: injD [OF reject_code_inj])

end

definition URQFailure :: "SRT_REJECT_REASON \<Rightarrow> int" where
  "URQFailure reason = URQ_FAILURE_TYPES + int (reject_code reason)"

definition RejectReasonForURQ :: "int \<Rightarrow> SRT_REJECT_REASON" where
  "RejectReasonForURQ req =
     (if req < URQ_FAILURE_TYPES \<or> req - URQ_FAILURE_TYPES \<ge> SRT_REJ__SIZE then SRT_REJ_UNKNOWN
      else SRT_REJ_list ! nat (req - URQ_FAILURE_TYPES))"

definition srt_rejectreason_name :: "string list" where
  "srt_rejectreason_name =
     [''UNKNOWN'', ''SYSTEM'', ''PEER'', ''RESOURCE'', ''ROGUE'', ''BACKLOG'', ''IPE'', ''CLOSE'',
      ''VERSION'', ''RDVCOOKIE'', ''BADSECRET'', ''UNSECURE'', ''MESSAGEAPI'', ''CONGESTION'', ''FILTER'']"

definition RequestTypeStr :: "int \<Rightarrow> string" where
  "RequestTypeStr rq =
     (if rq \<ge> URQ_FAILURE_TYPES then ''ERROR:'' @ srt_rejectreason_name ! reject_code (RejectReasonForURQ rq)
      else if rq = URQ_INDUCTION then ''induction''
      else if rq = URQ_WAVEAHAND then ''waveahand''
      else if rq = URQ_CONCLUSION then ''conclusion''
      else if rq = URQ_AGREEMENT then ''agreement''
      else ''INVALID'')"

text \<open>
  A rejection reason survives its way through the request type field of a handshake; the code
  of a failure is never one of the regular request types, codes outside the table are read as
  \<open>SRT_REJ_UNKNOWN\<close>, and the reason found always has a name in the table of names.
\<close>

theorem reject_reason_roundtrip:
  "RejectReasonForURQ (URQFailure r) = r \<and>
   URQFailure r \<notin> {URQ_INDUCTION, URQ_WAVEAHAND, URQ_CONCLUSION, URQ_AGREEMENT, URQ_DONE} \<and>
   (URQFailure (RejectReasonForURQ req) = req \<or> RejectReasonForURQ req = SRT_REJ_UNKNOWN) \<and>
   reject_code (RejectReasonForURQ req) < length srt_rejectreason_name"
proof -
  have "RejectReasonForURQ (URQFailure r) = r"
    using reject_code_less [of r] by (simp add: RejectReasonForURQ_def URQFailure_def SRT_REJ_nth)
  moreover have "URQFailure (RejectReasonForURQ req) = req \<or> RejectReasonForURQ req = SRT_REJ_UNKNOWN"
    using reject_code_nth [of "nat (req - 1000)"]
    by (auto simp: RejectReasonForURQ_def URQFailure_def urq_defs SRT_REJ__SIZE_def)
  moreover have "reject_code (RejectReasonForURQ req) < length srt_rejectreason_name"
    using reject_code_less [of "RejectReasonForURQ req"]
    by (simp add: srt_rejectreason_name_def SRT_REJ__SIZE_def)
  ultimately show ?thesis by (simp add: URQFailure_def urq_defs)
qed


subsection \<open>The handshake structure\<close>

record CHandShake =
  hs_iVersion :: int
  hs_iType :: int
  hs_iISN :: int
  hs_iMSS :: int
  hs_iFlightFlagSize :: int
  hs_iReqType :: int
  hs_iID :: int
  hs_iCookie :: int
  hs_piPeerIP :: "int list"
  hs_extension :: bool

definition CHandShake_new :: CHandShake where
  "CHandShake_new = \<lparr>hs_iVersion = 0, hs_iType = 0, hs_iISN = 0, hs_iMSS = 0, hs_iFlightFlagSize = 0,
     hs_iReqType = URQ_WAVEAHAND, hs_iID = 0, hs_iCookie = 0, hs_piPeerIP = [0, 0, 0, 0], hs_extension = False\<rparr>"

definition m_iContentSize :: nat where
  "m_iContentSize = 48"

definition hs_words :: "CHandShake \<Rightarrow> 32 word list" where
  "hs_words hs = map word_of_int ([hs_iVersion hs, hs_iType hs, hs_iISN hs, hs_iMSS hs,
     hs_iFlightFlagSize hs, hs_iReqType hs, hs_iID hs, hs_iCookie hs] @ map (\<lambda>i. hs_piPeerIP hs ! i) [0..<4])"

definition hs_read :: "CHandShake \<Rightarrow> 32 word list \<Rightarrow> CHandShake" where
  "hs_read hs p = hs\<lparr>hs_iVersion := sint (p ! 0), hs_iType := sint (p ! 1), hs_iISN := sint (p ! 2),
     hs_iMSS := sint (p ! 3), hs_iFlightFlagSize := sint (p ! 4), hs_iReqType := sint (p ! 5),
     hs_iID := sint (p ! 6), hs_iCookie := sint (p ! 7), hs_piPeerIP := map (\<lambda>i. uint (p ! (8 + i))) [0..<4]\<rparr>"

text \<open>The buffer after the call, the new value of \<open>r_size\<close>, and the result.\<close>

definition store_to :: "CHandShake \<Rightarrow> 32 word list \<Rightarrow> nat \<Rightarrow> 32 word list \<times> nat \<times> int" where
  "store_to hs buf sz =
     (if sz < m_iContentSize then (buf, sz, - 1)
      else (hs_words hs @ drop 12 buf, m_iContentSize, 0))"

definition load_from :: "CHandShake \<Rightarrow> 32 word list \<Rightarrow> nat \<Rightarrow> CHandShake \<times> int" where
  "load_from hs buf sz = (if sz < m_iContentSize then (hs, - 1) else (hs_read hs buf, 0))"

definition is_i32 :: "int \<Rightarrow> bool" where
  "is_i32 x \<longleftrightarrow> - 2147483648 \<le> x \<and> x < 2147483648"

definition hs_wf :: "CHandShake \<Rightarrow> bool" where
  "hs_wf hs \<longleftrightarrow> is_i32 (hs_iVersion hs) \<and> is_i32 (hs_iType hs) \<and> is_i32 (hs_iISN hs) \<and> is_i32 (hs_iMSS hs) \<and>
     is_i32 (hs_iFlightFlagSize hs) \<and> is_i32 (hs_iReqType hs) \<and> is_i32 (hs_iID hs) \<and> is_i32 (hs_iCookie hs) \<and>
     length (hs_piPeerIP hs) = 4 \<and> (\<forall>a\<in>set (hs_piPeerIP hs). 0 \<le> a \<and> a < 4294967296)"

lemma sint_word32 [simp]: "is_i32 x \<Longrightarrow> sint (word_of_int x :: 32 word) = x"
  by (simp add: is_i32_def sint_sbintrunc' signed_take_bit_int_eq_self)

lemma uint_word32 [simp]: "0 \<le> x \<Longrightarrow> x < 4294967296 \<Longrightarrow> uint (word_of_int x :: 32 word) = x"
  by (simp add: uint_word_of_int)

lemma is_i32_sint [simp]: "is_i32 (sint (w :: 32 word))"
  using sint_range_size [of w] by (simp add: is_i32_def word_size)

lemma length_hs_words [simp]: "length (hs_words hs) = 12"
  by (simp add: hs_words_def)

lemma upt4: "[0..<4] = [0, 1, 2, 3 :: nat]"
  by (simp add: upt_rec)

lemma hs_read_words:
  assumes "hs_wf hs"
  shows "hs_read h0 (hs_words hs @ rest) = hs\<lparr>hs_extension := hs_extension h0\<rparr>"
proof -
  from assms obtain a b c d where ip: "hs_piPeerIP hs = [a, b, c, d]"
    unfolding hs_wf_def by (auto simp: numeral_eq_Suc length_Suc_conv)
  with assms show ?thesis
    by (cases hs; cases h0) (simp add: hs_read_def hs_words_def hs_wf_def upt4)
qed

lemma hs_words_read:
  assumes "length ws = 12"
  shows "hs_words (hs_read h0 ws) = ws"
proof -
  from assms obtain a b c d e f g h i j k l where "ws = [a, b, c, d, e, f, g, h, i, j, k, l]"
    by (auto simp: numeral_eq_Suc length_Suc_conv)
  then show ?thesis by (simp add: hs_read_def hs_words_def upt4)
qed

lemma hs_wf_read: "length ws = 12 \<Longrightarrow> hs_wf (hs_read h0 ws)"
  using uint_lt2p [where 'a = 32] by (auto simp: hs_wf_def hs_read_def upt4)

text \<open>The handshake is a codec: 12 words, every content is one handshake.\<close>

interpretation hs_codec: wire_bijection hs_words "hs_read CHandShake_new" "\<lambda>hs. hs_wf hs \<and> \<not> hs_extension hs" 12
proof
  show "hs_wf x \<and> \<not> hs_extension x \<Longrightarrow> hs_read CHandShake_new (hs_words x) = x" for x
    using hs_read_words [of x CHandShake_new "[]"] by (simp add: CHandShake_new_def)
  show "length ws = 12 \<Longrightarrow> hs_wf (hs_read CHandShake_new ws) \<and> \<not> hs_extension (hs_read CHandShake_new ws)" for ws
    by (simp add: hs_wf_read) (simp add: hs_read_def CHandShake_new_def)
qed (simp_all add: hs_words_read)

text \<open>
  C28. A handshake stored into a buffer of at least 48 bytes is loaded back field by field, behind it
  the buffer is as it was, and a shorter buffer makes both directions fail and change nothing. Two
  handshakes with the same bytes are the same (up to the local extension flag).
\<close>

theorem handshake_roundtrip:
  assumes "hs_wf hs"
  shows "(if m_iContentSize \<le> sz then
      \<exists>buf'. store_to hs buf sz = (buf', 48, 0) \<and> drop 12 buf' = drop 12 buf \<and>
        load_from h0 buf' sz = (hs\<lparr>hs_extension := hs_extension h0\<rparr>, 0)
    else store_to hs buf sz = (buf, sz, - 1) \<and> load_from h0 buf sz = (h0, - 1)) \<and>
    (hs_wf hs' \<and> \<not> hs_extension hs' \<and> \<not> hs_extension hs \<and> hs_words hs' @ u = hs_words hs @ v \<longrightarrow> hs' = hs \<and> u = v)"
  using assms hs_codec.prefix_eq [of hs' hs u v]
  by (simp add: store_to_def load_from_def hs_read_words m_iContentSize_def)

lemma handshake_roundtrip_witness:
  "\<exists>buf'. store_to (CHandShake_new\<lparr>hs_iVersion := 5, hs_iReqType := URQFailure SRT_REJ_VERSION\<rparr>) (replicate 20 0) 80 = (buf', 48, 0) \<and>
     load_from CHandShake_new buf' 80 = (CHandShake_new\<lparr>hs_iVersion := 5, hs_iReqType := 1008\<rparr>, 0)"
proof -
  let ?h = "CHandShake_new\<lparr>hs_iVersion := 5, hs_iReqType := URQFailure SRT_REJ_VERSION\<rparr>"
  have "hs_wf ?h" by (simp add: hs_wf_def is_i32_def CHandShake_new_def urq_defs URQFailure_def)
  from handshake_roundtrip [OF this, of 80 "replicate 20 0" CHandShake_new, THEN conjunct1]
  show ?thesis by (auto simp: m_iContentSize_def CHandShake_new_def URQFailure_def urq_defs)
qed

subsection \<open>Flag words\<close>

text \<open>\<open>enum SrtOptions\<close> and the capabilities a version announces.\<close>

definition SRT_OPT_TSBPDSND :: "32 word" where "SRT_OPT_TSBPDSND = push_bit 0 1"
definition SRT_OPT_TSBPDRCV :: "32 word" where "SRT_OPT_TSBPDRCV = push_bit 1 1"
definition SRT_OPT_HAICRYPT :: "32 word" where "SRT_OPT_HAICRYPT = push_bit 2 1"
definition SRT_OPT_TLPKTDROP :: "32 word" where "SRT_OPT_TLPKTDROP = push_bit 3 1"
definition SRT_OPT_NAKREPORT :: "32 word" where "SRT_OPT_NAKREPORT = push_bit 4 1"
definition SRT_OPT_REXMITFLG :: "32 word" where "SRT_OPT_REXMITFLG = push_bit 5 1"
definition SRT_OPT_STREAM :: "32 word" where "SRT_OPT_STREAM = push_bit 6 1"
definition SRT_OPT_FILTERCAP :: "32 word" where "SRT_OPT_FILTERCAP = push_bit 7 1"

lemmas srt_opt_defs = SRT_OPT_TSBPDSND_def SRT_OPT_TSBPDRCV_def SRT_OPT_HAICRYPT_def SRT_OPT_TLPKTDROP_def
  SRT_OPT_NAKREPORT_def SRT_OPT_REXMITFLG_def SRT_OPT_STREAM_def SRT_OPT_FILTERCAP_def

definition SrtVersionCapabilities :: "32 word" where
  "SrtVersionCapabilities = SRT_OPT_HAICRYPT OR SRT_OPT_FILTERCAP"

definition HS_EXT_HSREQ :: "32 word" where "HS_EXT_HSREQ = push_bit 0 1"
definition HS_EXT_KMREQ :: "32 word" where "HS_EXT_KMREQ = push_bit 1 1"
definition HS_EXT_CONFIG :: "32 word" where "HS_EXT_CONFIG = push_bit 2 1"

definition SRT_MAGIC_CODE :: "32 word" where
  "SRT_MAGIC_CODE = 0x4A17"

definition SRT_HSTYPE_ENCFLAGS_unwrap :: "32 word \<Rightarrow> 32 word" where
  "SRT_HSTYPE_ENCFLAGS_unwrap = bits_unwrap 31 16"

definition SRT_HSTYPE_HSFLAGS_unwrap :: "32 word \<Rightarrow> 32 word" where
  "SRT_HSTYPE_HSFLAGS_unwrap = bits_unwrap 15 0"

definition wrapFlags :: "bool \<Rightarrow> 32 word \<Rightarrow> 32 word" where
  "wrapFlags withmagic crypto_keylen =
     (if withmagic then SRT_MAGIC_CODE else 0) OR bits_wrap 31 16 (bits_unwrap 5 3 crypto_keylen)"

fun dec_digits :: "nat \<Rightarrow> string" where
  "dec_digits n = (if n < 10 then [''0123456789'' ! n] else dec_digits (n div 10) @ [''0123456789'' ! (n mod 10)])"

declare dec_digits.simps [simp del]

definition ExtensionFlagStr :: "32 word \<Rightarrow> string" where
  "ExtensionFlagStr fl =
     (if fl AND HS_EXT_HSREQ \<noteq> 0 then '' hsx'' else []) @
     (if fl AND HS_EXT_KMREQ \<noteq> 0 then '' kmx'' else []) @
     (if fl AND HS_EXT_CONFIG \<noteq> 0 then '' config'' else []) @
     (let kl = push_bit 6 (SRT_HSTYPE_ENCFLAGS_unwrap fl)
      in if kl \<noteq> 0 then '' AES-'' @ dec_digits (unat kl) else '' no-pbklen'')"

text \<open>
  The type field of an HSv5 handshake carries the key length and the flags without disturbing
  each other: from \<open>wrapFlags\<close> the receiver reads back the key length in units of eight bytes, and
  the low half is the magic code or zero.
\<close>

theorem wrapFlags_fields:
  assumes "klen \<in> {0, 8, 16, 24, 32, 40, 48, 56}"
  shows "push_bit 3 (SRT_HSTYPE_ENCFLAGS_unwrap (wrapFlags magic klen)) = klen \<and>
    SRT_HSTYPE_HSFLAGS_unwrap (wrapFlags magic klen) = (if magic then SRT_MAGIC_CODE else 0)"
proof -
  let ?e = "bits_unwrap 5 3 klen"
  have fit: "bits_fit 31 16 ?e"
    by (rule fit_iff [THEN iffD2]) (auto simp: bit_unwrap)
  have "SRT_HSTYPE_ENCFLAGS_unwrap (wrapFlags magic klen) =
      bits_unwrap 31 16 (if magic then SRT_MAGIC_CODE else 0) OR ?e"
    by (simp add: SRT_HSTYPE_ENCFLAGS_unwrap_def wrapFlags_def unwrap_or unwrap_wrap fit)
  moreover have "bits_unwrap 31 16 (if magic then SRT_MAGIC_CODE else 0) = 0"
    by (simp add: bits_unwrap_def SRT_MAGIC_CODE_def BitsetMask.simps)
  moreover have "push_bit 3 ?e = klen"
    using assms by (auto simp: bits_unwrap_def BitsetMask.simps)
  moreover have "SRT_HSTYPE_HSFLAGS_unwrap (wrapFlags magic klen) =
      bits_unwrap 15 0 (if magic then SRT_MAGIC_CODE else 0)"
    by (simp add: SRT_HSTYPE_HSFLAGS_unwrap_def wrapFlags_def unwrap_or unwrap_wrap_disjoint)
  moreover have "bits_unwrap 15 0 SRT_MAGIC_CODE = SRT_MAGIC_CODE" "bits_unwrap 15 0 0 = 0"
    by (simp_all add: bits_unwrap_def SRT_MAGIC_CODE_def BitsetMask.simps)
  ultimately show ?thesis by auto
qed

lemma wrapFlags_fields_witness:
  "push_bit 3 (SRT_HSTYPE_ENCFLAGS_unwrap (wrapFlags True 24)) = 24"
  using wrapFlags_fields [of 24 True] by simp

subsection \<open>The HSREQ extension structure\<close>

record SrtHSRequest =
  m_SrtCommand :: int
  m_iSrtVersion :: "32 word"
  m_iSrtFlags :: "32 word"
  m_iSrtTsbpd :: "32 word"
  m_iSrtReserved :: "32 word"

definition SRT_HS_SIZE :: nat where
  "SRT_HS_SIZE = 16"

definition SrtHSRequest_new :: SrtHSRequest where
  "SrtHSRequest_new = \<lparr>m_SrtCommand = 1, m_iSrtVersion = 0, m_iSrtFlags = 0, m_iSrtTsbpd = 0, m_iSrtReserved = 0\<rparr>"

definition setFlag :: "32 word \<Rightarrow> SrtHSRequest \<Rightarrow> SrtHSRequest" where
  "setFlag opt r = r\<lparr>m_iSrtFlags := m_iSrtFlags r OR opt\<rparr>"

definition clearFlag :: "32 word \<Rightarrow> SrtHSRequest \<Rightarrow> SrtHSRequest" where
  "clearFlag opt r = r\<lparr>m_iSrtFlags := m_iSrtFlags r AND NOT opt\<rparr>"

definition setTsbPdDelay :: "16 word \<Rightarrow> SrtHSRequest \<Rightarrow> SrtHSRequest" where
  "setTsbPdDelay delay r = r\<lparr>m_iSrtTsbpd := m_iSrtTsbpd r OR bits_wrap 15 0 (ucast delay)\<rparr>"

definition tsbPdDelay :: "SrtHSRequest \<Rightarrow> 16 word" where
  "tsbPdDelay r = ucast (bits_unwrap 15 0 (m_iSrtTsbpd r))"

definition hsreq_words :: "SrtHSRequest \<Rightarrow> 32 word list" where
  "hsreq_words r = [m_iSrtVersion r, m_iSrtFlags r, m_iSrtTsbpd r, 0]"

definition hsreq_read :: "SrtHSRequest \<Rightarrow> 32 word list \<Rightarrow> SrtHSRequest" where
  "hsreq_read r p = r\<lparr>m_iSrtVersion := p ! 0, m_iSrtFlags := p ! 1, m_iSrtTsbpd := p ! 2, m_iSrtReserved := p ! 3\<rparr>"

definition serialize :: "SrtHSRequest \<Rightarrow> 32 word list \<Rightarrow> nat \<Rightarrow> 32 word list \<times> bool" where
  "serialize r buf sz = (if sz < SRT_HS_SIZE then (buf, False) else (hsreq_words r @ drop 4 buf, True))"

definition deserialize :: "SrtHSRequest \<Rightarrow> 32 word list \<Rightarrow> nat \<Rightarrow> SrtHSRequest \<times> bool" where
  "deserialize r buf sz =
     (let r = r\<lparr>m_iSrtVersion := 0\<rparr>
      in if sz < SRT_HS_SIZE then (r, False) else (hsreq_read r buf, True))"

interpretation hsreq_codec: wire_codec hsreq_words "hsreq_read SrtHSRequest_new"
    "\<lambda>r. m_SrtCommand r = 1 \<and> m_iSrtReserved r = 0" 4
  by unfold_locales (auto simp: hsreq_words_def hsreq_read_def SrtHSRequest_new_def intro: SrtHSRequest.equality)

text \<open>The delay is ORed into its word: a second call does not replace the first delay.\<close>

lemma setTsbPdDelay_twice: "tsbPdDelay (setTsbPdDelay 4 (setTsbPdDelay 3 SrtHSRequest_new)) = 7"
  by (simp add: tsbPdDelay_def setTsbPdDelay_def SrtHSRequest_new_def bits_unwrap_def bits_wrap_def BitsetMask.simps)

text \<open>
  An extension block written by \<open>serialize\<close> is read back with its version, flags and delay, the
  reserved word being written as zero; a short buffer leaves the version at zero, by which the
  reader recognises the failure. A flag set and a flag cleared change that flag only.
\<close>

theorem hsrequest_roundtrip:
  "(if SRT_HS_SIZE \<le> sz then
      deserialize r0 (fst (serialize r buf sz)) sz =
        (r\<lparr>m_SrtCommand := m_SrtCommand r0, m_iSrtReserved := 0\<rparr>, True)
    else \<not> snd (serialize r buf sz) \<and> deserialize r0 buf sz = (r0\<lparr>m_iSrtVersion := 0\<rparr>, False)) \<and>
   (let r1 = setFlag (push_bit i 1) r; r2 = clearFlag (push_bit j 1) r1
    in bit (m_iSrtFlags r2) k = ((bit (m_iSrtFlags r) k \<or> k = i \<and> k < 32) \<and> k \<noteq> j))"
proof (intro conjI)
  show "if SRT_HS_SIZE \<le> sz then
      deserialize r0 (fst (serialize r buf sz)) sz =
        (r\<lparr>m_SrtCommand := m_SrtCommand r0, m_iSrtReserved := 0\<rparr>, True)
    else \<not> snd (serialize r buf sz) \<and> deserialize r0 buf sz = (r0\<lparr>m_iSrtVersion := 0\<rparr>, False)"
    by (auto simp: serialize_def deserialize_def hsreq_words_def hsreq_read_def intro!: SrtHSRequest.equality)
  have "k < 32" if "bit (m_iSrtFlags r) k"
    using bit_imp_le_length [OF that] by simp
  then show "let r1 = setFlag (push_bit i 1) r; r2 = clearFlag (push_bit j 1) r1
    in bit (m_iSrtFlags r2) k = ((bit (m_iSrtFlags r) k \<or> k = i \<and> k < 32) \<and> k \<noteq> j)"
    by (auto simp: setFlag_def clearFlag_def bit_and_iff bit_or_iff bit_not_iff bit_push_bit_iff bit_exp_iff)
qed

end
