(* ===== verification/Negotiation.thy ===== *)
theory Negotiation
  imports Handshake
begin

text \<open>
  The negotiation of an SRT connection (\<open>core.cpp\<close>): the version, the capability flags and the two
  latencies carried by the HSREQ block of the initiator and the HSRSP block of the responder
  (\<open>fillSrtHandshake*\<close>, \<open>processSrtMsg_HSREQ\<close>, \<open>processSrtMsg_HSRSP\<close>). The payload is a list of
  32-bit words with its length in bytes; a result \<open>None\<close> means that the code reads behind the payload.
\<close>

subsection \<open>State\<close>

record CUDT_neg =
  ng_bOPT_TsbPd :: bool
  ng_iOPT_TsbPdDelay :: int
  ng_iOPT_PeerTsbPdDelay :: int
  ng_bTsbPd :: bool
  ng_iTsbPdDelay_ms :: int
  ng_bPeerTsbPd :: bool
  ng_iPeerTsbPdDelay_ms :: int
  ng_bOPT_TLPktDrop :: bool
  ng_bTLPktDrop :: bool
  ng_bPeerTLPktDrop :: bool
  ng_bRcvNakReport :: bool
  ng_bPeerNakReport :: bool
  ng_bPeerRexmitFlag :: bool
  ng_bMessageAPI :: bool
  ng_lSrtVersion :: int
  ng_lMinimumPeerSrtVersion :: int
  ng_lPeerSrtVersion :: int
  ng_lPeerSrtFlags :: "32 word"
  ng_ullRcvPeerStartTime :: int
  ng_iSndHsRetryCnt :: int
  ng_RejectReason :: SRT_REJECT_REASON

definition HS_VERSION_UDT4 :: int where "HS_VERSION_UDT4 = 4"
definition HS_VERSION_SRT1 :: int where "HS_VERSION_SRT1 = 5"

lemmas hs_version_defs = HS_VERSION_UDT4_def HS_VERSION_SRT1_def

definition SrtVersion :: "int \<Rightarrow> int \<Rightarrow> int \<Rightarrow> int" where
  "SrtVersion major minor patch = patch + minor * 0x100 + major * 0x10000"

definition SRT_VERSION_FEAT_HSv5 :: int where
  "SRT_VERSION_FEAT_HSv5 = 0x010300"

definition SRT_CMD_REJECT :: int where "SRT_CMD_REJECT = 0"
definition SRT_CMD_HSREQ :: int where "SRT_CMD_HSREQ = 1"
definition SRT_CMD_HSRSP :: int where "SRT_CMD_HSRSP = 2"
definition SRT_CMD_KMREQ :: int where "SRT_CMD_KMREQ = 3"
definition SRT_CMD_KMRSP :: int where "SRT_CMD_KMRSP = 4"
definition SRT_CMD_SID :: int where "SRT_CMD_SID = 5"
definition SRT_CMD_CONGESTION :: int where "SRT_CMD_CONGESTION = 6"
definition SRT_CMD_FILTER :: int where "SRT_CMD_FILTER = 7"
definition SRT_CMD_NONE :: int where "SRT_CMD_NONE = - 1"

lemmas srt_cmd_defs = SRT_CMD_REJECT_def SRT_CMD_HSREQ_def SRT_CMD_HSRSP_def SRT_CMD_KMREQ_def SRT_CMD_KMRSP_def
  SRT_CMD_SID_def SRT_CMD_CONGESTION_def SRT_CMD_FILTER_def SRT_CMD_NONE_def

definition SRT_HS__SIZE :: nat where
  "SRT_HS__SIZE = 3"

definition LATENCY_RCV_wrap :: "int \<Rightarrow> 32 word" where
  "LATENCY_RCV_wrap d = bits_wrap 31 16 (word_of_int d)"

definition LATENCY_SND_wrap :: "int \<Rightarrow> 32 word" where
  "LATENCY_SND_wrap d = bits_wrap 15 0 (word_of_int d)"

definition LATENCY_RCV_unwrap :: "32 word \<Rightarrow> int" where
  "LATENCY_RCV_unwrap w = uint (bits_unwrap 31 16 w)"

definition LATENCY_SND_unwrap :: "32 word \<Rightarrow> int" where
  "LATENCY_SND_unwrap w = uint (bits_unwrap 15 0 w)"

text \<open>The values at the start of a connection (\<open>CUDT::open\<close>).\<close>

definition ng_open :: "CUDT_neg \<Rightarrow> CUDT_neg" where
  "ng_open s = s\<lparr>ng_bPeerTsbPd := False, ng_iPeerTsbPdDelay_ms := 0, ng_bTsbPd := ng_bOPT_TsbPd s,
     ng_iTsbPdDelay_ms := ng_iOPT_TsbPdDelay s, ng_bTLPktDrop := ng_bOPT_TLPktDrop s,
     ng_bPeerTLPktDrop := False, ng_bPeerNakReport := False, ng_bPeerRexmitFlag := False,
     ng_ullRcvPeerStartTime := 0\<rparr>"

definition handshakeDone :: "CUDT_neg \<Rightarrow> CUDT_neg" where
  "handshakeDone s = s\<lparr>ng_iSndHsRetryCnt := 0\<rparr>"

subsection \<open>Filling the blocks\<close>

definition set_flag :: "bool \<Rightarrow> 32 word \<Rightarrow> 32 word \<Rightarrow> 32 word" where
  "set_flag c opt fl = (if c then fl OR opt else fl)"

text \<open>\<open>srtdata[SRT_HS_FLAGS]\<close> and \<open>srtdata[SRT_HS_LATENCY]\<close> are threaded through.\<close>

definition fillSrtHandshake_HSREQ :: "32 word \<Rightarrow> 32 word \<Rightarrow> int \<Rightarrow> CUDT_neg \<Rightarrow> 32 word \<times> 32 word \<times> CUDT_neg" where
  "fillSrtHandshake_HSREQ fl lat hs_version s =
     (let (fl, lat, s) =
        (if ng_bOPT_TsbPd s then
           (let s = s\<lparr>ng_iTsbPdDelay_ms := ng_iOPT_TsbPdDelay s, ng_iPeerTsbPdDelay_ms := ng_iOPT_PeerTsbPdDelay s\<rparr>;
                fl = fl OR SRT_OPT_TSBPDSND
            in if hs_version < HS_VERSION_SRT1 then (fl, LATENCY_SND_wrap (ng_iPeerTsbPdDelay_ms s), s)
               else (set_flag (ng_bTLPktDrop s) SRT_OPT_TLPKTDROP (fl OR SRT_OPT_TSBPDRCV),
                     LATENCY_SND_wrap (ng_iPeerTsbPdDelay_ms s) OR LATENCY_RCV_wrap (ng_iTsbPdDelay_ms s),
                     s\<lparr>ng_bTsbPd := True\<rparr>))
         else (fl, lat, s));
          fl = set_flag (ng_bRcvNakReport s) SRT_OPT_NAKREPORT fl;
          fl = fl OR SRT_OPT_REXMITFLG;
          fl = set_flag (\<not> ng_bMessageAPI s) SRT_OPT_STREAM fl
      in (fl, lat, s))"

definition fillSrtHandshake_HSRSP :: "32 word \<Rightarrow> 32 word \<Rightarrow> int \<Rightarrow> CUDT_neg \<Rightarrow> (32 word \<times> 32 word) option" where
  "fillSrtHandshake_HSRSP fl lat hs_version s =
     (if ng_ullRcvPeerStartTime s \<noteq> 0 then
        (let (fl, lat) =
           (if ng_bTsbPd s then
              (fl OR SRT_OPT_TSBPDRCV,
               if hs_version < HS_VERSION_SRT1 then LATENCY_SND_wrap (ng_iTsbPdDelay_ms s)
               else LATENCY_RCV_wrap (ng_iTsbPdDelay_ms s))
            else (fl, lat));
             (fl, lat) =
           (if ng_bPeerTsbPd s \<and> hs_version \<ge> HS_VERSION_SRT1 then
              (fl OR SRT_OPT_TSBPDSND, lat OR LATENCY_SND_wrap (ng_iPeerTsbPdDelay_ms s))
            else (fl, lat));
             fl = set_flag (ng_bTLPktDrop s) SRT_OPT_TLPKTDROP fl;
             fl = (if ng_bRcvNakReport s then
                (let fl = fl OR SRT_OPT_NAKREPORT
                 in if ng_lPeerSrtVersion s \<le> SrtVersion 1 0 7 then fl AND NOT SRT_OPT_TLPKTDROP else fl)
              else fl);
             fl = (if ng_lSrtVersion s \<ge> SrtVersion 1 2 0 \<and> ng_bPeerRexmitFlag s then fl OR SRT_OPT_REXMITFLG else fl)
         in Some (fl, lat))
      else None)"

text \<open>The words written (the block length is 3, or 0 when the code reports an internal error) and the state.\<close>

definition fillSrtHandshake :: "nat \<Rightarrow> int \<Rightarrow> int \<Rightarrow> CUDT_neg \<Rightarrow> 32 word list \<times> CUDT_neg" where
  "fillSrtHandshake srtlen msgtype hs_version s =
     (if srtlen < SRT_HS__SIZE then ([], s)
      else
        (let ver = word_of_int (ng_lSrtVersion s); fl = SrtVersionCapabilities
         in if msgtype = SRT_CMD_HSREQ then
              (let (fl, lat, s) = fillSrtHandshake_HSREQ fl 0 hs_version s in ([ver, fl, lat], s))
            else if msgtype = SRT_CMD_HSRSP then
              (case fillSrtHandshake_HSRSP fl 0 hs_version s of None \<Rightarrow> ([], s) | Some (fl, lat) \<Rightarrow> ([ver, fl, lat], s))
            else ([], s)))"

subsection \<open>Processing the blocks\<close>

definition has_flag :: "32 word \<Rightarrow> 32 word \<Rightarrow> bool" where
  "has_flag fl opt \<longleftrightarrow> fl AND opt = opt"

definition rdw :: "32 word list \<Rightarrow> nat \<Rightarrow> 32 word option" where
  "rdw ws i = (if i < length ws then Some (ws ! i) else None)"

definition hsreq_latency :: "32 word \<Rightarrow> int \<Rightarrow> CUDT_neg \<Rightarrow> CUDT_neg" where
  "hsreq_latency lat hsv s =
     (let s = (if has_flag (ng_lPeerSrtFlags s) SRT_OPT_TSBPDSND \<and> ng_bTsbPd s
               then s\<lparr>ng_iTsbPdDelay_ms := max (ng_iTsbPdDelay_ms s) (LATENCY_SND_unwrap lat)\<rparr> else s);
          s = (if hsv > HS_VERSION_UDT4 \<and> has_flag (ng_lPeerSrtFlags s) SRT_OPT_TSBPDRCV
               then s\<lparr>ng_bPeerTsbPd := True,
                      ng_iPeerTsbPdDelay_ms := max (ng_iPeerTsbPdDelay_ms s) (LATENCY_RCV_unwrap lat)\<rparr> else s)
      in if hsv > HS_VERSION_UDT4 then
           s\<lparr>ng_bPeerTLPktDrop := ng_bPeerTLPktDrop s \<or> has_flag (ng_lPeerSrtFlags s) SRT_OPT_TLPKTDROP,
             ng_bPeerNakReport := ng_bPeerNakReport s \<or> has_flag (ng_lPeerSrtFlags s) SRT_OPT_NAKREPORT\<rparr>
         else s)"

definition processSrtMsg_HSREQ :: "int \<Rightarrow> 32 word list \<Rightarrow> nat \<Rightarrow> int \<Rightarrow> int \<Rightarrow> CUDT_neg \<Rightarrow> (int \<times> CUDT_neg) option" where
  "processSrtMsg_HSREQ now srtdata len ts hsv s =
     (let s = s\<lparr>ng_ullRcvPeerStartTime := u64 (now - u32 ts),
                ng_iTsbPdDelay_ms := ng_iOPT_TsbPdDelay s, ng_iPeerTsbPdDelay_ms := ng_iOPT_PeerTsbPdDelay s\<rparr>
      in if len < 8 then Some (SRT_CMD_NONE, s\<lparr>ng_RejectReason := SRT_REJ_ROGUE\<rparr>)
      else do {
        ver \<leftarrow> rdw srtdata 0;
        fl \<leftarrow> rdw srtdata 1;
        let s = s\<lparr>ng_lPeerSrtVersion := uint ver, ng_lPeerSrtFlags := fl\<rparr>;
        if (if hsv = HS_VERSION_UDT4 then ng_lPeerSrtVersion s \<ge> SRT_VERSION_FEAT_HSv5
            else ng_lPeerSrtVersion s < SRT_VERSION_FEAT_HSv5)
        then Some (SRT_CMD_REJECT, s\<lparr>ng_RejectReason := SRT_REJ_ROGUE\<rparr>)
        else if ng_lPeerSrtVersion s < ng_lMinimumPeerSrtVersion s
        then Some (SRT_CMD_REJECT, s\<lparr>ng_RejectReason := SRT_REJ_VERSION\<rparr>)
        else do {
          let s = s\<lparr>ng_bPeerRexmitFlag := has_flag fl SRT_OPT_REXMITFLG\<rparr>;
          let peer_message_api = (\<not> has_flag fl SRT_OPT_STREAM);
          if peer_message_api \<noteq> ng_bMessageAPI s
          then Some (SRT_CMD_REJECT, s\<lparr>ng_RejectReason := SRT_REJ_MESSAGEAPI\<rparr>)
          else if len < 3 then
            (if has_flag fl SRT_OPT_TSBPDSND \<or> has_flag fl SRT_OPT_TSBPDRCV
             then Some (SRT_CMD_REJECT, s\<lparr>ng_RejectReason := SRT_REJ_ROGUE\<rparr>)
             else Some (SRT_CMD_HSRSP, s\<lparr>ng_bTsbPd := False, ng_bPeerTsbPd := False\<rparr>))
          else do {
            lat \<leftarrow> rdw srtdata 2;
            Some (SRT_CMD_HSRSP, hsreq_latency lat hsv s)
          }
        }
      })"

definition hsrsp_latency :: "32 word \<Rightarrow> int \<Rightarrow> CUDT_neg \<Rightarrow> CUDT_neg" where
  "hsrsp_latency lat hsv s =
     (let fl = ng_lPeerSrtFlags s
      in if hsv = HS_VERSION_UDT4 then
           (if has_flag fl SRT_OPT_TSBPDRCV
            then s\<lparr>ng_bPeerTsbPd := True, ng_iPeerTsbPdDelay_ms := LATENCY_SND_unwrap lat\<rparr> else s)
         else
           (let s = (if has_flag fl SRT_OPT_TSBPDRCV
                     then s\<lparr>ng_bPeerTsbPd := True, ng_iPeerTsbPdDelay_ms := LATENCY_RCV_unwrap lat\<rparr> else s)
            in if has_flag fl SRT_OPT_TSBPDSND \<and> ng_bTsbPd s
               then s\<lparr>ng_iTsbPdDelay_ms := LATENCY_SND_unwrap lat\<rparr> else s))"

definition processSrtMsg_HSRSP :: "int \<Rightarrow> 32 word list \<Rightarrow> nat \<Rightarrow> int \<Rightarrow> int \<Rightarrow> CUDT_neg \<Rightarrow> (int \<times> CUDT_neg) option" where
  "processSrtMsg_HSRSP now srtdata len ts hsv s =
     do {
       ver \<leftarrow> (if hsv = HS_VERSION_UDT4 then rdw srtdata 0 else Some 0);
       if hsv = HS_VERSION_UDT4 \<and> uint ver \<ge> SRT_VERSION_FEAT_HSv5 then Some (SRT_CMD_NONE, s)
       else if len < 8 then Some (SRT_CMD_NONE, s)
       else do {
         let s = s\<lparr>ng_ullRcvPeerStartTime := u64 (now - u32 ts)\<rparr>;
         ver \<leftarrow> rdw srtdata 0;
         fl \<leftarrow> rdw srtdata 1;
         let s = s\<lparr>ng_lPeerSrtVersion := uint ver, ng_lPeerSrtFlags := fl\<rparr>;
         lat \<leftarrow> (if has_flag fl SRT_OPT_TSBPDRCV \<or> hsv \<noteq> HS_VERSION_UDT4 \<and> has_flag fl SRT_OPT_TSBPDSND \<and> ng_bTsbPd s
                 then rdw srtdata 2 else Some 0);
         let s = hsrsp_latency lat hsv s;
         let s = s\<lparr>ng_bPeerTLPktDrop := ng_bPeerTLPktDrop s \<or> ng_lSrtVersion s \<ge> SrtVersion 1 0 5 \<and> has_flag fl SRT_OPT_TLPKTDROP\<rparr>;
         let s = s\<lparr>ng_bPeerNakReport := ng_bPeerNakReport s \<or> ng_lSrtVersion s \<ge> SrtVersion 1 1 0 \<and> has_flag fl SRT_OPT_NAKREPORT\<rparr>;
         let s = s\<lparr>ng_bPeerRexmitFlag := ng_bPeerRexmitFlag s \<or> ng_lSrtVersion s \<ge> SrtVersion 1 2 0 \<and> has_flag fl SRT_OPT_REXMITFLG\<rparr>;
         Some (SRT_CMD_NONE, handshakeDone s)
       }
     }"

subsection \<open>Flags and latencies\<close>

lemmas flag_bits = has_flag_def srt_opt_defs set_flag_def

definition latency_ok :: "int \<Rightarrow> bool" where
  "latency_ok d \<longleftrightarrow> 0 \<le> d \<and> d < 65536"

lemma latency_fits: "latency_ok d \<Longrightarrow> bits_fit 15 0 (word_of_int d) \<and> bits_fit 31 16 (word_of_int d)"
  by (auto intro!: fit_less simp: latency_ok_def uint_word_of_int)

lemma latency_fields:
  assumes "latency_ok d"
  shows "LATENCY_SND_unwrap (LATENCY_SND_wrap d) = d" "LATENCY_RCV_unwrap (LATENCY_RCV_wrap d) = d"
    "LATENCY_SND_unwrap (LATENCY_SND_wrap d OR LATENCY_RCV_wrap e) = d"
    "LATENCY_SND_unwrap (LATENCY_RCV_wrap e OR LATENCY_SND_wrap d) = d"
    "LATENCY_RCV_unwrap (LATENCY_RCV_wrap d OR LATENCY_SND_wrap e) = d"
    "LATENCY_RCV_unwrap (LATENCY_SND_wrap e OR LATENCY_RCV_wrap d) = d"
  using latency_fits [OF assms] assms
  by (simp_all add: LATENCY_SND_unwrap_def LATENCY_SND_wrap_def LATENCY_RCV_unwrap_def LATENCY_RCV_wrap_def
      unwrap_or unwrap_wrap unwrap_wrap_disjoint uint_word_of_int latency_ok_def)

text \<open>A latency that does not fit into 16 bits is cut on the wire.\<close>

lemma latency_truncated: "LATENCY_RCV_unwrap (LATENCY_RCV_wrap 70000) = 4464"
  by (simp add: LATENCY_RCV_unwrap_def LATENCY_RCV_wrap_def bits_unwrap_def bits_wrap_def BitsetMask.simps)

subsection \<open>The complete negotiation\<close>

definition neg_ready :: "CUDT_neg \<Rightarrow> bool" where
  "neg_ready s \<longleftrightarrow> latency_ok (ng_iOPT_TsbPdDelay s) \<and> latency_ok (ng_iOPT_PeerTsbPdDelay s) \<and>
     SRT_VERSION_FEAT_HSv5 \<le> ng_lSrtVersion s \<and> ng_lSrtVersion s < 4294967296"

text \<open>The exchange of HSv5: the initiator's block, its processing, the response, its processing.\<close>

definition hs_exchange :: "int \<Rightarrow> int \<Rightarrow> int \<Rightarrow> int \<Rightarrow> CUDT_neg \<Rightarrow> CUDT_neg \<Rightarrow> (CUDT_neg \<times> CUDT_neg) option" where
  "hs_exchange now1 ts1 now2 ts2 a b =
     (let (req, a) = fillSrtHandshake SRT_HS__SIZE SRT_CMD_HSREQ HS_VERSION_SRT1 a
      in do {
        (cmd, b) \<leftarrow> processSrtMsg_HSREQ now1 req (4 * length req) ts1 HS_VERSION_SRT1 b;
        if cmd \<noteq> SRT_CMD_HSRSP then None
        else do {
          let (rsp, b) = fillSrtHandshake SRT_HS__SIZE cmd HS_VERSION_SRT1 b;
          (cmd, a) \<leftarrow> processSrtMsg_HSRSP now2 rsp (4 * length rsp) ts2 HS_VERSION_SRT1 a;
          Some (a, b)
        }
      })"

lemma has_flag_HSREQ:
  "fillSrtHandshake_HSREQ SrtVersionCapabilities 0 HS_VERSION_SRT1 s = (fl, lat, s') \<Longrightarrow>
   has_flag fl SRT_OPT_TSBPDSND = ng_bOPT_TsbPd s \<and> has_flag fl SRT_OPT_TSBPDRCV = ng_bOPT_TsbPd s \<and>
   has_flag fl SRT_OPT_TLPKTDROP = (ng_bOPT_TsbPd s \<and> ng_bTLPktDrop s) \<and>
   has_flag fl SRT_OPT_NAKREPORT = ng_bRcvNakReport s \<and> has_flag fl SRT_OPT_REXMITFLG \<and>
   has_flag fl SRT_OPT_STREAM = (\<not> ng_bMessageAPI s) \<and>
   (ng_bOPT_TsbPd s \<longrightarrow> lat = LATENCY_SND_wrap (ng_iOPT_PeerTsbPdDelay s) OR LATENCY_RCV_wrap (ng_iOPT_TsbPdDelay s)) \<and>
   s' = (if ng_bOPT_TsbPd s then s\<lparr>ng_iTsbPdDelay_ms := ng_iOPT_TsbPdDelay s,
      ng_iPeerTsbPdDelay_ms := ng_iOPT_PeerTsbPdDelay s, ng_bTsbPd := True\<rparr> else s)"
  by (auto simp: fillSrtHandshake_HSREQ_def Let_def hs_version_defs SrtVersionCapabilities_def flag_bits split: if_splits)

lemma has_flag_HSRSP:
  "fillSrtHandshake_HSRSP SrtVersionCapabilities 0 HS_VERSION_SRT1 s = Some (fl, lat) \<Longrightarrow>
   SrtVersion 1 0 7 < ng_lPeerSrtVersion s \<Longrightarrow> SrtVersion 1 2 0 \<le> ng_lSrtVersion s \<Longrightarrow>
   has_flag fl SRT_OPT_TSBPDSND = ng_bPeerTsbPd s \<and> has_flag fl SRT_OPT_TSBPDRCV = ng_bTsbPd s \<and>
   has_flag fl SRT_OPT_TLPKTDROP = ng_bTLPktDrop s \<and>
   has_flag fl SRT_OPT_NAKREPORT = ng_bRcvNakReport s \<and> has_flag fl SRT_OPT_REXMITFLG = ng_bPeerRexmitFlag s \<and>
   lat = (if ng_bTsbPd s then LATENCY_RCV_wrap (ng_iTsbPdDelay_ms s) else 0) OR
      (if ng_bPeerTsbPd s then LATENCY_SND_wrap (ng_iPeerTsbPdDelay_ms s) else 0)"
  by (auto simp: fillSrtHandshake_HSRSP_def Let_def hs_version_defs SrtVersionCapabilities_def flag_bits split: if_splits)

lemma HSRSP_None: "fillSrtHandshake_HSRSP fl lat v s = None \<longleftrightarrow> ng_ullRcvPeerStartTime s = 0"
  by (simp add: fillSrtHandshake_HSRSP_def Let_def case_prod_beta)

lemma HSRSP_effect:
  assumes "SrtVersion 1 2 0 \<le> ng_lSrtVersion s"
  obtains s' where "processSrtMsg_HSRSP now [ver, fl, lat] 12 ts HS_VERSION_SRT1 s = Some (SRT_CMD_NONE, s')"
    "ng_bTsbPd s' = ng_bTsbPd s" "ng_bPeerTsbPd s' = (has_flag fl SRT_OPT_TSBPDRCV \<or> ng_bPeerTsbPd s)"
    "ng_bPeerNakReport s' = (ng_bPeerNakReport s \<or> has_flag fl SRT_OPT_NAKREPORT)"
    "ng_bPeerTLPktDrop s' = (ng_bPeerTLPktDrop s \<or> has_flag fl SRT_OPT_TLPKTDROP)"
    "ng_bPeerRexmitFlag s' = (ng_bPeerRexmitFlag s \<or> has_flag fl SRT_OPT_REXMITFLG)"
    "has_flag fl SRT_OPT_TSBPDRCV \<Longrightarrow> ng_iPeerTsbPdDelay_ms s' = LATENCY_RCV_unwrap lat"
    "has_flag fl SRT_OPT_TSBPDSND \<Longrightarrow> ng_bTsbPd s \<Longrightarrow> ng_iTsbPdDelay_ms s' = LATENCY_SND_unwrap lat"
proof -
  let ?s = "s\<lparr>ng_ullRcvPeerStartTime := u64 (now - u32 ts), ng_lPeerSrtVersion := uint ver, ng_lPeerSrtFlags := fl\<rparr>"
  define s1 where "s1 = hsrsp_latency
    (if has_flag fl SRT_OPT_TSBPDRCV \<or> has_flag fl SRT_OPT_TSBPDSND \<and> ng_bTsbPd s then lat else 0) HS_VERSION_SRT1 ?s"
  have f: "ng_lSrtVersion s1 = ng_lSrtVersion s" "ng_bTsbPd s1 = ng_bTsbPd s" "ng_bPeerNakReport s1 = ng_bPeerNakReport s"
    "ng_bPeerTLPktDrop s1 = ng_bPeerTLPktDrop s" "ng_bPeerRexmitFlag s1 = ng_bPeerRexmitFlag s"
    "ng_bPeerTsbPd s1 = (has_flag fl SRT_OPT_TSBPDRCV \<or> ng_bPeerTsbPd s)"
    "has_flag fl SRT_OPT_TSBPDRCV \<Longrightarrow> ng_iPeerTsbPdDelay_ms s1 = LATENCY_RCV_unwrap lat"
    "has_flag fl SRT_OPT_TSBPDSND \<Longrightarrow> ng_bTsbPd s \<Longrightarrow> ng_iTsbPdDelay_ms s1 = LATENCY_SND_unwrap lat"
    by (simp_all add: s1_def hsrsp_latency_def Let_def hs_version_defs)
  have "processSrtMsg_HSRSP now [ver, fl, lat] 12 ts HS_VERSION_SRT1 s = Some (SRT_CMD_NONE,
      s1\<lparr>ng_bPeerTLPktDrop := ng_bPeerTLPktDrop s \<or> has_flag fl SRT_OPT_TLPKTDROP,
         ng_bPeerNakReport := ng_bPeerNakReport s \<or> has_flag fl SRT_OPT_NAKREPORT,
         ng_bPeerRexmitFlag := ng_bPeerRexmitFlag s \<or> has_flag fl SRT_OPT_REXMITFLG, ng_iSndHsRetryCnt := 0\<rparr>)"
    (is "_ = Some (_, ?s')")
    using f(1,3,4,5) assms unfolding processSrtMsg_HSRSP_def
    by (auto simp: rdw_def hs_version_defs Let_def SrtVersion_def handshakeDone_def s1_def)
  then show ?thesis by (rule that) (simp_all add: f)
qed

text \<open>
  C9. The HSv5 negotiation of two compatible sides succeeds and leaves them in agreement: each side that
  receives with TSBPD uses the latency its peer has recorded for it, which is the larger of the
  receiver's own wish and the sender's proposal when both sides use TSBPD, and each side knows the
  peer's packet drop, NAK report and retransmission flag settings.
\<close>

theorem negotiation_agrees:
  assumes "neg_ready a" "neg_ready b"
    and "ng_lMinimumPeerSrtVersion b \<le> ng_lSrtVersion a" "ng_bMessageAPI a = ng_bMessageAPI b"
    and "u64 (now1 - u32 ts1) \<noteq> 0"
    and "a = ng_open a0" "b = ng_open b0"
  shows "\<exists>a' b'. hs_exchange now1 ts1 now2 ts2 a b = Some (a', b') \<and>
    ng_bTsbPd a' = ng_bOPT_TsbPd a \<and> ng_bTsbPd b' = ng_bOPT_TsbPd b \<and>
    ng_bPeerTsbPd a' = ng_bTsbPd b' \<and> ng_bPeerTsbPd b' = ng_bTsbPd a' \<and>
    (ng_bTsbPd b' \<longrightarrow> ng_iPeerTsbPdDelay_ms a' = ng_iTsbPdDelay_ms b' \<and>
      ng_iTsbPdDelay_ms b' = (if ng_bTsbPd a' then max (ng_iOPT_TsbPdDelay b) (ng_iOPT_PeerTsbPdDelay a) else ng_iOPT_TsbPdDelay b)) \<and>
    (ng_bTsbPd a' \<longrightarrow> ng_iPeerTsbPdDelay_ms b' = ng_iTsbPdDelay_ms a' \<and>
      ng_iTsbPdDelay_ms a' = max (ng_iOPT_TsbPdDelay a) (ng_iOPT_PeerTsbPdDelay b)) \<and>
    ng_bPeerNakReport a' = ng_bRcvNakReport b \<and> ng_bPeerNakReport b' = ng_bRcvNakReport a \<and>
    ng_bPeerRexmitFlag a' \<and> ng_bPeerRexmitFlag b' \<and>
    ng_bPeerTLPktDrop a' = ng_bTLPktDrop b \<and> ng_bPeerTLPktDrop b' = (ng_bTsbPd a' \<and> ng_bTLPktDrop a)"
proof -
  obtain fl lat a1 where fill: "fillSrtHandshake_HSREQ SrtVersionCapabilities 0 HS_VERSION_SRT1 a = (fl, lat, a1)"
    by (metis prod_cases3)
  note q = has_flag_HSREQ [OF fill]
  let ?va = "ng_lSrtVersion a"
  have va: "uint (word_of_int ?va :: 32 word) = ?va" "66304 \<le> ?va"
    using assms(1) by (auto simp: neg_ready_def SRT_VERSION_FEAT_HSv5_def)
  let ?b0 = "b\<lparr>ng_ullRcvPeerStartTime := u64 (now1 - u32 ts1), ng_iTsbPdDelay_ms := ng_iOPT_TsbPdDelay b,
      ng_iPeerTsbPdDelay_ms := ng_iOPT_PeerTsbPdDelay b, ng_lPeerSrtVersion := ?va, ng_lPeerSrtFlags := fl, ng_bPeerRexmitFlag := True\<rparr>"
  define b1 where "b1 = hsreq_latency lat HS_VERSION_SRT1 ?b0"
  have p1: "processSrtMsg_HSREQ now1 [word_of_int ?va, fl, lat] 12 ts1 HS_VERSION_SRT1 b = Some (SRT_CMD_HSRSP, b1)"
    using va q assms(3,4)
    by (simp add: processSrtMsg_HSREQ_def rdw_def hs_version_defs SRT_VERSION_FEAT_HSv5_def Let_def b1_def)
  have b1: "ng_ullRcvPeerStartTime b1 \<noteq> 0" "ng_lPeerSrtVersion b1 = ?va" "ng_lSrtVersion b1 = ng_lSrtVersion b"
    "ng_bTsbPd b1 = ng_bOPT_TsbPd b" "ng_bPeerTsbPd b1 = ng_bOPT_TsbPd a" "ng_bTLPktDrop b1 = ng_bTLPktDrop b"
    "ng_bRcvNakReport b1 = ng_bRcvNakReport b" "ng_bPeerRexmitFlag b1"
    "ng_iTsbPdDelay_ms b1 = (if ng_bOPT_TsbPd a \<and> ng_bOPT_TsbPd b then max (ng_iOPT_TsbPdDelay b) (ng_iOPT_PeerTsbPdDelay a) else ng_iOPT_TsbPdDelay b)"
    "ng_bOPT_TsbPd a \<Longrightarrow> ng_iPeerTsbPdDelay_ms b1 = max (ng_iOPT_PeerTsbPdDelay b) (ng_iOPT_TsbPdDelay a)"
    "ng_bPeerNakReport b1 = ng_bRcvNakReport a" "ng_bPeerTLPktDrop b1 = (ng_bOPT_TsbPd a \<and> ng_bTLPktDrop a)"
    using assms q latency_fields [of "ng_iOPT_TsbPdDelay a"] latency_fields [of "ng_iOPT_PeerTsbPdDelay a"]
    by (auto simp: b1_def hsreq_latency_def Let_def hs_version_defs neg_ready_def ng_open_def)
  obtain fl2 lat2 where fill2: "fillSrtHandshake_HSRSP SrtVersionCapabilities 0 HS_VERSION_SRT1 b1 = Some (fl2, lat2)"
    using b1(1) HSRSP_None [of SrtVersionCapabilities 0 HS_VERSION_SRT1 b1] by (metis not_None_eq surj_pair)
  have "66304 \<le> ng_lSrtVersion b" using assms(2) by (simp add: neg_ready_def SRT_VERSION_FEAT_HSv5_def)
  then have q2: "has_flag fl2 SRT_OPT_TSBPDSND = ng_bPeerTsbPd b1" "has_flag fl2 SRT_OPT_TSBPDRCV = ng_bTsbPd b1"
      "has_flag fl2 SRT_OPT_TLPKTDROP = ng_bTLPktDrop b1" "has_flag fl2 SRT_OPT_NAKREPORT = ng_bRcvNakReport b1"
      "has_flag fl2 SRT_OPT_REXMITFLG = ng_bPeerRexmitFlag b1"
      "lat2 = (if ng_bTsbPd b1 then LATENCY_RCV_wrap (ng_iTsbPdDelay_ms b1) else 0) OR
        (if ng_bPeerTsbPd b1 then LATENCY_SND_wrap (ng_iPeerTsbPdDelay_ms b1) else 0)"
    using has_flag_HSRSP [OF fill2] b1(2,3) va by (simp_all add: SrtVersion_def)
  let ?vb = "ng_lSrtVersion b"
  have a1: "ng_lSrtVersion a1 = ?va" "ng_bTsbPd a1 = ng_bOPT_TsbPd a" "\<not> ng_bPeerNakReport a1" "\<not> ng_bPeerTLPktDrop a1" "\<not> ng_bPeerTsbPd a1"
    "ng_bOPT_TsbPd a1 = ng_bOPT_TsbPd a" using q assms(6) by (auto simp: ng_open_def)
  have "SrtVersion 1 2 0 \<le> ng_lSrtVersion a1" using va a1(1) by (simp add: SrtVersion_def)
  from HSRSP_effect [OF this, of now2 "word_of_int ?vb" fl2 lat2 ts2] obtain a'
    where p2: "processSrtMsg_HSRSP now2 [word_of_int ?vb, fl2, lat2] 12 ts2 HS_VERSION_SRT1 a1 = Some (SRT_CMD_NONE, a')"
    and a': "ng_bTsbPd a' = ng_bTsbPd a1" "ng_bPeerTsbPd a' = (ng_bTsbPd b1 \<or> ng_bPeerTsbPd a1)"
      "ng_bPeerNakReport a' = ng_bRcvNakReport b1" "ng_bPeerTLPktDrop a' = ng_bTLPktDrop b1" "ng_bPeerRexmitFlag a'"
      "ng_bTsbPd b1 \<Longrightarrow> ng_iPeerTsbPdDelay_ms a' = LATENCY_RCV_unwrap lat2"
      "ng_bTsbPd a1 \<Longrightarrow> ng_bPeerTsbPd b1 \<Longrightarrow> ng_iTsbPdDelay_ms a' = LATENCY_SND_unwrap lat2"
    using a1(3,4) q2(1-5) b1(8) by (metis (full_types))
  have ok: "latency_ok (ng_iTsbPdDelay_ms b1)" "ng_bOPT_TsbPd a \<Longrightarrow> latency_ok (ng_iPeerTsbPdDelay_ms b1)"
    using assms(1,2) b1(9,10) by (auto simp: neg_ready_def latency_ok_def)
  have "hs_exchange now1 ts1 now2 ts2 a b = Some (a', b1)"
    using p1 p2 fill fill2 b1(3)
    by (simp add: hs_exchange_def fillSrtHandshake_def SRT_HS__SIZE_def srt_cmd_defs Let_def)
  moreover have "ng_bTsbPd a' = ng_bOPT_TsbPd a" "ng_bTsbPd b1 = ng_bOPT_TsbPd b" "ng_bPeerTsbPd a' = ng_bTsbPd b1"
    "ng_bPeerTsbPd b1 = ng_bTsbPd a'" using a1 a'(1,2) b1(4,5) by simp_all
  moreover have "ng_iPeerTsbPdDelay_ms a' = ng_iTsbPdDelay_ms b1" if "ng_bTsbPd b1"
    using a'(6) [OF that] that q2(6) latency_fields [OF ok(1)] by simp
  moreover have "ng_iTsbPdDelay_ms a' = ng_iPeerTsbPdDelay_ms b1" if "ng_bTsbPd a'"
  proof -
    from that have t: "ng_bTsbPd a1" "ng_bPeerTsbPd b1" "ng_bOPT_TsbPd a" using a1(2) a'(1) b1(5) by auto
    show ?thesis using a'(7) [OF t(1,2)] t q2(6) latency_fields [OF ok(2)] by simp
  qed
  moreover have "ng_iPeerTsbPdDelay_ms b1 = max (ng_iOPT_TsbPdDelay a) (ng_iOPT_PeerTsbPdDelay b)" if "ng_bTsbPd a'"
    using b1(10) that a1(2) a'(1) by (simp add: max.commute)
  ultimately show ?thesis
    using a'(3-5) b1(6-9,11,12) by (intro exI [of _ a'] exI [of _ b1]) simp
qed

definition neg_example :: "bool \<Rightarrow> int \<Rightarrow> int \<Rightarrow> CUDT_neg" where
  "neg_example tsbpd d p = \<lparr>ng_bOPT_TsbPd = tsbpd, ng_iOPT_TsbPdDelay = d, ng_iOPT_PeerTsbPdDelay = p, ng_bTsbPd = False,
     ng_iTsbPdDelay_ms = 0, ng_bPeerTsbPd = False, ng_iPeerTsbPdDelay_ms = 0, ng_bOPT_TLPktDrop = True, ng_bTLPktDrop = False,
     ng_bPeerTLPktDrop = False, ng_bRcvNakReport = True, ng_bPeerNakReport = False, ng_bPeerRexmitFlag = False,
     ng_bMessageAPI = True, ng_lSrtVersion = 0x010401, ng_lMinimumPeerSrtVersion = 0x010000, ng_lPeerSrtVersion = 0,
     ng_lPeerSrtFlags = 0, ng_ullRcvPeerStartTime = 0, ng_iSndHsRetryCnt = 0, ng_RejectReason = SRT_REJ_UNKNOWN\<rparr>"

lemma negotiation_agrees_witness:
  "\<exists>a' b'. hs_exchange 1000 10 2000 20 (ng_open (neg_example True 120 300)) (ng_open (neg_example True 200 0)) = Some (a', b') \<and>
    ng_iTsbPdDelay_ms a' = 120 \<and> ng_iPeerTsbPdDelay_ms b' = 120 \<and> ng_iTsbPdDelay_ms b' = 300 \<and> ng_iPeerTsbPdDelay_ms a' = 300"
proof -
  have r: "neg_ready (ng_open (neg_example True 120 300))" "neg_ready (ng_open (neg_example True 200 0))"
    by (simp_all add: neg_ready_def neg_example_def ng_open_def latency_ok_def SRT_VERSION_FEAT_HSv5_def)
  have f: "ng_lMinimumPeerSrtVersion (ng_open (neg_example True 200 0)) \<le> ng_lSrtVersion (ng_open (neg_example True 120 300))"
    "ng_bMessageAPI (ng_open (neg_example True 120 300)) = ng_bMessageAPI (ng_open (neg_example True 200 0))"
    "u64 (1000 - u32 10) \<noteq> 0" by (simp_all add: ng_open_def neg_example_def)
  show ?thesis
    using negotiation_agrees [OF r f refl refl, of 2000 20] by (auto simp: ng_open_def neg_example_def)
qed

text \<open>
  C33. The responder refuses an HSREQ exactly when the version is below 1.3.0 or below the minimum it
  requires, or when the two sides use different APIs, with the matching reason; a refusal does not
  touch what was known of the peer's settings. A block of the minimal size of eight bytes, which the
  length check lets pass, is read beyond its end as soon as it is acceptable.
\<close>

theorem hsreq_refusal:
  fixes ver fl lat :: "32 word"
  shows "\<exists>cmd s'. processSrtMsg_HSREQ now [ver, fl, lat] 12 ts HS_VERSION_SRT1 s = Some (cmd, s') \<and>
    (if uint ver < SRT_VERSION_FEAT_HSv5 then cmd = SRT_CMD_REJECT \<and> ng_RejectReason s' = SRT_REJ_ROGUE
     else if uint ver < ng_lMinimumPeerSrtVersion s then cmd = SRT_CMD_REJECT \<and> ng_RejectReason s' = SRT_REJ_VERSION
     else if has_flag fl SRT_OPT_STREAM = ng_bMessageAPI s then cmd = SRT_CMD_REJECT \<and> ng_RejectReason s' = SRT_REJ_MESSAGEAPI
     else cmd = SRT_CMD_HSRSP \<and> ng_RejectReason s' = ng_RejectReason s) \<and>
    (cmd = SRT_CMD_REJECT \<longrightarrow> ng_bPeerTsbPd s' = ng_bPeerTsbPd s \<and> ng_bPeerNakReport s' = ng_bPeerNakReport s \<and>
       processSrtMsg_HSREQ now [ver, fl] 8 ts HS_VERSION_SRT1 s = Some (cmd, s')) \<and>
    (cmd = SRT_CMD_HSRSP \<longrightarrow> processSrtMsg_HSREQ now [ver, fl] 8 ts HS_VERSION_SRT1 s = None)"
proof -
  have l: "ng_RejectReason (hsreq_latency lat v t) = ng_RejectReason t" for v t
    by (simp add: hsreq_latency_def Let_def)
  consider "uint ver < SRT_VERSION_FEAT_HSv5" | "uint ver \<ge> SRT_VERSION_FEAT_HSv5" "uint ver < ng_lMinimumPeerSrtVersion s"
    | "uint ver \<ge> SRT_VERSION_FEAT_HSv5" "uint ver \<ge> ng_lMinimumPeerSrtVersion s" by linarith
  then show ?thesis
    by cases (auto simp: processSrtMsg_HSREQ_def rdw_def hs_version_defs srt_cmd_defs Let_def l)
qed

lemma hsreq_refusal_witness:
  "processSrtMsg_HSREQ 1000 [0x010401, 0, 0] 12 0 HS_VERSION_SRT1 (neg_example True 1 1) \<noteq> None \<and>
   processSrtMsg_HSREQ 1000 [0x010401, 0] 8 0 HS_VERSION_SRT1 (neg_example True 1 1) = None"
proof -
  have "\<not> has_flag 0 SRT_OPT_STREAM" by (simp add: has_flag_def SRT_OPT_STREAM_def)
  then show ?thesis
    using hsreq_refusal [of 1000 "0x010401" 0 0 0 "neg_example True 1 1"]
    by (auto simp: neg_example_def SRT_VERSION_FEAT_HSv5_def srt_cmd_defs)
qed

end
