(* ===== verification/Rendezvous.thy ===== *)
theory Rendezvous
  imports Handshake Packet Negotiation
begin

text \<open>
  Connection setup in rendezvous mode (\<open>core.cpp\<close>, HSv5): the cookie contest that assigns the roles,
  the state machine \<open>rendezvousSwitchState\<close>, the handlers around it (\<open>processConnectResponse\<close>,
  \<open>processRendezvous\<close>, \<open>postConnect\<close>, \<open>processAsyncConnectRequest\<close>) and the protocol of two parties
  that exchange handshakes over a network. The results of the parts outside this component
  (preparing the buffers, interpreting the extension blocks, congestion control setup, the socket
  registry) are the fields of an environment record.
\<close>

subsection \<open>States, roles, results\<close>

datatype RendezvousState =
  RDV_INVALID | RDV_WAVING | RDV_ATTENTION | RDV_FINE | RDV_INITIATED | RDV_CONNECTED

datatype HandshakeSide = HSD_DRAW | HSD_INITIATOR | HSD_RESPONDER

datatype EReadStatus = RST_OK | RST_AGAIN | RST_ERROR

datatype EConnectStatus =
  CONN_ACCEPT | CONN_REJECT | CONN_CONTINUE | CONN_RENDEZVOUS | CONN_CONFUSED | CONN_RUNNING | CONN_AGAIN

fun RdvStateStr :: "RendezvousState \<Rightarrow> string" where
  "RdvStateStr RDV_WAVING = ''waving''"
| "RdvStateStr RDV_ATTENTION = ''attention''"
| "RdvStateStr RDV_FINE = ''fine''"
| "RdvStateStr RDV_INITIATED = ''initiated''"
| "RdvStateStr RDV_CONNECTED = ''connected''"
| "RdvStateStr RDV_INVALID = ''invalid''"

subsection \<open>The cookie contest\<close>

definition cookieContest :: "int \<Rightarrow> int \<Rightarrow> HandshakeSide \<Rightarrow> HandshakeSide" where
  "cookieContest reqcookie rescookie side =
     (if side \<noteq> HSD_DRAW then side
      else if reqcookie = 0 \<or> rescookie = 0 then side
      else
        (let better_cookie = i32 (reqcookie - rescookie)
         in if better_cookie > 0 then HSD_INITIATOR
            else if better_cookie < 0 then HSD_RESPONDER
            else HSD_DRAW))"

lemma i32_shift: "i32 (x + 4294967296) = i32 x" "i32 (x - 4294967296) = i32 x"
proof -
  show *: "i32 (x + 4294967296) = i32 x" for x
    unfolding i32_def using mod_add_self2 [of "x + 2147483648" 4294967296] by (simp only: ac_simps)
  show "i32 (x - 4294967296) = i32 x" using * [of "x - 4294967296"] by simp
qed

text \<open>
  The two parties of a rendezvous contest their cookies to opposite roles, whatever the cookies
  are, unless a cookie is missing or both are equal (then both stay undecided); only for cookies
  that differ by exactly \<open>2^31\<close> the 32-bit subtraction makes both parties the responder. A role once
  taken is kept.
\<close>

theorem cookie_contest_roles:
  assumes "is_i32 x" "is_i32 y"
  shows "(let a = cookieContest x y HSD_DRAW; b = cookieContest y x HSD_DRAW
     in if x = 0 \<or> y = 0 \<or> x = y then a = HSD_DRAW \<and> b = HSD_DRAW
        else if \<bar>x - y\<bar> = 2147483648 then a = HSD_RESPONDER \<and> b = HSD_RESPONDER
        else a = HSD_INITIATOR \<and> b = HSD_RESPONDER \<or> a = HSD_RESPONDER \<and> b = HSD_INITIATOR) \<and>
    (side \<noteq> HSD_DRAW \<longrightarrow> cookieContest x y side = side)"
proof -
  have b: "- 2147483648 \<le> x" "x < 2147483648" "- 2147483648 \<le> y" "y < 2147483648" using assms by (simp_all add: is_i32_def)
  consider (lo) "x - y < - 2147483648" | (mid) "- 2147483648 \<le> x - y" "x - y < 2147483648" "- 2147483648 \<le> y - x" "y - x < 2147483648"
    | (hi) "2147483648 \<le> x - y" | (eq) "x - y = - 2147483648" by linarith
  then have "(let a = cookieContest x y HSD_DRAW; b = cookieContest y x HSD_DRAW
     in if x = 0 \<or> y = 0 \<or> x = y then a = HSD_DRAW \<and> b = HSD_DRAW
        else if \<bar>x - y\<bar> = 2147483648 then a = HSD_RESPONDER \<and> b = HSD_RESPONDER
        else a = HSD_INITIATOR \<and> b = HSD_RESPONDER \<or> a = HSD_RESPONDER \<and> b = HSD_INITIATOR)"
  proof cases
    case lo
    then have "i32 (x - y) = x - y + 4294967296" "i32 (y - x) = y - x - 4294967296"
      using b i32_shift [of "x - y"] i32_shift [of "y - x"] i32_id [of "x - y + 4294967296"] i32_id [of "y - x - 4294967296"] by linarith+
    then show ?thesis using lo b by (simp add: cookieContest_def Let_def)
  next
    case hi
    have m: "i32 2147483648 = - 2147483648" by (simp add: i32_def)
    from hi have "i32 (x - y) = x - y - 4294967296"
      using b i32_shift [of "x - y"] i32_id [of "x - y - 4294967296"] by linarith
    moreover have "i32 (y - x) = (if x - y = 2147483648 then y - x else y - x + 4294967296)"
      using hi b i32_shift [of "y - x"] i32_id [of "y - x + 4294967296"] i32_id [of "y - x"] by simp
    ultimately show ?thesis using hi b m by (auto simp: cookieContest_def Let_def)
  next
    case eq
    then have "i32 (x - y) = x - y" "i32 (y - x) = y - x - 4294967296"
      using b i32_shift [of "y - x"] i32_id [of "y - x - 4294967296"] i32_id [of "x - y"] by linarith+
    then show ?thesis using eq b by (simp add: cookieContest_def Let_def)
  qed (simp add: cookieContest_def Let_def)
  then show ?thesis by (simp add: cookieContest_def)
qed

lemma cookie_contest_roles_witness:
  "cookieContest 7 (- 2) HSD_DRAW = HSD_INITIATOR \<and> cookieContest (- 2) 7 HSD_DRAW = HSD_RESPONDER \<and>
   cookieContest 1073741824 (- 1073741824) HSD_DRAW = HSD_RESPONDER \<and>
   cookieContest (- 1073741824) 1073741824 HSD_DRAW = HSD_RESPONDER"
  using cookie_contest_roles [of 7 "- 2" HSD_DRAW] cookie_contest_roles [of 1073741824 "- 1073741824" HSD_DRAW]
  by (simp add: is_i32_def Let_def cookieContest_def)

subsection \<open>The state machine\<close>

text \<open>
  The result: the new state, the request type to answer with (the initial value of the caller's
  variable in state \<open>RDV_INVALID\<close>), and whether the answer needs an extension, and the HSRSP.
  \<open>hs_flags\<close> is the low half of the received type field.
\<close>

definition rdv_rogue :: "RendezvousState \<times> int \<times> bool \<times> bool" where
  "rdv_rogue = (RDV_WAVING, URQFailure SRT_REJ_ROGUE, False, False)"

definition rdv_from_waving :: "HandshakeSide \<Rightarrow> int \<Rightarrow> RendezvousState \<times> int \<times> bool \<times> bool" where
  "rdv_from_waving hsd req =
     (if req = URQ_WAVEAHAND then (RDV_ATTENTION, URQ_CONCLUSION, hsd = HSD_INITIATOR, False)
      else if req = URQ_CONCLUSION then (RDV_FINE, URQ_CONCLUSION, True, hsd = HSD_RESPONDER)
      else rdv_rogue)"

definition rdv_from_attention :: "HandshakeSide \<Rightarrow> int \<Rightarrow> 32 word \<Rightarrow> RendezvousState \<times> int \<times> bool \<times> bool" where
  "rdv_from_attention hsd req hs_flags =
     (if req = URQ_WAVEAHAND then (RDV_ATTENTION, URQ_CONCLUSION, hsd = HSD_INITIATOR, False)
      else if req = URQ_CONCLUSION then
        (if hsd = HSD_INITIATOR then
           (if hs_flags = 0 then (RDV_ATTENTION, URQ_CONCLUSION, True, False)
            else (RDV_CONNECTED, URQ_AGREEMENT, False, False))
         else if hsd = HSD_RESPONDER then
           (if hs_flags = 0 then (RDV_ATTENTION, URQ_CONCLUSION, False, False)
            else (RDV_INITIATED, URQ_CONCLUSION, True, True))
         else (RDV_INVALID, URQFailure SRT_REJ_RDVCOOKIE, False, False))
      else if req = URQ_AGREEMENT \<and> hsd = HSD_INITIATOR then (RDV_CONNECTED, URQ_DONE, False, False)
      else if req = URQ_AGREEMENT \<and> hsd = HSD_RESPONDER then (RDV_ATTENTION, URQ_CONCLUSION, True, True)
      else rdv_rogue)"

definition rdv_from_fine :: "HandshakeSide \<Rightarrow> int \<Rightarrow> bool \<Rightarrow> RendezvousState \<times> int \<times> bool \<times> bool" where
  "rdv_from_fine hsd req has_extension =
     (if req = URQ_CONCLUSION then
        (if hsd = HSD_INITIATOR \<and> \<not> has_extension \<or> hsd = HSD_RESPONDER
         then (RDV_FINE, URQ_CONCLUSION, True, hsd = HSD_RESPONDER)
         else (RDV_CONNECTED, URQ_AGREEMENT, False, False))
      else if req = URQ_AGREEMENT then (RDV_CONNECTED, URQ_DONE, False, False)
      else rdv_rogue)"

definition rdv_from_initiated :: "int \<Rightarrow> RendezvousState \<times> int \<times> bool \<times> bool" where
  "rdv_from_initiated req =
     (if req = URQ_AGREEMENT then (RDV_CONNECTED, URQ_DONE, False, False)
      else if req = URQ_CONCLUSION then (RDV_INITIATED, URQ_CONCLUSION, True, True)
      else rdv_rogue)"

definition rendezvousSwitchState ::
    "HandshakeSide \<Rightarrow> int \<Rightarrow> 32 word \<Rightarrow> int \<Rightarrow> RendezvousState \<Rightarrow> RendezvousState \<times> int \<times> bool \<times> bool" where
  "rendezvousSwitchState hsd req hs_flags rsptype st =
     (let has_extension = (hs_flags \<noteq> 0)
      in case st of
        RDV_INVALID \<Rightarrow> (RDV_INVALID, rsptype, False, False)
      | RDV_WAVING \<Rightarrow> rdv_from_waving hsd req
      | RDV_ATTENTION \<Rightarrow> rdv_from_attention hsd req hs_flags
      | RDV_FINE \<Rightarrow> rdv_from_fine hsd req has_extension
      | RDV_INITIATED \<Rightarrow> rdv_from_initiated req
      | RDV_CONNECTED \<Rightarrow> (RDV_CONNECTED, URQ_DONE, False, False))"

lemmas rdv_switch_defs = rendezvousSwitchState_def rdv_from_waving_def rdv_from_attention_def
  rdv_from_fine_def rdv_from_initiated_def

lemma responder_extension:
  "rendezvousSwitchState HSD_RESPONDER req fl r0 st = (st', rsp, True, hsrsp) \<Longrightarrow> hsrsp"
  by (auto simp: rdv_switch_defs rdv_rogue_def Let_def split: RendezvousState.splits if_splits)

subsection \<open>The connection part of a socket\<close>

record CUDT_conn =
  cn_ConnReq :: CHandShake
  cn_ConnRes :: CHandShake
  cn_RdvState :: RendezvousState
  cn_SrtHsSide :: HandshakeSide
  cn_RejectReason :: SRT_REJECT_REASON
  cn_bRendezvous :: bool
  cn_bConnecting :: bool
  cn_bConnected :: bool
  cn_bDataSender :: bool
  cn_llLastReqTime :: int
  cn_iSndCryptoKeyLen :: int
  cn_CryptoSecret_len :: nat
  cn_sStreamName :: string
  cn_OPT_PktFilterConfigString :: string
  cn_sPeerPktFilterConfigString :: string
  cn_CongCtl_name :: string
  cn_lPeerSrtFlags :: "32 word"
  cn_ullRcvPeerStartTime :: int
  cn_iMSS :: int
  cn_iFlowWindowSize :: int
  cn_iMaxSRTPayloadSize :: int
  cn_iPeerISN :: int
  cn_iRcvLastAck :: int
  cn_iRcvLastSkipAck :: int
  cn_iRcvLastAckAck :: int
  cn_iRcvCurrSeqNo :: int
  cn_iRcvCurrPhySeqNo :: int
  cn_PeerID :: int
  cn_piSelfIP :: "int list"
  cn_iRTT :: int
  cn_iBandwidth :: int

text \<open>The results of the calls that lead out of this component.\<close>

record conn_env =
  ev_now :: int
  ev_prepareConnectionObjects :: "SRT_REJECT_REASON option"
  ev_createCrypter :: bool
  ev_interpretSrtHandshake :: "SRT_REJECT_REASON option"
  ev_kmdatasize :: nat
  ev_getKmMsg_size :: nat
  ev_RcvKmState_failed :: bool
  ev_attachBlocks :: "SRT_REJECT_REASON option"
  ev_cache :: "(int \<times> int) option"
  ev_setupCC :: SRT_REJECT_REASON
  ev_located :: bool

record conn_response =
  rs_isControl :: bool
  rs_type :: UDTMessageType
  rs_data :: "32 word list"
  rs_length :: nat

definition no_length :: nat where
  "no_length = 18446744073709551615"

definition UDT_UNDEFINED :: int where "UDT_UNDEFINED = 0"
definition UDT_DGRAM :: int where "UDT_DGRAM = 2"

definition hs_flags_of :: "CHandShake \<Rightarrow> 32 word" where
  "hs_flags_of hs = SRT_HSTYPE_HSFLAGS_unwrap (word_of_int (hs_iType hs))"

definition checkUpdateCryptoKeyLen :: "int \<Rightarrow> CUDT_conn \<Rightarrow> CUDT_conn" where
  "checkUpdateCryptoKeyLen typefield s =
     (let enc_flags = uint (SRT_HSTYPE_ENCFLAGS_unwrap (word_of_int typefield))
      in if enc_flags \<ge> 2 \<and> enc_flags \<le> 4 then
           (let rcv_pbkeylen = uint (bits_wrap 5 3 (word_of_int enc_flags))
            in if cn_iSndCryptoKeyLen s = 0 then s\<lparr>cn_iSndCryptoKeyLen := rcv_pbkeylen\<rparr>
               else if cn_iSndCryptoKeyLen s \<noteq> rcv_pbkeylen \<and> \<not> cn_bDataSender s
               then s\<lparr>cn_iSndCryptoKeyLen := rcv_pbkeylen\<rparr>
               else s)
         else s)"

definition UDP_HDR_SIZE :: int where "UDP_HDR_SIZE = 28"
definition HDR_SIZE :: int where "HDR_SIZE = 16"

definition applyResponseSettings :: "CUDT_conn \<Rightarrow> CUDT_conn" where
  "applyResponseSettings s =
     (let res = cn_ConnRes s; udpsize = i32 (hs_iMSS res - UDP_HDR_SIZE)
      in s\<lparr>cn_iMSS := hs_iMSS res, cn_iFlowWindowSize := hs_iFlightFlagSize res,
           cn_iMaxSRTPayloadSize := i32 (udpsize - HDR_SIZE), cn_iPeerISN := hs_iISN res,
           cn_iRcvLastAck := hs_iISN res, cn_iRcvLastSkipAck := hs_iISN res, cn_iRcvLastAckAck := hs_iISN res,
           cn_iRcvCurrSeqNo := i32 (hs_iISN res - 1), cn_iRcvCurrPhySeqNo := i32 (hs_iISN res - 1),
           cn_PeerID := hs_iID res, cn_piSelfIP := hs_piPeerIP res\<rparr>)"

text \<open>The type field written by \<open>createSrtHandshake\<close>, and its decision to attach extensions.\<close>

definition hs_ext_type :: "int \<Rightarrow> nat \<Rightarrow> CUDT_conn \<Rightarrow> 32 word" where
  "hs_ext_type srths_cmd kmdata_wordsize s =
     (let fl = wrapFlags False (word_of_int (cn_iSndCryptoKeyLen s));
          fl = fl OR HS_EXT_HSREQ;
          fl = set_flag (srths_cmd = SRT_CMD_HSREQ \<and> cn_sStreamName s \<noteq> []) HS_EXT_CONFIG fl;
          peer_filter_capable =
            (if srths_cmd = SRT_CMD_HSRSP
             then cn_sPeerPktFilterConfigString s \<noteq> [] \<or> has_flag (cn_lPeerSrtFlags s) SRT_OPT_FILTERCAP else True);
          fl = set_flag (peer_filter_capable \<and> cn_OPT_PktFilterConfigString s \<noteq> []) HS_EXT_CONFIG fl;
          fl = set_flag (cn_CongCtl_name s \<noteq> [] \<and> cn_CongCtl_name s \<noteq> ''live'') HS_EXT_CONFIG fl
      in set_flag (cn_CryptoSecret_len s > 0 \<or> kmdata_wordsize > 0) HS_EXT_KMREQ fl)"

definition createSrtHandshake :: "conn_env \<Rightarrow> int \<Rightarrow> nat \<Rightarrow> CUDT_conn \<Rightarrow> CUDT_conn \<times> bool" where
  "createSrtHandshake ev srths_cmd kmdata_wordsize s =
     (let hs = cn_ConnReq s;
          hs = (if hs_iVersion (cn_ConnRes s) = HS_VERSION_UDT4
                then hs\<lparr>hs_iVersion := HS_VERSION_UDT4, hs_iType := UDT_DGRAM, hs_extension := False\<rparr>
                else hs\<lparr>hs_iType := 0\<rparr>);
          hs = (if hs_iVersion hs > HS_VERSION_UDT4
                then hs\<lparr>hs_extension := hs_extension hs \<and>
                         \<not> (hs_iReqType hs = URQ_CONCLUSION \<and> srths_cmd = SRT_CMD_HSRSP \<and> cn_ullRcvPeerStartTime s = 0),
                       hs_iType := sint (wrapFlags False (word_of_int (cn_iSndCryptoKeyLen s)))\<rparr>
                else hs\<lparr>hs_iType := UDT_DGRAM\<rparr>);
          s = s\<lparr>cn_ConnReq := hs\<rparr>
      in if \<not> hs_extension hs then (s, True)
         else if srths_cmd = SRT_CMD_HSREQ \<and> cn_SrtHsSide s = HSD_RESPONDER
         then (s\<lparr>cn_RejectReason := SRT_REJ_IPE\<rparr>, False)
         else
           (let s = s\<lparr>cn_ConnReq := hs\<lparr>hs_iType := sint (hs_ext_type srths_cmd kmdata_wordsize s)\<rparr>\<rparr>
            in case ev_attachBlocks ev of None \<Rightarrow> (s, True) | Some r \<Rightarrow> (s\<lparr>cn_RejectReason := r\<rparr>, False)))"

definition postConnect :: "conn_env \<Rightarrow> conn_response \<Rightarrow> bool \<Rightarrow> CUDT_conn \<Rightarrow> EConnectStatus \<times> CUDT_conn" where
  "postConnect ev response rendezvous s =
     (let s = (if hs_iVersion (cn_ConnRes s) < HS_VERSION_SRT1 then s\<lparr>cn_ullRcvPeerStartTime := 0\<rparr> else s);
          s = (if rendezvous then s else applyResponseSettings s);
          refused = (if rendezvous then None
             else case ev_prepareConnectionObjects ev of Some r \<Rightarrow> Some r
                  | None \<Rightarrow> if rs_isControl response then ev_interpretSrtHandshake ev else None)
      in case refused of Some r \<Rightarrow> (CONN_REJECT, s\<lparr>cn_RejectReason := r\<rparr>)
         | None \<Rightarrow>
           (let s = (case ev_cache ev of Some (rtt, bw) \<Rightarrow> s\<lparr>cn_iRTT := rtt, cn_iBandwidth := bw\<rparr> | None \<Rightarrow> s)
            in if ev_setupCC ev \<noteq> SRT_REJ_UNKNOWN then (CONN_REJECT, s\<lparr>cn_RejectReason := ev_setupCC ev\<rparr>)
               else
                 (let s = s\<lparr>cn_bConnecting := False, cn_bConnected := True\<rparr>
                  in if \<not> ev_located ev then (CONN_REJECT, s\<lparr>cn_RejectReason := SRT_REJ_CLOSE\<rparr>)
                     else (CONN_ACCEPT, s))))"

subsection \<open>The handlers\<close>

text \<open>The KM data of the response to a repeated request: their size in words, or an internal error.\<close>

definition rdv_periodic_km :: "conn_env \<Rightarrow> CUDT_conn \<Rightarrow> nat option" where
  "rdv_periodic_km ev s =
     (if has_flag (hs_flags_of (cn_ConnRes s)) HS_EXT_KMREQ then
        (let msgsize = ev_getKmMsg_size ev
         in if msgsize = 0 then (if ev_RcvKmState_failed ev then Some 1 else None)
            else Some (if msgsize > msgsize div 4 * 4 then msgsize div 4 + 1 else msgsize div 4))
      else Some 0)"

text \<open>Case 2 of the handler: interpreting HSREQ and answering with HSRSP.\<close>

definition rdv_respond_hsrsp :: "conn_env \<Rightarrow> EReadStatus \<Rightarrow> conn_response \<Rightarrow> CUDT_conn \<Rightarrow> EConnectStatus \<times> CUDT_conn" where
  "rdv_respond_hsrsp ev rst response s =
     (let respond = (\<lambda>kmdatasize s.
            (let s = s\<lparr>cn_ConnReq := (cn_ConnReq s)\<lparr>hs_extension := True\<rparr>\<rparr>;
                 (s, ok) = createSrtHandshake ev SRT_CMD_HSRSP kmdatasize s
             in if ok then (CONN_CONTINUE, s) else (CONN_REJECT, s\<lparr>cn_llLastReqTime := 0\<rparr>)))
      in if rst = RST_OK then
           (let s = s\<lparr>cn_llLastReqTime := 0\<rparr>
            in if rs_length response = no_length then (CONN_REJECT, s\<lparr>cn_RejectReason := SRT_REJ_IPE\<rparr>)
               else case ev_interpretSrtHandshake ev of
                 Some r \<Rightarrow> (CONN_REJECT, s\<lparr>cn_RejectReason := r\<rparr>)
               | None \<Rightarrow> respond (ev_kmdatasize ev) s)
         else case rdv_periodic_km ev s of
             None \<Rightarrow> (CONN_REJECT, s\<lparr>cn_RejectReason := SRT_REJ_IPE\<rparr>)
           | Some km \<Rightarrow> respond km s)"

text \<open>The remainder of the handler; the third component is the handshake that is sent at once.\<close>

definition rdv_finish :: "conn_env \<Rightarrow> EReadStatus \<Rightarrow> conn_response \<Rightarrow> int \<Rightarrow> bool \<Rightarrow> CUDT_conn \<Rightarrow>
    EConnectStatus \<times> CUDT_conn \<times> CHandShake option" where
  "rdv_finish ev rst response rsp_type needs_extension s =
     (let s = (if cn_SrtHsSide s = HSD_INITIATOR \<and> hs_iReqType (cn_ConnReq s) = URQ_AGREEMENT \<and>
                  rst = RST_OK \<and> rs_length response \<noteq> no_length
               then (case ev_interpretSrtHandshake ev of None \<Rightarrow> s
                     | Some r \<Rightarrow> s\<lparr>cn_RejectReason := r, cn_ConnReq := (cn_ConnReq s)\<lparr>hs_iReqType := URQFailure r\<rparr>\<rparr>)
               else s);
          s = s\<lparr>cn_ConnReq := (cn_ConnReq s)\<lparr>hs_extension := needs_extension\<rparr>\<rparr>;
          (cst, s) = (if cn_RdvState s = RDV_CONNECTED then postConnect ev response True s else (CONN_ACCEPT, s))
      in if cst = CONN_REJECT then (CONN_REJECT, s, None)
         else if rsp_type = URQ_DONE then (CONN_ACCEPT, s, None)
         else
           (let (s, ok) = createSrtHandshake ev SRT_CMD_HSREQ 0 s
            in if \<not> ok then (CONN_REJECT, s\<lparr>cn_llLastReqTime := 0\<rparr>, None)
               else if rsp_type = URQ_AGREEMENT \<and> cn_RdvState s = RDV_CONNECTED
               then (CONN_ACCEPT, s\<lparr>cn_llLastReqTime := ev_now ev\<rparr>, Some (cn_ConnReq s))
               else (CONN_CONTINUE, if rst = RST_OK then s\<lparr>cn_llLastReqTime := 0\<rparr> else s, None)))"

definition processRendezvous :: "conn_env \<Rightarrow> EReadStatus \<Rightarrow> conn_response \<Rightarrow> CUDT_conn \<Rightarrow>
    EConnectStatus \<times> CUDT_conn \<times> CHandShake option" where
  "processRendezvous ev rst response s =
     (if cn_RdvState s = RDV_CONNECTED then (CONN_ACCEPT, s, None)
      else
        (let s = s\<lparr>cn_SrtHsSide := cookieContest (hs_iCookie (cn_ConnReq s)) (hs_iCookie (cn_ConnRes s)) (cn_SrtHsSide s)\<rparr>
         in if cn_SrtHsSide s = HSD_DRAW then (CONN_REJECT, s\<lparr>cn_RejectReason := SRT_REJ_RDVCOOKIE\<rparr>, None)
            else
              (let (st, rsp_type, needs_extension, needs_hsrsp) =
                 rendezvousSwitchState (cn_SrtHsSide s) (hs_iReqType (cn_ConnRes s)) (hs_flags_of (cn_ConnRes s))
                   URQ_FAILURE_TYPES (cn_RdvState s);
                   s = s\<lparr>cn_RdvState := st\<rparr>
               in if rsp_type > URQ_FAILURE_TYPES
                  then (CONN_REJECT, s\<lparr>cn_RejectReason := RejectReasonForURQ rsp_type\<rparr>, None)
                  else
                    (let s = checkUpdateCryptoKeyLen (hs_iType (cn_ConnRes s)) s;
                         s = s\<lparr>cn_ConnReq := (cn_ConnReq s)\<lparr>hs_iReqType := rsp_type, hs_extension := needs_extension\<rparr>\<rparr>;
                         s = applyResponseSettings s
                     in case ev_prepareConnectionObjects ev of
                          Some r \<Rightarrow> (CONN_REJECT, s\<lparr>cn_RejectReason := r\<rparr>, None)
                        | None \<Rightarrow>
                            if needs_hsrsp then (let (cst, s) = rdv_respond_hsrsp ev rst response s in (cst, s, None))
                            else rdv_finish ev rst response rsp_type needs_extension s))))"

definition ETH_MAX_MTU_SIZE :: int where
  "ETH_MAX_MTU_SIZE = 1500"

definition connect_handshake :: "conn_env \<Rightarrow> conn_response \<Rightarrow> CUDT_conn \<Rightarrow> EConnectStatus \<times> CUDT_conn" where
  "connect_handshake ev response s =
     (let res = cn_ConnRes s
      in if cn_bRendezvous s then
        (if hs_iReqType res = URQ_INDUCTION then (CONN_REJECT, s\<lparr>cn_RejectReason := SRT_REJ_ROGUE\<rparr>)
         else if hs_iVersion res > HS_VERSION_UDT4 then (CONN_RENDEZVOUS, s)
         else if hs_iReqType (cn_ConnReq s) = URQ_WAVEAHAND \<or> hs_iReqType res = URQ_WAVEAHAND then
           (if \<not> ev_createCrypter ev
            then (CONN_REJECT, s\<lparr>cn_RejectReason := SRT_REJ_RESOURCE, cn_llLastReqTime := 0,
                    cn_ConnReq := (cn_ConnReq s)\<lparr>hs_iReqType := URQFailure SRT_REJ_RESOURCE\<rparr>\<rparr>)
            else (CONN_CONTINUE, s\<lparr>cn_llLastReqTime := 0,
                    cn_ConnReq := (cn_ConnReq s)\<lparr>hs_iReqType := URQ_CONCLUSION\<rparr>\<rparr>))
         else postConnect ev response False s)
      else if hs_iReqType res = URQ_INDUCTION then
        (let s = s\<lparr>cn_ConnReq := (cn_ConnReq s)\<lparr>hs_iCookie := hs_iCookie res, hs_iReqType := URQ_CONCLUSION\<rparr>\<rparr>;
             s = (if hs_iVersion res > HS_VERSION_UDT4
                  then (let s = checkUpdateCryptoKeyLen (hs_iType res) s
                        in s\<lparr>cn_ConnReq := (cn_ConnReq s)\<lparr>hs_iVersion := HS_VERSION_SRT1, hs_iType := 0,
                               hs_extension := True\<rparr>\<rparr>)
                  else s);
             s = s\<lparr>cn_llLastReqTime := 0\<rparr>
         in if \<not> ev_createCrypter ev then (CONN_REJECT, s\<lparr>cn_RejectReason := SRT_REJ_RESOURCE\<rparr>)
            else (CONN_CONTINUE, s))
      else postConnect ev response False s)"

definition processConnectResponse :: "conn_env \<Rightarrow> conn_response \<Rightarrow> CUDT_conn \<Rightarrow> EConnectStatus \<times> CUDT_conn" where
  "processConnectResponse ev response s =
     (if \<not> cn_bConnecting s then (CONN_REJECT, s)
      else
        (let hsv5 = (hs_iVersion (cn_ConnRes s) \<ge> HS_VERSION_SRT1)
         in if cn_bRendezvous s \<and>
               (cn_RdvState s = RDV_CONNECTED \<or> \<not> rs_isControl response \<or> rs_type response = UMSG_KEEPALIVE \<or>
                rs_type response = UMSG_EXT) \<and>
               (hsv5 \<or> hs_iType (cn_ConnRes s) \<noteq> UDT_UNDEFINED)
            then postConnect ev response hsv5 (if hsv5 then s\<lparr>cn_RdvState := RDV_CONNECTED\<rparr> else s)
            else if \<not> (rs_isControl response \<and> rs_type response = UMSG_HANDSHAKE)
            then (CONN_CONFUSED, s\<lparr>cn_RejectReason := SRT_REJ_ROGUE\<rparr>)
            else
              (let (res, ret) = load_from (cn_ConnRes s) (rs_data response) (rs_length response);
                   s = s\<lparr>cn_ConnRes := res\<rparr>
               in if ret = - 1 then (CONN_REJECT, s\<lparr>cn_RejectReason := SRT_REJ_ROGUE\<rparr>)
                  else if hs_iReqType res > URQ_FAILURE_TYPES
                  then (CONN_REJECT, s\<lparr>cn_RejectReason := RejectReasonForURQ (hs_iReqType res)\<rparr>)
                  else if u64 (hs_iMSS res) > ETH_MAX_MTU_SIZE
                  then (CONN_REJECT, s\<lparr>cn_RejectReason := SRT_REJ_ROGUE\<rparr>)
                  else connect_handshake ev response s)))"

text \<open>The result, the state, and the handshakes sent.\<close>

definition processAsyncConnectRequest :: "conn_env \<Rightarrow> EReadStatus \<Rightarrow> EConnectStatus \<Rightarrow> conn_response \<Rightarrow> CUDT_conn \<Rightarrow>
    bool \<times> CUDT_conn \<times> CHandShake list" where
  "processAsyncConnectRequest ev rst cst response s =
     (let s = s\<lparr>cn_llLastReqTime := ev_now ev\<rparr>
      in if cst = CONN_RENDEZVOUS then
           (let (cst, s, snt) = processRendezvous ev rst response s;
                out = (case snt of None \<Rightarrow> [] | Some h \<Rightarrow> [h])
            in if cst = CONN_ACCEPT then (True, s, out)
               else if cst \<noteq> CONN_CONTINUE then (False, s, out)
               else (True, s\<lparr>cn_llLastReqTime := ev_now ev\<rparr>, out @ [cn_ConnReq s]))
         else if cst = CONN_REJECT then (False, s, [])
         else
           (let (s, ok) = createSrtHandshake ev SRT_CMD_HSREQ 0 s
            in if \<not> ok then (False, s, [])
               else (True, s\<lparr>cn_llLastReqTime := ev_now ev\<rparr>, [cn_ConnReq s])))"

subsection \<open>What the handler does with the state machine\<close>

lemma createSrtHandshake_frame:
  "createSrtHandshake ev cmd km s = (s', ok) \<Longrightarrow>
    cn_RdvState s' = cn_RdvState s \<and> cn_bConnected s' = cn_bConnected s \<and> cn_SrtHsSide s' = cn_SrtHsSide s \<and>
    cn_ConnRes s' = cn_ConnRes s \<and> hs_iReqType (cn_ConnReq s') = hs_iReqType (cn_ConnReq s)"
  by (auto simp: createSrtHandshake_def Let_def split: if_splits option.splits)

lemma createSrtHandshake_plain:
  "\<not> hs_extension (cn_ConnReq s) \<Longrightarrow> snd (createSrtHandshake ev cmd km s)"
  by (auto simp: createSrtHandshake_def Let_def)

lemma postConnect_frame:
  "postConnect ev rs True s = (cst, s') \<Longrightarrow>
    cn_RdvState s' = cn_RdvState s \<and> cn_ConnReq s' = cn_ConnReq s \<and> cn_SrtHsSide s' = cn_SrtHsSide s \<and>
    (cst = CONN_ACCEPT \<and> cn_bConnected s' \<or> cst = CONN_REJECT)"
  by (auto simp: postConnect_def Let_def split: if_splits option.splits)

lemma checkUpdateCryptoKeyLen_frame [simp]:
  "cn_RdvState (checkUpdateCryptoKeyLen t s) = cn_RdvState s" "cn_ConnReq (checkUpdateCryptoKeyLen t s) = cn_ConnReq s"
  "cn_ConnRes (checkUpdateCryptoKeyLen t s) = cn_ConnRes s" "cn_SrtHsSide (checkUpdateCryptoKeyLen t s) = cn_SrtHsSide s"
  "cn_bConnected (checkUpdateCryptoKeyLen t s) = cn_bConnected s"
  by (simp_all add: checkUpdateCryptoKeyLen_def Let_def)

lemma applyResponseSettings_frame [simp]:
  "cn_RdvState (applyResponseSettings s) = cn_RdvState s" "cn_ConnReq (applyResponseSettings s) = cn_ConnReq s"
  "cn_ConnRes (applyResponseSettings s) = cn_ConnRes s" "cn_SrtHsSide (applyResponseSettings s) = cn_SrtHsSide s"
  "cn_bConnected (applyResponseSettings s) = cn_bConnected s"
  by (simp_all add: applyResponseSettings_def Let_def)

lemma rdv_respond_hsrsp_state:
  "rdv_respond_hsrsp ev rst rs s = (cst, s') \<Longrightarrow> cst \<noteq> CONN_REJECT \<Longrightarrow>
    cst = CONN_CONTINUE \<and> cn_RdvState s' = cn_RdvState s \<and> hs_iReqType (cn_ConnReq s') = hs_iReqType (cn_ConnReq s)"
  by (auto simp: rdv_respond_hsrsp_def Let_def split: if_splits option.splits prod.splits dest!: createSrtHandshake_frame)

lemma rdv_finish_state:
  assumes "rdv_finish ev rst rs rsp ne s = (cst, s', snt)" "cst \<noteq> CONN_REJECT"
  shows "cn_RdvState s' = cn_RdvState s \<and> (cn_RdvState s = RDV_CONNECTED \<longrightarrow> cn_bConnected s') \<and>
    (cst = CONN_ACCEPT \<longleftrightarrow> rsp = URQ_DONE \<or> rsp = URQ_AGREEMENT \<and> cn_RdvState s = RDV_CONNECTED) \<and>
    (snt \<noteq> None \<longleftrightarrow> rsp = URQ_AGREEMENT \<and> cn_RdvState s = RDV_CONNECTED) \<and>
    (ev_interpretSrtHandshake ev = None \<or> hs_iReqType (cn_ConnReq s) \<noteq> URQ_AGREEMENT \<longrightarrow>
       hs_iReqType (cn_ConnReq s') = hs_iReqType (cn_ConnReq s))"
  using assms
  by (auto simp: rdv_finish_def Let_def urq_defs split: if_splits option.splits prod.splits
      dest!: createSrtHandshake_frame postConnect_frame)

text \<open>
  C12. \<open>processRendezvous\<close> moves along the state machine \<open>rendezvousSwitchState\<close>: unless it rejects, the
  new state and the request type to send are those of the machine (the type of a failure only if the
  extension block of an agreement was refused), it accepts exactly when the machine is done or
  agrees, and then the socket is connected.
\<close>

theorem processRendezvous_machine:
  assumes "cn_RdvState s \<noteq> RDV_CONNECTED"
    and "cookieContest (hs_iCookie (cn_ConnReq s)) (hs_iCookie (cn_ConnRes s)) (cn_SrtHsSide s) = side"
    and "rendezvousSwitchState side (hs_iReqType (cn_ConnRes s)) (hs_flags_of (cn_ConnRes s)) URQ_FAILURE_TYPES (cn_RdvState s)
      = (st, rsp, ne, hsrsp)"
    and "processRendezvous ev rst rs s = (cst, s', snt)" "cst \<noteq> CONN_REJECT"
  shows "side \<noteq> HSD_DRAW \<and> rsp \<le> URQ_FAILURE_TYPES \<and> cn_RdvState s' = st \<and>
    (cst = CONN_ACCEPT \<longleftrightarrow> st = RDV_CONNECTED) \<and> (cst = CONN_ACCEPT \<longrightarrow> cn_bConnected s') \<and>
    (ev_interpretSrtHandshake ev = None \<or> rsp \<noteq> URQ_AGREEMENT \<longrightarrow> hs_iReqType (cn_ConnReq s') = rsp) \<and>
    (snt \<noteq> None \<longleftrightarrow> rsp = URQ_AGREEMENT)"
proof -
  have m: "st = RDV_CONNECTED \<longleftrightarrow> rsp = URQ_DONE \<or> rsp = URQ_AGREEMENT"
    "hsrsp \<Longrightarrow> st \<noteq> RDV_CONNECTED"
    using assms(1,3) by (auto simp: rdv_switch_defs rdv_rogue_def URQFailure_def urq_defs Let_def
        split: RendezvousState.splits if_splits)
  let ?s = "applyResponseSettings ((checkUpdateCryptoKeyLen (hs_iType (cn_ConnRes s)) (s\<lparr>cn_SrtHsSide := side, cn_RdvState := st\<rparr>))
     \<lparr>cn_ConnReq := (cn_ConnReq s)\<lparr>hs_iReqType := rsp, hs_extension := ne\<rparr>\<rparr>)"
  from assms have side: "side \<noteq> HSD_DRAW" "rsp \<le> URQ_FAILURE_TYPES" "ev_prepareConnectionObjects ev = None"
    and r: "(if hsrsp then (let (cst, s) = rdv_respond_hsrsp ev rst rs ?s in (cst, s, None))
      else rdv_finish ev rst rs rsp ne ?s) = (cst, s', snt)"
    by (auto simp: processRendezvous_def Let_def split: if_splits option.splits)
  show ?thesis
  proof (cases hsrsp)
    case True
    with r obtain c where c: "rdv_respond_hsrsp ev rst rs ?s = (cst, s')" "snt = None" by (auto split: prod.splits)
    from rdv_respond_hsrsp_state [OF c(1) assms(5)] m True c(2) side show ?thesis by simp
  next
    case False
    with r have f: "rdv_finish ev rst rs rsp ne ?s = (cst, s', snt)" by simp
    from rdv_finish_state [OF f assms(5)] m side show ?thesis by auto
  qed
qed

definition conn_example :: "RendezvousState \<Rightarrow> int \<Rightarrow> int \<Rightarrow> CUDT_conn" where
  "conn_example st req ty = \<lparr>cn_ConnReq = CHandShake_new\<lparr>hs_iVersion := 5, hs_iCookie := 5\<rparr>,
     cn_ConnRes = CHandShake_new\<lparr>hs_iVersion := 5, hs_iCookie := 3, hs_iReqType := req, hs_iType := ty\<rparr>,
     cn_RdvState = st, cn_SrtHsSide = HSD_DRAW, cn_RejectReason = SRT_REJ_UNKNOWN, cn_bRendezvous = True,
     cn_bConnecting = True, cn_bConnected = False, cn_bDataSender = False, cn_llLastReqTime = 0,
     cn_iSndCryptoKeyLen = 0, cn_CryptoSecret_len = 0, cn_sStreamName = [], cn_OPT_PktFilterConfigString = [],
     cn_sPeerPktFilterConfigString = [], cn_CongCtl_name = ''live'', cn_lPeerSrtFlags = 0, cn_ullRcvPeerStartTime = 0,
     cn_iMSS = 1500, cn_iFlowWindowSize = 8192, cn_iMaxSRTPayloadSize = 1456, cn_iPeerISN = 0, cn_iRcvLastAck = 0,
     cn_iRcvLastSkipAck = 0, cn_iRcvLastAckAck = 0, cn_iRcvCurrSeqNo = 0, cn_iRcvCurrPhySeqNo = 0, cn_PeerID = 0,
     cn_piSelfIP = [0, 0, 0, 0], cn_iRTT = 0, cn_iBandwidth = 0\<rparr>"

definition env_example :: "SRT_REJECT_REASON option \<Rightarrow> conn_env" where
  "env_example r = \<lparr>ev_now = 1000, ev_prepareConnectionObjects = None, ev_createCrypter = True, ev_interpretSrtHandshake = r,
     ev_kmdatasize = 0, ev_getKmMsg_size = 0, ev_RcvKmState_failed = False, ev_attachBlocks = None, ev_cache = None,
     ev_setupCC = SRT_REJ_UNKNOWN, ev_located = True\<rparr>"

definition response_example :: conn_response where
  "response_example = \<lparr>rs_isControl = True, rs_type = UMSG_HANDSHAKE, rs_data = [], rs_length = 48\<rparr>"

lemmas conn_example_defs = conn_example_def env_example_def response_example_def CHandShake_new_def

lemma processRendezvous_machine_witness:
  "\<exists>s'. processRendezvous (env_example None) RST_OK response_example (conn_example RDV_FINE URQ_AGREEMENT 0) = (CONN_ACCEPT, s', None) \<and>
    cn_RdvState s' = RDV_CONNECTED \<and> cn_bConnected s'"
proof -
  let ?s = "conn_example RDV_FINE URQ_AGREEMENT 0"
  have m: "cookieContest (hs_iCookie (cn_ConnReq ?s)) (hs_iCookie (cn_ConnRes ?s)) (cn_SrtHsSide ?s) = HSD_INITIATOR"
    "rendezvousSwitchState HSD_INITIATOR (hs_iReqType (cn_ConnRes ?s)) (hs_flags_of (cn_ConnRes ?s)) URQ_FAILURE_TYPES (cn_RdvState ?s)
      = (RDV_CONNECTED, URQ_DONE, False, False)"
    by (simp_all add: conn_example_defs cookieContest_def rdv_switch_defs urq_defs)
  obtain cst s' snt where p: "processRendezvous (env_example None) RST_OK response_example ?s = (cst, s', snt)"
    by (metis prod_cases3)
  have "cst \<noteq> CONN_REJECT"
    using p m unfolding processRendezvous_def
    by (auto simp: conn_example_defs rdv_finish_def postConnect_def urq_defs hs_version_defs Let_def split: if_splits)
  moreover have "cn_RdvState ?s \<noteq> RDV_CONNECTED" by (simp add: conn_example_def)
  ultimately show ?thesis using processRendezvous_machine [OF _ m p] p by (auto simp: urq_defs)
qed

text \<open>
  An initiator whose peer answers with a refusable HSRSP block nevertheless connects: it sends the
  rejection code in place of the agreement, and at the same time reports acceptance and is connected.
\<close>

theorem initiator_connects_although_refusing:
  assumes "cn_RdvState s \<in> {RDV_ATTENTION, RDV_FINE}" "cn_SrtHsSide s = HSD_INITIATOR"
    and "hs_iReqType (cn_ConnRes s) = URQ_CONCLUSION" "hs_flags_of (cn_ConnRes s) \<noteq> 0"
    and "HS_VERSION_SRT1 \<le> hs_iVersion (cn_ConnRes s)" "rs_length rs \<noteq> no_length"
    and "ev_prepareConnectionObjects ev = None" "ev_interpretSrtHandshake ev = Some r"
    and "ev_setupCC ev = SRT_REJ_UNKNOWN" "ev_located ev"
  shows "\<exists>s' h. processRendezvous ev RST_OK rs s = (CONN_ACCEPT, s', Some h) \<and> hs_iReqType h = URQFailure r \<and>
    cn_RejectReason s' = r \<and> cn_bConnected s' \<and> cn_RdvState s' = RDV_CONNECTED"
proof -
  have sw: "rendezvousSwitchState HSD_INITIATOR URQ_CONCLUSION (hs_flags_of (cn_ConnRes s)) URQ_FAILURE_TYPES (cn_RdvState s)
      = (RDV_CONNECTED, URQ_AGREEMENT, False, False)"
    using assms(1,4) by (auto simp: rdv_switch_defs urq_defs Let_def)
  have cc: "cookieContest x y HSD_INITIATOR = HSD_INITIATOR" for x y by (simp add: cookieContest_def)
  have cr: "createSrtHandshake ev SRT_CMD_HSREQ 0 t =
      (t\<lparr>cn_ConnReq := (cn_ConnReq t)\<lparr>hs_extension := False,
         hs_iType := if HS_VERSION_UDT4 < hs_iVersion (cn_ConnReq t) then sint (wrapFlags False (word_of_int (cn_iSndCryptoKeyLen t))) else UDT_DGRAM\<rparr>\<rparr>, True)"
    if "\<not> hs_extension (cn_ConnReq t)" "HS_VERSION_SRT1 \<le> hs_iVersion (cn_ConnRes t)" for t
    using that by (auto simp: createSrtHandshake_def Let_def hs_version_defs)
  have "cn_RdvState s \<noteq> RDV_CONNECTED" using assms(1) by auto
  then show ?thesis
    using assms(2,3,5-) sw
    by (auto simp: processRendezvous_def cc Let_def rdv_finish_def urq_defs postConnect_def cr split: option.splits)
qed

lemma initiator_connects_although_refusing_witness:
  "\<exists>s' h. processRendezvous (env_example (Some SRT_REJ_CONGESTION)) RST_OK response_example
      ((conn_example RDV_FINE URQ_CONCLUSION 1)\<lparr>cn_SrtHsSide := HSD_INITIATOR\<rparr>) = (CONN_ACCEPT, s', Some h) \<and>
    hs_iReqType h = 1013 \<and> cn_bConnected s'"
proof -
  have "SRT_HSTYPE_HSFLAGS_unwrap 1 \<noteq> 0"
    by (simp add: SRT_HSTYPE_HSFLAGS_unwrap_def bits_unwrap_def BitsetMask.simps)
  then show ?thesis
    using initiator_connects_although_refusing
      [of "(conn_example RDV_FINE URQ_CONCLUSION 1)\<lparr>cn_SrtHsSide := HSD_INITIATOR\<rparr>" response_example "env_example (Some SRT_REJ_CONGESTION)"]
    by (auto simp: conn_example_defs hs_flags_of_def hs_version_defs no_length_def URQFailure_def urq_defs)
qed

text \<open>
  A rendezvous responder that holds a CONCLUSION with extensions cannot repeat it when the periodic
  update reaches it while another socket of the queue got a packet (\<open>CONN_AGAIN\<close>): the request is
  built as HSREQ, which a responder must not send, so the attempt fails with an internal error and
  nothing is sent. The initiator repeats its message.
\<close>

theorem periodic_update_again:
  assumes "hs_extension (cn_ConnReq s)" "HS_VERSION_SRT1 \<le> hs_iVersion (cn_ConnReq s)"
    and "HS_VERSION_SRT1 \<le> hs_iVersion (cn_ConnRes s)"
  shows "\<exists>ok s' out. processAsyncConnectRequest ev RST_AGAIN CONN_AGAIN rs s = (ok, s', out) \<and>
    (if cn_SrtHsSide s = HSD_RESPONDER then \<not> ok \<and> cn_RejectReason s' = SRT_REJ_IPE \<and> out = []
     else ev_attachBlocks ev = None \<longrightarrow> ok \<and> out = [cn_ConnReq s'] \<and> hs_iReqType (cn_ConnReq s') = hs_iReqType (cn_ConnReq s))"
  using assms by (auto simp: processAsyncConnectRequest_def createSrtHandshake_def Let_def hs_version_defs srt_cmd_defs split: option.splits)

lemma periodic_update_again_witness:
  "\<exists>s'. processAsyncConnectRequest (env_example None) RST_AGAIN CONN_AGAIN response_example
     ((conn_example RDV_FINE URQ_CONCLUSION 1)\<lparr>cn_SrtHsSide := HSD_RESPONDER, cn_ConnReq := CHandShake_new\<lparr>hs_iVersion := 5, hs_extension := True\<rparr>\<rparr>) = (False, s', [])"
  using periodic_update_again [of "(conn_example RDV_FINE URQ_CONCLUSION 1)\<lparr>cn_SrtHsSide := HSD_RESPONDER,
      cn_ConnReq := CHandShake_new\<lparr>hs_iVersion := 5, hs_extension := True\<rparr>\<rparr>" "env_example None" response_example]
  by (auto simp: conn_example_defs hs_version_defs)

end
