(* ===== verification/RendezvousNet.thy ===== *)
theory RendezvousNet
  imports Rendezvous
begin

text \<open>
  The rendezvous handshake as a protocol of two parties over a network: each party is the state
  machine of \<open>Rendezvous\<close> with the handshake it is sending, the channels hold the handshakes under
  way. In the ordered network messages may be lost and repeated; the datagram network may also
  reorder them. The initiator is party \<open>True\<close>, the responder party \<open>False\<close> (the roles follow from the
  cookies, which the first handshake carries).
\<close>

subsection \<open>Parties\<close>

record rdv_party =
  pt_state :: RendezvousState
  pt_out :: "int \<times> bool"
  pt_dead :: bool
  pt_rogue :: bool

text \<open>
  A party that is not connected follows \<open>processRendezvous\<close>: it moves by the state machine, keeps the
  answer as the handshake to send, and sends an agreement at once. A connected party answers every
  handshake but an agreement with an agreement (\<open>processCtrl\<close>). A party that rejected does nothing more.
\<close>

definition party_recv :: "HandshakeSide \<Rightarrow> int \<times> bool \<Rightarrow> rdv_party \<Rightarrow> rdv_party \<times> (int \<times> bool) list" where
  "party_recv hsd m p =
     (if pt_dead p then (p, [])
      else if pt_state p = RDV_CONNECTED
      then (p, if fst m \<noteq> URQ_AGREEMENT then [(URQ_AGREEMENT, False)] else [])
      else
        (let (st, rsp, needs_ext, _) =
           rendezvousSwitchState hsd (fst m) (if snd m then 1 else 0) URQ_FAILURE_TYPES (pt_state p)
         in if rsp > URQ_FAILURE_TYPES
            then (p\<lparr>pt_state := st, pt_dead := True, pt_rogue := (rsp = URQFailure SRT_REJ_ROGUE)\<rparr>, [])
            else (p\<lparr>pt_state := st, pt_out := (rsp, needs_ext)\<rparr>,
                  if rsp = URQ_AGREEMENT then [(URQ_AGREEMENT, False)] else [])))"

record rdv_net =
  nt_party :: "bool \<Rightarrow> rdv_party"
  nt_chan :: "bool \<Rightarrow> (int \<times> bool) list"

definition side_of :: "bool \<Rightarrow> HandshakeSide" where
  "side_of b = (if b then HSD_INITIATOR else HSD_RESPONDER)"

definition rdv_init :: rdv_net where
  "rdv_init = \<lparr>nt_party = (\<lambda>_. \<lparr>pt_state = RDV_WAVING, pt_out = (URQ_WAVEAHAND, False), pt_dead = False, pt_rogue = False\<rparr>),
     nt_chan = (\<lambda>_. [])\<rparr>"

definition net_recv :: "bool \<Rightarrow> int \<times> bool \<Rightarrow> (int \<times> bool) list \<Rightarrow> rdv_net \<Rightarrow> rdv_net" where
  "net_recv b m rest n =
     (let (p, reply) = party_recv (side_of b) m (nt_party n b)
      in n\<lparr>nt_party := (nt_party n)(b := p), nt_chan := ((nt_chan n)(b := rest))(\<not> b := nt_chan n (\<not> b) @ reply)\<rparr>)"

inductive rdv_step :: "rdv_net \<Rightarrow> rdv_net \<Rightarrow> bool" where
  send: "\<not> pt_dead (nt_party n b) \<Longrightarrow> pt_state (nt_party n b) \<noteq> RDV_CONNECTED \<Longrightarrow>
    rdv_step n (n\<lparr>nt_chan := (nt_chan n)(\<not> b := nt_chan n (\<not> b) @ [pt_out (nt_party n b)])\<rparr>)"
| recv: "nt_chan n b = m # rest \<Longrightarrow> rdv_step n (net_recv b m rest n)"
| lose: "nt_chan n b = xs @ m # ys \<Longrightarrow> rdv_step n (n\<lparr>nt_chan := (nt_chan n)(b := xs @ ys)\<rparr>)"
| again: "nt_chan n b = xs @ m # ys \<Longrightarrow> rdv_step n (n\<lparr>nt_chan := (nt_chan n)(b := xs @ m # m # ys)\<rparr>)"
| stop: "rdv_step n (n\<lparr>nt_party := (nt_party n)(b := (nt_party n b)\<lparr>pt_dead := True\<rparr>)\<rparr>)"

inductive_cases rdv_stepE: "rdv_step n n'"

text \<open>The network of datagrams may also change the order.\<close>

inductive udp_step :: "rdv_net \<Rightarrow> rdv_net \<Rightarrow> bool" where
  ordered: "rdv_step n n' \<Longrightarrow> udp_step n n'"
| swap: "nt_chan n b = xs @ m # m' # ys \<Longrightarrow> udp_step n (n\<lparr>nt_chan := (nt_chan n)(b := xs @ m' # m # ys)\<rparr>)"

subsection \<open>The invariant of the ordered network\<close>

definition waving_msg :: "int \<times> bool \<Rightarrow> bool" where
  "waving_msg m \<longleftrightarrow> m = (URQ_WAVEAHAND, False)"

text \<open>Waveahands come first.\<close>

fun no_wave_after :: "(int \<times> bool) list \<Rightarrow> bool" where
  "no_wave_after [] = True"
| "no_wave_after (m # ms) = (no_wave_after ms \<and> (waving_msg m \<or> (\<forall>x\<in>set ms. \<not> waving_msg x)))"

definition party_out_ok :: "bool \<Rightarrow> rdv_party \<Rightarrow> bool" where
  "party_out_ok b p \<longleftrightarrow>
     (case pt_state p of
        RDV_WAVING \<Rightarrow> pt_out p = (URQ_WAVEAHAND, False)
      | RDV_ATTENTION \<Rightarrow> pt_out p = (URQ_CONCLUSION, b)
      | RDV_FINE \<Rightarrow> pt_out p = (URQ_CONCLUSION, True)
      | RDV_INITIATED \<Rightarrow> \<not> b \<and> pt_out p = (URQ_CONCLUSION, True)
      | RDV_CONNECTED \<Rightarrow> True
      | RDV_INVALID \<Rightarrow> False)"

text \<open>What the state \<open>s\<close> of party \<open>b\<close>, the state \<open>r\<close> of its peer and the channel to \<open>b\<close> have to do with each other.\<close>

definition half_inv :: "bool \<Rightarrow> RendezvousState \<Rightarrow> RendezvousState \<Rightarrow> (int \<times> bool) list \<Rightarrow> bool" where
  "half_inv b s r c \<longleftrightarrow>
     (\<forall>m\<in>set c. m \<in> {(URQ_WAVEAHAND, False), (URQ_CONCLUSION, True), (URQ_AGREEMENT, False)} \<or> b \<and> m = (URQ_CONCLUSION, False)) \<and>
     no_wave_after c \<and>
     (r = RDV_WAVING \<longrightarrow> (\<forall>m\<in>set c. waving_msg m)) \<and>
     ((URQ_AGREEMENT, False) \<in> set c \<longrightarrow> r = RDV_CONNECTED) \<and>
     (b \<and> (URQ_CONCLUSION, True) \<in> set c \<longrightarrow> r \<in> {RDV_FINE, RDV_INITIATED, RDV_CONNECTED}) \<and>
     (s = RDV_FINE \<longrightarrow> r \<notin> {RDV_WAVING, RDV_FINE}) \<and> (s = RDV_INITIATED \<longrightarrow> r \<noteq> RDV_WAVING) \<and>
     (s \<in> {RDV_FINE, RDV_INITIATED} \<longrightarrow> (\<forall>m\<in>set c. \<not> waving_msg m)) \<and>
     (s = RDV_CONNECTED \<longrightarrow> r \<notin> {RDV_WAVING, RDV_ATTENTION}) \<and>
     (\<not> b \<and> s = RDV_CONNECTED \<longrightarrow> r = RDV_CONNECTED)"

definition rdv_inv :: "rdv_net \<Rightarrow> bool" where
  "rdv_inv n \<longleftrightarrow> (\<forall>b. party_out_ok b (nt_party n b) \<and> \<not> pt_rogue (nt_party n b) \<and>
     half_inv b (pt_state (nt_party n b)) (pt_state (nt_party n (\<not> b))) (nt_chan n b))"

lemma no_wave_after_append:
  "no_wave_after (xs @ ys) \<longleftrightarrow> no_wave_after xs \<and> no_wave_after ys \<and>
     ((\<forall>x\<in>set xs. waving_msg x) \<or> (\<forall>y\<in>set ys. \<not> waving_msg y))"
  by (induction xs) auto

lemma waving_msg_simps [simp]:
  "waving_msg (URQ_WAVEAHAND, False)" "\<not> waving_msg (URQ_CONCLUSION, e)" "\<not> waving_msg (URQ_AGREEMENT, e)"
  by (simp_all add: waving_msg_def urq_defs)

lemma urq_distinct [simp]:
  "URQ_CONCLUSION \<noteq> URQ_AGREEMENT" "URQ_AGREEMENT \<noteq> URQ_CONCLUSION" "URQ_WAVEAHAND \<noteq> URQ_CONCLUSION"
  "URQ_CONCLUSION \<noteq> URQ_WAVEAHAND" "URQ_WAVEAHAND \<noteq> URQ_AGREEMENT" "URQ_AGREEMENT \<noteq> URQ_WAVEAHAND"
  "\<not> URQ_FAILURE_TYPES < URQ_CONCLUSION" "\<not> URQ_FAILURE_TYPES < URQ_AGREEMENT" "\<not> URQ_FAILURE_TYPES < URQ_DONE"
  "URQ_DONE \<noteq> URQ_AGREEMENT" "URQ_AGREEMENT \<noteq> URQ_DONE"
  by (simp_all add: urq_defs)

lemma urq_le [simp]:
  "URQ_CONCLUSION \<le> URQ_FAILURE_TYPES" "URQ_AGREEMENT \<le> URQ_FAILURE_TYPES" "URQ_DONE \<le> URQ_FAILURE_TYPES"
  by (simp_all add: urq_defs)

text \<open>The state machine on the messages of the protocol.\<close>

lemma switch_simps:
  "rendezvousSwitchState hsd URQ_WAVEAHAND fl r RDV_WAVING = (RDV_ATTENTION, URQ_CONCLUSION, hsd = HSD_INITIATOR, False)"
  "rendezvousSwitchState hsd URQ_CONCLUSION fl r RDV_WAVING = (RDV_FINE, URQ_CONCLUSION, True, hsd = HSD_RESPONDER)"
  "rendezvousSwitchState hsd URQ_WAVEAHAND fl r RDV_ATTENTION = (RDV_ATTENTION, URQ_CONCLUSION, hsd = HSD_INITIATOR, False)"
  "rendezvousSwitchState HSD_INITIATOR URQ_CONCLUSION 0 r RDV_ATTENTION = (RDV_ATTENTION, URQ_CONCLUSION, True, False)"
  "rendezvousSwitchState HSD_INITIATOR URQ_CONCLUSION 1 r RDV_ATTENTION = (RDV_CONNECTED, URQ_AGREEMENT, False, False)"
  "rendezvousSwitchState HSD_RESPONDER URQ_CONCLUSION 1 r RDV_ATTENTION = (RDV_INITIATED, URQ_CONCLUSION, True, True)"
  "rendezvousSwitchState HSD_INITIATOR URQ_AGREEMENT fl r RDV_ATTENTION = (RDV_CONNECTED, URQ_DONE, False, False)"
  "rendezvousSwitchState HSD_INITIATOR URQ_CONCLUSION 0 r RDV_FINE = (RDV_FINE, URQ_CONCLUSION, True, False)"
  "rendezvousSwitchState HSD_INITIATOR URQ_CONCLUSION 1 r RDV_FINE = (RDV_CONNECTED, URQ_AGREEMENT, False, False)"
  "rendezvousSwitchState HSD_RESPONDER URQ_CONCLUSION fl r RDV_FINE = (RDV_FINE, URQ_CONCLUSION, True, True)"
  "rendezvousSwitchState hsd URQ_AGREEMENT fl r RDV_FINE = (RDV_CONNECTED, URQ_DONE, False, False)"
  "rendezvousSwitchState hsd URQ_CONCLUSION fl r RDV_INITIATED = (RDV_INITIATED, URQ_CONCLUSION, True, True)"
  "rendezvousSwitchState hsd URQ_AGREEMENT fl r RDV_INITIATED = (RDV_CONNECTED, URQ_DONE, False, False)"
  by (simp_all add: rdv_switch_defs urq_defs Let_def)

lemma half_recv_initiator:
  assumes "half_inv True s r (m # c)" "half_inv False r s d" "s \<notin> {RDV_CONNECTED, RDV_INVALID, RDV_INITIATED}"
    and "rendezvousSwitchState HSD_INITIATOR (fst m) (if snd m then 1 else 0) URQ_FAILURE_TYPES s = (s', rsp, ne, nr)"
  shows "rsp \<le> URQ_FAILURE_TYPES \<and> half_inv True s' r c \<and>
    half_inv False r s' (d @ (if rsp = URQ_AGREEMENT then [(URQ_AGREEMENT, False)] else [])) \<and>
    party_out_ok True (p\<lparr>pt_state := s', pt_out := (rsp, ne)\<rparr>)"
proof -
  from assms(1) have "m \<in> {(URQ_WAVEAHAND, False), (URQ_CONCLUSION, True), (URQ_AGREEMENT, False), (URQ_CONCLUSION, False)}"
    by (auto simp: half_inv_def)
  then consider "m = (URQ_WAVEAHAND, False)" | "m = (URQ_CONCLUSION, True)" | "m = (URQ_AGREEMENT, False)" | "m = (URQ_CONCLUSION, False)"
    by blast
  then show ?thesis
    using assms
    by cases (cases s; auto simp: half_inv_def switch_simps no_wave_after_append party_out_ok_def)+
qed

lemma half_recv_responder:
  assumes "half_inv False s r (m # c)" "half_inv True r s d" "s \<notin> {RDV_CONNECTED, RDV_INVALID}"
    and "rendezvousSwitchState HSD_RESPONDER (fst m) (if snd m then 1 else 0) URQ_FAILURE_TYPES s = (s', rsp, ne, nr)"
  shows "rsp \<le> URQ_FAILURE_TYPES \<and> half_inv False s' r c \<and>
    half_inv True r s' (d @ (if rsp = URQ_AGREEMENT then [(URQ_AGREEMENT, False)] else [])) \<and>
    party_out_ok False (p\<lparr>pt_state := s', pt_out := (rsp, ne)\<rparr>)"
proof -
  from assms(1) have "m \<in> {(URQ_WAVEAHAND, False), (URQ_CONCLUSION, True), (URQ_AGREEMENT, False)}"
    by (auto simp: half_inv_def)
  then consider "m = (URQ_WAVEAHAND, False)" | "m = (URQ_CONCLUSION, True)" | "m = (URQ_AGREEMENT, False)"
    by blast
  then show ?thesis
    using assms
    by cases (cases s; auto simp: half_inv_def switch_simps no_wave_after_append party_out_ok_def)+
qed

lemma half_recv_connected:
  "half_inv b RDV_CONNECTED r (m # c) \<Longrightarrow> half_inv (\<not> b) r RDV_CONNECTED d \<Longrightarrow>
    half_inv b RDV_CONNECTED r c \<and>
    half_inv (\<not> b) r RDV_CONNECTED (d @ (if fst m \<noteq> URQ_AGREEMENT then [(URQ_AGREEMENT, False)] else []))"
  by (auto simp: half_inv_def no_wave_after_append)

lemma half_inv_tl: "half_inv b s r (m # c) \<Longrightarrow> half_inv b s r c"
  by (auto simp: half_inv_def)

lemma rdv_invD:
  assumes "rdv_inv n"
  shows "party_out_ok b (nt_party n b)" "\<not> pt_rogue (nt_party n b)"
    "half_inv b (pt_state (nt_party n b)) (pt_state (nt_party n (\<not> b))) (nt_chan n b)"
    "half_inv (\<not> b) (pt_state (nt_party n (\<not> b))) (pt_state (nt_party n b)) (nt_chan n (\<not> b))"
proof -
  have i: "\<forall>b. party_out_ok b (nt_party n b) \<and> \<not> pt_rogue (nt_party n b) \<and>
      half_inv b (pt_state (nt_party n b)) (pt_state (nt_party n (\<not> b))) (nt_chan n b)"
    using assms by (simp add: rdv_inv_def)
  from spec [OF i, of b] spec [OF i, of "\<not> b"] show "party_out_ok b (nt_party n b)" "\<not> pt_rogue (nt_party n b)"
    "half_inv b (pt_state (nt_party n b)) (pt_state (nt_party n (\<not> b))) (nt_chan n b)"
    "half_inv (\<not> b) (pt_state (nt_party n (\<not> b))) (pt_state (nt_party n b)) (nt_chan n (\<not> b))" by simp_all
qed

lemma rdv_inv_recv:
  assumes inv: "rdv_inv n" and c: "nt_chan n b = m # rest"
  shows "rdv_inv (net_recv b m rest n)"
proof -
  let ?p = "nt_party n b" and ?q = "nt_party n (\<not> b)" and ?d = "nt_chan n (\<not> b)"
  note ok = rdv_invD(1,2) [OF inv, of b] rdv_invD(1,2) [OF inv, of "\<not> b"]
  have h: "half_inv b (pt_state ?p) (pt_state ?q) (m # rest)" "half_inv (\<not> b) (pt_state ?q) (pt_state ?p) ?d"
    using rdv_invD(3,4) [OF inv, of b] c by simp_all
  obtain p' reply where pr: "party_recv (side_of b) m ?p = (p', reply)" by (metis surj_pair)
  have "party_out_ok b p' \<and> \<not> pt_rogue p' \<and> half_inv b (pt_state p') (pt_state ?q) rest \<and>
    half_inv (\<not> b) (pt_state ?q) (pt_state p') (?d @ reply)"
  proof (cases "pt_dead ?p \<or> pt_state ?p = RDV_CONNECTED")
    case True
    then show ?thesis using pr ok h half_recv_connected [of b "pt_state ?q" m rest ?d] half_inv_tl [OF h(1)]
      by (auto simp: party_recv_def split: if_splits)
  next
    case False
    obtain s' rsp ne nr where sw: "rendezvousSwitchState (side_of b) (fst m) (if snd m then 1 else 0) URQ_FAILURE_TYPES (pt_state ?p)
        = (s', rsp, ne, nr)" by (metis prod_cases4)
    have st: "pt_state ?p \<noteq> RDV_INVALID" "b \<Longrightarrow> pt_state ?p \<noteq> RDV_INITIATED"
      using ok(1) by (auto simp: party_out_ok_def split: RendezvousState.splits)
    have "rsp \<le> URQ_FAILURE_TYPES \<and> half_inv b s' (pt_state ?q) rest \<and>
      half_inv (\<not> b) (pt_state ?q) s' (?d @ (if rsp = URQ_AGREEMENT then [(URQ_AGREEMENT, False)] else [])) \<and>
      party_out_ok b (?p\<lparr>pt_state := s', pt_out := (rsp, ne)\<rparr>)"
    proof (cases b)
      case True
      with half_recv_initiator [of "pt_state ?p" "pt_state ?q" m rest ?d s' rsp ne nr ?p] h sw st False
      show ?thesis by (simp add: side_of_def)
    next
      case f: False
      with half_recv_responder [of "pt_state ?p" "pt_state ?q" m rest ?d s' rsp ne nr ?p] h sw st False
      show ?thesis by (simp add: side_of_def)
    qed
    then show ?thesis using pr sw False ok(2) by (auto simp: party_recv_def)
  qed
  then show ?thesis
    using ok pr by (cases b) (auto simp: rdv_inv_def net_recv_def all_bool_eq)
qed

lemma no_wave_after_drop: "no_wave_after (xs @ m # ys) \<Longrightarrow> no_wave_after (xs @ ys)"
  by (induction xs) auto

lemma no_wave_after_dup: "no_wave_after (xs @ m # ys) \<Longrightarrow> no_wave_after (xs @ m # m # ys)"
  by (induction xs) auto

lemma half_inv_order: "half_inv b s r c \<Longrightarrow> no_wave_after c"
  by (simp add: half_inv_def)

lemma half_inv_subset:
  "half_inv b s r c \<Longrightarrow> set c' \<subseteq> set c \<Longrightarrow> no_wave_after c' \<Longrightarrow> half_inv b s r c'"
  unfolding half_inv_def by blast

lemma half_inv_snoc:
  assumes "half_inv b s r c" "m \<in> {(URQ_WAVEAHAND, False), (URQ_CONCLUSION, True)} \<or> b \<and> m = (URQ_CONCLUSION, False)"
    and "waving_msg m \<Longrightarrow> r = RDV_WAVING" "\<not> waving_msg m \<Longrightarrow> r \<noteq> RDV_WAVING"
    and "b \<Longrightarrow> m = (URQ_CONCLUSION, True) \<Longrightarrow> r \<in> {RDV_FINE, RDV_INITIATED, RDV_CONNECTED}"
  shows "half_inv b s r (c @ [m])"
proof (cases "waving_msg m")
  case True
  with assms(1,3) have "\<forall>x\<in>set c. waving_msg x" "r = RDV_WAVING" by (simp_all add: half_inv_def)
  with True assms(1) show ?thesis by (auto simp: half_inv_def no_wave_after_append waving_msg_def)
next
  case False
  then have "m \<noteq> (URQ_AGREEMENT, False)" using assms(2) by (auto simp: urq_defs)
  with False assms show ?thesis by (simp add: half_inv_def no_wave_after_append) blast
qed

lemma half_inv_send:
  assumes "half_inv (\<not> b) r s d" "party_out_ok b p" "pt_state p = s" "s \<noteq> RDV_CONNECTED"
  shows "half_inv (\<not> b) r s (d @ [pt_out p])"
  using assms(2-4) by (intro half_inv_snoc assms(1)) (cases s; cases b; auto simp: party_out_ok_def)+

lemma rdv_inv_chan:
  assumes "rdv_inv n" "half_inv b (pt_state (nt_party n b)) (pt_state (nt_party n (\<not> b))) c"
  shows "rdv_inv (n\<lparr>nt_chan := (nt_chan n)(b := c)\<rparr>)"
  using assms by (cases b) (simp_all add: rdv_inv_def all_bool_eq)

lemma rdv_inv_step:
  assumes "rdv_step n n'" "rdv_inv n"
  shows "rdv_inv n'"
  using assms
proof (induction rule: rdv_step.induct)
  case (send n b)
  note i = rdv_invD [OF send.prems]
  have "half_inv (\<not> b) (pt_state (nt_party n (\<not> b))) (pt_state (nt_party n (\<not> \<not> b))) (nt_chan n (\<not> b) @ [pt_out (nt_party n b)])"
    using half_inv_send [OF i(4,1)] send.hyps(2) by simp
  from rdv_inv_chan [OF send.prems this] show ?case .
next
  case (recv n b m rest)
  then show ?case by (intro rdv_inv_recv)
next
  case (lose n b xs m ys)
  note i = rdv_invD(3) [OF lose.prems, of b, unfolded lose.hyps]
  have "no_wave_after (xs @ ys)" using half_inv_order [OF i] by (rule no_wave_after_drop)
  then have "half_inv b (pt_state (nt_party n b)) (pt_state (nt_party n (\<not> b))) (xs @ ys)"
    by (rule half_inv_subset [OF i, rotated]) auto
  from rdv_inv_chan [OF lose.prems this] show ?case .
next
  case (again n b xs m ys)
  note i = rdv_invD(3) [OF again.prems, of b, unfolded again.hyps]
  have "no_wave_after (xs @ m # m # ys)" using half_inv_order [OF i] by (rule no_wave_after_dup)
  then have "half_inv b (pt_state (nt_party n b)) (pt_state (nt_party n (\<not> b))) (xs @ m # m # ys)"
    by (rule half_inv_subset [OF i, rotated]) auto
  from rdv_inv_chan [OF again.prems this] show ?case .
next
  case (stop n b)
  have "party_out_ok b (p\<lparr>pt_dead := True\<rparr>) = party_out_ok b p" for p
    by (simp add: party_out_ok_def split: RendezvousState.splits)
  with stop show ?case by (cases b) (simp_all add: rdv_inv_def all_bool_eq)
qed

lemma rdv_inv_init: "rdv_inv rdv_init"
  by (simp add: rdv_inv_def rdv_init_def half_inv_def party_out_ok_def)

lemma rdv_reachable_inv: "rdv_step\<^sup>*\<^sup>* rdv_init n \<Longrightarrow> rdv_inv n"
  by (induction rule: rtranclp_induct) (auto simp: rdv_inv_init intro: rdv_inv_step)

text \<open>
  C10. In a network that loses and repeats handshakes but keeps their order, no run of the rendezvous
  ends in an invalid transition: no party is rejected as rogue, the two parties are never both in
  state FINE, the initiator is connected only when the responder has got the HSREQ, and the responder
  only when the initiator is connected.
\<close>

theorem rendezvous_safe:
  assumes "rdv_step\<^sup>*\<^sup>* rdv_init n"
  shows "\<not> pt_rogue (nt_party n b) \<and>
    \<not> (pt_state (nt_party n True) = RDV_FINE \<and> pt_state (nt_party n False) = RDV_FINE) \<and>
    (pt_state (nt_party n True) = RDV_CONNECTED \<longrightarrow> pt_state (nt_party n False) \<in> {RDV_FINE, RDV_INITIATED, RDV_CONNECTED}) \<and>
    (pt_state (nt_party n False) = RDV_CONNECTED \<longrightarrow> pt_state (nt_party n True) = RDV_CONNECTED)"
proof -
  note i = rdv_invD [OF rdv_reachable_inv [OF assms]]
  have "pt_state (nt_party n False) \<noteq> RDV_INVALID" using i(1) [of False] by (auto simp: party_out_ok_def)
  then show ?thesis
    using i(2) [of b] i(3) [of True] i(3) [of False]
    by (cases "pt_state (nt_party n False)") (auto simp: half_inv_def)
qed

subsection \<open>Progress\<close>

definition at_states :: "RendezvousState \<Rightarrow> RendezvousState \<Rightarrow> rdv_net \<Rightarrow> bool" where
  "at_states si sr n \<longleftrightarrow> rdv_inv n \<and> (\<forall>b. \<not> pt_dead (nt_party n b) \<and> nt_chan n b = []) \<and>
     pt_state (nt_party n True) = si \<and> pt_state (nt_party n False) = sr"

lemma rdv_inv_steps: "rdv_step\<^sup>*\<^sup>* n n' \<Longrightarrow> rdv_inv n \<Longrightarrow> rdv_inv n'"
  by (induction rule: rtranclp_induct) (auto intro: rdv_inv_step)

lemma flush_one: "\<exists>n'. rdv_step\<^sup>*\<^sup>* n n' \<and> nt_party n' = nt_party n \<and> nt_chan n' = (nt_chan n)(b := [])"
proof (induction "nt_chan n b" arbitrary: n)
  case Nil
  then show ?case by (metis fun_upd_triv rtranclp.rtrancl_refl)
next
  case (Cons m ms)
  let ?n = "n\<lparr>nt_chan := (nt_chan n)(b := ms)\<rparr>"
  have "rdv_step n ?n" using rdv_step.lose [of n b "[]" m ms] Cons.hyps(2) by simp
  moreover obtain n' where "rdv_step\<^sup>*\<^sup>* ?n n'" "nt_party n' = nt_party ?n" "nt_chan n' = (nt_chan ?n)(b := [])"
    using Cons.hyps(1) [of ?n] by auto
  ultimately show ?case by (intro exI [of _ n']) (auto intro: converse_rtranclp_into_rtranclp)
qed

lemma flush: "\<exists>n'. rdv_step\<^sup>*\<^sup>* n n' \<and> nt_party n' = nt_party n \<and> nt_chan n' = (\<lambda>_. [])"
proof -
  obtain n1 where 1: "rdv_step\<^sup>*\<^sup>* n n1" "nt_party n1 = nt_party n" "nt_chan n1 = (nt_chan n)(True := [])"
    using flush_one by blast
  obtain n2 where 2: "rdv_step\<^sup>*\<^sup>* n1 n2" "nt_party n2 = nt_party n1" "nt_chan n2 = (nt_chan n1)(False := [])"
    using flush_one by blast
  have "nt_chan n2 = (\<lambda>_. [])" using 1 2 by (auto simp: fun_eq_iff all_bool_eq)
  then show ?thesis using 1 2 by (intro exI [of _ n2]) auto
qed

text \<open>One party's handshake reaches the other one, whose reply is still under way.\<close>

lemma talk:
  assumes "\<forall>x. nt_chan n x = []" "\<not> pt_dead (nt_party n b)" "pt_state (nt_party n b) \<noteq> RDV_CONNECTED"
    and "party_recv (side_of (\<not> b)) (pt_out (nt_party n b)) (nt_party n (\<not> b)) = (p, reply)"
  shows "\<exists>n'. rdv_step\<^sup>*\<^sup>* n n' \<and> nt_party n' = (nt_party n)(\<not> b := p) \<and> nt_chan n' = (\<lambda>_. [])(b := reply)"
proof -
  let ?n1 = "n\<lparr>nt_chan := (nt_chan n)(\<not> b := [pt_out (nt_party n b)])\<rparr>"
  let ?n2 = "net_recv (\<not> b) (pt_out (nt_party n b)) [] ?n1"
  have "rdv_step n ?n1" using rdv_step.send [of n b] assms(1-3) by simp
  moreover have "rdv_step ?n1 ?n2" by (rule rdv_step.recv) simp
  moreover have "nt_party ?n2 = (nt_party n)(\<not> b := p)" "nt_chan ?n2 = (\<lambda>_. [])(b := reply)"
    using assms(1,4) by (cases b; simp add: net_recv_def fun_eq_iff all_bool_eq)+
  ultimately show ?thesis by (intro exI [of _ ?n2]) auto
qed

lemma talk_states:
  assumes "at_states si sr n" "pt_state (nt_party n b) \<noteq> RDV_CONNECTED"
    and "fst (party_recv (side_of (\<not> b)) (pt_out (nt_party n b)) (nt_party n (\<not> b))) =
      (nt_party n (\<not> b))\<lparr>pt_state := s', pt_out := (URQ_CONCLUSION, s' \<noteq> RDV_ATTENTION)\<rparr>"
  shows "\<exists>n'. rdv_step\<^sup>*\<^sup>* n n' \<and> (if b then at_states si s' n' else at_states s' sr n')"
proof -
  let ?o = "(URQ_CONCLUSION, s' \<noteq> RDV_ATTENTION)"
  from assms(3) obtain reply where
    r: "party_recv (side_of (\<not> b)) (pt_out (nt_party n b)) (nt_party n (\<not> b)) = ((nt_party n (\<not> b))\<lparr>pt_state := s', pt_out := ?o\<rparr>, reply)"
    by (metis prod.collapse)
  from assms have "\<forall>x. nt_chan n x = []" "\<not> pt_dead (nt_party n b)" by (simp_all add: at_states_def)
  from talk [OF this assms(2) r] obtain n1 where 1: "rdv_step\<^sup>*\<^sup>* n n1"
    "nt_party n1 = (nt_party n)(\<not> b := (nt_party n (\<not> b))\<lparr>pt_state := s', pt_out := ?o\<rparr>)" by auto
  obtain n2 where 2: "rdv_step\<^sup>*\<^sup>* n1 n2" "nt_party n2 = nt_party n1" "nt_chan n2 = (\<lambda>_. [])" using flush by blast
  have "rdv_step\<^sup>*\<^sup>* n n2" using 1(1) 2(1) by simp
  moreover from this have "rdv_inv n2" using assms(1) by (auto simp: at_states_def intro: rdv_inv_steps)
  ultimately show ?thesis using assms(1) 1(2) 2(2,3) by (intro exI [of _ n2]) (cases b; simp add: at_states_def all_bool_eq)
qed

lemma at_states_out:
  assumes "at_states si sr n"
  shows "pt_state (nt_party n True) = si" "pt_state (nt_party n False) = sr" "\<not> pt_dead (nt_party n b)"
    "party_out_ok True (nt_party n True)" "party_out_ok False (nt_party n False)"
  using assms rdv_invD(1) by (auto simp: at_states_def)

lemma lead_initiator:
  assumes "at_states si sr n" "(si, sr, s') \<in> {(RDV_WAVING, RDV_WAVING, RDV_ATTENTION), (RDV_ATTENTION, RDV_WAVING, RDV_FINE),
     (RDV_ATTENTION, RDV_ATTENTION, RDV_INITIATED), (RDV_FINE, RDV_ATTENTION, RDV_INITIATED)}"
  shows "\<exists>n'. rdv_step\<^sup>*\<^sup>* n n' \<and> at_states si s' n'"
proof -
  note a = at_states_out [OF assms(1)]
  have "\<exists>n'. rdv_step\<^sup>*\<^sup>* n n' \<and> (if True then at_states si s' n' else at_states s' sr n')"
  proof (rule talk_states [OF assms(1)])
    show "pt_state (nt_party n True) \<noteq> RDV_CONNECTED" using assms(2) a(1) by auto
    show "fst (party_recv (side_of (\<not> True)) (pt_out (nt_party n True)) (nt_party n (\<not> True))) =
      (nt_party n (\<not> True))\<lparr>pt_state := s', pt_out := (URQ_CONCLUSION, s' \<noteq> RDV_ATTENTION)\<rparr>"
      using assms(2) a by (auto simp: party_recv_def party_out_ok_def switch_simps side_of_def)
  qed
  then show ?thesis by simp
qed

lemma lead_responder:
  assumes "at_states RDV_WAVING RDV_ATTENTION n"
  shows "\<exists>n'. rdv_step\<^sup>*\<^sup>* n n' \<and> at_states RDV_FINE RDV_ATTENTION n'"
proof -
  note a = at_states_out [OF assms(1)]
  have "\<exists>n'. rdv_step\<^sup>*\<^sup>* n n' \<and> (if False then at_states RDV_WAVING RDV_FINE n' else at_states RDV_FINE RDV_ATTENTION n')"
  proof (rule talk_states [OF assms(1)])
    show "pt_state (nt_party n False) \<noteq> RDV_CONNECTED" using a(2) by simp
    show "fst (party_recv (side_of (\<not> False)) (pt_out (nt_party n False)) (nt_party n (\<not> False))) =
      (nt_party n (\<not> False))\<lparr>pt_state := RDV_FINE, pt_out := (URQ_CONCLUSION, RDV_FINE \<noteq> RDV_ATTENTION)\<rparr>"
      using a by (auto simp: party_recv_def party_out_ok_def switch_simps side_of_def)
  qed
  then show ?thesis by simp
qed

lemma lead_connected:
  assumes "at_states si sr n" "sr \<in> {RDV_FINE, RDV_INITIATED}" "si \<in> {RDV_ATTENTION, RDV_FINE, RDV_CONNECTED}"
  shows "\<exists>n'. rdv_step\<^sup>*\<^sup>* n n' \<and> (\<forall>b. pt_state (nt_party n' b) = RDV_CONNECTED)"
proof -
  note a = at_states_out [OF assms(1)]
  have "nt_chan n x = []" for x using assms(1) by (simp add: at_states_def)
  moreover obtain p where
    r: "party_recv (side_of (\<not> False)) (pt_out (nt_party n False)) (nt_party n (\<not> False)) = (p, [(URQ_AGREEMENT, False)])"
    "pt_state p = RDV_CONNECTED"
    using assms(2,3) a by (auto simp: party_recv_def party_out_ok_def switch_simps side_of_def)
  moreover have "pt_state (nt_party n False) \<noteq> RDV_CONNECTED" using a(2) assms(2) by auto
  ultimately obtain n1 where 1: "rdv_step\<^sup>*\<^sup>* n n1" "nt_party n1 = (nt_party n)(True := p)"
    "nt_chan n1 = (\<lambda>_. [])(False := [(URQ_AGREEMENT, False)])"
    using talk [of n False p "[(URQ_AGREEMENT, False)]"] a(3) [of False] by auto
  let ?n2 = "net_recv False (URQ_AGREEMENT, False) [] n1"
  have "rdv_step n1 ?n2" using 1(3) by (intro rdv_step.recv) simp
  moreover have "\<forall>b. pt_state (nt_party ?n2 b) = RDV_CONNECTED"
    using 1(2) r(2) a(2) a(3) [of False] assms(2) by (auto simp: net_recv_def party_recv_def switch_simps side_of_def all_bool_eq)
  ultimately show ?thesis using 1(1) by (intro exI [of _ ?n2]) auto
qed

text \<open>
  C11. As long as neither party has given up, the rendezvous can always be completed: from every
  reachable situation, whatever was lost before, some continuation connects both parties.
\<close>

theorem rendezvous_can_complete:
  assumes "rdv_step\<^sup>*\<^sup>* rdv_init n" "\<forall>b. \<not> pt_dead (nt_party n b)"
  shows "\<exists>n'. rdv_step\<^sup>*\<^sup>* n n' \<and> (\<forall>b. pt_state (nt_party n' b) = RDV_CONNECTED)"
proof -
  obtain n1 where 1: "rdv_step\<^sup>*\<^sup>* n n1" "nt_party n1 = nt_party n" "nt_chan n1 = (\<lambda>_. [])" using flush by blast
  have inv: "rdv_inv n1" using rdv_inv_steps [OF 1(1)] rdv_reachable_inv [OF assms(1)] by blast
  define si sr where "si = pt_state (nt_party n1 True)" and "sr = pt_state (nt_party n1 False)"
  have at: "at_states si sr n1" using inv assms(2) 1(2,3) by (simp add: at_states_def si_def sr_def)
  note i = rdv_invD [OF inv]
  have late: ?thesis if "at_states s r m" "rdv_step\<^sup>*\<^sup>* n m" "r \<in> {RDV_FINE, RDV_INITIATED}" "s \<in> {RDV_ATTENTION, RDV_FINE, RDV_CONNECTED}" for s r m
    using lead_connected [OF that(1,3,4)] that(2) by (meson rtranclp_trans)
  have att: ?thesis if "at_states s RDV_ATTENTION m" "rdv_step\<^sup>*\<^sup>* n m" "s \<in> {RDV_ATTENTION, RDV_FINE}" for s m
  proof -
    have "(s, RDV_ATTENTION, RDV_INITIATED) \<in> {(RDV_WAVING, RDV_WAVING, RDV_ATTENTION), (RDV_ATTENTION, RDV_WAVING, RDV_FINE),
     (RDV_ATTENTION, RDV_ATTENTION, RDV_INITIATED), (RDV_FINE, RDV_ATTENTION, RDV_INITIATED)}" using that(3) by auto
    from lead_initiator [OF that(1) this] obtain m' where m': "rdv_step\<^sup>*\<^sup>* m m'" "at_states s RDV_INITIATED m'" by blast
    then show ?thesis using late [OF m'(2)] that(2,3) by (auto dest: rtranclp_trans)
  qed
  have w_att: ?thesis if at: "at_states RDV_WAVING RDV_ATTENTION m" and st: "rdv_step\<^sup>*\<^sup>* n m" for m
  proof -
    from lead_responder [OF at] obtain m' where "rdv_step\<^sup>*\<^sup>* m m'" "at_states RDV_FINE RDV_ATTENTION m'" by blast
    then show ?thesis using att [of RDV_FINE m'] st by (auto dest: rtranclp_trans)
  qed
  have o: "sr \<noteq> RDV_INVALID" "si \<notin> {RDV_INVALID, RDV_INITIATED}"
    using i(1) [of False] i(1) [of True] by (auto simp: party_out_ok_def si_def sr_def)
  have h: "si = RDV_FINE \<Longrightarrow> sr \<notin> {RDV_WAVING, RDV_FINE}" "sr = RDV_FINE \<Longrightarrow> si \<notin> {RDV_WAVING, RDV_FINE}"
    "sr = RDV_INITIATED \<Longrightarrow> si \<noteq> RDV_WAVING" "si = RDV_CONNECTED \<Longrightarrow> sr \<notin> {RDV_WAVING, RDV_ATTENTION}"
    "sr = RDV_CONNECTED \<Longrightarrow> si = RDV_CONNECTED"
    using i(3) [of True] i(3) [of False] by (simp_all add: half_inv_def si_def sr_def)
  consider "sr \<in> {RDV_FINE, RDV_INITIATED}" "si \<in> {RDV_ATTENTION, RDV_FINE, RDV_CONNECTED}"
    | "sr = RDV_CONNECTED" "si = RDV_CONNECTED" | "sr = RDV_ATTENTION" "si \<in> {RDV_ATTENTION, RDV_FINE}"
    | "sr = RDV_ATTENTION" "si = RDV_WAVING" | "sr = RDV_WAVING" "si = RDV_WAVING" | "sr = RDV_WAVING" "si = RDV_ATTENTION"
    using o h by (cases sr; cases si) auto
  then show ?thesis
  proof cases
    case 2
    then have "\<forall>b. pt_state (nt_party n1 b) = RDV_CONNECTED" by (simp add: si_def sr_def all_bool_eq)
    then show ?thesis using 1(1) by blast
  next
    case 5
    with lead_initiator [OF at, of RDV_ATTENTION] obtain m where "rdv_step\<^sup>*\<^sup>* n1 m" "at_states RDV_WAVING RDV_ATTENTION m" by auto
    then show ?thesis using w_att [of m] 1(1) by (auto dest: rtranclp_trans)
  next
    case 6
    with lead_initiator [OF at, of RDV_FINE] obtain m where "rdv_step\<^sup>*\<^sup>* n1 m" "at_states RDV_ATTENTION RDV_FINE m" by auto
    then show ?thesis using late [of RDV_ATTENTION RDV_FINE m] 1(1) by (auto dest: rtranclp_trans)
  qed (use at late att w_att 1(1) in auto)
qed

definition two_net :: "rdv_party \<Rightarrow> rdv_party \<Rightarrow> (int \<times> bool) list \<Rightarrow> (int \<times> bool) list \<Rightarrow> rdv_net" where
  "two_net p q c d = \<lparr>nt_party = (\<lambda>b. if b then p else q), nt_chan = (\<lambda>b. if b then c else d)\<rparr>"

lemma two_net_upd:
  "(two_net p q c d)\<lparr>nt_chan := (nt_chan (two_net p q c d))(True := c')\<rparr> = two_net p q c' d"
  "(two_net p q c d)\<lparr>nt_chan := (nt_chan (two_net p q c d))(False := d')\<rparr> = two_net p q c d'"
  by (simp_all add: two_net_def fun_eq_iff)

lemma two_net_sel [simp]:
  "nt_party (two_net p q c d) True = p" "nt_party (two_net p q c d) False = q"
  "nt_chan (two_net p q c d) True = c" "nt_chan (two_net p q c d) False = d"
  by (simp_all add: two_net_def)

lemma two_net_steps:
  "\<not> pt_dead q \<Longrightarrow> pt_state q \<noteq> RDV_CONNECTED \<Longrightarrow> udp_step (two_net p q c d) (two_net p q (c @ [pt_out q]) d)"
  "\<not> pt_dead p \<Longrightarrow> pt_state p \<noteq> RDV_CONNECTED \<Longrightarrow> udp_step (two_net p q c d) (two_net p q c (d @ [pt_out p]))"
  "party_recv HSD_INITIATOR m p = (p', r) \<Longrightarrow> udp_step (two_net p q (m # c) d) (two_net p' q c (d @ r))"
  "party_recv HSD_RESPONDER m q = (q', r) \<Longrightarrow> udp_step (two_net p q c (m # d)) (two_net p q' (c @ r) d)"
  "udp_step (two_net p q [m, m'] d) (two_net p q [m', m] d)"
proof -
  show "udp_step (two_net p q c d) (two_net p q (c @ [pt_out q]) d)" if "\<not> pt_dead q" "pt_state q \<noteq> RDV_CONNECTED"
    using rdv_step.send [of "two_net p q c d" False] that by (simp add: two_net_upd udp_step.ordered)
  show "udp_step (two_net p q c d) (two_net p q c (d @ [pt_out p]))" if "\<not> pt_dead p" "pt_state p \<noteq> RDV_CONNECTED"
    using rdv_step.send [of "two_net p q c d" True] that by (simp add: two_net_upd udp_step.ordered)
  show "udp_step (two_net p q (m # c) d) (two_net p' q c (d @ r))" if "party_recv HSD_INITIATOR m p = (p', r)"
  proof -
    have "net_recv True m c (two_net p q (m # c) d) = two_net p' q c (d @ r)"
      using that by (simp add: net_recv_def side_of_def two_net_def fun_eq_iff)
    then show ?thesis using rdv_step.recv [of "two_net p q (m # c) d" True m c] by (simp add: udp_step.ordered)
  qed
  show "udp_step (two_net p q c (m # d)) (two_net p q' (c @ r) d)" if "party_recv HSD_RESPONDER m q = (q', r)"
  proof -
    have "net_recv False m d (two_net p q c (m # d)) = two_net p q' (c @ r) d"
      using that by (simp add: net_recv_def side_of_def two_net_def fun_eq_iff)
    then show ?thesis using rdv_step.recv [of "two_net p q c (m # d)" False m d] by (simp add: udp_step.ordered)
  qed
  show "udp_step (two_net p q [m, m'] d) (two_net p q [m', m] d)"
    using udp_step.swap [of "two_net p q [m, m'] d" True "[]" m m' "[]"] by (simp add: two_net_upd)
qed

text \<open>
  C35. A reordered waveahand breaks a rendezvous that was going well: in the datagram network a run
  reaches a state in which a party has rejected its peer as rogue.
\<close>

theorem rendezvous_reordered:
  "\<exists>n. udp_step\<^sup>*\<^sup>* rdv_init n \<and> pt_rogue (nt_party n True) \<and> pt_state (nt_party n False) = RDV_ATTENTION"
proof -
  let ?W = "(URQ_WAVEAHAND, False)" and ?C = "(URQ_CONCLUSION, False)"
  define p where "p = \<lparr>pt_state = RDV_WAVING, pt_out = ?W, pt_dead = False, pt_rogue = False\<rparr>"
  define q where "q = \<lparr>pt_state = RDV_ATTENTION, pt_out = ?C, pt_dead = False, pt_rogue = False\<rparr>"
  define f where "f = \<lparr>pt_state = RDV_FINE, pt_out = (URQ_CONCLUSION, True), pt_dead = False, pt_rogue = False\<rparr>"
  define x where "x = \<lparr>pt_state = RDV_WAVING, pt_out = (URQ_CONCLUSION, True), pt_dead = True, pt_rogue = True\<rparr>"
  have P: "\<not> pt_dead p" "pt_state p \<noteq> RDV_CONNECTED" "pt_out p = ?W" by (simp_all add: p_def)
  have Q: "\<not> pt_dead q" "pt_state q \<noteq> RDV_CONNECTED" "pt_out q = ?C" by (simp_all add: q_def)
  have r: "party_recv HSD_RESPONDER ?W p = (q, [])" "party_recv HSD_INITIATOR ?C p = (f, [])"
    "party_recv HSD_INITIATOR ?W f = (x, [])"
    by (simp_all add: p_def q_def f_def x_def party_recv_def switch_simps)
      (simp add: rdv_switch_defs rdv_rogue_def URQFailure_def urq_defs)
  have "udp_step (two_net p p [] []) (two_net p p [?W] [])" using two_net_steps(1) [OF P(1,2), of p "[]" "[]"] P(3) by simp
  moreover have "udp_step (two_net p p [?W] []) (two_net p p [?W] [?W])" using two_net_steps(2) [OF P(1,2), of p "[?W]" "[]"] P(3) by simp
  moreover have "udp_step (two_net p p [?W] [?W]) (two_net p q [?W] [])" using two_net_steps(4) [OF r(1), of p "[?W]" "[]"] by simp
  moreover have "udp_step (two_net p q [?W] []) (two_net p q [?W, ?C] [])" using two_net_steps(1) [OF Q(1,2), of p "[?W]" "[]"] Q(3) by simp
  moreover have "udp_step (two_net p q [?W, ?C] []) (two_net p q [?C, ?W] [])" by (rule two_net_steps(5))
  moreover have "udp_step (two_net p q [?C, ?W] []) (two_net f q [?W] [])" using two_net_steps(3) [OF r(2), of q "[?W]" "[]"] by simp
  moreover have "udp_step (two_net f q [?W] []) (two_net x q [] [])" using two_net_steps(3) [OF r(3), of q "[]" "[]"] by simp
  moreover have "rdv_init = two_net p p [] []" by (simp add: rdv_init_def two_net_def p_def fun_eq_iff)
  ultimately have "udp_step\<^sup>*\<^sup>* rdv_init (two_net x q [] [])"
    by (metis (no_types, lifting) converse_rtranclp_into_rtranclp rtranclp.rtrancl_refl)
  then show ?thesis by (intro exI [of _ "two_net x q [] []"]) (simp add: x_def q_def)
qed

lemma rendezvous_safe_witness: "\<not> pt_rogue (nt_party rdv_init True)"
  using rendezvous_safe [of rdv_init True] by simp

lemma rendezvous_can_complete_witness:
  "\<exists>n'. rdv_step\<^sup>*\<^sup>* rdv_init n' \<and> (\<forall>b. pt_state (nt_party n' b) = RDV_CONNECTED)"
  using rendezvous_can_complete [of rdv_init] by (simp add: rdv_init_def)

end
