(* ===== verification/SndSchedule.thy ===== *)
theory SndSchedule
  imports Prelude "HOL-Library.Multiset"
begin

text \<open>
  The schedule of the sending thread (\<open>CSndUList\<close>, \<open>queue.cpp\<close>): a binary heap of sockets ordered by
  their time stamps, where every node knows its place. The heap array is the list of its live
  entries (\<open>m_iLastEntry + 1\<close> of them); sockets are numbers. The signals to the sending thread are
  returned as a flag that says whether the timer was interrupted. The locale \<open>schedule\<close> is the
  contract that the sending thread relies on; it is interpreted on the operations of the model.
\<close>

subsection \<open>The contract of a schedule\<close>

locale schedule =
  fixes inv :: "'s \<Rightarrow> bool"
    and members :: "'s \<Rightarrow> 'u set"
    and key :: "'s \<Rightarrow> 'u \<Rightarrow> int"
    and first :: "'s \<Rightarrow> 'u"
    and enter :: "int \<Rightarrow> 'u \<Rightarrow> 's \<Rightarrow> 's"
    and leave :: "'s \<Rightarrow> 's"
  assumes finite_members: "inv s \<Longrightarrow> finite (members s)"
    and first_min: "inv s \<Longrightarrow> members s \<noteq> {} \<Longrightarrow> first s \<in> members s \<and> (\<forall>u\<in>members s. key s (first s) \<le> key s u)"
    and enter_new: "inv s \<Longrightarrow> u \<notin> members s \<Longrightarrow> inv (enter t u s) \<and> members (enter t u s) = insert u (members s) \<and>
      (\<forall>v\<in>members (enter t u s). key (enter t u s) v = (if v = u then t else key s v))"
    and leave_first: "inv s \<Longrightarrow> members s \<noteq> {} \<Longrightarrow> inv (leave s) \<and> members (leave s) = members s - {first s} \<and>
      (\<forall>v\<in>members (leave s). key (leave s) v = key s v)"
begin

text \<open>Sending everything that is scheduled happens in the order of the keys.\<close>

fun drain :: "nat \<Rightarrow> 's \<Rightarrow> 'u list" where
  "drain 0 s = []"
| "drain (Suc n) s = (if members s = {} then [] else first s # drain n (leave s))"

lemma drain_set: "inv s \<Longrightarrow> card (members s) \<le> n \<Longrightarrow> set (drain n s) = members s \<and> distinct (drain n s)"
proof (induction n arbitrary: s)
  case 0
  then show ?case using finite_members by auto
next
  case (Suc n)
  show ?case
  proof (cases "members s = {}")
    case False
    note l = leave_first [OF Suc.prems(1) False] and f = first_min [OF Suc.prems(1) False]
    have "card (members (leave s)) \<le> n" using l f Suc.prems finite_members [OF Suc.prems(1)] by (simp add: card_Diff_singleton)
    with Suc.IH l have "set (drain n (leave s)) = members (leave s) \<and> distinct (drain n (leave s))" by blast
    with l f False show ?thesis by auto
  qed simp
qed

lemma drain_sorted: "inv s \<Longrightarrow> card (members s) \<le> n \<Longrightarrow> sorted (map (key s) (drain n s))"
proof (induction n arbitrary: s)
  case (Suc n)
  show ?case
  proof (cases "members s = {}")
    case False
    note l = leave_first [OF Suc.prems(1) False] and f = first_min [OF Suc.prems(1) False]
    have c: "card (members (leave s)) \<le> n" using l f Suc.prems finite_members [OF Suc.prems(1)] by (simp add: card_Diff_singleton)
    with Suc.IH l have "sorted (map (key (leave s)) (drain n (leave s)))" by blast
    moreover have d: "set (drain n (leave s)) = members (leave s)" using drain_set l c by blast
    moreover have "map (key (leave s)) (drain n (leave s)) = map (key s) (drain n (leave s))" using l d by simp
    ultimately show ?thesis using f l False by auto
  qed simp
qed simp

end

subsection \<open>The heap\<close>

record CSndUList =
  su_heap :: "nat list"
  su_iArrayLength :: nat
  su_ts :: "nat \<Rightarrow> int"
  su_loc :: "nat \<Rightarrow> int"

definition su_new :: CSndUList where
  "su_new = \<lparr>su_heap = [], su_iArrayLength = 512, su_ts = (\<lambda>_. 0), su_loc = (\<lambda>_. - 1)\<rparr>"

definition parent :: "nat \<Rightarrow> nat" where
  "parent i = (i - 1) div 2"

definition swap_at :: "nat \<Rightarrow> nat \<Rightarrow> 'a list \<Rightarrow> 'a list" where
  "swap_at p q h = h[p := h ! q, q := h ! p]"

function sift_up :: "(nat \<Rightarrow> int) \<Rightarrow> nat \<Rightarrow> nat list \<times> (nat \<Rightarrow> int) \<Rightarrow> nat list \<times> (nat \<Rightarrow> int) \<times> nat" where
  "sift_up ts q (h, loc) =
     (if q = 0 then (h, loc, q)
      else
        (let p = parent q
         in if ts (h ! p) \<le> ts (h ! q) then (h, loc, q)
            else (let h = swap_at p q h in sift_up ts p (h, loc(h ! q := int q)))))"
  by pat_completeness auto
termination
  by (relation "measure (\<lambda>(ts, q, s). q)") (auto simp: parent_def)

function sift_down :: "(nat \<Rightarrow> int) \<Rightarrow> nat \<Rightarrow> nat list \<times> (nat \<Rightarrow> int) \<Rightarrow> nat list \<times> (nat \<Rightarrow> int)" where
  "sift_down ts q (h, loc) =
     (let p = q * 2 + 1
      in if p < length h then
           (let p = (if p + 1 < length h \<and> ts (h ! p) > ts (h ! (p + 1)) then p + 1 else p)
            in if ts (h ! q) > ts (h ! p) then
                 (let h = swap_at p q h in sift_down ts p (h, loc(h ! p := int p, h ! q := int q)))
               else (h, loc))
         else (h, loc))"
  by pat_completeness auto
termination
  by (relation "measure (\<lambda>(ts, q, h, loc). length h - q)") (auto simp: swap_at_def split: if_splits)

declare sift_up.simps [simp del] sift_down.simps [simp del]

text \<open>The second component says whether the timer is interrupted.\<close>

definition su_insert_norealloc :: "int \<Rightarrow> nat \<Rightarrow> CSndUList \<Rightarrow> CSndUList \<times> bool" where
  "su_insert_norealloc t u s =
     (if su_loc s u \<ge> 0 then (s, False)
      else
        (let h = su_heap s @ [u]; ts = (su_ts s)(u := t);
             (h, loc, q) = sift_up ts (length h - 1) (h, su_loc s);
             loc = loc(u := int q)
         in (s\<lparr>su_heap := h, su_ts := ts, su_loc := loc\<rparr>, q = 0)))"

definition su_insert :: "int \<Rightarrow> nat \<Rightarrow> CSndUList \<Rightarrow> CSndUList \<times> bool" where
  "su_insert t u s =
     su_insert_norealloc t u (if length (su_heap s) = su_iArrayLength s then s\<lparr>su_iArrayLength := 2 * su_iArrayLength s\<rparr> else s)"

definition su_remove :: "nat \<Rightarrow> CSndUList \<Rightarrow> CSndUList \<times> bool" where
  "su_remove u s =
     (let s' =
        (if su_loc s u \<ge> 0 then
           (let l = nat (su_loc s u); lst = last (su_heap s);
                h = butlast ((su_heap s)[l := lst]);
                loc = (su_loc s)(lst := int l);
                (h, loc) = sift_down (su_ts s) l (h, loc)
            in s\<lparr>su_heap := h, su_loc := loc(u := - 1)\<rparr>)
         else s)
      in (s', length (su_heap s') = 1))"

definition su_update :: "nat \<Rightarrow> bool \<Rightarrow> CSndUList \<Rightarrow> CSndUList \<times> bool" where
  "su_update u reschedule s =
     (if su_loc s u \<ge> 0 then
        (if \<not> reschedule then (s, False)
         else if su_loc s u = 0 then (s\<lparr>su_ts := (su_ts s)(u := 1)\<rparr>, True)
         else (let (s, i1) = su_remove u s; (s, i2) = su_insert_norealloc 1 u s in (s, i1 \<or> i2)))
      else su_insert 1 u s)"

definition getNextProcTime :: "CSndUList \<Rightarrow> int" where
  "getNextProcTime s = (if su_heap s = [] then 0 else su_ts s (su_heap s ! 0))"

text \<open>
  \<open>pop\<close> asks the socket at the top for a packet: \<open>alive\<close> is \<open>m_bConnected && !m_bBroken\<close>, \<open>pack\<close> is what
  \<open>packData\<close> returned with the next time of this socket. The socket is taken out of the heap first.
\<close>

definition su_pop :: "int \<Rightarrow> (nat \<Rightarrow> bool) \<Rightarrow> (nat \<Rightarrow> int \<times> int) \<Rightarrow> CSndUList \<Rightarrow> nat option \<times> CSndUList" where
  "su_pop now alive pack s =
     (if su_heap s = [] then (None, s)
      else if now < su_ts s (su_heap s ! 0) then (None, s)
      else
        (let u = su_heap s ! 0; s = fst (su_remove u s)
         in if \<not> alive u then (None, s)
            else
              (let (packed, t) = pack u
               in if packed \<le> 0 then (None, s)
                  else (Some u, if t > 0 then fst (su_insert_norealloc t u s) else s))))"

subsection \<open>Invariants\<close>

definition su_wf :: "CSndUList \<Rightarrow> bool" where
  "su_wf s \<longleftrightarrow> distinct (su_heap s) \<and> (\<forall>i < length (su_heap s). su_loc s (su_heap s ! i) = int i) \<and>
     (\<forall>u. u \<notin> set (su_heap s) \<longrightarrow> su_loc s u = - 1) \<and> length (su_heap s) \<le> su_iArrayLength s \<and> 0 < su_iArrayLength s"

definition heap_order :: "(nat \<Rightarrow> int) \<Rightarrow> nat list \<Rightarrow> bool" where
  "heap_order ts h \<longleftrightarrow> (\<forall>i. 0 < i \<and> i < length h \<longrightarrow> ts (h ! parent i) \<le> ts (h ! i))"

definition su_inv :: "CSndUList \<Rightarrow> bool" where
  "su_inv s \<longleftrightarrow> su_wf s \<and> heap_order (su_ts s) (su_heap s)"

subsection \<open>Sifting\<close>

definition loc_ok :: "nat set \<Rightarrow> nat list \<Rightarrow> (nat \<Rightarrow> int) \<Rightarrow> bool" where
  "loc_ok E h loc \<longleftrightarrow> (\<forall>i < length h. i \<notin> E \<longrightarrow> loc (h ! i) = int i)"

definition up_ok :: "(nat \<Rightarrow> int) \<Rightarrow> nat list \<Rightarrow> nat \<Rightarrow> bool" where
  "up_ok ts h q \<longleftrightarrow> (\<forall>i. 0 < i \<and> i < length h \<and> i \<noteq> q \<longrightarrow> ts (h ! parent i) \<le> ts (h ! i)) \<and>
     (\<forall>i. 0 < i \<and> i < length h \<and> parent i = q \<and> 0 < q \<longrightarrow> ts (h ! parent q) \<le> ts (h ! i))"

definition down_ok :: "(nat \<Rightarrow> int) \<Rightarrow> nat list \<Rightarrow> nat \<Rightarrow> bool" where
  "down_ok ts h q \<longleftrightarrow> (\<forall>i. 0 < i \<and> i < length h \<and> parent i \<noteq> q \<longrightarrow> ts (h ! parent i) \<le> ts (h ! i)) \<and>
     (\<forall>i. 0 < i \<and> i < length h \<and> parent i = q \<and> 0 < q \<longrightarrow> ts (h ! parent q) \<le> ts (h ! i))"

lemma parent_less: "0 < i \<Longrightarrow> parent i < i"
  by (simp add: parent_def)

lemma length_swap_at [simp]: "length (swap_at p q h) = length h"
  by (simp add: swap_at_def)

lemma mset_swap_at [simp]: "p < length h \<Longrightarrow> q < length h \<Longrightarrow> mset (swap_at p q h) = mset h"
  by (simp add: swap_at_def mset_swap)

lemma set_swap_at [simp]: "p < length h \<Longrightarrow> q < length h \<Longrightarrow> set (swap_at p q h) = set h"
  by (metis mset_swap_at set_mset_mset)

lemma distinct_swap_at [simp]: "p < length h \<Longrightarrow> q < length h \<Longrightarrow> distinct (swap_at p q h) = distinct h"
  by (metis mset_swap_at mset_eq_imp_distinct_iff)

lemma nth_swap_at:
  "p < length h \<Longrightarrow> q < length h \<Longrightarrow> i < length h \<Longrightarrow> swap_at p q h ! i = (if i = p then h ! q else if i = q then h ! p else h ! i)"
  by (auto simp: swap_at_def nth_list_update)

lemma heap_order_up: "heap_order ts h \<longleftrightarrow> up_ok ts h 0"
  by (auto simp: heap_order_def up_ok_def)

lemma up_ok_done: "up_ok ts h q \<Longrightarrow> q = 0 \<or> ts (h ! parent q) \<le> ts (h ! q) \<Longrightarrow> heap_order ts h"
  by (auto simp: heap_order_def up_ok_def)

lemma up_ok_step:
  assumes u: "up_ok ts h q" and q: "0 < q" "q < length h" and lt: "ts (h ! q) < ts (h ! parent q)"
  shows "up_ok ts (swap_at (parent q) q h) (parent q)"
proof -
  let ?p = "parent q" and ?h = "swap_at (parent q) q h"
  have p: "?p < q" "?p < length h" using parent_less [of q] q by auto
  have n: "?h ! i = (if i = ?p then h ! q else if i = q then h ! ?p else h ! i)" if "i < length h" for i
    using nth_swap_at [OF p(2) q(2) that] .
  have a: "ts (?h ! parent i) \<le> ts (?h ! i)" if i: "0 < i" "i < length h" "i \<noteq> ?p" for i
  proof -
    have pi: "parent i < length h" using parent_less [of i] i by simp
    show ?thesis
    proof (cases "i = q")
      case True then show ?thesis using n [OF q(2)] n [OF p(2)] p lt by auto
    next
      case False
      have b: "ts (h ! parent i) \<le> ts (h ! i)" using u i False by (simp add: up_ok_def)
      show ?thesis
      proof (cases "parent i = q")
        case True
        then have "ts (h ! ?p) \<le> ts (h ! i)" using u i q by (simp add: up_ok_def)
        with True n [OF i(2)] n [OF q(2)] p i False show ?thesis by auto
      next
        case F: False
        show ?thesis using n [OF i(2)] n [OF pi] b F False i lt by (cases "parent i = ?p") auto
      qed
    qed
  qed
  have g: "ts (?h ! parent ?p) \<le> ts (?h ! i)" if i: "0 < i" "i < length h" "parent i = ?p" "0 < ?p" for i
  proof -
    have pp: "parent ?p < ?p" using parent_less i by blast
    have up: "ts (h ! parent ?p) \<le> ts (h ! ?p)" using u i p q by (simp add: up_ok_def)
    have ip: "i \<noteq> ?p" using i parent_less [of i] by auto
    have pl: "parent ?p < length h" using pp p by simp
    have e: "?h ! parent ?p = h ! parent ?p" using n [OF pl] pp p by auto
    show ?thesis
    proof (cases "i = q")
      case True then show ?thesis using e n [OF q(2)] p up by auto
    next
      case False
      then have "ts (h ! ?p) \<le> ts (h ! i)" using u i by (metis up_ok_def)
      then show ?thesis using e n [OF i(2)] False ip up by auto
    qed
  qed
  from a g show ?thesis by (auto simp: up_ok_def)
qed

lemma sift_up_stop: "q = 0 \<or> ts (h ! parent q) \<le> ts (h ! q) \<Longrightarrow> sift_up ts q (h, loc) = (h, loc, q)"
  by (subst sift_up.simps) (auto simp: Let_def)

lemma sift_up_ok:
  assumes "distinct h" "q < length h" "loc_ok {q} h loc" "sift_up ts q (h, loc) = (h', loc', q')"
  shows "mset h' = mset h \<and> (up_ok ts h q \<longrightarrow> heap_order ts h') \<and> q' < length h \<and> h' ! q' = h ! q \<and> loc_ok {q'} h' loc' \<and>
    (\<forall>u. u \<notin> set h \<longrightarrow> loc' u = loc u)"
  using assms
proof (induction ts q "(h, loc)" arbitrary: h loc rule: sift_up.induct)
  case (1 ts q h loc)
  show ?case
  proof (cases "q = 0 \<or> ts (h ! parent q) \<le> ts (h ! q)")
    case True
    then have "(h', loc', q') = (h, loc, q)" using 1(5) sift_up_stop [OF True, of loc] by simp
    with True 1 up_ok_done show ?thesis by auto
  next
    case False
    let ?p = "parent q" and ?h = "swap_at (parent q) q h"
    let ?l = "loc(?h ! q := int q)"
    have q: "0 < q" and lt: "ts (h ! q) < ts (h ! ?p)" using False by auto
    have p: "?p < q" "?p < length h" using parent_less [of q] q 1(3) by auto
    have r: "sift_up ts ?p (?h, ?l) = (h', loc', q')"
      using 1(5) False by (simp add: sift_up.simps [of ts q] Let_def)
    have hq: "?h ! q = h ! ?p" "?h ! ?p = h ! q" using nth_swap_at [OF p(2) 1(3)] p 1(3) by auto
    have l: "loc_ok {?p} ?h ?l"
    proof (unfold loc_ok_def, intro allI impI)
      fix i assume i: "i < length ?h" "i \<notin> {?p}"
      show "?l (?h ! i) = int i"
      proof (cases "i = q")
        case False
        then have e: "?h ! i = h ! i" using nth_swap_at [OF p(2) 1(3), of i] i by simp
        have "h ! i \<noteq> h ! ?p" using 1(2) i p nth_eq_iff_index_eq [of h i ?p] by auto
        moreover have "loc (h ! i) = int i" using 1(4) i False by (simp add: loc_ok_def)
        ultimately show ?thesis using e hq by simp
      qed simp
    qed
    have "mset h' = mset ?h \<and> (up_ok ts ?h ?p \<longrightarrow> heap_order ts h') \<and> q' < length ?h \<and> h' ! q' = ?h ! ?p \<and> loc_ok {q'} h' loc' \<and>
        (\<forall>u. u \<notin> set ?h \<longrightarrow> loc' u = ?l u)"
    proof (rule 1(1))
      show "\<not> q = 0" using q by simp
      show "\<not> ts (h ! ?p) \<le> ts (h ! q)" using lt by simp
      show "distinct ?h" using 1(2,3) p by simp
    qed (use l r p in auto)
    moreover have "up_ok ts ?h ?p" if "up_ok ts h q" by (rule up_ok_step [OF that q 1(3) lt])
    moreover have "?h ! q \<in> set h" using hq p by simp
    ultimately show ?thesis using hq p 1(3) by auto
  qed
qed

lemma parent_eq: "0 < i \<Longrightarrow> parent i = q \<longleftrightarrow> i = 2 * q + 1 \<or> i = 2 * q + 2"
  by (auto simp: parent_def)

lemma down_ok_done:
  assumes d: "down_ok ts h q" and c: "\<And>i. 0 < i \<Longrightarrow> i < length h \<Longrightarrow> parent i = q \<Longrightarrow> ts (h ! q) \<le> ts (h ! i)"
  shows "heap_order ts h"
proof (unfold heap_order_def, intro allI impI)
  fix i assume i: "0 < i \<and> i < length h"
  show "ts (h ! parent i) \<le> ts (h ! i)"
    using d c [of i] i by (cases "parent i = q") (auto simp: down_ok_def)
qed

lemma down_ok_step:
  assumes d: "down_ok ts h q" and p: "p < length h" "0 < p" "parent p = q" and lt: "ts (h ! p) < ts (h ! q)"
    and m: "\<And>i. 0 < i \<Longrightarrow> i < length h \<Longrightarrow> parent i = q \<Longrightarrow> ts (h ! p) \<le> ts (h ! i)"
  shows "down_ok ts (swap_at p q h) p"
proof -
  let ?h = "swap_at p q h"
  have q: "q < p" "q < length h" using parent_less [of p] p by auto
  have n: "?h ! i = (if i = p then h ! q else if i = q then h ! p else h ! i)" if "i < length h" for i
    using nth_swap_at [OF p(1) q(2) that] .
  have a: "ts (?h ! parent i) \<le> ts (?h ! i)" if i: "0 < i" "i < length h" "parent i \<noteq> p" for i
  proof -
    have pi: "parent i < length h" "parent i < i" using parent_less [of i] i by simp_all
    show ?thesis
    proof (cases "parent i = q")
      case True
      then show ?thesis using n [OF i(2)] n [OF q(2)] q m [OF i(1,2) True] lt pi by auto
    next
      case False
      show ?thesis
      proof (cases "i = q")
        case True
        then have "ts (h ! parent q) \<le> ts (h ! p)" using d p i by (simp add: down_ok_def)
        then show ?thesis using True n [OF i(2)] n [OF pi(1)] q pi by auto
      next
        case iq: False
        have "i \<noteq> p" using False p by auto
        moreover have "ts (h ! parent i) \<le> ts (h ! i)" using d i False by (simp add: down_ok_def)
        ultimately show ?thesis using n [OF i(2)] n [OF pi(1)] False i iq by auto
      qed
    qed
  qed
  have g: "ts (?h ! parent p) \<le> ts (?h ! i)" if i: "0 < i" "i < length h" "parent i = p" for i
  proof -
    have ip: "p < i" using parent_less [OF i(1)] i by simp
    have "ts (h ! parent i) \<le> ts (h ! i)" using d i q unfolding down_ok_def by (metis less_irrefl)
    then show ?thesis using n [OF i(2)] n [OF q(2)] p q i ip by auto
  qed
  from a g show ?thesis by (auto simp: down_ok_def)
qed

lemma sift_down_within:
  assumes p: "p = (if q * 2 + 1 + 1 < length h \<and> ts (h ! (q * 2 + 1)) > ts (h ! (q * 2 + 1 + 1)) then q * 2 + 1 + 1 else q * 2 + 1)"
    and l: "q * 2 + 1 < length h"
  shows "sift_down ts q (h, loc) =
    (if ts (h ! q) > ts (h ! p)
     then sift_down ts p (swap_at p q h, loc(swap_at p q h ! p := int p, swap_at p q h ! q := int q)) else (h, loc))"
  by (subst sift_down.simps) (simp only: Let_def p [symmetric] l if_True)

lemma sift_down_ok:
  assumes "distinct h" "loc_ok {} h loc" "sift_down ts q (h, loc) = (h', loc')"
  shows "mset h' = mset h \<and> (down_ok ts h q \<longrightarrow> heap_order ts h') \<and> loc_ok {} h' loc' \<and> (\<forall>u. u \<notin> set h \<longrightarrow> loc' u = loc u)"
  using assms
proof (induction ts q "(h, loc)" arbitrary: h loc rule: sift_down.induct)
  case (1 ts q h loc)
  let ?p = "if q * 2 + 1 + 1 < length h \<and> ts (h ! (q * 2 + 1)) > ts (h ! (q * 2 + 1 + 1)) then q * 2 + 1 + 1 else q * 2 + 1"
  define p where "p = ?p"
  consider (out) "\<not> q * 2 + 1 < length h" | (stop) "q * 2 + 1 < length h" "\<not> ts (h ! q) > ts (h ! p)"
    | (go) "q * 2 + 1 < length h" "ts (h ! q) > ts (h ! p)" by blast
  then show ?case
  proof cases
    case out
    then have "(h', loc') = (h, loc)" using 1(4) by (auto simp: sift_down.simps [of ts q] Let_def)
    moreover have "heap_order ts h" if "down_ok ts h q" by (rule down_ok_done [OF that]) (use out parent_eq [of _ q] in auto)
    ultimately show ?thesis using 1(3) by simp
  next
    case stop
    then have "(h', loc') = (h, loc)" using 1(4) sift_down_within [OF p_def stop(1), of loc] by (simp only: stop(2) if_False)
    moreover have "heap_order ts h" if "down_ok ts h q"
    proof (rule down_ok_done [OF that])
      fix i assume "0 < i" "i < length h" "parent i = q"
      then show "ts (h ! q) \<le> ts (h ! i)" using stop parent_eq [of i q] by (auto simp: p_def mult.commute split: if_splits)
    qed
    ultimately show ?thesis using 1(3) by simp
  next
    case go
    have p: "p < length h" "0 < p" "q < p" using go by (auto simp: p_def)
    have pp: "parent p = q" using parent_eq [OF p(2), of q] by (auto simp: p_def)
    have m: "ts (h ! p) \<le> ts (h ! i)" if "0 < i" "i < length h" "parent i = q" for i
      using that parent_eq [of i q] by (auto simp: p_def mult.commute split: if_splits)
    let ?h = "swap_at p q h"
    let ?l = "loc(?h ! p := int p, ?h ! q := int q)"
    have r: "sift_down ts p (?h, ?l) = (h', loc')"
      using 1(4) sift_down_within [OF p_def go(1), of loc] by (simp only: go(2) if_True)
    have ql: "q < length h" using p by simp
    have hs: "?h ! q = h ! p" "?h ! p = h ! q" using nth_swap_at [OF p(1) ql] p by auto
    have l: "loc_ok {} ?h ?l"
    proof (unfold loc_ok_def, intro allI impI)
      fix i assume i: "i < length ?h" "i \<notin> {}"
      have d: "?h ! p \<noteq> ?h ! q" using p 1(2) hs nth_eq_iff_index_eq [of h p q] by auto
      show "?l (?h ! i) = int i"
      proof (cases "i = p \<or> i = q")
        case False
        then have e: "?h ! i = h ! i" using nth_swap_at [OF p(1) ql, of i] i by simp
        have "h ! i \<noteq> h ! p" "h ! i \<noteq> h ! q" using 1(2) i p False nth_eq_iff_index_eq [of h i] by auto
        moreover have "loc (h ! i) = int i" using 1(3) i by (simp add: loc_ok_def)
        ultimately show ?thesis using e hs by simp
      qed (use d in auto)
    qed
    have "mset h' = mset ?h \<and> (down_ok ts ?h p \<longrightarrow> heap_order ts h') \<and> loc_ok {} h' loc' \<and> (\<forall>u. u \<notin> set ?h \<longrightarrow> loc' u = ?l u)"
    proof (rule 1(1) [OF refl go(1) p_def _ refl])
      show "ts (h ! p) < ts (h ! q)" using go by simp
      show "distinct ?h" using 1(2) p ql by simp
    qed (use l r p in auto)
    moreover have "down_ok ts ?h p" if "down_ok ts h q" by (rule down_ok_step [OF that p(1,2) pp go(2) m])
    moreover have "?h ! q \<in> set h" "?h ! p \<in> set h" using hs p ql by simp_all
    ultimately show ?thesis using p ql by auto
  qed
qed

subsection \<open>The operations keep the invariant\<close>

lemma su_wf_loc: "su_wf s \<Longrightarrow> su_loc s u \<ge> 0 \<longleftrightarrow> u \<in> set (su_heap s)"
  by (cases "u \<in> set (su_heap s)") (auto simp: su_wf_def in_set_conv_nth)

lemma su_wf_at:
  assumes "su_wf s" "u \<in> set (su_heap s)"
  shows "nat (su_loc s u) < length (su_heap s)" "su_heap s ! nat (su_loc s u) = u"
  using assms by (auto simp: su_wf_def in_set_conv_nth)

lemma su_insert_norealloc_old: "su_loc s u \<ge> 0 \<Longrightarrow> su_insert_norealloc t u s = (s, False)"
  by (simp add: su_insert_norealloc_def)

lemma su_insert_norealloc_new:
  assumes w: "su_wf s" and u: "u \<notin> set (su_heap s)" and l: "length (su_heap s) < su_iArrayLength s"
    and e: "su_insert_norealloc t u s = (s', b)"
  shows "su_wf s' \<and> (heap_order (su_ts s) (su_heap s) \<longrightarrow> heap_order (su_ts s') (su_heap s')) \<and> set (su_heap s') = insert u (set (su_heap s)) \<and> su_ts s' = (su_ts s)(u := t) \<and>
    (b \<longleftrightarrow> su_heap s' ! 0 = u) \<and> su_iArrayLength s' = su_iArrayLength s \<and> length (su_heap s') = Suc (length (su_heap s))"
proof -
  let ?h = "su_heap s @ [u]" and ?n = "length (su_heap s)" and ?ts = "(su_ts s)(u := t)"
  obtain h loc q where sf: "sift_up ?ts ?n (?h, su_loc s) = (h, loc, q)" by (metis prod_cases3)
  have r: "s' = s\<lparr>su_heap := h, su_ts := ?ts, su_loc := loc(u := int q)\<rparr>" "b \<longleftrightarrow> q = 0"
    using e u su_wf_loc [OF w, of u] by (auto simp: su_insert_norealloc_def sf)
  have d: "distinct ?h" using w u by (simp add: su_wf_def)
  have up: "up_ok ?ts ?h ?n" if ho: "heap_order (su_ts s) (su_heap s)"
    unfolding up_ok_def
  proof (intro conjI allI impI)
    fix i assume i: "0 < i \<and> i < length ?h \<and> i \<noteq> ?n"
    then have "parent i < ?n" "i < ?n" using parent_less [of i] by auto
    moreover from this have "su_heap s ! i \<noteq> u" "su_heap s ! parent i \<noteq> u" using u nth_mem by metis+
    ultimately show "?ts (?h ! parent i) \<le> ?ts (?h ! i)" using ho i by (simp add: heap_order_def nth_append)
  next
    fix i assume "0 < i \<and> i < length ?h \<and> parent i = ?n \<and> 0 < ?n"
    then show "?ts (?h ! parent ?n) \<le> ?ts (?h ! i)" using parent_less [of i] by simp
  qed
  have lo: "loc_ok {?n} ?h (su_loc s)" using w by (auto simp: loc_ok_def su_wf_def nth_append)
  have o: "mset h = mset ?h \<and> (up_ok ?ts ?h ?n \<longrightarrow> heap_order ?ts h) \<and> q < length ?h \<and> h ! q = ?h ! ?n \<and> loc_ok {q} h loc \<and>
    (\<forall>u. u \<notin> set ?h \<longrightarrow> loc u = su_loc s u)"
    by (rule sift_up_ok [OF d _ lo sf]) simp
  then have st: "set h = insert u (set (su_heap s))" and ln: "length h = Suc ?n" and dh: "distinct h" and hq: "h ! q = u" and ql: "q < length h"
    using mset_eq_setD [of h ?h] mset_eq_length [of h ?h] mset_eq_imp_distinct_iff [of h ?h] d by simp_all
  have hi: "h ! i = u \<longleftrightarrow> i = q" if "i < length h" for i
    using nth_eq_iff_index_eq [OF dh that ql] hq by simp
  have "su_wf s'"
    unfolding su_wf_def
  proof (intro conjI allI impI)
    fix i assume "i < length (su_heap s')"
    then show "su_loc s' (su_heap s' ! i) = int i"
      using hi [of i] o r by (auto simp: loc_ok_def)
  next
    fix v assume "v \<notin> set (su_heap s')"
    then show "su_loc s' v = - 1" using o r st w by (auto simp: su_wf_def)
  qed (use dh r ln l w in \<open>auto simp: su_wf_def\<close>)
  moreover have "heap_order (su_ts s) (su_heap s) \<longrightarrow> heap_order (su_ts s') (su_heap s')" using o r up by simp
  ultimately show ?thesis using r st ln hi [of 0] by auto
qed

lemma su_insert_new:
  assumes w: "su_wf s" and u: "u \<notin> set (su_heap s)" and e: "su_insert t u s = (s', b)"
  shows "su_wf s' \<and> (heap_order (su_ts s) (su_heap s) \<longrightarrow> heap_order (su_ts s') (su_heap s')) \<and> set (su_heap s') = insert u (set (su_heap s)) \<and> su_ts s' = (su_ts s)(u := t) \<and> (b \<longleftrightarrow> su_heap s' ! 0 = u)"
proof -
  define s0 where "s0 = (if length (su_heap s) = su_iArrayLength s then s\<lparr>su_iArrayLength := 2 * su_iArrayLength s\<rparr> else s)"
  have s0: "su_wf s0" "su_heap s0 = su_heap s" "su_ts s0 = su_ts s" "length (su_heap s0) < su_iArrayLength s0"
    using w by (auto simp: s0_def su_wf_def)
  have "su_insert_norealloc t u s0 = (s', b)" using e by (simp add: su_insert_def s0_def)
  from su_insert_norealloc_new [OF s0(1) _ s0(4) this] u s0 show ?thesis by metis
qed

lemma su_remove_member:
  assumes w: "su_wf s" and u: "u \<in> set (su_heap s)" and e: "su_remove u s = (s', b)"
  shows "su_wf s' \<and> set (su_heap s') = set (su_heap s) - {u} \<and> su_ts s' = su_ts s \<and>
    (b \<longleftrightarrow> length (su_heap s) = 2) \<and>
    (heap_order (su_ts s) (su_heap s) \<and>
       (su_loc s u = 0 \<or> su_ts s (su_heap s ! parent (nat (su_loc s u))) \<le> su_ts s (last (su_heap s)))
     \<longrightarrow> heap_order (su_ts s') (su_heap s'))"
proof -
  let ?l = "nat (su_loc s u)" and ?g = "su_heap s" and ?ts = "su_ts s"
  let ?lst = "last (su_heap s)"
  let ?h = "butlast (?g[?l := ?lst])" and ?loc = "(su_loc s)(?lst := int ?l)"
  note at = su_wf_at [OF w u]
  have ne: "?g \<noteq> []" using u by auto
  have l0: "su_loc s u \<ge> 0" using su_wf_loc [OF w] u by simp
  obtain h loc where sf: "sift_down ?ts ?l (?h, ?loc) = (h, loc)" by fastforce
  have r: "s' = s\<lparr>su_heap := h, su_loc := loc(u := - 1)\<rparr>" "b \<longleftrightarrow> length h = 1"
    using e l0 sf by (auto simp: su_remove_def Let_def)
  have d0: "distinct ?g" using w by (simp add: su_wf_def)
  have ln: "length ?h = length ?g - 1" by simp
  have nth: "?h ! i = (if i = ?l then ?lst else ?g ! i)" if "i < length ?g - 1" for i
    using that at by (simp add: nth_butlast nth_list_update)
  have lst: "?lst = ?g ! (length ?g - 1)" using ne by (simp add: last_conv_nth)
  have m0: "mset ?h = mset ?g - {#u#}"
  proof (cases "?l = length ?g - 1")
    case True
    then have "?g[?l := ?lst] = ?g" using lst by simp
    moreover have "?lst = u" using lst at True by simp
    moreover have "mset ?g = add_mset ?lst (mset (butlast ?g))"
      using append_butlast_last_id [OF ne] by (metis add_mset_commute mset.simps(2) mset_append union_mset_add_mset_right append.right_neutral mset.simps(1) add.right_neutral)
    ultimately show ?thesis by simp
  next
    case False
    have "mset (?g[?l := ?lst]) = add_mset ?lst (mset ?g - {#u#})" using at by (simp add: mset_update)
    moreover have "last (?g[?l := ?lst]) = ?lst" using ne False at by (simp add: last_list_update)
    moreover have "mset (?g[?l := ?lst]) = add_mset (last (?g[?l := ?lst])) (mset ?h)"
      by (metis append_butlast_last_id ne list_update_nonempty mset_append union_mset_add_mset_right mset.simps add.right_neutral)
    ultimately show ?thesis by simp
  qed
  have dh: "distinct ?h" using d0 m0 by (metis distinct_remove1 mset_eq_imp_distinct_iff mset_remove1)
  have sth: "set ?h = set ?g - {u}"
    using m0 d0 by (metis set_mset_mset mset_remove1 set_remove1_eq)
  have lo: "loc_ok {} ?h ?loc"
  proof (unfold loc_ok_def, intro allI impI)
    fix i assume i: "i < length ?h" "i \<notin> {}"
    then have "?g ! i \<noteq> ?lst" using d0 lst nth_eq_iff_index_eq [of ?g i "length ?g - 1"] ne by auto
    moreover have "su_loc s (?g ! i) = int i" using i w by (simp add: su_wf_def)
    ultimately show "?loc (?h ! i) = int i" using nth [of i] i l0 by auto
  qed
  have o: "mset h = mset ?h \<and> (down_ok ?ts ?h ?l \<longrightarrow> heap_order ?ts h) \<and> loc_ok {} h loc \<and> (\<forall>v. v \<notin> set ?h \<longrightarrow> loc v = ?loc v)"
    by (rule sift_down_ok [OF dh lo sf])
  then have sh: "set h = set ?g - {u}" and dh': "distinct h" and lnh: "length h = length ?g - 1"
    using mset_eq_setD [of h ?h] mset_eq_length [of h ?h] mset_eq_imp_distinct_iff [of h ?h] dh sth by simp_all
  have "su_wf s'"
    unfolding su_wf_def
  proof (intro conjI allI impI)
    fix i assume i: "i < length (su_heap s')"
    then have "h ! i \<noteq> u" using sh r nth_mem [of i h] by auto
    then show "su_loc s' (su_heap s' ! i) = int i" using i o r by (simp add: loc_ok_def)
  next
    fix v assume v: "v \<notin> set (su_heap s')"
    have "?lst \<in> set ?g" using ne by simp
    then show "su_loc s' v = - 1" using v o r sh w sth by (cases "v = u") (auto simp: su_wf_def)
  qed (use dh' r lnh w in \<open>auto simp: su_wf_def\<close>)
  moreover have "heap_order ?ts h"
    if h0: "heap_order ?ts ?g" and c: "su_loc s u = 0 \<or> ?ts (?g ! parent ?l) \<le> ?ts ?lst"
  proof -
    have "down_ok ?ts ?h ?l"
      unfolding down_ok_def
    proof (intro conjI allI impI)
      fix i assume i: "0 < i \<and> i < length ?h \<and> parent i \<noteq> ?l"
      moreover have "parent i < i" using parent_less i by blast
      moreover have "?ts (?g ! parent i) \<le> ?ts (?g ! i)" using h0 i by (auto simp: heap_order_def)
      ultimately show "?ts (?h ! parent i) \<le> ?ts (?h ! i)" using nth [of i] nth [of "parent i"] c l0 by (auto simp: nat_eq_iff)
    next
      fix i assume i: "0 < i \<and> i < length ?h \<and> parent i = ?l \<and> 0 < ?l"
      have p: "parent i < i" "parent ?l < ?l" using parent_less i by blast+
      have "i < length ?g" using i by auto
      then have "?ts (?g ! parent i) \<le> ?ts (?g ! i)" "?ts (?g ! parent ?l) \<le> ?ts (?g ! ?l)"
        using h0 i at(1) unfolding heap_order_def by blast+
      then show "?ts (?h ! parent ?l) \<le> ?ts (?h ! i)" using nth [of i] nth [of "parent ?l"] p i by auto
    qed
    with o show ?thesis by simp
  qed
  moreover have "b \<longleftrightarrow> length ?g = 2" using r lnh by auto
  ultimately show ?thesis using r sh by simp
qed

lemma su_remove_absent: "su_wf s \<Longrightarrow> u \<notin> set (su_heap s) \<Longrightarrow> fst (su_remove u s) = s"
  using su_wf_loc [of s u] by (simp add: su_remove_def)

lemma su_first_loc: "su_wf s \<Longrightarrow> su_heap s \<noteq> [] \<Longrightarrow> su_loc s (su_heap s ! 0) = 0"
  by (simp add: su_wf_def)

lemma su_loc_first: "su_wf s \<Longrightarrow> su_loc s u = 0 \<Longrightarrow> su_heap s \<noteq> [] \<and> su_heap s ! 0 = u"
  using su_wf_loc [of s u] su_wf_at [of s u] by force

lemma su_remove_first:
  assumes i: "su_inv s" and ne: "su_heap s \<noteq> []" and e: "su_remove (su_heap s ! 0) s = (s', b)"
  shows "su_inv s' \<and> set (su_heap s') = set (su_heap s) - {su_heap s ! 0} \<and> su_ts s' = su_ts s \<and> length (su_heap s') < su_iArrayLength s'"
proof -
  have w: "su_wf s" and o: "heap_order (su_ts s) (su_heap s)" using i by (simp_all add: su_inv_def)
  have m: "su_heap s ! 0 \<in> set (su_heap s)" using ne by simp
  have r: "su_wf s' \<and> set (su_heap s') = set (su_heap s) - {su_heap s ! 0} \<and> su_ts s' = su_ts s \<and> heap_order (su_ts s') (su_heap s')"
    using su_remove_member [OF w m e] su_first_loc [OF w ne] o by blast
  moreover have "su_iArrayLength s' = su_iArrayLength s"
    using e by (auto simp: su_remove_def Let_def split: prod.splits if_splits)
  moreover have "length (su_heap s') < length (su_heap s)"
    using r w m card_Diff1_less [of "set (su_heap s)" "su_heap s ! 0"] by (simp add: su_wf_def distinct_card [symmetric])
  moreover have "length (su_heap s) \<le> su_iArrayLength s" using w by (simp add: su_wf_def)
  ultimately have "length (su_heap s') < su_iArrayLength s'" by linarith
  with r show ?thesis unfolding su_inv_def by blast
qed

lemma heap_first_min: "heap_order ts h \<Longrightarrow> i < length h \<Longrightarrow> ts (h ! 0) \<le> ts (h ! i)"
proof (induction i rule: less_induct)
  case (less i)
  show ?case
  proof (cases "i = 0")
    case False
    then have "ts (h ! 0) \<le> ts (h ! parent i)" using less parent_less [of i] by simp
    also have "\<dots> \<le> ts (h ! i)" using less False by (simp add: heap_order_def)
    finally show ?thesis .
  qed simp
qed

lemma su_first_min: "su_inv s \<Longrightarrow> v \<in> set (su_heap s) \<Longrightarrow> su_ts s (su_heap s ! 0) \<le> su_ts s v"
  by (auto simp: in_set_conv_nth su_inv_def intro: heap_first_min)

interpretation su: schedule su_inv "\<lambda>s. set (su_heap s)" su_ts "\<lambda>s. su_heap s ! 0"
  "\<lambda>t u s. fst (su_insert t u s)" "\<lambda>s. fst (su_remove (su_heap s ! 0) s)"
proof unfold_locales
  fix s u t assume i: "su_inv s" "u \<notin> set (su_heap s)"
  obtain s' b where e: "su_insert t u s = (s', b)" by fastforce
  show "su_inv (fst (su_insert t u s)) \<and> set (su_heap (fst (su_insert t u s))) = insert u (set (su_heap s)) \<and>
    (\<forall>v\<in>set (su_heap (fst (su_insert t u s))). su_ts (fst (su_insert t u s)) v = (if v = u then t else su_ts s v))"
    using su_insert_new [of s u t, OF _ i(2) e] i(1) e by (auto simp: su_inv_def)
next
  fix s assume i: "su_inv s" "set (su_heap s) \<noteq> {}"
  then have ne: "su_heap s \<noteq> []" by simp
  obtain s' b where e: "su_remove (su_heap s ! 0) s = (s', b)" by fastforce
  show "su_inv (fst (su_remove (su_heap s ! 0) s)) \<and>
    set (su_heap (fst (su_remove (su_heap s ! 0) s))) = set (su_heap s) - {su_heap s ! 0} \<and>
    (\<forall>v\<in>set (su_heap (fst (su_remove (su_heap s ! 0) s))). su_ts (fst (su_remove (su_heap s ! 0) s)) v = su_ts s v)"
    using su_remove_first [OF i(1) ne e] e by simp
qed (use su_first_min in auto)

subsection \<open>What the sending thread sees\<close>

text \<open>The sockets in the order in which \<open>pop\<close> reaches them when nothing is scheduled again.\<close>

fun su_drain :: "nat \<Rightarrow> CSndUList \<Rightarrow> nat list" where
  "su_drain 0 s = []"
| "su_drain (Suc n) s = (if su_heap s = [] then [] else su_heap s ! 0 # su_drain n (fst (su_remove (su_heap s ! 0) s)))"

lemma su_drain_drain: "su_drain n s = su.drain n s"
  by (induction n arbitrary: s) simp_all

definition su_of :: "(nat \<times> int) list \<Rightarrow> CSndUList" where
  "su_of us = fold (\<lambda>(u, t) s. fst (su_insert t u s)) us su_new"

lemma su_of_inv: "distinct (map fst us) \<Longrightarrow> su_inv (su_of us) \<and> set (su_heap (su_of us)) = fst ` set us"
proof (induction us rule: rev_induct)
  case Nil
  then show ?case by (simp add: su_of_def su_new_def su_inv_def su_wf_def heap_order_def)
next
  case (snoc x us)
  then have "su_inv (su_of us)" "fst x \<notin> set (su_heap (su_of us))" by auto
  from su.enter_new [OF this, of "snd x"] snoc show ?case by (auto simp: su_of_def split_beta)
qed

lemmas su_eval = su_of_def su_insert_def su_insert_norealloc_def su_remove_def su_new_def Let_def sift_up.simps sift_down.simps
  parent_def swap_at_def

text \<open>
  C38. From a schedule in order, the sending thread takes every scheduled socket exactly once and in the
  order of their time stamps, however they were inserted.
\<close>
theorem send_schedule_sorted:
  assumes "su_inv s" "length (su_heap s) \<le> n"
  shows "set (su_drain n s) = set (su_heap s) \<and> distinct (su_drain n s) \<and> sorted (map (su_ts s) (su_drain n s))"
proof -
  have "card (set (su_heap s)) \<le> n" using assms(2) card_length [of "su_heap s"] by simp
  with su.drain_set [OF assms(1)] su.drain_sorted [OF assms(1)] su_drain_drain [of n s] show ?thesis by simp
qed

theorem send_schedule_sorted_witness:
  "su_drain 3 (su_of [(0, 9), (2, 3), (1, 5)]) = [2, 1, 0] \<and>
   sorted (map (su_ts (su_of [(0, 9), (2, 3), (1, 5)])) (su_drain 3 (su_of [(0, 9), (2, 3), (1, 5)])))"
proof -
  let ?s = "su_of [(0, 9), (2, 3), (1, 5)]"
  have "su_inv ?s" using su_of_inv [of "[(0, 9), (2, 3), (1, 5)]"] by simp
  then have "sorted (map (su_ts ?s) (su_drain 3 ?s))" using send_schedule_sorted [of ?s 3] by (simp add: su_eval)
  moreover have "su_drain 3 ?s = [2, 1, 0]" by (simp add: su_eval numeral_3_eq_3)
  ultimately show ?thesis by blast
qed

text \<open>
  Taking a socket out of the schedule (it is closed) keeps the places of all others right, whichever
  node it was; the order of the heap is kept when it was at the top or when the last node does not
  belong above the gap. (The node that fills the gap is only ever moved down.)
\<close>
theorem su_remove_places:
  assumes "su_wf s" "u \<in> set (su_heap s)" "su_remove u s = (s', b)"
  shows "su_wf s' \<and> set (su_heap s') = set (su_heap s) - {u} \<and> (b \<longleftrightarrow> length (su_heap s) = 2) \<and>
    (heap_order (su_ts s) (su_heap s) \<and>
      (su_loc s u = 0 \<or> su_ts s (su_heap s ! parent (nat (su_loc s u))) \<le> su_ts s (last (su_heap s))) \<longrightarrow>
      heap_order (su_ts s') (su_heap s'))"
  using su_remove_member [OF assms] by blast

definition su_sample :: CSndUList where
  "su_sample = su_of [(0, 1), (1, 10), (2, 2), (3, 11), (4, 12), (5, 20), (6, 3)]"

theorem su_remove_places_witness:
  "su_wf (fst (su_remove 5 su_sample)) \<and> heap_order (su_ts (fst (su_remove 5 su_sample))) (su_heap (fst (su_remove 5 su_sample)))"
proof -
  have h: "su_heap su_sample = [0, 1, 2, 3, 4, 5, 6]" by (simp add: su_sample_def su_eval)
  have i: "su_inv su_sample" unfolding su_sample_def using su_of_inv by fastforce
  have l: "su_loc su_sample 5 = 5" using i h by (auto simp: su_inv_def su_wf_def dest!: spec [of _ 5])
  have t: "su_ts su_sample 2 \<le> su_ts su_sample 6" by (simp add: su_sample_def su_eval)
  show ?thesis
    using su_remove_places [of su_sample 5 "fst (su_remove 5 su_sample)" "snd (su_remove 5 su_sample)"] i h l t
    by (simp add: su_inv_def parent_def)
qed

text \<open>
  Closing a socket can leave a due socket behind one that is not due: from seven sockets inserted one
  by one, after one of them is removed and two have been sent, the schedule says 10 is the next time, although
  a socket with time 3 is waiting.
\<close>
theorem su_remove_hides_due:
  "let s = fst (su_remove 3 su_sample); s = fst (su_remove 0 s); s = fst (su_remove 2 s)
   in getNextProcTime s = 10 \<and> 6 \<in> set (su_heap s) \<and> su_ts s 6 = 3"
  by (simp add: su_sample_def su_eval getNextProcTime_def)

lemma su_insert_any:
  assumes w: "su_wf s"
  shows "su_wf (fst (su_insert t u s)) \<and> set (su_heap (fst (su_insert t u s))) = insert u (set (su_heap s)) \<and>
    (u \<notin> set (su_heap s) \<longrightarrow> su_ts (fst (su_insert t u s)) u = t)"
proof (cases "u \<in> set (su_heap s)")
  case True
  let ?s = "if length (su_heap s) = su_iArrayLength s then s\<lparr>su_iArrayLength := 2 * su_iArrayLength s\<rparr> else s"
  have "fst (su_insert t u s) = ?s"
    using True su_wf_loc [OF w, of u] by (simp add: su_insert_def su_insert_norealloc_old)
  moreover have "su_wf ?s" using w by (auto simp: su_wf_def)
  ultimately show ?thesis using True by auto
next
  case False
  obtain s' b where e: "su_insert t u s = (s', b)" by fastforce
  from su_insert_new [OF w False e] e show ?thesis by simp
qed

lemma su_remove_any:
  assumes w: "su_wf s"
  shows "su_wf (fst (su_remove u s)) \<and> set (su_heap (fst (su_remove u s))) = set (su_heap s) - {u} \<and>
    su_ts (fst (su_remove u s)) = su_ts s \<and> su_iArrayLength (fst (su_remove u s)) = su_iArrayLength s \<and>
    length (su_heap (fst (su_remove u s))) = length (su_heap s) - (if u \<in> set (su_heap s) then 1 else 0)"
proof (cases "u \<in> set (su_heap s)")
  case True
  obtain s' b where e: "su_remove u s = (s', b)" by fastforce
  have a: "su_iArrayLength s' = su_iArrayLength s"
    using e by (auto simp: su_remove_def Let_def split: prod.splits if_splits)
  note r = su_remove_member [OF w True e]
  then have "card (set (su_heap s')) = card (set (su_heap s)) - 1" using True by simp
  moreover have "distinct (su_heap s')" "distinct (su_heap s)" using r w by (simp_all add: su_wf_def)
  ultimately have "length (su_heap s') = length (su_heap s) - 1" by (simp only: distinct_card)
  with r a e True show ?thesis by auto
qed (use su_remove_absent [OF w] w in simp)

text \<open>
  A socket that has data to send gets into the schedule: after \<open>update\<close> it is scheduled, with the earliest
  time when it was not scheduled before or is to be rescheduled, no other socket is lost, and every socket
  knows its place. The call for a scheduled socket without rescheduling changes nothing.
\<close>
theorem su_update_schedules:
  assumes "su_wf s" "su_update u resched s = (s', b)"
  shows "su_wf s' \<and> set (su_heap s') = insert u (set (su_heap s)) \<and>
    (resched \<or> u \<notin> set (su_heap s) \<longrightarrow> su_ts s' u = 1) \<and> (u \<in> set (su_heap s) \<and> \<not> resched \<longrightarrow> s' = s) \<and>
    (resched \<and> su_heap s \<noteq> [] \<and> su_heap s ! 0 = u \<longrightarrow> b \<and> su_heap s' = su_heap s)"
proof (cases "u \<in> set (su_heap s)")
  case False
  then have "su_insert 1 u s = (s', b)" using assms su_wf_loc [of s u] by (simp add: su_update_def)
  with su_insert_new [OF assms(1) False this] False show ?thesis by auto
next
  case True
  then have l: "su_loc s u \<ge> 0" using assms su_wf_loc by blast
  have ne: "su_heap s \<noteq> []" using True by auto
  consider (no) "\<not> resched" | (top) "resched" "su_loc s u = 0" | (inner) "resched" "su_loc s u \<noteq> 0" by blast
  then show ?thesis
  proof cases
    case no then show ?thesis using assms True l by (auto simp: su_update_def)
  next
    case top
    then have "s' = s\<lparr>su_ts := (su_ts s)(u := 1)\<rparr>" "b" using assms(2) l by (auto simp: su_update_def)
    moreover have "su_wf (s\<lparr>su_ts := (su_ts s)(u := 1)\<rparr>)" using assms(1) by (simp add: su_wf_def)
    ultimately show ?thesis using True top by auto
  next
    case inner
    let ?r = "fst (su_remove u s)"
    obtain b' where i: "su_insert_norealloc 1 u ?r = (s', b')"
      using inner l assms(2) by (auto simp: su_update_def Let_def split: prod.splits)
    have r: "su_wf ?r" "set (su_heap ?r) = set (su_heap s) - {u}" "su_iArrayLength ?r = su_iArrayLength s"
      "length (su_heap ?r) = length (su_heap s) - 1" using su_remove_any [OF assms(1), of u] True by simp_all
    have "length (su_heap ?r) < su_iArrayLength ?r" using r assms(1) ne by (cases "su_heap s") (simp_all add: su_wf_def)
    from su_insert_norealloc_new [OF r(1) _ this i] r True
    have "su_wf s' \<and> set (su_heap s') = insert u (set (su_heap s)) \<and> su_ts s' u = 1" by auto
    moreover have "su_heap s ! 0 \<noteq> u" using inner su_first_loc [OF assms(1) ne] by auto
    ultimately show ?thesis using inner by simp
  qed
qed

theorem su_update_schedules_witness:
  "su_ts (fst (su_update 3 True su_sample)) 3 = 1 \<and> su_wf (fst (su_update 3 True su_sample))"
proof -
  have "su_inv su_sample" unfolding su_sample_def using su_of_inv by fastforce
  then show ?thesis
    using su_update_schedules [of su_sample 3 True "fst (su_update 3 True su_sample)" "snd (su_update 3 True su_sample)"]
    by (simp add: su_inv_def)
qed

lemma su_first_least: "heap_order (su_ts s) (su_heap s) \<Longrightarrow> v \<in> set (su_heap s) \<Longrightarrow> su_ts s (su_heap s ! 0) \<le> su_ts s v"
  by (auto simp: in_set_conv_nth intro: heap_first_min)

lemma su_remove_head:
  assumes w: "su_wf s" and ne: "su_heap s \<noteq> []"
  shows "su_wf (fst (su_remove (su_heap s ! 0) s))" "set (su_heap (fst (su_remove (su_heap s ! 0) s))) = set (su_heap s) - {su_heap s ! 0}"
    "su_ts (fst (su_remove (su_heap s ! 0) s)) = su_ts s"
    "length (su_heap (fst (su_remove (su_heap s ! 0) s))) < su_iArrayLength (fst (su_remove (su_heap s ! 0) s))"
    "heap_order (su_ts s) (su_heap s) \<Longrightarrow> heap_order (su_ts (fst (su_remove (su_heap s ! 0) s))) (su_heap (fst (su_remove (su_heap s ! 0) s)))"
proof -
  let ?u = "su_heap s ! 0"
  have m: "?u \<in> set (su_heap s)" using ne by simp
  obtain b where e: "su_remove ?u s = (fst (su_remove ?u s), b)" by (metis prod.collapse)
  note a = su_remove_any [OF w, of ?u]
  have "0 < length (su_heap s)" "length (su_heap s) \<le> su_iArrayLength s" using ne w by (simp_all add: su_wf_def)
  moreover have "length (su_heap (fst (su_remove ?u s))) = length (su_heap s) - 1" "su_iArrayLength (fst (su_remove ?u s)) = su_iArrayLength s"
    using a m by auto
  ultimately show "length (su_heap (fst (su_remove ?u s))) < su_iArrayLength (fst (su_remove ?u s))" by linarith
  show "su_wf (fst (su_remove ?u s))" "set (su_heap (fst (su_remove ?u s))) = set (su_heap s) - {?u}" "su_ts (fst (su_remove ?u s)) = su_ts s"
    using a by blast+
  show "heap_order (su_ts s) (su_heap s) \<Longrightarrow> heap_order (su_ts (fst (su_remove ?u s))) (su_heap (fst (su_remove ?u s)))"
    using su_remove_member [OF w m e] su_first_loc [OF w ne] by blast
qed

text \<open>
  C37. \<open>pop\<close> decides by the socket at the top alone. When the schedule is empty or the time of that socket has
  not come, nothing is sent and nothing changes. Otherwise that socket is taken out; it is the one to send for exactly
  when it is alive and \<open>packData\<close> gave it a packet, and it is put back, at the next time, exactly when \<open>packData\<close> also
  gave such a time. All other sockets stay, at their times. This holds for every schedule whose sockets know
  their places, which all operations keep. When the schedule is in heap order too (which the removal of a socket that
  is not at the top can break), the socket sent for is one with the earliest time, nothing that is due is left when
  \<open>pop\<close> finds no due socket, and the order is kept.
\<close>
theorem su_pop_sends_due:
  assumes w: "su_wf s" and p: "su_pop now alive pack s = (r, s')"
  shows "if su_heap s = [] \<or> now < su_ts s (su_heap s ! 0)
    then r = None \<and> s' = s \<and> (heap_order (su_ts s) (su_heap s) \<longrightarrow> (\<forall>v\<in>set (su_heap s). now < su_ts s v))
    else (let u = su_heap s ! 0; sent = alive u \<and> fst (pack u) > 0; again = sent \<and> snd (pack u) > 0
          in r = (if sent then Some u else None) \<and> su_wf s' \<and>
            set (su_heap s') = (if again then set (su_heap s) else set (su_heap s) - {u}) \<and>
            (\<forall>v\<in>set (su_heap s'). su_ts s' v = (if v = u then snd (pack u) else su_ts s v)) \<and>
            (heap_order (su_ts s) (su_heap s) \<longrightarrow>
              (\<forall>v\<in>set (su_heap s). su_ts s u \<le> su_ts s v) \<and> heap_order (su_ts s') (su_heap s')))"
proof (cases "su_heap s = [] \<or> now < su_ts s (su_heap s ! 0)")
  case True
  then have "r = None" "s' = s" using p by (auto simp: su_pop_def cong: if_cong)
  moreover have "\<forall>v\<in>set (su_heap s). now < su_ts s v" if "heap_order (su_ts s) (su_heap s)"
    using True su_first_least [OF that] by (auto intro: less_le_trans)
  ultimately show ?thesis using True by simp
next
  case False
  define u rs where "u = su_heap s ! 0" and "rs = fst (su_remove (su_heap s ! 0) s)"
  have ne: "su_heap s \<noteq> []" and m: "u \<in> set (su_heap s)" using False by (simp_all add: u_def)
  note h = su_remove_head [OF w ne, folded rs_def, folded u_def]
  have least: "\<forall>v\<in>set (su_heap s). su_ts s u \<le> su_ts s v" if "heap_order (su_ts s) (su_heap s)"
    using su_first_least [OF that] by (simp add: u_def)
  define i where "i = fst (su_insert_norealloc (snd (pack u)) u rs)"
  have e: "su_insert_norealloc (snd (pack u)) u rs = (i, snd (su_insert_norealloc (snd (pack u)) u rs))" by (simp add: i_def)
  have "u \<notin> set (su_heap rs)" using h(2) by simp
  note n = su_insert_norealloc_new [OF h(1) this h(4) e]
  have pop: "r = (if alive u \<and> fst (pack u) > 0 then Some u else None)"
    "s' = (if (alive u \<and> fst (pack u) > 0) \<and> snd (pack u) > 0 then i else rs)"
    using p False by (auto simp: su_pop_def Let_def u_def [symmetric] rs_def [folded u_def] i_def split_beta split: if_splits)
  have "set (su_heap i) = set (su_heap s)" using n h(2) m by auto
  then show ?thesis using False n h least unfolding pop Let_def u_def [symmetric] by (simp only: if_False) auto
qed

theorem su_pop_sends_due_witness:
  "fst (su_pop 7 (\<lambda>_. True) (\<lambda>_. (1, 20)) su_sample) = Some 0 \<and> su_wf (snd (su_pop 7 (\<lambda>_. True) (\<lambda>_. (1, 20)) su_sample)) \<and>
   set (su_heap (snd (su_pop 7 (\<lambda>_. True) (\<lambda>_. (1, 20)) su_sample))) = set (su_heap su_sample)"
proof -
  have w: "su_wf su_sample" unfolding su_sample_def using su_of_inv by (fastforce simp: su_inv_def)
  have h: "su_heap su_sample \<noteq> []" "su_heap su_sample ! 0 = 0" "su_ts su_sample 0 = 1" by (simp_all add: su_sample_def su_eval)
  show ?thesis using su_pop_sends_due [OF w prod.collapse [symmetric], of 7 "\<lambda>_. True" "\<lambda>_. (1, 20)"] h by (simp add: Let_def)
qed

end
