(* ===== verification/UnitQueue.thy ===== *)
theory UnitQueue
  imports Packet
begin

text \<open>
  The pool of packet units of a multiplexer (\<open>CUnitQueue\<close>, \<open>queue.cpp\<close>). The pool is a ring of entries of
  the same size. A pointer to a unit is its index in the list of all units: entry \<open>e\<close> holds the units from
  \<open>e * uq_each\<close> on, and a new entry is linked behind the last one. Whether an allocation succeeds is an
  argument. The buffer of a connection (\<open>RcvBuffer\<close>) holds such pointers.
\<close>

datatype UnitFlag = FREE | GOOD | PASSACK | DROPPED

record CUnit =
  un_Packet :: CPacket
  un_iFlag :: UnitFlag

record CUnitQueue =
  uq_unit :: "CUnit list"
  uq_each :: nat
  uq_cur :: nat
  uq_avail :: nat
  uq_iSize :: int
  uq_iCount :: int
  uq_iMSS :: nat

definition unit_new :: "nat \<Rightarrow> CUnit" where
  "unit_new mss = \<lparr>un_Packet = packet_new\<lparr>pv_data := Some (replicate mss 0)\<rparr>, un_iFlag = FREE\<rparr>"

definition uq_init :: "nat \<Rightarrow> nat \<Rightarrow> CUnitQueue" where
  "uq_init sz mss = \<lparr>uq_unit = replicate sz (unit_new mss), uq_each = sz, uq_cur = 0, uq_avail = 0,
     uq_iSize = int sz, uq_iCount = 0, uq_iMSS = mss\<rparr>"

definition uq_entries :: "CUnitQueue \<Rightarrow> nat" where
  "uq_entries q = length (uq_unit q) div uq_each q"

definition uq_busy :: "CUnitQueue \<Rightarrow> nat \<Rightarrow> bool" where
  "uq_busy q i \<longleftrightarrow> un_iFlag (uq_unit q ! i) \<noteq> FREE"

text \<open>The test against 0.9 is exact: the quotient is a correctly rounded double.\<close>

definition uq_increase :: "bool \<Rightarrow> CUnitQueue \<Rightarrow> int \<times> CUnitQueue" where
  "uq_increase alloc q =
     (let real_count = int (length (filter (\<lambda>u. un_iFlag u \<noteq> FREE) (uq_unit q)));
          q = q\<lparr>uq_iCount := real_count\<rparr>
      in if real_count * 10 < uq_iSize q * 9 then (- 1, q)
         else if \<not> alloc then (- 1, q)
         else (0, q\<lparr>uq_unit := uq_unit q @ replicate (uq_each q) (unit_new (uq_iMSS q)),
                    uq_iSize := uq_iSize q + int (uq_each q)\<rparr>))"

text \<open>The units of the current entry: from the current one up to, not including, the last; then the first.\<close>

definition uq_try :: "CUnitQueue \<Rightarrow> nat option" where
  "uq_try q =
     (let first = uq_cur q * uq_each q; sentinel = first + uq_each q - 1
      in case find (\<lambda>i. un_iFlag (uq_unit q ! i) = FREE) [uq_avail q ..< sentinel] of
           Some i \<Rightarrow> Some i
         | None \<Rightarrow> if un_iFlag (uq_unit q ! first) = FREE then Some first else None)"

text \<open>The ring of entries, with fuel; \<open>uq_scan_total\<close> shows that the number of entries is enough.\<close>

fun uq_scan :: "nat \<Rightarrow> nat \<Rightarrow> CUnitQueue \<Rightarrow> (nat option \<times> CUnitQueue) option" where
  "uq_scan 0 entrance q = None"
| "uq_scan (Suc k) entrance q =
     (case uq_try q of
        Some i \<Rightarrow> Some (Some i, q\<lparr>uq_avail := i\<rparr>)
      | None \<Rightarrow>
          (let e = (uq_cur q + 1) mod uq_entries q; q = q\<lparr>uq_cur := e, uq_avail := e * uq_each q\<rparr>
           in if e = entrance then Some (None, q) else uq_scan k entrance q))"

definition getNextAvailUnit :: "(nat \<Rightarrow> bool) \<Rightarrow> CUnitQueue \<Rightarrow> (nat option \<times> CUnitQueue) option" where
  "getNextAvailUnit alloc q =
     (let q = (if uq_iCount q * 10 > uq_iSize q * 9 then snd (uq_increase (alloc 0) q) else q)
      in if uq_iCount q \<ge> uq_iSize q then Some (None, q)
         else
           (case uq_scan (uq_entries q) (uq_cur q) q of
              None \<Rightarrow> None
            | Some (Some i, q) \<Rightarrow> Some (Some i, q)
            | Some (None, q) \<Rightarrow> Some (None, snd (uq_increase (alloc 1) q))))"

definition set_flag_of :: "nat \<Rightarrow> UnitFlag \<Rightarrow> CUnitQueue \<Rightarrow> CUnitQueue" where
  "set_flag_of i f q = q\<lparr>uq_unit := (uq_unit q)[i := (uq_unit q ! i)\<lparr>un_iFlag := f\<rparr>]\<rparr>"

definition makeUnitFree :: "nat \<Rightarrow> CUnitQueue \<Rightarrow> CUnitQueue" where
  "makeUnitFree i q = (let q = set_flag_of i FREE q in q\<lparr>uq_iCount := uq_iCount q - 1\<rparr>)"

definition makeUnitGood :: "nat \<Rightarrow> CUnitQueue \<Rightarrow> CUnitQueue" where
  "makeUnitGood i q = (let q = set_flag_of i GOOD q in q\<lparr>uq_iCount := uq_iCount q + 1\<rparr>)"

text \<open>The channel writes the received datagram into the unit.\<close>

definition unit_receive :: "nat \<Rightarrow> CPacket \<Rightarrow> CUnitQueue \<Rightarrow> CUnitQueue" where
  "unit_receive i p q = q\<lparr>uq_unit := (uq_unit q)[i := (uq_unit q ! i)\<lparr>un_Packet := p\<rparr>]\<rparr>"

subsection \<open>The invariant\<close>

definition uq_inv :: "CUnitQueue \<Rightarrow> bool" where
  "uq_inv q \<longleftrightarrow> 0 < uq_each q \<and> uq_each q dvd length (uq_unit q) \<and> uq_cur q < uq_entries q \<and>
     uq_cur q * uq_each q \<le> uq_avail q \<and> uq_avail q < uq_cur q * uq_each q + uq_each q \<and>
     uq_iSize q = int (length (uq_unit q)) \<and>
     uq_iCount q = int (length (filter (\<lambda>u. un_iFlag u \<noteq> FREE) (uq_unit q)))"

lemma uq_init_inv: "0 < sz \<Longrightarrow> uq_inv (uq_init sz mss)"
  by (simp add: uq_inv_def uq_init_def uq_entries_def unit_new_def filter_replicate)

lemma uq_length: "uq_inv q \<Longrightarrow> length (uq_unit q) = uq_entries q * uq_each q"
  by (auto simp: uq_inv_def uq_entries_def)

lemma uq_entry_bound: "e < n \<Longrightarrow> i < k \<Longrightarrow> e * k + i < n * (k::nat)"
  using mult_le_mono1 [of "e + 1" n k] by simp

lemma uq_avail_bound:
  assumes "uq_inv q"
  shows "uq_avail q < length (uq_unit q)"
proof -
  have a: "uq_cur q < uq_entries q" "uq_cur q * uq_each q \<le> uq_avail q" "uq_avail q - uq_cur q * uq_each q < uq_each q"
    using assms by (auto simp: uq_inv_def)
  show ?thesis using uq_entry_bound [OF a(1,3)] a(2) uq_length [OF assms] by simp
qed

lemma uq_increase_inv:
  assumes i: "uq_inv q"
  shows "uq_inv (snd (uq_increase alloc q)) \<and> take (length (uq_unit q)) (uq_unit (snd (uq_increase alloc q))) = uq_unit q \<and>
    uq_iCount (snd (uq_increase alloc q)) = uq_iCount q \<and>
    (fst (uq_increase alloc q) = 0 \<longrightarrow> length (uq_unit (snd (uq_increase alloc q))) = length (uq_unit q) + uq_each q)"
proof -
  have "uq_cur q < (length (uq_unit q) + uq_each q) div uq_each q"
    using i by (auto simp: uq_inv_def uq_entries_def)
  with i show ?thesis
    by (auto simp: uq_increase_def Let_def uq_inv_def uq_entries_def unit_new_def filter_replicate)
qed

text \<open>The unit that is handed out is free, so it is in no buffer, and it is the current one.\<close>

lemma uq_try_free:
  assumes i: "uq_inv q" and t: "uq_try q = Some k"
  shows "k < length (uq_unit q) \<and> \<not> uq_busy q k \<and> uq_cur q * uq_each q \<le> k \<and> k < uq_cur q * uq_each q + uq_each q"
proof -
  let ?f = "uq_cur q * uq_each q"
  have "?f < length (uq_unit q)" using i uq_entry_bound [of "uq_cur q" "uq_entries q" 0 "uq_each q"] uq_length [OF i]
    by (simp add: uq_inv_def)
  moreover have "?f + uq_each q \<le> length (uq_unit q)"
    using i uq_length [OF i] mult_le_mono1 [of "uq_cur q + 1" "uq_entries q" "uq_each q"] by (simp add: uq_inv_def)
  ultimately show ?thesis
    using t i unfolding uq_try_def Let_def
    by (auto simp: uq_busy_def uq_inv_def find_Some_iff split: option.splits if_splits)
qed

lemma uq_try_none:
  assumes "uq_try q = None"
  shows "uq_busy q (uq_cur q * uq_each q)"
    and "\<And>k. uq_avail q \<le> k \<Longrightarrow> k < uq_cur q * uq_each q + uq_each q - 1 \<Longrightarrow> uq_busy q k"
  using assms unfolding uq_try_def Let_def
  by (auto simp: uq_busy_def find_None_iff split: option.splits if_splits)

subsection \<open>Searching the ring\<close>

text \<open>The entries still to be searched when the scan that began at \<open>entrance\<close> is at \<open>cur\<close>.\<close>

definition uq_togo :: "nat \<Rightarrow> nat \<Rightarrow> nat \<Rightarrow> nat" where
  "uq_togo n entrance cur = (if cur < entrance then entrance - cur else n + entrance - cur)"

lemma uq_togo_next:
  assumes "cur < n" "entrance < n"
  shows "(cur + 1) mod n = entrance \<longleftrightarrow> uq_togo n entrance cur = 1"
    and "(cur + 1) mod n \<noteq> entrance \<Longrightarrow> Suc (uq_togo n entrance ((cur + 1) mod n)) = uq_togo n entrance cur"
  using assms by (cases "cur + 1 = n"; auto simp: uq_togo_def)+

lemma uq_togo_inj: "uq_togo n entrance x = uq_togo n entrance y \<Longrightarrow> x < n \<Longrightarrow> y < n \<Longrightarrow> entrance < n \<Longrightarrow> x = y"
  by (auto simp: uq_togo_def split: if_splits)

text \<open>A unit in the last place of an entry of more than one unit is never looked at.\<close>

definition uq_hidden :: "CUnitQueue \<Rightarrow> nat \<Rightarrow> bool" where
  "uq_hidden q i \<longleftrightarrow> 1 < uq_each q \<and> i mod uq_each q = uq_each q - 1"

definition uq_searched :: "CUnitQueue \<Rightarrow> nat \<Rightarrow> bool" where
  "uq_searched q i \<longleftrightarrow> \<not> uq_hidden q i \<and> (i = uq_cur q * uq_each q \<or> uq_avail q \<le> i) \<and> i div uq_each q = uq_cur q"

lemma uq_try_none_searched:
  assumes "uq_inv q" "uq_try q = None" "uq_searched q i"
  shows "uq_busy q i"
proof -
  let ?k = "uq_each q"
  have k: "0 < ?k" using assms by (simp add: uq_inv_def)
  have i: "i = uq_cur q * ?k + i mod ?k" using assms(3) by (metis div_mult_mod_eq uq_searched_def)
  show ?thesis
  proof (cases "i mod ?k = 0")
    case True then show ?thesis using uq_try_none(1) [OF assms(2)] i by simp
  next
    case False
    have "i mod ?k < ?k" using k by simp
    then have "i mod ?k < ?k - 1" using False assms(3) by (auto simp: uq_searched_def uq_hidden_def)
    then show ?thesis using i uq_try_none(2) [OF assms(2), of i] assms(3) False by (auto simp: uq_searched_def)
  qed
qed

lemma uq_move_inv: "uq_inv q \<Longrightarrow> e < uq_entries q \<Longrightarrow> uq_inv (q\<lparr>uq_cur := e, uq_avail := e * uq_each q\<rparr>)"
  by (simp add: uq_inv_def uq_entries_def)

lemma uq_scan_spec:
  assumes "uq_inv q" "entrance < uq_entries q" "uq_togo (uq_entries q) entrance (uq_cur q) \<le> k" 
  shows "\<exists>r c a. uq_scan k entrance q = Some (r, q\<lparr>uq_cur := c, uq_avail := a\<rparr>) \<and> uq_inv (q\<lparr>uq_cur := c, uq_avail := a\<rparr>) \<and>
    (case r of
       Some i \<Rightarrow> i < length (uq_unit q) \<and> \<not> uq_busy q i \<and> a = i
     | None \<Rightarrow> c = entrance \<and> a = c * uq_each q \<and>
         (\<forall>i. uq_searched q i \<longrightarrow> uq_busy q i) \<and>
         (\<forall>i < length (uq_unit q). \<not> uq_hidden q i \<and>
            uq_togo (uq_entries q) entrance (i div uq_each q) < uq_togo (uq_entries q) entrance (uq_cur q) \<longrightarrow> uq_busy q i))"
  using assms
proof (induction k arbitrary: q)
  case 0
  then show ?case by (auto simp: uq_togo_def uq_inv_def split: if_splits)
next
  case (Suc k)
  let ?n = "uq_entries q" and ?e = "(uq_cur q + 1) mod uq_entries q"
  let ?q = "q\<lparr>uq_cur := ?e, uq_avail := ?e * uq_each q\<rparr>"
  have c: "uq_cur q < ?n" and n: "0 < ?n" using Suc.prems(1) by (auto simp: uq_inv_def)
  have en: "?e < ?n" using n by simp
  show ?case
  proof (cases "uq_try q")
    case (Some i)
    note t = uq_try_free [OF Suc.prems(1) Some]
    have "uq_inv (q\<lparr>uq_cur := uq_cur q, uq_avail := i\<rparr>)" using Suc.prems(1) t by (simp add: uq_inv_def uq_entries_def)
    then show ?thesis using Some t by (intro exI [of _ "Some i"] exI [of _ "uq_cur q"] exI [of _ i]) simp
  next
    case None
    note s = uq_try_none_searched [OF Suc.prems(1) None]
    note tn = uq_togo_next [OF c Suc.prems(2)]
    have iq: "uq_inv ?q" by (rule uq_move_inv [OF Suc.prems(1) en])
    have eq: "uq_entries ?q = ?n" by (simp add: uq_entries_def)
    show ?thesis
    proof (cases "?e = entrance")
      case True
      have "\<not> uq_togo ?n entrance x < uq_togo ?n entrance (uq_cur q)" if "x < ?n" for x
        using tn(1) True that Suc.prems(2) by (auto simp: uq_togo_def)
      moreover have "i div uq_each q < ?n" if "i < length (uq_unit q)" for i
        using that uq_length [OF Suc.prems(1)] by (simp add: less_mult_imp_div_less)
      ultimately show ?thesis using None True s iq Suc.prems(2)
        by (intro exI [of _ None] exI [of _ ?e] exI [of _ "?e * uq_each q"]) (simp add: Let_def)
    next
      case False
      note tn2 = tn(2) [OF False]
      have "uq_togo (uq_entries ?q) entrance (uq_cur ?q) \<le> k" using tn2 Suc.prems(3) eq by simp
      from Suc.IH [OF iq _ this] Suc.prems(2) eq obtain r cc a where
        r: "uq_scan k entrance ?q = Some (r, ?q\<lparr>uq_cur := cc, uq_avail := a\<rparr>)" "uq_inv (?q\<lparr>uq_cur := cc, uq_avail := a\<rparr>)"
        and p: "case r of
           Some i \<Rightarrow> i < length (uq_unit ?q) \<and> \<not> uq_busy ?q i \<and> a = i
         | None \<Rightarrow> cc = entrance \<and> a = cc * uq_each ?q \<and> (\<forall>i. uq_searched ?q i \<longrightarrow> uq_busy ?q i) \<and>
             (\<forall>i < length (uq_unit ?q). \<not> uq_hidden ?q i \<and>
                uq_togo (uq_entries ?q) entrance (i div uq_each ?q) < uq_togo (uq_entries ?q) entrance (uq_cur ?q) \<longrightarrow> uq_busy ?q i)"
        by auto
      have hid: "uq_hidden ?q = uq_hidden q" "uq_busy ?q = uq_busy q" by (auto simp: uq_hidden_def uq_busy_def)
      have all: "uq_busy q i" if rn: "r = None" and i: "i < length (uq_unit q)" "\<not> uq_hidden q i"
        and g: "uq_togo ?n entrance (i div uq_each q) < uq_togo ?n entrance (uq_cur q)" for i
      proof (cases "uq_togo ?n entrance (i div uq_each q) < uq_togo ?n entrance ?e")
        case True
        then show ?thesis using p rn i hid eq by simp
      next
        case F: False
        have "i div uq_each q < ?n" using i uq_length [OF Suc.prems(1)] by (simp add: less_mult_imp_div_less)
        moreover have "uq_togo ?n entrance (i div uq_each q) = uq_togo ?n entrance ?e" using F g tn2 by linarith
        ultimately have "i div uq_each q = ?e" using en Suc.prems(2) uq_togo_inj by blast
        moreover from this have "?e * uq_each q \<le> i" by (metis div_times_less_eq_dividend)
        ultimately have "uq_searched ?q i" using i hid by (simp add: uq_searched_def)
        then show ?thesis using p rn hid by simp
      qed
      have sc: "uq_scan (Suc k) entrance q = Some (r, q\<lparr>uq_cur := cc, uq_avail := a\<rparr>)"
        using None False r by (simp add: Let_def)
      have pp: "case r of Some i \<Rightarrow> i < length (uq_unit q) \<and> \<not> uq_busy q i \<and> a = i
         | None \<Rightarrow> cc = entrance \<and> a = cc * uq_each q \<and> (\<forall>i. uq_searched q i \<longrightarrow> uq_busy q i) \<and>
           (\<forall>i < length (uq_unit q). \<not> uq_hidden q i \<and>
            uq_togo ?n entrance (i div uq_each q) < uq_togo ?n entrance (uq_cur q) \<longrightarrow> uq_busy q i)"
        using p all s hid by (cases r) simp_all
      show ?thesis using sc r(2) pp by (intro exI [of _ r] exI [of _ cc] exI [of _ a]) simp
    qed
  qed
qed

lemma length_filter_update:
  "i < length xs \<Longrightarrow> length (filter P (xs[i := u])) + (if P (xs ! i) then 1 else 0) = length (filter P xs) + (if P u then 1 else 0)"
proof (induction xs arbitrary: i)
  case (Cons x xs)
  show ?case
  proof (cases i)
    case (Suc j)
    then show ?thesis using Cons.IH [of j] Cons.prems by (auto split: if_splits)
  qed simp
qed simp

lemma uq_set_flag:
  assumes "uq_inv q" "i < length (uq_unit q)"
  shows "uq_inv (q\<lparr>uq_unit := (uq_unit q)[i := u], uq_iCount := uq_iCount q
     + (if un_iFlag u \<noteq> FREE then 1 else 0) - (if uq_busy q i then 1 else 0)\<rparr>)"
proof -
  let ?P = "\<lambda>u. un_iFlag u \<noteq> FREE"
  have "length (filter ?P ((uq_unit q)[i := u])) + (if ?P (uq_unit q ! i) then 1 else 0)
      = length (filter ?P (uq_unit q)) + (if ?P u then 1 else 0)"
    by (rule length_filter_update [OF assms(2)])
  then show ?thesis using assms by (auto simp: uq_inv_def uq_entries_def uq_busy_def)
qed

lemma makeUnitFree_inv:
  "uq_inv q \<Longrightarrow> i < length (uq_unit q) \<Longrightarrow> uq_busy q i \<Longrightarrow> uq_inv (makeUnitFree i q)"
  using uq_set_flag [of q i "(uq_unit q ! i)\<lparr>un_iFlag := FREE\<rparr>"] by (simp add: makeUnitFree_def set_flag_of_def Let_def)

lemma makeUnitGood_inv:
  "uq_inv q \<Longrightarrow> i < length (uq_unit q) \<Longrightarrow> \<not> uq_busy q i \<Longrightarrow> uq_inv (makeUnitGood i q)"
  using uq_set_flag [of q i "(uq_unit q ! i)\<lparr>un_iFlag := GOOD\<rparr>"] by (simp add: makeUnitGood_def set_flag_of_def Let_def)

lemma set_flag_busy_inv:
  "uq_inv q \<Longrightarrow> i < length (uq_unit q) \<Longrightarrow> uq_busy q i \<Longrightarrow> f \<noteq> FREE \<Longrightarrow> uq_inv (set_flag_of i f q)"
  using uq_set_flag [of q i "(uq_unit q ! i)\<lparr>un_iFlag := f\<rparr>"] by (simp add: set_flag_of_def Let_def)

text \<open>
  C21. A unit that the pool hands out is free: no packet that waits in a buffer is overwritten. The
  search always ends, the pool stays well formed, and existing units keep their content.
\<close>
theorem getNextAvailUnit_free:
  assumes "uq_inv q"
  shows "\<exists>r q'. getNextAvailUnit alloc q = Some (r, q') \<and> uq_inv q' \<and> uq_iCount q' = uq_iCount q \<and>
    take (length (uq_unit q)) (uq_unit q') = uq_unit q \<and>
    (case r of Some i \<Rightarrow> i < length (uq_unit q') \<and> \<not> uq_busy q' i | None \<Rightarrow> uq_cur q' * uq_each q' = uq_avail q' \<or> uq_iSize q \<le> uq_iCount q)"
proof -
  define q0 where "q0 = (if uq_iCount q * 10 > uq_iSize q * 9 then snd (uq_increase (alloc 0) q) else q)"
  have q0: "uq_inv q0" "take (length (uq_unit q)) (uq_unit q0) = uq_unit q" "uq_iCount q0 = uq_iCount q"
    "length (uq_unit q) \<le> length (uq_unit q0)"
    using assms uq_increase_inv [OF assms, of "alloc 0"] by (auto simp: q0_def uq_increase_def Let_def)
  show ?thesis
  proof (cases "uq_iCount q0 \<ge> uq_iSize q0")
    case True
    have "uq_iSize q \<le> uq_iSize q0" using assms q0 by (simp add: uq_inv_def)
    then show ?thesis using True q0 by (auto simp: getNextAvailUnit_def q0_def [symmetric] Let_def)
  next
    case False
    have c: "uq_cur q0 < uq_entries q0" using q0 by (simp add: uq_inv_def)
    have "uq_togo (uq_entries q0) (uq_cur q0) (uq_cur q0) \<le> uq_entries q0" by (simp add: uq_togo_def)
    from uq_scan_spec [OF q0(1) c this] obtain r cc a where
      s: "uq_scan (uq_entries q0) (uq_cur q0) q0 = Some (r, q0\<lparr>uq_cur := cc, uq_avail := a\<rparr>)"
        "uq_inv (q0\<lparr>uq_cur := cc, uq_avail := a\<rparr>)"
      and p: "case r of Some i \<Rightarrow> i < length (uq_unit q0) \<and> \<not> uq_busy q0 i \<and> a = i | None \<Rightarrow> cc = uq_cur q0 \<and> a = cc * uq_each q0 \<and>
         (\<forall>i. uq_searched q0 i \<longrightarrow> uq_busy q0 i) \<and>
         (\<forall>i < length (uq_unit q0). \<not> uq_hidden q0 i \<and>
            uq_togo (uq_entries q0) (uq_cur q0) (i div uq_each q0) < uq_togo (uq_entries q0) (uq_cur q0) (uq_cur q0) \<longrightarrow> uq_busy q0 i)"
      by blast
    let ?q = "q0\<lparr>uq_cur := cc, uq_avail := a\<rparr>"
    have g: "getNextAvailUnit alloc q = (case r of None \<Rightarrow> Some (None, snd (uq_increase (alloc 1) ?q)) | Some i \<Rightarrow> Some (Some i, ?q))"
      using False s by (simp add: getNextAvailUnit_def q0_def [symmetric] Let_def split: option.split)
    show ?thesis
    proof (cases r)
      case (Some i)
      then show ?thesis using g p s(2) q0 by (auto simp: uq_busy_def)
    next
      case None
      note ii = uq_increase_inv [OF s(2), of "alloc 1"]
      have "take (length (uq_unit q)) (uq_unit (snd (uq_increase (alloc 1) ?q))) = uq_unit q"
        using ii q0 by (metis CUnitQueue.select_convs(1) CUnitQueue.surjective CUnitQueue.update_convs(3,4) min.absorb1 take_take)
      moreover have "uq_cur (snd (uq_increase (alloc 1) ?q)) * uq_each (snd (uq_increase (alloc 1) ?q)) = uq_avail (snd (uq_increase (alloc 1) ?q))"
        using p None by (simp add: uq_increase_def Let_def)
      ultimately show ?thesis using None g ii q0 by simp
    qed
  qed
qed

theorem getNextAvailUnit_free_witness:
  "\<exists>r q'. getNextAvailUnit (\<lambda>_. True) (makeUnitGood 0 (uq_init 3 1500)) = Some (r, q') \<and> uq_inv q'"
  using getNextAvailUnit_free [OF makeUnitGood_inv [OF uq_init_inv], of 3 0 1500 "\<lambda>_. True"]
  by (auto simp: uq_init_def uq_busy_def unit_new_def)

lemma uq_scan_from_first:
  assumes q: "uq_inv q" "uq_avail q = uq_cur q * uq_each q" and i: "i < length (uq_unit q)" "\<not> uq_hidden q i" "\<not> uq_busy q i"
  shows "\<exists>j q'. uq_scan (uq_entries q) (uq_cur q) q = Some (Some j, q')"
proof -
  have c: "uq_cur q < uq_entries q" using q by (simp add: uq_inv_def)
  have "uq_togo (uq_entries q) (uq_cur q) (uq_cur q) \<le> uq_entries q" by (simp add: uq_togo_def)
  from uq_scan_spec [OF q(1) c this] obtain r cc a where
    s: "uq_scan (uq_entries q) (uq_cur q) q = Some (r, q\<lparr>uq_cur := cc, uq_avail := a\<rparr>)"
    and p: "r = None \<Longrightarrow> (\<forall>i. uq_searched q i \<longrightarrow> uq_busy q i) \<and>
       (\<forall>i < length (uq_unit q). \<not> uq_hidden q i \<and>
          uq_togo (uq_entries q) (uq_cur q) (i div uq_each q) < uq_togo (uq_entries q) (uq_cur q) (uq_cur q) \<longrightarrow> uq_busy q i)"
    by (metis (no_types, lifting) option.simps(4))
  have e: "i div uq_each q < uq_entries q" using i uq_length [OF q(1)] by (simp add: less_mult_imp_div_less)
  have "r \<noteq> None"
  proof
    assume n: "r = None"
    show False
    proof (cases "i div uq_each q = uq_cur q")
      case True
      then have "uq_cur q * uq_each q \<le> i" by (metis div_times_less_eq_dividend)
      then have "uq_searched q i" using True q i by (simp add: uq_searched_def)
      with p n i show False by blast
    next
      case False
      then have "uq_togo (uq_entries q) (uq_cur q) (i div uq_each q) < uq_togo (uq_entries q) (uq_cur q) (uq_cur q)"
        using e c by (auto simp: uq_togo_def)
      with p n i show False by blast
    qed
  qed
  with s show ?thesis by auto
qed

text \<open>
  When the search for a unit fails although units are free, the next search succeeds, unless the only
  free ones are in the last place of their entry, which is never looked at.
\<close>
theorem getNextAvailUnit_retry:
  assumes q: "uq_inv q" "getNextAvailUnit alloc q = Some (None, q')" "uq_iCount q < uq_iSize q"
    and i: "i < length (uq_unit q')" "\<not> uq_hidden q' i" "\<not> uq_busy q' i"
  shows "\<exists>j q''. getNextAvailUnit alloc' q' = Some (Some j, q'') \<and> \<not> uq_busy q'' j"
proof -
  from getNextAvailUnit_free [OF q(1), of alloc] q(2,3)
  have q': "uq_inv q'" "uq_avail q' = uq_cur q' * uq_each q'" by auto
  define q0 where "q0 = (if uq_iCount q' * 10 > uq_iSize q' * 9 then snd (uq_increase (alloc' 0) q') else q')"
  have q0: "uq_inv q0" "uq_avail q0 = uq_cur q0 * uq_each q0" "uq_unit q0 ! i = uq_unit q' ! i" "i < length (uq_unit q0)" "uq_each q0 = uq_each q'"
    using q' i(1) uq_increase_inv [OF q'(1), of "alloc' 0"] by (auto simp: q0_def uq_increase_def Let_def nth_append)
  then have f: "\<not> uq_busy q0 i" "\<not> uq_hidden q0 i" using i by (simp_all add: uq_busy_def uq_hidden_def)
  from uq_scan_from_first [OF q0(1,2,4) f(2,1)] obtain j q'' where s: "uq_scan (uq_entries q0) (uq_cur q0) q0 = Some (Some j, q'')" by blast
  have "length (filter (\<lambda>u. un_iFlag u \<noteq> FREE) (uq_unit q0)) < length (uq_unit q0)"
    using f(1) q0(4) by (intro length_filter_less [of "uq_unit q0 ! i"]) (simp_all add: uq_busy_def)
  then have "\<not> uq_iCount q0 \<ge> uq_iSize q0" using q0(1) by (simp add: uq_inv_def)
  then have g: "getNextAvailUnit alloc' q' = Some (Some j, q'')"
    using s by (simp add: getNextAvailUnit_def q0_def [symmetric] Let_def)
  moreover from getNextAvailUnit_free [OF q'(1), of alloc'] g have "\<not> uq_busy q'' j" by auto
  ultimately show ?thesis by blast
qed

text \<open>Four units in one entry of which the second and the last are free; the search stands at the third.\<close>

definition uq_sample :: CUnitQueue where
  "uq_sample = (makeUnitGood 2 (makeUnitGood 0 (uq_init 4 1500)))\<lparr>uq_avail := 2\<rparr>"

lemma uq_sample_facts:
  "uq_inv uq_sample" "getNextAvailUnit (\<lambda>_. True) uq_sample = Some (None, uq_sample\<lparr>uq_avail := 0\<rparr>)"
  "uq_iCount uq_sample = 2" "uq_iSize uq_sample = 4" "uq_each uq_sample = 4"
  "map un_iFlag (uq_unit uq_sample) = [GOOD, FREE, GOOD, FREE]"
proof -
  have m: "uq_unit uq_sample = [(unit_new 1500)\<lparr>un_iFlag := GOOD\<rparr>, unit_new 1500, (unit_new 1500)\<lparr>un_iFlag := GOOD\<rparr>, unit_new 1500]"
    by (simp add: uq_sample_def makeUnitGood_def set_flag_of_def uq_init_def Let_def numeral_eq_Suc)
  have r: "uq_each uq_sample = 4" "uq_cur uq_sample = 0" "uq_avail uq_sample = 2" "uq_iSize uq_sample = 4" "uq_iCount uq_sample = 2"
    by (simp_all add: uq_sample_def makeUnitGood_def set_flag_of_def uq_init_def Let_def)
  have ln: "length (uq_unit uq_sample) = 4" by (simp add: m)
  show "uq_inv uq_sample" unfolding uq_inv_def uq_entries_def ln r by (simp add: m unit_new_def)
  have e: "uq_entries uq_sample = 1" by (simp add: uq_entries_def m r)
  have t: "uq_try uq_sample = None" by (simp add: uq_try_def m r unit_new_def Let_def upt_rec [of 2])
  have "uq_scan (uq_entries uq_sample) (uq_cur uq_sample) uq_sample = Some (None, uq_sample\<lparr>uq_cur := 0, uq_avail := 0\<rparr>)"
    by (simp add: e t r)
  then show "getNextAvailUnit (\<lambda>_. True) uq_sample = Some (None, uq_sample\<lparr>uq_avail := 0\<rparr>)"
    by (simp add: getNextAvailUnit_def uq_increase_def Let_def r m unit_new_def)
  show "map un_iFlag (uq_unit uq_sample) = [GOOD, FREE, GOOD, FREE]" by (simp add: m unit_new_def)
qed (simp_all add: uq_sample_def makeUnitGood_def set_flag_of_def uq_init_def Let_def)

theorem getNextAvailUnit_retry_witness:
  "\<exists>j q''. getNextAvailUnit (\<lambda>_. True) (uq_sample\<lparr>uq_avail := 0\<rparr>) = Some (Some j, q'') \<and> \<not> uq_busy q'' j"
proof -
  have l: "length (uq_unit uq_sample) = 4" using arg_cong [OF uq_sample_facts(6), of length] by simp
  have "un_iFlag (uq_unit uq_sample ! 1) = map un_iFlag (uq_unit uq_sample) ! 1" using l by simp
  then have "un_iFlag (uq_unit uq_sample ! 1) = FREE" by (simp add: uq_sample_facts)
  then show ?thesis
    using getNextAvailUnit_retry [OF uq_sample_facts(1,2), of 1 "\<lambda>_. True"] l
    by (simp add: uq_sample_facts uq_hidden_def uq_busy_def)
qed

text \<open>
  The search can fail, so that an incoming packet is dropped, while half of the units are free.
\<close>
theorem getNextAvailUnit_misses:
  "\<exists>q'. getNextAvailUnit (\<lambda>_. True) uq_sample = Some (None, q') \<and> uq_iCount uq_sample = 2 \<and> uq_iSize uq_sample = 4 \<and>
     map un_iFlag (uq_unit uq_sample) = [GOOD, FREE, GOOD, FREE]"
  by (simp add: uq_sample_facts)

end
