(* ===== verification/TsbPd.thy ===== *)
theory TsbPd
  imports Prelude
begin

text \<open>
  The delivery time of packets (\<open>CRcvBuffer\<close>, \<open>buffer.cpp\<close>, and \<open>DriftTracer\<close>, \<open>include/utilities.h\<close>): the base
  time of the peer with its wrap-around of 32-bit time stamps, and the correction of the drift between the
  clocks. Times are in microseconds; 64-bit results are wrapped with \<open>u64\<close>.
\<close>

definition MAX_TIMESTAMP :: int where
  "MAX_TIMESTAMP = 0xFFFFFFFF"

definition TSBPD_WRAP_PERIOD :: int where
  "TSBPD_WRAP_PERIOD = 30 * 1000000"

definition TSBPD_DRIFT_MAX_VALUE :: int where
  "TSBPD_DRIFT_MAX_VALUE = 5000"

definition TSBPD_DRIFT_MAX_SAMPLES :: nat where
  "TSBPD_DRIFT_MAX_SAMPLES = 1000"

record DriftTracer =
  dt_qDrift :: int
  dt_qOverdrift :: int
  dt_qDriftSum :: int
  dt_uDriftSpan :: nat

definition drift_new :: DriftTracer where
  "drift_new = \<lparr>dt_qDrift = 0, dt_qOverdrift = 0, dt_qDriftSum = 0, dt_uDriftSpan = 0\<rparr>"

definition drift_update :: "int \<Rightarrow> DriftTracer \<Rightarrow> bool \<times> DriftTracer" where
  "drift_update driftval d =
     (let d = d\<lparr>dt_qDriftSum := dt_qDriftSum d + driftval, dt_uDriftSpan := dt_uDriftSpan d + 1\<rparr>
      in if dt_uDriftSpan d < TSBPD_DRIFT_MAX_SAMPLES then (False, d)
         else
           (let q = c_div (dt_qDriftSum d) (int (dt_uDriftSpan d));
                over = (if \<bar>q\<bar> > TSBPD_DRIFT_MAX_VALUE
                        then (if q < 0 then - TSBPD_DRIFT_MAX_VALUE else TSBPD_DRIFT_MAX_VALUE) else 0)
            in (True, d\<lparr>dt_qDrift := q - over, dt_qOverdrift := over, dt_qDriftSum := 0, dt_uDriftSpan := 0\<rparr>)))"

record CTsbPd =
  tp_bTsbPdMode :: bool
  tp_uTsbPdDelay :: int
  tp_ullTsbPdTimeBase :: int
  tp_bTsbPdWrapCheck :: bool
  tp_DriftTracer :: DriftTracer

definition tsbpd_new :: CTsbPd where
  "tsbpd_new = \<lparr>tp_bTsbPdMode = False, tp_uTsbPdDelay = 0, tp_ullTsbPdTimeBase = 0, tp_bTsbPdWrapCheck = False,
     tp_DriftTracer = drift_new\<rparr>"

definition setRcvTsbPdMode :: "int \<Rightarrow> int \<Rightarrow> CTsbPd \<Rightarrow> CTsbPd" where
  "setRcvTsbPdMode timebase delay s =
     s\<lparr>tp_bTsbPdMode := True, tp_bTsbPdWrapCheck := False, tp_ullTsbPdTimeBase := timebase, tp_uTsbPdDelay := delay\<rparr>"

definition getTsbPdTimeBase :: "int \<Rightarrow> CTsbPd \<Rightarrow> int \<times> CTsbPd" where
  "getTsbPdTimeBase timestamp_us s =
     (if tp_bTsbPdWrapCheck s then
        (if timestamp_us < TSBPD_WRAP_PERIOD then (u64 (tp_ullTsbPdTimeBase s + (MAX_TIMESTAMP + 1)), s)
         else if timestamp_us \<ge> TSBPD_WRAP_PERIOD \<and> timestamp_us \<le> TSBPD_WRAP_PERIOD * 2 then
           (let b = u64 (tp_ullTsbPdTimeBase s + (MAX_TIMESTAMP + 1))
            in (b, s\<lparr>tp_bTsbPdWrapCheck := False, tp_ullTsbPdTimeBase := b\<rparr>))
         else (tp_ullTsbPdTimeBase s, s))
      else if timestamp_us > MAX_TIMESTAMP - TSBPD_WRAP_PERIOD then
        (tp_ullTsbPdTimeBase s, s\<lparr>tp_bTsbPdWrapCheck := True\<rparr>)
      else (tp_ullTsbPdTimeBase s, s))"

definition getPktTsbPdTime :: "int \<Rightarrow> CTsbPd \<Rightarrow> int \<times> CTsbPd" where
  "getPktTsbPdTime timestamp s =
     (let (b, s) = getTsbPdTimeBase timestamp s
      in (u64 (b + tp_uTsbPdDelay s + timestamp + dt_qDrift (tp_DriftTracer s)), s))"

definition addRcvTsbPdDriftSample :: "int \<Rightarrow> int \<Rightarrow> CTsbPd \<Rightarrow> CTsbPd" where
  "addRcvTsbPdDriftSample now timestamp s =
     (if \<not> tp_bTsbPdMode s then s
      else
        (let (b, s) = getTsbPdTimeBase timestamp s;
             iDrift = i64 (now - (b + timestamp));
             (updated, d) = drift_update iDrift (tp_DriftTracer s);
             s = s\<lparr>tp_DriftTracer := d\<rparr>
         in if updated then s\<lparr>tp_ullTsbPdTimeBase := u64 (tp_ullTsbPdTimeBase s + dt_qOverdrift d)\<rparr> else s))"

lemmas tsbpd_consts = MAX_TIMESTAMP_def TSBPD_WRAP_PERIOD_def

subsection \<open>Time stamps that wrap around\<close>

text \<open>
  A run of the receiver: packets sent at the given (unbounded) times, whose 32-bit time stamps come in, are given their
  delivery times, and control packets are taken as samples of the drift between the clocks.
\<close>

datatype tsbpd_event = Deliver int | Sample int int

fun event_time :: "tsbpd_event \<Rightarrow> int" where
  "event_time (Deliver t) = t"
| "event_time (Sample now t) = t"

fun tsbpd_run :: "tsbpd_event list \<Rightarrow> CTsbPd \<Rightarrow> int list \<times> CTsbPd" where
  "tsbpd_run [] s = ([], s)"
| "tsbpd_run (Deliver t # es) s =
     (let (x, s) = getPktTsbPdTime (t mod (MAX_TIMESTAMP + 1)) s; (xs, s) = tsbpd_run es s in (x # xs, s))"
| "tsbpd_run (Sample now t # es) s = tsbpd_run es (addRcvTsbPdDriftSample now (t mod (MAX_TIMESTAMP + 1)) s)"

text \<open>What the run would yield if time stamps did not wrap: the base only follows the drift.\<close>

fun unwrapped_run :: "tsbpd_event list \<Rightarrow> int \<Rightarrow> int \<Rightarrow> DriftTracer \<Rightarrow> int list" where
  "unwrapped_run [] base delay d = []"
| "unwrapped_run (Deliver t # es) base delay d = u64 (base + t + delay + dt_qDrift d) # unwrapped_run es base delay d"
| "unwrapped_run (Sample now t # es) base delay d =
     (let (updated, d) = drift_update (i64 (now - (base + t))) d
      in unwrapped_run es (if updated then base + dt_qOverdrift d else base) delay d)"

text \<open>No packet is more than the wrap period ahead of, or behind, the latest one before it.\<close>

fun tsbpd_steady :: "int \<Rightarrow> int list \<Rightarrow> bool" where
  "tsbpd_steady M [] \<longleftrightarrow> True"
| "tsbpd_steady M (t # ts) \<longleftrightarrow>
     0 \<le> t \<and> M - TSBPD_WRAP_PERIOD \<le> t \<and> t \<le> M + TSBPD_WRAP_PERIOD \<and> tsbpd_steady (max M t) ts"

text \<open>The base stands for \<open>k\<close> wrap-arounds after \<open>B\<close>.\<close>

definition base_at :: "int \<Rightarrow> int \<Rightarrow> CTsbPd \<Rightarrow> bool" where
  "base_at B k s \<longleftrightarrow> u64 (tp_ullTsbPdTimeBase s) = u64 (B + k * 4294967296)"

definition tsbpd_ok :: "int \<Rightarrow> int \<Rightarrow> CTsbPd \<Rightarrow> bool" where
  "tsbpd_ok B M s \<longleftrightarrow> 0 \<le> M \<and>
     (let k = M div 4294967296; r = M mod 4294967296
      in if tp_bTsbPdWrapCheck s then
           (r > MAX_TIMESTAMP - TSBPD_WRAP_PERIOD \<and> base_at B k s) \<or> (r < TSBPD_WRAP_PERIOD \<and> 0 < k \<and> base_at B (k - 1) s)
         else base_at B k s \<and> r \<le> MAX_TIMESTAMP - TSBPD_WRAP_PERIOD \<and>
           (k = 0 \<or> r \<ge> TSBPD_WRAP_PERIOD))"

lemma div_mod_parts:
  fixes t :: int
  obtains k r where "t div 4294967296 = k" "t mod 4294967296 = r" "t = k * 4294967296 + r" "0 \<le> r" "r < 4294967296"
  using that [of "t div 4294967296" "t mod 4294967296"] by simp

lemma u64_u64 [simp]: "u64 (u64 x) = u64 x"
  by (simp add: u64_def)

lemma u64_cong_add: "u64 x = u64 y \<Longrightarrow> u64 (x + z) = u64 (y + z)"
  unfolding u64_def by (rule mod_add_cong) simp_all

lemma i64_cong_diff: "u64 x = u64 y \<Longrightarrow> i64 (z - x) = i64 (z - y)"
  unfolding u64_def i64_def by (intro arg_cong [where f = "\<lambda>v. v - 9223372036854775808"] mod_add_cong mod_diff_cong refl)

lemma base_at_fields: "base_at B k (s\<lparr>tp_bTsbPdWrapCheck := w\<rparr>) = base_at B k s"
  "base_at B k (s\<lparr>tp_bTsbPdWrapCheck := w, tp_ullTsbPdTimeBase := b\<rparr>) \<longleftrightarrow> u64 b = u64 (B + k * 4294967296)"
  by (simp_all add: base_at_def)

lemma base_at_drift [simp]: "base_at B k (s\<lparr>tp_DriftTracer := d\<rparr>) = base_at B k s"
  by (simp add: base_at_def)

lemma base_at_next: "base_at B k s \<Longrightarrow> u64 (tp_ullTsbPdTimeBase s + 4294967296) = u64 (B + (k + 1) * 4294967296)"
  using u64_cong_add [of "tp_ullTsbPdTimeBase s" "B + k * 4294967296" 4294967296] by (simp add: base_at_def algebra_simps)

lemma getTsbPdTimeBase_ok:
  assumes ok: "tsbpd_ok B M s" and t: "0 \<le> t" "M - TSBPD_WRAP_PERIOD \<le> t" "t \<le> M + TSBPD_WRAP_PERIOD"
    and g: "getTsbPdTimeBase (t mod 4294967296) s = (b, s')"
  shows "u64 b = u64 (B + t div 4294967296 * 4294967296) \<and> tsbpd_ok B (max M t) s'"
proof -
  obtain k r where M: "M div 4294967296 = k" "M mod 4294967296 = r" "M = k * 4294967296 + r" "0 \<le> r" "r < 4294967296"
    by (rule div_mod_parts)
  obtain j q where T: "t div 4294967296 = j" "t mod 4294967296 = q" "t = j * 4294967296 + q" "0 \<le> q" "q < 4294967296"
    by (rule div_mod_parts)
  have j: "j = k \<or> j = k + 1 \<or> j = k - 1" using M(3-) T(3-) t by (auto simp: tsbpd_consts)
  have m: "max M t div 4294967296 = (if M \<le> t then j else k)" "max M t mod 4294967296 = (if M \<le> t then q else r)"
    using M T by (auto simp: max_def)
  note c = tsbpd_consts
  have "0 \<le> M" using ok by (simp add: tsbpd_ok_def)
  then have k0: "0 \<le> k" using M(1) by (simp add: pos_imp_zdiv_nonneg_iff)
  have okI: "tsbpd_ok B (max M t) s'"
    if "if tp_bTsbPdWrapCheck s' then
          (f > MAX_TIMESTAMP - TSBPD_WRAP_PERIOD \<and> base_at B e s') \<or> (f < TSBPD_WRAP_PERIOD \<and> 0 < e \<and> base_at B (e - 1) s')
        else base_at B e s' \<and> f \<le> MAX_TIMESTAMP - TSBPD_WRAP_PERIOD \<and> (e = 0 \<or> f \<ge> TSBPD_WRAP_PERIOD)"
      "e = (if M \<le> t then j else k)" "f = (if M \<le> t then q else r)" for e f
    unfolding tsbpd_ok_def m Let_def that(2,3) [symmetric] using that(1) t(1) by (intro conjI) auto
  consider (A) "\<not> tp_bTsbPdWrapCheck s" "base_at B k s" "r \<le> MAX_TIMESTAMP - TSBPD_WRAP_PERIOD" "k = 0 \<or> r \<ge> TSBPD_WRAP_PERIOD"
    | (B) "tp_bTsbPdWrapCheck s" "r > MAX_TIMESTAMP - TSBPD_WRAP_PERIOD" "base_at B k s"
    | (C) "tp_bTsbPdWrapCheck s" "r < TSBPD_WRAP_PERIOD" "0 < k" "base_at B (k - 1) s"
    using ok M by (auto simp: tsbpd_ok_def Let_def split: if_splits)
  then show ?thesis
  proof cases
    case A
    have jk: "j = k"
    proof (rule ccontr)
      assume "j \<noteq> k"
      with j consider "j = k + 1" | "j = k - 1" by blast
      then show False
      proof cases
        case 1 then show ?thesis using M(3) T(3,4) t A by (simp add: c algebra_simps)
      next
        case 2 then show ?thesis using M(3) T(3-) t A by (auto simp: c algebra_simps)
      qed
    qed
    have b: "b = tp_ullTsbPdTimeBase s" and s': "s' = s \<or> s' = s\<lparr>tp_bTsbPdWrapCheck := True\<rparr>"
      "tp_bTsbPdWrapCheck s' \<longleftrightarrow> q > MAX_TIMESTAMP - TSBPD_WRAP_PERIOD"
      using g A by (auto simp: getTsbPdTimeBase_def T(2) split: if_splits)
    have base: "base_at B k s'" using s'(1) A by (auto simp: base_at_fields)
    have "tsbpd_ok B (max M t) s'"
    proof (cases "M \<le> t")
      case True
      have "k = 0 \<or> q \<ge> TSBPD_WRAP_PERIOD" using A(4) True M(3) T(3) jk by auto
      then show ?thesis using True t(1) jk base s'(2) by (simp add: tsbpd_ok_def m T(1,2) Let_def not_less)
    next
      case False
      then have "q \<le> r" using M(3) T(3) jk by simp
      then have "\<not> tp_bTsbPdWrapCheck s'" using s'(2) A by simp
      then show ?thesis using False t(1) base A(3,4) by (simp add: tsbpd_ok_def m M(1,2) Let_def)
    qed
    then show ?thesis using b T(1) jk A(2) by (simp add: base_at_def)
  next
    case B
    have jj: "j = k \<and> MAX_TIMESTAMP - 2 * TSBPD_WRAP_PERIOD < q \<or> j = k + 1 \<and> q < TSBPD_WRAP_PERIOD"
      using j M(3,5) T(3-) t B by (auto simp: c algebra_simps)
    then show ?thesis
    proof
      assume h: "j = k \<and> MAX_TIMESTAMP - 2 * TSBPD_WRAP_PERIOD < q"
      then have "b = tp_ullTsbPdTimeBase s" "s' = s" using g B by (auto simp: getTsbPdTimeBase_def T(2) c split: if_splits)
      moreover have "M \<le> t \<Longrightarrow> q > MAX_TIMESTAMP - TSBPD_WRAP_PERIOD" using M(3) T(3) h B by auto
      ultimately show ?thesis using h T(1) B okI [OF _ refl refl] by (auto simp: base_at_def split: if_splits)
    next
      assume h: "j = k + 1 \<and> q < TSBPD_WRAP_PERIOD"
      have "M \<le> t" using h M(3,5) T(3,4) by auto
      moreover have "b = u64 (tp_ullTsbPdTimeBase s + 4294967296)" "s' = s"
        using g B h by (auto simp: getTsbPdTimeBase_def T(2) c split: if_splits)
      moreover have "0 < j" using h k0 by simp
      ultimately show ?thesis using h T(1) B base_at_next [OF B(3)] okI [OF _ refl refl] by auto
    qed
  next
    case C
    have jj: "j = k \<and> q \<le> 2 * TSBPD_WRAP_PERIOD \<or> j = k - 1 \<and> q > MAX_TIMESTAMP - TSBPD_WRAP_PERIOD"
      using j M(3,4) T(3-) t C by (auto simp: c algebra_simps)
    have u: "u64 (tp_ullTsbPdTimeBase s + 4294967296) = u64 (B + k * 4294967296)" using base_at_next [OF C(4)] by simp
    from jj show ?thesis
    proof
      assume h: "j = k - 1 \<and> q > MAX_TIMESTAMP - TSBPD_WRAP_PERIOD"
      have "\<not> M \<le> t" using h M(3,4) T(3,5) by auto
      moreover have "b = tp_ullTsbPdTimeBase s" "s' = s" using g C h by (auto simp: getTsbPdTimeBase_def T(2) c split: if_splits)
      ultimately show ?thesis using h T(1) C okI [OF _ refl refl] by (auto simp: base_at_def split: if_splits)
    next
      assume h: "j = k \<and> q \<le> 2 * TSBPD_WRAP_PERIOD"
      show ?thesis
      proof (cases "q < TSBPD_WRAP_PERIOD")
        case True
        then have "b = u64 (tp_ullTsbPdTimeBase s + 4294967296)" "s' = s" using g C by (auto simp: getTsbPdTimeBase_def T(2) MAX_TIMESTAMP_def split: if_splits)
        then show ?thesis using h u T(1) C True okI [OF _ refl refl] by (auto split: if_splits)
      next
        case False
        then have e: "b = u64 (tp_ullTsbPdTimeBase s + 4294967296)" "s' = s\<lparr>tp_bTsbPdWrapCheck := False, tp_ullTsbPdTimeBase := b\<rparr>"
          using g C h by (auto simp: getTsbPdTimeBase_def T(2) MAX_TIMESTAMP_def Let_def split: if_splits)
        have "base_at B k s'" using e u by (simp add: base_at_fields)
        moreover have "M \<le> t" using False h M(3) T(3) C by simp
        moreover have "q \<le> MAX_TIMESTAMP - TSBPD_WRAP_PERIOD" using h by (simp add: c)
        ultimately show ?thesis using h e u T(1) False okI [OF _ refl refl] by (auto split: if_splits)
      qed
    qed
  qed
qed

lemma getTsbPdTimeBase_fields:
  assumes "getTsbPdTimeBase x s = (b, s')"
  shows "tp_bTsbPdMode s' = tp_bTsbPdMode s" "tp_uTsbPdDelay s' = tp_uTsbPdDelay s" "tp_DriftTracer s' = tp_DriftTracer s"
  using assms by (auto simp: getTsbPdTimeBase_def Let_def split: if_splits)

lemma tsbpd_ok_move:
  assumes "tsbpd_ok B M s"
  shows "tsbpd_ok B M (s\<lparr>tp_DriftTracer := d\<rparr>)"
    "tsbpd_ok (B + x) M (s\<lparr>tp_DriftTracer := d, tp_ullTsbPdTimeBase := u64 (tp_ullTsbPdTimeBase s + x)\<rparr>)"
proof -
  have "base_at B k s \<Longrightarrow> base_at (B + x) k (s\<lparr>tp_DriftTracer := d, tp_ullTsbPdTimeBase := u64 (tp_ullTsbPdTimeBase s + x)\<rparr>)" for k
    using u64_cong_add [of "tp_ullTsbPdTimeBase s" "B + k * 4294967296" x] by (simp add: base_at_def algebra_simps)
  then show "tsbpd_ok (B + x) M (s\<lparr>tp_DriftTracer := d, tp_ullTsbPdTimeBase := u64 (tp_ullTsbPdTimeBase s + x)\<rparr>)"
    using assms by (auto simp: tsbpd_ok_def Let_def split: if_splits)
  show "tsbpd_ok B M (s\<lparr>tp_DriftTracer := d\<rparr>)" using assms by (simp add: tsbpd_ok_def Let_def)
qed

lemma tsbpd_run_ok:
  assumes "tsbpd_ok B M s" "tsbpd_steady M (map event_time es)" "tp_bTsbPdMode s"
  shows "fst (tsbpd_run es s) = unwrapped_run es B (tp_uTsbPdDelay s) (tp_DriftTracer s)"
  using assms
proof (induction es arbitrary: B M s)
  case (Cons e es)
  define t where "t = event_time e"
  obtain b s' where g: "getTsbPdTimeBase (t mod 4294967296) s = (b, s')" by fastforce
  have n: "0 \<le> t" "M - TSBPD_WRAP_PERIOD \<le> t" "t \<le> M + TSBPD_WRAP_PERIOD" "tsbpd_steady (max M t) (map event_time es)"
    using Cons.prems(2) by (simp_all add: t_def)
  note G = getTsbPdTimeBase_ok [OF Cons.prems(1) n(1-3) g] and F = getTsbPdTimeBase_fields [OF g]
  have "u64 (b + t mod 4294967296) = u64 (B + t div 4294967296 * 4294967296 + t mod 4294967296)"
    using G by (intro u64_cong_add) blast
  then have b: "u64 (b + t mod 4294967296) = u64 (B + t)" by (simp add: add.assoc)
  show ?case
  proof (cases e)
    case (Deliver x)
    have "u64 (b + tp_uTsbPdDelay s' + t mod 4294967296 + dt_qDrift (tp_DriftTracer s')) = u64 (B + t + tp_uTsbPdDelay s + dt_qDrift (tp_DriftTracer s))"
      using u64_cong_add [OF b, of "tp_uTsbPdDelay s + dt_qDrift (tp_DriftTracer s)"] F by (simp add: algebra_simps)
    moreover have "fst (tsbpd_run es s') = unwrapped_run es B (tp_uTsbPdDelay s') (tp_DriftTracer s')"
      by (rule Cons.IH [OF _ n(4)]) (use G F Cons.prems(3) in simp_all)
    ultimately show ?thesis using Deliver g F by (simp add: t_def getPktTsbPdTime_def MAX_TIMESTAMP_def split_beta)
  next
    case (Sample now x)
    obtain upd d where d: "drift_update (i64 (now - (B + t))) (tp_DriftTracer s) = (upd, d)" by fastforce
    have "i64 (now - (b + t mod 4294967296)) = i64 (now - (B + t))" by (rule i64_cong_diff [OF b])
    then have a: "addRcvTsbPdDriftSample now (t mod 4294967296) s =
        (if upd then s'\<lparr>tp_DriftTracer := d, tp_ullTsbPdTimeBase := u64 (tp_ullTsbPdTimeBase s' + dt_qOverdrift d)\<rparr> else s'\<lparr>tp_DriftTracer := d\<rparr>)"
      using g d F Cons.prems(3) by (simp add: addRcvTsbPdDriftSample_def Let_def)
    let ?B = "if upd then B + dt_qOverdrift d else B"
    have "tsbpd_ok ?B (max M t) (addRcvTsbPdDriftSample now (t mod 4294967296) s)"
      using tsbpd_ok_move [of B "max M t" s'] G by (simp add: a)
    from Cons.IH [OF this n(4)] show ?thesis using Sample d a F Cons.prems(3) by (simp add: t_def MAX_TIMESTAMP_def)
  qed
qed simp

text \<open>
  C22. The delivery times do not notice that the 32-bit time stamps of the peer wrap around. In every run of packets and
  drift samples in which each packet is sent at most 30 seconds before or after the latest one before it (the first one at most
  30 seconds from a time \<open>M\<close> that is not in the last 30 seconds before the first wrap-around), over any number of wrap-arounds, every packet is delivered at the base plus the true time at which it was sent, plus the latency, plus the
  drift, where the base is the one of the start moved only by the drift that the samples showed: as if time stamps had no
  bound. (All in 64-bit arithmetic.)
\<close>
theorem timestamps_unwrapped:
  assumes "0 \<le> M" "M \<le> MAX_TIMESTAMP - TSBPD_WRAP_PERIOD" "tsbpd_steady M (map event_time es)"
  shows "fst (tsbpd_run es (setRcvTsbPdMode B delay s)) = unwrapped_run es B delay (tp_DriftTracer s)"
proof -
  have "M < 4294967296" using assms(2) by (simp add: tsbpd_consts)
  then have "tsbpd_ok B M (setRcvTsbPdMode B delay s)"
    using assms by (simp add: tsbpd_ok_def setRcvTsbPdMode_def base_at_def)
  from tsbpd_run_ok [OF this assms(3)] show ?thesis by (simp add: setRcvTsbPdMode_def)
qed

theorem timestamps_unwrapped_witness:
  "fst (tsbpd_run [Deliver 4294950000, Sample 4295010000 4294980000, Deliver 4294967200, Deliver 4311000000, Deliver 4335000000]
     (setRcvTsbPdMode 1000 120000 tsbpd_new)) = [4295071000, 4295088200, 4311121000, 4335121000]"
  using timestamps_unwrapped [of 4264967295 "[Deliver 4294950000, Sample 4295010000 4294980000, Deliver 4294967200, Deliver 4311000000, Deliver 4335000000]" 1000 120000 tsbpd_new]
  by (simp add: tsbpd_consts tsbpd_new_def drift_new_def drift_update_def TSBPD_DRIFT_MAX_SAMPLES_def)

text \<open>
  If nothing was evaluated between 30 and 60 seconds after the wrap-around, the base is not advanced: a
  packet sent 65 seconds after it, and all that follow until the next wrap-around, get a delivery time that
  is 71 minutes in the past.
\<close>
theorem timestamps_gap:
  "fst (tsbpd_run (map Deliver [4294960000, 4294967296 + 65000000, 4294967296 + 95000000, 4294967296 + 3000000000])
     (setRcvTsbPdMode 0 120000 tsbpd_new)) = [4295080000, 65120000, 95120000, 3000120000]"
  by (simp add: tsbpd_consts setRcvTsbPdMode_def getTsbPdTimeBase_def getPktTsbPdTime_def tsbpd_new_def drift_new_def)

subsection \<open>Drift\<close>

fun drift_updates :: "int list \<Rightarrow> DriftTracer \<Rightarrow> bool list \<times> DriftTracer" where
  "drift_updates [] d = ([], d)"
| "drift_updates (x # xs) d = (let (u, d) = drift_update x d; (us, d) = drift_updates xs d in (u # us, d))"

lemma drift_updates_short:
  "dt_uDriftSpan d + length xs < TSBPD_DRIFT_MAX_SAMPLES \<Longrightarrow>
   drift_updates xs d = (replicate (length xs) False,
     d\<lparr>dt_qDriftSum := dt_qDriftSum d + sum_list xs, dt_uDriftSpan := dt_uDriftSpan d + length xs\<rparr>)"
  by (induction xs arbitrary: d) (simp_all add: drift_update_def Let_def)

lemma drift_updates_append:
  "drift_updates (xs @ ys) d = (let (us, d) = drift_updates xs d; (vs, d) = drift_updates ys d in (us @ vs, d))"
  by (induction xs arbitrary: d) (simp_all add: split_beta Let_def)

text \<open>
  The drift is evaluated once in 1000 samples; what is then added to the base and what stays as the drift
  add up to the mean of the samples, and the base moves by at most 5 ms, in the direction of the drift.
\<close>
theorem drift_mean:
  assumes "length xs = TSBPD_DRIFT_MAX_SAMPLES" "dt_uDriftSpan d = 0" "dt_qDriftSum d = 0"
    and "drift_updates xs d = (us, d')"
  shows "us = replicate 999 False @ [True] \<and> dt_uDriftSpan d' = 0 \<and> dt_qDriftSum d' = 0 \<and>
    dt_qOverdrift d' + dt_qDrift d' = c_div (sum_list xs) 1000 \<and>
    dt_qOverdrift d' \<in> {- TSBPD_DRIFT_MAX_VALUE, 0, TSBPD_DRIFT_MAX_VALUE} \<and>
    (dt_qOverdrift d' = 0 \<longleftrightarrow> \<bar>c_div (sum_list xs) 1000\<bar> \<le> TSBPD_DRIFT_MAX_VALUE)"
proof -
  obtain ys x where xs: "xs = ys @ [x]" using assms(1) by (cases xs rule: rev_cases) (auto simp: TSBPD_DRIFT_MAX_SAMPLES_def)
  have l: "length ys = 999" using assms(1) xs by (simp add: TSBPD_DRIFT_MAX_SAMPLES_def)
  have "drift_updates ys d = (replicate 999 False, d\<lparr>dt_qDriftSum := sum_list ys, dt_uDriftSpan := 999\<rparr>)"
    using drift_updates_short [of d ys] assms l by (simp add: TSBPD_DRIFT_MAX_SAMPLES_def)
  then show ?thesis
    using assms(4) xs
    by (auto simp: drift_updates_append drift_update_def Let_def TSBPD_DRIFT_MAX_SAMPLES_def TSBPD_DRIFT_MAX_VALUE_def split: if_splits)
qed

theorem drift_mean_witness:
  "dt_qOverdrift (snd (drift_updates (replicate 1000 7000) drift_new)) + dt_qDrift (snd (drift_updates (replicate 1000 7000) drift_new)) = 7000"
proof -
  have "sum_list (replicate 1000 (7000::int)) = 7000000" by (simp add: sum_list_replicate)
  then show ?thesis
    using drift_mean [of "replicate 1000 7000" drift_new "fst (drift_updates (replicate 1000 7000) drift_new)"
        "snd (drift_updates (replicate 1000 7000) drift_new)"]
    by (simp add: TSBPD_DRIFT_MAX_SAMPLES_def drift_new_def)
qed

end
