(* ===== verification/RcvBuffer.thy ===== *)
theory RcvBuffer
  imports UnitQueue TsbPd
begin

text \<open>
  The receiver buffer (\<open>CRcvBuffer\<close>, \<open>buffer.cpp\<close>): a ring of pointers to units of the pool. From \<open>rb_iStartPos\<close>
  the acknowledged units lie up to \<open>rb_iLastAckPos\<close>, then at most \<open>rb_iMaxPos\<close> positions that may hold units
  which arrived behind a gap. \<open>m_iSize\<close> is the length of the ring. A loop
  \<open>for (i = a; i != n; i = (i + 1) % m_iSize)\<close> is a recursion over \<open>cyc size a n\<close> (\<open>cyc_unfold\<close>); the counts
  and the clock are those of the code, \<open>now i\<close> is what the clock says when position \<open>i\<close> is looked at.
\<close>

record CRcvBuffer =
  rb_pUnit :: "nat option list"
  rb_iStartPos :: nat
  rb_iLastAckPos :: nat
  rb_iMaxPos :: nat
  rb_iNotch :: nat
  rb_iBytesCount :: int
  rb_iAckedPktsCount :: int
  rb_iAckedBytesCount :: int
  rb_iAvgPayloadSz :: int
  rb_tsbpd :: CTsbPd
  rb_pool :: CUnitQueue

definition rb_new :: "nat \<Rightarrow> CUnitQueue \<Rightarrow> CRcvBuffer" where
  "rb_new bufsize pool = \<lparr>rb_pUnit = replicate bufsize None, rb_iStartPos = 0, rb_iLastAckPos = 0, rb_iMaxPos = 0,
     rb_iNotch = 0, rb_iBytesCount = 0, rb_iAckedPktsCount = 0, rb_iAckedBytesCount = 0, rb_iAvgPayloadSz = 7 * 188,
     rb_tsbpd = tsbpd_new, rb_pool = pool\<rparr>"

abbreviation rb_size :: "CRcvBuffer \<Rightarrow> nat" where
  "rb_size b \<equiv> length (rb_pUnit b)"

definition unit_at :: "CRcvBuffer \<Rightarrow> nat \<Rightarrow> CUnit option" where
  "unit_at b p = map_option (\<lambda>u. uq_unit (rb_pool b) ! u) (rb_pUnit b ! p)"

definition good_at :: "CRcvBuffer \<Rightarrow> nat \<Rightarrow> bool" where
  "good_at b p = (case unit_at b p of None \<Rightarrow> False | Some u \<Rightarrow> un_iFlag u = GOOD)"

definition packet_time :: "CPacket \<Rightarrow> int" where
  "packet_time p = uint (getMsgTimeStamp p)"

definition payload :: "CPacket \<Rightarrow> 8 word list" where
  "payload p = (case pv_data p of None \<Rightarrow> [] | Some d \<Rightarrow> take (getLength p) d)"

text \<open>The positions that a cyclic loop visits.\<close>

definition cyc :: "nat \<Rightarrow> nat \<Rightarrow> nat \<Rightarrow> nat list" where
  "cyc sz a n = map (\<lambda>k. (a + k) mod sz) [0 ..< (if a \<le> n then n - a else sz + n - a)]"

definition next_pos :: "nat \<Rightarrow> nat \<Rightarrow> nat" where
  "next_pos sz p = (if p + 1 = sz then 0 else p + 1)"

subsection \<open>Sizes and counters\<close>

definition getRcvDataSize :: "CRcvBuffer \<Rightarrow> nat" where
  "getRcvDataSize b =
     (if rb_iLastAckPos b \<ge> rb_iStartPos b then rb_iLastAckPos b - rb_iStartPos b
      else rb_size b + rb_iLastAckPos b - rb_iStartPos b)"

definition getAvailBufSize :: "CRcvBuffer \<Rightarrow> int" where
  "getAvailBufSize b = int (rb_size b) - int (getRcvDataSize b) - 1"

definition countBytes :: "int \<Rightarrow> int \<Rightarrow> bool \<Rightarrow> CRcvBuffer \<Rightarrow> CRcvBuffer" where
  "countBytes pkts bytes acked b =
     (if \<not> acked then
        (let b = b\<lparr>rb_iBytesCount := rb_iBytesCount b + bytes\<rparr>
         in if bytes > 0 then b\<lparr>rb_iAvgPayloadSz := c_div (rb_iAvgPayloadSz b * (100 - 1) + bytes) 100\<rparr> else b)
      else
        (let b = b\<lparr>rb_iAckedPktsCount := rb_iAckedPktsCount b + pkts, rb_iAckedBytesCount := rb_iAckedBytesCount b + bytes\<rparr>
         in if bytes < 0 then b\<lparr>rb_iBytesCount := rb_iBytesCount b + bytes\<rparr> else b))"

subsection \<open>The operations of the protocol\<close>

text \<open>The pointer of position \<open>p\<close> is cleared and its unit given back.\<close>

definition free_at :: "nat \<Rightarrow> CRcvBuffer \<Rightarrow> CRcvBuffer" where
  "free_at p b =
     (case rb_pUnit b ! p of
        None \<Rightarrow> b
      | Some u \<Rightarrow> b\<lparr>rb_pUnit := (rb_pUnit b)[p := None], rb_pool := makeUnitFree u (rb_pool b)\<rparr>)"

text \<open>The destructor gives all units back.\<close>

definition rb_destroy :: "CRcvBuffer \<Rightarrow> CUnitQueue" where
  "rb_destroy b = fold (\<lambda>u q. case u of None \<Rightarrow> q | Some u \<Rightarrow> makeUnitFree u q) (rb_pUnit b) (rb_pool b)"

definition addData :: "nat \<Rightarrow> nat \<Rightarrow> CRcvBuffer \<Rightarrow> int \<times> CRcvBuffer" where
  "addData u offset b =
     (if int offset \<ge> getAvailBufSize b then (- 1, b)
      else
        (let pos = (rb_iLastAckPos b + offset) mod rb_size b;
             b = (if offset \<ge> rb_iMaxPos b then b\<lparr>rb_iMaxPos := offset + 1\<rparr> else b)
         in if rb_pUnit b ! pos \<noteq> None then (- 1, b)
            else
              (let b = b\<lparr>rb_pUnit := (rb_pUnit b)[pos := Some u]\<rparr>;
                   b = countBytes 1 (int (getLength (un_Packet (uq_unit (rb_pool b) ! u)))) False b
               in (0, b\<lparr>rb_pool := makeUnitGood u (rb_pool b)\<rparr>))))"

text \<open>\<open>m_iMaxPos\<close> is clamped at 0, as the difference of natural numbers is.\<close>

definition advance_ack :: "nat \<Rightarrow> CRcvBuffer \<Rightarrow> CRcvBuffer" where
  "advance_ack len b = b\<lparr>rb_iLastAckPos := (rb_iLastAckPos b + len) mod rb_size b, rb_iMaxPos := rb_iMaxPos b - len\<rparr>"

definition rb_ackData :: "nat \<Rightarrow> CRcvBuffer \<Rightarrow> CRcvBuffer" where
  "rb_ackData len b =
     (let n = (rb_iLastAckPos b + len) mod rb_size b;
          units = List.map_filter (unit_at b) (cyc (rb_size b) (rb_iLastAckPos b) n);
          pkts = length units; bytes = sum_list (map (\<lambda>u. int (getLength (un_Packet u))) units);
          b = (if pkts > 0 then countBytes (int pkts) bytes True b else b)
      in advance_ack len b)"

definition skipData :: "nat \<Rightarrow> CRcvBuffer \<Rightarrow> CRcvBuffer" where
  "skipData len b =
     (let b = (if rb_iStartPos b = rb_iLastAckPos b then b\<lparr>rb_iStartPos := (rb_iStartPos b + len) mod rb_size b\<rparr> else b)
      in advance_ack len b)"

definition dropMsg :: "32 word \<Rightarrow> bool \<Rightarrow> CRcvBuffer \<Rightarrow> CRcvBuffer" where
  "dropMsg msgno using_rexmit_flag b =
     fold (\<lambda>i b. case rb_pUnit b ! i of
             None \<Rightarrow> b
           | Some u \<Rightarrow>
               if getMsgSeq (un_Packet (uq_unit (rb_pool b) ! u)) using_rexmit_flag = msgno
               then b\<lparr>rb_pool := set_flag_of u DROPPED (rb_pool b)\<rparr> else b)
       (cyc (rb_size b) (rb_iStartPos b) ((rb_iLastAckPos b + rb_iMaxPos b) mod rb_size b)) b"

subsection \<open>Readiness\<close>

fun rcvReady_loop :: "(nat \<Rightarrow> int) \<Rightarrow> nat list \<Rightarrow> int \<Rightarrow> 32 word \<Rightarrow> CRcvBuffer \<Rightarrow> bool \<times> int \<times> 32 word \<times> CRcvBuffer" where
  "rcvReady_loop now [] tsbpdtime curpktseq b = (False, tsbpdtime, curpktseq, b)"
| "rcvReady_loop now (i # is) tsbpdtime curpktseq b =
     (case unit_at b i of
        None \<Rightarrow> rcvReady_loop now is tsbpdtime curpktseq (b\<lparr>rb_iStartPos := next_pos (rb_size b) (rb_iStartPos b)\<rparr>)
      | Some u \<Rightarrow>
          let curpktseq = ph_seqno (un_Packet u);
              drop_unit = (\<lambda>b. (free_at i (countBytes (- 1) (- int (getLength (un_Packet u))) True b))
                \<lparr>rb_iStartPos := next_pos (rb_size b) (rb_iStartPos b)\<rparr>)
          in if un_iFlag u \<noteq> GOOD then rcvReady_loop now is tsbpdtime curpktseq (drop_unit b)
             else
               (let (t, tb) = getPktTsbPdTime (packet_time (un_Packet u)) (rb_tsbpd b); b = b\<lparr>rb_tsbpd := tb\<rparr>
                in if i64 (t - now i) > 0 then (False, t, curpktseq, b)
                   else if getMsgCryptoFlags (un_Packet u) \<noteq> keyspec_code EK_NOENC
                   then rcvReady_loop now is t curpktseq (drop_unit b)
                   else (True, t, curpktseq, b)))"

definition getRcvReadyMsg :: "(nat \<Rightarrow> int) \<Rightarrow> 32 word \<Rightarrow> CRcvBuffer \<Rightarrow> bool \<times> int \<times> 32 word \<times> CRcvBuffer" where
  "getRcvReadyMsg now curpktseq b =
     rcvReady_loop now (cyc (rb_size b) (rb_iStartPos b) (rb_iLastAckPos b)) 0 curpktseq b"

record first_msg =
  fm_tsbpdtime :: int
  fm_passack :: bool
  fm_skipseqno :: "32 word"
  fm_curpktseq :: "32 word"

fun rcvFirst_loop :: "(nat \<Rightarrow> int) \<Rightarrow> nat list \<Rightarrow> bool \<Rightarrow> first_msg \<Rightarrow> CRcvBuffer \<Rightarrow> bool \<times> first_msg \<times> CRcvBuffer" where
  "rcvFirst_loop now [] haslost m b = (False, m, b)"
| "rcvFirst_loop now (i # is) haslost m b =
     (case unit_at b i of
        None \<Rightarrow> rcvFirst_loop now is True m b
      | Some u \<Rightarrow>
          if un_iFlag u \<noteq> GOOD then rcvFirst_loop now is True m b
          else
            (let (t, tb) = getPktTsbPdTime (packet_time (un_Packet u)) (rb_tsbpd b);
                 b = b\<lparr>rb_tsbpd := tb\<rparr>; m = m\<lparr>fm_tsbpdtime := t\<rparr>; s = ph_seqno (un_Packet u)
             in if t \<le> now i then (True, if haslost then m\<lparr>fm_skipseqno := s, fm_curpktseq := s\<rparr> else m, b)
                else (False, m, b)))"

text \<open>\<open>now\<close> is used for the acknowledged part, \<open>now'\<close> for the units behind it.\<close>

definition getRcvFirstMsg :: "(nat \<Rightarrow> int) \<Rightarrow> (nat \<Rightarrow> int) \<Rightarrow> 32 word \<Rightarrow> CRcvBuffer \<Rightarrow> bool \<times> first_msg \<times> CRcvBuffer" where
  "getRcvFirstMsg now now' curpktseq b =
     (let (ready, t, s, b) = getRcvReadyMsg now curpktseq b;
          m = \<lparr>fm_tsbpdtime = t, fm_passack = False, fm_skipseqno = - 1, fm_curpktseq = s\<rparr>
      in if ready then (True, m, b)
         else if t \<noteq> 0 then (False, m, b)
         else rcvFirst_loop now' (cyc (rb_size b) (rb_iLastAckPos b) ((rb_iLastAckPos b + rb_iMaxPos b) mod rb_size b)) False
                (m\<lparr>fm_passack := True\<rparr>) b)"

definition getRcvReadyPacket :: "CRcvBuffer \<Rightarrow> CPacket option" where
  "getRcvReadyPacket b =
     map_option (\<lambda>i. un_Packet (the (unit_at b i)))
       (find (good_at b) (cyc (rb_size b) (rb_iStartPos b) (rb_iLastAckPos b)))"

text \<open>Result: ready, delivery time, sequence number of the packet (unchanged where the code leaves it).\<close>

definition isRcvDataReady :: "int \<Rightarrow> 32 word \<Rightarrow> CRcvBuffer \<Rightarrow> bool \<times> int \<times> 32 word \<times> CRcvBuffer" where
  "isRcvDataReady now curpktseq b =
     (if tp_bTsbPdMode (rb_tsbpd b) then
        (case getRcvReadyPacket b of
           None \<Rightarrow> (False, 0, curpktseq, b)
         | Some pkt \<Rightarrow>
             (let (t, tb) = getPktTsbPdTime (packet_time pkt) (rb_tsbpd b)
              in (t \<le> now, t, ph_seqno pkt, b\<lparr>rb_tsbpd := tb\<rparr>)))
      else (rb_iLastAckPos b \<noteq> rb_iStartPos b, 0, curpktseq, b))"

subsection \<open>Reading a byte stream\<close>

text \<open>
  The state of the loop: no null pointer was met, position, bytes still wanted, bytes copied. Where only a part
  of a unit is taken, \<open>unitsize\<close> is \<open>rs\<close>, so that the loop ends.
\<close>

fun readBuffer_loop ::
  "int \<Rightarrow> nat \<Rightarrow> nat list \<Rightarrow> nat \<Rightarrow> 8 word list \<Rightarrow> CRcvBuffer \<Rightarrow> bool \<times> nat \<times> nat \<times> 8 word list \<times> CRcvBuffer" where
  "readBuffer_loop now lastack [] rs out b = (True, lastack, rs, out, b)"
| "readBuffer_loop now lastack (p # ps) rs out b =
     (if rs = 0 then (True, p, rs, out, b)
      else
        (case unit_at b p of
           None \<Rightarrow> (False, p, rs, out, b)
         | Some u \<Rightarrow>
             let (t, tb) = (if tp_bTsbPdMode (rb_tsbpd b) then getPktTsbPdTime (packet_time (un_Packet u)) (rb_tsbpd b)
                            else (now, rb_tsbpd b));
                 b = b\<lparr>rb_tsbpd := tb\<rparr>;
                 len = getLength (un_Packet u) - rb_iNotch b;
                 unitsize = (if len > rs then rs else len);
                 bytes = take unitsize (drop (rb_iNotch b) (payload (un_Packet u)))
             in if t > now then (True, p, rs, out, b)
                else if rs > unitsize \<or> rs = len
                then readBuffer_loop now lastack ps (rs - unitsize) (out @ bytes) ((free_at p b)\<lparr>rb_iNotch := 0\<rparr>)
                else (True, p, rs - unitsize, out @ bytes, b\<lparr>rb_iNotch := rb_iNotch b + rs\<rparr>)))"

text \<open>\<open>None\<close> is the return value -1; the position is then left as it was.\<close>

definition readBuffer :: "int \<Rightarrow> nat \<Rightarrow> CRcvBuffer \<Rightarrow> 8 word list option \<times> CRcvBuffer" where
  "readBuffer now len b =
     (let (ok, p, rs, out, b') =
        readBuffer_loop now (rb_iLastAckPos b) (cyc (rb_size b) (rb_iStartPos b) (rb_iLastAckPos b)) len [] b
      in if \<not> ok then (None, b')
         else (Some out, (countBytes (- 1) (- (int len - int rs)) True b')\<lparr>rb_iStartPos := p\<rparr>))"

subsection \<open>Reading messages\<close>

definition PB_FIRST_bit :: "CPacket \<Rightarrow> bool" where
  "PB_FIRST_bit p \<longleftrightarrow> getMsgBoundary p AND boundary_code PB_FIRST \<noteq> 0"

definition PB_LAST_bit :: "CPacket \<Rightarrow> bool" where
  "PB_LAST_bit p \<longleftrightarrow> getMsgBoundary p AND boundary_code PB_LAST \<noteq> 0"

fun look_ahead :: "CRcvBuffer \<Rightarrow> nat list \<Rightarrow> bool" where
  "look_ahead b [] \<longleftrightarrow> True"
| "look_ahead b (i # is) \<longleftrightarrow>
     (case unit_at b i of
        None \<Rightarrow> False
      | Some u \<Rightarrow> un_iFlag u = GOOD \<and> (PB_LAST_bit (un_Packet u) \<or> look_ahead b is))"

text \<open>All bad messages at the beginning are removed; the counters of removed packets and bytes are returned.\<close>

fun scan_skip :: "nat list \<Rightarrow> int \<Rightarrow> int \<Rightarrow> CRcvBuffer \<Rightarrow> int \<times> int \<times> CRcvBuffer" where
  "scan_skip [] rmpkts rmbytes b = (rmpkts, rmbytes, b)"
| "scan_skip (p # ps) rmpkts rmbytes b =
     (let step = (\<lambda>b. b\<lparr>rb_iStartPos := next_pos (rb_size b) (rb_iStartPos b)\<rparr>)
      in case unit_at b p of
           None \<Rightarrow> scan_skip ps rmpkts rmbytes (step b)
         | Some u \<Rightarrow>
             if un_iFlag u = GOOD \<and> PB_FIRST_bit (un_Packet u) \<and> look_ahead b (p # ps) then (rmpkts, rmbytes, b)
             else scan_skip ps (rmpkts + 1) (rmbytes + int (getLength (un_Packet u))) (step (free_at p b)))"

text \<open>The search for the first complete message; \<open>p\<close> is \<open>None\<close> for -1.\<close>

fun scan_find :: "nat \<Rightarrow> nat option \<Rightarrow> nat \<Rightarrow> bool \<Rightarrow> CRcvBuffer \<Rightarrow> bool \<times> nat option \<times> nat \<times> bool" where
  "scan_find 0 p q passack b = (False, p, q, passack)"
| "scan_find (Suc n) p q passack b =
     (let (p, found) =
        (if good_at b q then
           (let bound = getMsgBoundary (un_Packet (the (unit_at b q)))
            in if bound = boundary_code PB_SOLO then (Some q, True)
               else if bound = boundary_code PB_FIRST then (Some q, False)
               else if bound = boundary_code PB_LAST then (p, p \<noteq> None)
               else (p, False))
         else (None, False))
      in if found \<and> (\<not> passack \<or> \<not> getMsgOrderFlag (un_Packet (the (unit_at b q)))) then (True, p, q, passack)
         else
           (let q = next_pos (rb_size b) q; passack = (if q = rb_iLastAckPos b then True else passack)
            in scan_find n p q passack b))"

definition scanMsg :: "CRcvBuffer \<Rightarrow> bool \<times> nat option \<times> nat \<times> bool \<times> CRcvBuffer" where
  "scanMsg b =
     (if rb_iStartPos b = rb_iLastAckPos b \<and> rb_iMaxPos b = 0 then (False, None, 0, False, b)
      else
        (let (rmpkts, rmbytes, b) = scan_skip (cyc (rb_size b) (rb_iStartPos b) (rb_iLastAckPos b)) 0 0 b;
             b = countBytes (- rmpkts) (- rmbytes) True b;
             (found, p, q, passack) =
               scan_find (rb_iMaxPos b + getRcvDataSize b) None (rb_iStartPos b) (rb_iStartPos b = rb_iLastAckPos b) b;
             found = (found \<or> p \<noteq> None \<and> (q + 1) mod rb_size b = the p)
         in (found, p, q, passack, b)))"

text \<open>\<open>None\<close>: a null pointer would be dereferenced.\<close>

fun readMsg_loop :: "nat list \<Rightarrow> bool \<Rightarrow> nat \<Rightarrow> 8 word list \<Rightarrow> CRcvBuffer \<Rightarrow> (nat \<times> 8 word list \<times> CRcvBuffer) option" where
  "readMsg_loop [] passack rs out b = Some (rs, out, b)"
| "readMsg_loop (p # ps) passack rs out b =
     (case unit_at b p of
        None \<Rightarrow> None
      | Some u \<Rightarrow>
          let pktlen = getLength (un_Packet u);
              b = (if pktlen > 0 then countBytes (- 1) (- int pktlen) True b else b);
              unitsize = (if pktlen > rs then rs else pktlen);
              b = (if \<not> passack then free_at p b
                   else b\<lparr>rb_pool := set_flag_of (the (rb_pUnit b ! p)) PASSACK (rb_pool b)\<rparr>)
          in readMsg_loop ps passack (rs - unitsize) (out @ take unitsize (payload (un_Packet u))) b)"

record msgctrl =
  mc_srctime :: int
  mc_pktseq :: "32 word"
  mc_msgno :: "32 word"

definition readMsg :: "(nat \<Rightarrow> int) \<Rightarrow> nat \<Rightarrow> msgctrl \<Rightarrow> CRcvBuffer \<Rightarrow> (8 word list \<times> msgctrl \<times> CRcvBuffer) option" where
  "readMsg now len mc b =
     (let (found, p, q, passack, t, b) =
        (if tp_bTsbPdMode (rb_tsbpd b) then
           (let (ready, t, s, b) = getRcvReadyMsg now 0 b
            in (ready, Some (rb_iStartPos b), rb_iStartPos b, False, t, b))
         else (let (found, p, q, passack, b) = scanMsg b in (found, p, q, passack, 0, b)));
          mc = mc\<lparr>mc_srctime := t\<rparr>
      in if \<not> found then Some ([], mc, b)
         else
           do {
             p \<leftarrow> p;
             u \<leftarrow> unit_at b p;
             let mc = mc\<lparr>mc_pktseq := ph_seqno (un_Packet u), mc_msgno := getMsgSeq (un_Packet u) True\<rparr>;
             (rs, out, b) \<leftarrow> readMsg_loop (cyc (rb_size b) p ((q + 1) mod rb_size b)) passack len [] b;
             let b = (if \<not> passack then b\<lparr>rb_iStartPos := (q + 1) mod rb_size b\<rparr> else b);
             Some (out, mc, b)
           })"

subsection \<open>Statistics\<close>

text \<open>The span in milliseconds between the first and the last acknowledged unit; evaluating the time stamps
  passes the base through both of them.\<close>

definition getRcvDataSize_span :: "CRcvBuffer \<Rightarrow> int \<times> int \<times> int \<times> CRcvBuffer" where
  "getRcvDataSize_span b =
     (let (timespan, b) =
        (if \<not> tp_bTsbPdMode (rb_tsbpd b) then (0, b)
         else
           (case find (good_at b) (cyc (rb_size b) (rb_iStartPos b) (rb_iLastAckPos b)) of
              None \<Rightarrow> (0, b)
            | Some startpos \<Rightarrow>
                (let last = rb_iLastAckPos b;
                     endpos = (if rb_iMaxPos b = 0 \<or> \<not> good_at b last
                               then (if last = 0 then rb_size b - 1 else last - 1) else last);
                     (span, b) =
                       (case (unit_at b endpos, unit_at b startpos) of
                          (Some ue, Some us) \<Rightarrow>
                            (let (startstamp, tb) = getPktTsbPdTime (packet_time (un_Packet us)) (rb_tsbpd b);
                                 (endstamp, tb) = getPktTsbPdTime (packet_time (un_Packet ue)) tb
                             in (if endstamp > startstamp then i32 ((endstamp - startstamp) div 1000) else 0, b\<lparr>rb_tsbpd := tb\<rparr>))
                        | _ \<Rightarrow> (0, b))
                 in (if rb_iAckedPktsCount b > 0 then span + 1 else span, b))))
      in (rb_iAckedPktsCount b, rb_iAckedBytesCount b, timespan, b))"

record rcv_mavg =
  ma_LastSamplingTime :: int
  ma_TimespanMAvg :: int
  ma_iCountMAvg :: int
  ma_iBytesCountMAvg :: int

definition SRT_MAVG_SAMPLING_RATE :: int where
  "SRT_MAVG_SAMPLING_RATE = 40"

definition updRcvAvgDataSize :: "int \<Rightarrow> rcv_mavg \<times> CRcvBuffer \<Rightarrow> rcv_mavg \<times> CRcvBuffer" where
  "updRcvAvgDataSize now s =
     (let (m, b) = s; elapsed_ms = u64 (now - ma_LastSamplingTime m) div 1000
      in if 1000000 div SRT_MAVG_SAMPLING_RATE div 1000 > elapsed_ms then (m, b)
         else
           (let (count, bytescount, instspan, b) = getRcvDataSize_span b
            in if 1000 < elapsed_ms then
                 (\<lparr>ma_LastSamplingTime = now, ma_TimespanMAvg = instspan, ma_iCountMAvg = count, ma_iBytesCountMAvg = bytescount\<rparr>, b)
               else
                 (let avg = (\<lambda>x. i32 (u64 (x * (1000 - elapsed_ms) + x * elapsed_ms) div 1000))
                  in (\<lparr>ma_LastSamplingTime = now, ma_TimespanMAvg = avg instspan, ma_iCountMAvg = avg count,
                       ma_iBytesCountMAvg = avg bytescount\<rparr>, b))))"

end
