(* ===== verification/RcvBufferInv.thy ===== *)
theory RcvBufferInv
  imports RcvBuffer
begin

text \<open>
  The receiver buffer as a queue: seen from \<open>rb_iStartPos\<close> the ring is a list of slots, the acknowledged ones
  first. The invariant, and what every operation of the protocol does to the two lists of slots.
\<close>

subsection \<open>The ring as a list\<close>

definition ring :: "CRcvBuffer \<Rightarrow> nat option list" where
  "ring b = rotate (rb_iStartPos b) (rb_pUnit b)"

definition slot_pos :: "CRcvBuffer \<Rightarrow> nat \<Rightarrow> nat" where
  "slot_pos b k = (rb_iStartPos b + k) mod rb_size b"

lemma length_ring [simp]: "length (ring b) = rb_size b"
  by (simp add: ring_def)

lemma ring_nth: "k < rb_size b \<Longrightarrow> ring b ! k = rb_pUnit b ! slot_pos b k"
  by (simp add: ring_def slot_pos_def nth_rotate)

definition dist :: "nat \<Rightarrow> nat \<Rightarrow> nat \<Rightarrow> nat" where
  "dist sz a n = (if a \<le> n then n - a else sz + n - a)"

lemma dist_less: "a < sz \<Longrightarrow> n < sz \<Longrightarrow> dist sz a n < sz"
  by (auto simp: dist_def)

lemma dist_add: "a < sz \<Longrightarrow> n < sz \<Longrightarrow> (a + dist sz a n) mod sz = n"
  by (auto simp: dist_def mod_if)

lemma dist_off: "a < sz \<Longrightarrow> k < sz \<Longrightarrow> dist sz a ((a + k) mod sz) = k"
  by (auto simp: dist_def mod_if)

lemma mod_shift_eq: "i < sz \<Longrightarrow> k < sz \<Longrightarrow> (s + i) mod sz = (s + k) mod sz \<longleftrightarrow> i = (k::nat)"
  using dist_off [of "s mod sz" sz i] dist_off [of "s mod sz" sz k] by (metis mod_add_left_eq mod_less_divisor gr_implies_not_zero neq0_conv)

lemma rotate_update: "k < length xs \<Longrightarrow> rotate s (xs[(s + k) mod length xs := x]) = (rotate s xs)[k := x]"
proof (rule nth_equalityI)
  fix i assume k: "k < length xs" and "i < length (rotate s (xs[(s + k) mod length xs := x]))"
  then have i: "i < length xs" by simp
  have n: "0 < length xs" using k by linarith
  have "(s + i) mod length xs = (s + k) mod length xs \<longleftrightarrow> i = k" by (rule mod_shift_eq [OF i k])
  then show "rotate s (xs[(s + k) mod length xs := x]) ! i = (rotate s xs)[k := x] ! i"
    using i k n by (cases "i = k") (simp_all add: nth_rotate nth_list_update)
qed simp

lemma ring_update: "k < rb_size b \<Longrightarrow> rotate (rb_iStartPos b) ((rb_pUnit b)[slot_pos b k := x]) = (ring b)[k := x]"
  by (simp add: ring_def slot_pos_def rotate_update)

lemma next_pos_mod: "p < sz \<Longrightarrow> next_pos sz p = (p + 1) mod sz"
  by (auto simp: next_pos_def)

lemma rotate_next: "s < length xs \<Longrightarrow> rotate (next_pos (length xs) s) xs = rotate1 (rotate s xs)"
  by (metis Suc_eq_plus1 next_pos_mod rotate_Suc rotate_conv_mod)

lemma dataSize_dist: "getRcvDataSize b = dist (rb_size b) (rb_iStartPos b) (rb_iLastAckPos b)"
  by (simp add: getRcvDataSize_def dist_def)

lemma cyc_dist: "cyc sz a n = map (\<lambda>k. (a + k) mod sz) [0 ..< dist sz a n]"
  by (simp add: cyc_def dist_def)

text \<open>The recursion over \<open>cyc\<close> is the loop \<open>for (i = a; i != n; i = (i + 1) % m_iSize)\<close>.\<close>

lemma cyc_unfold:
  assumes "a < sz" "n < sz"
  shows "cyc sz a n = (if a = n then [] else a # cyc sz ((a + 1) mod sz) n)"
proof (cases "a = n")
  case False
  have d: "dist sz a n = Suc (dist sz ((a + 1) mod sz) n)"
    using assms False by (auto simp: dist_def mod_if)
  have "(Suc (a + k)) mod sz = (Suc a mod sz + k) mod sz" for k by (metis add_Suc mod_add_left_eq)
  then have "map (\<lambda>k. (a + Suc k) mod sz) [0 ..< m] = map (\<lambda>k. ((a + 1) mod sz + k) mod sz) [0 ..< m]" for m by simp
  moreover have "[0 ..< Suc m] = 0 # map Suc [0 ..< m]" for m by (metis map_Suc_upt upt_conv_Cons zero_less_Suc)
  ultimately show ?thesis using False assms by (simp add: cyc_dist d comp_def)
qed (simp add: cyc_def)

lemma cyc_start:
  assumes "rb_iStartPos b < rb_size b" "m < rb_size b"
  shows "cyc (rb_size b) (rb_iStartPos b) (slot_pos b m) = map (slot_pos b) [0 ..< m]"
  using assms by (simp add: cyc_dist slot_pos_def dist_off)

subsection \<open>The invariant\<close>

definition rb_inv :: "CRcvBuffer \<Rightarrow> bool" where
  "rb_inv b \<longleftrightarrow> rb_iStartPos b < rb_size b \<and> rb_iLastAckPos b < rb_size b \<and>
     getRcvDataSize b + rb_iMaxPos b < rb_size b \<and> uq_inv (rb_pool b) \<and>
     (\<forall>k < rb_size b. \<forall>u. ring b ! k = Some u \<longrightarrow>
        k < getRcvDataSize b + rb_iMaxPos b \<and> u < length (uq_unit (rb_pool b)) \<and> uq_busy (rb_pool b) u) \<and>
     (\<forall>i < rb_size b. \<forall>j < rb_size b. \<forall>u. ring b ! i = Some u \<and> ring b ! j = Some u \<longrightarrow> i = j)"

lemma rb_new_inv: "0 < n \<Longrightarrow> uq_inv q \<Longrightarrow> rb_inv (rb_new n q)"
  by (simp add: rb_inv_def rb_new_def ring_def getRcvDataSize_def)

lemma lastack_slot: "rb_inv b \<Longrightarrow> slot_pos b (getRcvDataSize b) = rb_iLastAckPos b"
  by (simp add: rb_inv_def slot_pos_def dataSize_dist dist_add)

lemma lastack_off: "rb_inv b \<Longrightarrow> (rb_iLastAckPos b + k) mod rb_size b = slot_pos b (getRcvDataSize b + k)"
  using lastack_slot [of b] by (metis slot_pos_def add.assoc mod_add_left_eq)

lemma cyc_acked: "rb_inv b \<Longrightarrow> cyc (rb_size b) (rb_iStartPos b) (rb_iLastAckPos b) = map (slot_pos b) [0 ..< getRcvDataSize b]"
  using cyc_start [of b "getRcvDataSize b"] lastack_slot [of b] by (simp add: rb_inv_def)

lemma cyc_pending:
  assumes "rb_inv b" "getRcvDataSize b + m < rb_size b"
  shows "cyc (rb_size b) (rb_iLastAckPos b) ((rb_iLastAckPos b + m) mod rb_size b)
    = map (slot_pos b) [getRcvDataSize b ..< getRcvDataSize b + m]"
proof -
  have p: "rb_iLastAckPos b < rb_size b" "m < rb_size b" using assms by (auto simp: rb_inv_def)
  have "cyc (rb_size b) (rb_iLastAckPos b) ((rb_iLastAckPos b + m) mod rb_size b)
      = map (\<lambda>k. slot_pos b (getRcvDataSize b + k)) [0 ..< m]"
    unfolding cyc_dist dist_off [OF p] by (simp add: lastack_off [OF assms(1)])
  also have "\<dots> = map (slot_pos b) [getRcvDataSize b ..< getRcvDataSize b + m]"
    using map_add_upt [of "getRcvDataSize b" m, symmetric] by (simp add: comp_def add.commute)
  finally show ?thesis .
qed

text \<open>The two lists of slots: what is there for the reader, and what waits for the gap in front to close.\<close>

definition slots :: "CRcvBuffer \<Rightarrow> CUnit option list" where
  "slots b = map (map_option (\<lambda>u. uq_unit (rb_pool b) ! u)) (ring b)"

definition rb_acked :: "CRcvBuffer \<Rightarrow> CUnit option list" where
  "rb_acked b = take (getRcvDataSize b) (slots b)"

definition rb_pending :: "CRcvBuffer \<Rightarrow> CUnit option list" where
  "rb_pending b = take (rb_iMaxPos b) (drop (getRcvDataSize b) (slots b))"

lemma length_slots [simp]: "length (slots b) = rb_size b"
  by (simp add: slots_def)

lemma slots_nth: "k < rb_size b \<Longrightarrow> slots b ! k = unit_at b (slot_pos b k)"
  by (simp add: slots_def unit_at_def ring_nth)

lemma length_acked [simp]: "rb_inv b \<Longrightarrow> length (rb_acked b) = getRcvDataSize b"
  by (simp add: rb_acked_def rb_inv_def)

lemma length_pending [simp]: "rb_inv b \<Longrightarrow> length (rb_pending b) = rb_iMaxPos b"
  by (auto simp: rb_pending_def rb_inv_def)

lemma rb_invD:
  assumes "rb_inv b"
  shows "0 < rb_size b" "rb_iStartPos b < rb_size b" "rb_iLastAckPos b < rb_size b"
    "getRcvDataSize b + rb_iMaxPos b < rb_size b" "uq_inv (rb_pool b)"
    "\<And>k u. ring b ! k = Some u \<Longrightarrow> k < rb_size b \<Longrightarrow> k < getRcvDataSize b + rb_iMaxPos b \<and> u < length (uq_unit (rb_pool b)) \<and> uq_busy (rb_pool b) u"
    "\<And>i j u. ring b ! i = Some u \<Longrightarrow> ring b ! j = Some u \<Longrightarrow> i < rb_size b \<Longrightarrow> j < rb_size b \<Longrightarrow> i = j"
  using assms unfolding rb_inv_def by auto

text \<open>Only the ring, the positions and the pool matter.\<close>

lemma rb_inv_cong:
  assumes "ring b' = ring b" "rb_iStartPos b' = rb_iStartPos b" "rb_iLastAckPos b' = rb_iLastAckPos b" "rb_iMaxPos b' = rb_iMaxPos b"
    "rb_pool b' = rb_pool b"
  shows "rb_inv b' \<longleftrightarrow> rb_inv b" "slots b' = slots b" "rb_acked b' = rb_acked b" "rb_pending b' = rb_pending b"
proof -
  have l: "rb_size b' = rb_size b" using arg_cong [OF assms(1), of length] by simp
  have d: "getRcvDataSize b' = getRcvDataSize b" using l assms by (simp add: getRcvDataSize_def)
  show "rb_inv b' \<longleftrightarrow> rb_inv b" using l d assms by (simp add: rb_inv_def)
  show s: "slots b' = slots b" using assms by (simp add: slots_def)
  show "rb_acked b' = rb_acked b" "rb_pending b' = rb_pending b" using s d assms by (simp_all add: rb_acked_def rb_pending_def)
qed

lemma countBytes_fields [simp]:
  "rb_pUnit (countBytes p n a b) = rb_pUnit b" "rb_iStartPos (countBytes p n a b) = rb_iStartPos b"
  "rb_iLastAckPos (countBytes p n a b) = rb_iLastAckPos b" "rb_iMaxPos (countBytes p n a b) = rb_iMaxPos b"
  "rb_pool (countBytes p n a b) = rb_pool b" "rb_tsbpd (countBytes p n a b) = rb_tsbpd b"
  "rb_iNotch (countBytes p n a b) = rb_iNotch b"
  by (simp_all add: countBytes_def Let_def)

lemma unit_at_cong: "rb_pUnit b' = rb_pUnit b \<Longrightarrow> rb_pool b' = rb_pool b \<Longrightarrow> unit_at b' = unit_at b"
  by (rule ext) (simp add: unit_at_def)

lemma slot_held:
  assumes "rb_inv b" "k < rb_size b" "rb_pUnit b ! slot_pos b k = Some u"
  shows "k < getRcvDataSize b + rb_iMaxPos b" "u < length (uq_unit (rb_pool b))" "uq_busy (rb_pool b) u"
    "slots b ! k = Some (uq_unit (rb_pool b) ! u)"
  using rb_invD(6) [OF assms(1), of k u] assms by (simp_all add: ring_nth slots_nth unit_at_def)

subsection \<open>Changing one slot\<close>

lemma set_flag_nth: "i < length (uq_unit q) \<Longrightarrow> j < length (uq_unit q) \<Longrightarrow>
  uq_unit (set_flag_of i f q) ! j = (if j = i then (uq_unit q ! i)\<lparr>un_iFlag := f\<rparr> else uq_unit q ! j)"
  by (simp add: set_flag_of_def nth_list_update)

lemma set_flag_fields [simp]: "length (uq_unit (set_flag_of i f q)) = length (uq_unit q)"
  by (simp add: set_flag_of_def)

lemma make_units [simp]:
  "uq_unit (makeUnitFree i q) = uq_unit (set_flag_of i FREE q)" "uq_unit (makeUnitGood i q) = uq_unit (set_flag_of i GOOD q)"
  by (simp_all add: makeUnitFree_def makeUnitGood_def Let_def set_flag_of_def)

lemma free_slot:
  assumes i: "rb_inv b" and k: "k < rb_size b"
  shows "rb_inv (free_at (slot_pos b k) b) \<and> ring (free_at (slot_pos b k) b) = (ring b)[k := None] \<and>
    slots (free_at (slot_pos b k) b) = (slots b)[k := None]"
proof (cases "rb_pUnit b ! slot_pos b k")
  case None
  then have "(ring b)[k := None] = ring b" using k by (metis list_update_id ring_nth)
  moreover have "(slots b)[k := None] = slots b" using k None by (metis list_update_id option.map_disc_iff slots_nth unit_at_def)
  ultimately show ?thesis using None i by (simp add: free_at_def)
next
  case (Some u)
  let ?b = "free_at (slot_pos b k) b"
  note h = slot_held [OF i k Some]
  have e: "?b = b\<lparr>rb_pUnit := (rb_pUnit b)[slot_pos b k := None], rb_pool := makeUnitFree u (rb_pool b)\<rparr>"
    using Some by (simp add: free_at_def)
  have r: "ring ?b = (ring b)[k := None]" using ring_update [OF k, of None] by (simp add: e ring_def)
  have ku: "ring b ! k = Some u" using Some k by (simp add: ring_nth)
  have oth: "v \<noteq> u" if "ring b ! j = Some v" "j < rb_size b" "j \<noteq> k" for j v
    using rb_invD(7) [OF i, of j u k] that ku k by auto
  have d: "getRcvDataSize ?b = getRcvDataSize b" by (simp add: e getRcvDataSize_def)
  have "rb_inv ?b"
    unfolding rb_inv_def d r
    using i k h oth rb_invD(6,7) [OF i] makeUnitFree_inv [OF rb_invD(5) [OF i] h(2,3)]
    by (auto simp: rb_inv_def e nth_list_update uq_busy_def set_flag_nth split: if_splits)
  moreover have "slots ?b = (slots b)[k := None]"
  proof (rule nth_equalityI)
    fix j assume "j < length (slots ?b)"
    then have j: "j < rb_size b" by (simp add: e)
    have sn: "slots ?b ! j = map_option (\<lambda>v. uq_unit (set_flag_of u FREE (rb_pool b)) ! v) ((ring b)[k := None] ! j)"
      using j by (simp add: slots_def r [symmetric] e)
    show "slots ?b ! j = (slots b)[k := None] ! j"
    proof (cases "j = k \<or> ring b ! j = None")
      case True then show ?thesis using j k unfolding sn by (auto simp: slots_def nth_list_update)
    next
      case False
      then obtain v where v: "ring b ! j = Some v" by auto
      then show ?thesis using False j k oth [OF v j] rb_invD(6) [OF i v j] h
        unfolding sn by (simp add: slots_def nth_list_update set_flag_nth)
    qed
  qed (simp add: e)
  ultimately show ?thesis using r by simp
qed

lemma flag_slot:
  assumes i: "rb_inv b" and k: "k < rb_size b" and u: "rb_pUnit b ! slot_pos b k = Some u" and f: "f \<noteq> FREE"
  shows "rb_inv (b\<lparr>rb_pool := set_flag_of u f (rb_pool b)\<rparr>) \<and>
    slots (b\<lparr>rb_pool := set_flag_of u f (rb_pool b)\<rparr>) = (slots b)[k := Some ((uq_unit (rb_pool b) ! u)\<lparr>un_iFlag := f\<rparr>)]"
proof -
  let ?b = "b\<lparr>rb_pool := set_flag_of u f (rb_pool b)\<rparr>"
  note h = slot_held [OF i k u]
  have r: "ring ?b = ring b" "getRcvDataSize ?b = getRcvDataSize b" by (simp_all add: ring_def getRcvDataSize_def)
  have ku: "ring b ! k = Some u" using u k by (simp add: ring_nth)
  have oth: "v \<noteq> u" if "ring b ! j = Some v" "j < rb_size b" "j \<noteq> k" for j v
    using rb_invD(7) [OF i, of j u k] that ku k by auto
  have "rb_inv ?b"
    unfolding rb_inv_def r
    using i f rb_invD(6,7) [OF i] h set_flag_busy_inv [OF rb_invD(5) [OF i] h(2,3) f]
    by (auto simp: rb_inv_def uq_busy_def set_flag_nth split: if_splits)
  moreover have "slots ?b = (slots b)[k := Some ((uq_unit (rb_pool b) ! u)\<lparr>un_iFlag := f\<rparr>)]"
  proof (rule nth_equalityI)
    fix j assume "j < length (slots ?b)"
    then have j: "j < rb_size b" by simp
    have sn: "slots ?b ! j = map_option (\<lambda>v. uq_unit (set_flag_of u f (rb_pool b)) ! v) (ring b ! j)"
      using j by (simp add: slots_def r [symmetric])
    show "slots ?b ! j = (slots b)[k := Some ((uq_unit (rb_pool b) ! u)\<lparr>un_iFlag := f\<rparr>)] ! j"
    proof (cases "j = k")
      case True then show ?thesis using sn k h(2) ku by (simp add: set_flag_nth)
    next
      case False
      show ?thesis
      proof (cases "ring b ! j")
        case None then show ?thesis using False j unfolding sn None by (simp add: slots_def None)
      next
        case (Some v)
        then show ?thesis using False j oth [OF Some j False] rb_invD(6) [OF i Some j] h(2)
          unfolding sn Some by (simp add: slots_def Some set_flag_nth)
      qed
    qed
  qed simp
  ultimately show ?thesis by simp
qed

subsection \<open>Moving the start\<close>

text \<open>An empty first slot, acknowledged, is passed.\<close>

lemma pass_slot:
  assumes i: "rb_inv b" and d: "0 < getRcvDataSize b" and n: "slots b ! 0 = None"
  shows "rb_inv (b\<lparr>rb_iStartPos := next_pos (rb_size b) (rb_iStartPos b)\<rparr>) \<and>
    getRcvDataSize (b\<lparr>rb_iStartPos := next_pos (rb_size b) (rb_iStartPos b)\<rparr>) = getRcvDataSize b - 1 \<and>
    slots (b\<lparr>rb_iStartPos := next_pos (rb_size b) (rb_iStartPos b)\<rparr>) = tl (slots b) @ [None]"
proof -
  let ?b = "b\<lparr>rb_iStartPos := next_pos (rb_size b) (rb_iStartPos b)\<rparr>"
  note D = rb_invD [OF i]
  have n0: "ring b ! 0 = None" using n D(1) by (simp add: slots_def)
  have ne: "ring b \<noteq> []" using D(1) by (metis length_greater_0_conv length_ring)
  have "ring ?b = rotate1 (ring b)" using rotate_next [OF D(2)] by (simp add: ring_def)
  also have "\<dots> = tl (ring b) @ [None]" using ne n0 by (cases "ring b") simp_all
  finally have r: "ring ?b = tl (ring b) @ [None]" .
  have st: "slots ?b = tl (slots b) @ [None]" using r by (simp add: slots_def map_tl)
  have ds: "getRcvDataSize ?b = getRcvDataSize b - 1"
    using d D(2,3) by (auto simp: getRcvDataSize_def next_pos_def split: if_splits)
  have rn: "ring ?b ! k = (if k = rb_size b - 1 then None else ring b ! Suc k)" if "k < rb_size b" for k
    using that D(1) by (auto simp: r nth_append nth_tl)
  have "rb_inv ?b"
    unfolding rb_inv_def
  proof (intro conjI allI impI)
    show "rb_iStartPos ?b < rb_size ?b" using D(2) by (auto simp: next_pos_def)
    show "getRcvDataSize ?b + rb_iMaxPos ?b < rb_size ?b" using ds D(4) by simp
    fix k u assume k: "k < rb_size ?b" and u: "ring ?b ! k = Some u"
    then have s: "Suc k < rb_size b" "ring b ! Suc k = Some u" using rn [of k] by (auto split: if_splits)
    from D(6) [OF s(2,1)] show "k < getRcvDataSize ?b + rb_iMaxPos ?b" "u < length (uq_unit (rb_pool ?b))" "uq_busy (rb_pool ?b) u"
      using ds d by auto
  next
    fix k j u assume "k < rb_size ?b" "j < rb_size ?b" "ring ?b ! k = Some u \<and> ring ?b ! j = Some u"
    then have "Suc k < rb_size b" "ring b ! Suc k = Some u" "Suc j < rb_size b" "ring b ! Suc j = Some u"
      using rn [of k] rn [of j] by (auto split: if_splits)
    then show "k = j" using D(7) by blast
  qed (use D in simp_all)
  with ds st show ?thesis by simp
qed

lemma slot_pos_0 [simp]: "rb_inv b \<Longrightarrow> slot_pos b 0 = rb_iStartPos b"
  using rb_invD(2) by (simp add: slot_pos_def)

text \<open>The first slot is cleared and passed, whatever it held.\<close>

definition drop_first :: "CRcvBuffer \<Rightarrow> CRcvBuffer" where
  "drop_first b = (free_at (rb_iStartPos b) b)\<lparr>rb_iStartPos := next_pos (rb_size b) (rb_iStartPos b)\<rparr>"

lemma free_at_fields [simp]:
  "rb_size (free_at p b) = rb_size b" "rb_iStartPos (free_at p b) = rb_iStartPos b" "rb_iLastAckPos (free_at p b) = rb_iLastAckPos b"
  "rb_iMaxPos (free_at p b) = rb_iMaxPos b" "rb_tsbpd (free_at p b) = rb_tsbpd b" "rb_iNotch (free_at p b) = rb_iNotch b"
  by (simp_all add: free_at_def split: option.split)

lemma drop_first_slots:
  assumes i: "rb_inv b" and d: "0 < getRcvDataSize b"
  shows "rb_inv (drop_first b) \<and> getRcvDataSize (drop_first b) = getRcvDataSize b - 1 \<and>
    slots (drop_first b) = tl (slots b) @ [None] \<and> rb_iMaxPos (drop_first b) = rb_iMaxPos b"
proof -
  let ?f = "free_at (rb_iStartPos b) b"
  note D = rb_invD [OF i]
  from free_slot [OF i D(1)] i have f: "rb_inv ?f" "slots ?f = (slots b)[0 := None]" by simp_all
  have ds: "getRcvDataSize ?f = getRcvDataSize b" by (simp add: getRcvDataSize_def)
  have ne: "slots b \<noteq> []" using D(1) by (metis length_greater_0_conv length_slots)
  then have "slots ?f ! 0 = None" "tl (slots ?f) = tl (slots b)" using f(2) by (cases "slots b"; simp)+
  with pass_slot [OF f(1)] ds d show ?thesis by (simp add: drop_first_def)
qed

lemma drop_first_none:
  "slots b ! 0 = None \<Longrightarrow> rb_inv b \<Longrightarrow> b\<lparr>rb_iStartPos := next_pos (rb_size b) (rb_iStartPos b)\<rparr> = drop_first b"
  using rb_invD(1) [of b] slots_nth [of 0 b] by (simp add: drop_first_def free_at_def unit_at_def)

lemma acked_drop_first:
  assumes i: "rb_inv b" and d: "0 < getRcvDataSize b"
  shows "rb_acked b = slots b ! 0 # rb_acked (drop_first b)" "rb_pending (drop_first b) = rb_pending b"
proof -
  note D = rb_invD [OF i] and f = drop_first_slots [OF i d]
  obtain x xs where s: "slots b = x # xs" using D(1) by (metis length_greater_0_conv length_slots neq_Nil_conv)
  obtain n where n: "getRcvDataSize b = Suc n" using d by (cases "getRcvDataSize b") auto
  have l: "length xs = rb_size b - 1" using arg_cong [OF s, of length] by simp
  show "rb_acked b = slots b ! 0 # rb_acked (drop_first b)" using f s n l D(4) by (simp add: rb_acked_def)
  show "rb_pending (drop_first b) = rb_pending b" using f s n l D(4) by (simp add: rb_pending_def)
qed

subsection \<open>The protocol's operations on the two lists\<close>

lemma put_slot:
  assumes i: "rb_inv b" and k: "k < getRcvDataSize b + rb_iMaxPos b" and n: "rb_pUnit b ! slot_pos b k = None"
    and u: "u < length (uq_unit (rb_pool b))" "\<not> uq_busy (rb_pool b) u"
  defines "b' \<equiv> b\<lparr>rb_pUnit := (rb_pUnit b)[slot_pos b k := Some u], rb_pool := makeUnitGood u (rb_pool b)\<rparr>"
  shows "rb_inv b'" "slots b' = (slots b)[k := Some ((uq_unit (rb_pool b) ! u)\<lparr>un_iFlag := GOOD\<rparr>)]"
proof -
  note D = rb_invD [OF i]
  have kl: "k < rb_size b" using k D(4) by linarith
  have r: "ring b' = (ring b)[k := Some u]" using ring_update [OF kl, of "Some u"] by (simp add: b'_def ring_def)
  have d: "getRcvDataSize b' = getRcvDataSize b" by (simp add: b'_def getRcvDataSize_def)
  have oth: "v \<noteq> u" if "ring b ! j = Some v" "j < rb_size b" for j v using D(6) [OF that] u by auto
  show "rb_inv b'"
    unfolding rb_inv_def d r
    using i k kl u oth D(6,7) makeUnitGood_inv [OF D(5) u]
    by (auto simp: rb_inv_def b'_def nth_list_update uq_busy_def set_flag_nth split: if_splits)
  show "slots b' = (slots b)[k := Some ((uq_unit (rb_pool b) ! u)\<lparr>un_iFlag := GOOD\<rparr>)]"
  proof (rule nth_equalityI)
    fix j assume "j < length (slots b')"
    then have j: "j < rb_size b" by (simp add: b'_def)
    have sn: "slots b' ! j = map_option (\<lambda>v. uq_unit (set_flag_of u GOOD (rb_pool b)) ! v) ((ring b)[k := Some u] ! j)"
      using j by (simp add: slots_def r [symmetric] b'_def)
    show "slots b' ! j = (slots b)[k := Some ((uq_unit (rb_pool b) ! u)\<lparr>un_iFlag := GOOD\<rparr>)] ! j"
    proof (cases "j = k")
      case True then show ?thesis using sn kl u(1) by (simp add: set_flag_nth)
    next
      case False
      show ?thesis
      proof (cases "ring b ! j")
        case None then show ?thesis using False j unfolding sn by (simp add: slots_def)
      next
        case (Some v)
        then show ?thesis using False j oth [OF Some j] D(6) [OF Some j] u(1) unfolding sn by (simp add: slots_def set_flag_nth)
      qed
    qed
  qed (simp add: b'_def)
qed

lemma grow_slots:
  assumes i: "rb_inv b" and m: "rb_iMaxPos b \<le> m" "getRcvDataSize b + m < rb_size b"
  shows "rb_inv (b\<lparr>rb_iMaxPos := m\<rparr>)" "slots (b\<lparr>rb_iMaxPos := m\<rparr>) = slots b" "rb_acked (b\<lparr>rb_iMaxPos := m\<rparr>) = rb_acked b"
    "rb_pending (b\<lparr>rb_iMaxPos := m\<rparr>) = rb_pending b @ replicate (m - rb_iMaxPos b) None"
proof -
  let ?b = "b\<lparr>rb_iMaxPos := m\<rparr>"
  note D = rb_invD [OF i]
  have r: "ring ?b = ring b" "getRcvDataSize ?b = getRcvDataSize b" by (simp_all add: ring_def getRcvDataSize_def)
  show "rb_inv ?b" unfolding rb_inv_def r using i m D(6) by (fastforce simp: rb_inv_def)
  show s: "slots ?b = slots b" using r by (simp add: slots_def)
  show "rb_acked ?b = rb_acked b" using r s by (simp add: rb_acked_def)
  have n: "slots b ! k = None" if "k < rb_size b" "getRcvDataSize b + rb_iMaxPos b \<le> k" for k
    using D(6) [of k] that by (cases "ring b ! k") (auto simp: slots_def)
  show "rb_pending ?b = rb_pending b @ replicate (m - rb_iMaxPos b) None"
  proof (rule nth_equalityI)
    fix k assume "k < length (rb_pending ?b)"
    then have "k < m" by (simp add: rb_pending_def)
    then show "rb_pending ?b ! k = (rb_pending b @ replicate (m - rb_iMaxPos b) None) ! k"
      using m n [of "getRcvDataSize b + k"] i by (auto simp: rb_pending_def s r nth_append min_def)
  qed (use m in \<open>auto simp: rb_pending_def s r min_def\<close>)
qed

lemma addData_slot:
  assumes i: "rb_inv b" and u: "u < length (uq_unit (rb_pool b))" "\<not> uq_busy (rb_pool b) u"
    and a: "addData u offset b = (r, b')"
  shows "rb_inv b' \<and> rb_acked b' = rb_acked b \<and>
    (if rb_size b \<le> length (rb_acked b) + 1 + offset then r = - 1 \<and> b' = b
     else
       (let pend = rb_pending b @ replicate (offset + 1 - length (rb_pending b)) None
        in if pend ! offset \<noteq> None then r = - 1 \<and> rb_pending b' = pend
           else r = 0 \<and> rb_pending b' = pend[offset := Some ((uq_unit (rb_pool b) ! u)\<lparr>un_iFlag := GOOD\<rparr>)]))"
proof (cases "rb_size b \<le> length (rb_acked b) + 1 + offset")
  case True
  then have "int offset \<ge> getAvailBufSize b" using i by (simp add: getAvailBufSize_def)
  then show ?thesis using a i True by (auto simp: addData_def)
next
  case False
  let ?d = "getRcvDataSize b" and ?m = "max (rb_iMaxPos b) (offset + 1)"
  define b1 where "b1 = b\<lparr>rb_iMaxPos := ?m\<rparr>"
  note D = rb_invD [OF i]
  have o: "\<not> int offset \<ge> getAvailBufSize b" using False i by (auto simp: getAvailBufSize_def)
  have m: "rb_iMaxPos b \<le> ?m" "?d + ?m < rb_size b" using False i D(4) by auto
  note g = grow_slots [OF i m, folded b1_def]
  have mx: "(if offset \<ge> rb_iMaxPos b then b\<lparr>rb_iMaxPos := offset + 1\<rparr> else b) = b1" by (auto simp: b1_def max_def)
  have f: "rb_pUnit b1 = rb_pUnit b" "rb_pool b1 = rb_pool b" "getRcvDataSize b1 = ?d" "rb_iMaxPos b1 = ?m" "rb_iLastAckPos b1 = rb_iLastAckPos b"
    "rb_iStartPos b1 = rb_iStartPos b" by (simp_all add: b1_def getRcvDataSize_def)
  have pos: "(rb_iLastAckPos b + offset) mod rb_size b = slot_pos b1 (?d + offset)"
    using lastack_off [OF g(1), of offset] f by simp
  let ?pend = "rb_pending b @ replicate (offset + 1 - length (rb_pending b)) None"
  have pend: "rb_pending b1 = ?pend" using g(4) i by (simp add: max_def)
  have k: "?d + offset < ?d + ?m" "?d + offset < rb_size b" using m by auto
  have at: "?pend ! offset = unit_at b1 (slot_pos b1 (?d + offset))"
    using slots_nth [of "?d + offset" b1] k m f unfolding pend [symmetric] by (simp add: rb_pending_def)
  show ?thesis
  proof (cases "rb_pUnit b ! slot_pos b1 (?d + offset)")
    case (Some v)
    then have "b' = b1" "r = - 1" using a o mx f pos by (auto simp: addData_def Let_def)
    moreover have "?pend ! offset \<noteq> None" using at Some f by (simp add: unit_at_def)
    ultimately show ?thesis using False g pend by (simp add: Let_def)
  next
    case None
    let ?b = "b1\<lparr>rb_pUnit := (rb_pUnit b1)[slot_pos b1 (?d + offset) := Some u], rb_pool := makeUnitGood u (rb_pool b1)\<rparr>"
    let ?U = "(uq_unit (rb_pool b) ! u)\<lparr>un_iFlag := GOOD\<rparr>"
    have p: "rb_inv ?b" "slots ?b = (slots b1)[?d + offset := Some ?U]"
      using put_slot [OF g(1), of "?d + offset" u] k None u f by simp_all
    have "r = 0" and c: "ring b' = ring ?b" "rb_iStartPos b' = rb_iStartPos ?b" "rb_iLastAckPos b' = rb_iLastAckPos ?b"
      "rb_iMaxPos b' = rb_iMaxPos ?b" "rb_pool b' = rb_pool ?b"
      using a o mx f pos None by (auto simp: addData_def Let_def ring_def)
    have d': "getRcvDataSize ?b = ?d" "rb_iMaxPos ?b = ?m" using f by (simp_all add: getRcvDataSize_def)
    have "rb_acked ?b = rb_acked b" using p(2) g(2,3) f d' by (simp add: rb_acked_def)
    moreover have "rb_pending ?b = ?pend[offset := Some ?U]"
      using pend [symmetric] p(2) f d' k by (simp add: rb_pending_def drop_update_swap take_update_swap)
    moreover have "?pend ! offset = None" using at None f by (simp add: unit_at_def)
    ultimately show ?thesis using rb_inv_cong [OF c] p(1) \<open>r = 0\<close> False by (simp add: Let_def)
  qed
qed

text \<open>
  C16. A received packet is put into its place behind the acknowledged ones: it is refused when the place
  is beyond the buffer or taken, otherwise exactly this one slot changes; the buffer stays well formed.
\<close>
theorem addData_refines:
  assumes i: "rb_inv b" and u: "u < length (uq_unit (rb_pool b))" "\<not> uq_busy (rb_pool b) u"
    and a: "addData u offset b = (r, b')"
  shows "rb_inv b' \<and> rb_acked b' = rb_acked b \<and>
    (if rb_size b \<le> length (rb_acked b) + 1 + offset then r = - 1 \<and> b' = b
     else
       (let pend = rb_pending b @ replicate (offset + 1 - length (rb_pending b)) None
        in if pend ! offset \<noteq> None then r = - 1 \<and> rb_pending b' = pend
           else r = 0 \<and> rb_pending b' = pend[offset := Some ((uq_unit (rb_pool b) ! u)\<lparr>un_iFlag := GOOD\<rparr>)]))"
  by (rule addData_slot [OF i u a])

lemma advance_ack_slots:
  assumes i: "rb_inv b" and l: "len \<le> rb_iMaxPos b"
  shows "rb_inv (advance_ack len b) \<and> slots (advance_ack len b) = slots b \<and>
    getRcvDataSize (advance_ack len b) = getRcvDataSize b + len \<and>
    rb_acked (advance_ack len b) = rb_acked b @ take len (rb_pending b) \<and>
    rb_pending (advance_ack len b) = drop len (rb_pending b)"
proof -
  let ?b = "advance_ack len b"
  note D = rb_invD [OF i]
  have dl: "getRcvDataSize b + len < rb_size b" using l D(4) by linarith
  have la: "rb_iLastAckPos ?b = slot_pos b (getRcvDataSize b + len)"
    using lastack_off [OF i, of len] by (simp add: advance_ack_def)
  have d: "getRcvDataSize ?b = getRcvDataSize b + len"
    using la dist_off [OF D(2) dl] by (simp add: dataSize_dist slot_pos_def advance_ack_def)
  have r: "ring ?b = ring b" by (simp add: ring_def advance_ack_def)
  then have s: "slots ?b = slots b" by (simp add: slots_def advance_ack_def)
  have m: "rb_iMaxPos ?b = rb_iMaxPos b - len" by (simp add: advance_ack_def)
  have "rb_inv ?b"
    unfolding rb_inv_def r d m using D l by (auto simp: advance_ack_def)
  moreover have "rb_acked ?b = rb_acked b @ take len (rb_pending b)"
    using l by (simp add: rb_acked_def rb_pending_def s d take_add)
  moreover have "rb_pending ?b = drop len (rb_pending b)"
    by (simp add: rb_pending_def s d m drop_take add.commute)
  ultimately show ?thesis using s d by simp
qed

lemma ackData_slots:
  assumes i: "rb_inv b" and l: "len \<le> length (rb_pending b)"
  shows "rb_inv (rb_ackData len b) \<and> rb_acked (rb_ackData len b) = rb_acked b @ take len (rb_pending b) \<and>
    rb_pending (rb_ackData len b) = drop len (rb_pending b) \<and>
    rb_iAckedPktsCount (rb_ackData len b) = rb_iAckedPktsCount b + int (length (List.map_filter id (take len (rb_pending b))))"
proof -
  note D = rb_invD [OF i]
  have lm: "len \<le> rb_iMaxPos b" using i l by simp
  let ?units = "List.map_filter (unit_at b) (cyc (rb_size b) (rb_iLastAckPos b) ((rb_iLastAckPos b + len) mod rb_size b))"
  have "cyc (rb_size b) (rb_iLastAckPos b) ((rb_iLastAckPos b + len) mod rb_size b)
      = map (slot_pos b) [getRcvDataSize b ..< getRcvDataSize b + len]"
    using lm D(4) by (intro cyc_pending [OF i]) linarith
  moreover have "map (unit_at b) (map (slot_pos b) [getRcvDataSize b ..< getRcvDataSize b + len]) = take len (rb_pending b)"
    by (rule nth_equalityI) (use lm D(4) in \<open>auto simp: rb_pending_def slots_nth\<close>)
  moreover have "List.map_filter f xs = List.map_filter id (map f xs)" for f :: "nat \<Rightarrow> CUnit option" and xs
    by (induction xs) (auto simp: map_filter_simps split: option.split)
  ultimately have un: "?units = List.map_filter id (take len (rb_pending b))" by metis
  define bytes where "bytes = sum_list (map (\<lambda>u. int (getLength (un_Packet u))) ?units)"
  define b1 where "b1 = (if length ?units > 0 then countBytes (int (length ?units)) bytes True b else b)"
  have e: "rb_ackData len b = advance_ack len b1" by (simp add: rb_ackData_def Let_def b1_def bytes_def)
  have c: "ring b1 = ring b" "rb_iStartPos b1 = rb_iStartPos b" "rb_iLastAckPos b1 = rb_iLastAckPos b" "rb_iMaxPos b1 = rb_iMaxPos b"
    "rb_pool b1 = rb_pool b" by (simp_all add: b1_def ring_def)
  note cg = rb_inv_cong [OF c]
  have "bytes \<ge> 0" unfolding bytes_def by (rule sum_list_nonneg) auto
  then have "rb_iAckedPktsCount b1 = rb_iAckedPktsCount b + int (length ?units)" by (simp add: b1_def countBytes_def)
  then show ?thesis
    using advance_ack_slots [of b1 len] cg i lm c(4) un unfolding e by (simp add: advance_ack_def)
qed

text \<open>
  C17. An acknowledgement moves exactly the first \<open>len\<close> waiting slots behind the ones that are ready for the
  reader and counts the units among them.
\<close>
theorem ackData_refines:
  assumes i: "rb_inv b" and l: "len \<le> length (rb_pending b)"
  shows "rb_inv (rb_ackData len b) \<and> rb_acked (rb_ackData len b) = rb_acked b @ take len (rb_pending b) \<and>
    rb_pending (rb_ackData len b) = drop len (rb_pending b) \<and>
    rb_iAckedPktsCount (rb_ackData len b) = rb_iAckedPktsCount b + int (length (List.map_filter id (take len (rb_pending b))))"
  by (rule ackData_slots [OF i l])

text \<open>Several empty acknowledged slots are passed at once.\<close>

lemma pass_slots:
  assumes "rb_inv b" "n \<le> getRcvDataSize b" "\<And>k. k < n \<Longrightarrow> slots b ! k = None"
  shows "rb_inv (b\<lparr>rb_iStartPos := (rb_iStartPos b + n) mod rb_size b\<rparr>) \<and>
    getRcvDataSize (b\<lparr>rb_iStartPos := (rb_iStartPos b + n) mod rb_size b\<rparr>) = getRcvDataSize b - n \<and>
    slots (b\<lparr>rb_iStartPos := (rb_iStartPos b + n) mod rb_size b\<rparr>) = drop n (slots b) @ replicate n None"
  using assms
proof (induction n)
  case 0
  then show ?case using rb_invD(2) by simp
next
  case (Suc n)
  let ?b = "b\<lparr>rb_iStartPos := (rb_iStartPos b + n) mod rb_size b\<rparr>"
  have h: "rb_inv ?b" "getRcvDataSize ?b = getRcvDataSize b - n" "slots ?b = drop n (slots b) @ replicate n None"
    using Suc by simp_all
  have n: "n < rb_size b" using Suc.prems(1,2) rb_invD(4) by fastforce
  then have "slots ?b ! 0 = None" using h(3) Suc.prems(3) [of n] by (simp add: nth_append)
  from pass_slot [OF h(1) _ this] h(2) Suc.prems(2)
  have p: "rb_inv (?b\<lparr>rb_iStartPos := next_pos (rb_size ?b) (rb_iStartPos ?b)\<rparr>) \<and>
    getRcvDataSize (?b\<lparr>rb_iStartPos := next_pos (rb_size ?b) (rb_iStartPos ?b)\<rparr>) = getRcvDataSize b - n - 1 \<and>
    slots (?b\<lparr>rb_iStartPos := next_pos (rb_size ?b) (rb_iStartPos ?b)\<rparr>) = tl (slots ?b) @ [None]" by simp
  have "next_pos (rb_size b) ((rb_iStartPos b + n) mod rb_size b) = (rb_iStartPos b + Suc n) mod rb_size b"
    using next_pos_mod [OF mod_less_divisor [OF rb_invD(1) [OF Suc.prems(1)]], of "rb_iStartPos b + n"] by (simp add: mod_simps)
  moreover have "tl (drop n (slots b) @ replicate n None) @ [None] = drop (Suc n) (slots b) @ replicate (Suc n) None"
    using n by (simp add: drop_Suc tl_drop tl_append2 replicate_append_same)
  ultimately show ?case using p h(3) by simp
qed

text \<open>
  Skipping lost packets moves the boundary like an acknowledgement; when nothing was waiting for the
  reader, the skipped slots are gone from the buffer, provided that they are empty.
\<close>
theorem skipData_refines:
  assumes i: "rb_inv b" and l: "len \<le> length (rb_pending b)"
    and e: "rb_acked b = [] \<Longrightarrow> \<forall>k < len. rb_pending b ! k = None"
  shows "rb_inv (skipData len b) \<and> rb_pending (skipData len b) = drop len (rb_pending b) \<and>
    rb_acked (skipData len b) = (if rb_acked b = [] then [] else rb_acked b @ take len (rb_pending b))"
proof -
  note D = rb_invD [OF i]
  have lm: "len \<le> rb_iMaxPos b" using i l by simp
  note a = advance_ack_slots [OF i lm]
  have em: "rb_acked b = [] \<longleftrightarrow> rb_iStartPos b = rb_iLastAckPos b"
    using length_acked [OF i] D(2,3) by (auto simp: getRcvDataSize_def split: if_splits)
  show ?thesis
  proof (cases "rb_acked b = []")
    case False
    then show ?thesis using a em by (simp add: skipData_def)
  next
    case True
    let ?a = "advance_ack len b"
    have d0: "getRcvDataSize b = 0" using True length_acked [OF i] by simp
    have none: "slots ?a ! k = None" if "k < len" for k
      using that e True a lm d0 D(4) by (simp add: rb_pending_def)
    have s: "skipData len b = ?a\<lparr>rb_iStartPos := (rb_iStartPos ?a + len) mod rb_size ?a\<rparr>"
      using True em by (simp add: skipData_def advance_ack_def)
    have p: "rb_inv (skipData len b)" "getRcvDataSize (skipData len b) = 0" "slots (skipData len b) = drop len (slots b) @ replicate len None"
      using pass_slots [of ?a len] a none d0 unfolding s by auto
    moreover have "rb_iMaxPos (skipData len b) = rb_iMaxPos b - len" by (simp add: s advance_ack_def)
    moreover have "take (rb_iMaxPos b - len) (drop len (slots b) @ replicate len None) = drop len (take (rb_iMaxPos b) (slots b))"
      using D(4) by (simp add: drop_take)
    ultimately show ?thesis using True d0 by (simp add: rb_acked_def rb_pending_def)
  qed
qed

definition drop_unit_of :: "32 word \<Rightarrow> bool \<Rightarrow> CUnit \<Rightarrow> CUnit" where
  "drop_unit_of msgno rexmit u = (if getMsgSeq (un_Packet u) rexmit = msgno then u\<lparr>un_iFlag := DROPPED\<rparr> else u)"

text \<open>
  Dropping a message marks exactly the units that carry its number, acknowledged or not, as dropped.
\<close>
theorem dropMsg_refines:
  assumes i: "rb_inv b"
  shows "rb_inv (dropMsg msgno rexmit b) \<and>
    rb_acked (dropMsg msgno rexmit b) = map (map_option (drop_unit_of msgno rexmit)) (rb_acked b) \<and>
    rb_pending (dropMsg msgno rexmit b) = map (map_option (drop_unit_of msgno rexmit)) (rb_pending b)"
proof -
  note D = rb_invD [OF i]
  let ?n = "getRcvDataSize b + rb_iMaxPos b" and ?D = "map_option (drop_unit_of msgno rexmit)"
  define step where "step = (\<lambda>i (b :: CRcvBuffer). case rb_pUnit b ! i of None \<Rightarrow> b
      | Some u \<Rightarrow> if getMsgSeq (un_Packet (uq_unit (rb_pool b) ! u)) rexmit = msgno
               then b\<lparr>rb_pool := set_flag_of u DROPPED (rb_pool b)\<rparr> else b)"
  have "cyc (rb_size b) (rb_iStartPos b) ((rb_iLastAckPos b + rb_iMaxPos b) mod rb_size b) = map (slot_pos b) [0 ..< ?n]"
    using cyc_start [OF D(2,4)] lastack_off [OF i] by simp
  then have f: "dropMsg msgno rexmit b = fold step (map (slot_pos b) [0 ..< ?n]) b" by (simp add: dropMsg_def step_def)
  have "rb_inv (fold step (map (slot_pos b) [0 ..< m]) b) \<and>
      (\<exists>q. fold step (map (slot_pos b) [0 ..< m]) b = b\<lparr>rb_pool := q\<rparr>) \<and>
      slots (fold step (map (slot_pos b) [0 ..< m]) b) = map ?D (take m (slots b)) @ drop m (slots b)" if "m \<le> ?n" for m
    using that
  proof (induction m)
    case 0
    then show ?case using i by (auto intro: exI [of _ "rb_pool b"])
  next
    case (Suc m)
    define c where "c = fold step (map (slot_pos b) [0 ..< m]) b"
    obtain q where q: "c = b\<lparr>rb_pool := q\<rparr>" and ic: "rb_inv c" and sc: "slots c = map ?D (take m (slots b)) @ drop m (slots b)"
      using Suc unfolding c_def by auto
    have m: "m < rb_size b" using Suc.prems D(4) by linarith
    have fs: "fold step (map (slot_pos b) [0 ..< Suc m]) b = step (slot_pos c m) c" using q slot_pos_def [of c m] slot_pos_def [of b m] by (simp add: c_def [symmetric])
    have at: "slots c ! m = slots b ! m" using sc m by (simp add: nth_append)
    have ts: "map ?D (take (Suc m) (slots b)) @ drop (Suc m) (slots b) = (slots c)[m := ?D (slots b ! m)]"
      using m unfolding sc by (simp add: take_Suc_conv_app_nth list_update_append Cons_nth_drop_Suc [symmetric])
    show ?case
    proof (cases "rb_pUnit c ! slot_pos c m")
      case None
      then have "slots c ! m = None" using m q by (simp add: slots_nth unit_at_def)
      then have "(slots c)[m := ?D (slots b ! m)] = slots c" using at by (metis list_update_id option.map_disc_iff)
      then show ?thesis unfolding fs ts using None ic q by (auto simp: step_def)
    next
      case (Some u)
      let ?U = "uq_unit (rb_pool c) ! u"
      have cu: "slots c ! m = Some ?U" using Some m q by (simp add: slots_nth unit_at_def)
      then have bm: "slots b ! m = Some ?U" using at by simp
      show ?thesis
      proof (cases "getMsgSeq (un_Packet ?U) rexmit = msgno")
        case True
        have mc: "m < rb_size c" using m q by simp
        from flag_slot [OF ic mc Some, of DROPPED] have
          "rb_inv (c\<lparr>rb_pool := set_flag_of u DROPPED (rb_pool c)\<rparr>)"
          "slots (c\<lparr>rb_pool := set_flag_of u DROPPED (rb_pool c)\<rparr>) = (slots c)[m := Some (?U\<lparr>un_iFlag := DROPPED\<rparr>)]" by simp_all
        moreover have "?D (slots b ! m) = Some (?U\<lparr>un_iFlag := DROPPED\<rparr>)" using True unfolding bm by (simp add: drop_unit_of_def)
        ultimately show ?thesis unfolding fs ts using Some True q by (auto simp: step_def)
      next
        case False
        then have "(slots c)[m := ?D (slots b ! m)] = slots c" using at cu by (metis drop_unit_of_def list_update_id option.simps(9))
        then show ?thesis unfolding fs ts using Some False ic q by (auto simp: step_def)
      qed
    qed
  qed
  from this [of ?n] obtain q where q: "dropMsg msgno rexmit b = b\<lparr>rb_pool := q\<rparr>" and ii: "rb_inv (dropMsg msgno rexmit b)"
    and ss: "slots (dropMsg msgno rexmit b) = map ?D (take ?n (slots b)) @ drop ?n (slots b)"
    unfolding f by auto
  have "getRcvDataSize (dropMsg msgno rexmit b) = getRcvDataSize b" "rb_iMaxPos (dropMsg msgno rexmit b) = rb_iMaxPos b"
    using q by (simp_all add: getRcvDataSize_def)
  then show ?thesis using ii ss D(4)
    by (auto simp: rb_acked_def rb_pending_def take_map drop_map drop_take min_def)
qed

theorem addData_refines_witness:
  "rb_inv (snd (addData 0 1 (rb_new 4 (uq_init 3 1500)))) \<and> rb_acked (snd (addData 0 1 (rb_new 4 (uq_init 3 1500)))) = []"
proof -
  let ?b = "rb_new 4 (uq_init 3 1500)"
  have i: "rb_inv ?b" by (rule rb_new_inv) (simp_all add: uq_init_inv)
  have "rb_acked ?b = []" by (simp add: rb_acked_def getRcvDataSize_def rb_new_def)
  then show ?thesis
    using addData_refines [OF i, of 0 1 "fst (addData 0 1 ?b)" "snd (addData 0 1 ?b)"]
    by (simp add: rb_new_def uq_init_def uq_busy_def unit_new_def)
qed

theorem ackData_refines_witness:
  "rb_acked (rb_ackData 0 (rb_new 4 (uq_init 3 1500))) = [] \<and>
   rb_inv (rb_ackData 1 ((rb_new 4 (uq_init 3 1500))\<lparr>rb_iMaxPos := 2\<rparr>)) \<and>
   rb_acked (rb_ackData 1 ((rb_new 4 (uq_init 3 1500))\<lparr>rb_iMaxPos := 2\<rparr>)) = [None]"
proof -
  let ?b = "rb_new 4 (uq_init 3 1500)"
  have i: "rb_inv ?b" by (rule rb_new_inv) (simp_all add: uq_init_inv)
  have e: "rb_acked ?b = []" "rb_pending ?b = []" "rb_iMaxPos ?b = 0" "getRcvDataSize ?b = 0" "rb_size ?b = 4"
    by (simp_all add: rb_acked_def rb_pending_def getRcvDataSize_def rb_new_def)
  have g: "rb_inv (?b\<lparr>rb_iMaxPos := 2\<rparr>)" "rb_acked (?b\<lparr>rb_iMaxPos := 2\<rparr>) = []" "rb_pending (?b\<lparr>rb_iMaxPos := 2\<rparr>) = [None, None]"
    using grow_slots [OF i, of 2] e by (simp_all add: numeral_2_eq_2)
  show ?thesis using ackData_refines [OF i, of 0] ackData_refines [OF g(1), of 1] e g by simp
qed

end
