(* ===== verification/RcvRead.thy ===== *)
theory RcvRead
  imports RcvBufferInv
begin

text \<open>
  What the application reads from the receiver buffer: packets in time (TSBPD mode), whole messages, and the
  byte stream.
\<close>

subsection \<open>Dropping slots from the front\<close>

lemma slot_pos_drop_first: "rb_inv b \<Longrightarrow> slot_pos (drop_first b) k = slot_pos b (Suc k)"
  using next_pos_mod [OF rb_invD(2), of b] by (simp add: drop_first_def slot_pos_def mod_simps)

lemma acked_positions:
  assumes "rb_inv b" "0 < getRcvDataSize b"
  shows "map (slot_pos b) [0 ..< getRcvDataSize b] =
    rb_iStartPos b # map (slot_pos (drop_first b)) [0 ..< getRcvDataSize (drop_first b)]"
proof -
  obtain n where n: "getRcvDataSize b = Suc n" using assms(2) by (cases "getRcvDataSize b") auto
  have "[0 ..< Suc n] = 0 # map Suc [0 ..< n]" by (metis map_Suc_upt upt_conv_Cons zero_less_Suc)
  moreover have "slot_pos (drop_first b) = slot_pos b \<circ> Suc" using slot_pos_drop_first [OF assms(1)] by (auto simp: comp_def)
  ultimately show ?thesis using n assms(1) drop_first_slots [OF assms] by simp
qed

lemma set_tsbpd_cong [simp]:
  "rb_inv (b\<lparr>rb_tsbpd := t\<rparr>) = rb_inv b" "slots (b\<lparr>rb_tsbpd := t\<rparr>) = slots b" "rb_acked (b\<lparr>rb_tsbpd := t\<rparr>) = rb_acked b"
  "rb_pending (b\<lparr>rb_tsbpd := t\<rparr>) = rb_pending b" "slot_pos (b\<lparr>rb_tsbpd := t\<rparr>) = slot_pos b"
  "getRcvDataSize (b\<lparr>rb_tsbpd := t\<rparr>) = getRcvDataSize b" "unit_at (b\<lparr>rb_tsbpd := t\<rparr>) = unit_at b"
  by (rule rb_inv_cong; simp add: ring_def)+ (auto simp: slot_pos_def unit_at_def fun_eq_iff getRcvDataSize_def)

lemma countBytes_cong [simp]:
  "rb_inv (countBytes p n a b) = rb_inv b" "slots (countBytes p n a b) = slots b" "rb_acked (countBytes p n a b) = rb_acked b"
  "rb_pending (countBytes p n a b) = rb_pending b" "slot_pos (countBytes p n a b) = slot_pos b"
  "getRcvDataSize (countBytes p n a b) = getRcvDataSize b" "unit_at (countBytes p n a b) = unit_at b"
  by (rule rb_inv_cong; simp add: ring_def)+ (auto simp: slot_pos_def unit_at_def fun_eq_iff getRcvDataSize_def)

lemma acked_first:
  assumes "rb_inv b" "0 < getRcvDataSize b"
  shows "rb_acked b = unit_at b (rb_iStartPos b) # rb_acked (drop_first b)"
  using acked_drop_first(1) [OF assms] slots_nth [of 0 b] rb_invD(1) [OF assms(1)] assms(1) by simp

lemma acked_nil: "getRcvDataSize b = 0 \<Longrightarrow> rb_acked b = []"
  by (simp add: rb_acked_def)

lemma acked_nonempty: "rb_inv b \<Longrightarrow> rb_acked b \<noteq> [] \<Longrightarrow> 0 < getRcvDataSize b"
  using acked_nil by blast

subsection \<open>Delivery in time\<close>

text \<open>The base of the delivery times after the time stamps of the good units of some slots were evaluated.\<close>

definition tsbpd_after :: "CUnit option list \<Rightarrow> CTsbPd \<Rightarrow> CTsbPd" where
  "tsbpd_after = fold (\<lambda>x tb. case x of None \<Rightarrow> tb
     | Some u \<Rightarrow> if un_iFlag u = GOOD then snd (getPktTsbPdTime (packet_time (un_Packet u)) tb) else tb)"

text \<open>The delivery time of the packet in slot \<open>k\<close>, from its own time stamp.\<close>

definition play_time :: "CUnit option list \<Rightarrow> CTsbPd \<Rightarrow> nat \<Rightarrow> int" where
  "play_time q tb k = fst (getPktTsbPdTime (packet_time (un_Packet (the (q ! k)))) (tsbpd_after (take k q) tb))"

text \<open>A slot that the reader leaves behind: it is empty (the packet was lost), the packet was dropped or already
  passed, or it is due and could not be decrypted.\<close>

definition passed_over :: "(nat \<Rightarrow> int) \<Rightarrow> (nat \<Rightarrow> nat) \<Rightarrow> CTsbPd \<Rightarrow> CUnit option list \<Rightarrow> nat \<Rightarrow> bool" where
  "passed_over now pos tb q k \<longleftrightarrow>
     (case q ! k of None \<Rightarrow> True
      | Some u \<Rightarrow> un_iFlag u \<noteq> GOOD \<or> getMsgCryptoFlags (un_Packet u) \<noteq> keyspec_code EK_NOENC \<and> i64 (play_time q tb k - now (pos k)) \<le> 0)"

text \<open>The search has stopped at slot \<open>k\<close>: behind the last one, at a packet that is too early, or at one to play.\<close>

definition stops_at :: "(nat \<Rightarrow> int) \<Rightarrow> (nat \<Rightarrow> nat) \<Rightarrow> CTsbPd \<Rightarrow> CUnit option list \<Rightarrow> nat \<Rightarrow> bool \<Rightarrow> int \<Rightarrow> 32 word \<Rightarrow> bool" where
  "stops_at now pos tb q k r t s \<longleftrightarrow> k \<le> length q \<and> (\<forall>j < k. passed_over now pos tb q j) \<and>
     (if k = length q then \<not> r
      else \<exists>u. q ! k = Some u \<and> un_iFlag u = GOOD \<and> t = play_time q tb k \<and> s = ph_seqno (un_Packet u) \<and>
        (if i64 (t - now (pos k)) > 0 then \<not> r else r \<and> getMsgCryptoFlags (un_Packet u) = keyspec_code EK_NOENC))"

lemma tsbpd_after_Cons: "tsbpd_after (x # xs) tb = tsbpd_after xs (tsbpd_after [x] tb)" "tsbpd_after [] tb = tb"
  by (simp_all add: tsbpd_after_def)

lemma play_time_Suc: "play_time (x # q) tb (Suc k) = play_time q (tsbpd_after [x] tb) k"
  by (simp add: play_time_def tsbpd_after_Cons(1) [of x "take k q"])

lemma stops_at_Suc:
  assumes "passed_over now pos tb (x # q) 0" "stops_at now (\<lambda>j. pos (Suc j)) (tsbpd_after [x] tb) q k r t s"
  shows "stops_at now pos tb (x # q) (Suc k) r t s"
proof -
  have "passed_over now pos tb (x # q) (Suc j) = passed_over now (\<lambda>j. pos (Suc j)) (tsbpd_after [x] tb) q j" for j
    by (simp add: passed_over_def play_time_Suc split: option.split)
  then have "\<forall>j < Suc k. passed_over now pos tb (x # q) j" using assms by (simp add: stops_at_def All_less_Suc2)
  then show ?thesis using assms(2) unfolding stops_at_def by (simp add: play_time_Suc del: All_less_Suc2)
qed

lemma getPktTsbPdTime_keeps_mode: "getPktTsbPdTime x tb = (t, tb') \<Longrightarrow> tp_bTsbPdMode tb' = tp_bTsbPdMode tb"
  by (auto simp: getPktTsbPdTime_def getTsbPdTimeBase_def Let_def split: if_splits prod.splits)

lemma rcvReady_loop_spec:
  assumes "rb_inv b" "rcvReady_loop now (map (slot_pos b) [0 ..< getRcvDataSize b]) t0 s0 b = (r, t, s, b')"
  shows "\<exists>k. rb_inv b' \<and> rb_acked b' = drop k (rb_acked b) \<and> rb_pending b' = rb_pending b \<and>
    tp_bTsbPdMode (rb_tsbpd b') = tp_bTsbPdMode (rb_tsbpd b) \<and> slot_pos b' 0 = slot_pos b k \<and>
    rb_tsbpd b' = tsbpd_after (take (Suc k) (rb_acked b)) (rb_tsbpd b) \<and> stops_at now (slot_pos b) (rb_tsbpd b) (rb_acked b) k r t s"
  using assms
proof (induction "getRcvDataSize b" arbitrary: b t0 s0)
  case 0
  then show ?case using acked_nil by (auto simp: stops_at_def tsbpd_after_Cons(2))
next
  case (Suc n)
  note i = Suc.prems(1)
  have d: "0 < getRcvDataSize b" using Suc.hyps(2) by simp
  let ?f = "drop_first" and ?x = "unit_at b (rb_iStartPos b)"
  note af = acked_first [OF i d] and ap = acked_positions [OF i d]
  have start: "slot_pos b 0 = rb_iStartPos b" using rb_invD(2) [OF i] by (simp add: slot_pos_def)
  have step: ?case
    if c: "rb_inv c" "rb_acked c = rb_acked b" "rb_pending c = rb_pending b" "getRcvDataSize c = getRcvDataSize b"
      "slot_pos c = slot_pos b" "rb_iStartPos c = rb_iStartPos b" "rb_tsbpd c = tsbpd_after [?x] (rb_tsbpd b)"
      "tp_bTsbPdMode (rb_tsbpd c) = tp_bTsbPdMode (rb_tsbpd b)"
      and j: "passed_over now (slot_pos b) (rb_tsbpd b) (rb_acked b) 0"
      and l: "rcvReady_loop now (map (slot_pos (?f b)) [0 ..< getRcvDataSize (?f b)]) t1 s1 (?f c) = (r, t, s, b')" for c t1 s1
  proof -
    have dc: "0 < getRcvDataSize c" using c d by simp
    have e: "map (slot_pos (?f b)) [0 ..< getRcvDataSize (?f b)] = map (slot_pos (?f c)) [0 ..< getRcvDataSize (?f c)]"
      using acked_positions [OF c(1) dc] ap c by simp
    have n: "n = getRcvDataSize (?f c)" using drop_first_slots [OF c(1) dc] Suc.hyps(2) c by simp
    note fc = drop_first_slots [OF c(1) dc]
    have a: "rb_acked b = ?x # rb_acked (?f c)" using acked_first [OF c(1) dc] c af by (metis list.inject)
    have p: "rb_pending (?f c) = rb_pending b" using acked_drop_first(2) [OF c(1) dc] c by simp
    have t: "rb_tsbpd (?f c) = tsbpd_after [?x] (rb_tsbpd b)" using c by (simp add: drop_first_def)
    have sp: "slot_pos (?f c) = (\<lambda>j. slot_pos b (Suc j))" using slot_pos_drop_first [OF c(1)] c(5) by auto
    from Suc.hyps(1) [OF n _ l [unfolded e]] fc obtain k where
      k: "rb_inv b'" "rb_acked b' = drop k (rb_acked (?f c))" "rb_pending b' = rb_pending (?f c)"
      "tp_bTsbPdMode (rb_tsbpd b') = tp_bTsbPdMode (rb_tsbpd (?f c))" "slot_pos b' 0 = slot_pos (?f c) k"
      "rb_tsbpd b' = tsbpd_after (take (Suc k) (rb_acked (?f c))) (rb_tsbpd (?f c))"
      "stops_at now (slot_pos (?f c)) (rb_tsbpd (?f c)) (rb_acked (?f c)) k r t s" by blast
    have "stops_at now (slot_pos b) (rb_tsbpd b) (rb_acked b) (Suc k) r t s"
      using stops_at_Suc [of now "slot_pos b" "rb_tsbpd b" ?x "rb_acked (?f c)" k r t s] j k(7) unfolding a sp t by blast
    moreover have "rb_tsbpd b' = tsbpd_after (take (Suc (Suc k)) (rb_acked b)) (rb_tsbpd b)"
      unfolding a take_Suc_Cons tsbpd_after_Cons(1) [of ?x "take (Suc k) (rb_acked (?f c))"] using k(6) t by simp
    moreover have "tp_bTsbPdMode (rb_tsbpd b') = tp_bTsbPdMode (rb_tsbpd b)" using k(4) c(7,8) t by simp
    moreover have "rb_acked b' = drop (Suc k) (rb_acked b)" "rb_pending b' = rb_pending b" "slot_pos b' 0 = slot_pos b (Suc k)"
      using k(2,3,5) p sp a by simp_all
    ultimately show ?thesis using k(1) by blast
  qed
  have here: ?case if "stops_at now (slot_pos b) (rb_tsbpd b) (rb_acked b) 0 r t s" "b' = b\<lparr>rb_tsbpd := tsbpd_after [?x] (rb_tsbpd b)\<rparr>"
    "tp_bTsbPdMode (tsbpd_after [?x] (rb_tsbpd b)) = tp_bTsbPdMode (rb_tsbpd b)"
    using that i af by (intro exI [of _ 0]) simp
  show ?case
  proof (cases ?x)
    case None
    then have "b\<lparr>rb_iStartPos := next_pos (rb_size b) (rb_iStartPos b)\<rparr> = ?f b"
      using drop_first_none [OF _ i] slots_nth [of 0 b] rb_invD(1) [OF i] i by simp
    then have l: "rcvReady_loop now (map (slot_pos (?f b)) [0 ..< getRcvDataSize (?f b)]) t0 s0 (?f b) = (r, t, s, b')"
      using Suc.prems(2) None unfolding ap by simp
    have j: "passed_over now (slot_pos b) (rb_tsbpd b) (rb_acked b) 0" using None af by (simp add: passed_over_def)
    have a: "rb_tsbpd b = tsbpd_after [?x] (rb_tsbpd b)" using None by (simp add: tsbpd_after_def)
    show ?thesis by (rule step [OF i refl refl refl refl refl a refl j l])
  next
    case (Some u)
    let ?len = "int (getLength (un_Packet u))"
    show ?thesis
    proof (cases "un_iFlag u = GOOD")
      case False
      let ?c = "countBytes (- 1) (- ?len) True b"
      have l: "rcvReady_loop now (map (slot_pos (?f b)) [0 ..< getRcvDataSize (?f b)]) t0 (ph_seqno (un_Packet u)) (?f ?c) = (r, t, s, b')"
        using Suc.prems(2) Some False unfolding ap by (simp add: Let_def drop_first_def)
      have j: "passed_over now (slot_pos b) (rb_tsbpd b) (rb_acked b) 0" using Some False af by (simp add: passed_over_def)
      have a: "rb_tsbpd ?c = tsbpd_after [?x] (rb_tsbpd b)" using Some False by (simp add: tsbpd_after_def)
      show ?thesis by (rule step [OF _ _ _ _ _ _ a _ j l]) (use i in simp_all)
    next
      case True
      obtain t' tb where g: "getPktTsbPdTime (packet_time (un_Packet u)) (rb_tsbpd b) = (t', tb)" by fastforce
      note tb = getPktTsbPdTime_keeps_mode [OF g]
      have after: "tsbpd_after [?x] (rb_tsbpd b) = tb" using Some True g by (simp add: tsbpd_after_def)
      have pt: "play_time (rb_acked b) (rb_tsbpd b) 0 = t'" using Some g af by (simp add: play_time_def tsbpd_after_Cons)
      let ?b = "b\<lparr>rb_tsbpd := tb\<rparr>"
      consider (early) "i64 (t' - now (rb_iStartPos b)) > 0"
        | (enc) "\<not> i64 (t' - now (rb_iStartPos b)) > 0" "getMsgCryptoFlags (un_Packet u) \<noteq> keyspec_code EK_NOENC"
        | (ready) "\<not> i64 (t' - now (rb_iStartPos b)) > 0" "getMsgCryptoFlags (un_Packet u) = keyspec_code EK_NOENC" by blast
      then show ?thesis
      proof cases
        case early
        then have "r = False" "t = t'" "b' = ?b" "s = ph_seqno (un_Packet u)" using Suc.prems(2) Some True g unfolding ap by (simp_all add: Let_def)
        then have "stops_at now (slot_pos b) (rb_tsbpd b) (rb_acked b) 0 r t s" "b' = b\<lparr>rb_tsbpd := tsbpd_after [?x] (rb_tsbpd b)\<rparr>"
          "tp_bTsbPdMode (tsbpd_after [?x] (rb_tsbpd b)) = tp_bTsbPdMode (rb_tsbpd b)"
          using tb af Some True early pt start after by (simp_all add: stops_at_def)
        then show ?thesis by (rule here)
      next
        case ready
        then have "r = True" "t = t'" "b' = ?b" "s = ph_seqno (un_Packet u)" using Suc.prems(2) Some True g unfolding ap by (simp_all add: Let_def)
        then have "stops_at now (slot_pos b) (rb_tsbpd b) (rb_acked b) 0 r t s" "b' = b\<lparr>rb_tsbpd := tsbpd_after [?x] (rb_tsbpd b)\<rparr>"
          "tp_bTsbPdMode (tsbpd_after [?x] (rb_tsbpd b)) = tp_bTsbPdMode (rb_tsbpd b)"
          using tb af Some True ready pt start after by (simp_all add: stops_at_def)
        then show ?thesis by (rule here)
      next
        case enc
        let ?c = "countBytes (- 1) (- ?len) True ?b"
        have l: "rcvReady_loop now (map (slot_pos (?f b)) [0 ..< getRcvDataSize (?f b)]) t' (ph_seqno (un_Packet u)) (?f ?c) = (r, t, s, b')"
          using Suc.prems(2) Some True g enc unfolding ap by (simp add: Let_def drop_first_def)
        have j: "passed_over now (slot_pos b) (rb_tsbpd b) (rb_acked b) 0" using Some enc pt start af by (simp add: passed_over_def)
        have a: "rb_tsbpd ?c = tsbpd_after [?x] (rb_tsbpd b)" using after by simp
        show ?thesis by (rule step [OF _ _ _ _ _ _ a _ j l]) (use i tb in simp_all)
      qed
    qed
  qed
qed

text \<open>Reading the one unit at the front.\<close>

lemma readMsg_loop_first:
  assumes i: "rb_inv b" and u: "rb_acked b = Some u # ys"
  shows "\<exists>b'. readMsg_loop (cyc (rb_size b) (rb_iStartPos b) ((rb_iStartPos b + 1) mod rb_size b)) False len [] b
      = Some (len - min len (getLength (un_Packet u)), take len (payload (un_Packet u)), b') \<and>
    rb_inv (b'\<lparr>rb_iStartPos := (rb_iStartPos b + 1) mod rb_size b\<rparr>) \<and> rb_size b' = rb_size b \<and> rb_tsbpd b' = rb_tsbpd b \<and>
    rb_acked (b'\<lparr>rb_iStartPos := (rb_iStartPos b + 1) mod rb_size b\<rparr>) = ys \<and>
    rb_pending (b'\<lparr>rb_iStartPos := (rb_iStartPos b + 1) mod rb_size b\<rparr>) = rb_pending b"
proof -
  note D = rb_invD [OF i]
  have d: "0 < getRcvDataSize b" using acked_nonempty [OF i] u by simp
  have "1 < rb_size b" using d D(4) by linarith
  then have "(rb_iStartPos b + 1) mod rb_size b \<noteq> rb_iStartPos b" using D(2) by (auto simp: mod_if)
  then have c: "cyc (rb_size b) (rb_iStartPos b) ((rb_iStartPos b + 1) mod rb_size b) = [rb_iStartPos b]"
    using cyc_unfold [of "rb_iStartPos b" "rb_size b" "(rb_iStartPos b + 1) mod rb_size b"] D by (simp add: cyc_def)
  note af = acked_first [OF i d]
  have at: "unit_at b (rb_iStartPos b) = Some u" using af u by simp
  let ?b = "if getLength (un_Packet u) > 0 then countBytes (- 1) (- int (getLength (un_Packet u))) True b else b"
  have ib: "rb_inv ?b" "getRcvDataSize ?b = getRcvDataSize b" "rb_iStartPos ?b = rb_iStartPos b" "rb_size ?b = rb_size b"
    "rb_pending ?b = rb_pending b" "rb_acked ?b = rb_acked b" "unit_at ?b = unit_at b" "rb_tsbpd ?b = rb_tsbpd b" using i by simp_all
  have pl: "take (if getLength (un_Packet u) > len then len else getLength (un_Packet u)) (payload (un_Packet u))
      = take len (payload (un_Packet u))"
    by (auto simp: payload_def split: option.split)
  have r: "readMsg_loop [rb_iStartPos b] False len [] b
      = Some (len - min len (getLength (un_Packet u)), take len (payload (un_Packet u)), free_at (rb_iStartPos b) ?b)"
    using at pl by (simp add: Let_def min_def)
  have "(free_at (rb_iStartPos b) ?b)\<lparr>rb_iStartPos := (rb_iStartPos b + 1) mod rb_size b\<rparr> = drop_first ?b"
    using ib next_pos_mod [OF D(2)] by (simp add: drop_first_def)
  moreover have "rb_acked (drop_first ?b) = ys"
    using acked_first [OF ib(1)] ib d at u af by simp
  ultimately show ?thesis using r c drop_first_slots [OF ib(1)] acked_drop_first(2) [OF ib(1)] ib d by simp
qed

lemma stops_drop: "k < length q \<Longrightarrow> q ! k = Some u \<Longrightarrow> drop k q = Some u # drop (Suc k) q"
  by (metis Cons_nth_drop_Suc)

text \<open>
  C19. In TSBPD mode a read looks through the acknowledged slots in order and stops at a slot \<open>k\<close>. The slots
  before it, and only they, are given up: they are empty, hold a dropped or passed packet, or one that is due but could not
  be decrypted. When there is no slot left, or when the delivery time of the packet in slot \<open>k\<close>, computed
  from its own time stamp, has not come, nothing is returned and the packet stays; otherwise that packet is returned,
  decrypted, cut to the size of the application's buffer, with its delivery time and its numbers, and is the only one taken
  out. A read never fails, and nothing that is not yet acknowledged is touched.
\<close>
theorem readMsg_tsbpd:
  assumes i: "rb_inv b" and m: "tp_bTsbPdMode (rb_tsbpd b)"
  shows "\<exists>k out mc' b'. readMsg now len mc b = Some (out, mc', b') \<and> rb_inv b' \<and> rb_pending b' = rb_pending b \<and>
    rb_tsbpd b' = tsbpd_after (take (Suc k) (rb_acked b)) (rb_tsbpd b) \<and>
    k \<le> length (rb_acked b) \<and> (\<forall>j < k. passed_over now (slot_pos b) (rb_tsbpd b) (rb_acked b) j) \<and>
    (if k = length (rb_acked b) then out = [] \<and> rb_acked b' = []
     else \<exists>u. rb_acked b ! k = Some u \<and> un_iFlag u = GOOD \<and> mc_srctime mc' = play_time (rb_acked b) (rb_tsbpd b) k \<and>
       (if i64 (play_time (rb_acked b) (rb_tsbpd b) k - now (slot_pos b k)) > 0 then out = [] \<and> rb_acked b' = drop k (rb_acked b)
        else getMsgCryptoFlags (un_Packet u) = keyspec_code EK_NOENC \<and> out = take len (payload (un_Packet u)) \<and>
          mc_pktseq mc' = ph_seqno (un_Packet u) \<and> mc_msgno mc' = getMsgSeq (un_Packet u) True \<and> rb_acked b' = drop (Suc k) (rb_acked b)))"
proof -
  obtain r t s c where g: "getRcvReadyMsg now 0 b = (r, t, s, c)" by (metis prod_cases4)
  have "rcvReady_loop now (map (slot_pos b) [0 ..< getRcvDataSize b]) 0 0 b = (r, t, s, c)"
    using g cyc_acked [OF i] by (simp add: getRcvReadyMsg_def)
  from rcvReady_loop_spec [OF i this] obtain k where
    x: "rb_inv c" "rb_acked c = drop k (rb_acked b)" "rb_pending c = rb_pending b" "rb_tsbpd c = tsbpd_after (take (Suc k) (rb_acked b)) (rb_tsbpd b)"
    and y: "stops_at now (slot_pos b) (rb_tsbpd b) (rb_acked b) k r t s" by blast
  have k: "k \<le> length (rb_acked b)" "\<forall>j < k. passed_over now (slot_pos b) (rb_tsbpd b) (rb_acked b) j" using y by (simp_all add: stops_at_def)
  show ?thesis
  proof (cases r)
    case False
    then have r: "readMsg now len mc b = Some ([], mc\<lparr>mc_srctime := t\<rparr>, c)" using m g by (simp add: readMsg_def)
    show ?thesis
      by (rule exI [of _ k], rule exI [of _ "[]"], rule exI [of _ "mc\<lparr>mc_srctime := t\<rparr>"], rule exI [of _ c])
        (use r x k y False in \<open>auto simp: stops_at_def split: if_splits\<close>)
  next
    case True
    then obtain u where u: "k < length (rb_acked b)" "rb_acked b ! k = Some u" "un_iFlag u = GOOD" "t = play_time (rb_acked b) (rb_tsbpd b) k"
      "\<not> i64 (t - now (slot_pos b k)) > 0" "getMsgCryptoFlags (un_Packet u) = keyspec_code EK_NOENC"
      using y by (auto simp: stops_at_def split: if_splits)
    have c: "rb_acked c = Some u # drop (Suc k) (rb_acked b)" using x(2) stops_drop [OF u(1,2)] by simp
    from readMsg_loop_first [OF x(1) c, of len] obtain e where
      e: "readMsg_loop (cyc (rb_size c) (rb_iStartPos c) ((rb_iStartPos c + 1) mod rb_size c)) False len [] c
        = Some (len - min len (getLength (un_Packet u)), take len (payload (un_Packet u)), e)"
      "rb_inv (e\<lparr>rb_iStartPos := (rb_iStartPos c + 1) mod rb_size c\<rparr>)" "rb_size e = rb_size c" "rb_tsbpd e = rb_tsbpd c"
      "rb_acked (e\<lparr>rb_iStartPos := (rb_iStartPos c + 1) mod rb_size c\<rparr>) = drop (Suc k) (rb_acked b)"
      "rb_pending (e\<lparr>rb_iStartPos := (rb_iStartPos c + 1) mod rb_size c\<rparr>) = rb_pending c" by blast
    have at: "unit_at c (rb_iStartPos c) = Some u" using acked_first [OF x(1) acked_nonempty [OF x(1)]] c by simp
    let ?mc = "\<lparr>mc_srctime = t, mc_pktseq = ph_seqno (un_Packet u), mc_msgno = getMsgSeq (un_Packet u) True\<rparr>"
      and ?b = "e\<lparr>rb_iStartPos := (rb_iStartPos c + 1) mod rb_size c\<rparr>"
    have r: "readMsg now len mc b = Some (take len (payload (un_Packet u)), ?mc, ?b)"
      using m g True at e by (simp add: readMsg_def Let_def)
    show ?thesis
      by (rule exI [of _ k], rule exI [of _ "take len (payload (un_Packet u))"], rule exI [of _ ?mc], rule exI [of _ ?b])
        (use r x(3,4) k u e in simp)
  qed
qed

subsection \<open>Whole messages\<close>

definition bound_of :: "CUnit \<Rightarrow> PacketBoundary \<Rightarrow> bool" where
  "bound_of u x \<longleftrightarrow> un_iFlag u = GOOD \<and> getMsgBoundary (un_Packet u) = boundary_code x"

definition whole_message :: "CUnit list \<Rightarrow> bool" where
  "whole_message us \<longleftrightarrow>
     (\<exists>u. us = [u] \<and> bound_of u PB_SOLO) \<or>
     (\<exists>f ms l. us = f # ms @ [l] \<and> bound_of f PB_FIRST \<and> (\<forall>m\<in>set ms. bound_of m PB_SUBSEQUENT) \<and> bound_of l PB_LAST)"

lemma next_slot:
  assumes "rb_inv b"
  shows "next_pos (rb_size b) (slot_pos b k) = slot_pos b (Suc k)"
  using next_pos_mod [of "slot_pos b k" "rb_size b"] rb_invD(1) [OF assms] by (simp add: slot_pos_def mod_simps)

lemma slot_last:
  assumes "rb_inv b" "k < rb_size b"
  shows "slot_pos b k = rb_iLastAckPos b \<longleftrightarrow> k = getRcvDataSize b"
  using mod_shift_eq [of k "rb_size b" "getRcvDataSize b" "rb_iStartPos b"] lastack_slot [OF assms(1)] rb_invD(4) [OF assms(1)] assms(2)
  by (simp add: slot_pos_def)

lemma good_slot:
  assumes "rb_inv b" "k < rb_size b" "slots b ! k = Some u" "un_iFlag u = GOOD"
  shows "good_at b (slot_pos b k)" "the (unit_at b (slot_pos b k)) = u"
  using assms slots_nth [OF assms(2)] by (auto simp: good_at_def)

lemma scan_find_step:
  assumes i: "rb_inv b" and k: "k < getRcvDataSize b" and u: "slots b ! k = Some u"
  shows "bound_of u PB_SUBSEQUENT \<Longrightarrow> scan_find (Suc n) p (slot_pos b k) pa b = scan_find n p (slot_pos b (Suc k)) (pa \<or> Suc k = getRcvDataSize b) b"
    and "bound_of u PB_FIRST \<Longrightarrow> scan_find (Suc n) p (slot_pos b k) pa b = scan_find n (Some (slot_pos b k)) (slot_pos b (Suc k)) (pa \<or> Suc k = getRcvDataSize b) b"
    and "bound_of u PB_LAST \<Longrightarrow> p \<noteq> None \<Longrightarrow> scan_find (Suc n) p (slot_pos b k) False b = (True, p, slot_pos b k, False)"
    and "bound_of u PB_SOLO \<Longrightarrow> scan_find (Suc n) p (slot_pos b k) False b = (True, Some (slot_pos b k), slot_pos b k, False)"
proof -
  note D = rb_invD [OF i]
  have sk: "k < rb_size b" "Suc k < rb_size b" using k D(4) by linarith+
  note l = slot_last [OF i sk(2)] and nx = next_slot [OF i, of k]
  show "bound_of u PB_SUBSEQUENT \<Longrightarrow> scan_find (Suc n) p (slot_pos b k) pa b = scan_find n p (slot_pos b (Suc k)) (pa \<or> Suc k = getRcvDataSize b) b"
    "bound_of u PB_FIRST \<Longrightarrow> scan_find (Suc n) p (slot_pos b k) pa b = scan_find n (Some (slot_pos b k)) (slot_pos b (Suc k)) (pa \<or> Suc k = getRcvDataSize b) b"
    "bound_of u PB_LAST \<Longrightarrow> p \<noteq> None \<Longrightarrow> scan_find (Suc n) p (slot_pos b k) False b = (True, p, slot_pos b k, False)"
    "bound_of u PB_SOLO \<Longrightarrow> scan_find (Suc n) p (slot_pos b k) False b = (True, Some (slot_pos b k), slot_pos b k, False)"
    using good_slot [OF i sk(1) u] nx l by (auto simp: bound_of_def Let_def)
qed

lemma scan_find_inner:
  assumes "rb_inv b" "k + length us \<le> getRcvDataSize b" "\<And>j. j < length us \<Longrightarrow> slots b ! (k + j) = Some (us ! j)"
    "\<forall>u\<in>set us. bound_of u PB_SUBSEQUENT"
  shows "scan_find (length us + n) p (slot_pos b k) pa b =
    scan_find n p (slot_pos b (k + length us)) (pa \<or> us \<noteq> [] \<and> k + length us = getRcvDataSize b) b"
  using assms
proof (induction us arbitrary: k pa)
  case (Cons u us)
  have "slots b ! k = Some u" using Cons.prems(3) [of 0] by simp
  moreover have "\<And>j. j < length us \<Longrightarrow> slots b ! (Suc k + j) = Some (us ! j)" using Cons.prems(3) [of "Suc j" for j] by simp
  moreover have "us \<noteq> [] \<Longrightarrow> Suc k \<noteq> getRcvDataSize b" using Cons.prems(2) by (cases us) auto
  ultimately show ?case
    using scan_find_step(1) [OF Cons.prems(1), of k u "length us + n" p pa] Cons.IH [of "Suc k" "pa \<or> Suc k = getRcvDataSize b"] Cons.prems
    by (cases "us = []") (auto simp del: scan_find.simps)
qed simp

lemma look_ahead_message:
  assumes "rb_inv b" "k + length us \<le> getRcvDataSize b" "\<And>j. j < length us \<Longrightarrow> slots b ! (k + j) = Some (us ! j)"
    "\<forall>u\<in>set us. un_iFlag u = GOOD" "us \<noteq> []" "PB_LAST_bit (un_Packet (last us))"
  shows "look_ahead b (map (slot_pos b) [k ..< getRcvDataSize b])"
  using assms
proof (induction us arbitrary: k)
  case (Cons u us)
  note D = rb_invD [OF Cons.prems(1)]
  have k: "k < getRcvDataSize b" "k < rb_size b" using Cons.prems(2) D(4) by simp_all
  have "unit_at b (slot_pos b k) = Some u" using Cons.prems(3) [of 0] slots_nth [OF k(2)] by simp
  moreover have "[k ..< getRcvDataSize b] = k # [Suc k ..< getRcvDataSize b]" using k by (simp add: upt_conv_Cons)
  moreover have "us \<noteq> [] \<Longrightarrow> look_ahead b (map (slot_pos b) [Suc k ..< getRcvDataSize b])"
    using Cons.prems Cons.prems(3) [of "Suc j" for j] by (intro Cons.IH) auto
  ultimately show ?case using Cons.prems by (cases "us = []") auto
qed simp

lemma whole_message_bits:
  assumes "whole_message us"
  shows "us \<noteq> []" "\<forall>u\<in>set us. un_iFlag u = GOOD" "PB_FIRST_bit (un_Packet (hd us))" "PB_LAST_bit (un_Packet (last us))"
  using assms by (auto simp: whole_message_def bound_of_def PB_FIRST_bit_def PB_LAST_bit_def)

lemma scanMsg_whole:
  assumes i: "rb_inv b" and u: "rb_acked b = map Some us @ rest" and w: "whole_message us"
  shows "\<exists>b'. scanMsg b = (True, Some (rb_iStartPos b), slot_pos b (length us - 1), False, b') \<and>
    b' = countBytes 0 0 True b"
proof -
  note D = rb_invD [OF i] and W = whole_message_bits [OF w]
  have len: "length us \<le> getRcvDataSize b" using arg_cong [OF u, of length] i by simp
  have sl: "slots b ! j = Some (us ! j)" if "j < length us" for j
  proof -
    have "slots b ! j = rb_acked b ! j" using that len by (simp add: rb_acked_def)
    then show ?thesis using that u by (simp add: nth_append)
  qed
  have d: "0 < getRcvDataSize b" using len W(1) by (cases us) auto
  let ?ps = "map (slot_pos b) [0 ..< getRcvDataSize b]"
  have ps: "?ps = rb_iStartPos b # map (slot_pos b) [Suc 0 ..< getRcvDataSize b]"
    using d i by (simp add: upt_conv_Cons)
  have at: "unit_at b (rb_iStartPos b) = Some (hd us)"
    using sl [of 0] W(1) slots_nth [OF D(1)] i by (simp add: hd_conv_nth)
  have "look_ahead b ?ps" using look_ahead_message [OF i, of 0 us] len sl W by simp
  then have sk: "scan_skip ?ps 0 0 b = (0, 0, b)" using at W ps by (simp add: Let_def)
  have se: "rb_iStartPos b \<noteq> rb_iLastAckPos b" using slot_last [OF i D(1)] i d by simp
  let ?c = "countBytes 0 0 True b"
  have ic: "rb_inv ?c" using i by simp
  obtain n where n: "rb_iMaxPos b + getRcvDataSize b = length us + n" using len by (metis le_add_diff_inverse trans_le_add2)
  have f: "scan_find (length us + n) None (slot_pos ?c 0) False ?c = (True, Some (slot_pos ?c 0), slot_pos ?c (length us - 1), False)"
    using w unfolding whole_message_def
  proof
    assume "\<exists>u. us = [u] \<and> bound_of u PB_SOLO"
    then obtain u where us: "us = [u]" "bound_of u PB_SOLO" by blast
    then have "slots ?c ! 0 = Some u" using sl [of 0] by simp
    from scan_find_step(4) [OF ic _ this us(2)] d us show ?thesis by (simp del: scan_find.simps)
  next
    assume "\<exists>f ms l. us = f # ms @ [l] \<and> bound_of f PB_FIRST \<and> (\<forall>m\<in>set ms. bound_of m PB_SUBSEQUENT) \<and> bound_of l PB_LAST"
    then obtain f ms l where us: "us = f # ms @ [l]" "bound_of f PB_FIRST" "\<forall>m\<in>set ms. bound_of m PB_SUBSEQUENT" "bound_of l PB_LAST" by blast
    have s0: "slots ?c ! 0 = Some f" using sl [of 0] us by simp
    have s1: "slots ?c ! (Suc 0 + j) = Some (ms ! j)" if "j < length ms" for j using sl [of "Suc j"] us that by (simp add: nth_append)
    have s2: "slots ?c ! (Suc 0 + length ms) = Some l" using sl [of "Suc (length ms)"] us by (simp add: nth_append)
    have dd: "Suc 0 + length ms < getRcvDataSize ?c" using len us by simp
    have "scan_find (length us + n) None (slot_pos ?c 0) False ?c
        = scan_find (length ms + Suc n) (Some (slot_pos ?c 0)) (slot_pos ?c (Suc 0)) False ?c"
      using scan_find_step(2) [OF ic _ s0 us(2), of "length ms + Suc n" None False] dd us by (simp del: scan_find.simps)
    also have "\<dots> = scan_find (Suc n) (Some (slot_pos ?c 0)) (slot_pos ?c (Suc 0 + length ms)) False ?c"
      using scan_find_inner [OF ic _ s1 us(3), where n = "Suc n" and p = "Some (slot_pos ?c 0)" and pa = False] dd
      by (simp del: scan_find.simps)
    also have "\<dots> = (True, Some (slot_pos ?c 0), slot_pos ?c (Suc 0 + length ms), False)"
      using scan_find_step(3) [OF ic dd s2 us(4)] by (simp del: scan_find.simps)
    finally show ?thesis using us by simp
  qed
  have "scanMsg b = (True, Some (rb_iStartPos b), slot_pos b (length us - 1), False, ?c)"
    using f se sk cyc_acked [OF i] n i by (simp add: scanMsg_def Let_def)
  then show ?thesis by blast
qed

text \<open>The length of a unit's packet is that of its payload.\<close>

definition sound_unit :: "CUnit \<Rightarrow> bool" where
  "sound_unit u \<longleftrightarrow> length (payload (un_Packet u)) = getLength (un_Packet u)"

text \<open>The bytes of a sequence of packets.\<close>

definition message_bytes :: "CUnit list \<Rightarrow> 8 word list" where
  "message_bytes us = concat (map (\<lambda>u. payload (un_Packet u)) us)"

lemma message_bytes_simps [simp]:
  "message_bytes [] = []" "message_bytes (u # us) = payload (un_Packet u) @ message_bytes us"
  by (simp_all add: message_bytes_def)

lemma slot_pos_free [simp]: "slot_pos (free_at p b) = slot_pos b"
  by (rule ext) (simp add: slot_pos_def)

lemma dataSize_free [simp]: "getRcvDataSize (free_at p b) = getRcvDataSize b"
  by (simp add: getRcvDataSize_def)

lemma readMsg_loop_free:
  assumes "rb_inv b" "k + length us \<le> rb_size b" "\<And>j. j < length us \<Longrightarrow> slots b ! (k + j) = Some (us ! j)"
    "\<forall>u\<in>set us. sound_unit u"
  shows "\<exists>b'. readMsg_loop (map (slot_pos b) [k ..< k + length us]) False rs out b =
      Some (rs - length (message_bytes us), out @ take rs (message_bytes us), b') \<and>
    rb_inv b' \<and> slots b' = take k (slots b) @ replicate (length us) None @ drop (k + length us) (slots b) \<and>
    rb_iStartPos b' = rb_iStartPos b \<and> rb_size b' = rb_size b \<and> getRcvDataSize b' = getRcvDataSize b \<and> rb_iMaxPos b' = rb_iMaxPos b"
  using assms
proof (induction us arbitrary: k rs out b)
  case Nil
  then show ?case by auto
next
  case (Cons u us)
  note i = Cons.prems(1)
  have k: "k < rb_size b" using Cons.prems(2) by simp
  have su: "slots b ! k = Some u" using Cons.prems(3) [of 0] by simp
  have at: "unit_at b (slot_pos b k) = Some u" using su slots_nth [OF k] by simp
  let ?c = "if getLength (un_Packet u) > 0 then countBytes (- 1) (- int (getLength (un_Packet u))) True b else b"
  let ?f = "free_at (slot_pos b k) ?c" and ?p = "payload (un_Packet u)"
  have ic: "rb_inv ?c" "slots ?c = slots b" "slot_pos ?c = slot_pos b" "rb_size ?c = rb_size b" "rb_iStartPos ?c = rb_iStartPos b"
    "getRcvDataSize ?c = getRcvDataSize b" "rb_iMaxPos ?c = rb_iMaxPos b" using i by simp_all
  have f: "rb_inv ?f" "slots ?f = (slots b)[k := None]" using free_slot [OF ic(1), of k] k ic by simp_all
  have ff: "slot_pos ?f = slot_pos b" "rb_size ?f = rb_size b" "rb_iStartPos ?f = rb_iStartPos b" "getRcvDataSize ?f = getRcvDataSize b"
    "rb_iMaxPos ?f = rb_iMaxPos b" using ic by simp_all
  have pl: "length ?p = getLength (un_Packet u)" using Cons.prems(4) by (simp add: sound_unit_def)
  have up: "[k ..< k + length (u # us)] = k # [Suc k ..< Suc k + length us]"
    using upt_conv_Cons [of k "k + length (u # us)"] by (simp del: upt_Suc)
  have "\<And>j. j < length us \<Longrightarrow> slots ?f ! (Suc k + j) = Some (us ! j)" using f(2) Cons.prems(3) [of "Suc j" for j] by simp
  from Cons.IH [OF f(1) _ this, of "rs - length ?p" "out @ take rs ?p"] Cons.prems(2,4) ff(1) ff(2) ff(3-5) obtain b' where
    b: "readMsg_loop (map (slot_pos b) [Suc k ..< Suc k + length us]) False (rs - length ?p) (out @ take rs ?p) ?f =
      Some (rs - length ?p - length (message_bytes us),
        (out @ take rs ?p) @ take (rs - length ?p) (message_bytes us), b')"
    "rb_inv b'" "slots b' = take (Suc k) (slots ?f) @ replicate (length us) None @ drop (Suc k + length us) (slots ?f)"
    "rb_iStartPos b' = rb_iStartPos b" "rb_size b' = rb_size b" "getRcvDataSize b' = getRcvDataSize b" "rb_iMaxPos b' = rb_iMaxPos b"
    by (auto simp del: upt_Suc)
  have tk: "take (if getLength (un_Packet u) > rs then rs else getLength (un_Packet u)) ?p = take rs ?p"
    using pl by auto
  have rr: "rs - (if getLength (un_Packet u) > rs then rs else getLength (un_Packet u)) = rs - length ?p" using pl by auto
  have "readMsg_loop (map (slot_pos b) [k ..< k + length (u # us)]) False rs out b =
      readMsg_loop (map (slot_pos b) [Suc k ..< Suc k + length us]) False (rs - length ?p) (out @ take rs ?p) ?f"
    unfolding up using at tk rr by (simp add: Let_def del: upt_Suc)
  moreover have "take (Suc k) ((slots b)[k := None]) @ xs = take k (slots b) @ None # xs" for xs
    using k by (simp add: take_Suc_conv_app_nth)
  ultimately show ?case using b f(2) by (intro exI [of _ b']) simp
qed

text \<open>
  A complete message at the front, acknowledged, is read whole: the application gets the payloads of its
  packets in order (as far as its buffer reaches), exactly these packets leave the buffer, and the rest stays.
\<close>
lemma readMsg_whole:
  assumes i: "rb_inv b" and mode: "\<not> tp_bTsbPdMode (rb_tsbpd b)" and u: "rb_acked b = map Some us @ rest"
    and w: "whole_message us" and s: "\<forall>u\<in>set us. sound_unit u"
  shows "\<exists>mc' b'. readMsg now len mc b = Some (take len (message_bytes us), mc', b') \<and>
    rb_inv b' \<and> rb_acked b' = rest \<and> rb_pending b' = rb_pending b \<and> mc_pktseq mc' = ph_seqno (un_Packet (hd us))"
proof -
  note D = rb_invD [OF i] and W = whole_message_bits [OF w]
  let ?n = "length us" and ?c = "countBytes 0 0 True b" and ?cc = "message_bytes us"
  have len: "?n \<le> getRcvDataSize b" using arg_cong [OF u, of length] i by simp
  have n: "0 < ?n" "?n < rb_size b" using W(1) len D(4) by simp_all
  have sl: "slots b ! j = Some (us ! j)" if "j < ?n" for j
  proof -
    have "slots b ! j = rb_acked b ! j" using that len by (simp add: rb_acked_def)
    then show ?thesis using that u by (simp add: nth_append)
  qed
  have sc: "scanMsg b = (True, Some (rb_iStartPos b), slot_pos b (?n - 1), False, ?c)"
    using scanMsg_whole [OF i u w] by blast
  have at: "unit_at ?c (rb_iStartPos b) = Some (hd us)"
    using sl [of 0] W(1) slots_nth [OF D(1)] i n by (simp add: hd_conv_nth)
  have q: "(slot_pos b (?n - 1) + 1) mod rb_size b = slot_pos b ?n" using W(1) by (cases us) (simp_all add: slot_pos_def mod_simps)
  have cy: "cyc (rb_size b) (rb_iStartPos b) (slot_pos b ?n) = map (slot_pos b) [0 ..< 0 + ?n]"
    using cyc_start [OF D(2) n(2)] by simp
  obtain e where e: "readMsg_loop (map (slot_pos b) [0 ..< 0 + ?n]) False len [] ?c = Some (len - length ?cc, take len ?cc, e)"
    "rb_inv e" "slots e = replicate ?n None @ drop ?n (slots b)" "rb_iStartPos e = rb_iStartPos b" "rb_size e = rb_size b"
    "getRcvDataSize e = getRcvDataSize b" "rb_iMaxPos e = rb_iMaxPos b"
    using readMsg_loop_free [of ?c 0 us len "[]"] i n sl s by auto
  let ?b = "e\<lparr>rb_iStartPos := (rb_iStartPos e + ?n) mod rb_size e\<rparr>"
  have p: "rb_inv ?b" "getRcvDataSize ?b = getRcvDataSize b - ?n" "slots ?b = drop ?n (slots b) @ replicate ?n None"
    using pass_slots [of e ?n] e len by (simp_all add: nth_append)
  have "readMsg now len mc b = Some (take len ?cc,
      mc\<lparr>mc_srctime := 0, mc_pktseq := ph_seqno (un_Packet (hd us)), mc_msgno := getMsgSeq (un_Packet (hd us)) True\<rparr>, ?b)"
    using mode sc at q cy e by (simp add: readMsg_def Let_def slot_pos_def)
  moreover have "rb_acked ?b = rest"
  proof -
    have "rb_acked ?b = take (getRcvDataSize b - ?n) (drop ?n (slots b))" using p len D(4) by (simp add: rb_acked_def)
    also have "\<dots> = drop ?n (rb_acked b)" by (simp add: rb_acked_def drop_take)
    finally show ?thesis using u by simp
  qed
  moreover have "rb_pending ?b = rb_pending b" using p e(7) len D(4) by (simp add: rb_pending_def drop_append add.commute)
  ultimately show ?thesis using p by auto
qed

text \<open>
  C34. When a message is larger than the buffer the connection is stuck: all slots hold parts of one
  message without its last packet, no further packet is accepted, and reading yields nothing and frees nothing.
\<close>
theorem readMsg_oversized:
  assumes i: "rb_inv b" and mode: "\<not> tp_bTsbPdMode (rb_tsbpd b)" and u: "rb_acked b = map Some (f # ms)"
    and w: "bound_of f PB_FIRST" "\<forall>m\<in>set ms. bound_of m PB_SUBSEQUENT"
    and full: "length (f # ms) + 1 = rb_size b" "0 < length ms"
  shows "(\<exists>mc' b'. readMsg now len mc b = Some ([], mc', b') \<and> rb_acked b' = rb_acked b \<and> rb_inv b') \<and>
    addData v offset b = (- 1, b)"
proof -
  note D = rb_invD [OF i]
  let ?c = "countBytes 0 0 True b" and ?n = "Suc (length ms)"
  have dn: "getRcvDataSize b = ?n" using arg_cong [OF u, of length] i by simp
  have m0: "rb_iMaxPos b = 0" using dn full(1) D(4) by simp
  have ic: "rb_inv ?c" using i by simp
  have sl: "slots b ! j = Some ((f # ms) ! j)" if "j < ?n" for j
  proof -
    have "slots b ! j = rb_acked b ! j" using that dn by (simp add: rb_acked_def)
    then show ?thesis using that u by (simp del: list.map)
  qed
  have s0: "slots ?c ! 0 = Some f" using sl [of 0] by simp
  have s1: "slots ?c ! (Suc 0 + j) = Some (ms ! j)" if "j < length ms" for j using sl [of "Suc j"] that by simp
  let ?ps = "map (slot_pos b) [0 ..< getRcvDataSize b]"
  have la: "look_ahead b (map (slot_pos b) [k ..< ?n])" for k
  proof (induction "?n - k" arbitrary: k)
    case (Suc x)
    then have k: "k < ?n" by simp
    then have kl: "k < rb_size b" using full by simp
    have "unit_at b (slot_pos b k) = Some ((f # ms) ! k)" using sl [OF k] slots_nth [OF kl] by simp
    moreover have "un_iFlag ((f # ms) ! k) = GOOD" using w k by (cases k) (auto simp: bound_of_def)
    moreover have "[k ..< ?n] = k # [Suc k ..< ?n]" using k by (rule upt_conv_Cons)
    ultimately show ?case using Suc.hyps(1) [of "Suc k"] Suc.hyps(2) by simp
  qed simp
  have at: "unit_at b (rb_iStartPos b) = Some f" using sl [of 0] slots_nth [OF D(1)] i by simp
  have ps: "?ps = rb_iStartPos b # map (slot_pos b) [Suc 0 ..< getRcvDataSize b]"
    using dn i by (simp add: upt_conv_Cons del: upt_Suc)
  have sk: "scan_skip ?ps 0 0 b = (0, 0, b)"
    using at w(1) la [of 0] dn ps by (simp add: Let_def bound_of_def PB_FIRST_bit_def del: upt_Suc)
  have se: "rb_iStartPos b \<noteq> rb_iLastAckPos b" using slot_last [OF i D(1)] i dn by simp
  have "scan_find (Suc (length ms + 0)) None (slot_pos ?c 0) False ?c = scan_find (length ms + 0) (Some (slot_pos ?c 0)) (slot_pos ?c (Suc 0)) False ?c"
    using scan_find_step(2) [OF ic _ s0 w(1), of "length ms + 0" None False] dn full by (simp del: scan_find.simps)
  also have "\<dots> = scan_find 0 (Some (slot_pos ?c 0)) (slot_pos ?c (Suc 0 + length ms)) (ms \<noteq> []) ?c"
    using scan_find_inner [OF ic _ s1 w(2), of 0 "Some (slot_pos ?c 0)" False] dn by (simp del: scan_find.simps)
  also have "\<dots> = (False, Some (slot_pos b 0), slot_pos b ?n, True)" using full by simp
  finally have f: "scan_find ?n None (rb_iStartPos b) False ?c = (False, Some (rb_iStartPos b), slot_pos b ?n, True)" using i by simp
  have q: "(slot_pos b ?n + 1) mod rb_size b = rb_iStartPos b"
  proof -
    have "(slot_pos b ?n + 1) mod rb_size b = (rb_iStartPos b + (?n + 1)) mod rb_size b" by (simp add: slot_pos_def mod_simps)
    also have "?n + 1 = rb_size b" using full by simp
    finally show ?thesis using D(2) by simp
  qed
  have sc: "scanMsg b = (True, Some (rb_iStartPos b), slot_pos b ?n, True, ?c)"
    using f se sk cyc_acked [OF i] dn m0 i q by (simp add: scanMsg_def Let_def del: scan_find.simps upt_Suc)
  have "\<exists>mc'. readMsg now len mc b = Some ([], mc', ?c)"
    using mode sc at q by (simp add: readMsg_def Let_def cyc_def)
  moreover have "addData v offset b = (- 1, b)" using dn full by (simp add: addData_def getAvailBufSize_def)
  ultimately show ?thesis using i by auto
qed

subsection \<open>A buffer with given packets\<close>

definition buffer_of :: "CPacket list \<Rightarrow> nat \<Rightarrow> CRcvBuffer" where
  "buffer_of ps free = (rb_new (length ps + free)
     \<lparr>uq_unit = map (\<lambda>p. \<lparr>un_Packet = p, un_iFlag = GOOD\<rparr>) ps, uq_each = length ps, uq_cur = 0, uq_avail = 0,
      uq_iSize = int (length ps), uq_iCount = int (length ps), uq_iMSS = 1500\<rparr>)
     \<lparr>rb_pUnit := map Some [0 ..< length ps] @ replicate free None, rb_iLastAckPos := length ps,
      rb_iAckedPktsCount := int (length ps)\<rparr>"

lemma buffer_of_ok:
  assumes "ps \<noteq> []" "0 < free"
  shows "rb_inv (buffer_of ps free)" "rb_acked (buffer_of ps free) = map Some (map (\<lambda>p. \<lparr>un_Packet = p, un_iFlag = GOOD\<rparr>) ps)"
    "tp_bTsbPdMode (rb_tsbpd (buffer_of ps free)) = False" "rb_pending (buffer_of ps free) = []" "rb_iNotch (buffer_of ps free) = 0"
proof -
  let ?b = "buffer_of ps free"
  have r: "ring ?b = map Some [0 ..< length ps] @ replicate free None" by (simp add: ring_def buffer_of_def rb_new_def)
  have d: "getRcvDataSize ?b = length ps" "rb_size ?b = length ps + free" "rb_iMaxPos ?b = 0"
    by (simp_all add: getRcvDataSize_def buffer_of_def rb_new_def)
  have n: "ring ?b ! k = Some u \<longleftrightarrow> u = k \<and> k < length ps" if "k < length ps + free" for k u
    using that by (auto simp: r nth_append)
  have p: "uq_unit (rb_pool ?b) = map (\<lambda>p. \<lparr>un_Packet = p, un_iFlag = GOOD\<rparr>) ps" by (simp add: buffer_of_def rb_new_def)
  have "uq_inv (rb_pool ?b)"
    using assms by (simp add: uq_inv_def uq_entries_def buffer_of_def rb_new_def)
  moreover have "ring ?b ! i = Some u \<and> ring ?b ! j = Some u \<longrightarrow> i = j" if "i < rb_size ?b" "j < rb_size ?b" for i j u
    using that n d by simp
  moreover have "ring ?b ! k = Some u \<longrightarrow> k < getRcvDataSize ?b + rb_iMaxPos ?b \<and> u < length (uq_unit (rb_pool ?b)) \<and> uq_busy (rb_pool ?b) u"
    if "k < rb_size ?b" for k u
    using that n d by (simp add: uq_busy_def p)
  moreover have "rb_iStartPos ?b < rb_size ?b" "rb_iLastAckPos ?b < rb_size ?b" "getRcvDataSize ?b + rb_iMaxPos ?b < rb_size ?b"
    using assms d by (simp_all add: buffer_of_def rb_new_def)
  ultimately show "rb_inv ?b" unfolding rb_inv_def by blast
  show "rb_acked ?b = map Some (map (\<lambda>p. \<lparr>un_Packet = p, un_iFlag = GOOD\<rparr>) ps)"
    by (rule nth_equalityI) (simp_all add: rb_acked_def d slots_def r p)
  show "rb_pending ?b = []" by (simp add: rb_pending_def d)
qed (simp_all add: buffer_of_def rb_new_def tsbpd_new_def)

definition packet_of :: "PacketBoundary \<Rightarrow> 8 word list \<Rightarrow> CPacket" where
  "packet_of x d = packet_new\<lparr>ph_msgno := PacketBoundaryBits x, pv_data := Some d, pv_len := length d\<rparr>"

lemma packet_of_facts [simp]:
  "getMsgBoundary (packet_of x d) = boundary_code x" "payload (packet_of x d) = d" "getLength (packet_of x d) = length d"
  by (simp_all add: packet_of_def getMsgBoundary_def PacketBoundaryBits_def unwrap_wrap getLength_def payload_def)

lemma sound_unit_of [simp]: "sound_unit \<lparr>un_Packet = packet_of x d, un_iFlag = f\<rparr>"
  by (simp add: sound_unit_def)

text \<open>A message of three packets in front of another one.\<close>

definition buffer_demo :: CRcvBuffer where
  "buffer_demo = buffer_of [packet_of PB_FIRST [1, 2], packet_of PB_SUBSEQUENT [3], packet_of PB_LAST [4, 5], packet_of PB_SOLO [6]] 3"

lemmas buffer_demo_ok = buffer_of_ok [of "[packet_of PB_FIRST [1, 2], packet_of PB_SUBSEQUENT [3], packet_of PB_LAST [4, 5], packet_of PB_SOLO [6]]" 3,
  folded buffer_demo_def, simplified]

subsection \<open>The byte stream\<close>

lemma set_notch_cong [simp]:
  "rb_inv (b\<lparr>rb_iNotch := n\<rparr>) = rb_inv b" "slots (b\<lparr>rb_iNotch := n\<rparr>) = slots b" "rb_acked (b\<lparr>rb_iNotch := n\<rparr>) = rb_acked b"
  "rb_pending (b\<lparr>rb_iNotch := n\<rparr>) = rb_pending b" "slot_pos (b\<lparr>rb_iNotch := n\<rparr>) = slot_pos b"
  "getRcvDataSize (b\<lparr>rb_iNotch := n\<rparr>) = getRcvDataSize b" "unit_at (b\<lparr>rb_iNotch := n\<rparr>) = unit_at b"
  by (rule rb_inv_cong; simp add: ring_def)+ (auto simp: slot_pos_def unit_at_def fun_eq_iff getRcvDataSize_def)

definition notch_ok :: "nat \<Rightarrow> CUnit list \<Rightarrow> bool" where
  "notch_ok n us \<longleftrightarrow> (case us of [] \<Rightarrow> n = 0 | u # _ \<Rightarrow> n \<le> getLength (un_Packet u))"

lemma notch_ok_0 [simp]: "notch_ok 0 us"
  by (cases us) (simp_all add: notch_ok_def)

lemma readBuffer_loop_spec:
  assumes "rb_inv b" "\<not> tp_bTsbPdMode (rb_tsbpd b)" "k + length us = getRcvDataSize b"
    "\<And>j. j < length us \<Longrightarrow> slots b ! (k + j) = Some (us ! j)" "\<forall>u\<in>set us. sound_unit u" "notch_ok (rb_iNotch b) us"
  shows "\<exists>n b'. readBuffer_loop now (rb_iLastAckPos b) (map (slot_pos b) [k ..< getRcvDataSize b]) rs out b =
      (True, slot_pos b (k + n), rs - length (drop (rb_iNotch b) (message_bytes us)),
        out @ take rs (drop (rb_iNotch b) (message_bytes us)), b') \<and>
    n \<le> length us \<and> rb_inv b' \<and> slots b' = take k (slots b) @ replicate n None @ drop (k + n) (slots b) \<and>
    notch_ok (rb_iNotch b') (drop n us) \<and> drop (rb_iNotch b') (message_bytes (drop n us)) = drop rs (drop (rb_iNotch b) (message_bytes us)) \<and>
    rb_iStartPos b' = rb_iStartPos b \<and> rb_size b' = rb_size b \<and> getRcvDataSize b' = getRcvDataSize b \<and> rb_iMaxPos b' = rb_iMaxPos b \<and>
    rb_iAckedPktsCount b' = rb_iAckedPktsCount b \<and> rb_tsbpd b' = rb_tsbpd b"
  using assms
proof (induction us arbitrary: k rs out b)
  case Nil
  note i = Nil(1)
  have n0: "rb_iNotch b = 0" using Nil(6) by (simp add: notch_ok_def)
  have "slot_pos b k = rb_iLastAckPos b" using Nil(3) lastack_slot [OF i] by simp
  then have "readBuffer_loop now (rb_iLastAckPos b) (map (slot_pos b) [k ..< getRcvDataSize b]) rs out b = (True, slot_pos b (k + 0), rs, out, b)"
    using Nil(3) by simp
  then show ?case using i n0 by (intro exI [of _ 0] exI [of _ b]) (simp add: notch_ok_def)
next
  case (Cons u us)
  note i = Cons.prems(1) and mode = Cons.prems(2)
  note D = rb_invD [OF i]
  have kd: "k < getRcvDataSize b" and k: "k < rb_size b" using Cons.prems(3) D(4) by simp_all
  have su: "slots b ! k = Some u" using Cons.prems(4) [of 0] by simp
  have at: "unit_at b (slot_pos b k) = Some u" using su slots_nth [OF k] by simp
  let ?p = "payload (un_Packet u)" and ?N = "rb_iNotch b"
  have pl: "length ?p = getLength (un_Packet u)" using Cons.prems(5) by (simp add: sound_unit_def)
  have nl: "?N \<le> length ?p" using Cons.prems(6) pl by (simp add: notch_ok_def)
  have up: "[k ..< getRcvDataSize b] = k # [Suc k ..< getRcvDataSize b]" using kd by (rule upt_conv_Cons)
  have dm: "drop ?N (message_bytes (u # us)) = drop ?N ?p @ message_bytes us" using nl by simp
  consider (zero) "rs = 0" | (part) "0 < rs" "rs < length ?p - ?N" | (all) "0 < rs" "length ?p - ?N \<le> rs" by linarith
  then show ?case
  proof cases
    case zero
    then have "readBuffer_loop now (rb_iLastAckPos b) (map (slot_pos b) [k ..< getRcvDataSize b]) rs out b = (True, slot_pos b (k + 0), 0, out, b)"
      unfolding up by simp
    then show ?thesis using i zero Cons.prems(6) by (intro exI [of _ 0] exI [of _ b]) simp
  next
    case part
    let ?b = "b\<lparr>rb_iNotch := ?N + rs\<rparr>"
    have "readBuffer_loop now (rb_iLastAckPos b) (map (slot_pos b) [k ..< getRcvDataSize b]) rs out b =
        (True, slot_pos b (k + 0), 0, out @ take rs (drop ?N ?p), ?b)"
      unfolding up using at mode part pl by (simp add: Let_def)
    then show ?thesis using i part pl unfolding dm
      by (intro exI [of _ 0] exI [of _ ?b]) (auto simp: notch_ok_def add.commute)
  next
    case all
    let ?f = "(free_at (slot_pos b k) b)\<lparr>rb_iNotch := 0\<rparr>" and ?L = "length ?p - ?N"
    have f: "rb_inv ?f" "slots ?f = (slots b)[k := None]" using free_slot [OF i k] by simp_all
    have ff: "slot_pos ?f = slot_pos b" "rb_size ?f = rb_size b" "rb_iStartPos ?f = rb_iStartPos b" "getRcvDataSize ?f = getRcvDataSize b"
      "rb_iMaxPos ?f = rb_iMaxPos b" "rb_iLastAckPos ?f = rb_iLastAckPos b" "rb_tsbpd ?f = rb_tsbpd b"
      "rb_iAckedPktsCount ?f = rb_iAckedPktsCount b" "rb_iNotch ?f = 0"
      by simp_all (simp_all add: free_at_def split: option.split)
    have st: "readBuffer_loop now (rb_iLastAckPos b) (map (slot_pos b) [k ..< getRcvDataSize b]) rs out b =
        readBuffer_loop now (rb_iLastAckPos b) (map (slot_pos b) [Suc k ..< getRcvDataSize b]) (rs - ?L) (out @ drop ?N ?p) ?f"
    proof -
      have "(if getLength (un_Packet u) - ?N > rs then rs else getLength (un_Packet u) - ?N) = ?L" using all pl by auto
      moreover have "rs > ?L \<or> rs = ?L" using all by auto
      ultimately show ?thesis unfolding up using at mode all pl by (simp add: Let_def)
    qed
    have "\<And>j. j < length us \<Longrightarrow> slots ?f ! (Suc k + j) = Some (us ! j)" using f(2) Cons.prems(4) [of "Suc j" for j] by simp
    from Cons.IH [OF f(1) _ _ this, of "rs - ?L" "out @ drop ?N ?p"] mode Cons.prems(3,5) ff obtain n b' where
      b: "readBuffer_loop now (rb_iLastAckPos b) (map (slot_pos b) [Suc k ..< getRcvDataSize b]) (rs - ?L) (out @ drop ?N ?p) ?f =
        (True, slot_pos b (Suc k + n), rs - ?L - length (message_bytes us), (out @ drop ?N ?p) @ take (rs - ?L) (message_bytes us), b')"
      "n \<le> length us" "rb_inv b'" "slots b' = take (Suc k) (slots ?f) @ replicate n None @ drop (Suc k + n) (slots ?f)"
      "notch_ok (rb_iNotch b') (drop n us)" "drop (rb_iNotch b') (message_bytes (drop n us)) = drop (rs - ?L) (message_bytes us)"
      "rb_iStartPos b' = rb_iStartPos b" "rb_size b' = rb_size b" "getRcvDataSize b' = getRcvDataSize b" "rb_iMaxPos b' = rb_iMaxPos b"
      "rb_iAckedPktsCount b' = rb_iAckedPktsCount b" "rb_tsbpd b' = rb_tsbpd b"
        by auto
    have "take (Suc k) ((slots b)[k := None]) @ xs = take k (slots b) @ None # xs" for xs
      using k by (simp add: take_Suc_conv_app_nth)
    then show ?thesis using b(2-) f(2) all unfolding dm st b(1)
      by (intro exI [of _ "Suc n"] exI [of _ b']) simp
  qed
qed

definition rb_stream :: "CRcvBuffer \<Rightarrow> 8 word list" where
  "rb_stream b = drop (rb_iNotch b) (message_bytes (List.map_filter id (rb_acked b)))"

text \<open>Every acknowledged slot holds a unit, and the notch lies in the first one.\<close>

definition stream_ok :: "CRcvBuffer \<Rightarrow> bool" where
  "stream_ok b \<longleftrightarrow> rb_inv b \<and> (\<exists>us. rb_acked b = map Some us \<and> (\<forall>u\<in>set us. sound_unit u) \<and> notch_ok (rb_iNotch b) us)"

lemma map_filter_Some: "List.map_filter id (map Some us) = us"
  by (induction us) (simp_all add: map_filter_simps)

lemma readBuffer_spec:
  assumes "stream_ok b" "\<not> tp_bTsbPdMode (rb_tsbpd b)"
  shows "\<exists>b'. readBuffer now len b = (Some (take len (rb_stream b)), b') \<and> stream_ok b' \<and>
    rb_stream b' = drop len (rb_stream b) \<and> rb_pending b' = rb_pending b \<and>
    rb_iAckedPktsCount b' = rb_iAckedPktsCount b - 1 \<and> rb_size b' = rb_size b \<and> rb_tsbpd b' = rb_tsbpd b"
proof -
  obtain us where us: "rb_acked b = map Some us" "\<forall>u\<in>set us. sound_unit u" "notch_ok (rb_iNotch b) us" and i: "rb_inv b"
    using assms(1) by (auto simp: stream_ok_def)
  note D = rb_invD [OF i]
  have st: "rb_stream b = drop (rb_iNotch b) (message_bytes us)" by (simp add: rb_stream_def us map_filter_Some)
  have len: "length us = getRcvDataSize b" using arg_cong [OF us(1), of length] i by simp
  have sl: "slots b ! (0 + j) = Some (us ! j)" if "j < length us" for j
  proof -
    have "slots b ! j = rb_acked b ! j" using that len by (simp add: rb_acked_def)
    then show ?thesis using that us(1) by simp
  qed
  from readBuffer_loop_spec [OF i assms(2) _ sl us(2,3), of now len "[]"] len obtain n e where
    e: "readBuffer_loop now (rb_iLastAckPos b) (map (slot_pos b) [0 ..< getRcvDataSize b]) len [] b =
        (True, slot_pos b n, len - length (rb_stream b), take len (rb_stream b), e)"
      "n \<le> length us" "rb_inv e" "slots e = replicate n None @ drop n (slots b)"
      "notch_ok (rb_iNotch e) (drop n us)" "drop (rb_iNotch e) (message_bytes (drop n us)) = drop len (rb_stream b)"
      "rb_iStartPos e = rb_iStartPos b" "rb_size e = rb_size b" "getRcvDataSize e = getRcvDataSize b" "rb_iMaxPos e = rb_iMaxPos b"
      "rb_iAckedPktsCount e = rb_iAckedPktsCount b" "rb_tsbpd e = rb_tsbpd b"
    unfolding st by auto
  let ?e = "e\<lparr>rb_iStartPos := (rb_iStartPos e + n) mod rb_size e\<rparr>"
  define b' where "b' = (countBytes (- 1) (- (int len - int (len - length (rb_stream b)))) True e)\<lparr>rb_iStartPos := slot_pos b n\<rparr>"
  have p: "rb_inv ?e" "getRcvDataSize ?e = getRcvDataSize b - n" "slots ?e = drop n (slots b) @ replicate n None"
    using pass_slots [of e n] e(2-) len D(4) by (simp_all add: nth_append)
  have c: "ring b' = ring ?e" "rb_iStartPos b' = rb_iStartPos ?e" "rb_iLastAckPos b' = rb_iLastAckPos ?e" "rb_iMaxPos b' = rb_iMaxPos ?e"
    "rb_pool b' = rb_pool ?e" using e(7,8) by (simp_all add: b'_def ring_def slot_pos_def)
  note cg = rb_inv_cong [OF c]
  have ac: "rb_acked b' = map Some (drop n us)"
  proof -
    have "rb_acked ?e = take (getRcvDataSize b - n) (drop n (slots b))" using p(2,3) e(2) len D(4) by (simp add: rb_acked_def)
    also have "\<dots> = drop n (rb_acked b)" by (simp add: rb_acked_def drop_take)
    finally show ?thesis using us(1) cg(3) by (simp add: drop_map)
  qed
  have nb: "rb_iNotch b' = rb_iNotch e" by (simp add: b'_def)
  have "readBuffer now len b = (Some (take len (rb_stream b)), b')"
    using e(1) cyc_acked [OF i] by (simp add: readBuffer_def b'_def)
  moreover have "stream_ok b'"
    unfolding stream_ok_def using cg(1) p(1) ac e(5) us(2) nb by (auto intro!: exI [of _ "drop n us"] dest: in_set_dropD)
  moreover have "rb_stream b' = drop len (rb_stream b)" using e(6) nb by (simp add: rb_stream_def ac map_filter_Some)
  moreover have "rb_pending b' = rb_pending b"
    unfolding cg(4) using p(2,3) e(2,10) len D(4) by (simp add: rb_pending_def drop_append add.commute)
  moreover have "rb_iAckedPktsCount b' = rb_iAckedPktsCount b - 1" using e(11) by (simp add: b'_def countBytes_def Let_def)
  moreover have "rb_size b' = rb_size b" "rb_tsbpd b' = rb_tsbpd b" using e(8,12) by (simp_all add: b'_def countBytes_def Let_def)
  ultimately show ?thesis by blast
qed

text \<open>
  C18. Reading a stream returns exactly the next bytes of the acknowledged packets, split as the application asks,
  also in the middle of a packet; the rest of the stream follows with the next read, and the packets that
  wait behind a gap are not touched.
\<close>
theorem readBuffer_stream:
  assumes "stream_ok b" "\<not> tp_bTsbPdMode (rb_tsbpd b)"
  shows "\<exists>b'. readBuffer now len b = (Some (take len (rb_stream b)), b') \<and> stream_ok b' \<and>
    rb_stream b' = drop len (rb_stream b) \<and> rb_pending b' = rb_pending b \<and>
    rb_iAckedPktsCount b' = rb_iAckedPktsCount b - 1"
  using readBuffer_spec [OF assms] by blast

theorem readBuffer_stream_witness:
  "\<exists>b'. readBuffer 0 4 buffer_demo = (Some [1, 2, 3, 4], b') \<and> rb_stream b' = [5, 6]"
proof -
  note o = buffer_demo_ok
  have "stream_ok buffer_demo"
    unfolding stream_ok_def using o
    by (auto simp: notch_ok_def intro!: exI [of _ "[\<lparr>un_Packet = packet_of PB_FIRST [1, 2], un_iFlag = GOOD\<rparr>,
      \<lparr>un_Packet = packet_of PB_SUBSEQUENT [3], un_iFlag = GOOD\<rparr>, \<lparr>un_Packet = packet_of PB_LAST [4, 5], un_iFlag = GOOD\<rparr>,
      \<lparr>un_Packet = packet_of PB_SOLO [6], un_iFlag = GOOD\<rparr>]"])
  moreover have "rb_stream buffer_demo = [1, 2, 3, 4, 5, 6]"
    by (simp add: rb_stream_def o map_filter_simps message_bytes_def)
  ultimately show ?thesis using readBuffer_stream [of buffer_demo 0 4] o by auto
qed

theorem readMsg_whole_witness:
  "\<exists>mc' b'. readMsg (\<lambda>_. 0) 100 \<lparr>mc_srctime = 0, mc_pktseq = 0, mc_msgno = 0\<rparr> buffer_demo = Some ([1, 2, 3, 4, 5], mc', b') \<and>
     rb_acked b' = [Some \<lparr>un_Packet = packet_of PB_SOLO [6], un_iFlag = GOOD\<rparr>]"
proof -
  let ?us = "[\<lparr>un_Packet = packet_of PB_FIRST [1, 2], un_iFlag = GOOD\<rparr>,
      \<lparr>un_Packet = packet_of PB_SUBSEQUENT [3], un_iFlag = GOOD\<rparr>, \<lparr>un_Packet = packet_of PB_LAST [4, 5], un_iFlag = GOOD\<rparr>]"
  note o = buffer_demo_ok
  have "whole_message ?us"
    unfolding whole_message_def
    by (rule disjI2, intro exI [of _ "\<lparr>un_Packet = packet_of PB_FIRST [1, 2], un_iFlag = GOOD\<rparr>"]
        exI [of _ "[\<lparr>un_Packet = packet_of PB_SUBSEQUENT [3], un_iFlag = GOOD\<rparr>]"]
        exI [of _ "\<lparr>un_Packet = packet_of PB_LAST [4, 5], un_iFlag = GOOD\<rparr>"]) (simp add: bound_of_def)
  moreover have "rb_acked buffer_demo = map Some ?us @ [Some \<lparr>un_Packet = packet_of PB_SOLO [6], un_iFlag = GOOD\<rparr>]"
    by (simp add: o)
  ultimately show ?thesis
    using readMsg_whole [of buffer_demo ?us, where len = 100 and now = "\<lambda>_. 0" and mc = "\<lparr>mc_srctime = 0, mc_pktseq = 0, mc_msgno = 0\<rparr>"] o
    by fastforce
qed

theorem readMsg_oversized_witness:
  "\<exists>mc' b'. readMsg (\<lambda>_. 0) 100 \<lparr>mc_srctime = 0, mc_pktseq = 0, mc_msgno = 0\<rparr>
     (buffer_of [packet_of PB_FIRST [1], packet_of PB_SUBSEQUENT [2]] 1) = Some ([], mc', b')"
proof -
  let ?b = "buffer_of [packet_of PB_FIRST [1], packet_of PB_SUBSEQUENT [2]] 1"
  note o = buffer_of_ok [of "[packet_of PB_FIRST [1], packet_of PB_SUBSEQUENT [2]]" 1, simplified]
  have z: "rb_size ?b = 3" by (simp add: buffer_of_def)
  have "(\<exists>mc' b'. readMsg (\<lambda>_. 0) 100 \<lparr>mc_srctime = 0, mc_pktseq = 0, mc_msgno = 0\<rparr> ?b = Some ([], mc', b') \<and>
      rb_acked b' = rb_acked ?b \<and> rb_inv b') \<and> addData 0 0 ?b = (- 1, ?b)"
    by (rule readMsg_oversized [of _ "\<lparr>un_Packet = packet_of PB_FIRST [1], un_iFlag = GOOD\<rparr>" "[\<lparr>un_Packet = packet_of PB_SUBSEQUENT [2], un_iFlag = GOOD\<rparr>]"])
      (use o z in \<open>simp_all add: bound_of_def\<close>)
  then show ?thesis by blast
qed

theorem readMsg_tsbpd_witness:
  "(\<exists>mc' b'. readMsg (\<lambda>_. 5000) 10 \<lparr>mc_srctime = 0, mc_pktseq = 0, mc_msgno = 0\<rparr>
      (buffer_demo\<lparr>rb_tsbpd := setRcvTsbPdMode 1000 120 tsbpd_new\<rparr>) = Some ([1, 2], mc', b') \<and> mc_srctime mc' = 1120 \<and> length (rb_acked b') = 3) \<and>
   (\<exists>mc' b'. readMsg (\<lambda>_. 1100) 10 \<lparr>mc_srctime = 0, mc_pktseq = 0, mc_msgno = 0\<rparr>
      (buffer_demo\<lparr>rb_tsbpd := setRcvTsbPdMode 1000 120 tsbpd_new\<rparr>) = Some ([], mc', b') \<and> length (rb_acked b') = 4)"
proof -
  let ?b = "buffer_demo\<lparr>rb_tsbpd := setRcvTsbPdMode 1000 120 tsbpd_new\<rparr>"
  let ?mc = "\<lparr>mc_srctime = 0, mc_pktseq = 0, mc_msgno = 0\<rparr>" and ?u = "\<lparr>un_Packet = packet_of PB_FIRST [1, 2], un_iFlag = GOOD\<rparr>"
  have h: "rb_inv ?b" "tp_bTsbPdMode (rb_tsbpd ?b)" using buffer_demo_ok(1) by (simp_all add: setRcvTsbPdMode_def)
  have a: "rb_acked ?b ! 0 = Some ?u" "length (rb_acked ?b) = 4" using buffer_demo_ok by simp_all
  have c: "getMsgCryptoFlags (packet_of PB_FIRST [1, 2]) = keyspec_code EK_NOENC" "packet_time (packet_of PB_FIRST [1, 2]) = 0"
    "payload (packet_of PB_FIRST [1, 2]) = [1, 2]" by code_simp+
  have t: "play_time (rb_acked ?b) (rb_tsbpd ?b) 0 = 1120"
    using a(1) c(2) by (simp add: play_time_def tsbpd_after_def getPktTsbPdTime_def getTsbPdTimeBase_def setRcvTsbPdMode_def tsbpd_new_def drift_new_def MAX_TIMESTAMP_def TSBPD_WRAP_PERIOD_def)
  have n: "\<not> passed_over now (slot_pos ?b) (rb_tsbpd ?b) (rb_acked ?b) 0" for now using a(1) c(1) by (simp add: passed_over_def)
  have k: "k = 0" if "\<forall>j < k. passed_over now (slot_pos ?b) (rb_tsbpd ?b) (rb_acked ?b) j" for k now using that n by (metis not_gr_zero)
  from readMsg_tsbpd [OF h, of "\<lambda>_. 5000" 10 ?mc] k [of _ "\<lambda>_. 5000"] obtain out mc' b' where
    "readMsg (\<lambda>_. 5000) 10 ?mc ?b = Some (out, mc', b')" "out = [1, 2]" "mc_srctime mc' = 1120" "rb_acked b' = drop 1 (rb_acked ?b)"
    using a c(1,3) t by (elim exE conjE) (simp only: if_False list.size One_nat_def, force)
  moreover from readMsg_tsbpd [OF h, of "\<lambda>_. 1100" 10 ?mc] k [of _ "\<lambda>_. 1100"] obtain out mc2 b2 where
    "readMsg (\<lambda>_. 1100) 10 ?mc ?b = Some (out, mc2, b2)" "out = []" "rb_acked b2 = drop 0 (rb_acked ?b)"
    using a c(1,3) t by (elim exE conjE) (simp only: if_False list.size One_nat_def, force)
  ultimately show ?thesis using a(2) by auto
qed

end
