(* ===== verification/SndBuffer.thy ===== *)
theory SndBuffer
  imports Packet "HOL-Library.Multiset"
begin

text \<open>
  The sender buffer (\<open>CSndBuffer\<close>, \<open>buffer.cpp\<close>). The blocks are a circular linked list: a block is known by
  its number, \<open>sb_next\<close> is \<open>m_pNext\<close>, \<open>sb_blk\<close> the content, and numbers from \<open>sb_fresh\<close> on are not allocated yet.
  The physical buffers are not modelled apart from the bytes that a block holds; allocation does not fail.
  \<open>now\<close> is the clock. The abstract view is a queue of blocks with the number of those already sent.
\<close>

record Block =
  bk_data :: "8 word list"
  bk_iLength :: int
  bk_iMsgNoBitset :: "32 word"
  bk_ullOriginTime_us :: int
  bk_ullSourceTime_us :: int
  bk_iTTL :: int

definition bk_getMsgSeq :: "Block \<Rightarrow> 32 word" where
  "bk_getMsgSeq k = bk_iMsgNoBitset k AND MSGNO_SEQ_mask"

definition blank_block :: Block where
  "blank_block = \<lparr>bk_data = [], bk_iLength = 0, bk_iMsgNoBitset = 0, bk_ullOriginTime_us = 0, bk_ullSourceTime_us = 0, bk_iTTL = 0\<rparr>"

record CSndBuffer =
  sb_next :: "nat \<Rightarrow> nat"
  sb_blk :: "nat \<Rightarrow> Block"
  sb_fresh :: nat
  sb_pFirstBlock :: nat
  sb_pCurrBlock :: nat
  sb_pLastBlock :: nat
  sb_unitsize :: nat
  sb_iNextMsgNo :: "32 word"
  sb_iSize :: nat
  sb_iMSS :: nat
  sb_iCount :: int
  sb_iBytesCount :: int
  sb_ullLastOriginTime_us :: int
  sb_LastSamplingTime :: int
  sb_iCountMAvg :: int
  sb_iBytesCountMAvg :: int
  sb_TimespanMAvg :: int
  sb_iInRatePktsCount :: int
  sb_iInRateBytesCount :: int
  sb_InRateStartTime :: int
  sb_InRatePeriod :: int
  sb_iInRateBps :: int

definition INPUTRATE_FAST_START_US :: int where "INPUTRATE_FAST_START_US = 500000"
definition INPUTRATE_RUNNING_US :: int where "INPUTRATE_RUNNING_US = 1000000"
definition INPUTRATE_MAX_PACKETS :: int where "INPUTRATE_MAX_PACKETS = 2000"
definition INPUTRATE_INITIAL_BYTESPS :: int where "INPUTRATE_INITIAL_BYTESPS = 1000000000 div 8"
definition SRT_DATA_HDR_SIZE :: int where "SRT_DATA_HDR_SIZE = 44"

definition sb_new :: "nat \<Rightarrow> nat \<Rightarrow> CSndBuffer" where
  "sb_new sz mss = \<lparr>sb_next = (\<lambda>i. (i + 1) mod sz), sb_blk = (\<lambda>_. blank_block), sb_fresh = sz,
     sb_pFirstBlock = 0, sb_pCurrBlock = 0, sb_pLastBlock = 0, sb_unitsize = sz, sb_iNextMsgNo = 1, sb_iSize = sz,
     sb_iMSS = mss, sb_iCount = 0, sb_iBytesCount = 0, sb_ullLastOriginTime_us = 0, sb_LastSamplingTime = 0,
     sb_iCountMAvg = 0, sb_iBytesCountMAvg = 0, sb_TimespanMAvg = 0, sb_iInRatePktsCount = 0, sb_iInRateBytesCount = 0,
     sb_InRateStartTime = 0, sb_InRatePeriod = INPUTRATE_FAST_START_US, sb_iInRateBps = INPUTRATE_INITIAL_BYTESPS\<rparr>"

subsection \<open>Statistics\<close>

definition updateInputRate :: "int \<Rightarrow> int \<Rightarrow> int \<Rightarrow> CSndBuffer \<Rightarrow> CSndBuffer" where
  "updateInputRate time pkts bytes s =
     (if sb_InRatePeriod s = 0 then s
      else if sb_InRateStartTime s = 0 then s\<lparr>sb_InRateStartTime := time\<rparr>
      else
        (let s = s\<lparr>sb_iInRatePktsCount := sb_iInRatePktsCount s + pkts, sb_iInRateBytesCount := sb_iInRateBytesCount s + bytes\<rparr>;
             early_update = (sb_InRatePeriod s < INPUTRATE_RUNNING_US \<and> sb_iInRatePktsCount s > INPUTRATE_MAX_PACKETS);
             period_us = u64 (time - sb_InRateStartTime s)
         in if early_update \<or> period_us > sb_InRatePeriod s then
              s\<lparr>sb_iInRateBps := i32 (u64 (i64 ((sb_iInRateBytesCount s + sb_iInRatePktsCount s * SRT_DATA_HDR_SIZE) * 1000000)) div period_us),
                sb_iInRatePktsCount := 0, sb_iInRateBytesCount := 0, sb_InRateStartTime := time,
                sb_InRatePeriod := INPUTRATE_RUNNING_US\<rparr>
            else s))"

definition sb_getCurrBufSize :: "CSndBuffer \<Rightarrow> int \<times> int \<times> int" where
  "sb_getCurrBufSize s =
     (sb_iCount s, sb_iBytesCount s,
      if 0 < sb_iCount s
      then i32 (u64 (sb_ullLastOriginTime_us s - bk_ullOriginTime_us (sb_blk s (sb_pFirstBlock s))) div 1000) + 1 else 0)"

definition updAvgBufSize :: "int \<Rightarrow> CSndBuffer \<Rightarrow> CSndBuffer" where
  "updAvgBufSize now s =
     (let elapsed_ms = u64 (now - sb_LastSamplingTime s) div 1000
      in if 1000000 div 40 div 1000 > elapsed_ms then s
         else
           (let (count, bytescount, instspan) = sb_getCurrBufSize s
            in if 1000 < elapsed_ms then
                 s\<lparr>sb_iCountMAvg := count, sb_iBytesCountMAvg := bytescount, sb_TimespanMAvg := instspan, sb_LastSamplingTime := now\<rparr>
               else
                 (let avg = (\<lambda>x. i32 (u64 (x * (1000 - elapsed_ms) + x * elapsed_ms) div 1000))
                  in s\<lparr>sb_iCountMAvg := avg count, sb_iBytesCountMAvg := avg bytescount, sb_TimespanMAvg := avg instspan,
                       sb_LastSamplingTime := now\<rparr>)))"

subsection \<open>Adding data\<close>

text \<open>The new blocks are linked to each other and put behind \<open>m_pLastBlock\<close>.\<close>

definition sb_increase :: "CSndBuffer \<Rightarrow> CSndBuffer" where
  "sb_increase s =
     (let n = sb_unitsize s; f = sb_fresh s; l = sb_pLastBlock s; nx = sb_next s
      in s\<lparr>sb_next := (\<lambda>i. if i = l then f else if f \<le> i \<and> i + 1 < f + n then i + 1
                            else if f \<le> i \<and> i + 1 = f + n then nx l else nx i),
           sb_blk := (\<lambda>i. if f \<le> i then blank_block else sb_blk s i),
           sb_fresh := f + n, sb_iSize := sb_iSize s + n\<rparr>)"

text \<open>\<open>while (size + m_iCount >= m_iSize) increase();\<close> with fuel; \<open>sb_grow_enough\<close> shows that the call below has enough.\<close>

fun sb_grow :: "nat \<Rightarrow> nat \<Rightarrow> CSndBuffer \<Rightarrow> CSndBuffer option" where
  "sb_grow 0 sz s = None"
| "sb_grow (Suc k) sz s = (if int sz + sb_iCount s \<ge> int (sb_iSize s) then sb_grow k sz (sb_increase s) else Some s)"

definition packets_of :: "nat \<Rightarrow> nat \<Rightarrow> nat" where
  "packets_of mss len = len div mss + (if len mod mss \<noteq> 0 then 1 else 0)"

definition bound_bits :: "nat \<Rightarrow> nat \<Rightarrow> 32 word" where
  "bound_bits i sz = (if i = 0 then PacketBoundaryBits PB_FIRST else 0) OR (if i = sz - 1 then PacketBoundaryBits PB_LAST else 0)"

definition block_of :: "8 word list \<Rightarrow> int \<Rightarrow> bool \<Rightarrow> int \<Rightarrow> int \<Rightarrow> nat \<Rightarrow> 32 word \<Rightarrow> nat \<Rightarrow> nat \<Rightarrow> Block" where
  "block_of data ttl order srctime time mss msgno sz i =
     (let pktlen = min (length data - i * mss) mss
      in \<lparr>bk_data = take pktlen (drop (i * mss) data), bk_iLength = int pktlen,
          bk_iMsgNoBitset = msgno OR (if order then BitsetMask 29 29 else 0) OR bound_bits i sz,
          bk_ullOriginTime_us = time, bk_ullSourceTime_us = srctime, bk_iTTL = ttl\<rparr>)"

text \<open>The blocks are written one after the other from \<open>p\<close> on; the block behind the last one is returned.\<close>

fun write_blocks :: "(nat \<Rightarrow> Block) \<Rightarrow> nat \<Rightarrow> nat \<Rightarrow> nat \<Rightarrow> CSndBuffer \<Rightarrow> nat \<times> CSndBuffer" where
  "write_blocks f 0 i p s = (p, s)"
| "write_blocks f (Suc n) i p s = write_blocks f n (i + 1) (sb_next s p) (s\<lparr>sb_blk := (sb_blk s)(p := f i)\<rparr>)"

definition next_msgno :: "32 word \<Rightarrow> 32 word" where
  "next_msgno m = (if m + 1 = MSGNO_SEQ_mask then 1 else m + 1)"

definition addBuffer :: "8 word list \<Rightarrow> int \<Rightarrow> bool \<Rightarrow> int \<Rightarrow> int \<Rightarrow> CSndBuffer \<Rightarrow> (32 word \<times> CSndBuffer) option" where
  "addBuffer data ttl order srctime time s =
     (let sz = packets_of (sb_iMSS s) (length data)
      in do {
           s \<leftarrow> sb_grow (sz + nat (sb_iCount s) + 2) sz s;
           let msgno = sb_iNextMsgNo s;
           let (p, s) = write_blocks (block_of data ttl order srctime time (sb_iMSS s) msgno sz) sz 0 (sb_pLastBlock s) s;
           let s = s\<lparr>sb_pLastBlock := p, sb_iCount := sb_iCount s + int sz, sb_iBytesCount := sb_iBytesCount s + int (length data),
             sb_ullLastOriginTime_us := time\<rparr>;
           let s = updAvgBufSize time (updateInputRate time (int sz) (int (length data)) s);
           Some (msgno, s\<lparr>sb_iNextMsgNo := next_msgno (sb_iNextMsgNo s)\<rparr>)
         })"

subsection \<open>Sending, acknowledging, dropping\<close>

text \<open>\<open>kflgs\<close> is the key of the encryption, or \<open>None\<close> for -1. \<open>None\<close>: no data to read.\<close>

definition sb_readData :: "EncryptionKeySpec option \<Rightarrow> CSndBuffer \<Rightarrow> (8 word list \<times> 32 word \<times> int) option \<times> CSndBuffer" where
  "sb_readData kflgs s =
     (if sb_pCurrBlock s = sb_pLastBlock s then (None, s)
      else
        (let c = sb_pCurrBlock s; k = sb_blk s c; d = take (nat (bk_iLength k)) (bk_data k);
             (d, k) = (case kflgs of None \<Rightarrow> ([], k)
               | Some e \<Rightarrow> (d, k\<lparr>bk_iMsgNoBitset := bk_iMsgNoBitset k OR EncryptionKeyBits e\<rparr>));
             srctime = (if bk_ullSourceTime_us k \<noteq> 0 then bk_ullSourceTime_us k else bk_ullOriginTime_us k)
         in (Some (d, bk_iMsgNoBitset k, srctime), s\<lparr>sb_blk := (sb_blk s)(c := k), sb_pCurrBlock := sb_next s c\<rparr>)))"

text \<open>The loop over the rest of a stale message; fuel for the case that every block carries its number.\<close>

fun skip_message :: "nat \<Rightarrow> 32 word \<Rightarrow> nat \<Rightarrow> bool \<Rightarrow> nat \<Rightarrow> CSndBuffer \<Rightarrow> (nat \<times> CSndBuffer) option" where
  "skip_message 0 msgno p move msglen s = None"
| "skip_message (Suc n) msgno p move msglen s =
     (if msgno = bk_getMsgSeq (sb_blk s p) then
        (let move = (move \<or> p = sb_pCurrBlock s); p = sb_next s p
         in skip_message n msgno p move (msglen + 1) (if move then s\<lparr>sb_pCurrBlock := p\<rparr> else s))
      else Some (msglen, s))"

datatype rexmit_data =
    Rexmit "8 word list" "32 word" int
  | Stale "32 word" nat

definition sb_readData_at :: "int \<Rightarrow> nat \<Rightarrow> CSndBuffer \<Rightarrow> (rexmit_data \<times> CSndBuffer) option" where
  "sb_readData_at now offset s =
     (let p = (sb_next s ^^ offset) (sb_pFirstBlock s); k = sb_blk s p
      in if bk_iTTL k \<ge> 0 \<and> u64 (now - bk_ullOriginTime_us k) div 1000 > bk_iTTL k then
           (let msgno = bk_getMsgSeq k
            in do {
                 (msglen, s) \<leftarrow> skip_message (sb_iSize s) msgno (sb_next s p) False 1 s;
                 Some (Stale msgno msglen, s)
               })
         else
           Some (Rexmit (take (nat (bk_iLength k)) (bk_data k)) (bk_iMsgNoBitset k)
             (if bk_ullSourceTime_us k \<noteq> 0 then bk_ullSourceTime_us k else bk_ullOriginTime_us k), s))"

fun sb_ack_loop :: "nat \<Rightarrow> bool \<Rightarrow> CSndBuffer \<Rightarrow> bool \<times> CSndBuffer" where
  "sb_ack_loop 0 move s = (move, s)"
| "sb_ack_loop (Suc n) move s =
     sb_ack_loop n (move \<or> sb_pFirstBlock s = sb_pCurrBlock s)
       (s\<lparr>sb_iBytesCount := sb_iBytesCount s - bk_iLength (sb_blk s (sb_pFirstBlock s)),
          sb_pFirstBlock := sb_next s (sb_pFirstBlock s)\<rparr>)"

definition sb_ackData :: "int \<Rightarrow> nat \<Rightarrow> CSndBuffer \<Rightarrow> CSndBuffer" where
  "sb_ackData now offset s =
     (let (move, s) = sb_ack_loop offset False s;
          s = (if move then s\<lparr>sb_pCurrBlock := sb_pFirstBlock s\<rparr> else s)
      in updAvgBufSize now (s\<lparr>sb_iCount := sb_iCount s - int offset\<rparr>))"

fun late_loop :: "nat \<Rightarrow> int \<Rightarrow> bool \<Rightarrow> int \<Rightarrow> int \<Rightarrow> CSndBuffer \<Rightarrow> bool \<times> int \<times> int \<times> CSndBuffer" where
  "late_loop 0 latetime move dpkts dbytes s = (move, dpkts, dbytes, s)"
| "late_loop (Suc n) latetime move dpkts dbytes s =
     (let f = sb_pFirstBlock s
      in if bk_ullOriginTime_us (sb_blk s f) < latetime then
           late_loop n latetime (move \<or> f = sb_pCurrBlock s) (dpkts + 1) (dbytes + bk_iLength (sb_blk s f))
             (s\<lparr>sb_pFirstBlock := sb_next s f\<rparr>)
         else (move, dpkts, dbytes, s))"

definition dropLateData :: "int \<Rightarrow> int \<Rightarrow> CSndBuffer \<Rightarrow> int \<times> int \<times> CSndBuffer" where
  "dropLateData now latetime s =
     (let (move, dpkts, dbytes, s) = late_loop (nat (sb_iCount s)) latetime False 0 0 s;
          s = (if move then s\<lparr>sb_pCurrBlock := sb_pFirstBlock s\<rparr> else s)
      in (dpkts, dbytes, updAvgBufSize now (s\<lparr>sb_iCount := sb_iCount s - dpkts, sb_iBytesCount := sb_iBytesCount s - dbytes\<rparr>)))"

subsection \<open>The queue behind the linked list\<close>

definition sb_ring :: "CSndBuffer \<Rightarrow> nat list \<Rightarrow> bool" where
  "sb_ring s xs \<longleftrightarrow> distinct xs \<and> length xs = sb_iSize s \<and> xs \<noteq> [] \<and> xs ! 0 = sb_pFirstBlock s \<and>
     (\<forall>i < length xs. sb_next s (xs ! i) = xs ! ((i + 1) mod length xs)) \<and> (\<forall>x\<in>set xs. x < sb_fresh s)"

definition sb_chain :: "CSndBuffer \<Rightarrow> nat list \<Rightarrow> Block list \<Rightarrow> nat \<Rightarrow> bool" where
  "sb_chain s xs q c \<longleftrightarrow> sb_ring s xs \<and> length q < length xs \<and> c \<le> length q \<and>
     sb_pLastBlock s = xs ! length q \<and> sb_pCurrBlock s = xs ! c \<and> (\<forall>i < length q. sb_blk s (xs ! i) = q ! i) \<and>
     0 < sb_unitsize s \<and> 0 < sb_iMSS s"

text \<open>The buffer holds the queue \<open>q\<close> of blocks, of which the first \<open>c\<close> have been sent.\<close>

definition sb_rep :: "CSndBuffer \<Rightarrow> Block list \<Rightarrow> nat \<Rightarrow> bool" where
  "sb_rep s q c \<longleftrightarrow> (\<exists>xs. sb_chain s xs q c) \<and> sb_iCount s = int (length q) \<and>
     sb_iBytesCount s = sum_list (map bk_iLength q)"

lemma sb_new_rep: "0 < sz \<Longrightarrow> 0 < mss \<Longrightarrow> sb_rep (sb_new sz mss) [] 0"
  unfolding sb_rep_def sb_chain_def sb_ring_def
  by (intro conjI exI [of _ "[0 ..< sz]"]) (auto simp: sb_new_def)

lemma sb_ring_cong:
  "sb_next s' = sb_next s \<Longrightarrow> sb_iSize s' = sb_iSize s \<Longrightarrow> sb_fresh s' = sb_fresh s \<Longrightarrow> sb_pFirstBlock s' = sb_pFirstBlock s \<Longrightarrow>
   sb_ring s' xs = sb_ring s xs"
  by (simp add: sb_ring_def)

lemma sb_chain_cong:
  assumes "sb_next s' = sb_next s" "sb_iSize s' = sb_iSize s" "sb_fresh s' = sb_fresh s" "sb_pFirstBlock s' = sb_pFirstBlock s"
    "sb_pLastBlock s' = sb_pLastBlock s" "sb_pCurrBlock s' = sb_pCurrBlock s" "sb_blk s' = sb_blk s" "sb_unitsize s' = sb_unitsize s"
    "sb_iMSS s' = sb_iMSS s"
  shows "sb_chain s' xs q c = sb_chain s xs q c"
  using assms by (simp add: sb_chain_def sb_ring_def)

lemma stats_fields [simp]:
  "sb_next (updAvgBufSize t s) = sb_next s" "sb_iSize (updAvgBufSize t s) = sb_iSize s" "sb_fresh (updAvgBufSize t s) = sb_fresh s"
  "sb_pFirstBlock (updAvgBufSize t s) = sb_pFirstBlock s" "sb_pLastBlock (updAvgBufSize t s) = sb_pLastBlock s"
  "sb_pCurrBlock (updAvgBufSize t s) = sb_pCurrBlock s" "sb_blk (updAvgBufSize t s) = sb_blk s" "sb_unitsize (updAvgBufSize t s) = sb_unitsize s"
  "sb_iMSS (updAvgBufSize t s) = sb_iMSS s" "sb_iCount (updAvgBufSize t s) = sb_iCount s" "sb_iBytesCount (updAvgBufSize t s) = sb_iBytesCount s"
  "sb_iNextMsgNo (updAvgBufSize t s) = sb_iNextMsgNo s"
  by (simp_all add: updAvgBufSize_def Let_def split_beta)

lemma rate_fields [simp]:
  "sb_next (updateInputRate t p n s) = sb_next s" "sb_iSize (updateInputRate t p n s) = sb_iSize s" "sb_fresh (updateInputRate t p n s) = sb_fresh s"
  "sb_pFirstBlock (updateInputRate t p n s) = sb_pFirstBlock s" "sb_pLastBlock (updateInputRate t p n s) = sb_pLastBlock s"
  "sb_pCurrBlock (updateInputRate t p n s) = sb_pCurrBlock s" "sb_blk (updateInputRate t p n s) = sb_blk s"
  "sb_unitsize (updateInputRate t p n s) = sb_unitsize s" "sb_iMSS (updateInputRate t p n s) = sb_iMSS s"
  "sb_iCount (updateInputRate t p n s) = sb_iCount s" "sb_iBytesCount (updateInputRate t p n s) = sb_iBytesCount s"
  "sb_iNextMsgNo (updateInputRate t p n s) = sb_iNextMsgNo s"
  by (simp_all add: updateInputRate_def Let_def)

lemma sb_increase_chain:
  assumes "sb_chain s xs q c"
  shows "\<exists>ys. sb_chain (sb_increase s) ys q c"
proof -
  let ?n = "length q" and ?u = "sb_unitsize s" and ?f = "sb_fresh s" and ?l = "sb_pLastBlock s"
  let ?k = "?n + 1" and ?s = "sb_increase s"
  let ?ys = "take ?k xs @ [?f ..< ?f + ?u] @ drop ?k xs"
  have r: "distinct xs" "length xs = sb_iSize s" "xs \<noteq> []" "xs ! 0 = sb_pFirstBlock s" "\<And>x. x \<in> set xs \<Longrightarrow> x < ?f"
    "\<And>i. i < length xs \<Longrightarrow> sb_next s (xs ! i) = xs ! ((i + 1) mod length xs)"
    and c: "?n < length xs" "c \<le> ?n" "?l = xs ! ?n" "sb_pCurrBlock s = xs ! c" "\<And>i. i < ?n \<Longrightarrow> sb_blk s (xs ! i) = q ! i" "0 < ?u" "0 < sb_iMSS s"
    using assms by (auto simp: sb_chain_def sb_ring_def)
  have len: "length ?ys = length xs + ?u" using c(1) by simp
  have old: "xs ! i < ?f" if "i < length xs" for i using r(5) that by simp
  have nth: "?ys ! i = (if i < ?k then xs ! i else if i < ?k + ?u then ?f + (i - ?k) else xs ! (i - ?u))" if "i < length ?ys" for i
    using that c(1) by (auto simp: nth_append min_def Suc_diff_Suc)
  have inj: "xs ! i = xs ! j \<longleftrightarrow> i = j" if "i < length xs" "j < length xs" for i j
    using nth_eq_iff_index_eq [OF r(1)] that by blast
  have nx: "sb_next ?s = (\<lambda>i. if i = ?l then ?f else if ?f \<le> i \<and> i + 1 < ?f + ?u then i + 1
      else if ?f \<le> i \<and> i + 1 = ?f + ?u then sb_next s ?l else sb_next s i)" by (simp add: sb_increase_def Let_def)
  have "sb_next ?s (?ys ! i) = ?ys ! ((i + 1) mod length ?ys)" if i: "i < length ?ys" for i
  proof -
    consider (a) "i < ?n" | (b) "i = ?n" | (c) "?n < i" "i + 1 < ?k + ?u" | (d) "i + 1 = ?k + ?u" "?n < i" | (e) "?k + ?u \<le> i" by linarith
    then show ?thesis
    proof cases
      case a
      then have "xs ! i \<noteq> ?l" "xs ! i < ?f" using c(1,3) inj [of i ?n] old [of i] by auto
      then show ?thesis using a nth [of i] nth [of "i + 1"] i len c(1) r(6) [of i] unfolding nx by simp
    next
      case b
      then show ?thesis using nth [of i] nth [of "i + 1"] i len c(1,3,6) unfolding nx by simp
    next
      case c: c
      define m where "m = i - ?k"
      have m: "i = ?k + m" "m + 1 < ?u" using c by (simp_all add: m_def)
      have "?ys ! i = ?f + m" using nth [OF i] m by simp
      moreover have "?f + m \<noteq> ?l" using old [of ?n] \<open>?n < length xs\<close> \<open>?l = xs ! ?n\<close> by simp
      moreover have "?ys ! (i + 1) = ?f + m + 1" using nth [of "i + 1"] m len \<open>?n < length xs\<close> by simp
      ultimately show ?thesis using m len \<open>?n < length xs\<close> unfolding nx by simp
    next
      case d
      have y: "?ys ! i = ?f + ?u - 1" using nth [OF i] d c(6) by simp
      moreover have "?f + ?u - 1 \<noteq> ?l" using old [of ?n] c(1,3,6) by linarith
      ultimately have "sb_next ?s (?ys ! i) = xs ! ((?n + 1) mod length xs)" unfolding nx using c(1,3,6) r(6) [of ?n] by auto
      also have "\<dots> = ?ys ! ((i + 1) mod length ?ys)"
      proof (cases "?k < length xs")
        case True
        then show ?thesis using nth [of "i + 1"] len d i by simp
      next
        case False
        then have "?k = length xs" using c(1) by simp
        then show ?thesis using nth [of 0] len d r(3) by simp
      qed
      finally show ?thesis .
    next
      case e
      have y: "?ys ! i = xs ! (i - ?u)" using nth [OF i] e by simp
      have iu: "i - ?u < length xs" "?n < i - ?u" using e i len by auto
      then have "xs ! (i - ?u) \<noteq> ?l" "xs ! (i - ?u) < ?f" using c(1,3) inj [of "i - ?u" ?n] old by auto
      then have "sb_next ?s (?ys ! i) = xs ! ((i - ?u + 1) mod length xs)" unfolding nx y using r(6) [OF iu(1)] by simp
      also have "\<dots> = ?ys ! ((i + 1) mod length ?ys)"
      proof (cases "i + 1 < length ?ys")
        case True
        then show ?thesis using nth [of "i + 1"] len e by (simp add: Suc_diff_le)
      next
        case False
        then have il: "i + 1 = length ?ys" using i by simp
        then have "i - ?u + 1 = length xs" using len e by linarith
        then have "(i - ?u + 1) mod length xs = 0" by simp
        moreover have "(i + 1) mod length ?ys = 0" using il by simp
        moreover have "?ys ! 0 = xs ! 0" using nth [of 0] len r(3) by simp
        ultimately show ?thesis by simp
      qed
      finally show ?thesis .
    qed
  qed
  moreover have "distinct ?ys"
  proof -
    have "set (take ?k xs) \<inter> set (drop ?k xs) = {}" by (rule set_take_disj_set_drop_if_distinct [OF r(1)]) simp
    moreover have "x < ?f" if "x \<in> set (take ?k xs) \<or> x \<in> set (drop ?k xs)" for x
      using that r(5) by (meson in_set_dropD in_set_takeD)
    ultimately show ?thesis using r(1) by fastforce
  qed
  moreover have "?ys ! 0 = sb_pFirstBlock s" using nth [of 0] len r(3,4) c(6) by simp
  moreover have "\<forall>x\<in>set ?ys. x < ?f + ?u" using r(5) by (force dest: in_set_takeD in_set_dropD)
  ultimately have "sb_ring ?s ?ys" using r(2,3) len by (simp add: sb_ring_def sb_increase_def Let_def)
  moreover have "?l = ?ys ! ?n" "sb_pCurrBlock s = ?ys ! c" using nth [of ?n] nth [of c] len c(1-4) by simp_all
  moreover have "sb_blk ?s (?ys ! i) = q ! i" if "i < ?n" for i
    using nth [of i] that len c(1,5) old [of i] by (simp add: sb_increase_def Let_def)
  ultimately have "sb_chain ?s ?ys q c"
    using c len by (simp add: sb_chain_def sb_increase_def Let_def)
  then show ?thesis by blast
qed

lemma sb_increase_fields [simp]:
  "sb_iCount (sb_increase s) = sb_iCount s" "sb_iBytesCount (sb_increase s) = sb_iBytesCount s" "sb_iSize (sb_increase s) = sb_iSize s + sb_unitsize s"
  "sb_unitsize (sb_increase s) = sb_unitsize s" "sb_iMSS (sb_increase s) = sb_iMSS s" "sb_iNextMsgNo (sb_increase s) = sb_iNextMsgNo s"
  by (simp_all add: sb_increase_def Let_def)

lemma sb_grow_enough:
  assumes "sb_rep s q c" "sz + length q < sb_iSize s + k"
  shows "\<exists>s'. sb_grow (Suc k) sz s = Some s' \<and> sb_rep s' q c \<and> sz + length q < sb_iSize s' \<and> sb_iMSS s' = sb_iMSS s \<and>
    sb_iNextMsgNo s' = sb_iNextMsgNo s"
  using assms
proof (induction k arbitrary: s)
  case 0
  then show ?case by (auto simp: sb_rep_def)
next
  case (Suc k)
  show ?case
  proof (cases "sz + length q < sb_iSize s")
    case True
    then show ?thesis using Suc.prems by (auto simp: sb_rep_def)
  next
    case False
    have r: "sb_rep (sb_increase s) q c" using Suc.prems(1) sb_increase_chain by (auto simp: sb_rep_def)
    have "0 < sb_unitsize s" using Suc.prems(1) by (auto simp: sb_rep_def sb_chain_def)
    then have "sz + length q < sb_iSize (sb_increase s) + k" using Suc.prems(2) by simp
    from Suc.IH [OF r this] have "\<exists>s'. sb_grow (Suc k) sz (sb_increase s) = Some s' \<and> sb_rep s' q c \<and> sz + length q < sb_iSize s' \<and>
      sb_iMSS s' = sb_iMSS s \<and> sb_iNextMsgNo s' = sb_iNextMsgNo s" by simp
    moreover have "sb_grow (Suc (Suc k)) sz s = sb_grow (Suc k) sz (sb_increase s)"
      using False Suc.prems(1) by (simp add: sb_rep_def)
    ultimately show ?thesis by (simp del: sb_grow.simps)
  qed
qed

lemma write_blocks_chain:
  assumes "sb_chain (s\<lparr>sb_pLastBlock := p\<rparr>) xs q c" "length q + n < length xs"
  shows "\<exists>b p'. write_blocks f n i p s = (p', s\<lparr>sb_blk := b\<rparr>) \<and>
    sb_chain (s\<lparr>sb_blk := b, sb_pLastBlock := p'\<rparr>) xs (q @ map f [i ..< i + n]) c"
  using assms
proof (induction n arbitrary: i p s q)
  case 0
  then show ?case by (intro exI [of _ "sb_blk s"] exI [of _ p]) simp
next
  case (Suc n)
  let ?s = "s\<lparr>sb_blk := (sb_blk s)(p := f i)\<rparr>"
  have ql: "length q < length xs" "Suc (length q) < length xs" and p: "p = xs ! length q" and d: "distinct xs"
    using Suc.prems by (auto simp: sb_chain_def sb_ring_def)
  have inj: "xs ! j = xs ! length q \<longleftrightarrow> j = length q" if "j < length xs" for j
    using nth_eq_iff_index_eq [OF d that ql(1)] .
  have nx: "sb_next s p = xs ! Suc (length q)" using Suc.prems(1) ql p by (simp add: sb_chain_def sb_ring_def)
  have "sb_chain (?s\<lparr>sb_pLastBlock := sb_next s p\<rparr>) xs (q @ [f i]) c"
    using Suc.prems(1) ql nx p inj by (auto simp: sb_chain_def sb_ring_def nth_append less_Suc_eq)
  from Suc.IH [OF this, of "i + 1"] Suc.prems(2) obtain b p' where
    "write_blocks f n (i + 1) (sb_next s p) ?s = (p', ?s\<lparr>sb_blk := b\<rparr>)"
    "sb_chain (?s\<lparr>sb_blk := b, sb_pLastBlock := p'\<rparr>) xs ((q @ [f i]) @ map f [i + 1 ..< i + 1 + n]) c" by auto
  moreover have "[i ..< i + Suc n] = i # [i + 1 ..< i + 1 + n]" by (simp add: upt_conv_Cons del: upt_Suc)
  ultimately show ?case by (intro exI [of _ b] exI [of _ p']) simp
qed

text \<open>The blocks that a call of \<open>addBuffer\<close> makes of its data.\<close>

definition blocks_of :: "8 word list \<Rightarrow> int \<Rightarrow> bool \<Rightarrow> int \<Rightarrow> int \<Rightarrow> nat \<Rightarrow> 32 word \<Rightarrow> Block list" where
  "blocks_of data ttl order srctime time mss msgno =
     map (block_of data ttl order srctime time mss msgno (packets_of mss (length data))) [0 ..< packets_of mss (length data)]"

lemma packets_of_0 [simp]: "packets_of mss 0 = 0"
  by (simp add: packets_of_def)

lemma packets_of_step: "0 < mss \<Longrightarrow> 0 < len \<Longrightarrow> packets_of mss len = Suc (packets_of mss (len - mss))"
  by (cases "mss \<le> len") (auto simp: packets_of_def le_div_geq le_mod_geq)

lemma packets_of_bound: "0 < mss \<Longrightarrow> i < packets_of mss len \<longleftrightarrow> i * mss < len"
proof (induction i arbitrary: len)
  case 0
  then show ?case by (cases "len = 0") (simp_all add: packets_of_step)
next
  case (Suc i)
  show ?case
  proof (cases "len = 0")
    case False
    then have "Suc i < packets_of mss len \<longleftrightarrow> i < packets_of mss (len - mss)" using Suc.prems packets_of_step [of mss len] by simp
    also have "\<dots> \<longleftrightarrow> i * mss < len - mss" by (rule Suc.IH [OF Suc.prems])
    finally show ?thesis by (simp add: less_diff_conv add.commute)
  qed simp
qed

lemma chunks_concat:
  assumes "0 < mss"
  shows "concat (map (\<lambda>i. take (min (length d - i * mss) mss) (drop (i * mss) d)) [0 ..< packets_of mss (length d)]) = d"
proof (induction "packets_of mss (length d)" arbitrary: d)
  case 0
  then have "length d = 0" using packets_of_step [OF assms, of "length d"] by (cases "length d") auto
  then show ?case by simp
next
  case (Suc n)
  then have ne: "0 < length d" by (cases d) auto
  have n: "n = packets_of mss (length (drop mss d))" using Suc.hyps(2) packets_of_step [OF assms ne] by simp
  have up: "[0 ..< Suc n] = 0 # map Suc [0 ..< n]" by (metis map_Suc_upt upt_conv_Cons zero_less_Suc)
  have t: "take (min (length d - Suc i * mss) mss) (drop (Suc i * mss) d)
      = take (min (length (drop mss d) - i * mss) mss) (drop (i * mss) (drop mss d))" for i
    by (simp add: add.commute diff_diff_left)
  have "concat (map (\<lambda>i. take (min (length d - i * mss) mss) (drop (i * mss) d)) [0 ..< Suc n])
      = take (min (length d) mss) d @ concat (map (\<lambda>i. take (min (length (drop mss d) - i * mss) mss) (drop (i * mss) (drop mss d))) [0 ..< n])"
    unfolding up by (simp add: comp_def t del: mult_Suc length_drop)
  also have "\<dots> = take (min (length d) mss) d @ drop mss d" using Suc.hyps(1) [OF n] n by simp
  also have "\<dots> = d" by (simp add: min_def)
  finally show ?case using Suc.hyps(2) by simp
qed

lemma blocks_of_data: "0 < mss \<Longrightarrow> concat (map bk_data (blocks_of data ttl order srctime time mss msgno)) = data"
  using chunks_concat [of mss data] by (simp add: blocks_of_def block_of_def Let_def comp_def)

lemma blocks_of_lengths:
  assumes "0 < mss" "k \<in> set (blocks_of data ttl order srctime time mss msgno)"
  shows "bk_iLength k = int (length (bk_data k)) \<and> 0 < bk_iLength k \<and> bk_iLength k \<le> int mss"
  using assms packets_of_bound [OF assms(1)] by (auto simp: blocks_of_def block_of_def Let_def)

lemma sum_list_lengths: "sum_list (map (\<lambda>k. int (length (f k))) ks) = int (length (concat (map f ks)))"
  by (induction ks) simp_all

lemma sum_blocks: "0 < mss \<Longrightarrow> sum_list (map bk_iLength (blocks_of data ttl order srctime time mss msgno)) = int (length data)"
proof -
  assume m: "0 < mss"
  let ?bs = "blocks_of data ttl order srctime time mss msgno"
  have "sum_list (map bk_iLength ?bs) = sum_list (map (\<lambda>k. int (length (bk_data k))) ?bs)"
    using blocks_of_lengths [OF m] by (metis (mono_tags, lifting) map_eq_conv)
  also have "\<dots> = int (length (concat (map bk_data ?bs)))" by (rule sum_list_lengths)
  finally show ?thesis using blocks_of_data [OF m] by simp
qed

lemma addBuffer_blocks:
  assumes "sb_rep s q c"
  shows "\<exists>s'. addBuffer data ttl order srctime time s = Some (sb_iNextMsgNo s, s') \<and>
    sb_rep s' (q @ blocks_of data ttl order srctime time (sb_iMSS s) (sb_iNextMsgNo s)) c \<and>
    concat (map bk_data (blocks_of data ttl order srctime time (sb_iMSS s) (sb_iNextMsgNo s))) = data \<and>
    sb_iNextMsgNo s' = next_msgno (sb_iNextMsgNo s)"
proof -
  let ?sz = "packets_of (sb_iMSS s) (length data)" and ?bs = "blocks_of data ttl order srctime time (sb_iMSS s) (sb_iNextMsgNo s)"
  have m: "0 < sb_iMSS s" using assms by (auto simp: sb_rep_def sb_chain_def)
  have "0 < sb_iSize s" using assms by (auto simp: sb_rep_def sb_chain_def sb_ring_def)
  then have "?sz + length q < sb_iSize s + (?sz + length q + 1)" by simp
  from sb_grow_enough [OF assms this] assms obtain t where
    t: "sb_grow (?sz + nat (sb_iCount s) + 2) ?sz s = Some t" "sb_rep t q c" "?sz + length q < sb_iSize t"
      "sb_iMSS t = sb_iMSS s" "sb_iNextMsgNo t = sb_iNextMsgNo s"
    by (auto simp: sb_rep_def simp del: sb_grow.simps)
  obtain xs where x: "sb_chain t xs q c" using t(2) by (auto simp: sb_rep_def)
  have "sb_chain (t\<lparr>sb_pLastBlock := sb_pLastBlock t\<rparr>) xs q c" using x by simp
  moreover have "length q + ?sz < length xs" using x t(3) by (simp add: sb_chain_def sb_ring_def)
  ultimately obtain b p where
    w: "write_blocks (block_of data ttl order srctime time (sb_iMSS s) (sb_iNextMsgNo s) ?sz) ?sz 0 (sb_pLastBlock t) t = (p, t\<lparr>sb_blk := b\<rparr>)"
      "sb_chain (t\<lparr>sb_blk := b, sb_pLastBlock := p\<rparr>) xs (q @ map (block_of data ttl order srctime time (sb_iMSS s) (sb_iNextMsgNo s) ?sz) [0 ..< 0 + ?sz]) c"
    using write_blocks_chain by blast
  define u where "u = t\<lparr>sb_blk := b, sb_pLastBlock := p, sb_iCount := sb_iCount t + int ?sz, sb_iBytesCount := sb_iBytesCount t + int (length data),
    sb_ullLastOriginTime_us := time\<rparr>"
  define v where "v = updAvgBufSize time (updateInputRate time (int ?sz) (int (length data)) u)"
  let ?s = "v\<lparr>sb_iNextMsgNo := next_msgno (sb_iNextMsgNo v)\<rparr>"
  have a: "addBuffer data ttl order srctime time s = Some (sb_iNextMsgNo s, ?s)"
    using t w(1) by (simp add: addBuffer_def u_def v_def Let_def)
  have "sb_chain ?s xs (q @ ?bs) c"
    using w(2) sb_chain_cong [of ?s "t\<lparr>sb_blk := b, sb_pLastBlock := p\<rparr>" xs "q @ ?bs" c] by (simp add: v_def u_def blocks_of_def)
  moreover have "sb_iCount ?s = int (length (q @ ?bs))" using t(2) by (simp add: v_def u_def sb_rep_def blocks_of_def)
  moreover have "sb_iBytesCount ?s = sum_list (map bk_iLength (q @ ?bs))" using t(2) sum_blocks [OF m] by (simp add: v_def u_def sb_rep_def)
  ultimately have "sb_rep ?s (q @ ?bs) c" by (auto simp: sb_rep_def)
  moreover have "sb_iNextMsgNo ?s = next_msgno (sb_iNextMsgNo s)" using t(5) by (simp add: v_def u_def)
  ultimately show ?thesis using a blocks_of_data [OF m] by blast
qed

lemma block_marks:
  "PacketBoundaryBits PB_FIRST = 0x80000000" "PacketBoundaryBits PB_LAST = 0x40000000" "BitsetMask 29 29 = 0x20000000" "MSGNO_SEQ_mask = 0x3FFFFFF"
  unfolding MSGNO_SEQ_mask_def PacketBoundaryBits_def by code_simp+

lemma packets_of_ceiling: "0 < mss \<Longrightarrow> packets_of mss len = (len + mss - 1) div mss"
proof -
  assume m: "0 < mss"
  have l: "len = mss * (len div mss) + len mod mss" by simp
  show ?thesis
  proof (cases "len mod mss = 0")
    case True
    have "(len + mss - 1) div mss = len div mss" by (rule div_nat_eqI) (use l True m in \<open>simp_all add: algebra_simps\<close>)
    then show ?thesis using True by (simp add: packets_of_def)
  next
    case False
    moreover have "len mod mss < mss" using m by simp
    ultimately have "(len + mss - 1) div mss = Suc (len div mss)" by (intro div_nat_eqI) (use l in \<open>simp_all add: algebra_simps, linarith+\<close>)
    then show ?thesis using False by (simp add: packets_of_def)
  qed
qed

lemma next_msgno_wraps: "next_msgno m = (if m + 1 = 0x3FFFFFF then 1 else m + 1)"
  by (simp add: next_msgno_def block_marks)

lemma blocks_of_nth:
  assumes "i < length (blocks_of data ttl order srctime time mss msgno)"
  shows "blocks_of data ttl order srctime time mss msgno ! i =
    \<lparr>bk_data = take mss (drop (i * mss) data), bk_iLength = int (min mss (length data - i * mss)),
     bk_iMsgNoBitset = msgno OR (if order then 0x20000000 else 0) OR (if i = 0 then 0x80000000 else 0) OR
       (if i = length (blocks_of data ttl order srctime time mss msgno) - 1 then 0x40000000 else 0),
     bk_ullOriginTime_us = time, bk_ullSourceTime_us = srctime, bk_iTTL = ttl\<rparr>"
proof -
  have "take (min (length data - i * mss) mss) (drop (i * mss) data) = take mss (drop (i * mss) data)" by (simp add: min_def)
  then show ?thesis using assms by (simp add: blocks_of_def block_of_def bound_bits_def block_marks Let_def min.commute or.assoc)
qed

text \<open>
  C14. The data of a message is appended behind what was in the buffer, without loss, as the packets that it is cut into:
  as many as segments are needed; packet \<open>i\<close> has the bytes from \<open>i\<close> times the segment size on, at most one segment of
  them, together they are the data; the two boundary bits (31 and 30) are set in the first and in the last packet and
  in no other; bit 29 is set in all or in none as the order is asked for; all carry the message number that is returned,
  the time to live and the times. There is always enough room, and the next message number wraps around to 1.
\<close>
theorem addBuffer_refines:
  assumes "sb_rep s q c"
  shows "\<exists>s' bs. addBuffer data ttl order srctime time s = Some (sb_iNextMsgNo s, s') \<and> sb_rep s' (q @ bs) c \<and>
    length bs = (length data + sb_iMSS s - 1) div sb_iMSS s \<and> concat (map bk_data bs) = data \<and>
    (\<forall>i < length bs. bs ! i =
      \<lparr>bk_data = take (sb_iMSS s) (drop (i * sb_iMSS s) data), bk_iLength = int (min (sb_iMSS s) (length data - i * sb_iMSS s)),
       bk_iMsgNoBitset = sb_iNextMsgNo s OR (if order then 0x20000000 else 0) OR (if i = 0 then 0x80000000 else 0) OR
         (if i = length bs - 1 then 0x40000000 else 0),
       bk_ullOriginTime_us = time, bk_ullSourceTime_us = srctime, bk_iTTL = ttl\<rparr>) \<and>
    sb_iNextMsgNo s' = (if sb_iNextMsgNo s + 1 = 0x3FFFFFF then 1 else sb_iNextMsgNo s + 1)"
proof -
  let ?bs = "blocks_of data ttl order srctime time (sb_iMSS s) (sb_iNextMsgNo s)"
  have m: "0 < sb_iMSS s" using assms by (auto simp: sb_rep_def sb_chain_def)
  obtain s' where a: "addBuffer data ttl order srctime time s = Some (sb_iNextMsgNo s, s')" "sb_rep s' (q @ ?bs) c"
    "concat (map bk_data ?bs) = data" "sb_iNextMsgNo s' = next_msgno (sb_iNextMsgNo s)"
    using addBuffer_blocks [OF assms] by blast
  have l: "length ?bs = (length data + sb_iMSS s - 1) div sb_iMSS s" using packets_of_ceiling [OF m] by (simp add: blocks_of_def)
  show ?thesis
    by (rule exI [of _ s'], rule exI [of _ ?bs], intro conjI allI impI a(1-3) l a(4) [unfolded next_msgno_wraps], rule blocks_of_nth)
qed

theorem addBuffer_refines_witness:
  "\<exists>s' bs. addBuffer [1, 2, 3, 4, 5] (- 1) True 0 7 (sb_new 2 2) = Some (1, s') \<and> sb_rep s' bs 0 \<and>
     map bk_data bs = [[1, 2], [3, 4], [5]] \<and> map bk_iMsgNoBitset bs = [0xA0000001, 0x20000001, 0x60000001]"
proof -
  have n: "sb_iNextMsgNo (sb_new 2 2) = 1" "sb_iMSS (sb_new 2 2) = 2" by (simp_all add: sb_new_def)
  obtain s' bs where b: "addBuffer [1, 2, 3, 4, 5] (- 1) True 0 7 (sb_new 2 2) = Some (1, s')" "sb_rep s' bs 0" "length bs = 3"
    and e: "\<forall>i < 3. bs ! i =
      \<lparr>bk_data = take 2 (drop (i * 2) [1, 2, 3, 4, 5]), bk_iLength = int (min 2 (5 - i * 2)),
       bk_iMsgNoBitset = 1 OR 0x20000000 OR (if i = 0 then 0x80000000 else 0) OR (if i = 2 then 0x40000000 else 0),
       bk_ullOriginTime_us = 7, bk_ullSourceTime_us = 0, bk_iTTL = - 1\<rparr>"
    using addBuffer_refines [OF sb_new_rep, of 2 2 "[1, 2, 3, 4, 5]" "- 1" True 0 7] n by (auto simp: numeral_3_eq_3)
  have "bs = [bs ! 0, bs ! 1, bs ! 2]" using b(3) by (simp add: list_eq_iff_nth_eq less_Suc_eq numeral_3_eq_3 numeral_2_eq_2)
  then have "map bk_data bs = [[1, 2], [3, 4], [5]] \<and> map bk_iMsgNoBitset bs = [0xA0000001, 0x20000001, 0x60000001]"
    using e [rule_format, of 0] e [rule_format, of 1] e [rule_format, of 2] by (simp only: list.map) simp
  then show ?thesis using b by (intro exI [of _ s'] exI [of _ bs] conjI) simp_all
qed

text \<open>
  Reading for the first transmission: every block once, in order; the key flags stay in the block for a
  retransmission.
\<close>
lemma sb_readData_refines:
  assumes "sb_rep s q c"
  shows "c = length q \<Longrightarrow> sb_readData kflgs s = (None, s)"
    and "c < length q \<Longrightarrow> \<exists>r s'. sb_readData kflgs s = (Some r, s') \<and>
      sb_rep s' (case kflgs of None \<Rightarrow> q | Some e \<Rightarrow> q[c := (q ! c)\<lparr>bk_iMsgNoBitset := bk_iMsgNoBitset (q ! c) OR EncryptionKeyBits e\<rparr>]) (c + 1) \<and>
      (\<forall>e. kflgs = Some e \<longrightarrow> fst r = take (nat (bk_iLength (q ! c))) (bk_data (q ! c)) \<and> fst (snd r) = bk_iMsgNoBitset (q ! c) OR EncryptionKeyBits e)"
proof -
  obtain xs where x: "sb_chain s xs q c" using assms by (auto simp: sb_rep_def)
  have d: "distinct xs" "length q < length xs" "c \<le> length q" "sb_pLastBlock s = xs ! length q" "sb_pCurrBlock s = xs ! c"
    "\<And>i. i < length q \<Longrightarrow> sb_blk s (xs ! i) = q ! i" "\<And>i. i < length xs \<Longrightarrow> sb_next s (xs ! i) = xs ! ((i + 1) mod length xs)"
    using x by (auto simp: sb_chain_def sb_ring_def)
  have inj: "xs ! i = xs ! j \<longleftrightarrow> i = j" if "i < length xs" "j < length xs" for i j
    using nth_eq_iff_index_eq [OF d(1)] that by blast
  show "c = length q \<Longrightarrow> sb_readData kflgs s = (None, s)" using d by (simp add: sb_readData_def)
  assume c: "c < length q"
  let ?k = "case kflgs of None \<Rightarrow> q ! c | Some e \<Rightarrow> (q ! c)\<lparr>bk_iMsgNoBitset := bk_iMsgNoBitset (q ! c) OR EncryptionKeyBits e\<rparr>"
  let ?s = "s\<lparr>sb_blk := (sb_blk s)(xs ! c := ?k), sb_pCurrBlock := xs ! (c + 1)\<rparr>"
  have ne: "sb_pCurrBlock s \<noteq> sb_pLastBlock s" using inj c d(2,4,5) by simp
  have nx: "sb_next s (xs ! c) = xs ! (c + 1)" using d(2,7) c by simp
  have r: "\<exists>r. sb_readData kflgs s = (Some r, ?s) \<and> (\<forall>e. kflgs = Some e \<longrightarrow> fst r = take (nat (bk_iLength (q ! c))) (bk_data (q ! c)) \<and> fst (snd r) = bk_iMsgNoBitset (q ! c) OR EncryptionKeyBits e)"
  proof (cases kflgs)
    case None
    have "(sb_blk s)(xs ! c := ?k) = sb_blk s" using None d(6) [OF c] by auto
    then show ?thesis using None ne nx d(5) by (simp add: sb_readData_def Let_def)
  next
    case (Some e)
    then show ?thesis using ne nx d(5,6) c by (simp add: sb_readData_def Let_def)
  qed
  have "sb_chain ?s xs (q[c := ?k]) (c + 1)"
    using x c inj d(2) by (auto simp: sb_chain_def sb_ring_def nth_list_update)
  moreover have "map bk_iLength (q[c := ?k]) = map bk_iLength q"
    using c by (auto simp: list_eq_iff_nth_eq nth_list_update split: option.split)
  ultimately have "sb_rep ?s (q[c := ?k]) (c + 1)" using assms by (auto simp: sb_rep_def)
  moreover have "q[c := ?k] = (case kflgs of None \<Rightarrow> q | Some e \<Rightarrow> q[c := (q ! c)\<lparr>bk_iMsgNoBitset := bk_iMsgNoBitset (q ! c) OR EncryptionKeyBits e\<rparr>])"
    by (cases kflgs) simp_all
  ultimately have "sb_rep ?s (case kflgs of None \<Rightarrow> q | Some e \<Rightarrow> q[c := (q ! c)\<lparr>bk_iMsgNoBitset := bk_iMsgNoBitset (q ! c) OR EncryptionKeyBits e\<rparr>]) (c + 1)"
    by simp
  then show "\<exists>r s'. sb_readData kflgs s = (Some r, s') \<and>
      sb_rep s' (case kflgs of None \<Rightarrow> q | Some e \<Rightarrow> q[c := (q ! c)\<lparr>bk_iMsgNoBitset := bk_iMsgNoBitset (q ! c) OR EncryptionKeyBits e\<rparr>]) (c + 1) \<and>
      (\<forall>e. kflgs = Some e \<longrightarrow> fst r = take (nat (bk_iLength (q ! c))) (bk_data (q ! c)) \<and> fst (snd r) = bk_iMsgNoBitset (q ! c) OR EncryptionKeyBits e)"
    using r by blast
qed

text \<open>The queue without the position of the current block, which may fall behind the first one while it advances.\<close>

definition sb_q :: "CSndBuffer \<Rightarrow> nat list \<Rightarrow> Block list \<Rightarrow> bool" where
  "sb_q s xs q \<longleftrightarrow> sb_ring s xs \<and> length q < length xs \<and> sb_pLastBlock s = xs ! length q \<and>
     (\<forall>i < length q. sb_blk s (xs ! i) = q ! i) \<and> 0 < sb_unitsize s \<and> 0 < sb_iMSS s"

lemma sb_chain_q: "sb_chain s xs q c \<longleftrightarrow> sb_q s xs q \<and> c \<le> length q \<and> sb_pCurrBlock s = xs ! c"
  by (auto simp: sb_chain_def sb_q_def)

lemma rotate1_nth: "i < length xs \<Longrightarrow> rotate1 xs ! i = xs ! ((i + 1) mod length xs)"
  by (simp add: nth_rotate1)

lemma rotate1_back: "c < length xs \<Longrightarrow> rotate1 xs ! (if c = 0 then length xs - 1 else c - 1) = xs ! c"
  by (cases xs) (auto simp: nth_append)

lemma sb_q_advance:
  assumes "sb_q s xs (k # q)" "s' = s\<lparr>sb_iBytesCount := b, sb_pFirstBlock := sb_next s (sb_pFirstBlock s)\<rparr>"
  shows "sb_q s' (rotate1 xs) q" "sb_blk s (sb_pFirstBlock s) = k" "sb_pFirstBlock s = xs ! 0"
proof -
  have r: "distinct xs" "length xs = sb_iSize s" "xs \<noteq> []" "xs ! 0 = sb_pFirstBlock s" "\<And>x. x \<in> set xs \<Longrightarrow> x < sb_fresh s"
    "\<And>i. i < length xs \<Longrightarrow> sb_next s (xs ! i) = xs ! ((i + 1) mod length xs)"
    and c: "Suc (length q) < length xs" "sb_pLastBlock s = xs ! Suc (length q)" "\<And>i. i < Suc (length q) \<Longrightarrow> sb_blk s (xs ! i) = (k # q) ! i"
      "0 < sb_unitsize s" "0 < sb_iMSS s"
    using assms(1) by (auto simp: sb_q_def sb_ring_def)
  have n: "rotate1 xs ! i = xs ! ((i + 1) mod length xs)" if "i < length xs" for i using rotate1_nth [OF that] .
  have "sb_next s (rotate1 xs ! i) = rotate1 xs ! ((i + 1) mod length xs)" if "i < length xs" for i
  proof -
    have "(i + 1) mod length xs < length xs" using r(3) by simp
    then show ?thesis using n [OF that] n [of "(i + 1) mod length xs"] r(6) [of "(i + 1) mod length xs"] by simp
  qed
  moreover have "rotate1 xs ! 0 = sb_next s (sb_pFirstBlock s)" using n [of 0] r(3,4) r(6) [of 0] by simp
  ultimately have "sb_ring s' (rotate1 xs)" using r assms(2) by (auto simp: sb_ring_def)
  moreover have "sb_pLastBlock s' = rotate1 xs ! length q" using n [of "length q"] c(1,2) assms(2) by simp
  moreover have "sb_blk s' (rotate1 xs ! i) = q ! i" if "i < length q" for i
    using n [of i] that c(1) c(3) [of "Suc i"] assms(2) by simp
  ultimately show "sb_q s' (rotate1 xs) q" using c assms(2) by (simp add: sb_q_def)
  show "sb_blk s (sb_pFirstBlock s) = k" "sb_pFirstBlock s = xs ! 0" using c(3) [of 0] r(4) by simp_all
qed

lemma sb_ack_loop_spec:
  assumes "sb_q s xs q" "n \<le> length q" "c < length xs" "sb_pCurrBlock s = xs ! c" "sb_ack_loop n move s = (move', s')"
  shows "(move' \<longleftrightarrow> move \<or> c < n) \<and> sb_q s' (rotate n xs) (drop n q) \<and> sb_pCurrBlock s' = sb_pCurrBlock s \<and>
    sb_iBytesCount s' = sb_iBytesCount s - sum_list (map bk_iLength (take n q)) \<and> sb_iCount s' = sb_iCount s"
  using assms
proof (induction n arbitrary: s xs q c move)
  case (Suc n)
  then obtain k q' where q: "q = k # q'" by (cases q) auto
  let ?s = "s\<lparr>sb_iBytesCount := sb_iBytesCount s - bk_iLength (sb_blk s (sb_pFirstBlock s)), sb_pFirstBlock := sb_next s (sb_pFirstBlock s)\<rparr>"
  note a = sb_q_advance [OF Suc.prems(1) [unfolded q], of ?s, OF refl]
  let ?c = "if c = 0 then length xs - 1 else c - 1"
  have d: "distinct xs" "length q < length xs" using Suc.prems(1) by (auto simp: sb_q_def sb_ring_def)
  have fc: "sb_pFirstBlock s = sb_pCurrBlock s \<longleftrightarrow> c = 0"
    using nth_eq_iff_index_eq [OF d(1), of 0 c] Suc.prems(3,4) a(3) by (cases xs) auto
  have "sb_ack_loop n (move \<or> c = 0) ?s = (move', s')" using Suc.prems(5) fc by simp
  moreover have "?c < length (rotate1 xs)" using Suc.prems(3) by auto
  moreover have "sb_pCurrBlock ?s = rotate1 xs ! ?c" using rotate1_back [OF Suc.prems(3)] Suc.prems(4) by simp
  ultimately have "(move' \<longleftrightarrow> (move \<or> c = 0) \<or> ?c < n) \<and> sb_q s' (rotate n (rotate1 xs)) (drop n q') \<and> sb_pCurrBlock s' = sb_pCurrBlock ?s \<and>
    sb_iBytesCount s' = sb_iBytesCount ?s - sum_list (map bk_iLength (take n q')) \<and> sb_iCount s' = sb_iCount ?s"
    using Suc.prems(2) q by (intro Suc.IH [OF a(1)]) auto
  moreover have "rotate n (rotate1 xs) = rotate (Suc n) xs" by (simp add: rotate1_rotate_swap)
  moreover have "(c = 0 \<or> ?c < n) \<longleftrightarrow> c < Suc n" using Suc.prems(2) d q by auto
  ultimately show ?case using q a(2) by auto
qed auto

lemma sb_q_chain_drop:
  assumes q: "sb_q t (rotate n xs) (drop n q)" and c: "sb_pCurrBlock t = xs ! c" "c \<le> length q" "n \<le> length q" "length q < length xs"
    and s: "s = (if c < n then t\<lparr>sb_pCurrBlock := sb_pFirstBlock t\<rparr> else t)"
  shows "sb_chain s (rotate n xs) (drop n q) (c - n)"
proof (cases "c < n")
  case True
  then have "sb_q s (rotate n xs) (drop n q)" using q s by (simp add: sb_q_def sb_ring_def)
  moreover have "sb_pCurrBlock s = rotate n xs ! (c - n)" using q True s by (simp add: sb_q_def sb_ring_def)
  ultimately show ?thesis using True by (simp add: sb_chain_q)
next
  case False
  have "rotate n xs ! (c - n) = xs ! c" using False c by (subst nth_rotate) auto
  then show ?thesis using False q c s by (auto simp: sb_chain_q)
qed

lemma sb_ackData_rep:
  assumes "sb_rep s q c" "n \<le> length q"
  shows "sb_rep (sb_ackData now n s) (drop n q) (c - n)"
proof -
  obtain xs where x: "sb_chain s xs q c" using assms(1) by (auto simp: sb_rep_def)
  then have d: "sb_q s xs q" "c \<le> length q" "sb_pCurrBlock s = xs ! c" "length q < length xs" by (auto simp: sb_chain_q sb_q_def)
  obtain move t where l: "sb_ack_loop n False s = (move, t)" by fastforce
  from sb_ack_loop_spec [OF d(1) assms(2) _ d(3) l] d have t: "move \<longleftrightarrow> c < n" "sb_q t (rotate n xs) (drop n q)" "sb_pCurrBlock t = xs ! c"
    "sb_iBytesCount t = sb_iBytesCount s - sum_list (map bk_iLength (take n q))" "sb_iCount t = sb_iCount s" by auto
  let ?t = "if c < n then t\<lparr>sb_pCurrBlock := sb_pFirstBlock t\<rparr> else t"
  let ?u = "?t\<lparr>sb_iCount := sb_iCount ?t - int n\<rparr>"
  have ch: "sb_chain ?t (rotate n xs) (drop n q) (c - n)" by (rule sb_q_chain_drop [OF t(2,3) d(2) assms(2) d(4) refl])
  have e: "sb_ackData now n s = updAvgBufSize now ?u" using l t(1) by (simp add: sb_ackData_def Let_def)
  have "sb_chain (sb_ackData now n s) (rotate n xs) (drop n q) (c - n)"
    using ch sb_chain_cong [of "updAvgBufSize now ?u" ?t] unfolding e by simp
  moreover have "sum_list (map bk_iLength q) = sum_list (map bk_iLength (take n q)) + sum_list (map bk_iLength (drop n q))"
    by (metis append_take_drop_id map_append sum_list_append)
  ultimately show ?thesis using assms t by (auto simp: sb_rep_def e)
qed

text \<open>
  C15. An acknowledgement releases exactly the acknowledged packets from the front, whether they had been
  sent or not, and the sender goes on with the first one that is not released and not yet sent.
\<close>
theorem sb_ackData_refines:
  assumes "sb_rep s q c" "n \<le> length q"
  shows "sb_rep (sb_ackData now n s) (drop n q) (c - n)"
  by (rule sb_ackData_rep [OF assms])

theorem sb_ackData_refines_witness:
  "\<exists>s q. length q = 3 \<and> sb_rep s q 0 \<and> sb_rep (sb_ackData 9 2 s) (drop 2 q) 0"
proof -
  let ?s = "sb_new 8 2" and ?q = "[blank_block, blank_block, blank_block]"
  have "sb_rep (?s\<lparr>sb_pLastBlock := 3, sb_iCount := 3\<rparr>) ?q 0"
    unfolding sb_rep_def sb_chain_def sb_ring_def
    by (intro conjI exI [of _ "[0 ..< 8]"]) (auto simp: sb_new_def blank_block_def nth_Cons split: nat.split)
  from this sb_ackData_refines [OF this, of 2 9] show ?thesis by (intro exI) auto
qed

lemma late_loop_spec:
  assumes "sb_q s xs q" "c < length xs" "sb_pCurrBlock s = xs ! c" "late_loop (length q) late move dp db s = (move', dp', db', s')"
  defines "n \<equiv> length (takeWhile (\<lambda>k. bk_ullOriginTime_us k < late) q)"
  shows "(move' \<longleftrightarrow> move \<or> c < n) \<and> sb_q s' (rotate n xs) (drop n q) \<and> sb_pCurrBlock s' = sb_pCurrBlock s \<and>
    dp' = dp + int n \<and> db' = db + sum_list (map bk_iLength (take n q)) \<and>
    sb_iBytesCount s' = sb_iBytesCount s \<and> sb_iCount s' = sb_iCount s"
  using assms(1-4) unfolding n_def
proof (induction q arbitrary: s xs c move dp db)
  case Nil
  then show ?case by auto
next
  case (Cons k q)
  let ?s = "s\<lparr>sb_iBytesCount := sb_iBytesCount s, sb_pFirstBlock := sb_next s (sb_pFirstBlock s)\<rparr>"
  note a = sb_q_advance [OF Cons.prems(1), of ?s, OF refl]
  show ?case
  proof (cases "bk_ullOriginTime_us k < late")
    case False
    then show ?thesis using Cons.prems a(2) by auto
  next
    case True
    let ?c = "if c = 0 then length xs - 1 else c - 1" and ?n = "length (takeWhile (\<lambda>k. bk_ullOriginTime_us k < late) q)"
    have d: "distinct xs" "Suc (length q) < length xs" using Cons.prems(1) by (auto simp: sb_q_def sb_ring_def)
    have fc: "sb_pFirstBlock s = sb_pCurrBlock s \<longleftrightarrow> c = 0"
      using nth_eq_iff_index_eq [OF d(1), of 0 c] Cons.prems(2,3) a(3) by (cases xs) auto
    have "late_loop (length q) late (move \<or> c = 0) (dp + 1) (db + bk_iLength k) ?s = (move', dp', db', s')"
      using Cons.prems(4) True a(2) fc by (simp add: Let_def)
    moreover have "sb_pCurrBlock ?s = rotate1 xs ! ?c" using rotate1_back [OF Cons.prems(2)] Cons.prems(3) by simp
    moreover have "?c < length (rotate1 xs)" using Cons.prems(2) by auto
    ultimately have "(move' \<longleftrightarrow> (move \<or> c = 0) \<or> ?c < ?n) \<and> sb_q s' (rotate ?n (rotate1 xs)) (drop ?n q) \<and> sb_pCurrBlock s' = sb_pCurrBlock ?s \<and>
      dp' = dp + 1 + int ?n \<and> db' = db + bk_iLength k + sum_list (map bk_iLength (take ?n q)) \<and>
      sb_iBytesCount s' = sb_iBytesCount ?s \<and> sb_iCount s' = sb_iCount ?s"
      by (intro Cons.IH [OF a(1)])
    moreover have "rotate ?n (rotate1 xs) = rotate (Suc ?n) xs" by (simp add: rotate1_rotate_swap)
    moreover have "?n \<le> length q" by (rule length_takeWhile_le)
    then have "(c = 0 \<or> ?c < ?n) \<longleftrightarrow> c < Suc ?n" using d by auto
    ultimately show ?thesis using True by auto
  qed
qed

text \<open>Dropping late data takes away exactly the leading packets that are older than the given time.\<close>

lemma dropLateData_refines:
  assumes "sb_rep s q c" "dropLateData now late s = (dp, db, s')"
  defines "n \<equiv> length (takeWhile (\<lambda>k. bk_ullOriginTime_us k < late) q)"
  shows "sb_rep s' (drop n q) (c - n) \<and> dp = int n \<and> db = sum_list (map bk_iLength (take n q))"
proof -
  obtain xs where x: "sb_chain s xs q c" using assms(1) by (auto simp: sb_rep_def)
  then have d: "sb_q s xs q" "c \<le> length q" "sb_pCurrBlock s = xs ! c" "length q < length xs" by (auto simp: sb_chain_q sb_q_def)
  have nc: "nat (sb_iCount s) = length q" using assms(1) by (simp add: sb_rep_def)
  obtain move dp0 db0 t where l: "late_loop (length q) late False 0 0 s = (move, dp0, db0, t)" by (metis prod_cases4)
  from late_loop_spec [OF d(1) _ d(3) l, folded n_def] d have t: "move \<longleftrightarrow> c < n" "sb_q t (rotate n xs) (drop n q)" "sb_pCurrBlock t = xs ! c"
    "dp0 = int n" "db0 = sum_list (map bk_iLength (take n q))" "sb_iBytesCount t = sb_iBytesCount s" "sb_iCount t = sb_iCount s" by auto
  have nl: "n \<le> length q" unfolding n_def by (rule length_takeWhile_le)
  let ?t = "if c < n then t\<lparr>sb_pCurrBlock := sb_pFirstBlock t\<rparr> else t"
  let ?u = "?t\<lparr>sb_iCount := sb_iCount ?t - dp0, sb_iBytesCount := sb_iBytesCount ?t - db0\<rparr>"
  have ch: "sb_chain ?t (rotate n xs) (drop n q) (c - n)" by (rule sb_q_chain_drop [OF t(2,3) d(2) nl d(4) refl])
  have e: "s' = updAvgBufSize now ?u" "dp = dp0" "db = db0" using assms(2) l t(1) nc by (auto simp: dropLateData_def Let_def)
  have "sb_chain s' (rotate n xs) (drop n q) (c - n)"
    using ch sb_chain_cong [of "updAvgBufSize now ?u" ?t] unfolding e by simp
  moreover have "sum_list (map bk_iLength q) = sum_list (map bk_iLength (take n q)) + sum_list (map bk_iLength (drop n q))"
    by (metis append_take_drop_id map_append sum_list_append)
  ultimately show ?thesis using assms(1) t nl by (auto simp: sb_rep_def e)
qed

end
