(* ===== verification/EndToEnd.thy ===== *)
theory EndToEnd
  imports RcvRead SndBuffer SeqNo
begin

text \<open>
  From the application to the application: \<open>CSndBuffer::addBuffer\<close> cuts a message into blocks, \<open>readData\<close> hands
  them out for the first transmission, the network delivers the packets in any order and any number of times, each
  into a free unit, \<open>CRcvBuffer::addData\<close> puts them in place, \<open>ackData\<close> releases them and \<open>readMsg\<close> reads.
\<close>

subsection \<open>The two ends\<close>

text \<open>The packet that is made of what \<open>readData\<close> returns (\<open>CUDT::packData\<close>), without encryption.\<close>

definition data_packet :: "int \<Rightarrow> 8 word list \<Rightarrow> 32 word \<Rightarrow> CPacket" where
  "data_packet seq d msgno = packet_new\<lparr>ph_seqno := word_of_int seq, ph_msgno := msgno, pv_data := Some d, pv_len := length d\<rparr>"

lemma data_packet_simps [simp]:
  "ph_seqno (data_packet seq d m) = word_of_int seq" "payload (data_packet seq d m) = d" "getLength (data_packet seq d m) = length d"
  "ph_msgno (data_packet seq d m) = m"
  by (simp_all add: data_packet_def payload_def getLength_def)

fun send_new :: "nat \<Rightarrow> int \<Rightarrow> CSndBuffer \<Rightarrow> CPacket list \<times> CSndBuffer" where
  "send_new 0 seq s = ([], s)"
| "send_new (Suc n) seq s =
     (case sb_readData (Some EK_NOENC) s of
        (None, s) \<Rightarrow> ([], s)
      | (Some (d, msgno, t), s) \<Rightarrow> (let (ps, s) = send_new n (incseq seq) s in (data_packet seq d msgno # ps, s)))"

text \<open>An arriving packet is written into unit \<open>fst a\<close>; its offset is counted from the number that is awaited.\<close>

definition receive :: "int \<Rightarrow> nat \<times> CPacket \<Rightarrow> CRcvBuffer \<Rightarrow> CRcvBuffer" where
  "receive ack a b = snd (addData (fst a) (nat (seqoff ack (uint (ph_seqno (snd a)))))
     (b\<lparr>rb_pool := unit_receive (fst a) (snd a) (rb_pool b)\<rparr>))"

subsection \<open>Sending\<close>

lemma no_key [simp]: "EncryptionKeyBits EK_NOENC = 0"
  by (simp add: EncryptionKeyBits_def bits_wrap_def)

lemma send_new_packets:
  assumes "sb_rep s q c" "c + n = length q" "\<forall>k\<in>set q. bk_iLength k = int (length (bk_data k))"
  shows "\<exists>s'. send_new n (sq a) s =
    (map (\<lambda>i. data_packet (sq (a + int i)) (bk_data (q ! (c + i))) (bk_iMsgNoBitset (q ! (c + i)))) [0 ..< n], s')"
  using assms
proof (induction n arbitrary: s c a)
  case (Suc n)
  then have c: "c < length q" by simp
  have "q[c := (q ! c)\<lparr>bk_iMsgNoBitset := bk_iMsgNoBitset (q ! c) OR 0\<rparr>] = q" by simp
  then obtain r s' where r: "sb_readData (Some EK_NOENC) s = (Some r, s')" "sb_rep s' q (c + 1)"
    "fst r = take (nat (bk_iLength (q ! c))) (bk_data (q ! c))" "fst (snd r) = bk_iMsgNoBitset (q ! c)"
    using sb_readData_refines(2) [OF Suc.prems(1) c, of "Some EK_NOENC"] by auto
  have d: "fst r = bk_data (q ! c)" using r(3) Suc.prems(3) c by simp
  obtain s'' where "send_new n (sq (a + 1)) s' =
      (map (\<lambda>i. data_packet (sq (a + 1 + int i)) (bk_data (q ! (c + 1 + i))) (bk_iMsgNoBitset (q ! (c + 1 + i)))) [0 ..< n], s'')"
    using Suc.IH [OF r(2) _ Suc.prems(3)] Suc.prems(2) by fastforce
  moreover have "[0 ..< Suc n] = 0 # map Suc [0 ..< n]" by (metis map_Suc_upt upt_conv_Cons zero_less_Suc)
  ultimately show ?case using r(1,4) d
    by (cases r) (simp add: incseq_sq comp_def add.assoc del: upt_Suc)
qed simp

subsection \<open>Receiving\<close>

lemma receive_unit:
  fixes p :: CPacket
  assumes i: "rb_inv b" and u: "u < length (uq_unit (rb_pool b))" "\<not> uq_busy (rb_pool b) u"
  defines "c \<equiv> b\<lparr>rb_pool := unit_receive u p (rb_pool b)\<rparr>"
  shows "rb_inv c" "rb_acked c = rb_acked b" "rb_pending c = rb_pending b"
    "uq_unit (rb_pool c) ! u = \<lparr>un_Packet = p, un_iFlag = FREE\<rparr>" "\<And>v. uq_busy (rb_pool c) v = uq_busy (rb_pool b) v"
proof -
  note D = rb_invD [OF i]
  have un: "uq_unit (rb_pool c) = (uq_unit (rb_pool b))[u := (uq_unit (rb_pool b) ! u)\<lparr>un_Packet := p\<rparr>]"
    by (simp add: c_def unit_receive_def)
  show f: "\<And>v. uq_busy (rb_pool c) v = uq_busy (rb_pool b) v"
    using u(1) by (simp add: uq_busy_def un nth_list_update)
  have r: "ring c = ring b" "getRcvDataSize c = getRcvDataSize b" "rb_iMaxPos c = rb_iMaxPos b" "rb_size c = rb_size b"
    by (simp_all add: c_def ring_def getRcvDataSize_def)
  have fl: "map un_iFlag (uq_unit (rb_pool c)) = map un_iFlag (uq_unit (rb_pool b))"
    using u(1) by (auto simp: un list_eq_iff_nth_eq nth_list_update)
  have filt: "length (filter (\<lambda>u. un_iFlag u \<noteq> FREE) xs) = length (filter (\<lambda>f. f \<noteq> FREE) (map un_iFlag xs))" for xs :: "CUnit list"
    by (simp add: filter_map comp_def)
  from fl have "length (filter (\<lambda>u. un_iFlag u \<noteq> FREE) (uq_unit (rb_pool c))) = length (filter (\<lambda>u. un_iFlag u \<noteq> FREE) (uq_unit (rb_pool b)))"
    using filt by metis
  then have "uq_inv (rb_pool c)" using D(5) by (simp add: uq_inv_def c_def unit_receive_def uq_entries_def)
  then show "rb_inv c" using i un f unfolding rb_inv_def r by (simp add: c_def)
  have "slots c = slots b"
  proof (rule nth_equalityI)
    fix k assume k: "k < length (slots c)"
    show "slots c ! k = slots b ! k"
    proof (cases "ring b ! k")
      case (Some v)
      then have "v \<noteq> u" using D(6) [of k v] k u(2) r(4) by auto
      then show ?thesis using k r Some by (simp add: slots_def un)
    qed (use k r in \<open>simp add: slots_def\<close>)
  qed (simp add: r)
  then show "rb_acked c = rb_acked b" "rb_pending c = rb_pending b" using r by (simp_all add: rb_acked_def rb_pending_def)
  show "uq_unit (rb_pool c) ! u = \<lparr>un_Packet = p, un_iFlag = FREE\<rparr>"
    using u by (simp add: un uq_busy_def)
qed

lemma addData_frame:
  "rb_size (snd (addData u k b)) = rb_size b" "rb_tsbpd (snd (addData u k b)) = rb_tsbpd b"
  "length (uq_unit (rb_pool (snd (addData u k b)))) = length (uq_unit (rb_pool b))"
  "v \<noteq> u \<Longrightarrow> uq_busy (rb_pool (snd (addData u k b))) v = uq_busy (rb_pool b) v"
  by (simp_all add: addData_def Let_def countBytes_def makeUnitGood_def set_flag_of_def uq_busy_def cong: if_cong)

text \<open>The buffer waits for the packets \<open>ps\<close>, of which those at the places \<open>D\<close> have come.\<close>

definition partly :: "CRcvBuffer \<Rightarrow> CPacket list \<Rightarrow> nat set \<Rightarrow> bool" where
  "partly b ps D \<longleftrightarrow> rb_inv b \<and> rb_acked b = [] \<and> length (rb_pending b) \<le> length ps \<and>
     (\<forall>k < length ps. (if k < length (rb_pending b) then rb_pending b ! k else None) =
        (if k \<in> D then Some \<lparr>un_Packet = ps ! k, un_iFlag = GOOD\<rparr> else None))"

lemma uint_sq [simp]: "uint (word_of_int (sq a) :: 32 word) = sq a"
proof -
  have "sq a < 2 ^ 32" using sq_range(2) [of a] by (simp del: sq_range)
  then have "sq a mod 2 ^ 32 = sq a" by (intro mod_pos_pos_trivial) simp_all
  then show ?thesis by (simp add: uint_word_of_int)
qed

lemma receive_one:
  assumes p: "partly b ps D" and s: "length ps < rb_size b" "length ps \<le> 0x3FFFFFFF" and k: "k < length ps"
    and seq: "ph_seqno (ps ! k) = word_of_int (sq (a + int k))"
    and u: "u < length (uq_unit (rb_pool b))" "\<not> uq_busy (rb_pool b) u"
  shows "partly (receive (sq a) (u, ps ! k) b) ps (insert k D)"
proof -
  let ?c = "b\<lparr>rb_pool := unit_receive u (ps ! k) (rb_pool b)\<rparr>"
  have P: "rb_inv b" "rb_acked b = []" "length (rb_pending b) \<le> length ps"
    "\<And>j. j < length ps \<Longrightarrow> (if j < length (rb_pending b) then rb_pending b ! j else None) =
        (if j \<in> D then Some \<lparr>un_Packet = ps ! j, un_iFlag = GOOD\<rparr> else None)"
    using p by (auto simp: partly_def)
  note R = receive_unit [OF P(1) u, of "ps ! k"]
  have "uint (ph_seqno (ps ! k)) = sq (a + int k)" unfolding seq by simp
  then have o: "nat (seqoff (sq a) (uint (ph_seqno (ps ! k)))) = k" using s(2) k by (simp add: seqoff_sq)
  obtain r b' where a: "addData u k ?c = (r, b')" by fastforce
  then have b': "receive (sq a) (u, ps ! k) b = b'" using o by (simp add: receive_def)
  have uc: "u < length (uq_unit (rb_pool ?c))" "\<not> uq_busy (rb_pool ?c) u" using u R(5) [of u] by (simp_all add: unit_receive_def)
  let ?pend = "rb_pending b @ replicate (k + 1 - length (rb_pending b)) None"
  have A: "rb_inv b'" "rb_acked b' = []"
    "if ?pend ! k \<noteq> None then rb_pending b' = ?pend else rb_pending b' = ?pend[k := Some \<lparr>un_Packet = ps ! k, un_iFlag = GOOD\<rparr>]"
    using addData_slot [OF R(1) uc a] P(2) R(2-4) s(1) k by (auto simp: Let_def split: if_splits)
  have pk: "?pend ! k = (if k \<in> D then Some \<lparr>un_Packet = ps ! k, un_iFlag = GOOD\<rparr> else None)"
    using P(4) [OF k] by (auto simp: nth_append split: if_splits)
  have "partly b' ps (insert k D)"
  proof (cases "k \<in> D")
    case True
    then have "k < length (rb_pending b)" using P(4) [OF k] by (auto split: if_splits)
    then have "rb_pending b' = rb_pending b" "insert k D = D" using A(3) pk True by auto
    moreover have "\<forall>j < length ps. (if j < length (rb_pending b) then rb_pending b ! j else None) =
        (if j \<in> D then Some \<lparr>un_Packet = ps ! j, un_iFlag = GOOD\<rparr> else None)" using p unfolding partly_def by blast
    ultimately show ?thesis using A(1,2) P(3) unfolding partly_def by metis
  next
    case False
    then have pb: "rb_pending b' = ?pend[k := Some \<lparr>un_Packet = ps ! k, un_iFlag = GOOD\<rparr>]" using A(3) pk by simp
    have "(if j < length (rb_pending b') then rb_pending b' ! j else None) =
        (if j \<in> insert k D then Some \<lparr>un_Packet = ps ! j, un_iFlag = GOOD\<rparr> else None)" if j: "j < length ps" for j
      using P(4) [OF j] unfolding pb by (auto simp: nth_list_update nth_append)
    then show ?thesis using A(1,2) P(3) k by (simp add: partly_def pb)
  qed
  then show ?thesis using b' by simp
qed

lemma receive_all:
  assumes "partly b ps D" "length ps < rb_size b" "length ps \<le> 0x3FFFFFFF"
    and "\<forall>k < length ps. ph_seqno (ps ! k) = word_of_int (sq (a + int k))"
    and "distinct (map fst as)" "\<forall>(u, p) \<in> set as. p \<in> set ps \<and> u < length (uq_unit (rb_pool b)) \<and> \<not> uq_busy (rb_pool b) u"
  shows "\<exists>D'. partly (fold (receive (sq a)) as b) ps D' \<and> D \<subseteq> D' \<and> (\<forall>(u, p) \<in> set as. \<exists>k\<in>D'. k < length ps \<and> p = ps ! k) \<and>
    rb_tsbpd (fold (receive (sq a)) as b) = rb_tsbpd b \<and> rb_size (fold (receive (sq a)) as b) = rb_size b"
  using assms
proof (induction as arbitrary: b D)
  case (Cons x as)
  obtain u p where x: "x = (u, p)" by fastforce
  with Cons.prems(6) obtain k where k: "k < length ps" "p = ps ! k" by (auto simp: in_set_conv_nth)
  let ?b = "receive (sq a) (u, ps ! k) b"
  have u: "u < length (uq_unit (rb_pool b))" "\<not> uq_busy (rb_pool b) u" using Cons.prems(6) x by auto
  have one: "partly ?b ps (insert k D)"
    using receive_one [OF Cons.prems(1-3) k(1) _ u] Cons.prems(4) k(1) by blast
  let ?c = "b\<lparr>rb_pool := unit_receive u (ps ! k) (rb_pool b)\<rparr>"
  have i: "rb_inv b" using Cons.prems(1) by (simp add: partly_def)
  have F: "rb_size ?b = rb_size b" "rb_tsbpd ?b = rb_tsbpd b" "length (uq_unit (rb_pool ?b)) = length (uq_unit (rb_pool b))"
    by (simp_all add: receive_def addData_frame unit_receive_def)
  have fr: "uq_busy (rb_pool ?b) v = uq_busy (rb_pool b) v" if "v \<noteq> u" for v
    using addData_frame(4) [OF that] receive_unit(5) [OF i u] by (simp add: receive_def)
  have un: "u \<notin> fst ` set as" using Cons.prems(5) x by auto
  have r: "\<forall>(v, p) \<in> set as. p \<in> set ps \<and> v < length (uq_unit (rb_pool ?b)) \<and> \<not> uq_busy (rb_pool ?b) v"
  proof (rule ballI)
    fix y assume y: "y \<in> set as"
    obtain v q where vq: "y = (v, q)" by fastforce
    have "v \<noteq> u" using un y vq by force
    moreover have "q \<in> set ps \<and> v < length (uq_unit (rb_pool b)) \<and> \<not> uq_busy (rb_pool b) v"
      using bspec [OF Cons.prems(6), of y] y vq by simp
    ultimately show "case y of (v, p) \<Rightarrow> p \<in> set ps \<and> v < length (uq_unit (rb_pool ?b)) \<and> \<not> uq_busy (rb_pool ?b) v"
      unfolding vq using F(3) fr by simp
  qed
  have "distinct (map fst as)" "length ps < rb_size ?b" using Cons.prems(2,5) F(1) by simp_all
  from Cons.IH [OF one this(2) Cons.prems(3,4) this(1) r] obtain D' where
    "partly (fold (receive (sq a)) as ?b) ps D'" "insert k D \<subseteq> D'" "\<forall>(u, p) \<in> set as. \<exists>k\<in>D'. k < length ps \<and> p = ps ! k"
    "rb_tsbpd (fold (receive (sq a)) as ?b) = rb_tsbpd b" "rb_size (fold (receive (sq a)) as ?b) = rb_size b" unfolding F(1,2) by blast
  then show ?case unfolding x k(2) fold_simps using k(1) by (intro exI [of _ D'] conjI) auto
qed auto


subsection \<open>The message\<close>

definition packets_for :: "int \<Rightarrow> Block list \<Rightarrow> CPacket list" where
  "packets_for a q = map (\<lambda>i. data_packet (sq (a + int i)) (bk_data (q ! i)) (bk_iMsgNoBitset (q ! i))) [0 ..< length q]"

lemma unwrap_seq_high: "m AND MSGNO_SEQ_mask = m \<Longrightarrow> bits_unwrap 31 30 m = 0"
proof (intro bit_eqI)
  fix n assume m: "m AND MSGNO_SEQ_mask = m"
  have "bit m (30 + n) \<longleftrightarrow> bit (m AND MSGNO_SEQ_mask) (30 + n)" using m by simp
  then show "bit (bits_unwrap 31 30 m) n \<longleftrightarrow> bit (0 :: 32 word) n"
    by (simp add: bit_unwrap MSGNO_SEQ_mask_def bit_and_iff bit_BitsetMask)
qed

lemma block_boundary:
  assumes "msgno AND MSGNO_SEQ_mask = msgno"
  shows "bits_unwrap 31 30 (bk_iMsgNoBitset (block_of data ttl order st t mss msgno sz i)) =
    boundary_code (if i = 0 then if i = sz - 1 then PB_SOLO else PB_FIRST else if i = sz - 1 then PB_LAST else PB_SUBSEQUENT)"
proof -
  have o: "bits_unwrap 31 30 (if order then BitsetMask 29 29 else 0) = 0"
    by (intro bit_eqI) (simp add: bit_unwrap bit_BitsetMask)
  have w: "bits_unwrap 31 30 (bits_wrap 31 30 2) = 2" "bits_unwrap 31 30 (bits_wrap 31 30 1) = 1"
    using unwrap_wrap [OF _ _ fit_codes(1) [of PB_FIRST]] unwrap_wrap [OF _ _ fit_codes(1) [of PB_LAST]] by simp_all
  show ?thesis
    by (simp add: w block_of_def Let_def unwrap_or o unwrap_seq_high [OF assms] bound_bits_def PacketBoundaryBits_def unwrap_wrap)
qed

lemma whole_blocks:
  assumes q: "q = blocks_of data ttl order st t mss msgno" and d: "data \<noteq> []" "0 < mss" and m: "msgno AND MSGNO_SEQ_mask = msgno"
  shows "whole_message (map (\<lambda>p. \<lparr>un_Packet = p, un_iFlag = GOOD\<rparr>) (packets_for a q))"
proof -
  let ?n = "length q" and ?U = "\<lambda>p. \<lparr>un_Packet = p, un_iFlag = GOOD\<rparr>" and ?P = "packets_for a q"
  have n: "?n = packets_of mss (length data)" by (simp add: q blocks_of_def)
  have n0: "0 < ?n" using packets_of_bound [OF d(2), of 0 "length data"] d(1) n by simp
  have b: "bound_of (?U (?P ! i)) (if i = 0 then if i = ?n - 1 then PB_SOLO else PB_FIRST else if i = ?n - 1 then PB_LAST else PB_SUBSEQUENT)"
    if "i < ?n" for i
    using that block_boundary [OF m] n
    by (simp add: bound_of_def packets_for_def getMsgBoundary_def q blocks_of_def)
  have l: "length ?P = ?n" by (simp add: packets_for_def)
  show ?thesis
  proof (cases "?n = 1")
    case True
    then obtain p where p: "?P = [p]" using l by (cases ?P) auto
    then show ?thesis using b [of 0] True by (auto simp: whole_message_def)
  next
    case False
    then have n2: "2 \<le> ?n" using n0 by linarith
    let ?ms = "map (\<lambda>i. ?P ! i) [1 ..< ?n - 1]"
    have up: "[0 ..< Suc (Suc k)] = 0 # [1 ..< Suc k] @ [Suc k]" for k by (simp add: upt_conv_Cons)
    obtain k where "?n = 2 + k" using n2 le_Suc_ex by blast
    then have k: "?n = Suc (Suc k)" by simp
    have "?P = map (\<lambda>i. ?P ! i) [0 ..< ?n]" unfolding l [symmetric] by (rule map_nth [symmetric])
    also have "\<dots> = (?P ! 0) # ?ms @ [?P ! (?n - 1)]" unfolding k up by simp
    finally have P: "?P = (?P ! 0) # ?ms @ [?P ! (?n - 1)]" .
    have e: "map ?U ?P = ?U (?P ! 0) # map ?U ?ms @ [?U (?P ! (?n - 1))]"
      using arg_cong [OF P, of "map ?U"] by (simp only: list.map map_append)
    have "bound_of (?U (?P ! 0)) PB_FIRST" using b [of 0] k by simp
    moreover have "bound_of (?U (?P ! (?n - 1))) PB_LAST" using b [of "?n - 1"] n2 by (simp split: if_splits)
    moreover have "\<forall>m\<in>set (map ?U ?ms). bound_of m PB_SUBSEQUENT"
    proof (clarsimp)
      fix i assume "Suc 0 \<le> i" "i < ?n - Suc 0"
      then show "bound_of (?U (?P ! i)) PB_SUBSEQUENT" using b [of i] by (simp split: if_splits)
    qed
    ultimately show ?thesis unfolding whole_message_def e by blast
  qed
qed

lemma packets_bytes:
  "message_bytes (map (\<lambda>p. \<lparr>un_Packet = p, un_iFlag = GOOD\<rparr>) (packets_for a q)) = concat (map bk_data q)"
proof -
  have "map (\<lambda>i. bk_data (q ! i)) [0 ..< length q] = map bk_data q" by (rule nth_equalityI) simp_all
  then show ?thesis by (simp add: message_bytes_def packets_for_def comp_def)
qed

lemma packets_for_seq: "\<forall>k < length (packets_for a q). ph_seqno (packets_for a q ! k) = word_of_int (sq (a + int k))"
  by (simp add: packets_for_def)

lemma ackData_tsbpd [simp]: "rb_tsbpd (rb_ackData n b) = rb_tsbpd b"
  by (simp add: rb_ackData_def Let_def advance_ack_def)

text \<open>
  C2. A message goes from the sending to the receiving application unharmed: whatever its length, it is cut
  up, and when every packet of it has arrived at least once, in any order and any number of times, in whatever
  free units, and is acknowledged, one call of \<open>readMsg\<close> returns exactly the data that was sent (as far as
  the buffer of the application reaches) and leaves the receiver buffer empty.
\<close>
theorem message_end_to_end:
  assumes s: "sb_rep s [] 0" "sb_iNextMsgNo s AND MSGNO_SEQ_mask = sb_iNextMsgNo s" "data \<noteq> []"
    and send: "addBuffer data ttl order srctime time s = Some (msgno, s')" "send_new (nat (sb_iCount s')) seq s' = (ps, s'')" "valid_seq seq"
    and b: "rb_inv b" "rb_acked b = []" "rb_pending b = []" "\<not> tp_bTsbPdMode (rb_tsbpd b)"
    and fits: "length ps < rb_size b" "length ps \<le> 0x3FFFFFFF"
    and net: "set (map snd as) = set ps" "distinct (map fst as)"
      "\<forall>u\<in>set (map fst as). u < length (uq_unit (rb_pool b)) \<and> \<not> uq_busy (rb_pool b) u"
  shows "\<exists>mc' b'. readMsg now len mc (rb_ackData (length ps) (fold (receive seq) as b)) = Some (take len data, mc', b') \<and>
    rb_inv b' \<and> rb_acked b' = [] \<and> rb_pending b' = []"
proof -
  let ?q = "blocks_of data ttl order srctime time (sb_iMSS s) (sb_iNextMsgNo s)"
  let ?U = "map (\<lambda>p. \<lparr>un_Packet = p, un_iFlag = GOOD\<rparr>) (packets_for seq ?q)"
  have mss: "0 < sb_iMSS s" using s(1) by (auto simp: sb_rep_def sb_chain_def)
  have r: "sb_rep s' ?q 0" using addBuffer_blocks [OF s(1), of data ttl order srctime time] send(1) by auto
  have cnt: "nat (sb_iCount s') = length ?q" using r by (simp add: sb_rep_def)
  have lens: "\<forall>k\<in>set ?q. bk_iLength k = int (length (bk_data k))" using blocks_of_lengths [OF mss] by blast
  have ps: "ps = packets_for seq ?q"
    using send_new_packets [OF r _ lens, of "length ?q" seq] send(2) sq_valid [OF send(3)] unfolding cnt by (auto simp: packets_for_def)
  have lp: "length ps = length ?q" by (simp add: ps packets_for_def)
  have seqs: "\<forall>k < length ps. ph_seqno (ps ! k) = word_of_int (sq (seq + int k))" unfolding ps by (rule packets_for_seq)
  have p0: "partly b ps {}" using b by (simp add: partly_def)
  have arr: "\<forall>(u, p) \<in> set as. p \<in> set ps \<and> u < length (uq_unit (rb_pool b)) \<and> \<not> uq_busy (rb_pool b) u"
    using net(1,3) by force
  let ?c = "fold (receive seq) as b"
  obtain D where D: "partly ?c ps D" "\<forall>(u, p) \<in> set as. \<exists>k\<in>D. k < length ps \<and> p = ps ! k" "rb_tsbpd ?c = rb_tsbpd b" "rb_size ?c = rb_size b"
    using receive_all [OF p0 fits seqs net(2) arr] sq_valid [OF send(3)] by auto
  have all: "k \<in> D" if "k < length ps" for k
  proof -
    have "ps ! k \<in> snd ` set as" using net(1) that by auto
    then obtain u where "(u, ps ! k) \<in> set as" by force
    then obtain j where "j \<in> D" "j < length ps" "ps ! k = ps ! j" using bspec [OF D(2), of "(u, ps ! k)"] by auto
    moreover then have "uint (ph_seqno (ps ! k)) = uint (ph_seqno (ps ! j))" by simp
    then have "sq (seq + int k) = sq (seq + int j)" using seqs that \<open>j < length ps\<close> by simp
    then have "k = j" using sq_near_eq [of "seq + int k" "seq + int j"] that \<open>j < length ps\<close> fits(2) by simp
    ultimately show ?thesis by simp
  qed
  have c: "rb_inv ?c" "rb_acked ?c = []" "length (rb_pending ?c) \<le> length ps" using D(1) by (simp_all add: partly_def del: length_pending)
  have pn: "k < length (rb_pending ?c) \<and> rb_pending ?c ! k = Some \<lparr>un_Packet = ps ! k, un_iFlag = GOOD\<rparr>" if "k < length ps" for k
    using D(1) that all [OF that] by (auto simp: partly_def split: if_splits)
  have "rb_pending ?c = map Some (map (\<lambda>p. \<lparr>un_Packet = p, un_iFlag = GOOD\<rparr>) ps)"
    using pn c(3) by (intro nth_equalityI) (auto, metis le_antisym linorder_not_le nat_less_le)
  then have pend: "rb_pending ?c = map Some ?U" by (simp add: ps)
  have ack: "rb_inv (rb_ackData (length ps) ?c)" "rb_acked (rb_ackData (length ps) ?c) = map Some ?U @ []" "rb_pending (rb_ackData (length ps) ?c) = []"
    using ackData_slots [OF c(1), of "length ps"] c(2) pend by (simp_all add: ps)
  have w: "whole_message ?U" by (rule whole_blocks [OF refl assms(3) mss s(2)])
  have "\<forall>u\<in>set ?U. sound_unit u" by (auto simp: packets_for_def sound_unit_def)
  from readMsg_whole [OF ack(1) _ ack(2) w this, of now len mc] b(4) D(3)
  show ?thesis using ack(3) packets_bytes [of seq ?q] blocks_of_data [OF mss] by auto
qed


text \<open>Two packets, the second one comes first and twice.\<close>

theorem message_end_to_end_witness:
  "\<exists>ps b mc' b'. length ps = 2 \<and> readMsg (\<lambda>_. 0) 9 \<lparr>mc_srctime = 0, mc_pktseq = 0, mc_msgno = 0\<rparr>
     (rb_ackData 2 (fold (receive 0x7FFFFFFF) [(2, ps ! 1), (0, ps ! 0), (1, ps ! 1)] b)) = Some ([1, 2, 3], mc', b')"
proof -
  let ?s = "sb_new 4 2" and ?b = "rb_new 4 (uq_init 5 1500)" and ?mc = "\<lparr>mc_srctime = 0, mc_pktseq = 0, mc_msgno = 0\<rparr>"
  have s: "sb_rep ?s [] 0" "sb_iNextMsgNo ?s AND MSGNO_SEQ_mask = sb_iNextMsgNo ?s" "sb_iMSS ?s = 2" "sb_iNextMsgNo ?s = 1"
    by (simp add: sb_new_rep, unfold sb_new_def MSGNO_SEQ_mask_def, code_simp+)
  obtain s' where a: "addBuffer [1, 2, 3] (- 1) True 0 7 ?s = Some (1, s')" "sb_rep s' (blocks_of [1, 2, 3] (- 1) True 0 7 2 1) 0"
    using addBuffer_blocks [OF s(1), of "[1, 2, 3]" "- 1" True 0 7] s(3,4) by auto
  have l: "length (blocks_of [1, 2, 3] (- 1) True 0 7 2 1) = 2" by (simp add: blocks_of_def packets_of_def)
  obtain ps s'' where p: "send_new (nat (sb_iCount s')) 0x7FFFFFFF s' = (ps, s'')" by fastforce
  have "length ps = 2"
    using send_new_packets [OF a(2), where n = 2 and a = "0x7FFFFFFF"] blocks_of_lengths [of 2] p a(2) l sq_valid [of "0x7FFFFFFF"]
    by (auto simp: sb_rep_def valid_seq_def seq_consts)
  moreover then have set: "set (map snd [(2, ps ! 1), (0, ps ! 0), (1, ps ! 1)]) = set ps"
    by (cases ps; cases "tl ps") auto
  have b: "rb_inv ?b" "rb_acked ?b = []" "rb_pending ?b = []" "\<not> tp_bTsbPdMode (rb_tsbpd ?b)" "rb_size ?b = 4"
    by (simp add: rb_new_inv uq_init_inv) (simp_all add: rb_acked_def rb_pending_def getRcvDataSize_def rb_new_def tsbpd_new_def)
  moreover have "\<forall>u\<in>set (map fst [(2 :: nat, ps ! 1), (0, ps ! 0), (1, ps ! 1)]). u < length (uq_unit (rb_pool ?b)) \<and> \<not> uq_busy (rb_pool ?b) u"
    by (simp add: rb_new_def uq_init_def uq_busy_def unit_new_def)
  ultimately show ?thesis
    using message_end_to_end [OF s(1,2) _ a(1) p _ b(1-4) _ _ set, where now = "\<lambda>_. 0" and len = 9 and mc = ?mc] by (fastforce simp: valid_seq_def seq_consts)
qed

end
