(* ===== verification/Fec.thy ===== *)
theory Fec
  imports Packet SeqNo
begin

unbundle bit_operations_syntax

text \<open>
  The built-in packet filter (\<open>FECFilterBuiltin\<close>, \<open>fec.cpp\<close>): configuration, the sender's groups and the
  receiver with the cascading rebuild of lost packets. A group is the XOR of lengths, flags, time stamps and
  payloads of the packets of one row or column of a matrix. \<open>None\<close> stands for an access outside a container or
  a buffer. The host is little-endian.
\<close>

definition at :: "'a list \<Rightarrow> nat \<Rightarrow> 'a option" where
  "at xs i = (if i < length xs then Some (xs ! i) else None)"

text \<open>The conversion of an \<open>int\<close> to \<open>size_t\<close>.\<close>

definition size_t :: "int \<Rightarrow> nat" where
  "size_t i = nat (u64 i)"

subsection \<open>Configuration\<close>

text \<open>\<open>Split\<close> of \<open>include/utilities.h\<close>.\<close>

fun split_at :: "char \<Rightarrow> string \<Rightarrow> string \<Rightarrow> string list" where
  "split_at d cur [] = [cur]"
| "split_at d cur (c # cs) = (if c = d then cur # split_at d [] cs else split_at d (cur @ [c]) cs)"

definition Split :: "string \<Rightarrow> char \<Rightarrow> string list" where
  "Split str delimiter = (if str = [] then [] else split_at delimiter [] str)"

record SrtFilterConfig =
  fc_type :: string
  fc_parameters :: "string \<rightharpoonup> string"
  fc_extra_size :: nat

fun parse_params :: "string list \<Rightarrow> (string \<rightharpoonup> string) \<Rightarrow> (string \<rightharpoonup> string) option" where
  "parse_params [] m = Some m"
| "parse_params (p # ps) m =
     (case Split p (CHR '':'') of [k, v] \<Rightarrow> parse_params ps (m(k \<mapsto> v)) | _ \<Rightarrow> None)"

text \<open>
  \<open>extra\<close> gives the extra size of a registered filter type. \<open>parts[0]\<close> does not exist for an empty string: \<open>None\<close>;
  \<open>Some None\<close> is the result \<open>false\<close>.
\<close>

definition ParseFilterConfig :: "(string \<rightharpoonup> nat) \<Rightarrow> string \<Rightarrow> SrtFilterConfig option option" where
  "ParseFilterConfig extra s =
     (case Split s (CHR '','') of
        [] \<Rightarrow> None
      | t # ps \<Rightarrow> Some (do {
            n \<leftarrow> extra t;
            m \<leftarrow> parse_params ps Map.empty;
            Some \<lparr>fc_type = t, fc_parameters = m, fc_extra_size = n\<rparr>
          }))"

definition map_get :: "(string \<rightharpoonup> string) \<Rightarrow> string \<Rightarrow> string" where
  "map_get m k = (case m k of None \<Rightarrow> [] | Some v \<Rightarrow> v)"

text \<open>\<open>atoi\<close>, for numbers in the range of \<open>int\<close>.\<close>

definition is_digit :: "char \<Rightarrow> bool" where
  "is_digit c \<longleftrightarrow> 48 \<le> (of_char c :: nat) \<and> (of_char c :: nat) \<le> 57"

definition digits_value :: "string \<Rightarrow> int" where
  "digits_value s = foldl (\<lambda>n c. n * 10 + (of_char c - 48)) 0 (takeWhile is_digit s)"

definition atoi :: "string \<Rightarrow> int" where
  "atoi s =
     (let s = dropWhile (\<lambda>c. c = CHR '' '' \<or> 9 \<le> (of_char c :: nat) \<and> (of_char c :: nat) \<le> 13) s
      in case s of
           c # cs \<Rightarrow> if c = CHR ''-'' then - digits_value cs else if c = CHR ''+'' then digits_value cs else digits_value s
         | [] \<Rightarrow> 0)"

datatype SRT_ARQLevel = SRT_ARQ_NEVER | SRT_ARQ_ONREQ | SRT_ARQ_ALWAYS

record FecConfig =
  cfg_cols :: nat
  cfg_rows :: nat
  cfg_cols_only :: bool
  cfg_staircase :: bool
  cfg_level :: SRT_ARQLevel

text \<open>The tests of the constructor; \<open>None\<close> is the exception.\<close>

definition fec_config :: "(string \<rightharpoonup> string) \<Rightarrow> FecConfig option" where
  "fec_config m =
     (let arspec = map_get m ''layout'';
          shorter = (if length arspec > 5 then take 5 arspec else arspec);
          colspec = map_get m ''cols''; rowspec = map_get m ''rows''; level = map_get m ''arq'';
          out_cols = atoi colspec; out_rows = (if rowspec \<noteq> [] then atoi rowspec else 1)
      in if shorter \<noteq> ''even'' \<and> shorter \<noteq> [] \<and> shorter \<noteq> ''stair'' then None
         else if colspec = [] \<or> out_cols < 2 then None
         else if rowspec \<noteq> [] \<and> out_rows \<ge> - 1 \<and> out_rows < 1 then None
         else do {
           lv \<leftarrow> (if level = [] then Some SRT_ARQ_ONREQ
                 else if level = ''never'' then Some SRT_ARQ_NEVER
                 else if level = ''onreq'' then Some SRT_ARQ_ONREQ
                 else if level = ''always'' then Some SRT_ARQ_ALWAYS
                 else None);
           Some \<lparr>cfg_cols = nat out_cols, cfg_rows = nat \<bar>out_rows\<bar>, cfg_cols_only = (out_rows < 0),
             cfg_staircase = (shorter \<noteq> ''even''), cfg_level = lv\<rparr>
         })"

subsection \<open>Groups\<close>

record Group =
  g_base :: int
  g_step :: nat
  g_drop :: nat
  g_collected :: nat
  g_length_clip :: "16 word"
  g_flag_clip :: "8 word"
  g_timestamp_clip :: "32 word"
  g_payload_clip :: "8 word list"

record RcvGroup = Group +
  g_fec :: bool
  g_dismissed :: bool

definition group_init :: Group where
  "group_init = \<lparr>g_base = m_iMaxSeqNo, g_step = 0, g_drop = 0, g_collected = 0, g_length_clip = 0, g_flag_clip = 0,
     g_timestamp_clip = 0, g_payload_clip = []\<rparr>"

definition rgroup_init :: RcvGroup where
  "rgroup_init = Group.extend group_init (RcvGroup.fields False False)"

definition ConfigureGroup :: "nat \<Rightarrow> int \<Rightarrow> nat \<Rightarrow> nat \<Rightarrow> 'a Group_scheme \<Rightarrow> 'a Group_scheme" where
  "ConfigureGroup payloadSize seqno gstep gdrop g =
     g\<lparr>g_base := seqno, g_step := gstep, g_drop := gdrop, g_collected := 0,
       g_payload_clip := take payloadSize (g_payload_clip g) @ replicate (payloadSize - length (g_payload_clip g)) 0,
       g_length_clip := 0, g_flag_clip := 0, g_timestamp_clip := 0\<rparr>"

definition ResetGroup :: "'a Group_scheme \<Rightarrow> 'a Group_scheme" where
  "ResetGroup g =
     g\<lparr>g_base := incseq_by (g_base g) (int (g_drop g)), g_collected := 0, g_length_clip := 0, g_flag_clip := 0,
       g_timestamp_clip := 0, g_payload_clip := replicate (length (g_payload_clip g)) 0\<rparr>"

text \<open>
  The first sequence numbers of a series of columns: \<open>n\<close> columns from column \<open>col\<close> on. Even: one after the other;
  staircase: every next one is also one row lower, with a new stair after as many columns as there are rows.
\<close>

fun even_bases :: "nat \<Rightarrow> int \<Rightarrow> int list" where
  "even_bases 0 seqno = []"
| "even_bases (Suc n) seqno = seqno # even_bases n (incseq seqno)"

fun stair_bases :: "nat \<Rightarrow> nat \<Rightarrow> int \<Rightarrow> nat \<Rightarrow> nat \<Rightarrow> nat \<Rightarrow> int list" where
  "stair_bases rows row_size isn 0 col offset = []"
| "stair_bases rows row_size isn (Suc n) col offset =
     incseq_by isn (int offset) #
     stair_bases rows row_size isn n (col + 1) (if col mod rows = rows - 1 then col + 1 else offset + 1 + row_size)"

definition column_bases :: "FecConfig \<Rightarrow> int \<Rightarrow> int list" where
  "column_bases c isn =
     (if \<not> cfg_staircase c then even_bases (cfg_cols c) isn
      else stair_bases (cfg_rows c) (cfg_cols c) isn (cfg_cols c) 0 0)"

text \<open>\<open>fresh\<close> is the group that the default constructor makes.\<close>

definition ConfigureColumns :: "FecConfig \<Rightarrow> nat \<Rightarrow> 'a Group_scheme \<Rightarrow> int \<Rightarrow> 'a Group_scheme list \<Rightarrow> 'a Group_scheme list" where
  "ConfigureColumns c payloadSize fresh isn which =
     which @ map (\<lambda>seq. ConfigureGroup payloadSize seq (cfg_cols c) (cfg_rows c * cfg_cols c) fresh) (column_bases c isn)"

subsection \<open>Clipping\<close>

definition htons :: "16 word \<Rightarrow> 16 word" where
  "htons x = push_bit 8 x OR drop_bit 8 x"

text \<open>Bytes behind the end of the payload leave the clip as it is; a longer payload runs out of the clip's buffer.\<close>

definition clip_bytes :: "8 word list \<Rightarrow> 8 word list \<Rightarrow> 8 word list" where
  "clip_bytes clip payload = map2 (XOR) clip (payload @ replicate (length clip - length payload) 0)"

definition ClipData :: "16 word \<Rightarrow> 8 word \<Rightarrow> 32 word \<Rightarrow> 8 word list \<Rightarrow> 'a Group_scheme \<Rightarrow> 'a Group_scheme option" where
  "ClipData length_net kflg timestamp_hw payload g =
     (if length payload \<le> length (g_payload_clip g) then
        Some (g\<lparr>g_length_clip := g_length_clip g XOR length_net, g_flag_clip := g_flag_clip g XOR kflg,
          g_timestamp_clip := g_timestamp_clip g XOR timestamp_hw, g_payload_clip := clip_bytes (g_payload_clip g) payload\<rparr>)
      else None)"

text \<open>The bytes of a packet; \<open>None\<close> if the packet is longer than its buffer.\<close>

definition packet_bytes :: "CPacket \<Rightarrow> 8 word list option" where
  "packet_bytes p = do { d \<leftarrow> pv_data p; if getLength p \<le> length d then Some (take (getLength p) d) else None }"

definition ClipPacket :: "CPacket \<Rightarrow> 'a Group_scheme \<Rightarrow> 'a Group_scheme option" where
  "ClipPacket pkt g =
     do {
       d \<leftarrow> packet_bytes pkt;
       ClipData (htons (of_nat (getLength pkt))) (ucast (getMsgCryptoFlags pkt)) (getMsgTimeStamp pkt) d g
     }"

definition le16 :: "8 word \<Rightarrow> 8 word \<Rightarrow> 16 word" where
  "le16 lo hi = ucast lo OR push_bit 8 (ucast hi)"

definition ClipControlPacket :: "CPacket \<Rightarrow> 'a Group_scheme \<Rightarrow> 'a Group_scheme option" where
  "ClipControlPacket pkt g =
     do {
       d \<leftarrow> packet_bytes pkt;
       if length d < 4 then None
       else ClipData (le16 (d ! 2) (d ! 3)) (d ! 1) (getMsgTimeStamp pkt) (drop 4 d) g
     }"

record SrtPacket =
  sp_seqno :: "32 word"
  sp_msgno :: "32 word"
  sp_timestamp :: "32 word"
  sp_id :: "32 word"
  sp_buffer :: "8 word list"
  sp_length :: nat

definition SRT_LIVE_MAX_PLSIZE :: nat where
  "SRT_LIVE_MAX_PLSIZE = 1456"

definition ClipRebuiltPacket :: "SrtPacket \<Rightarrow> 'a Group_scheme \<Rightarrow> 'a Group_scheme option" where
  "ClipRebuiltPacket p g =
     ClipData (htons (of_nat (sp_length p))) (ucast (bits_unwrap 28 27 (sp_msgno p))) (sp_timestamp p)
       (take (sp_length p) (sp_buffer p)) g"

text \<open>The control packet: index, flags, length and payload clips.\<close>

definition PackControl :: "Group \<Rightarrow> 8 word \<Rightarrow> int \<Rightarrow> SrtPacket \<Rightarrow> SrtPacket option" where
  "PackControl g index seq pkt =
     (let total_size = 1 + 1 + 2 + length (g_payload_clip g)
      in if total_size > SRT_LIVE_MAX_PLSIZE then None
         else Some (pkt\<lparr>sp_buffer := [index, g_flag_clip g, ucast (g_length_clip g), ucast (drop_bit 8 (g_length_clip g))] @ g_payload_clip g,
           sp_length := total_size, sp_timestamp := g_timestamp_clip g, sp_seqno := word_of_int seq\<rparr>))"

subsection \<open>The filter\<close>

record FEC =
  f_cfg :: FecConfig
  f_payloadSize :: nat
  f_snd_row :: Group
  f_snd_cols :: "Group list"
  f_id :: "32 word"
  f_order_required :: bool
  f_rowq :: "RcvGroup list"
  f_colq :: "RcvGroup list"
  f_cell_base :: int
  f_cells :: "bool list"
  f_rebuilt :: "SrtPacket list"

abbreviation numberCols :: "FEC \<Rightarrow> nat" where "numberCols f \<equiv> cfg_cols (f_cfg f)"
abbreviation numberRows :: "FEC \<Rightarrow> nat" where "numberRows f \<equiv> cfg_rows (f_cfg f)"

definition row_group :: "FEC \<Rightarrow> int \<Rightarrow> RcvGroup" where
  "row_group f base = ConfigureGroup (f_payloadSize f) base 1 (numberCols f) rgroup_init"

text \<open>The filter after construction; \<open>snd_init\<close> and \<open>rcv_init\<close> are the numbers before the first packets.\<close>

definition fec_new :: "FecConfig \<Rightarrow> nat \<Rightarrow> 32 word \<Rightarrow> int \<Rightarrow> int \<Rightarrow> SrtPacket list \<Rightarrow> FEC" where
  "fec_new c payload_size socket_id snd_init rcv_init provided =
     (let snd_isn = incseq snd_init; rcv_isn = incseq rcv_init
      in \<lparr>f_cfg = c, f_payloadSize = payload_size,
          f_snd_row = ConfigureGroup payload_size snd_isn 1 (cfg_cols c) group_init,
          f_snd_cols = (if cfg_rows c > 1 then ConfigureColumns c payload_size group_init snd_isn [] else []),
          f_id = socket_id, f_order_required = False,
          f_rowq = [ConfigureGroup payload_size rcv_isn 1 (cfg_cols c) rgroup_init],
          f_colq = (if cfg_rows c > 1 then ConfigureColumns c payload_size rgroup_init rcv_isn [] else []),
          f_cell_base = rcv_isn, f_cells = replicate (cfg_rows c * cfg_cols c) False, f_rebuilt = provided\<rparr>)"

subsection \<open>Sending\<close>

definition CheckGroupClose :: "int \<Rightarrow> nat \<Rightarrow> 'a Group_scheme \<Rightarrow> 'a Group_scheme" where
  "CheckGroupClose pos sz g = (if size_t pos < sz then g else ResetGroup g)"

text \<open>\<open>getSeqNo\<close> as the \<open>int32_t\<close> it is.\<close>

definition seq_of :: "CPacket \<Rightarrow> int" where
  "seq_of p = sint (ph_seqno p)"

definition collect :: "CPacket \<Rightarrow> 'a Group_scheme \<Rightarrow> 'a Group_scheme option" where
  "collect pkt g = do { g \<leftarrow> ClipPacket pkt g; Some (g\<lparr>g_collected := g_collected g + 1\<rparr>) }"

definition feedSource :: "CPacket \<Rightarrow> FEC \<Rightarrow> FEC option" where
  "feedSource packet f =
     (let base = g_base (f_snd_row f); baseoff = seqoff base (seq_of packet)
      in do {
           row \<leftarrow> collect packet (CheckGroupClose baseoff (numberCols f) (f_snd_row f));
           let f = f\<lparr>f_snd_row := row\<rparr>;
           if numberRows f < 2 then Some f
           else
             (let vert_gx = size_t baseoff mod numberCols f
              in do {
                   col \<leftarrow> at (f_snd_cols f) vert_gx;
                   let vert_off = seqoff (g_base col) (seq_of packet);
                   if vert_off \<ge> 0 then
                     (if nat vert_off mod numberCols f \<noteq> 0 then Some f
                      else
                        (let vert_pos = nat vert_off div numberCols f
                         in do {
                              col \<leftarrow> collect packet (CheckGroupClose (int vert_pos) (numberRows f) col);
                              Some (f\<lparr>f_snd_cols := (f_snd_cols f)[vert_gx := col]\<rparr>)
                            }))
                   else Some f
                 })
         })"

text \<open>The result tells whether a control packet was made.\<close>

definition packControlPacket :: "int \<Rightarrow> SrtPacket \<Rightarrow> FEC \<Rightarrow> (bool \<times> SrtPacket \<times> FEC) option" where
  "packControlPacket seq rpkt f =
     (let offset_to_row_base = seqoff (g_base (f_snd_row f)) seq;
          vert_gx = size_t (offset_to_row_base + int (numberCols f)) mod numberCols f;
          horiz =
            (if g_collected (f_snd_row f) \<ge> numberCols f then
               (let reset = f\<lparr>f_snd_row := ResetGroup (f_snd_row f)\<rparr>
                in if cfg_cols_only (f_cfg f) then Some (False, rpkt, reset)
                   else do { p \<leftarrow> PackControl (f_snd_row f) (- 1) seq rpkt; Some (True, p, reset) })
             else Some (False, rpkt, f))
      in if numberRows f \<le> 1 \<or> offset_to_row_base < 0 then horiz
         else do {
           col \<leftarrow> at (f_snd_cols f) vert_gx;
           if g_collected col \<ge> numberRows f
           then do {
             p \<leftarrow> PackControl col (of_nat vert_gx) seq rpkt;
             Some (True, p, f\<lparr>f_snd_cols := (f_snd_cols f)[vert_gx := ResetGroup col]\<rparr>)
           }
           else horiz
         })"

subsection \<open>Cells\<close>

definition CellAt :: "nat \<Rightarrow> FEC \<Rightarrow> bool \<times> FEC" where
  "CellAt index f =
     (if index \<ge> length (f_cells f)
      then (False, f\<lparr>f_cells := f_cells f @ replicate (index + 1 - length (f_cells f)) False\<rparr>)
      else (f_cells f ! index, f))"

definition MarkCellReceived :: "int \<Rightarrow> FEC \<Rightarrow> FEC option" where
  "MarkCellReceived seq f =
     (let cell_offset = seqoff (f_cell_base f) seq;
          cells = (if cell_offset \<ge> int (length (f_cells f))
                   then f_cells f @ replicate (nat cell_offset + 1 - length (f_cells f)) False else f_cells f)
      in if cell_offset < 0 then None else Some (f\<lparr>f_cells := cells[nat cell_offset := True]\<rparr>))"

text \<open>Despite its name it returns the cell, which is set for a received packet.\<close>

definition IsLost :: "int \<Rightarrow> FEC \<Rightarrow> bool" where
  "IsLost seq f =
     (let offset = seqoff (f_cell_base f) seq
      in if offset < 0 then True else if offset \<ge> int (length (f_cells f)) then True else f_cells f ! nat offset)"

text \<open>The first empty cell among the given ones.\<close>

fun first_gap :: "nat list \<Rightarrow> FEC \<Rightarrow> nat option \<times> FEC" where
  "first_gap [] f = (None, f)"
| "first_gap (cix # cs) f = (let (c, f) = CellAt cix f in if \<not> c then (Some cix, f) else first_gap cs f)"

definition loss_seq :: "(nat \<Rightarrow> nat list) \<Rightarrow> 'a Group_scheme \<Rightarrow> FEC \<Rightarrow> int \<times> FEC" where
  "loss_seq places g f =
     (let baseoff = seqoff (f_cell_base f) (g_base g)
      in if baseoff < 0 then (- 1, f)
         else
           (let (offset, f) = first_gap (places (nat baseoff)) f
            in case offset of None \<Rightarrow> (- 1, f) | Some x \<Rightarrow> (incseq_by (f_cell_base f) (int x), f)))"

definition RcvGetLossSeqHoriz :: "'a Group_scheme \<Rightarrow> FEC \<Rightarrow> int \<times> FEC" where
  "RcvGetLossSeqHoriz g f = loss_seq (\<lambda>baseoff. [baseoff ..< baseoff + numberCols f]) g f"

definition RcvGetLossSeqVert :: "'a Group_scheme \<Rightarrow> FEC \<Rightarrow> int \<times> FEC" where
  "RcvGetLossSeqVert g f = loss_seq (\<lambda>baseoff. map (\<lambda>col. baseoff + col * numberCols f) [0 ..< numberRows f]) g f"

subsection \<open>Finding and making groups\<close>

definition shrink_rows :: "nat \<Rightarrow> FEC \<Rightarrow> (nat \<times> FEC) option" where
  "shrink_rows rowx f =
     (if rowx \<le> numberCols f * 3 then Some (rowx, f)
      else if length (f_rowq f) < numberCols f then None
      else
        (let rowq = drop (numberCols f) (f_rowq f)
         in do {
              head \<leftarrow> at rowq 0;
              let nerase = min (int (length (f_cells f))) (seqoff (f_cell_base f) (g_base head));
              if nerase < 0 then None
              else Some (rowx - numberCols f,
                f\<lparr>f_rowq := rowq, f_cells := drop (nat nerase) (f_cells f), f_cell_base := g_base head\<rparr>)
            }))"

definition ExtendRows :: "nat \<Rightarrow> FEC \<Rightarrow> (nat \<times> FEC) option" where
  "ExtendRows rowx f =
     do {
       (rowx, f) \<leftarrow> shrink_rows rowx f;
       head \<leftarrow> at (f_rowq f) 0;
       let old = length (f_rowq f);
       Some (rowx, f\<lparr>f_rowq := take (rowx + 1) (f_rowq f) @
         map (\<lambda>i. row_group f (incseq_by (g_base head) (int (i * numberCols f)))) [old ..< rowx + 1]\<rparr>)
     }"

text \<open>\<open>Some (None, _)\<close> is the result -1.\<close>

definition RcvGetRowGroupIndex :: "int \<Rightarrow> FEC \<Rightarrow> (nat option \<times> FEC) option" where
  "RcvGetRowGroupIndex seq f =
     do {
       head \<leftarrow> at (f_rowq f) 0;
       let offset = seqoff (g_base head) seq;
       if offset < 0 then Some (None, f)
       else
         (let rowx = nat offset div numberCols f
          in if rowx \<ge> length (f_rowq f)
             then do { (rowx, f) \<leftarrow> ExtendRows rowx f; Some (Some rowx, f) }
             else Some (Some rowx, f))
     }"

text \<open>The series of columns \<open>s .. series\<close>.\<close>

fun extend_series :: "nat list \<Rightarrow> FEC \<Rightarrow> RcvGroup list" where
  "extend_series [] f = f_colq f"
| "extend_series (s # ss) f =
     extend_series ss (f\<lparr>f_colq := ConfigureColumns (f_cfg f) (f_payloadSize f) rgroup_init
       (incseq_by (g_base (f_colq f ! 0)) (int (numberCols f * numberRows f * s))) (f_colq f)\<rparr>)"

text \<open>
  The rows are made anew when they do not fit the columns; all but the first get the same base, as the loop
  computes it from \<open>newbase\<close> every time.
\<close>

definition reset_rows :: "int \<Rightarrow> FEC \<Rightarrow> FEC" where
  "reset_rows newbase f =
     (let needrows = (length (f_colq f) div numberCols f + 1) * numberRows f
      in f\<lparr>f_rowq := map (\<lambda>i. row_group f (if i = 0 then newbase else incseq_by newbase (int (numberCols f)))) [0 ..< needrows]\<rparr>)"

definition shrink_columns :: "nat \<Rightarrow> FEC \<Rightarrow> (nat \<times> FEC) option" where
  "shrink_columns colgx f =
     (if colgx \<le> numberCols f * 2 then Some (colgx, f)
      else if length (f_colq f) < numberCols f \<or> length (f_rowq f) < numberRows f then None
      else
        (let f = f\<lparr>f_colq := drop (numberCols f) (f_colq f), f_rowq := drop (numberRows f) (f_rowq f)\<rparr>
         in do {
              col \<leftarrow> at (f_colq f) 0;
              row \<leftarrow> at (f_rowq f) 0;
              let newbase = g_base col;
              let f = (if g_base row \<noteq> newbase then reset_rows newbase f else f);
              let ncellrem = seqoff (f_cell_base f) newbase;
              if ncellrem < 0 \<or> nat ncellrem > length (f_cells f) then None
              else Some (colgx - numberCols f, f\<lparr>f_cells := drop (nat ncellrem) (f_cells f), f_cell_base := newbase\<rparr>)
            }))"

definition ExtendColumns :: "nat \<Rightarrow> FEC \<Rightarrow> (nat \<times> FEC) option" where
  "ExtendColumns colgx f =
     do {
       (colgx, f) \<leftarrow> shrink_columns colgx f;
       head \<leftarrow> at (f_colq f) 0;
       let series = colgx div numberCols f;
       let old_series = length (f_colq f) div numberCols f;
       Some (colgx, f\<lparr>f_colq := extend_series [old_series ..< series + 1] f\<rparr>)
     }"

definition RcvGetColumnGroupIndex :: "int \<Rightarrow> FEC \<Rightarrow> (nat option \<times> FEC) option" where
  "RcvGetColumnGroupIndex seqno f =
     do {
       head \<leftarrow> at (f_colq f) 0;
       let offset = seqoff (g_base head) seqno;
       if offset < 0 \<or> offset > c_div m_iSeqNoTH 2 then Some (None, f)
       else
         (let colx = nat offset mod numberCols f
          in do {
               col \<leftarrow> at (f_colq f) colx;
               let coloff = seqoff (g_base col) seqno;
               if coloff < 0 then Some (None, f)
               else
                 (let colseries = nat coloff div (numberCols f * numberRows f); colgx = colx + colseries * numberCols f
                  in if colgx > numberRows f * numberCols f * 2 then Some (None, f)
                     else if colgx \<ge> length (f_colq f)
                     then do { (colgx, f) \<leftarrow> ExtendColumns colgx f; Some (Some colgx, f) }
                     else Some (Some colgx, f))
             })
     }"

subsection \<open>Large jumps\<close>

definition CheckLargeDrop :: "int \<Rightarrow> FEC \<Rightarrow> FEC option" where
  "CheckLargeDrop seqno f =
     do {
       head \<leftarrow> at (f_rowq f) 0;
       let offset = seqoff (g_base head) seqno;
       if offset < 0 then Some f
       else if numberRows f = 1 then
         (if offset > int (5 * numberCols f) then
            (let rowdist = nat offset div numberCols f; newbase = incseq_by (g_base head) (int (rowdist * numberCols f))
             in Some (f\<lparr>f_rowq := [row_group f newbase], f_cells := []\<rparr>))
          else Some f)
       else do {
         col0 \<leftarrow> at (f_colq f) 0;
         col \<leftarrow> at (f_colq f) (nat offset mod numberCols f);
         let reset_anyway = (offset \<noteq> seqoff (g_base col0) seqno);
         let coloff = seqoff (g_base col) seqno;
         if coloff < 0 then Some f
         else
           (let matrix = numberRows f * numberCols f; colseries = nat coloff div matrix
            in if colseries > 2 \<or> reset_anyway then
                 (let newbase = incseq_by (g_base col0) (i32 ((int colseries - 1) * int matrix))
                  in Some (f\<lparr>f_rowq := [row_group f newbase],
                       f_colq := ConfigureColumns (f_cfg f) (f_payloadSize f) rgroup_init newbase [],
                       f_cells := [], f_cell_base := newbase\<rparr>))
               else Some f)
       }
     }"

subsection \<open>Rebuilding\<close>

datatype GroupType = HORIZ | VERT | SINGLE

text \<open>The packet that the clips of a group give; \<open>None\<close> when the length is impossible.\<close>

definition rebuilt_packet :: "RcvGroup \<Rightarrow> int \<Rightarrow> FEC \<Rightarrow> SrtPacket option" where
  "rebuilt_packet g seqno f =
     (let length_hw = unat (htons (g_length_clip g))
      in if length_hw > f_payloadSize f then None
         else Some \<lparr>sp_seqno = word_of_int seqno,
           sp_msgno = 1 OR PacketBoundaryBits PB_SOLO OR MSGNO_PACKET_INORDER_wrap (f_order_required f) OR
             bits_wrap 28 27 (ucast (g_flag_clip g)) OR bits_wrap 26 26 1,
           sp_timestamp = g_timestamp_clip g, sp_id = f_id f, sp_buffer = g_payload_clip g, sp_length = length_hw\<rparr>)"

text \<open>
  One call of \<open>RcvRebuild\<close> up to the recursive call at its end: the new state and the arguments of that call, if it
  is made. The rebuilt packet is clipped into the group of the other direction, which may now miss just one packet.
\<close>

type_synonym rebuild_args = "RcvGroup \<times> int \<times> GroupType"

definition cross_horiz :: "SrtPacket \<Rightarrow> int \<Rightarrow> FEC \<Rightarrow> (rebuild_args option \<times> FEC) option" where
  "cross_horiz p seqno f =
     do {
       (rowx, f) \<leftarrow> RcvGetRowGroupIndex seqno f;
       case rowx of
         None \<Rightarrow> Some (None, f)
       | Some rowx \<Rightarrow> do {
           rowg \<leftarrow> at (f_rowq f) rowx;
           if g_collected rowg > numberCols f - 1 then Some (None, f)
           else do {
             rowg \<leftarrow> ClipRebuiltPacket p rowg;
             let rowg = rowg\<lparr>g_collected := g_collected rowg + 1\<rparr>;
             let f = f\<lparr>f_rowq := (f_rowq f)[rowx := rowg]\<rparr>;
             if g_fec rowg \<and> g_collected rowg = numberCols f - 1
             then (let (s, f) = RcvGetLossSeqHoriz rowg f in Some (Some (rowg, s, HORIZ), f))
             else Some (None, f)
           }
         }
     }"

definition cross_vert :: "SrtPacket \<Rightarrow> int \<Rightarrow> FEC \<Rightarrow> (rebuild_args option \<times> FEC) option" where
  "cross_vert p seqno f =
     do {
       (colx, f) \<leftarrow> RcvGetColumnGroupIndex seqno f;
       case colx of
         None \<Rightarrow> Some (None, f)
       | Some colx \<Rightarrow> do {
           colg \<leftarrow> at (f_colq f) colx;
           if g_collected colg > numberRows f - 1 then Some (None, f)
           else do {
             colg \<leftarrow> ClipRebuiltPacket p colg;
             let colg = colg\<lparr>g_collected := g_collected colg + 1\<rparr>;
             let f = f\<lparr>f_colq := (f_colq f)[colx := colg]\<rparr>;
             if g_fec colg \<and> g_collected colg = numberRows f - 1
             then (let (s, f) = RcvGetLossSeqVert colg f in Some (Some (colg, s, VERT), f))
             else Some (None, f)
           }
         }
     }"

definition rebuild_step :: "RcvGroup \<Rightarrow> int \<Rightarrow> GroupType \<Rightarrow> FEC \<Rightarrow> (rebuild_args option \<times> FEC) option" where
  "rebuild_step g seqno tp f =
     (if seqno = - 1 then Some (None, f)
      else
        (case rebuilt_packet g seqno f of
           None \<Rightarrow> Some (None, f)
         | Some p \<Rightarrow>
             if length (g_payload_clip g) > SRT_LIVE_MAX_PLSIZE then None
             else
               (let f = f\<lparr>f_rebuilt := f_rebuilt f @ [p]\<rparr>
                in if tp = SINGLE then Some (None, f)
                   else do {
                     f \<leftarrow> MarkCellReceived seqno f;
                     if tp = VERT then cross_horiz p seqno f else cross_vert p seqno f
                   })))"

text \<open>
  Every call of the recursion fills a group of the other direction by one packet, so that it ends. The measure is
  the number of packets that the existing groups miss.
\<close>

definition missing :: "FEC \<Rightarrow> nat" where
  "missing f = sum_list (map (\<lambda>g. numberCols f - g_collected g) (f_rowq f)) +
     sum_list (map (\<lambda>g. numberRows f - g_collected g) (f_colq f))"

lemma at_eq: "at xs i = Some x \<longleftrightarrow> i < length xs \<and> xs ! i = x"
  by (auto simp: at_def)

lemma sum_list_update_less:
  assumes "i < length xs" "h y < (h (xs ! i) :: nat)"
  shows "sum_list (map h (xs[i := y])) < sum_list (map h xs)"
proof -
  have "map h (xs[i := y]) = (map h xs)[i := h y]" by (simp add: map_update)
  moreover have "sum_list ((map h xs)[i := h y]) = sum_list (map h xs) + h y - map h xs ! i"
    using assms by (intro sum_list_update) simp
  moreover have "h (xs ! i) \<le> sum_list (map h xs)" using assms(1) by (intro member_le_sum_list) auto
  ultimately show ?thesis using assms by simp
qed

lemma rebuild_fields [simp]:
  "g_fec (ConfigureGroup n s a b g) = g_fec g" "g_fec rgroup_init = False" "g_collected (ConfigureGroup n s a b g) = 0"
  by (simp_all add: ConfigureGroup_def rgroup_init_def group_init_def RcvGroup.defs Group.defs)

lemma ClipData_fields:
  "ClipData l k t d (g :: RcvGroup) = Some g' \<Longrightarrow> g_collected g' = g_collected g \<and> g_fec g' = g_fec g \<and> g_base g' = g_base g \<and>
     length (g_payload_clip g') = length (g_payload_clip g)"
  by (auto simp: ClipData_def clip_bytes_def split: if_splits)

lemma shrink_rows_length:
  "shrink_rows r f = Some (x, f1) \<Longrightarrow> length (f_rowq f) \<le> r \<Longrightarrow> length (f_rowq f1) \<le> x"
  by (auto simp: shrink_rows_def Let_def bind_eq_Some_conv split: if_splits)

text \<open>A group that already has its control packet is not one that was just made.\<close>

lemma ExtendRows_new:
  assumes "ExtendRows r f = Some (x, f')" "length (f_rowq f) \<le> r"
  shows "\<not> g_fec (f_rowq f' ! x)"
proof -
  obtain x1 f1 where s: "shrink_rows r f = Some (x1, f1)" using assms(1) by (cases "shrink_rows r f") (auto simp: ExtendRows_def)
  obtain h where h: "at (f_rowq f1) 0 = Some h" using assms(1) s by (cases "at (f_rowq f1) 0") (auto simp: ExtendRows_def)
  have e: "x1 = x" "f_rowq f' = take (x + 1) (f_rowq f1) @
      map (\<lambda>i. row_group f1 (incseq_by (g_base h) (int (i * numberCols f1)))) [length (f_rowq f1) ..< x + 1]"
    using assms(1) s h by (auto simp: ExtendRows_def Let_def simp del: upt_Suc)
  have l: "length (f_rowq f1) \<le> x" using shrink_rows_length [OF s assms(2)] e(1) by simp
  then show ?thesis unfolding e(2) by (simp add: nth_append row_group_def del: upt_Suc)
qed

lemma row_index_cases:
  assumes "RcvGetRowGroupIndex seq f = Some (Some x, f')"
  shows "f' = f \<or> \<not> g_fec (f_rowq f' ! x)"
proof -
  obtain h where "at (f_rowq f) 0 = Some h" using assms by (auto simp: RcvGetRowGroupIndex_def bind_eq_Some_conv)
  then show ?thesis using assms ExtendRows_new [of "nat (seqoff (g_base h) seq) div numberCols f" f x f']
    by (auto simp: RcvGetRowGroupIndex_def Let_def bind_eq_Some_conv split: if_splits)
qed


lemma shrink_columns_length:
  "shrink_columns r f = Some (x, f1) \<Longrightarrow> length (f_colq f) \<le> r \<Longrightarrow> length (f_colq f1) \<le> x"
  by (auto simp: shrink_columns_def reset_rows_def Let_def bind_eq_Some_conv split: if_splits)

lemma extend_series_new: "\<exists>zs. extend_series ss f = f_colq f @ zs \<and> (\<forall>z\<in>set zs. \<not> g_fec z)"
proof (induction ss f rule: extend_series.induct)
  case (2 s ss f)
  then obtain zs where "extend_series (s # ss) f = ConfigureColumns (f_cfg f) (f_payloadSize f) rgroup_init
      (incseq_by (g_base (f_colq f ! 0)) (int (numberCols f * numberRows f * s))) (f_colq f) @ zs" "\<forall>z\<in>set zs. \<not> g_fec z" by auto
  then show ?case by (auto simp: ConfigureColumns_def)
qed simp

lemma ExtendColumns_new:
  assumes "ExtendColumns r f = Some (x, f')" "length (f_colq f) \<le> r" "x < length (f_colq f')"
  shows "\<not> g_fec (f_colq f' ! x)"
proof -
  obtain x1 f1 where s: "shrink_columns r f = Some (x1, f1)" using assms(1) by (cases "shrink_columns r f") (auto simp: ExtendColumns_def)
  obtain h where h: "at (f_colq f1) 0 = Some h" using assms(1) s by (cases "at (f_colq f1) 0") (auto simp: ExtendColumns_def)
  obtain ss where e: "x1 = x" "f_colq f' = extend_series ss f1"
    using assms(1) s h by (auto simp: ExtendColumns_def Let_def simp del: upt_Suc)
  have l: "length (f_colq f1) \<le> x" using shrink_columns_length [OF s assms(2)] e(1) by simp
  obtain zs where z: "extend_series ss f1 = f_colq f1 @ zs" "\<forall>z\<in>set zs. \<not> g_fec z" using extend_series_new by blast
  have "x - length (f_colq f1) < length zs" using l assms(3) unfolding e(2) z(1) by simp
  then show ?thesis using l z(2) unfolding e(2) z(1) by (simp add: nth_append)
qed

lemma column_index_cases:
  assumes "RcvGetColumnGroupIndex seq f = Some (Some x, f')" "x < length (f_colq f')"
  shows "f' = f \<or> \<not> g_fec (f_colq f' ! x)"
proof (rule disjCI)
  assume "\<not> \<not> g_fec (f_colq f' ! x)"
  then have no: "\<And>r. ExtendColumns r f = Some (x, f') \<Longrightarrow> \<not> length (f_colq f) \<le> r"
    using ExtendColumns_new assms(2) by blast
  then show "f' = f" using assms(1)
    by (auto simp: RcvGetColumnGroupIndex_def Let_def bind_eq_Some_conv split: if_splits)
qed

lemma loss_seq_fields:
  assumes "loss_seq pl g f = (s, f')"
  shows "f_rowq f' = f_rowq f \<and> f_colq f' = f_colq f \<and> f_cfg f' = f_cfg f \<and> f_rebuilt f' = f_rebuilt f"
proof -
  have "first_gap cs f = (r, f') \<Longrightarrow> f_rowq f' = f_rowq f \<and> f_colq f' = f_colq f \<and> f_cfg f' = f_cfg f \<and> f_rebuilt f' = f_rebuilt f" for cs r f'
    by (induction cs arbitrary: f) (auto simp: CellAt_def Let_def split: if_splits prod.splits; fastforce)+
  then show ?thesis using assms by (auto simp: loss_seq_def Let_def split: if_splits prod.splits option.splits; blast)
qed

lemma get_loss_fields:
  "RcvGetLossSeqHoriz g f = (s, f') \<Longrightarrow> f_rowq f' = f_rowq f \<and> f_colq f' = f_colq f \<and> f_cfg f' = f_cfg f \<and> f_rebuilt f' = f_rebuilt f"
  "RcvGetLossSeqVert g f = (s, f') \<Longrightarrow> f_rowq f' = f_rowq f \<and> f_colq f' = f_colq f \<and> f_cfg f' = f_cfg f \<and> f_rebuilt f' = f_rebuilt f"
  by (auto simp: RcvGetLossSeqHoriz_def RcvGetLossSeqVert_def dest: loss_seq_fields)

lemma ClipRebuilt_fields:
  "ClipRebuiltPacket p (g :: RcvGroup) = Some g' \<Longrightarrow> g_collected g' = g_collected g \<and> g_fec g' = g_fec g"
  by (auto simp: ClipRebuiltPacket_def dest: ClipData_fields)

lemma cross_horiz_missing:
  assumes "cross_horiz p seqno f = Some (Some a, f')"
  shows "missing f' < missing f \<and> f_rebuilt f' = f_rebuilt f"
proof -
  obtain x f1 where r: "RcvGetRowGroupIndex seqno f = Some (Some x, f1)"
    using assms by (auto simp: cross_horiz_def bind_eq_Some_conv split: option.splits)
  obtain g where g: "at (f_rowq f1) x = Some g" "\<not> g_collected g > numberCols f1 - 1"
    using assms r by (auto simp: cross_horiz_def bind_eq_Some_conv split: if_splits)
  obtain g' where g': "ClipRebuiltPacket p g = Some g'" using assms r g by (auto simp: cross_horiz_def bind_eq_Some_conv)
  note cf = ClipRebuilt_fields [OF g']
  let ?g = "g'\<lparr>g_collected := g_collected g' + 1\<rparr>"
  let ?f = "f1\<lparr>f_rowq := (f_rowq f1)[x := ?g]\<rparr>"
  have c: "g_fec ?g" "g_collected ?g = numberCols f1 - 1"
    using assms r g g' by (auto simp: cross_horiz_def Let_def split: if_splits)
  have e: "RcvGetLossSeqHoriz ?g ?f = (fst (snd a), f')"
    using assms r g g' c by (auto simp: cross_horiz_def Let_def split: prod.splits)
  have f1: "f1 = f" using row_index_cases [OF r] c(1) cf g(1) by (auto simp: at_eq)
  have "missing ?f < missing f" unfolding missing_def f1
    using sum_list_update_less [of x "f_rowq f" "\<lambda>g. numberCols f - g_collected g" ?g] g cf c(2) by (simp add: f1 at_eq)
  then show ?thesis using get_loss_fields(1) [OF e] f1 by (simp add: missing_def)
qed

lemma cross_vert_missing:
  assumes "cross_vert p seqno f = Some (Some a, f')"
  shows "missing f' < missing f \<and> f_rebuilt f' = f_rebuilt f"
proof -
  obtain x f1 where r: "RcvGetColumnGroupIndex seqno f = Some (Some x, f1)"
    using assms by (auto simp: cross_vert_def bind_eq_Some_conv split: option.splits)
  obtain g where g: "at (f_colq f1) x = Some g" "\<not> g_collected g > numberRows f1 - 1"
    using assms r by (auto simp: cross_vert_def bind_eq_Some_conv split: if_splits)
  obtain g' where g': "ClipRebuiltPacket p g = Some g'" using assms r g by (auto simp: cross_vert_def bind_eq_Some_conv)
  note cf = ClipRebuilt_fields [OF g']
  let ?g = "g'\<lparr>g_collected := g_collected g' + 1\<rparr>"
  let ?f = "f1\<lparr>f_colq := (f_colq f1)[x := ?g]\<rparr>"
  have c: "g_fec ?g" "g_collected ?g = numberRows f1 - 1"
    using assms r g g' by (auto simp: cross_vert_def Let_def split: if_splits)
  have e: "RcvGetLossSeqVert ?g ?f = (fst (snd a), f')"
    using assms r g g' c by (auto simp: cross_vert_def Let_def split: prod.splits)
  have f1: "f1 = f" using column_index_cases [OF r] c(1) cf g(1) by (auto simp: at_eq)
  have "missing ?f < missing f" unfolding missing_def f1
    using sum_list_update_less [of x "f_colq f" "\<lambda>g. numberRows f - g_collected g" ?g] g cf c(2) by (simp add: f1 at_eq)
  then show ?thesis using get_loss_fields(2) [OF e] f1 by (simp add: missing_def)
qed

lemma MarkCell_fields:
  "MarkCellReceived s f = Some f' \<Longrightarrow> missing f' = missing f \<and> f_rebuilt f' = f_rebuilt f"
  by (auto simp: MarkCellReceived_def Let_def missing_def split: if_splits)

lemma rebuild_step_missing:
  assumes "rebuild_step g seqno tp f = Some (Some a, f')"
  shows "missing f' < missing f \<and> length (f_rebuilt f') = length (f_rebuilt f) + 1"
proof -
  obtain p where p: "rebuilt_packet g seqno f = Some p" "seqno \<noteq> - 1"
    using assms by (auto simp: rebuild_step_def split: if_splits option.splits)
  let ?f = "f\<lparr>f_rebuilt := f_rebuilt f @ [p]\<rparr>"
  obtain f1 where m: "MarkCellReceived seqno ?f = Some f1" "(if tp = VERT then cross_horiz p seqno f1 else cross_vert p seqno f1) = Some (Some a, f')"
    using assms p by (auto simp: rebuild_step_def Let_def bind_eq_Some_conv split: if_splits)
  have "missing f' < missing f1 \<and> f_rebuilt f' = f_rebuilt f1"
    using m(2) cross_horiz_missing cross_vert_missing by (cases "tp = VERT") auto
  moreover have "missing ?f = missing f" by (simp add: missing_def)
  ultimately show ?thesis using MarkCell_fields [OF m(1)] by simp
qed

function RcvRebuild :: "RcvGroup \<Rightarrow> int \<Rightarrow> GroupType \<Rightarrow> FEC \<Rightarrow> FEC option" where
  "RcvRebuild g seqno tp f =
     (case rebuild_step g seqno tp f of
        None \<Rightarrow> None
      | Some (None, f) \<Rightarrow> Some f
      | Some (Some (g, seqno, tp), f) \<Rightarrow> RcvRebuild g seqno tp f)"
  by auto

termination
  by (relation "measure (\<lambda>(g, seqno, tp, f). missing f)") (auto dest: rebuild_step_missing)

declare RcvRebuild.simps [simp del]

subsection \<open>Irrecoverable losses\<close>

type_synonym loss_seqs = "(int \<times> int) list"

text \<open>The walk over the cells of a row: \<open>lst\<close> (\<open>gone\<close>) is the cell before, \<open>rng\<close> the range that is open.\<close>

fun irrecover_scan :: "int \<Rightarrow> bool list \<Rightarrow> nat list \<Rightarrow> bool \<Rightarrow> int \<times> int \<Rightarrow> loss_seqs \<Rightarrow> bool \<times> (int \<times> int) \<times> loss_seqs" where
  "irrecover_scan base cells [] lst rng out = (lst, rng, out)"
| "irrecover_scan base cells (i # is) gone rng out =
     (let lst = cells ! i; seq = incseq_by base (int i)
      in if gone \<and> \<not> lst then irrecover_scan base cells is lst (seq, seq) out
         else if lst \<and> \<not> gone then irrecover_scan base cells is lst (fst rng, seq) (out @ [(fst rng, seq)])
         else irrecover_scan base cells is lst rng out)"

definition CollectIrrecoverRow :: "FEC \<Rightarrow> RcvGroup \<Rightarrow> loss_seqs \<Rightarrow> RcvGroup \<times> loss_seqs" where
  "CollectIrrecoverRow f g irrecover =
     (if g_dismissed g then (g, irrecover)
      else
        (let base = f_cell_base f; offset = seqoff base (g_base g); maxoff = nat offset + numberCols f
         in if offset < 0 \<or> maxoff > length (f_cells f) then (g, irrecover)
            else
              (let (lst, rng, irrecover) = irrecover_scan base (f_cells f) [nat offset ..< maxoff] True (0, 0) irrecover
               in (g\<lparr>g_dismissed := True\<rparr>,
                   if \<not> lst then irrecover @ [(fst rng, incseq_by base (int maxoff - 1))] else irrecover))))"

fun collect_rows :: "FEC \<Rightarrow> RcvGroup list \<Rightarrow> loss_seqs \<Rightarrow> RcvGroup list \<times> loss_seqs" where
  "collect_rows f [] irrecover = ([], irrecover)"
| "collect_rows f (g # gs) irrecover =
     (let (g, irrecover) = CollectIrrecoverRow f g irrecover; (gs, irrecover) = collect_rows f gs irrecover
      in (g # gs, irrecover))"

text \<open>The number of rows whose losses are collected now: \<open>past + 1\<close>.\<close>

definition rows_to_collect :: "int \<Rightarrow> FEC \<Rightarrow> nat" where
  "rows_to_collect seq f =
     (let current = int (length (f_rowq f)) - 2; past = current - 1;
          past = (if past > 0 then past - 1
                  else if seqoff (g_base (f_rowq f ! 1)) seq \<le> int (numberCols f div 3) then past - 1 else past)
      in nat (past + 1))"

definition dismiss_rows :: "int \<Rightarrow> FEC \<Rightarrow> loss_seqs \<times> FEC" where
  "dismiss_rows seq f =
     (let many = length (f_rowq f) > 1; remove = many \<and> numberRows f = 1;
          n = (if remove \<or> many \<and> cfg_level (f_cfg f) = SRT_ARQ_ONREQ then rows_to_collect seq f else 0)
      in if n = 0 then ([], f)
         else
           (let (gs, irrecover) = collect_rows f (take n (f_rowq f)) []; rowq = gs @ drop n (f_rowq f)
            in (irrecover,
                if remove
                then f\<lparr>f_rowq := drop n rowq, f_cells := drop (numberCols f * n) (f_cells f), f_cell_base := g_base (drop n rowq ! 0)\<rparr>
                else f\<lparr>f_rowq := rowq\<rparr>)))"

subsection \<open>Receiving\<close>

definition HangHorizontal :: "CPacket \<Rightarrow> bool \<Rightarrow> FEC \<Rightarrow> (bool \<times> loss_seqs \<times> FEC) option" where
  "HangHorizontal rpkt isfec f =
     do {
       let seq = seq_of rpkt;
       (rowx, f) \<leftarrow> RcvGetRowGroupIndex seq f;
       case rowx of
         None \<Rightarrow> Some (False, [], f)
       | Some rowx \<Rightarrow> do {
           rowg \<leftarrow> at (f_rowq f) rowx;
           rowg \<leftarrow> (if isfec then
                     (if \<not> g_fec rowg then map_option (\<lambda>g. g\<lparr>g_fec := True\<rparr>) (ClipControlPacket rpkt rowg) else Some rowg)
                   else collect rpkt rowg);
           let f = f\<lparr>f_rowq := (f_rowq f)[rowx := rowg]\<rparr>;
           f \<leftarrow> (if g_fec rowg \<and> g_collected rowg = numberCols f - 1 then
                  (let (s, f) = RcvGetLossSeqHoriz rowg f in RcvRebuild rowg s (if numberRows f = 1 then SINGLE else HORIZ) f)
                else Some f);
           let (irrecover, f) = dismiss_rows seq f;
           Some (True, irrecover, f)
         }
     }"

definition TranslateLossRecords :: "int list \<Rightarrow> loss_seqs" where
  "TranslateLossRecords loss =
     (case loss of
        [] \<Rightarrow> []
      | s # ss \<Rightarrow>
          (let (out, fi_start, fi_end) =
             foldl (\<lambda>(out, fi_start, fi_end) i.
                      if seqoff fi_end i = 1 then (out, fi_start, fi_end + 1) else (out @ [(fi_start, fi_end)], i, i)) ([], s, s) ss
           in out @ [(fi_start, fi_end)]))"

text \<open>
  The losses of the columns of the first series that \<open>seq\<close> is past; the set of numbers is an ascending list.
  The column that is looked at is marked.
\<close>

fun dismissed_columns :: "int \<Rightarrow> FEC \<Rightarrow> nat list \<Rightarrow> int list \<Rightarrow> (int list \<times> FEC) option" where
  "dismissed_columns seq f [] loss = Some (loss, f)"
| "dismissed_columns seq f (i # is) loss =
     do {
       pg \<leftarrow> at (f_colq f) i;
       let last_seq_offset = seqoff (g_base pg) seq - (int (numberRows f) - 1) * int (numberCols f);
       if g_dismissed pg \<or> last_seq_offset < 0 then dismissed_columns seq f is loss
       else
         (let lseqs = map (\<lambda>k. incseq_by (g_base pg) (int (k * g_step pg))) [0 ..< numberRows f];
              loss = fold insort_insert (filter (\<lambda>l. \<not> IsLost l f) lseqs) loss
          in dismissed_columns seq (f\<lparr>f_colq := (f_colq f)[i := pg\<lparr>g_dismissed := True\<rparr>]\<rparr>) is loss)
     }"

text \<open>One series of columns and one matrix of rows and cells are dropped.\<close>

definition dismiss_series :: "FEC \<Rightarrow> FEC option" where
  "dismiss_series f =
     do {
       col \<leftarrow> at (f_colq f) (numberCols f);
       row \<leftarrow> at (f_rowq f) (numberRows f);
       let newbase = g_base col;
       let matrix_size = numberCols f * numberRows f;
       let f = f\<lparr>f_colq := drop (numberCols f) (f_colq f),
         f_rowq := (if g_base row \<noteq> newbase then [row_group f newbase] else drop (numberRows f) (f_rowq f))\<rparr>;
       let shift = (if newbase \<noteq> incseq_by (f_cell_base f) (int matrix_size) then seqoff (f_cell_base f) newbase else int matrix_size);
       let n = (if shift < 0 then length (f_cells f) else nat shift);
       if n > length (f_cells f) then None
       else Some (f\<lparr>f_cells := drop n (f_cells f), f_cell_base := newbase\<rparr>)
     }"

definition RcvCheckDismissColumn :: "int \<Rightarrow> nat \<Rightarrow> FEC \<Rightarrow> (loss_seqs \<times> FEC) option" where
  "RcvCheckDismissColumn seq colgx f =
     (if colgx div numberCols f = 0 then Some ([], f)
      else do {
        (loss, f) \<leftarrow> dismissed_columns seq f [0 ..< numberCols f] [];
        col0 \<leftarrow> at (f_colq f) 0;
        let this_off = seqoff (g_base col0) seq;
        let mindist = (if cfg_staircase (f_cfg f) then int (numberCols f * numberRows f * 2) else int (numberCols f * numberRows f));
        f \<leftarrow> (if this_off < mindist \<or> length (f_colq f) < numberCols f \<or> length (f_rowq f) < numberRows f then Some f
              else dismiss_series f);
        Some (TranslateLossRecords loss, f)
      })"

text \<open>\<open>fec_ctl\<close>: the packet is the control packet of a column.\<close>

definition HangVertical :: "CPacket \<Rightarrow> bool \<Rightarrow> FEC \<Rightarrow> (bool \<times> loss_seqs \<times> FEC) option" where
  "HangVertical rpkt fec_ctl f =
     do {
       let seq = seq_of rpkt;
       (colgx, f) \<leftarrow> RcvGetColumnGroupIndex seq f;
       case colgx of
         None \<Rightarrow> Some (False, [], f)
       | Some colgx \<Rightarrow> do {
           colg \<leftarrow> at (f_colq f) colgx;
           colg \<leftarrow> (if fec_ctl then
                     (if \<not> g_fec colg then map_option (\<lambda>g. g\<lparr>g_fec := True\<rparr>) (ClipControlPacket rpkt colg) else Some colg)
                   else collect rpkt colg);
           let f = f\<lparr>f_colq := (f_colq f)[colgx := colg]\<rparr>;
           f \<leftarrow> (if g_fec colg \<and> g_collected colg = numberRows f - 1
                 then (let (s, f) = RcvGetLossSeqVert colg f in RcvRebuild colg s VERT f)
                 else Some f);
           (irrecover, f) \<leftarrow> RcvCheckDismissColumn seq colgx f;
           Some (True, irrecover, f)
         }
     }"

text \<open>The packet that the code calls \<open>exists\<close> or in the past.\<close>

definition known_packet :: "CPacket \<Rightarrow> FEC \<Rightarrow> bool" where
  "known_packet rpkt f =
     (let celloff = seqoff (f_cell_base f) (seq_of rpkt); past = (celloff < 0)
      in past \<or> celloff < int (length (f_cells f)) \<and> f_cells f ! nat celloff)"

text \<open>The result: whether the packet is wanted, and the losses to report.\<close>

definition fec_receive :: "CPacket \<Rightarrow> FEC \<Rightarrow> (bool \<times> loss_seqs \<times> FEC) option" where
  "fec_receive rpkt f =
     do {
       f \<leftarrow> CheckLargeDrop (seq_of rpkt) f;
       let isdata = (getMsgSeq rpkt True \<noteq> 0);
       isrow \<leftarrow> (if isdata then Some False else do { d \<leftarrow> pv_data rpkt; b \<leftarrow> at d 0; Some (b = - 1) });
       if isdata \<and> known_packet rpkt f then Some (True, [], f)
       else do {
         f \<leftarrow> (if isdata then MarkCellReceived (seq_of rpkt) f else Some f);
         let f = f\<lparr>f_order_required := getMsgOrderFlag rpkt\<rparr>;
         (_, irrecover_row, f) \<leftarrow> (if isdata \<or> isrow then HangHorizontal rpkt isrow f else Some (True, [], f));
         (_, irrecover_col, f) \<leftarrow> (if \<not> isrow \<and> numberRows f > 1 then HangVertical rpkt (\<not> isdata) f else Some (True, [], f));
         Some (isdata,
           if cfg_level (f_cfg f) = SRT_ARQ_ONREQ then (if numberRows f = 1 then irrecover_row else irrecover_col) else [], f)
       }
     }"

end
