(* ===== verification/FecRow.thy ===== *)
theory FecRow
  imports Fec "HOL-Library.Multiset"
begin

unbundle bit_operations_syntax

text \<open>
  The packet filter with rows only: what the sender puts into the control packet of a row, and how the receiver
  gets a lost packet back. The clips are elements of a commutative group in which every element is its own inverse.
\<close>

subsection \<open>The group of clips\<close>

type_synonym clip = "16 word \<times> 8 word \<times> 32 word \<times> (nat \<Rightarrow> 8 word)"

definition byte_at :: "8 word list \<Rightarrow> nat \<Rightarrow> 8 word" where
  "byte_at xs j = (if j < length xs then xs ! j else 0)"

fun clip_add :: "clip \<Rightarrow> clip \<Rightarrow> clip" where
  "clip_add (l, k, t, d) (l', k', t', d') = (l XOR l', k XOR k', t XOR t', \<lambda>j. d j XOR d' j)"

definition clip_zero :: clip where
  "clip_zero = (0, 0, 0, \<lambda>_. 0)"

lemma clip_comm: "clip_add a b = clip_add b a"
  by (cases a; cases b) (simp add: xor.commute)

lemma clip_assoc: "clip_add (clip_add a b) c = clip_add a (clip_add b c)"
  by (cases a; cases b; cases c) (simp add: xor.assoc)

lemma clip_units [simp]: "clip_add a clip_zero = a" "clip_add clip_zero a = a" "clip_add a a = clip_zero"
  by (cases a, simp add: clip_zero_def)+

lemma clip_left_comm: "clip_add a (clip_add b c) = clip_add b (clip_add a c)"
  by (metis clip_assoc clip_comm)

lemma clip_cancel [simp]: "clip_add a (clip_add a b) = b"
  by (simp flip: clip_assoc)

definition clip_of :: "'a Group_scheme \<Rightarrow> clip" where
  "clip_of g = (g_length_clip g, g_flag_clip g, g_timestamp_clip g, byte_at (g_payload_clip g))"

definition packet_clip :: "CPacket \<Rightarrow> clip" where
  "packet_clip p = (htons (of_nat (getLength p)), ucast (getMsgCryptoFlags p), getMsgTimeStamp p, byte_at (the (packet_bytes p)))"

text \<open>The sum of the clips of the packets of a list; it does not depend on their order.\<close>

definition clip_sum :: "CPacket list \<Rightarrow> clip" where
  "clip_sum ps = fold (\<lambda>p. clip_add (packet_clip p)) ps clip_zero"

lemma clip_sum_mset: "mset ps = mset qs \<Longrightarrow> clip_sum ps = clip_sum qs"
proof -
  assume m: "mset ps = mset qs"
  have "fold (\<lambda>p. clip_add (packet_clip p)) ps = fold (\<lambda>p. clip_add (packet_clip p)) qs"
    by (rule fold_multiset_equiv [OF _ m]) (simp add: fun_eq_iff clip_left_comm)
  then show ?thesis by (simp add: clip_sum_def)
qed

lemma clip_sum_snoc: "clip_sum (ps @ [p]) = clip_add (clip_sum ps) (packet_clip p)"
  by (simp add: clip_sum_def clip_comm)

lemma clip_sum_Cons: "clip_sum (p # ps) = clip_add (clip_sum ps) (packet_clip p)"
  using clip_sum_mset [of "p # ps" "ps @ [p]"] clip_sum_snoc by simp

text \<open>One packet is what a sum and the sum without it differ by.\<close>

lemma clip_sum_missing:
  assumes "mset (p # ps) = mset qs"
  shows "clip_add (clip_sum ps) (clip_sum qs) = packet_clip p"
  using clip_sum_mset [OF assms, symmetric] by (simp add: clip_sum_Cons)

subsection \<open>Clipping adds\<close>

lemma byte_at_clip: "byte_at (clip_bytes c d) j = byte_at c j XOR (if j < length c then byte_at d j else 0)"
  by (auto simp: byte_at_def clip_bytes_def nth_append)

lemma ClipData_clip:
  assumes "ClipData l k t d g = Some g'"
  shows "clip_of g' = clip_add (clip_of g) (l, k, t, byte_at d) \<and> length (g_payload_clip g') = length (g_payload_clip g) \<and>
    g_base g' = g_base g \<and> g_collected g' = g_collected g \<and> Group.more g' = Group.more g"
proof -
  have "length d \<le> length (g_payload_clip g)" "g' = g\<lparr>g_length_clip := g_length_clip g XOR l, g_flag_clip := g_flag_clip g XOR k,
      g_timestamp_clip := g_timestamp_clip g XOR t, g_payload_clip := clip_bytes (g_payload_clip g) d\<rparr>"
    using assms by (auto simp: ClipData_def split: if_splits)
  then show ?thesis by (auto simp: clip_of_def fun_eq_iff byte_at_clip) (auto simp: byte_at_def clip_bytes_def)
qed

text \<open>A packet that the filter can take: its bytes are there and are not more than fit a packet.\<close>

definition clippable :: "nat \<Rightarrow> CPacket \<Rightarrow> bool" where
  "clippable n p \<longleftrightarrow> (\<exists>d. packet_bytes p = Some d \<and> length d \<le> n)"

lemma packet_bytes_length: "packet_bytes p = Some d \<Longrightarrow> length d = getLength p"
  by (auto simp: packet_bytes_def bind_eq_Some_conv split: if_splits)

lemma collect_packet:
  assumes "clippable (length (g_payload_clip g)) p"
  shows "\<exists>g'. collect p g = Some g' \<and> clip_of g' = clip_add (clip_of g) (packet_clip p) \<and> g_collected g' = g_collected g + 1 \<and>
    g_base g' = g_base g \<and> length (g_payload_clip g') = length (g_payload_clip g) \<and> Group.more g' = Group.more g"
proof -
  obtain d where d: "packet_bytes p = Some d" "length d \<le> length (g_payload_clip g)" using assms by (auto simp: clippable_def)
  then obtain g1 where g1: "ClipData (htons (of_nat (getLength p))) (ucast (getMsgCryptoFlags p)) (getMsgTimeStamp p) d g = Some g1"
    by (simp add: ClipData_def)
  have "collect p g = Some (g1\<lparr>g_collected := g_collected g1 + 1\<rparr>)" using d g1 by (simp add: collect_def ClipPacket_def)
  moreover have "clip_of (g1\<lparr>g_collected := g_collected g1 + 1\<rparr>) = clip_of g1" by (simp add: clip_of_def)
  ultimately show ?thesis using ClipData_clip [OF g1] d(1) by (simp add: packet_clip_def)
qed

lemma htons_htons [simp]: "htons (htons x) = x"
  by (intro bit_eqI) (auto simp: htons_def bit_or_iff bit_push_bit_iff bit_drop_bit_eq dest: bit_imp_le_length)

lemma le16_split: "le16 (ucast x) (ucast (drop_bit 8 x)) = x"
  by (intro bit_eqI) (auto simp: le16_def bit_or_iff bit_push_bit_iff bit_ucast_iff bit_drop_bit_eq dest: bit_imp_le_length)

subsection \<open>The sender\<close>

definition row_packet :: "int \<Rightarrow> nat \<Rightarrow> nat \<Rightarrow> CPacket \<Rightarrow> bool" where
  "row_packet b n i p \<longleftrightarrow> seq_of p = sq (b + int i) \<and> clippable n p \<and> getMsgSeq p True \<noteq> 0"

definition row_packets :: "int \<Rightarrow> nat \<Rightarrow> CPacket list \<Rightarrow> bool" where
  "row_packets b n ps \<longleftrightarrow> (\<forall>i < length ps. row_packet b n i (ps ! i))"

text \<open>A configuration with rows only, within the sizes that the protocol can have.\<close>

definition row_config :: "FecConfig \<Rightarrow> nat \<Rightarrow> bool" where
  "row_config c n \<longleftrightarrow> cfg_rows c = 1 \<and> \<not> cfg_cols_only c \<and> 2 \<le> cfg_cols c \<and> cfg_cols c < 100000000 \<and> n + 4 \<le> SRT_LIVE_MAX_PLSIZE"

fun feed_all :: "CPacket list \<Rightarrow> FEC \<Rightarrow> FEC option" where
  "feed_all [] f = Some f"
| "feed_all (p # ps) f = do { f \<leftarrow> feedSource p f; feed_all ps f }"

definition row_sender :: "FEC \<Rightarrow> FecConfig \<Rightarrow> nat \<Rightarrow> int \<Rightarrow> CPacket list \<Rightarrow> bool" where
  "row_sender f c n b L \<longleftrightarrow> f_cfg f = c \<and> g_base (f_snd_row f) = sq b \<and> clip_of (f_snd_row f) = clip_sum L \<and>
     g_collected (f_snd_row f) = length L \<and> length (g_payload_clip (f_snd_row f)) = n"

lemma feed_row:
  assumes "row_sender f c n b L" "row_config c n" "row_packet b n (length L) p" "length L < cfg_cols c"
  shows "\<exists>f'. feedSource p f = Some f' \<and> row_sender f' c n b (L @ [p])"
proof -
  have o: "seqoff (g_base (f_snd_row f)) (seq_of p) = int (length L)"
    using assms by (simp add: row_sender_def row_packet_def row_config_def seqoff_near)
  have cl: "clippable (length (g_payload_clip (f_snd_row f))) p" using assms(1,3) by (simp add: row_sender_def row_packet_def)
  obtain g where g: "collect p (f_snd_row f) = Some g" "clip_of g = clip_add (clip_of (f_snd_row f)) (packet_clip p)"
    "g_collected g = g_collected (f_snd_row f) + 1" "g_base g = g_base (f_snd_row f)"
    "length (g_payload_clip g) = length (g_payload_clip (f_snd_row f))" using collect_packet [OF cl] by blast
  have "size_t (int (length L)) = length L" using assms(2,4) by (simp add: size_t_def row_config_def)
  then have "feedSource p f = Some (f\<lparr>f_snd_row := g\<rparr>)"
    using assms(1,2,4) o g(1) by (simp add: feedSource_def CheckGroupClose_def row_sender_def row_config_def)
  then show ?thesis using assms(1) g by (simp add: row_sender_def clip_sum_snoc)
qed

lemma feed_rows:
  assumes "row_sender f c n b L" "row_config c n" "row_packets b n (L @ ps)" "length (L @ ps) \<le> cfg_cols c"
  shows "\<exists>f'. feed_all ps f = Some f' \<and> row_sender f' c n b (L @ ps)"
  using assms
proof (induction ps arbitrary: f L)
  case (Cons p ps)
  have "row_packet b n (length L) p" using Cons.prems(3) [unfolded row_packets_def, rule_format, of "length L"] by simp
  then obtain f1 where f1: "feedSource p f = Some f1" "row_sender f1 c n b (L @ [p])"
    using feed_row [OF Cons.prems(1,2)] Cons.prems(4) by auto
  then show ?case using Cons.IH [OF f1(2) Cons.prems(2)] Cons.prems(3,4) by simp
qed simp

text \<open>The packet that goes out for the control packet (\<open>PacketFilter::packControlPacket\<close>).\<close>

definition control_packet :: "SrtPacket \<Rightarrow> EncryptionKeySpec \<Rightarrow> CPacket" where
  "control_packet p kflg = setMsgCryptoFlags kflg
     (packet_new\<lparr>ph_seqno := sp_seqno p, ph_timestamp := sp_timestamp p, ph_id := sp_id p, pv_data := Some (sp_buffer p),
        pv_len := sp_length p, ph_msgno := PacketBoundaryBits PB_SOLO\<rparr>)"

lemma and_ones [simp]: "x AND 0xFFFFFFFF = (x :: 32 word)"
proof -
  have "(0xFFFFFFFF :: 32 word) = - 1" by simp
  then show ?thesis by (simp only: and.right_neutral)
qed

lemma control_packet_fields [simp]:
  "ph_seqno (control_packet p k) = sp_seqno p" "pv_data (control_packet p k) = Some (sp_buffer p)"
  "getLength (control_packet p k) = sp_length p" "getMsgTimeStamp (control_packet p k) = sp_timestamp p"
  by (simp_all add: control_packet_def setMsgCryptoFlags_def Let_def getLength_def getMsgTimeStamp_def)

lemma control_packet_msgno [simp]: "getMsgSeq (control_packet p k) True = 0"
  using setMsgCryptoFlags_spec by (simp add: control_packet_def) (simp add: getMsgSeq_def PacketBoundaryBits_def unwrap_wrap_disjoint)

lemma pack_row:
  assumes s: "row_sender f c n b L" and c: "row_config c n" and L: "length L = cfg_cols c" "L \<noteq> []"
  shows "\<exists>p f'. packControlPacket (seq_of (last L)) rpkt f = Some (True, p, f') \<and>
    sp_seqno p = word_of_int (seq_of (last L)) \<and>
    packet_bytes (control_packet p k) = Some (sp_buffer p) \<and> length (sp_buffer p) = n + 4 \<and> sp_buffer p ! 0 = - 1 \<and>
    (le16 (sp_buffer p ! 2) (sp_buffer p ! 3), sp_buffer p ! 1, sp_timestamp p, byte_at (drop 4 (sp_buffer p))) = clip_sum L"
proof -
  let ?g = "f_snd_row f"
  let ?p = "rpkt\<lparr>sp_buffer := [- 1, g_flag_clip ?g, ucast (g_length_clip ?g), ucast (drop_bit 8 (g_length_clip ?g))] @ g_payload_clip ?g,
      sp_length := 1 + 1 + 2 + length (g_payload_clip ?g), sp_timestamp := g_timestamp_clip ?g, sp_seqno := word_of_int (seq_of (last L))\<rparr>"
  have "PackControl ?g (- 1) (seq_of (last L)) rpkt = Some ?p" using s c by (simp add: PackControl_def row_sender_def row_config_def)
  then have "packControlPacket (seq_of (last L)) rpkt f = Some (True, ?p, f\<lparr>f_snd_row := ResetGroup ?g\<rparr>)"
    using s c L by (simp add: packControlPacket_def row_sender_def row_config_def)
  moreover have "packet_bytes (control_packet ?p k) = Some (sp_buffer ?p)" by (simp add: packet_bytes_def)
  moreover have "(le16 (sp_buffer ?p ! 2) (sp_buffer ?p ! 3), sp_buffer ?p ! 1, sp_timestamp ?p, byte_at (drop 4 (sp_buffer ?p))) = clip_of ?g"
    by (simp add: clip_of_def le16_split numeral_3_eq_3 numeral_2_eq_2)
  ultimately show ?thesis using s by (intro exI [of _ ?p]) (auto simp: row_sender_def)
qed


subsection \<open>The receiver\<close>

text \<open>
  The receiver has the data packets \<open>L\<close> of the row that starts at position \<open>b\<close>, and the control packet if \<open>F\<close>;
  \<open>X\<close> is the clip of the control packet.
\<close>

definition row_receiver :: "FEC \<Rightarrow> FecConfig \<Rightarrow> nat \<Rightarrow> int \<Rightarrow> clip \<Rightarrow> CPacket list \<Rightarrow> CPacket list \<Rightarrow> bool \<Rightarrow> bool" where
  "row_receiver f c n b X ps L F \<longleftrightarrow> f_cfg f = c \<and> f_payloadSize f = n \<and> f_cell_base f = sq b \<and> f_rebuilt f = [] \<and>
     length (f_cells f) = cfg_cols c \<and> (\<forall>i < cfg_cols c. f_cells f ! i \<longleftrightarrow> ps ! i \<in> set L) \<and>
     (\<exists>g. f_rowq f = [g] \<and> g_base g = sq b \<and> g_collected g = length L \<and> g_fec g = F \<and> length (g_payload_clip g) = n \<and>
        clip_of g = (if F then clip_add (clip_sum L) X else clip_sum L))"

lemma row_index:
  assumes "f_rowq f = [g]" "g_base g = sq b" "i < numberCols f" "numberCols f < 100000000"
  shows "RcvGetRowGroupIndex (sq (b + int i)) f = Some (Some 0, f)"
  using assms by (simp add: RcvGetRowGroupIndex_def at_def seqoff_near)

lemma row_lookup:
  assumes "row_receiver f c n b X ps L F" "row_config c n" "i < cfg_cols c" "seq_of p = sq (b + int i)"
  shows "CheckLargeDrop (seq_of p) f = Some f" "known_packet p f = f_cells f ! i"
    "MarkCellReceived (seq_of p) f = Some (f\<lparr>f_cells := (f_cells f)[i := True]\<rparr>)"
proof -
  have o: "seqoff (sq b) (seq_of p) = int i" using assms by (simp add: row_config_def seqoff_near)
  show "CheckLargeDrop (seq_of p) f = Some f"
    using assms o by (auto simp: CheckLargeDrop_def row_receiver_def row_config_def at_def Let_def)
  show "known_packet p f = f_cells f ! i" "MarkCellReceived (seq_of p) f = Some (f\<lparr>f_cells := (f_cells f)[i := True]\<rparr>)"
    using assms o by (auto simp: known_packet_def MarkCellReceived_def row_receiver_def Let_def)
qed

text \<open>With a single row nothing is dismissed.\<close>

lemma dismiss_single [simp]: "length (f_rowq f) = 1 \<Longrightarrow> dismiss_rows seq f = ([], f)"
  by (simp add: dismiss_rows_def)

definition row_step :: "CPacket \<Rightarrow> FEC \<Rightarrow> FEC option" where
  "row_step p f = map_option (\<lambda>(_, _, f). f) (fec_receive p f)"

definition row_finish :: "RcvGroup \<Rightarrow> FEC \<Rightarrow> FEC option" where
  "row_finish g f = (let (s, f) = RcvGetLossSeqHoriz g f in RcvRebuild g s SINGLE f)"

lemma hang_row:
  assumes f: "f_rowq f = [g]" "g_base g = sq b" "i < numberCols f" "numberCols f < 100000000" "numberRows f = 1"
    and p: "seq_of p = sq (b + int i)"
    and g': "(if isfec then (if \<not> g_fec g then map_option (\<lambda>g. g\<lparr>g_fec := True\<rparr>) (ClipControlPacket p g) else Some g)
       else collect p g) = Some g'"
    and r: "(if g_fec g' \<and> g_collected g' = numberCols f - 1 then row_finish g' (f\<lparr>f_rowq := [g']\<rparr>) else Some (f\<lparr>f_rowq := [g']\<rparr>)) = Some f''"
    and s: "length (f_rowq f'') = 1"
  shows "HangHorizontal p isfec f = Some (True, [], f'')"
proof -
  have ix: "RcvGetRowGroupIndex (seq_of p) f = Some (Some 0, f)" using row_index [OF f(1-4)] p by simp
  obtain q f2 where e: "RcvGetLossSeqHoriz g' (f\<lparr>f_rowq := [g']\<rparr>) = (q, f2)" by fastforce
  have "numberRows f2 = 1" using get_loss_fields(1) [OF e] f(5) by simp
  then have "(if g_fec g' \<and> g_collected g' = numberCols f - 1
      then (let (s, f) = RcvGetLossSeqHoriz g' (f\<lparr>f_rowq := [g']\<rparr>) in RcvRebuild g' s (if numberRows f = 1 then SINGLE else HORIZ) f)
      else Some (f\<lparr>f_rowq := [g']\<rparr>)) = Some f''"
    using r e by (simp add: row_finish_def cong: if_cong)
  then show ?thesis using ix f(1) g' s by (simp add: HangHorizontal_def at_def)
qed

lemma receive_single:
  assumes h: "HangHorizontal p isfec f1 = Some (True, [], f'')" "numberRows f'' = 1"
    and k: "CheckLargeDrop (seq_of p) f = Some f"
    and d: "isfec \<longleftrightarrow> getMsgSeq p True = 0" "isfec \<Longrightarrow> pv_data p = Some (- 1 # ds)"
    and m: "if isfec then f1 = f\<lparr>f_order_required := getMsgOrderFlag p\<rparr>
       else \<not> known_packet p f \<and> (\<exists>f2. MarkCellReceived (seq_of p) f = Some f2 \<and> f1 = f2\<lparr>f_order_required := getMsgOrderFlag p\<rparr>)"
  shows "row_step p f = Some f''"
  using h k d m by (cases isfec) (auto simp: row_step_def fec_receive_def at_def)

text \<open>The step of a data packet up to the rebuild, which takes place when all but one have come.\<close>

lemma receive_data:
  assumes r: "row_receiver f c n b X ps L F" and c: "row_config c n" and i: "i < cfg_cols c" "row_packet b n i (ps ! i)"
    and new: "ps ! i \<notin> set L" and d: "distinct ps" "length ps = cfg_cols c"
  shows "\<exists>g f'. row_receiver f' c n b X ps (L @ [ps ! i]) F \<and> f_rowq f' = [g] \<and>
    (\<forall>f''. (if F \<and> length L + 2 = cfg_cols c then row_finish g f' else Some f') = Some f'' \<and> length (f_rowq f'') = 1 \<and> f_cfg f'' = c
       \<longrightarrow> row_step (ps ! i) f = Some f'')"
proof -
  let ?p = "ps ! i"
  have sq: "seq_of ?p = sq (b + int i)" "getMsgSeq ?p True \<noteq> 0" "clippable n ?p" using i(2) by (auto simp: row_packet_def)
  note l = row_lookup [OF r c i(1) sq(1)]
  obtain g where g: "f_rowq f = [g]" "g_base g = sq b" "g_collected g = length L" "g_fec g = F" "length (g_payload_clip g) = n"
    "clip_of g = (if F then clip_add (clip_sum L) X else clip_sum L)" using r by (auto simp: row_receiver_def)
  let ?f = "f\<lparr>f_cells := (f_cells f)[i := True], f_order_required := getMsgOrderFlag ?p\<rparr>"
  obtain g' where g': "collect ?p g = Some g'" "clip_of g' = clip_add (clip_of g) (packet_clip ?p)" "g_collected g' = g_collected g + 1"
    "g_base g' = g_base g" "length (g_payload_clip g') = length (g_payload_clip g)" "Group.more g' = Group.more g"
    using collect_packet [of g ?p] sq(3) g(5) by auto
  have fec: "g_fec g' = F" using g'(6) g(4) by (cases g; cases g') simp
  let ?f' = "?f\<lparr>f_rowq := [g']\<rparr>"
  have rr: "row_receiver ?f' c n b X ps (L @ [?p]) F"
    using r g g' fec i(1) d new
    by (auto simp: row_receiver_def nth_list_update clip_sum_snoc clip_comm clip_left_comm clip_assoc nth_eq_iff_index_eq)
  have unk: "\<not> known_packet ?p f" using l(2) r i(1) new by (simp add: row_receiver_def)
  have cc: "numberCols ?f = cfg_cols c" "numberRows ?f = 1" "cfg_cols c < 100000000" "2 \<le> cfg_cols c" "cfg_rows c = 1"
    using r c by (simp_all add: row_receiver_def row_config_def)
  have "row_step ?p f = Some f''" if f'': "(if F \<and> length L + 2 = cfg_cols c then row_finish g' ?f' else Some ?f') = Some f''"
    "length (f_rowq f'') = 1" "f_cfg f'' = c" for f''
  proof -
    have "(length L + 1 = cfg_cols c - 1) = (length L + 2 = cfg_cols c)" using cc(4) by auto
    then have "HangHorizontal ?p False ?f = Some (True, [], f'')"
      using hang_row [of ?f g b i ?p False g' f''] g g' fec i(1) cc sq(1) f'' by simp
    then show ?thesis using l unk sq(2) f''(3) cc(5) by (intro receive_single [where isfec = False]) auto
  qed
  then show ?thesis using rr by (intro exI [of _ g'] exI [of _ ?f']) simp
qed

lemma receive_control:
  assumes r: "row_receiver f c n b X ps L False" and c: "row_config c n"
    and p: "seq_of p = sq (b + int (cfg_cols c - 1))" "getMsgSeq p True = 0" "packet_bytes p = Some d" "pv_data p = Some d" "length d = n + 4" "d ! 0 = - 1"
    and X: "X = (le16 (d ! 2) (d ! 3), d ! 1, getMsgTimeStamp p, byte_at (drop 4 d))"
  shows "\<exists>g f'. row_receiver f' c n b X ps L True \<and> f_rowq f' = [g] \<and>
    (\<forall>f''. (if length L + 1 = cfg_cols c then row_finish g f' else Some f') = Some f'' \<and> length (f_rowq f'') = 1 \<and> f_cfg f'' = c
       \<longrightarrow> row_step p f = Some f'')"
proof -
  have cc: "numberCols f = cfg_cols c" "numberRows f = 1" "cfg_cols c < 100000000" "2 \<le> cfg_cols c" "cfg_rows c = 1"
    using r c by (simp_all add: row_receiver_def row_config_def)
  have i: "cfg_cols c - 1 < cfg_cols c" using cc(4) by simp
  note l = row_lookup [OF r c i p(1)]
  obtain g where g: "f_rowq f = [g]" "g_base g = sq b" "g_collected g = length L" "\<not> g_fec g" "length (g_payload_clip g) = n"
    "clip_of g = clip_sum L" using r by (auto simp: row_receiver_def)
  obtain g1 where g1: "ClipData (le16 (d ! 2) (d ! 3)) (d ! 1) (getMsgTimeStamp p) (drop 4 d) g = Some g1"
    using p(5) g(5) by (simp add: ClipData_def)
  have k: "ClipControlPacket p g = Some g1" using p(3,5) g1 by (simp add: ClipControlPacket_def)
  note g1' = ClipData_clip [OF g1]
  let ?g = "g1\<lparr>g_fec := True\<rparr>" and ?f = "f\<lparr>f_order_required := getMsgOrderFlag p\<rparr>"
  let ?f' = "?f\<lparr>f_rowq := [?g]\<rparr>"
  have "clip_of ?g = clip_of g1" by (simp add: clip_of_def)
  then have rr: "row_receiver ?f' c n b X ps L True"
    using r g g1' X by (auto simp: row_receiver_def)
  have "row_step p f = Some f''" if f'': "(if length L + 1 = cfg_cols c then row_finish ?g ?f' else Some ?f') = Some f''"
    "length (f_rowq f'') = 1" "f_cfg f'' = c" for f''
  proof -
    have "(length L = cfg_cols c - 1) = (length L + 1 = cfg_cols c)" using cc(4) by auto
    then have "HangHorizontal p True ?f = Some (True, [], f'')"
      using hang_row [of ?f g b "cfg_cols c - 1" p True ?g f''] g g1' k i cc p(1) f'' by simp
    moreover have "d = - 1 # tl d" using p(5,6) by (cases d) auto
    ultimately show ?thesis using l p(2,4) f''(3) cc(5) by (intro receive_single [where isfec = True and ds = "tl d"]) auto
  qed
  then show ?thesis using rr by (intro exI [of _ ?g] exI [of _ ?f']) simp
qed


subsection \<open>The rebuilt packet\<close>

definition recovered :: "SrtPacket \<Rightarrow> CPacket \<Rightarrow> bool" where
  "recovered r p \<longleftrightarrow> sp_seqno r = ph_seqno p \<and> sp_timestamp r = getMsgTimeStamp p \<and>
     packet_bytes p = Some (take (sp_length r) (sp_buffer r)) \<and> bits_unwrap 28 27 (sp_msgno r) = getMsgCryptoFlags p"

lemma first_gap_only:
  "\<forall>i\<in>set cs. i < length (f_cells f) \<and> (f_cells f ! i \<longleftrightarrow> i \<noteq> k) \<Longrightarrow> k \<in> set cs \<Longrightarrow> first_gap cs f = (Some k, f)"
  by (induction cs) (auto simp: CellAt_def)

lemma crypto_byte: "ucast (ucast (getMsgCryptoFlags p) :: 8 word) = getMsgCryptoFlags p"
  by (intro bit_eqI) (auto simp: bit_ucast_iff getMsgCryptoFlags_def bit_unwrap)

lemma crypto_of_rebuilt:
  "bits_unwrap 28 27 (1 OR PacketBoundaryBits PB_SOLO OR MSGNO_PACKET_INORDER_wrap inord OR bits_wrap 28 27 (getMsgCryptoFlags p) OR bits_wrap 26 26 1)
    = getMsgCryptoFlags p"
proof -
  have "bits_unwrap 28 27 1 = 0" by (intro bit_eqI) (simp add: bit_unwrap bit_1_iff)
  moreover have "bits_fit 28 27 (getMsgCryptoFlags p)" unfolding getMsgCryptoFlags_def by (rule unwrap_fit) simp_all
  ultimately show ?thesis by (simp add: unwrap_or unwrap_wrap unwrap_wrap_disjoint header_defs)
qed

lemma byte_at_inj: "length xs = n \<Longrightarrow> length d \<le> n \<Longrightarrow> byte_at xs = byte_at d \<Longrightarrow> take (length d) xs = d"
proof (rule nth_equalityI)
  fix i assume a: "length d \<le> n" "length xs = n" "byte_at xs = byte_at d" "i < length (take (length d) xs)"
  then have "byte_at xs i = byte_at d i" by simp
  then show "take (length d) xs ! i = d ! i" using a(1,2,4) by (simp add: byte_at_def)
qed simp

lemma row_finish_spec:
  assumes r: "row_receiver f c n b (clip_sum ps) ps L True" "f_rowq f = [g]" and c: "row_config c n"
    and m: "mset (ps ! k # L) = mset ps" "k < length ps" and p: "row_packets b n ps" "length ps = cfg_cols c" "distinct ps"
  shows "\<exists>q. row_finish g f = Some (f\<lparr>f_rebuilt := [q]\<rparr>) \<and> recovered q (ps ! k) \<and> \<not> f_cells f ! k"
proof -
  let ?p = "ps ! k"
  have P: "seq_of ?p = sq (b + int k)" "clippable n ?p" using p(1) m(2) by (simp_all add: row_packets_def row_packet_def)
  obtain d where d: "packet_bytes ?p = Some d" "length d \<le> n" using P(2) by (auto simp: clippable_def)
  have len: "getLength ?p = length d" using packet_bytes_length [OF d(1)] by simp
  have R: "f_payloadSize f = n" "f_cell_base f = sq b" "f_rebuilt f = []" "length (f_cells f) = length ps" "g_base g = sq b"
    "length (g_payload_clip g) = n" "numberCols f = length ps" and cl: "clip_of g = clip_add (clip_sum L) (clip_sum ps)"
    and cells: "\<And>i. i < length ps \<Longrightarrow> f_cells f ! i = (ps ! i \<in> set L)"
    using r p(2) by (auto simp: row_receiver_def)
  have pc: "clip_of g = packet_clip ?p" using cl clip_sum_missing [OF m(1)] by simp
  then have G: "g_length_clip g = htons (of_nat (length d))" "g_flag_clip g = ucast (getMsgCryptoFlags ?p)"
    "g_timestamp_clip g = getMsgTimeStamp ?p" "byte_at (g_payload_clip g) = byte_at d"
    using d(1) len by (simp_all add: clip_of_def packet_clip_def)
  have "distinct (?p # L)" using m(1) p(3) by (metis mset_eq_imp_distinct_iff)
  moreover have "set L = set ps - {?p}" using calculation mset_eq_setD [OF m(1)] by auto
  ultimately have cell: "f_cells f ! i \<longleftrightarrow> i \<noteq> k" if "i < length ps" for i
    using cells [OF that] that m(2) p(3) by (auto simp: nth_eq_iff_index_eq)
  have gap: "first_gap [0 ..< 0 + length ps] f = (Some k, f)" by (rule first_gap_only) (use cell R(4) m(2) in auto)
  have k: "k < 100000000" "length d < 65536" using c p(2) m(2) d(2) by (auto simp: row_config_def SRT_LIVE_MAX_PLSIZE_def)
  have "RcvGetLossSeqHoriz g f = (sq (b + int k), f)"
    using gap R(2,5,7) k by (simp add: RcvGetLossSeqHoriz_def loss_seq_def seqoff_near incseq_by_sq)
  moreover have hw: "unat (htons (g_length_clip g)) = length d" using G(1) k(2) by (simp add: unat_of_nat)
  define q where "q = \<lparr>sp_seqno = word_of_int (sq (b + int k)),
           sp_msgno = 1 OR PacketBoundaryBits PB_SOLO OR MSGNO_PACKET_INORDER_wrap (f_order_required f) OR
             bits_wrap 28 27 (ucast (g_flag_clip g)) OR bits_wrap 26 26 1,
           sp_timestamp = g_timestamp_clip g, sp_id = f_id f, sp_buffer = g_payload_clip g, sp_length = length d\<rparr>"
  have "rebuilt_packet g (sq (b + int k)) f = Some q" using hw R(1) d(2) by (simp add: rebuilt_packet_def q_def)
  moreover have "\<not> length (g_payload_clip g) > SRT_LIVE_MAX_PLSIZE" using R(6) c by (simp add: row_config_def)
  ultimately have "row_finish g f = Some (f\<lparr>f_rebuilt := [q]\<rparr>)"
    using R(3) by (simp add: row_finish_def RcvRebuild.simps rebuild_step_def)
  moreover have "ph_seqno ?p = word_of_int (seq_of ?p)" by (simp add: seq_of_def)
  then have "recovered q ?p"
    using P(1) G d R(6) crypto_of_rebuilt byte_at_inj [OF R(6) d(2) G(4)] by (simp add: recovered_def q_def crypto_byte)
  ultimately show ?thesis using cell [OF m(2)] by blast
qed


subsection \<open>Any order of arrival\<close>

fun receive_row :: "CPacket list \<Rightarrow> FEC \<Rightarrow> FEC option" where
  "receive_row [] f = Some f"
| "receive_row (p # ps) f = do { f \<leftarrow> row_step p f; receive_row ps f }"

definition row_done :: "CPacket list \<Rightarrow> nat \<Rightarrow> FEC \<Rightarrow> bool" where
  "row_done ps k f \<longleftrightarrow> (\<exists>q. f_rebuilt f = [q] \<and> recovered q (ps ! k)) \<and> \<not> f_cells f ! k"

definition row_control :: "int \<Rightarrow> nat \<Rightarrow> nat \<Rightarrow> CPacket list \<Rightarrow> CPacket \<Rightarrow> bool" where
  "row_control b m n ps C \<longleftrightarrow> seq_of C = sq (b + int (m - 1)) \<and> getMsgSeq C True = 0 \<and>
     (\<exists>d. packet_bytes C = Some d \<and> pv_data C = Some d \<and> length d = n + 4 \<and> d ! 0 = - 1 \<and>
        clip_sum ps = (le16 (d ! 2) (d ! 3), d ! 1, getMsgTimeStamp C, byte_at (drop 4 d)))"

lemma receive_rest:
  assumes "row_receiver f c n b (clip_sum ps) ps L F" "mset xs + mset L + (if F then {#C#} else {#}) = mset (C # rest)" "xs \<noteq> []"
    and "row_config c n" "row_packets b n ps" "length ps = cfg_cols c" "distinct ps" "mset (ps ! k # rest) = mset ps" "k < length ps"
    and "row_control b (cfg_cols c) n ps C" "C \<notin> set L"
  shows "\<exists>f'. receive_row xs f = Some f' \<and> row_done ps k f'"
  using assms
proof (induction xs arbitrary: f L F)
  case (Cons x xs)
  note c = Cons.prems(4) and ps = Cons.prems(5-7) and k = Cons.prems(8,9)
  have ms: "add_mset x (mset xs) + mset L + (if F then {#C#} else {#}) = add_mset C (mset rest)" using Cons.prems(2) by simp
  have lr: "length ps = Suc (length rest)" using k(1) by (metis length_Cons mset_eq_length)
  have "Suc (length xs) + length L + (if F then 1 else 0) = Suc (length rest)" using arg_cong [OF ms, of size] by (auto split: if_splits)
  then have sz: "length xs + length L + (if F then 1 else 0) + 1 = cfg_cols c" using lr ps(2) by linarith
  have data: "getMsgSeq p True \<noteq> 0" if "p \<in> set ps" for p
    using that ps(1) by (auto simp: row_packets_def row_packet_def in_set_conv_nth)
  have restps: "set rest \<subseteq> set ps" using mset_eq_setD [OF k(1)] by auto
  have C: "getMsgSeq C True = 0" using Cons.prems(10) by (simp add: row_control_def)
  have Cn: "C \<notin># mset rest" using data restps C by auto
  obtain d where d: "seq_of C = sq (b + int (cfg_cols c - 1))" "packet_bytes C = Some d" "pv_data C = Some d" "length d = n + 4" "d ! 0 = - 1"
    "clip_sum ps = (le16 (d ! 2) (d ! 3), d ! 1, getMsgTimeStamp C, byte_at (drop 4 d))"
    using Cons.prems(10) by (auto simp: row_control_def)
  have fin: "\<exists>f'. receive_row (x # xs) f = Some f' \<and> row_done ps k f'"
    if s: "row_receiver f1 c n b (clip_sum ps) ps L1 F1" "f_rowq f1 = [g]"
      "\<forall>f''. (if xs = [] then row_finish g f1 else Some f1) = Some f'' \<and> length (f_rowq f'') = 1 \<and> f_cfg f'' = c \<longrightarrow> row_step x f = Some f''"
      "mset xs + mset L1 + (if F1 then {#C#} else {#}) = mset (C # rest)" "xs = [] \<Longrightarrow> F1" "C \<notin> set L1" for f1 L1 F1 g
  proof (cases "xs = []")
    case True
    then have "F1" "mset (ps ! k # L1) = mset ps" using s(4,5) k(1) by auto
    moreover then have "row_receiver f1 c n b (clip_sum ps) ps L1 True" using s(1) by simp
    ultimately obtain q where q: "row_finish g f1 = Some (f1\<lparr>f_rebuilt := [q]\<rparr>)" "recovered q (ps ! k)" "\<not> f_cells f1 ! k"
      using row_finish_spec [OF _ s(2) c _ k(2) ps(1,2,3)] by blast
    then have "row_step x f = Some (f1\<lparr>f_rebuilt := [q]\<rparr>)" using s(1,2,3) True by (simp add: row_receiver_def)
    then show ?thesis using True q by (simp add: row_done_def)
  next
    case False
    then have "row_step x f = Some f1" using s(1,2,3) by (simp add: row_receiver_def)
    then show ?thesis using Cons.IH [OF s(1,4) False Cons.prems(4-10) s(6)] by simp
  qed
  show ?case
  proof (cases "x = C")
    case True
    have nF: "\<not> F"
    proof
      assume F
      then have "mset rest = add_mset C (mset xs + mset L)" using ms True by simp
      then show False using Cn by simp
    qed
    then obtain g f1 where g: "row_receiver f1 c n b (clip_sum ps) ps L True" "f_rowq f1 = [g]"
      "\<forall>f''. (if length L + 1 = cfg_cols c then row_finish g f1 else Some f1) = Some f'' \<and> length (f_rowq f'') = 1 \<and> f_cfg f'' = c \<longrightarrow> row_step C f = Some f''"
      using receive_control [OF _ c d(1) C d(2-6), of f ps L] Cons.prems(1) nF by (simp only:) blast
    have "(length L + 1 = cfg_cols c) = (xs = [])" using sz nF by (cases xs) auto
    then show ?thesis using fin [OF g(1,2)] g(3) ms True nF Cons.prems(11) by (simp add: add.commute)
  next
    case False
    have "x \<in># add_mset C (mset rest)" unfolding ms [symmetric] by simp
    then have "x \<in># mset rest" using False by simp
    then have "x \<in> set ps" using restps by auto
    then obtain i where i: "i < length ps" "x = ps ! i" by (metis in_set_conv_nth)
    have dr: "distinct rest" using k(1) ps(3) by (metis distinct.simps(2) mset_eq_imp_distinct_iff)
    have "x \<notin> set L"
    proof
      assume "x \<in> set L"
      then have "0 < count (mset L) x" by simp
      moreover have "count (mset rest) x = Suc (count (mset xs) x + count (mset L) x + count (if F then {#C#} else {#}) x)"
        using arg_cong [OF ms, of "\<lambda>M. count M x"] False by simp
      ultimately have "count (mset rest) x \<ge> 2" by linarith
      moreover have "count (mset rest) x = (if x \<in> set rest then 1 else 0)" using dr by (simp only: distinct_count_atmost_1)
      ultimately show False by (simp split: if_splits)
    qed
    then obtain g f1 where g: "row_receiver f1 c n b (clip_sum ps) ps (L @ [x]) F" "f_rowq f1 = [g]"
      "\<forall>f''. (if F \<and> length L + 2 = cfg_cols c then row_finish g f1 else Some f1) = Some f'' \<and> length (f_rowq f'') = 1 \<and> f_cfg f'' = c \<longrightarrow> row_step x f = Some f''"
      using receive_data [OF Cons.prems(1) c, of i] i ps by (auto simp: row_packets_def)
    have F1: "F" if "xs = []"
    proof (rule ccontr)
      assume "\<not> F"
      moreover have "C \<in># add_mset x (mset xs) + mset L + (if F then {#C#} else {#})" unfolding ms by simp
      ultimately have "C \<in># add_mset x (mset L)" using that by simp
      then show False using False Cons.prems(11) by simp
    qed
    have "(F \<and> length L + 2 = cfg_cols c) = (xs = [])" using sz F1 by (cases F; cases xs) auto
    then show ?thesis using fin [OF g(1,2)] g(3) ms F1 False Cons.prems(11) by simp
  qed
qed simp


lemma receiver_start:
  "row_config c n \<Longrightarrow> length ps = cfg_cols c \<Longrightarrow> row_receiver (fec_new c n i si (sq b) []) c n (b + 1) X ps [] False"
  by (auto simp: row_receiver_def fec_new_def Let_def row_config_def incseq_sq ConfigureGroup_def rgroup_init_def group_init_def
      RcvGroup.defs Group.defs clip_of_def clip_sum_def clip_zero_def byte_at_def fun_eq_iff)

lemma sender_start: "row_sender (fec_new c n i (sq b) ri pr) c n (b + 1) []"
  by (auto simp: row_sender_def fec_new_def Let_def incseq_sq ConfigureGroup_def group_init_def clip_of_def clip_sum_def
      clip_zero_def byte_at_def fun_eq_iff)

lemma row_distinct:
  assumes "row_packets b n ps" "length ps < 100000000"
  shows "distinct ps"
proof -
  have "i = j" if "i < length ps" "j < length ps" "ps ! i = ps ! j" for i j
  proof -
    have "sq (b + int i) = sq (b + int j)" using assms(1) that by (metis row_packets_def row_packet_def)
    then show ?thesis using sq_near_eq [of "b + int i" "b + int j"] that(1,2) assms(2) by simp
  qed
  then show ?thesis by (auto simp: distinct_conv_nth)
qed

text \<open>
  C3. A lost packet comes back: when the sender has fed the packets of a row into the filter it makes a control
  packet, and a receiver that gets this one and all packets of the row but one, in any order, rebuilds exactly that
  packet, with its sequence number, time stamp, encryption flags, length and bytes. Its cell stays empty.
\<close>
theorem fec_row_recovery:
  assumes c: "row_config c n" and ps: "row_packets (b + 1) n ps" "length ps = cfg_cols c" and k: "k < length ps"
  shows "\<exists>s fp s'. feed_all ps (fec_new c n i1 (sq b) ri []) = Some s \<and>
    packControlPacket (seq_of (last ps)) rpkt s = Some (True, fp, s') \<and>
    (\<forall>xs. mset xs = mset (control_packet fp kflg # take k ps @ drop (Suc k) ps) \<longrightarrow>
      (\<exists>f q. receive_row xs (fec_new c n i2 si (sq b) []) = Some f \<and> f_rebuilt f = [q] \<and> recovered q (ps ! k) \<and> \<not> f_cells f ! k))"
proof -
  have ne: "ps \<noteq> []" "2 \<le> length ps" "length ps < 100000000" using k c ps(2) by (auto simp: row_config_def)
  obtain s where s: "feed_all ps (fec_new c n i1 (sq b) ri []) = Some s" "row_sender s c n (b + 1) ps"
    using feed_rows [OF sender_start c] ps by (metis append_Nil le_refl)
  obtain fp s' where p: "packControlPacket (seq_of (last ps)) rpkt s = Some (True, fp, s')" "sp_seqno fp = word_of_int (seq_of (last ps))"
    "packet_bytes (control_packet fp kflg) = Some (sp_buffer fp)" "length (sp_buffer fp) = n + 4" "sp_buffer fp ! 0 = - 1"
    "(le16 (sp_buffer fp ! 2) (sp_buffer fp ! 3), sp_buffer fp ! 1, sp_timestamp fp, byte_at (drop 4 (sp_buffer fp))) = clip_sum ps"
    using pack_row [OF s(2) c ps(2) ne(1), of rpkt kflg] by blast
  let ?C = "control_packet fp kflg" and ?rest = "take k ps @ drop (Suc k) ps"
  have "seq_of (last ps) = sq (b + 1 + int (length ps - 1))" using ps(1) ne(1) by (simp add: last_conv_nth row_packets_def row_packet_def)
  moreover have "seq_of ?C = seq_of (last ps)" by (simp add: seq_of_def p(2))
  ultimately have rc: "row_control (b + 1) (cfg_cols c) n ps ?C" using p ps(2) by (simp add: row_control_def)
  have "ps = take k ps @ ps ! k # drop (Suc k) ps" using k by (rule id_take_nth_drop)
  then have m: "mset (ps ! k # ?rest) = mset ps" by (metis mset_append mset.simps(2) union_mset_add_mset_right)
  have "\<exists>f. receive_row xs (fec_new c n i2 si (sq b) []) = Some f \<and> row_done ps k f"
    if x: "mset xs = mset (?C # ?rest)" for xs
  proof -
    have x': "mset xs + mset [] + (if False then {#?C#} else {#}) = mset (?C # ?rest)" using x by simp
    have "xs \<noteq> []" using x by auto
    from receive_rest [OF receiver_start [OF c ps(2)] x' this c ps row_distinct [OF ps(1) ne(3)] m k rc] show ?thesis by simp
  qed
  then show ?thesis using s(1) p(1) by (fastforce simp: row_done_def)
qed


text \<open>A row of three packets of one to three bytes; the second one is lost and the control packet comes first.\<close>

definition row_cfg :: FecConfig where
  "row_cfg = \<lparr>cfg_cols = 3, cfg_rows = 1, cfg_cols_only = False, cfg_staircase = True, cfg_level = SRT_ARQ_ONREQ\<rparr>"

definition row_data :: "nat \<Rightarrow> CPacket" where
  "row_data i = packet_new\<lparr>ph_seqno := word_of_int (sq (1000 + int i)), ph_msgno := 1, ph_timestamp := of_nat (50 * i),
     pv_data := Some (replicate (i + 1) 7), pv_len := i + 1\<rparr>"

lemma row_data_packets: "row_packets 1000 10 (map row_data [0 ..< 3])"
proof -
  have "seq_of (row_data i) = sq (1000 + int i)" if "i < 3" for i
    using that by (auto simp: seq_of_def row_data_def sq_def less_Suc_eq numeral_3_eq_3)
  moreover have "getMsgSeq (row_data i) True \<noteq> 0" for i
  proof -
    have "bits_unwrap 25 0 1 \<noteq> 0" by code_simp
    then show ?thesis by (simp add: getMsgSeq_def row_data_def)
  qed
  ultimately show ?thesis
    by (auto simp: row_packets_def row_packet_def clippable_def packet_bytes_def getLength_def row_data_def nth_Cons split: nat.splits)
qed

theorem fec_row_recovery_witness:
  "\<exists>s fp s' f q. feed_all (map row_data [0 ..< 3]) (fec_new row_cfg 10 5 (sq 999) 0 []) = Some s \<and>
    packControlPacket (sq 1002) \<lparr>sp_seqno = 0, sp_msgno = 0, sp_timestamp = 0, sp_id = 0, sp_buffer = [], sp_length = 0\<rparr> s = Some (True, fp, s') \<and>
    receive_row [control_packet fp EK_NOENC, row_data 2, row_data 0] (fec_new row_cfg 10 6 0 (sq 999) []) = Some f \<and>
    f_rebuilt f = [q] \<and> take (sp_length q) (sp_buffer q) = [7, 7]"
proof -
  let ?ps = "map row_data [0 ..< 3]" and ?r = "\<lparr>sp_seqno = 0, sp_msgno = 0, sp_timestamp = 0, sp_id = 0, sp_buffer = [], sp_length = 0\<rparr>"
  have c: "row_config row_cfg 10" by (simp add: row_config_def row_cfg_def SRT_LIVE_MAX_PLSIZE_def)
  have p: "row_packets (999 + 1) 10 ?ps" "length ?ps = cfg_cols row_cfg" "1 < length ?ps" using row_data_packets by (simp_all add: row_cfg_def)
  have l: "seq_of (last ?ps) = sq 1002" by (simp add: seq_of_def row_data_def sq_def numeral_3_eq_3)
  have pb: "packet_bytes (?ps ! 1) = Some [7, 7]" by (simp add: packet_bytes_def row_data_def getLength_def numeral_3_eq_3 numeral_2_eq_2)
  obtain s fp s' where s: "feed_all ?ps (fec_new row_cfg 10 5 (sq 999) 0 []) = Some s" "packControlPacket (sq 1002) ?r s = Some (True, fp, s')"
    "\<And>xs. mset xs = mset (control_packet fp EK_NOENC # take 1 ?ps @ drop (Suc 1) ?ps) \<Longrightarrow>
      (\<exists>f q. receive_row xs (fec_new row_cfg 10 6 0 (sq 999) []) = Some f \<and> f_rebuilt f = [q] \<and> recovered q (?ps ! 1) \<and> \<not> f_cells f ! 1)"
    using fec_row_recovery [OF c p, of 5 0 ?r EK_NOENC 6 0] unfolding l by blast
  have "mset [control_packet fp EK_NOENC, row_data 2, row_data 0] = mset (control_packet fp EK_NOENC # take 1 ?ps @ drop (Suc 1) ?ps)"
    by (simp add: numeral_3_eq_3 numeral_2_eq_2)
  from s(3) [OF this] s(1,2) pb show ?thesis by (fastforce simp: recovered_def)
qed

end
