(* ===== verification/FecMatrix.thy ===== *)
theory FecMatrix
  imports Fec
begin

unbundle bit_operations_syntax

text \<open>
  The shape of the matrix of the packet filter: where the columns start, how long the cascade of rebuilt packets
  can get, and which packets are given up.
\<close>

subsection \<open>Rebuilding ends\<close>

text \<open>\<open>RcvRebuild\<close> with a bound on the depth of the recursion; \<open>None\<close> means that the bound was too small.\<close>

fun rebuild_depth :: "nat \<Rightarrow> RcvGroup \<Rightarrow> int \<Rightarrow> GroupType \<Rightarrow> FEC \<Rightarrow> FEC option option" where
  "rebuild_depth 0 g seqno tp f = None"
| "rebuild_depth (Suc n) g seqno tp f =
     (case rebuild_step g seqno tp f of
        None \<Rightarrow> Some None
      | Some (None, f) \<Rightarrow> Some (Some f)
      | Some (Some (g, seqno, tp), f) \<Rightarrow> rebuild_depth n g seqno tp f)"

lemma rebuild_depth_enough:
  "missing f < n \<Longrightarrow> rebuild_depth n g seqno tp f = Some (RcvRebuild g seqno tp f)"
proof (induction n g seqno tp f rule: rebuild_depth.induct)
  case (2 n g seqno tp f)
  show ?case
  proof (cases "rebuild_step g seqno tp f")
    case (Some r)
    then show ?thesis
    proof (cases "fst r")
      case (Some a)
      obtain g' s' t' where a: "a = (g', s', t')" by (cases a) auto
      have e: "rebuild_step g seqno tp f = Some (Some (g', s', t'), snd r)" using \<open>rebuild_step g seqno tp f = Some r\<close> Some a by (cases r) auto
      have "rebuild_depth n g' s' t' (snd r) = Some (RcvRebuild g' s' t' (snd r))"
        using "2.IH" [OF e refl refl refl refl] rebuild_step_missing [OF e] "2.prems" by simp
      then show ?thesis using e by (simp add: RcvRebuild.simps [of g])
    qed (cases r; simp add: RcvRebuild.simps [of g])
  qed (simp add: RcvRebuild.simps [of g])
qed simp

lemma shrink_rebuilt:
  "shrink_rows x f = Some r \<Longrightarrow> f_rebuilt (snd r) = f_rebuilt f"
  "shrink_columns x f = Some r \<Longrightarrow> f_rebuilt (snd r) = f_rebuilt f"
  by (auto simp: shrink_rows_def shrink_columns_def reset_rows_def Let_def bind_eq_Some_conv split: if_splits)

lemma extend_rebuilt:
  "ExtendRows x f = Some r \<Longrightarrow> f_rebuilt (snd r) = f_rebuilt f"
  "ExtendColumns x f = Some r \<Longrightarrow> f_rebuilt (snd r) = f_rebuilt f"
  by (auto simp: ExtendRows_def ExtendColumns_def Let_def bind_eq_Some_conv dest!: shrink_rebuilt)

lemma index_rebuilt:
  "RcvGetRowGroupIndex s f = Some r \<Longrightarrow> f_rebuilt (snd r) = f_rebuilt f"
  "RcvGetColumnGroupIndex s f = Some r \<Longrightarrow> f_rebuilt (snd r) = f_rebuilt f"
  by (auto simp: RcvGetRowGroupIndex_def RcvGetColumnGroupIndex_def Let_def bind_eq_Some_conv split: if_splits dest!: extend_rebuilt)

lemma get_loss_rebuilt [simp]:
  "f_rebuilt (snd (RcvGetLossSeqHoriz g f)) = f_rebuilt f" "f_rebuilt (snd (RcvGetLossSeqVert h f)) = f_rebuilt f"
  using get_loss_fields [of g f "fst (RcvGetLossSeqHoriz g f)" "snd (RcvGetLossSeqHoriz g f)"]
    get_loss_fields [of h f "fst (RcvGetLossSeqVert h f)" "snd (RcvGetLossSeqVert h f)"] by simp_all

lemma cross_rebuilt:
  "cross_horiz p s f = Some r \<Longrightarrow> f_rebuilt (snd r) = f_rebuilt f"
  "cross_vert p s f = Some r \<Longrightarrow> f_rebuilt (snd r) = f_rebuilt f"
  by (auto simp: cross_horiz_def cross_vert_def Let_def bind_eq_Some_conv case_prod_beta split: if_splits option.splits
      dest!: index_rebuilt)

lemma rebuild_step_rebuilt:
  assumes "rebuild_step g s tp f = Some (x, f')"
  shows "\<exists>qs. f_rebuilt f' = f_rebuilt f @ qs \<and> length qs \<le> 1"
proof (cases "rebuilt_packet g s f")
  case None
  then show ?thesis using assms by (auto simp: rebuild_step_def split: if_splits)
next
  case (Some p)
  have "f_rebuilt f' = f_rebuilt f \<or> f_rebuilt f' = f_rebuilt f @ [p]"
    using assms Some by (auto simp: rebuild_step_def Let_def bind_eq_Some_conv split: if_splits dest!: cross_rebuilt MarkCell_fields)
  then show ?thesis by auto
qed

lemma RcvRebuild_rebuilt:
  "RcvRebuild g s tp f = Some f' \<Longrightarrow> \<exists>qs. f_rebuilt f' = f_rebuilt f @ qs \<and> length qs \<le> missing f + 1"
proof (induction g s tp f rule: RcvRebuild.induct)
  case (1 g s tp f)
  show ?case
  proof (cases "rebuild_step g s tp f")
    case None
    then show ?thesis using "1.prems" by (simp add: RcvRebuild.simps [of g])
  next
    case (Some r)
    show ?thesis
    proof (cases "fst r")
      case None
      then have e: "rebuild_step g s tp f = Some (None, snd r)" using Some by (cases r) auto
      then have "f' = snd r" using "1.prems" by (simp add: RcvRebuild.simps [of g])
      then show ?thesis using rebuild_step_rebuilt [OF e] by fastforce
    next
      case (Some a)
      obtain g' s' t' where a: "a = (g', s', t')" by (cases a) auto
      have e: "rebuild_step g s tp f = Some (Some (g', s', t'), snd r)" using \<open>rebuild_step g s tp f = Some r\<close> Some a by (cases r) auto
      have "RcvRebuild g' s' t' (snd r) = Some f'" using "1.prems" e by (simp add: RcvRebuild.simps [of g])
      then obtain qs where q: "f_rebuilt f' = f_rebuilt (snd r) @ qs" "length qs \<le> missing (snd r) + 1"
        using "1.IH" [OF e refl refl refl refl] by blast
      obtain q1 where "f_rebuilt (snd r) = f_rebuilt f @ q1" "length q1 \<le> 1" using rebuild_step_rebuilt [OF e] by blast
      then have "f_rebuilt f' = f_rebuilt f @ (q1 @ qs)" "length (q1 @ qs) \<le> missing f + 1"
        using q rebuild_step_missing [OF e] by simp_all
      then show ?thesis by blast
    qed
  qed
qed

text \<open>
  C20. The cascade of rebuilt packets ends: every further call of the recursion fills a place that an existing row or
  column misses, so that the depth is bounded by the number of these places, and one call adds at most one packet more
  than that to the rebuilt ones.
\<close>
theorem RcvRebuild_ends:
  assumes "missing f < n"
  shows "rebuild_depth n g seqno tp f = Some (RcvRebuild g seqno tp f) \<and>
    (\<forall>f'. RcvRebuild g seqno tp f = Some f' \<longrightarrow> (\<exists>qs. f_rebuilt f' = f_rebuilt f @ qs \<and> length qs \<le> missing f + 1))"
  using rebuild_depth_enough [OF assms] RcvRebuild_rebuilt by blast

definition small_cfg :: FecConfig where
  "small_cfg = \<lparr>cfg_cols = 3, cfg_rows = 2, cfg_cols_only = False, cfg_staircase = False, cfg_level = SRT_ARQ_ONREQ\<rparr>"

theorem RcvRebuild_ends_witness:
  "rebuild_depth 10 (row_group (fec_new small_cfg 4 1 0 0 []) 1) 1 HORIZ (fec_new small_cfg 4 1 0 0 []) =
     Some (RcvRebuild (row_group (fec_new small_cfg 4 1 0 0 []) 1) 1 HORIZ (fec_new small_cfg 4 1 0 0 [])) \<and>
   missing (fec_new small_cfg 4 1 0 0 []) = 9"
proof -
  have "missing (fec_new small_cfg 4 1 0 0 []) = 9" by code_simp
  then show ?thesis using RcvRebuild_ends [of "fec_new small_cfg 4 1 0 0 []" 10] by simp
qed

subsection \<open>Losses that are given up\<close>

abbreviation range_of :: "int \<Rightarrow> nat \<times> nat \<Rightarrow> int \<times> int" where
  "range_of base ab \<equiv> (incseq_by base (int (fst ab)), incseq_by base (int (snd ab)))"

definition covers :: "(nat \<times> nat) list \<Rightarrow> nat \<Rightarrow> bool" where
  "covers rs k \<longleftrightarrow> (\<exists>ab \<in> set rs. fst ab \<le> k \<and> k \<le> snd ab)"

lemma covers_simps [simp]:
  "\<not> covers [] k" "covers (ab # rs) k \<longleftrightarrow> fst ab \<le> k \<and> k \<le> snd ab \<or> covers rs k"
  by (auto simp: covers_def)

text \<open>
  The places that the ranges made from \<open>i\<close> on cover: \<open>gone\<close> tells that no range is open, else it starts at \<open>a\<close>.
\<close>

definition in_run :: "bool list \<Rightarrow> bool \<Rightarrow> nat \<Rightarrow> nat \<Rightarrow> nat \<Rightarrow> nat \<Rightarrow> bool" where
  "in_run cells gone a i m k \<longleftrightarrow>
     (if k < i then \<not> gone \<and> a \<le> k else k < m \<and> (\<not> cells ! k \<or> (if k = i then \<not> gone else \<not> cells ! (k - 1))))"

lemma in_run_steps:
  assumes "i < m"
  shows "gone \<Longrightarrow> \<not> cells ! i \<Longrightarrow> in_run cells gone a i m k \<longleftrightarrow> in_run cells False i (Suc i) m k"
    "\<not> gone \<Longrightarrow> cells ! i \<Longrightarrow> a < i \<Longrightarrow> in_run cells gone a i m k \<longleftrightarrow> a \<le> k \<and> k \<le> i \<or> in_run cells True b (Suc i) m k"
    "gone = cells ! i \<Longrightarrow> \<not> gone \<longrightarrow> a < i \<Longrightarrow> in_run cells gone a i m k \<longleftrightarrow> in_run cells gone a (Suc i) m k"
proof -
  consider "k < i" | "k = i" | "k = Suc i" | "Suc i < k" by linarith
  note c = this
  show "gone \<Longrightarrow> \<not> cells ! i \<Longrightarrow> in_run cells gone a i m k \<longleftrightarrow> in_run cells False i (Suc i) m k"
    using c assms by cases (simp_all add: in_run_def)
  show "\<not> gone \<Longrightarrow> cells ! i \<Longrightarrow> a < i \<Longrightarrow> in_run cells gone a i m k \<longleftrightarrow> a \<le> k \<and> k \<le> i \<or> in_run cells True b (Suc i) m k"
    using c assms by cases (simp_all add: in_run_def)
  show "gone = cells ! i \<Longrightarrow> \<not> gone \<longrightarrow> a < i \<Longrightarrow> in_run cells gone a i m k \<longleftrightarrow> in_run cells gone a (Suc i) m k"
    using c assms by cases (auto simp: in_run_def)
qed

text \<open>The ranges with the open one closed at the end of the row.\<close>

lemma irrecover_scan_spec:
  assumes "irrecover_scan base cells [i ..< m] gone rng out = (l, r, out')" "i \<le> m"
    "\<not> gone \<longrightarrow> a < i \<and> fst rng = incseq_by base (int a)"
  shows "\<exists>rs. out' @ (if l then [] else [(fst r, incseq_by base (int (m - 1)))]) = out @ map (range_of base) rs \<and>
    (\<forall>k. covers rs k \<longleftrightarrow> in_run cells gone a i m k)"
  using assms
proof (induction "m - i" arbitrary: i gone rng out a)
  case 0
  then have "i = m" by simp
  then show ?case using "0.prems" by (cases gone) (auto simp: in_run_def intro: exI [of _ "[]"] exI [of _ "[(a, m - 1)]"])
next
  case (Suc n)
  then have lt: "i < m" "n = m - Suc i" "Suc i \<le> m" by simp_all
  let ?seq = "incseq_by base (int i)"
  have st: "irrecover_scan base cells (i # [Suc i ..< m]) gone rng out = (l, r, out')"
    using Suc.prems(1) lt by (simp add: upt_conv_Cons)
  consider "gone" "\<not> cells ! i" | "\<not> gone" "cells ! i" | "gone = cells ! i" by auto
  then show ?case
  proof cases
    case 1
    then have "irrecover_scan base cells [Suc i ..< m] False (?seq, ?seq) out = (l, r, out')" using st by (simp add: Let_def)
    from Suc.hyps(1) [OF lt(2) this lt(3), of i] show ?thesis using in_run_steps(1) [OF lt(1)] 1 by simp
  next
    case 2
    then have "irrecover_scan base cells [Suc i ..< m] True (fst rng, ?seq) (out @ [(fst rng, ?seq)]) = (l, r, out')" using st by (simp add: Let_def)
    from Suc.hyps(1) [OF lt(2) this lt(3), of 0] obtain rs where
      rs: "out' @ (if l then [] else [(fst r, incseq_by base (int (m - 1)))]) = (out @ [(fst rng, ?seq)]) @ map (range_of base) rs"
      "\<forall>k. covers rs k \<longleftrightarrow> in_run cells True 0 (Suc i) m k" by blast
    show ?thesis
    proof (intro exI conjI allI)
      show "out' @ (if l then [] else [(fst r, incseq_by base (int (m - 1)))]) = out @ map (range_of base) ((a, i) # rs)"
        using rs(1) 2(1) Suc.prems(3) by simp
      show "covers ((a, i) # rs) k \<longleftrightarrow> in_run cells gone a i m k" for k
        using in_run_steps(2) [OF lt(1) 2] Suc.prems(3) rs(2) 2(1) by simp
    qed
  next
    case 3
    then have "irrecover_scan base cells [Suc i ..< m] gone rng out = (l, r, out')" using st by (simp add: Let_def)
    then show ?thesis using Suc.hyps(1) [OF lt(2) _ lt(3), of gone rng out a] in_run_steps(3) [OF lt(1) 3, of a] Suc.prems(3)
      by (cases gone) (simp_all add: less_Suc_eq)
  qed
qed

text \<open>
  When a row is given up, the ranges reported as lost cover its empty cells and, behind every run of them
  that ends inside the row, the packet that was received.
\<close>
theorem CollectIrrecoverRow_reports:
  assumes "\<not> g_dismissed g" "seqoff (f_cell_base f) (g_base g) = int off" "0 < numberCols f"
    "off + numberCols f \<le> length (f_cells f)"
  shows "\<exists>rs. CollectIrrecoverRow f g irrecover =
      (g\<lparr>g_dismissed := True\<rparr>, irrecover @ map (\<lambda>(a, b). (incseq_by (f_cell_base f) (int a), incseq_by (f_cell_base f) (int b))) rs) \<and>
    (\<forall>k. (\<exists>(a, b) \<in> set rs. a \<le> k \<and> k \<le> b) \<longleftrightarrow>
      off \<le> k \<and> k < off + numberCols f \<and> (\<not> f_cells f ! k \<or> k \<noteq> off \<and> \<not> f_cells f ! (k - 1)))"
proof -
  let ?b = "f_cell_base f" and ?m = "off + numberCols f"
  obtain l r out where s: "irrecover_scan ?b (f_cells f) [off ..< ?m] True (0, 0) irrecover = (l, r, out)" by (cases "irrecover_scan ?b (f_cells f) [off ..< ?m] True (0, 0) irrecover") auto
  obtain rs where rs: "out @ (if l then [] else [(fst r, incseq_by ?b (int (?m - 1)))]) = irrecover @ map (range_of ?b) rs"
    "\<forall>k. covers rs k \<longleftrightarrow> off \<le> k \<and> k < ?m \<and> (\<not> f_cells f ! k \<or> k \<noteq> off \<and> \<not> f_cells f ! (k - 1))"
    using irrecover_scan_spec [OF s, of 0] by (auto simp: in_run_def)
  have m: "int ?m - 1 = int (?m - 1)" using assms(3) by simp
  have "CollectIrrecoverRow f g irrecover = (g\<lparr>g_dismissed := True\<rparr>, out @ (if l then [] else [(fst r, incseq_by ?b (int (?m - 1)))]))"
    using assms s by (simp add: CollectIrrecoverRow_def Let_def m [symmetric])
  then show ?thesis using rs by (intro exI [of _ rs]) (simp add: covers_def case_prod_beta)
qed

theorem CollectIrrecoverRow_reports_witness:
  "\<exists>f g rs. numberCols f = 3 \<and> f_cells f = [False, True, True] \<and>
     snd (CollectIrrecoverRow f g []) = map (\<lambda>(a, b). (incseq_by 1 (int a), incseq_by 1 (int b))) rs \<and>
     (\<forall>k. (\<exists>(a, b) \<in> set rs. a \<le> k \<and> k \<le> b) \<longleftrightarrow> k = 0 \<or> k = 1)"
proof -
  let ?f = "(fec_new small_cfg 4 1 0 0 [])\<lparr>f_cells := [False, True, True]\<rparr>"
  let ?g = "row_group ?f 1"
  have h: "\<not> g_dismissed ?g" "seqoff (f_cell_base ?f) (g_base ?g) = int 0" "0 < numberCols ?f" "0 + numberCols ?f \<le> length (f_cells ?f)"
    "numberCols ?f = 3" "f_cell_base ?f = 1"
    by code_simp+
  obtain rs where rs: "CollectIrrecoverRow ?f ?g [] = (?g\<lparr>g_dismissed := True\<rparr>, [] @ map (\<lambda>(a, b). (incseq_by (f_cell_base ?f) (int a), incseq_by (f_cell_base ?f) (int b))) rs)"
    "\<forall>k. (\<exists>(a, b) \<in> set rs. a \<le> k \<and> k \<le> b) \<longleftrightarrow>
      0 \<le> k \<and> k < 0 + numberCols ?f \<and> (\<not> f_cells ?f ! k \<or> k \<noteq> 0 \<and> \<not> f_cells ?f ! (k - 1))"
    using CollectIrrecoverRow_reports [OF h(1-4), of "[]"] by blast
  have "(k < 3 \<and> (\<not> [False, True, True] ! k \<or> k \<noteq> 0 \<and> \<not> [False, True, True] ! (k - 1))) \<longleftrightarrow> k = 0 \<or> k = 1" for k
    by (cases k; cases "k - 1") (auto simp: nth_Cons split: nat.splits)
  then have "\<forall>k. (\<exists>(a, b) \<in> set rs. a \<le> k \<and> k \<le> b) \<longleftrightarrow> k = 0 \<or> k = 1" using rs(2) h(5) by simp
  then show ?thesis using rs(1) h by (intro exI [of _ ?f] exI [of _ ?g] exI [of _ rs]) simp
qed

subsection \<open>The columns\<close>

text \<open>The place of the first packet of column \<open>col\<close>: with stairs, every next column starts a row lower.\<close>

definition column_place :: "FecConfig \<Rightarrow> nat \<Rightarrow> nat" where
  "column_place c col = (if cfg_staircase c then col + col mod cfg_rows c * cfg_cols c else col)"

lemma even_bases_eq:
  "even_bases n (sq b) = map (\<lambda>i. sq (b + int i)) [0 ..< n]"
  by (induction n arbitrary: b) (simp_all add: incseq_sq map_upt_Suc ac_simps del: upt_Suc)

lemma stair_bases_eq:
  assumes "0 < rows"
  shows "stair_bases rows w isn n col (col + col mod rows * w) = map (\<lambda>i. incseq_by isn (int (i + i mod rows * w))) [col ..< col + n]"
proof (induction n arbitrary: col)
  case (Suc n)
  have nxt: "(if col mod rows = rows - 1 then col + 1 else col + col mod rows * w + 1 + w) = Suc col + Suc col mod rows * w"
    using assms by (auto simp: mod_Suc)
  have u: "[col ..< col + Suc n] = col # [Suc col ..< Suc col + n]" by (simp add: upt_conv_Cons del: upt_Suc)
  show ?case unfolding stair_bases.simps nxt u using Suc [of "Suc col"] by simp
qed simp

lemma column_place_less:
  assumes "col < cfg_cols c" "k < cfg_rows c"
  shows "column_place c col + k * cfg_cols c < 2 * (cfg_rows c * cfg_cols c)"
proof -
  have "col mod cfg_rows c \<le> cfg_rows c - 1" using assms by (metis Suc_pred' le_less_trans less_Suc_eq_le mod_less_divisor zero_le)
  then have c: "col mod cfg_rows c * cfg_cols c \<le> (cfg_rows c - 1) * cfg_cols c" by (rule mult_right_mono) simp
  have k: "k * cfg_cols c \<le> (cfg_rows c - 1) * cfg_cols c" using assms by (intro mult_right_mono) auto
  have m: "cfg_rows c * cfg_cols c = (cfg_rows c - 1) * cfg_cols c + cfg_cols c" using assms by (cases "cfg_rows c") simp_all
  have "col + X + Y < 2 * (Z + w)" if "X \<le> Z" "Y \<le> Z" "col < w" for X Y Z w :: nat using that by simp
  from this [OF c k assms(1)] this [OF zero_le k assms(1)] show ?thesis unfolding column_place_def m by (cases "cfg_staircase c") simp_all
qed
lemma column_bases_eq:
  assumes "0 < cfg_rows c" "cfg_rows c * cfg_cols c < 100000000"
  shows "column_bases c (sq b) = map (\<lambda>col. sq (b + int (column_place c col))) [0 ..< cfg_cols c]"
proof -
  have "incseq_by (sq b) (int (column_place c i)) = sq (b + int (column_place c i))" if "i < cfg_cols c" for i
    using column_place_less [of i c 0] that assms by (intro incseq_by_sq) simp_all
  then show ?thesis using stair_bases_eq [OF assms(1), of "cfg_cols c" "sq b" "cfg_cols c" 0]
    by (cases "cfg_staircase c") (simp_all add: column_bases_def column_place_def even_bases_eq)
qed


lemma column_place_mod: "column_place c col mod cfg_cols c = col mod cfg_cols c"
  by (simp add: column_place_def)

text \<open>The index of the column, for the packets of the first two matrices.\<close>

lemma column_index_eq:
  assumes "2 \<le> cfg_cols c" "2 \<le> cfg_rows c" "cfg_rows c * cfg_cols c < 100000000" "p < 2 * (cfg_rows c * cfg_cols c)"
  defines "col \<equiv> p mod cfg_cols c"
  shows "map_option fst (RcvGetColumnGroupIndex (sq (b + 1 + int p)) (fec_new c n i si (sq b) pr)) =
    Some (if p < column_place c col then None
      else Some (col + (p - column_place c col) div (cfg_cols c * cfg_rows c) * cfg_cols c))"
proof -
  let ?f = "fec_new c n i si (sq b) pr" and ?m = "cfg_rows c * cfg_cols c"
  have bases: "map g_base (f_colq ?f) = map (\<lambda>col. sq (b + 1 + int (column_place c col))) [0 ..< cfg_cols c]"
    using assms(2,3) by (simp add: fec_new_def Let_def ConfigureColumns_def incseq_sq column_bases_eq ConfigureGroup_def comp_def)
  then have len: "length (f_colq ?f) = cfg_cols c" by (metis length_map length_upt minus_nat.diff_0)
  have base: "g_base (f_colq ?f ! j) = sq (b + 1 + int (column_place c j))" if "j < cfg_cols c" for j
    using arg_cong [OF bases, of "\<lambda>xs. xs ! j"] that len by simp
  have cfg: "f_cfg ?f = c" by (simp add: fec_new_def Let_def)
  have col: "col < cfg_cols c" using assms(1) by (simp add: col_def)
  have pl: "column_place c col < 2 * ?m" using column_place_less [OF col, of 0] assms(2) by simp
  have off: "seqoff (sq (b + 1)) (sq (b + 1 + int p)) = int p" using assms(3,4) by (subst seqoff_near) simp_all
  have coloff: "seqoff (sq (b + 1 + int (column_place c col))) (sq (b + 1 + int p)) = int p - int (column_place c col)"
    using pl assms(3,4) by (subst seqoff_near) simp_all
  have heads: "at (f_colq ?f) 0 = Some (f_colq ?f ! 0)" "g_base (f_colq ?f ! 0) = sq (b + 1)" "at (f_colq ?f) col = Some (f_colq ?f ! col)"
    using base [of 0] assms(1) col len by (simp_all add: at_def column_place_def)
  let ?s = "(p - column_place c col) div (cfg_cols c * cfg_rows c)"
  have s: "?s < 2" using assms by (intro less_mult_imp_div_less) (simp add: mult.commute)
  then have "?s * cfg_cols c \<le> 1 * cfg_cols c" by (intro mult_right_mono) simp_all
  then have g: "col + ?s * cfg_cols c < 2 * cfg_cols c" using col by linarith
  moreover have "2 * cfg_cols c \<le> ?m" using assms(2) by simp
  ultimately have g1: "\<not> ?m * 2 < col + ?s * cfg_cols c" by linarith
  have ext: "map_option fst (ExtendColumns (col + ?s * cfg_cols c) ?f) = Some (col + ?s * cfg_cols c)"
    using g heads(1) by (simp add: ExtendColumns_def shrink_columns_def cfg Let_def)
  show ?thesis
  proof (cases "p < column_place c col")
    case True
    then show ?thesis using heads off coloff base [OF col] assms(3,4)
      by (simp add: RcvGetColumnGroupIndex_def cfg col_def [symmetric] Let_def)
  next
    case False
    obtain f' where e: "ExtendColumns (col + ?s * cfg_cols c) ?f = Some (col + ?s * cfg_cols c, f')" using ext by (cases "ExtendColumns (col + ?s * cfg_cols c) ?f") auto
    have th: "\<not> c_div m_iSeqNoTH 2 < int p" using assms(3,4) by (simp add: c_div_def seq_consts)
    have n: "nat (int p - int (column_place c col)) = p - column_place c col" by simp
    show ?thesis using False heads off coloff base [OF col] g1 e th
      by (simp add: RcvGetColumnGroupIndex_def cfg col_def [symmetric] Let_def n len)
  qed
qed

text \<open>
  The bases that the loops compute for the columns are those of the closed form, and the receiver finds the
  column of a packet: the index is that of column \<open>x\<close> of the first series just for the packets that lie in it,
  one in each of the rows it crosses.
\<close>
theorem column_of_packet:
  assumes "2 \<le> cfg_cols c" "2 \<le> cfg_rows c" "cfg_rows c * cfg_cols c < 100000000" "p < 2 * (cfg_rows c * cfg_cols c)" "x < cfg_cols c"
  shows "column_bases c (sq b) = map (\<lambda>col. sq (b + int (column_place c col))) [0 ..< cfg_cols c] \<and>
    (map_option fst (RcvGetColumnGroupIndex (sq (b + 1 + int p)) (fec_new c n i si (sq b) pr)) = Some (Some x) \<longleftrightarrow>
      (\<exists>k < cfg_rows c. p = column_place c x + k * cfg_cols c))"
proof -
  let ?col = "p mod cfg_cols c" and ?w = "cfg_cols c"
  have e: "(\<not> p < column_place c ?col \<and> ?col + (p - column_place c ?col) div (?w * cfg_rows c) * ?w = x) \<longleftrightarrow>
    (\<exists>k < cfg_rows c. p = column_place c x + k * ?w)"
  proof
    assume a: "\<not> p < column_place c ?col \<and> ?col + (p - column_place c ?col) div (?w * cfg_rows c) * ?w = x"
    let ?s = "(p - column_place c ?col) div (?w * cfg_rows c)"
    have "?s * ?w < 1 * ?w" using a assms(5) by linarith
    then have "?s = 0" by simp
    then have x: "x = ?col" "p - column_place c x < ?w * cfg_rows c" using a assms(1,2) by (auto simp: div_eq_0_iff)
    have "column_place c x \<le> p" using a x(1) by simp
    moreover have "p mod ?w = column_place c x mod ?w" using x(1) by (simp add: column_place_mod)
    ultimately have "(p - column_place c x) mod ?w = 0" by (simp add: mod_eq_dvd_iff_nat)
    then obtain k where k: "p - column_place c x = k * ?w" by (metis dvd_div_mult_self mod_0_imp_dvd)
    then have "k < cfg_rows c" using x(2) by (simp add: mult.commute)
    then show "\<exists>k < cfg_rows c. p = column_place c x + k * ?w" using k a x(1) by (intro exI [of _ k]) auto
  next
    assume "\<exists>k < cfg_rows c. p = column_place c x + k * ?w"
    then obtain k where k: "k < cfg_rows c" "p = column_place c x + k * ?w" by blast
    then have "?col = x" using column_place_mod [of c x] assms(5) by simp
    moreover have "k * ?w < ?w * cfg_rows c" using k(1) assms(1) by simp
    ultimately show "\<not> p < column_place c ?col \<and> ?col + (p - column_place c ?col) div (?w * cfg_rows c) * ?w = x" using k(2) by simp
  qed
  show ?thesis unfolding column_index_eq [OF assms(1-4)] e [symmetric] using column_bases_eq [of c b] assms(2,3) by simp
qed

theorem column_of_packet_witness:
  "map_option fst (RcvGetColumnGroupIndex (sq (- 1 + 1 + int 1)) (fec_new (small_cfg\<lparr>cfg_staircase := True\<rparr>) 4 1 0 (sq (- 1)) [])) \<noteq> Some (Some 1) \<and>
   map_option fst (RcvGetColumnGroupIndex (sq (- 1 + 1 + int 7)) (fec_new (small_cfg\<lparr>cfg_staircase := True\<rparr>) 4 1 0 (sq (- 1)) [])) = Some (Some 1)"
proof -
  let ?c = "small_cfg\<lparr>cfg_staircase := True\<rparr>"
  have c: "cfg_cols ?c = 3" "cfg_rows ?c = 2" "column_place ?c 1 = 4" by (simp_all add: small_cfg_def column_place_def)
  have "\<not> (\<exists>k < cfg_rows ?c. 1 = column_place ?c 1 + k * cfg_cols ?c)" unfolding c by simp
  moreover have "\<exists>k < cfg_rows ?c. 7 = column_place ?c 1 + k * cfg_cols ?c" unfolding c by (intro exI [of _ 1]) simp
  ultimately show ?thesis
    using column_of_packet [of ?c 1 1 "- 1" 4 1 0 "[]"] column_of_packet [of ?c 7 1 "- 1" 4 1 0 "[]"] unfolding c by (simp del: of_nat_1 of_nat_numeral)
qed

subsection \<open>A jump with rows only\<close>

fun receive_packets :: "CPacket list \<Rightarrow> FEC \<Rightarrow> FEC option" where
  "receive_packets [] f = Some f"
| "receive_packets (p # ps) f = do { (_, _, f) \<leftarrow> fec_receive p f; receive_packets ps f }"

definition jump_cfg :: FecConfig where
  "jump_cfg = \<lparr>cfg_cols = 2, cfg_rows = 1, cfg_cols_only = False, cfg_staircase = False, cfg_level = SRT_ARQ_ONREQ\<rparr>"

definition jump_data :: "nat \<Rightarrow> CPacket" where
  "jump_data i = packet_new\<lparr>ph_seqno := of_nat i, ph_msgno := 1, pv_data := Some [], pv_len := 0\<rparr>"

text \<open>
  After a jump of more than five rows the row queue starts at the new row and the cells at the old base. When rows
  are removed later, the base is set to the new rows without moving the cells as far: packet 24 counts as received
  though it never came.
\<close>

lemma jump_marks_unreceived:
  "map_option (\<lambda>f. (f_cell_base f, map g_base (f_rowq f), known_packet (jump_data 24) f))
     (receive_packets (map jump_data [0, 12, 14, 16, 17]) (fec_new jump_cfg 0 5 0 (- 1) [])) = Some (14, [14, 16], True)"
  by code_simp

end
