(* ===== verification/Receiver.thy ===== *)
theory Receiver
  imports Windows LossReport Negotiation RcvRead
begin

unbundle bit_operations_syntax

text \<open>
  The receiving half of a connection (\<open>core.cpp\<close>): \<open>CUDT::processData\<close>, the acknowledgements and loss reports of
  \<open>sendCtrl\<close>, the timers that send them, the control packets that the sender of the data answers with, and the
  thread that drops packets which come too late. Locks and condition variables are left out. \<open>None\<close> is an access
  outside the array of the loss list. What is sent is recorded in \<open>rv_sent\<close>; sending does not fail.
\<close>

subsection \<open>State\<close>

datatype ctrl =
    Ctrl_LITE_ACK int
  | Ctrl_ACK int "int list"
  | Ctrl_ACKACK int
  | Ctrl_LOSSREPORT "int list"
  | Ctrl_DROPREQ "32 word" int int
  | Ctrl_SHUTDOWN
  | Ctrl_KEEPALIVE

record rcv_stats =
  st_Recv :: int
  st_BytesRecv :: int
  st_RcvRetrans :: int
  st_RcvLoss :: int
  st_RcvBytesLoss :: int
  st_RcvBelated :: int
  st_RcvUndecrypt :: int
  st_RcvBytesUndecrypt :: int
  st_RcvDrop :: int
  st_RcvBytesDrop :: int
  st_sentACK :: int
  st_sentNAK :: int

record receiver =
  rv_lists :: rloss_state
  rv_buffer :: CRcvBuffer
  rv_window :: CPktTimeWindow
  rv_ACKWindow :: CACKWindow
  rv_CurrPhySeqNo :: int
  rv_LastSkipAck :: int
  rv_LastAck :: int
  rv_LastAckAck :: int
  rv_AckSeqNo :: int
  rv_PktCount :: int
  rv_LightACKCount :: int
  rv_EXPCount :: int
  rv_RTT :: int
  rv_RTTVar :: int
  rv_LastRspTime :: int
  rv_LastSndTime :: int
  rv_LastAckTime :: int
  rv_NextACKTime :: int
  rv_NextNAKTime :: int
  rv_NAKInt :: int
  rv_TsbPd :: bool
  rv_TLPktDrop :: bool
  rv_RcvNakReport :: bool
  rv_PktFilterRexmitAlways :: bool
  rv_Shutdown :: bool
  rv_Closing :: bool
  rv_Broken :: bool
  rv_BrokenCounter :: int
  rv_stats :: rcv_stats
  rv_sent :: "ctrl list"

text \<open>
  What the functions get from elsewhere: the clock in ticks and in microseconds, the constants of the connection,
  the congestion control, the cipher (whether the packet could be decrypted, and what it is then), and the packet
  filter, which may hand out other units of the pool and losses to report.
\<close>

record rcv_env =
  ev_tk :: int
  ev_us :: int
  ev_CPUFrequency :: int
  ev_ACKInt :: int
  ev_MinNakInt :: int
  ev_MaxSRTPayloadSize :: int
  ev_PeerSrtVersion :: int
  ev_ACKMaxPackets :: int
  ev_ACKTimeout_us :: int
  ev_needsQuickACK :: "CPacket \<Rightarrow> bool"
  ev_updateNAKInterval :: "int \<Rightarrow> int \<Rightarrow> int \<Rightarrow> int"
  ev_round :: "rat \<Rightarrow> rat"
  ev_decrypt :: "CPacket \<Rightarrow> bool \<times> CPacket"
  ev_filter :: "(nat \<Rightarrow> CUnitQueue \<Rightarrow> nat list \<times> (int \<times> int) list \<times> CUnitQueue) option"

abbreviation rv_RcvCurrSeqNo :: "receiver \<Rightarrow> int" where
  "rv_RcvCurrSeqNo r \<equiv> rc_RcvCurrSeqNo (rv_lists r)"

abbreviation rv_packet :: "nat \<Rightarrow> receiver \<Rightarrow> CPacket" where
  "rv_packet u r \<equiv> un_Packet (uq_unit (rb_pool (rv_buffer r)) ! u)"

text \<open>\<open>m_iSeqNo\<close> as the \<open>int32_t\<close> it is.\<close>

definition m_iSeqNo :: "CPacket \<Rightarrow> int" where
  "m_iSeqNo p = sint (ph_seqno p)"

definition rv_send :: "rcv_env \<Rightarrow> ctrl \<Rightarrow> receiver \<Rightarrow> receiver" where
  "rv_send e c r = r\<lparr>rv_sent := rv_sent r @ [c], rv_LastSndTime := ev_tk e\<rparr>"

definition rv_count :: "(rcv_stats \<Rightarrow> rcv_stats) \<Rightarrow> receiver \<Rightarrow> receiver" where
  "rv_count f r = r\<lparr>rv_stats := f (rv_stats r)\<rparr>"

definition processClose :: "rcv_env \<Rightarrow> receiver \<Rightarrow> receiver" where
  "processClose e r = (rv_send e Ctrl_SHUTDOWN r)\<lparr>rv_Shutdown := True, rv_Closing := True, rv_Broken := True, rv_BrokenCounter := 60\<rparr>"

subsection \<open>Loss reports\<close>

definition sendCtrl_LOSSREPORT :: "rcv_env \<Rightarrow> int list option \<Rightarrow> receiver \<Rightarrow> receiver option" where
  "sendCtrl_LOSSREPORT e rparam r =
     do {
       let report = (\<lambda>d r. rv_count (\<lambda>s. s\<lparr>st_sentNAK := st_sentNAK s + 1\<rparr>) (rv_send e (Ctrl_LOSSREPORT d) r));
       r \<leftarrow> (case rparam of
              Some lossdata \<Rightarrow> Some (report lossdata r)
            | None \<Rightarrow>
                if rcv_getLossLength (rc_loss (rv_lists r)) > 0 then do {
                  data \<leftarrow> rcv_getLossArray (rc_loss (rv_lists r)) (c_div (ev_MaxSRTPayloadSize e) 4);
                  Some (if data \<noteq> [] then report data r else r)
                }
                else Some r);
       let int_tk = u64 (i32 (rv_RTT r + 4 * rv_RTTVar r) * ev_CPUFrequency e);
       let int_tk = u64 (ev_updateNAKInterval e int_tk (fst (getPktRcvSpeed (ev_round e) (rv_window r)))
                      (rcv_getLossLength (rc_loss (rv_lists r))));
       Some (r\<lparr>rv_NAKInt := (if int_tk < ev_MinNakInt e then ev_MinNakInt e else int_tk)\<rparr>)
     }"

text \<open>\<open>CUDT::sendLossReport\<close>: nothing is sent for no losses.\<close>

definition report_losses :: "rcv_env \<Rightarrow> (int \<times> int) list \<Rightarrow> receiver \<Rightarrow> receiver option" where
  "report_losses e loss_seqs r =
     (let seqbuffer = sendLossReport loss_seqs
      in if seqbuffer \<noteq> [] then sendCtrl_LOSSREPORT e (Some seqbuffer) r else Some r)"

subsection \<open>Data\<close>

text \<open>The variables of the loop over the incoming units.\<close>

record rcv_pass =
  ps_losses :: "(int \<times> int) list"
  ps_in_order :: bool
  ps_prevent :: bool
  ps_excessive :: bool

definition phy_losses :: "CPacket \<Rightarrow> receiver \<Rightarrow> receiver" where
  "phy_losses packet r =
     (if getMsgSeq packet True \<noteq> 0 then
        (let diff = seqoff (rv_CurrPhySeqNo r) (m_iSeqNo packet);
             r = (if diff > 1
                  then rv_count (\<lambda>s. s\<lparr>st_RcvLoss := st_RcvLoss s + (diff - 1),
                    st_RcvBytesLoss := st_RcvBytesLoss s + (diff - 1) * rb_iAvgPayloadSz (rv_buffer r)\<rparr>) r
                  else r)
         in if diff > 0 then r\<lparr>rv_CurrPhySeqNo := m_iSeqNo packet\<rparr> else r)
      else r)"

text \<open>A unit that was put into the buffer is decrypted in place. The result tells whether it can be used.\<close>

definition decrypt_unit :: "rcv_env \<Rightarrow> int \<Rightarrow> nat \<Rightarrow> receiver \<Rightarrow> bool \<times> receiver" where
  "decrypt_unit e pktsz u r =
     (if getMsgCryptoFlags (rv_packet u r) \<noteq> 0 then
        (let (clear, p) = ev_decrypt e (rv_packet u r);
             r = r\<lparr>rv_buffer := (rv_buffer r)\<lparr>rb_pool := unit_receive u p (rb_pool (rv_buffer r))\<rparr>\<rparr>
         in if clear then (True, r)
            else (False, rv_count (\<lambda>s. s\<lparr>st_RcvUndecrypt := st_RcvUndecrypt s + 1, st_RcvBytesUndecrypt := st_RcvBytesUndecrypt s + pktsz\<rparr>) r))
      else (True, r))"

text \<open>A gap in front of the packet.\<close>

definition detect_loss :: "rcv_env \<Rightarrow> int \<Rightarrow> int \<Rightarrow> rcv_pass \<times> receiver \<Rightarrow> rcv_pass \<times> receiver" where
  "detect_loss e ttl seq = (\<lambda>(ps, r).
     if seqcmp seq (incseq (rv_RcvCurrSeqNo r)) > 0 then
       (let ps = ps\<lparr>ps_losses := ps_losses ps @ [(incseq (rv_RcvCurrSeqNo r), decseq seq)]\<rparr>
        in if ttl \<noteq> 0
           then (ps\<lparr>ps_prevent := True\<rparr>,
             r\<lparr>rv_lists := (rv_lists r)\<lparr>rc_fresh := rc_fresh (rv_lists r) @ map (\<lambda>(lo, hi). fresh_new (ev_us e) lo hi ttl) (ps_losses ps)\<rparr>\<rparr>)
           else (ps, r))
     else (ps, r))"

text \<open>The packet is the newest one, or an older one that is no longer missing.\<close>

definition advance_seq :: "rcv_env \<Rightarrow> bool \<Rightarrow> CPacket \<Rightarrow> rcv_pass \<times> receiver \<Rightarrow> (rcv_pass \<times> receiver) option" where
  "advance_seq e in_order rpkt = (\<lambda>(ps, r).
     if seqcmp (m_iSeqNo rpkt) (rv_RcvCurrSeqNo r) > 0
     then Some (ps, r\<lparr>rv_lists := (rv_lists r)\<lparr>rc_RcvCurrSeqNo := m_iSeqNo rpkt\<rparr>\<rparr>)
     else do {
       lists \<leftarrow> unlose (ev_us e) (m_iSeqNo rpkt) (getRexmitFlag rpkt) (rv_lists r);
       Some (ps\<lparr>ps_in_order := ps_in_order ps \<and> in_order\<rparr>, r\<lparr>rv_lists := lists\<rparr>)
     })"

text \<open>One unit. \<open>in_order\<close>: the packet that came in does not say that it was sent only once; the first result: go on.\<close>

definition receive_unit :: "rcv_env \<Rightarrow> int \<Rightarrow> bool \<Rightarrow> int \<Rightarrow> nat \<Rightarrow> rcv_pass \<times> receiver \<Rightarrow> (bool \<times> rcv_pass \<times> receiver) option" where
  "receive_unit e ttl in_order pktsz u = (\<lambda>(ps, r).
     let offset = seqoff (rv_LastSkipAck r) (m_iSeqNo (rv_packet u r)); b = rv_buffer r
     in if offset < 0 then
          (let tb = snd (getPktTsbPdTime (packet_time (rv_packet u r)) (rb_tsbpd b))
           in Some (True, ps, rv_count (\<lambda>s. s\<lparr>st_RcvBelated := st_RcvBelated s + 1\<rparr>) (r\<lparr>rv_buffer := b\<lparr>rb_tsbpd := tb\<rparr>\<rparr>)))
        else if offset \<ge> getAvailBufSize b then
          Some (False, ps, if rv_TsbPd r \<and> rv_TLPktDrop r \<and> rb_iStartPos b = rb_iLastAckPos b then processClose e r else r)
        else
          (let (rc, b) = addData u (nat offset) b; r = r\<lparr>rv_buffer := b\<rparr>
           in if rc < 0
              then map_option (\<lambda>x. (True, x)) (advance_seq e in_order (rv_packet u r) (ps, r))
              else
                (let ps = ps\<lparr>ps_excessive := False\<rparr>; (ok, r) = decrypt_unit e pktsz u r;
                     (ps, r) = (if ok then detect_loss e ttl (m_iSeqNo (rv_packet u r)) (ps, r) else (ps, r))
                 in map_option (\<lambda>x. (True, x)) (advance_seq e in_order (rv_packet u r) (ps, r)))))"

fun receive_units :: "rcv_env \<Rightarrow> int \<Rightarrow> bool \<Rightarrow> int \<Rightarrow> nat list \<Rightarrow> rcv_pass \<times> receiver \<Rightarrow> (bool \<times> rcv_pass \<times> receiver) option" where
  "receive_units e ttl in_order pktsz [] pr = Some (True, pr)"
| "receive_units e ttl in_order pktsz (u # us) pr =
     do {
       (go, pr) \<leftarrow> receive_unit e ttl in_order pktsz u pr;
       if go then receive_units e ttl in_order pktsz us pr else Some (False, pr)
     }"

fun insert_losses :: "(int \<times> int) list \<Rightarrow> CRcvLossList \<Rightarrow> CRcvLossList option" where
  "insert_losses [] l = Some l"
| "insert_losses ((lo, hi) # ls) l = do { l \<leftarrow> rcv_insert l lo hi; insert_losses ls l }"

text \<open>The part behind the loop: recording, reports, fresh records, ordered delivery.\<close>

definition after_units :: "rcv_env \<Rightarrow> int \<Rightarrow> (int \<times> int) list \<Rightarrow> rcv_pass \<Rightarrow> receiver \<Rightarrow> receiver option" where
  "after_units e ttl filter_losses ps r =
     do {
       r \<leftarrow> (if ps_losses ps \<noteq> [] then do {
              l \<leftarrow> insert_losses (ps_losses ps) (rc_loss (rv_lists r));
              let r = r\<lparr>rv_lists := (rv_lists r)\<lparr>rc_loss := l\<rparr>\<rparr>;
              if \<not> ps_prevent ps \<and> (ev_filter e = None \<or> rv_PktFilterRexmitAlways r) then report_losses e (ps_losses ps) r else Some r
            } else Some r);
       r \<leftarrow> report_losses e filter_losses r;
       let (lossdata, fresh) = fresh_expire ttl (rc_fresh (rv_lists r));
       let r = r\<lparr>rv_lists := (rv_lists r)\<lparr>rc_fresh := fresh\<rparr>\<rparr>;
       r \<leftarrow> (if lossdata \<noteq> [] then sendCtrl_LOSSREPORT e (Some lossdata) r else Some r);
       Some (r\<lparr>rv_lists := ordered_delivery (ps_in_order ps) (rv_lists r)\<rparr>)
     }"

text \<open>
  \<open>processData\<close> for the packet in unit \<open>u\<close>; the first result is what the function returns. The size counted for
  the incoming packet and its flags are those of the packet as it came in.
\<close>

definition processData :: "rcv_env \<Rightarrow> nat \<Rightarrow> receiver \<Rightarrow> (int \<times> receiver) option" where
  "processData e u r =
     (let packet = rv_packet u r; pktsz = int (getLength packet); seq = m_iSeqNo packet;
          peer = rc_PeerRexmitFlag (rv_lists r); rexmit = (peer \<and> getRexmitFlag packet);
          r = r\<lparr>rv_EXPCount := 1, rv_LastRspTime := ev_tk e, rv_PktCount := rv_PktCount r + 1,
            rv_window := probeArrival (ev_us e) seq pktsz (seqcmp seq (rv_RcvCurrSeqNo r) \<le> 0 \<or> rexmit)
              (onPktArrival (ev_us e) pktsz (rv_window r))\<rparr>;
          r = rv_count (\<lambda>s. s\<lparr>st_RcvRetrans := st_RcvRetrans s + (if rexmit then 1 else 0), st_Recv := st_Recv s + 1,
            st_BytesRecv := st_BytesRecv s + pktsz\<rparr>) r;
          ttl = (if peer then rc_ReorderTolerance (rv_lists r) else 0);
          r = phy_losses packet r;
          (incoming, filter_losses, r) =
            (case ev_filter e of
               None \<Rightarrow> ([u], [], r)
             | Some flt \<Rightarrow> (let (us, ls, q) = flt u (rb_pool (rv_buffer r)) in (us, ls, r\<lparr>rv_buffer := (rv_buffer r)\<lparr>rb_pool := q\<rparr>\<rparr>)));
          belated = (seqcmp (m_iSeqNo (rv_packet u r)) (rv_LastSkipAck r) < 0)
      in do {
           (go, ps, r) \<leftarrow> receive_units e ttl (\<not> peer \<or> rexmit) pktsz incoming
             (\<lparr>ps_losses = [], ps_in_order = True, ps_prevent = False, ps_excessive = True\<rparr>, r);
           if \<not> go then Some (- 1, r)
           else do {
             let r = (if \<not> belated \<and> ps_in_order ps \<and> ev_needsQuickACK e (rv_packet u r) then r\<lparr>rv_NextACKTime := ev_tk e\<rparr> else r);
             if ps_excessive ps \<or> rv_Closing r \<or> incoming = [] then Some (- 1, r)
             else map_option (\<lambda>r. (0, r)) (after_units e ttl filter_losses ps r)
           }
         })"

subsection \<open>Acknowledgements\<close>

text \<open>The contents of a full acknowledgement, and whether it has the statistics.\<close>

definition ack_data :: "rcv_env \<Rightarrow> bool \<Rightarrow> receiver \<Rightarrow> int list" where
  "ack_data e full r =
     (let data = [rv_LastAck r, rv_RTT r, rv_RTTVar r, max 2 (getAvailBufSize (rv_buffer r))];
          (speed, rate) = getPktRcvSpeed (ev_round e) (rv_window r);
          bandwidth = getBandwidth (ev_round e) (rv_window r)
      in if \<not> full then data
         else data @ [speed, bandwidth] @
           (if ev_PeerSrtVersion e = SrtVersion 1 0 2 then [rate, i32 (bandwidth * ev_MaxSRTPayloadSize e)]
            else if ev_PeerSrtVersion e \<ge> SrtVersion 1 0 3 then [rate] else []))"

definition send_full_ack :: "rcv_env \<Rightarrow> receiver \<Rightarrow> receiver" where
  "send_full_ack e r =
     (if seqcmp (rv_LastAck r) (rv_LastAckAck r) > 0 then
        (let r = r\<lparr>rv_AckSeqNo := incack (rv_AckSeqNo r)\<rparr>;
             full = (u64 (ev_tk e - rv_LastAckTime r) > ev_ACKInt e); data = ack_data e full r;
             r = (if full then r\<lparr>rv_LastAckTime := ev_tk e\<rparr> else r);
             r = rv_send e (Ctrl_ACK (rv_AckSeqNo r) data) r
         in rv_count (\<lambda>s. s\<lparr>st_sentACK := st_sentACK s + 1\<rparr>)
              (r\<lparr>rv_ACKWindow := aw_store (ev_us e) (rv_AckSeqNo r) (rv_LastAck r) (rv_ACKWindow r)\<rparr>))
      else r)"

definition sendCtrl_ACK :: "rcv_env \<Rightarrow> bool \<Rightarrow> receiver \<Rightarrow> receiver option" where
  "sendCtrl_ACK e lite r =
     do {
       ack \<leftarrow> (if rcv_getLossLength (rc_loss (rv_lists r)) = 0 then Some (incseq (rv_RcvCurrSeqNo r))
              else rcv_getFirstLostSeq (rc_loss (rv_lists r)));
       if rv_LastAckAck r = ack then Some r
       else if lite then Some (rv_send e (Ctrl_LITE_ACK ack) r)
       else if seqcmp ack (rv_LastAck r) > 0 then
         (let acksize = seqoff (rv_LastSkipAck r) ack; r = r\<lparr>rv_LastAck := ack, rv_LastSkipAck := ack\<rparr>;
              r = (if acksize > 0 then r\<lparr>rv_buffer := rb_ackData (nat acksize) (rv_buffer r)\<rparr> else r)
          in Some (send_full_ack e r))
       else if ack = rv_LastAck r then
         (if u64 (ev_tk e - rv_LastAckTime r) < u64 (i32 (rv_RTT r + 4 * rv_RTTVar r) * ev_CPUFrequency e) then Some r
          else Some (send_full_ack e r))
       else Some r
     }"

subsection \<open>Timers\<close>

definition SELF_CLOCK_INTERVAL :: int where
  "SELF_CLOCK_INTERVAL = 64"

definition checkACKTimer :: "rcv_env \<Rightarrow> receiver \<Rightarrow> receiver option" where
  "checkACKTimer e r =
     (if ev_tk e > rv_NextACKTime r \<or> (ev_ACKMaxPackets e > 0 \<and> rv_PktCount r \<ge> ev_ACKMaxPackets e) then do {
        r \<leftarrow> sendCtrl_ACK e False r;
        let interval = i32 (if ev_ACKTimeout_us e > 0 then u64 (ev_ACKTimeout_us e * ev_CPUFrequency e) else ev_ACKInt e);
        Some (r\<lparr>rv_NextACKTime := u64 (ev_tk e + interval), rv_PktCount := 0, rv_LightACKCount := 1\<rparr>)
      }
      else if rv_PktCount r \<ge> SELF_CLOCK_INTERVAL * rv_LightACKCount r then do {
        r \<leftarrow> sendCtrl_ACK e True r;
        Some (r\<lparr>rv_LightACKCount := rv_LightACKCount r + 1\<rparr>)
      }
      else Some r)"

definition checkNAKTimer :: "rcv_env \<Rightarrow> receiver \<Rightarrow> receiver option" where
  "checkNAKTimer e r =
     (if \<not> rv_RcvNakReport r \<or> \<not> rv_PktFilterRexmitAlways r then Some r
      else if rcv_getLossLength (rc_loss (rv_lists r)) > 0 \<and> ev_tk e \<le> rv_NextNAKTime r then Some r
      else do {
        r \<leftarrow> (if rcv_getLossLength (rc_loss (rv_lists r)) > 0 then sendCtrl_LOSSREPORT e None r else Some r);
        Some (r\<lparr>rv_NextNAKTime := u64 (ev_tk e + rv_NAKInt r)\<rparr>)
      })"

subsection \<open>Control packets of the sender\<close>

definition processCtrl_ACKACK :: "rcv_env \<Rightarrow> int \<Rightarrow> int \<Rightarrow> receiver \<Rightarrow> receiver" where
  "processCtrl_ACKACK e ackseq timestamp r =
     (let (rtt, ack, w) = aw_acknowledge (ev_us e) ackseq 0 (rv_ACKWindow r); r = r\<lparr>rv_ACKWindow := w\<rparr>
      in if rtt \<le> 0 then r
         else
           (let r = r\<lparr>rv_RTTVar := i32 (rv_RTTVar r * 3 + \<bar>rtt - rv_RTT r\<bar>) div 4\<rparr>;
                r = r\<lparr>rv_RTT := i32 (rv_RTT r * 7 + rtt) div 8,
                  rv_buffer := (rv_buffer r)\<lparr>rb_tsbpd := addRcvTsbPdDriftSample (ev_us e) timestamp (rb_tsbpd (rv_buffer r))\<rparr>\<rparr>
            in if seqcmp ack (rv_LastAckAck r) > 0 then r\<lparr>rv_LastAckAck := ack\<rparr> else r))"

definition processCtrl_DROPREQ :: "32 word \<Rightarrow> int \<Rightarrow> int \<Rightarrow> receiver \<Rightarrow> receiver option" where
  "processCtrl_DROPREQ msgno lo hi r =
     do {
       let r = r\<lparr>rv_buffer := dropMsg msgno (rc_PeerRexmitFlag (rv_lists r)) (rv_buffer r)\<rparr>;
       lists \<leftarrow> dropFromLossLists lo hi (rv_lists r);
       let r = r\<lparr>rv_lists := lists\<rparr>;
       Some (if seqcmp lo (incseq (rv_RcvCurrSeqNo r)) \<le> 0 \<and> seqcmp hi (rv_RcvCurrSeqNo r) > 0
             then r\<lparr>rv_lists := (rv_lists r)\<lparr>rc_RcvCurrSeqNo := hi\<rparr>\<rparr> else r)
     }"

definition processCtrl_SHUTDOWN :: "receiver \<Rightarrow> receiver" where
  "processCtrl_SHUTDOWN r = r\<lparr>rv_Shutdown := True, rv_Closing := True, rv_Broken := True, rv_BrokenCounter := 60\<rparr>"

subsection \<open>Packets that come too late\<close>

text \<open>
  The part of the loop of \<open>CUDT::tsbpd\<close> for \<open>m_bTLPktDrop\<close>: when the first packet that can be played lies behind
  missing ones, these are given up. The results are \<open>rxready\<close> and \<open>tsbpdtime\<close>, on which the thread then waits.
\<close>

definition tsbpd_drop :: "rcv_env \<Rightarrow> receiver \<Rightarrow> (bool \<times> int \<times> receiver) option" where
  "tsbpd_drop e r =
     (let (rxready, m, b) = getRcvFirstMsg (\<lambda>_. ev_us e) (\<lambda>_. ev_us e) 0 (rv_buffer r); r = r\<lparr>rv_buffer := b\<rparr>
      in if \<not> rxready then Some (False, fm_tsbpdtime m, r)
         else
           (let skipto = sint (fm_skipseqno m); seqlen = seqoff (rv_LastSkipAck r) skipto
            in if skipto \<noteq> - 1 \<and> seqlen > 0 then do {
                 lists \<leftarrow> dropFromLossLists (rv_LastSkipAck r) (decseq skipto) (rv_lists r);
                 let r = rv_count (\<lambda>s. s\<lparr>st_RcvDrop := st_RcvDrop s + seqlen,
                   st_RcvBytesDrop := st_RcvBytesDrop s + seqlen * rb_iAvgPayloadSz (rv_buffer r)\<rparr>) r;
                 Some (False, 0, r\<lparr>rv_lists := lists, rv_buffer := skipData (nat seqlen) (rv_buffer r), rv_LastSkipAck := skipto\<rparr>)
               }
               else if fm_passack m then Some (False, 0, r)
               else Some (True, fm_tsbpdtime m, r)))"

subsection \<open>A new connection\<close>

definition COMM_SYN_INTERVAL_US :: int where
  "COMM_SYN_INTERVAL_US = 10 * 1000"

text \<open>
  \<open>CUDT::open\<close> for a buffer and a loss list of the given sizes (\<open>prepareConnectionObjects\<close>); \<open>arr\<close> is what the
  arrays of the loss list hold. The options are those of a socket without TSBPD.
\<close>

definition receiver_new :: "rcv_env \<Rightarrow> nat \<Rightarrow> int \<Rightarrow> CUnitQueue \<Rightarrow> (int \<Rightarrow> int) \<Rightarrow> receiver" where
  "receiver_new e bufsize flight pool arr = \<lparr>
     rv_lists = \<lparr>rc_loss = rcv_new flight arr arr, rc_fresh = [], rc_RcvCurrSeqNo = - 1, rc_PeerRexmitFlag = False,
       rc_ReorderTolerance = 0, rc_MaxReorderTolerance = 0, rc_ConsecEarlyDelivery = 0, rc_ConsecOrderedDelivery = 0,
       rc_traceReorderDistance = 0\<rparr>,
     rv_buffer = rb_new bufsize pool, rv_window = pw_new 16 64 (ev_us e), rv_ACKWindow = aw_new 1024, rv_CurrPhySeqNo = - 1,
     rv_LastSkipAck = 0, rv_LastAck = 0, rv_LastAckAck = 0, rv_AckSeqNo = 0, rv_PktCount = 0, rv_LightACKCount = 1, rv_EXPCount = 1,
     rv_RTT = 10 * COMM_SYN_INTERVAL_US, rv_RTTVar = (10 * COMM_SYN_INTERVAL_US) div 2, rv_LastRspTime = ev_tk e,
     rv_LastSndTime = ev_tk e, rv_LastAckTime = 0, rv_NextACKTime = u64 (ev_tk e + ev_ACKInt e),
     rv_NextNAKTime = u64 (ev_tk e + ev_MinNakInt e), rv_NAKInt = ev_MinNakInt e, rv_TsbPd = False, rv_TLPktDrop = True,
     rv_RcvNakReport = True, rv_PktFilterRexmitAlways = True, rv_Shutdown = False, rv_Closing = False, rv_Broken = False,
     rv_BrokenCounter = 0,
     rv_stats = \<lparr>st_Recv = 0, st_BytesRecv = 0, st_RcvRetrans = 0, st_RcvLoss = 0, st_RcvBytesLoss = 0, st_RcvBelated = 0,
       st_RcvUndecrypt = 0, st_RcvBytesUndecrypt = 0, st_RcvDrop = 0, st_RcvBytesDrop = 0, st_sentACK = 0, st_sentNAK = 0\<rparr>,
     rv_sent = []\<rparr>"

text \<open>The initial sequence number of the peer, as both handshakes set it.\<close>

definition set_peer_isn :: "int \<Rightarrow> receiver \<Rightarrow> receiver" where
  "set_peer_isn isn r = r\<lparr>rv_LastAck := isn, rv_LastSkipAck := isn, rv_LastAckAck := isn,
     rv_lists := (rv_lists r)\<lparr>rc_RcvCurrSeqNo := isn - 1\<rparr>, rv_CurrPhySeqNo := isn - 1\<rparr>"

end
