(* ===== verification/ReceiverInv.thy ===== *)
theory ReceiverInv
  imports Receiver EndToEnd
begin

text \<open>
  What the receiving half keeps true: the loss list holds exactly the packets that are missing between the
  acknowledged ones and the newest one. An acknowledgement then covers only packets that are in the buffer.
\<close>

subsection \<open>The buffer\<close>

definition filled :: "CRcvBuffer \<Rightarrow> nat \<Rightarrow> bool" where
  "filled b k \<longleftrightarrow> k < length (rb_pending b) \<and> rb_pending b ! k \<noteq> None"

definition padded :: "CRcvBuffer \<Rightarrow> nat \<Rightarrow> CUnit option list" where
  "padded b k = rb_pending b @ replicate (k + 1 - length (rb_pending b)) None"

lemma padded_nth: "padded b k ! k \<noteq> None \<longleftrightarrow> filled b k"
  by (auto simp: padded_def filled_def nth_append)

lemma addData_cases:
  assumes i: "rb_inv b" and u: "u < length (uq_unit (rb_pool b))" "\<not> uq_busy (rb_pool b) u" and room: "int off < getAvailBufSize b"
  shows "filled b off \<Longrightarrow> \<exists>b'. addData u off b = (- 1, b') \<and> rb_inv b' \<and> rb_acked b' = rb_acked b \<and> rb_pending b' = rb_pending b"
    and "\<not> filled b off \<Longrightarrow> \<exists>b'. addData u off b = (0, b') \<and> rb_inv b' \<and> rb_acked b' = rb_acked b \<and>
      rb_pending b' = (padded b off)[off := Some ((uq_unit (rb_pool b) ! u)\<lparr>un_iFlag := GOOD\<rparr>)] \<and>
      (\<exists>k < rb_size b'. k = getRcvDataSize b' + off \<and> ring b' ! k = Some u)"
proof -
  obtain rc b' where a: "addData u off b = (rc, b')" by fastforce
  have o: "\<not> rb_size b \<le> length (rb_acked b) + 1 + off" using room i by (simp add: getAvailBufSize_def)
  note S = addData_slot [OF i u a]
  have S': "rb_inv b'" "rb_acked b' = rb_acked b"
    "if filled b off then rc = - 1 \<and> rb_pending b' = padded b off
     else rc = 0 \<and> rb_pending b' = (padded b off)[off := Some ((uq_unit (rb_pool b) ! u)\<lparr>un_iFlag := GOOD\<rparr>)]"
    using S o unfolding padded_nth [symmetric] by (simp_all add: Let_def padded_def)
  show "\<exists>b'. addData u off b = (- 1, b') \<and> rb_inv b' \<and> rb_acked b' = rb_acked b \<and> rb_pending b' = rb_pending b" if "filled b off"
    using that S' a by (auto simp: padded_def filled_def)
  show "\<exists>b'. addData u off b = (0, b') \<and> rb_inv b' \<and> rb_acked b' = rb_acked b \<and>
      rb_pending b' = (padded b off)[off := Some ((uq_unit (rb_pool b) ! u)\<lparr>un_iFlag := GOOD\<rparr>)] \<and>
      (\<exists>k < rb_size b'. k = getRcvDataSize b' + off \<and> ring b' ! k = Some u)" if "\<not> filled b off"
  proof -
    have rc: "rc = 0" using that S'(3) by simp
    have sz: "rb_size b' = rb_size b" using addData_frame(1) [of u off b] a by simp
    have p: "rb_pUnit b' = (rb_pUnit b)[(rb_iLastAckPos b + off) mod rb_size b := Some u]" "rb_iStartPos b' = rb_iStartPos b"
      "rb_iLastAckPos b' = rb_iLastAckPos b"
      using a rc by (auto simp: addData_def Let_def countBytes_def split: if_splits)
    have d: "getRcvDataSize b' = getRcvDataSize b" using p sz by (simp add: getRcvDataSize_def)
    have k: "getRcvDataSize b + off < rb_size b" using o i by simp
    have "ring b' ! (getRcvDataSize b' + off) = Some u"
      using k d sz p lastack_off [OF i, of off] rb_invD(1) [OF i] by (simp add: ring_nth slot_pos_def del: mod_less)
    then show ?thesis using a rc S' that k d sz by auto
  qed
qed

text \<open>A packet is changed in place, as the cipher does.\<close>

lemma uq_inv_unit_receive:
  assumes "uq_inv q" "u < length (uq_unit q)"
  shows "uq_inv (unit_receive u p q)"
proof -
  have "map un_iFlag (uq_unit (unit_receive u p q)) = map un_iFlag (uq_unit q)"
    using assms(2) by (auto simp: unit_receive_def list_eq_iff_nth_eq nth_list_update)
  moreover have "length (filter (\<lambda>u. un_iFlag u \<noteq> FREE) xs) = length (filter (\<lambda>f. f \<noteq> FREE) (map un_iFlag xs))" for xs :: "CUnit list"
    by (simp add: filter_map comp_def)
  ultimately have "length (filter (\<lambda>u. un_iFlag u \<noteq> FREE) (uq_unit (unit_receive u p q))) = length (filter (\<lambda>u. un_iFlag u \<noteq> FREE) (uq_unit q))"
    by metis
  then show ?thesis using assms(1) by (simp add: uq_inv_def unit_receive_def uq_entries_def)
qed

lemma rewrite_slot:
  fixes p :: CPacket
  assumes i: "rb_inv b" and r: "ring b ! k = Some u" "k < rb_size b"
  defines "c \<equiv> b\<lparr>rb_pool := unit_receive u p (rb_pool b)\<rparr>"
  shows "rb_inv c" "slots c = (slots b)[k := Some ((uq_unit (rb_pool b) ! u)\<lparr>un_Packet := p\<rparr>)]"
proof -
  note D = rb_invD [OF i]
  have u: "u < length (uq_unit (rb_pool b))" using D(6) [OF r] by simp
  have un: "uq_unit (rb_pool c) = (uq_unit (rb_pool b))[u := (uq_unit (rb_pool b) ! u)\<lparr>un_Packet := p\<rparr>]"
    by (simp add: c_def unit_receive_def)
  have f: "uq_busy (rb_pool c) v = uq_busy (rb_pool b) v" for v
    using u by (simp add: uq_busy_def un nth_list_update)
  have g: "ring c = ring b" "getRcvDataSize c = getRcvDataSize b" "rb_iMaxPos c = rb_iMaxPos b" "rb_size c = rb_size b"
    by (simp_all add: c_def ring_def getRcvDataSize_def)
  have "uq_inv (rb_pool c)" using uq_inv_unit_receive [OF D(5) u] by (simp add: c_def)
  then show "rb_inv c" using i un f unfolding rb_inv_def g by (simp add: c_def)
  show "slots c = (slots b)[k := Some ((uq_unit (rb_pool b) ! u)\<lparr>un_Packet := p\<rparr>)]"
  proof (rule nth_equalityI)
    fix j assume j: "j < length (slots c)"
    then have jb: "j < rb_size b" by (simp add: g)
    show "slots c ! j = (slots b)[k := Some ((uq_unit (rb_pool b) ! u)\<lparr>un_Packet := p\<rparr>)] ! j"
    proof (cases "j = k")
      case True
      then show ?thesis using jb r u g by (simp add: slots_def un)
    next
      case False
      then have "ring b ! j \<noteq> Some u" using D(7) [of j u k] jb r by blast
      then show ?thesis using jb False g by (cases "ring b ! j") (auto simp: slots_def un nth_list_update)
    qed
  qed (simp add: g)
qed

lemma rewrite_pending:
  fixes p :: CPacket
  assumes i: "rb_inv b" and r: "ring b ! (getRcvDataSize b + off) = Some u" "getRcvDataSize b + off < rb_size b"
  defines "c \<equiv> b\<lparr>rb_pool := unit_receive u p (rb_pool b)\<rparr>"
  shows "rb_inv c" "rb_acked c = rb_acked b" "rb_pending c = (rb_pending b)[off := Some ((uq_unit (rb_pool b) ! u)\<lparr>un_Packet := p\<rparr>)]"
proof -
  note W = rewrite_slot [OF i r, where p = p, folded c_def]
  have g: "getRcvDataSize c = getRcvDataSize b" "rb_iMaxPos c = rb_iMaxPos b" by (simp_all add: c_def getRcvDataSize_def)
  show "rb_inv c" by (rule W(1))
  show "rb_acked c = rb_acked b" by (simp add: rb_acked_def W(2) g)
  show "rb_pending c = (rb_pending b)[off := Some ((uq_unit (rb_pool b) ! u)\<lparr>un_Packet := p\<rparr>)]"
    using r(2) by (simp add: rb_pending_def W(2) g drop_update_swap take_update_swap)
qed

subsection \<open>The invariant\<close>

text \<open>
  \<open>A\<close> is the position behind the acknowledged packets, \<open>C\<close> that of the newest packet and \<open>X\<close> the set of the
  missing ones in between; sequence numbers are the wrapped positions.
\<close>

definition rcv_inv :: "receiver \<Rightarrow> int \<Rightarrow> int \<Rightarrow> int set \<Rightarrow> bool" where
  "rcv_inv r A C X \<longleftrightarrow> rb_inv (rv_buffer r) \<and> rcv_holds (rc_loss (rv_lists r)) X \<and> rv_LastSkipAck r = sq A \<and> rv_RcvCurrSeqNo r = sq C \<and>
     int (length (rb_pending (rv_buffer r))) = C + 1 - A \<and> X = {p \<in> {A..C}. \<not> filled (rv_buffer r) (nat (p - A))} \<and>
     int (rb_size (rv_buffer r)) \<le> rl_size (rc_loss (rv_lists r)) \<and> rb_size (rv_buffer r) \<le> 268435456"

lemma rcv_inv_cong:
  assumes "rv_buffer r' = rv_buffer r" "rc_loss (rv_lists r') = rc_loss (rv_lists r)" "rv_RcvCurrSeqNo r' = rv_RcvCurrSeqNo r"
    "rv_LastSkipAck r' = rv_LastSkipAck r"
  shows "rcv_inv r' A C X = rcv_inv r A C X"
  using assms by (simp add: rcv_inv_def)

lemma rcv_inv_same:
  assumes i: "rcv_inv r A C X" and b: "rb_inv (rv_buffer r')" "rb_pending (rv_buffer r') = rb_pending (rv_buffer r)"
      "rb_size (rv_buffer r') = rb_size (rv_buffer r)"
    and l: "rcv_holds (rc_loss (rv_lists r')) X" "rl_size (rc_loss (rv_lists r')) = rl_size (rc_loss (rv_lists r))"
    and s: "rv_RcvCurrSeqNo r' = rv_RcvCurrSeqNo r" "rv_LastSkipAck r' = rv_LastSkipAck r"
  shows "rcv_inv r' A C X"
proof -
  have "filled (rv_buffer r') = filled (rv_buffer r)" using b(2) by (simp only: filled_def fun_eq_iff simp_thms)
  then show ?thesis using i b l s by (simp only: rcv_inv_def simp_thms)
qed

lemma send_fields [simp]:
  "rv_buffer (rv_send e c r) = rv_buffer r" "rv_lists (rv_send e c r) = rv_lists r" "rv_LastSkipAck (rv_send e c r) = rv_LastSkipAck r"
  "rv_buffer (rv_count f r) = rv_buffer r" "rv_lists (rv_count f r) = rv_lists r" "rv_LastSkipAck (rv_count f r) = rv_LastSkipAck r"
  "rv_Closing (rv_count f r) = rv_Closing r" "rv_Closing (rv_send e c r) = rv_Closing r"
  "rv_LastAck (rv_send e c r) = rv_LastAck r" "rv_LastAck (rv_count f r) = rv_LastAck r" "rv_sent (rv_count f r) = rv_sent r"
  "rv_sent (rv_send e c r) = rv_sent r @ [c]" "rv_stats (rv_send e c r) = rv_stats r" "rv_stats (rv_count f r) = f (rv_stats r)"
  by (simp_all add: rv_send_def rv_count_def)

lemma sendCtrl_LOSSREPORT_some:
  "\<exists>r'. sendCtrl_LOSSREPORT e (Some d) r = Some r' \<and> rv_buffer r' = rv_buffer r \<and> rv_lists r' = rv_lists r \<and>
     rv_LastSkipAck r' = rv_LastSkipAck r \<and> rv_LastAck r' = rv_LastAck r \<and> rv_sent r' = rv_sent r @ [Ctrl_LOSSREPORT d]"
  by (simp add: sendCtrl_LOSSREPORT_def Let_def)

lemma report_losses_some:
  "\<exists>r'. report_losses e ls r = Some r' \<and> rv_buffer r' = rv_buffer r \<and> rv_lists r' = rv_lists r \<and>
     rv_LastSkipAck r' = rv_LastSkipAck r \<and> rv_LastAck r' = rv_LastAck r \<and>
     rv_sent r' = rv_sent r @ (if sendLossReport ls = [] then [] else [Ctrl_LOSSREPORT (sendLossReport ls)])"
  using sendCtrl_LOSSREPORT_some [of e "sendLossReport ls" r] by (auto simp: report_losses_def Let_def)

lemma ordered_delivery_fields [simp]:
  "rc_loss (ordered_delivery b s) = rc_loss s" "rc_RcvCurrSeqNo (ordered_delivery b s) = rc_RcvCurrSeqNo s"
  by (simp_all add: ordered_delivery_def Let_def)

lemma unlose_fields:
  assumes "rcv_remove (rc_loss s) q = Some (x, l)"
  shows "\<exists>s'. unlose now q f s = Some s' \<and> rc_loss s' = l \<and> rc_RcvCurrSeqNo s' = rc_RcvCurrSeqNo s"
proof -
  obtain w i s1 where t: "unlose_tolerance q f (s\<lparr>rc_loss := l\<rparr>) = (w, i, s1)" by (metis prod_cases3)
  then have "rc_loss s1 = l" "rc_RcvCurrSeqNo s1 = rc_RcvCurrSeqNo s" by (auto simp: unlose_tolerance_def Let_def split: if_splits)
  moreover have "rc_RcvCurrSeqNo (unlose_counters w i t s) = rc_RcvCurrSeqNo s" for t s by (simp add: unlose_counters_def Let_def)
  ultimately show ?thesis using assms t by (auto simp: unlose_def unlose_counters_keeps case_prod_beta)
qed

subsection \<open>One unit\<close>

text \<open>Storing a packet in an empty slot.\<close>

lemma stored_filled:
  assumes "rb_pending b' = (padded b k)[k := Some x]"
  shows "filled b' j \<longleftrightarrow> filled b j \<or> j = k" "length (rb_pending b') = max (length (rb_pending b)) (k + 1)"
  using assms by (auto simp: filled_def padded_def nth_append nth_list_update split: if_splits)

lemma rcv_invD:
  assumes "rcv_inv r A C X"
  shows "rb_inv (rv_buffer r)" "rcv_holds (rc_loss (rv_lists r)) X" "rv_LastSkipAck r = sq A" "rv_RcvCurrSeqNo r = sq C"
    "A \<le> C + 1" "C - A < 268435456" "C + 1 - A < int (rb_size (rv_buffer r))" "int (rb_size (rv_buffer r)) \<le> rl_size (rc_loss (rv_lists r))"
    "X \<subseteq> {A..C}" "\<And>k. filled (rv_buffer r) k \<Longrightarrow> A + int k \<le> C" "int (length (rb_pending (rv_buffer r))) = C + 1 - A"
    "X = {p \<in> {A..C}. \<not> filled (rv_buffer r) (nat (p - A))}" "rb_size (rv_buffer r) \<le> 268435456"
proof -
  have I: "rb_inv (rv_buffer r)" "int (length (rb_pending (rv_buffer r))) = C + 1 - A" "rb_size (rv_buffer r) \<le> 268435456"
    using assms by (simp_all only: rcv_inv_def)
  then have "int (rb_iMaxPos (rv_buffer r)) = C + 1 - A" "rb_iMaxPos (rv_buffer r) < rb_size (rv_buffer r)"
    using rb_invD(4) [OF I(1)] by simp_all
  then show "A \<le> C + 1" "C - A < 268435456" "C + 1 - A < int (rb_size (rv_buffer r))" using I by linarith+
  show "\<And>k. filled (rv_buffer r) k \<Longrightarrow> A + int k \<le> C" using I by (auto simp: filled_def)
qed (use assms in \<open>auto simp: rcv_inv_def\<close>)

lemma stored_inv:
  assumes i: "rcv_inv r A C X" and q: "A \<le> q" "\<not> filled (rv_buffer r) (nat (q - A))"
    and b: "rb_inv b'" "rb_pending b' = (padded (rv_buffer r) (nat (q - A)))[nat (q - A) := Some x]"
      "rb_size b' = rb_size (rv_buffer r)"
    and r': "rv_buffer r' = b'" "rcv_holds (rc_loss (rv_lists r')) (X \<union> {C + 1..<q} - {q})" "rl_size (rc_loss (rv_lists r')) = rl_size (rc_loss (rv_lists r))"
      "rv_LastSkipAck r' = sq A" "rv_RcvCurrSeqNo r' = sq (max C q)"
  shows "rcv_inv r' A (max C q) (X \<union> {C + 1..<q} - {q})"
proof -
  note D = rcv_invD [OF i]
  note S = stored_filled [OF b(2)]
  have "int (length (rb_pending b')) = max C q + 1 - A" using S(2) D(5,11) q(1) by (simp add: max_def; linarith)
  moreover have "X \<union> {C + 1..<q} - {q} = {p \<in> {A..max C q}. \<not> filled b' (nat (p - A))}"
  proof -
    have "p \<in> X \<union> {C + 1..<q} - {q} \<longleftrightarrow> p \<in> {A..max C q} \<and> \<not> filled b' (nat (p - A))" for p
    proof (cases "A \<le> p \<and> p \<le> max C q")
      case True
      then have "nat (p - A) = nat (q - A) \<longleftrightarrow> p = q" using q(1) by auto
      moreover have "C < p \<Longrightarrow> \<not> filled (rv_buffer r) (nat (p - A))" using D(10) [of "nat (p - A)"] True by auto
      ultimately show ?thesis using True S(1) [of "nat (p - A)"] unfolding D(12) by auto
    next
      case False
      moreover have "p \<in> X \<Longrightarrow> A \<le> p \<and> p \<le> C" using D(9) by auto
      ultimately show ?thesis using D(5) by auto
    qed
    then show ?thesis by blast
  qed
  ultimately show ?thesis using b r' D(8,13) by (simp add: rcv_inv_def)
qed

definition clear_cipher :: "rcv_env \<Rightarrow> CPacket \<Rightarrow> bool" where
  "clear_cipher e p \<longleftrightarrow> getMsgCryptoFlags p = 0 \<or> fst (ev_decrypt e p) \<and> m_iSeqNo (snd (ev_decrypt e p)) = m_iSeqNo p"

definition decrypted :: "rcv_env \<Rightarrow> CPacket \<Rightarrow> CPacket" where
  "decrypted e p = (if getMsgCryptoFlags p = 0 then p else snd (ev_decrypt e p))"

lemma decrypt_unit_clear:
  assumes c: "clear_cipher e (rv_packet u r)" and i: "rb_inv (rv_buffer r)"
    and k: "k < rb_size (rv_buffer r)" "k = getRcvDataSize (rv_buffer r) + off" "ring (rv_buffer r) ! k = Some u"
  shows "\<exists>b. decrypt_unit e sz u r = (True, r\<lparr>rv_buffer := b\<rparr>) \<and> rb_inv b \<and> rb_acked b = rb_acked (rv_buffer r) \<and>
    rb_size b = rb_size (rv_buffer r) \<and> un_Packet (uq_unit (rb_pool b) ! u) = decrypted e (rv_packet u r) \<and>
    rb_pending b = (rb_pending (rv_buffer r))[off := Some ((uq_unit (rb_pool (rv_buffer r)) ! u)\<lparr>un_Packet := decrypted e (rv_packet u r)\<rparr>)] \<and>
    rb_tsbpd b = rb_tsbpd (rv_buffer r)"
proof (cases "getMsgCryptoFlags (rv_packet u r) = 0")
  case True
  have u: "u < length (uq_unit (rb_pool (rv_buffer r)))" using rb_invD(6) [OF i k(3,1)] by simp
  have "(rv_buffer r)\<lparr>rb_pool := unit_receive u (rv_packet u r) (rb_pool (rv_buffer r))\<rparr> = rv_buffer r" using u by (simp add: unit_receive_def)
  then have "rb_pending (rv_buffer r) = (rb_pending (rv_buffer r))[off := Some ((uq_unit (rb_pool (rv_buffer r)) ! u)\<lparr>un_Packet := rv_packet u r\<rparr>)]"
    using rewrite_pending(3) [OF i, of off u "rv_packet u r"] k by simp
  then show ?thesis using True i by (intro exI [of _ "rv_buffer r"]) (simp add: decrypt_unit_def decrypted_def)
next
  case False
  let ?p = "snd (ev_decrypt e (rv_packet u r))"
  let ?b = "(rv_buffer r)\<lparr>rb_pool := unit_receive u ?p (rb_pool (rv_buffer r))\<rparr>"
  have u: "u < length (uq_unit (rb_pool (rv_buffer r)))" using rb_invD(6) [OF i k(3,1)] by simp
  have "decrypt_unit e sz u r = (True, r\<lparr>rv_buffer := ?b\<rparr>)"
    using False c by (simp add: decrypt_unit_def clear_cipher_def case_prod_beta)
  moreover have "un_Packet (uq_unit (rb_pool ?b) ! u) = ?p" using u by (simp add: unit_receive_def)
  ultimately show ?thesis using rewrite_pending [OF i, of off u ?p] k False
    by (intro exI [of _ ?b]) (simp add: decrypted_def)
qed

lemma advance_seq_spec:
  assumes h: "rcv_holds (rc_loss (rv_lists r)) X" and c: "rv_RcvCurrSeqNo r = sq C" "m_iSeqNo p = sq q" "\<bar>q - C\<bar> < 536870912"
    and x: "q \<le> C \<Longrightarrow> \<forall>x\<in>X. A \<le> x \<and> x < A + rl_size (rc_loss (rv_lists r)) \<and> x - 268435456 < q \<and> q < x + rl_size (rc_loss (rv_lists r))"
  shows "\<exists>ps' l. advance_seq e io p (ps, r) = Some (ps', r\<lparr>rv_lists := l\<rparr>) \<and> rc_RcvCurrSeqNo l = sq (max C q) \<and>
    rcv_holds (rc_loss l) (if C < q then X else X - {q}) \<and> rl_size (rc_loss l) = rl_size (rc_loss (rv_lists r)) \<and>
    ps_losses ps' = ps_losses ps \<and> ps_excessive ps' = ps_excessive ps \<and> ps_prevent ps' = ps_prevent ps"
proof -
  have cmp: "seqcmp (m_iSeqNo p) (rv_RcvCurrSeqNo r) > 0 \<longleftrightarrow> C < q" using c by (simp add: seqcmp_sq)
  show ?thesis
  proof (cases "C < q")
    case True
    then show ?thesis using cmp h c
      by (intro exI [of _ ps] exI [of _ "(rv_lists r)\<lparr>rc_RcvCurrSeqNo := sq q\<rparr>"]) (simp add: advance_seq_def)
  next
    case False
    then have "q \<le> C" by simp
    from x [OF this] have X: "\<forall>x\<in>X. x - 268435456 < q \<and> q < x + rl_size (rc_loss (rv_lists r))"
      "\<forall>x\<in>X. A \<le> x \<and> x < A + rl_size (rc_loss (rv_lists r))" by blast+
    obtain l where l: "rcv_remove (rc_loss (rv_lists r)) (sq q) = Some (q \<in> X, l)" "rcv_holds l (X - {q})"
      "rl_size l = rl_size (rc_loss (rv_lists r))" using rcv_holds_remove [OF h X] by blast
    obtain s where "unlose (ev_us e) (sq q) (getRexmitFlag p) (rv_lists r) = Some s" "rc_loss s = l" "rc_RcvCurrSeqNo s = sq C"
      using unlose_fields [OF l(1), of "ev_us e" "getRexmitFlag p"] c(1) by auto
    then show ?thesis using cmp False l c
      by (intro exI [of _ "ps\<lparr>ps_in_order := ps_in_order ps \<and> io\<rparr>"] exI [of _ s]) (simp add: advance_seq_def max_def)
  qed
qed

lemma detect_loss_spec:
  assumes c: "rv_RcvCurrSeqNo r = sq C" "\<bar>q - C\<bar> < 536870912"
  shows "\<exists>ps' f. detect_loss e ttl (sq q) (ps, r) = (ps', r\<lparr>rv_lists := (rv_lists r)\<lparr>rc_fresh := f\<rparr>\<rparr>) \<and>
    ps_losses ps' = ps_losses ps @ (if C + 1 < q then [(sq (C + 1), sq (q - 1))] else []) \<and> ps_excessive ps' = ps_excessive ps \<and>
    (ttl = 0 \<longrightarrow> ps_prevent ps' = ps_prevent ps)"
proof -
  have "seqcmp (sq q) (incseq (rv_RcvCurrSeqNo r)) > 0 \<longleftrightarrow> C + 1 < q" using c by (simp add: incseq_sq seqcmp_sq)
  then show ?thesis using c(1)
    by (cases "C + 1 < q"; cases "ttl = 0") (auto simp: detect_loss_def Let_def incseq_sq decseq_sq intro: exI [of _ "rc_fresh (rv_lists r)"])
qed

text \<open>The conditions under which a packet at position \<open>q\<close> is processed in unit \<open>u\<close>.\<close>

definition incoming_ok :: "rcv_env \<Rightarrow> receiver \<Rightarrow> nat \<Rightarrow> int \<Rightarrow> int \<Rightarrow> bool" where
  "incoming_ok e r u q A \<longleftrightarrow> u < length (uq_unit (rb_pool (rv_buffer r))) \<and> \<not> uq_busy (rb_pool (rv_buffer r)) u \<and>
     m_iSeqNo (rv_packet u r) = sq q \<and> \<bar>q - A\<bar> < 268435456 \<and> clear_cipher e (rv_packet u r)"

text \<open>The packet is a new one for which there is room.\<close>

definition wanted :: "CRcvBuffer \<Rightarrow> int \<Rightarrow> int \<Rightarrow> bool" where
  "wanted b A q \<longleftrightarrow> A \<le> q \<and> q - A < getAvailBufSize b \<and> \<not> filled b (nat (q - A))"

lemma seqoff_at: "\<bar>q - A\<bar> < 268435456 \<Longrightarrow> seqoff (sq A) (sq q) = q - A"
  by (simp add: seqoff_sq)

lemma receive_unit_unwanted:
  assumes i: "rcv_inv r A C X" and q: "incoming_ok e r u q A" and w: "\<not> wanted (rv_buffer r) A q"
  shows "\<exists>go ps' r'. receive_unit e ttl io sz u (ps, r) = Some (go, ps', r') \<and> rcv_inv r' A C X \<and>
    rb_acked (rv_buffer r') = rb_acked (rv_buffer r) \<and> rb_pending (rv_buffer r') = rb_pending (rv_buffer r) \<and>
    rv_LastAck r' = rv_LastAck r \<and> (ps_excessive ps' = ps_excessive ps)"
proof -
  note D = rcv_invD [OF i]
  have off: "seqoff (rv_LastSkipAck r) (m_iSeqNo (rv_packet u r)) = q - A" using q D(3) by (simp add: incoming_ok_def seqoff_at)
  consider (old) "q < A" | (far) "A \<le> q" "getAvailBufSize (rv_buffer r) \<le> q - A"
    | (dup) "A \<le> q" "q - A < getAvailBufSize (rv_buffer r)" "filled (rv_buffer r) (nat (q - A))"
    using w by (cases "q < A"; cases "getAvailBufSize (rv_buffer r) \<le> q - A") (simp_all add: wanted_def)
  then show ?thesis
  proof cases
    case old
    let ?b = "(rv_buffer r)\<lparr>rb_tsbpd := snd (getPktTsbPdTime (packet_time (rv_packet u r)) (rb_tsbpd (rv_buffer r)))\<rparr>"
    let ?r = "rv_count (\<lambda>s. s\<lparr>st_RcvBelated := st_RcvBelated s + 1\<rparr>) (r\<lparr>rv_buffer := ?b\<rparr>)"
    have "receive_unit e ttl io sz u (ps, r) = Some (True, ps, ?r)" using off old by (simp add: receive_unit_def Let_def)
    moreover have "rb_inv ?b = rb_inv (rv_buffer r)" "rb_acked ?b = rb_acked (rv_buffer r)" "rb_pending ?b = rb_pending (rv_buffer r)"
      by (rule rb_inv_cong; simp add: ring_def)+
    moreover have "rcv_inv ?r A C X"
      using rcv_inv_same [OF i, of ?r] \<open>rb_inv ?b = _\<close> \<open>rb_pending ?b = _\<close> D(1,2) by simp
    ultimately show ?thesis by (intro exI [of _ True] exI [of _ ps] exI [of _ ?r]) simp
  next
    case far
    let ?r = "if rv_TsbPd r \<and> rv_TLPktDrop r \<and> rb_iStartPos (rv_buffer r) = rb_iLastAckPos (rv_buffer r) then processClose e r else r"
    have "receive_unit e ttl io sz u (ps, r) = Some (False, ps, ?r)" using off far by (simp add: receive_unit_def Let_def)
    moreover have "rcv_inv ?r A C X" using i by (simp add: rcv_inv_cong [of ?r r] processClose_def)
    ultimately show ?thesis by (intro exI [of _ False] exI [of _ ps] exI [of _ ?r]) (simp add: processClose_def)
  next
    case dup
    have u: "u < length (uq_unit (rb_pool (rv_buffer r)))" "\<not> uq_busy (rb_pool (rv_buffer r)) u" "m_iSeqNo (rv_packet u r) = sq q"
      using q by (simp_all add: incoming_ok_def)
    obtain b' where a: "addData u (nat (q - A)) (rv_buffer r) = (- 1, b')" "rb_inv b'" "rb_acked b' = rb_acked (rv_buffer r)"
      "rb_pending b' = rb_pending (rv_buffer r)" using addData_cases(1) [OF D(1) u(1,2) _ dup(3)] dup(1,2) by auto
    have sz: "rb_size b' = rb_size (rv_buffer r)" using addData_frame(1) [of u "nat (q - A)" "rv_buffer r"] a(1) by simp
    let ?r = "r\<lparr>rv_buffer := b'\<rparr>"
    have pk: "rv_packet u ?r = rv_packet u r" using a(1) by (auto simp: addData_def Let_def split: if_splits)
    have qC: "q \<le> C" using D(10) [OF dup(3)] dup(1) by simp
    have "q \<notin> X" using dup(3) D(12) by auto
    then have Xq: "X - {q} = X" by simp
    have "\<forall>x\<in>X. A \<le> x \<and> x < A + rl_size (rc_loss (rv_lists r)) \<and> x - 268435456 < q \<and> q < x + rl_size (rc_loss (rv_lists r))"
      using D(6-9) dup(1) qC by (auto simp: subset_iff)
    then obtain ps' l where A: "advance_seq e io (rv_packet u r) (ps, ?r) = Some (ps', ?r\<lparr>rv_lists := l\<rparr>)"
      "rc_RcvCurrSeqNo l = sq (max C q)" "rcv_holds (rc_loss l) X" "rl_size (rc_loss l) = rl_size (rc_loss (rv_lists r))"
      "ps_excessive ps' = ps_excessive ps"
      using advance_seq_spec [of ?r X C "rv_packet u r" q A e io ps] D(2,4) D(5,6) u(3) qC dup(1) Xq by auto
    have "receive_unit e ttl io sz u (ps, r) = Some (True, ps', ?r\<lparr>rv_lists := l\<rparr>)"
      using off dup(1,2) a(1) A(1) pk by (simp add: receive_unit_def Let_def)
    moreover have "rcv_inv (?r\<lparr>rv_lists := l\<rparr>) A C X"
      using rcv_inv_same [OF i, of "?r\<lparr>rv_lists := l\<rparr>"] a A sz qC D(4) by (simp add: max_def)
    ultimately show ?thesis using a A by (intro exI [of _ True] exI [of _ ps'] exI [of _ "?r\<lparr>rv_lists := l\<rparr>"]) simp
  qed
qed

lemma receive_unit_wanted:
  assumes i: "rcv_inv r A C X" and q: "incoming_ok e r u q A" and w: "wanted (rv_buffer r) A q"
  defines "k \<equiv> nat (q - A)"
  shows "\<exists>ps' r' x. receive_unit e ttl io sz u (ps, r) = Some (True, ps', r') \<and> \<not> ps_excessive ps' \<and>
    ps_losses ps' = ps_losses ps @ (if C + 1 < q then [(sq (C + 1), sq (q - 1))] else []) \<and>
    (ttl = 0 \<longrightarrow> ps_prevent ps' = ps_prevent ps) \<and>
    rb_inv (rv_buffer r') \<and> rb_acked (rv_buffer r') = rb_acked (rv_buffer r) \<and> rb_size (rv_buffer r') = rb_size (rv_buffer r) \<and>
    rb_pending (rv_buffer r') = (padded (rv_buffer r) k)[k := Some x] \<and> un_Packet x = decrypted e (rv_packet u r) \<and>
    rcv_holds (rc_loss (rv_lists r')) (if C < q then X else X - {q}) \<and> rl_size (rc_loss (rv_lists r')) = rl_size (rc_loss (rv_lists r)) \<and>
    rv_LastSkipAck r' = sq A \<and> rv_RcvCurrSeqNo r' = sq (max C q) \<and> rv_LastAck r' = rv_LastAck r \<and> rv_Closing r' = rv_Closing r"
proof -
  note D = rcv_invD [OF i]
  let ?p = "rv_packet u r"
  have W: "A \<le> q" "q - A < getAvailBufSize (rv_buffer r)" "\<not> filled (rv_buffer r) k" using w by (simp_all add: wanted_def k_def)
  have U: "u < length (uq_unit (rb_pool (rv_buffer r)))" "\<not> uq_busy (rb_pool (rv_buffer r)) u" "m_iSeqNo ?p = sq q" "clear_cipher e ?p"
    "\<bar>q - A\<bar> < 268435456" using q by (simp_all add: incoming_ok_def)
  have off: "seqoff (rv_LastSkipAck r) (m_iSeqNo ?p) = q - A" using U D(3) by (simp add: seqoff_at)
  obtain b' where a: "addData u k (rv_buffer r) = (0, b')" "rb_inv b'" "rb_acked b' = rb_acked (rv_buffer r)"
    "rb_pending b' = (padded (rv_buffer r) k)[k := Some ((uq_unit (rb_pool (rv_buffer r)) ! u)\<lparr>un_iFlag := GOOD\<rparr>)]"
    "\<exists>j < rb_size b'. j = getRcvDataSize b' + k \<and> ring b' ! j = Some u"
    using addData_cases(2) [OF D(1) U(1,2) _ W(3)] W(1,2) unfolding k_def by auto
  have sz: "rb_size b' = rb_size (rv_buffer r)" using addData_frame(1) [of u k "rv_buffer r"] a(1) by simp
  let ?r1 = "r\<lparr>rv_buffer := b'\<rparr>"
  have pk: "rv_packet u ?r1 = ?p" using a(1) U(1) by (auto simp: addData_def Let_def countBytes_def makeUnitGood_def set_flag_of_def nth_list_update split: if_splits)
  obtain b where d: "decrypt_unit e sz u ?r1 = (True, ?r1\<lparr>rv_buffer := b\<rparr>)" "rb_inv b" "rb_acked b = rb_acked b'" "rb_size b = rb_size b'"
    "un_Packet (uq_unit (rb_pool b) ! u) = decrypted e ?p"
    "rb_pending b = (rb_pending b')[k := Some ((uq_unit (rb_pool b') ! u)\<lparr>un_Packet := decrypted e ?p\<rparr>)]"
    using decrypt_unit_clear [where e = e and u = u and r = ?r1 and off = k and sz = sz] U(4) a(2,5) pk by auto
  let ?r2 = "r\<lparr>rv_buffer := b\<rparr>"
  have sd: "m_iSeqNo (decrypted e ?p) = sq q" using U(3,4) by (auto simp: decrypted_def clear_cipher_def)
  have near: "\<bar>q - C\<bar> < 536870912" using U(5) D(5,6) by linarith
  obtain ps1 f where l: "detect_loss e ttl (sq q) (ps\<lparr>ps_excessive := False\<rparr>, ?r2) = (ps1, ?r2\<lparr>rv_lists := (rv_lists r)\<lparr>rc_fresh := f\<rparr>\<rparr>)"
    "ps_losses ps1 = ps_losses ps @ (if C + 1 < q then [(sq (C + 1), sq (q - 1))] else [])" "\<not> ps_excessive ps1" "ttl = 0 \<longrightarrow> ps_prevent ps1 = ps_prevent ps"
    using detect_loss_spec [of ?r2 C q e ttl "ps\<lparr>ps_excessive := False\<rparr>"] near D(4) by auto
  let ?r3 = "?r2\<lparr>rv_lists := (rv_lists r)\<lparr>rc_fresh := f\<rparr>\<rparr>"
  have "q \<le> C \<Longrightarrow> \<forall>x\<in>X. A \<le> x \<and> x < A + rl_size (rc_loss (rv_lists r)) \<and> x - 268435456 < q \<and> q < x + rl_size (rc_loss (rv_lists r))"
    using D(6-9) W(1) by (auto simp: subset_iff)
  then obtain ps' l' where A: "advance_seq e io (decrypted e ?p) (ps1, ?r3) = Some (ps', ?r3\<lparr>rv_lists := l'\<rparr>)"
    "rc_RcvCurrSeqNo l' = sq (max C q)" "rcv_holds (rc_loss l') (if C < q then X else X - {q})" "rl_size (rc_loss l') = rl_size (rc_loss (rv_lists r))"
    "ps_losses ps' = ps_losses ps1" "ps_excessive ps' = ps_excessive ps1" "ps_prevent ps' = ps_prevent ps1"
    using advance_seq_spec [of ?r3 X C "decrypted e ?p" q A e io ps1] D(2,4) near sd by auto
  have "receive_unit e ttl io sz u (ps, r) = Some (True, ps', ?r3\<lparr>rv_lists := l'\<rparr>)"
    using off W(1,2) a(1) d(1,5) l(1) A(1) sd by (simp add: receive_unit_def Let_def k_def [symmetric])
  moreover have "rb_pending b = (padded (rv_buffer r) k)[k := Some ((uq_unit (rb_pool b') ! u)\<lparr>un_Packet := decrypted e ?p\<rparr>)]"
    using d(6) a(4) by simp
  ultimately show ?thesis using a(3) d(2,3,4) l(2-4) A(2-7) D(3) sz
    by (intro exI [of _ ps'] exI [of _ "?r3\<lparr>rv_lists := l'\<rparr>"] exI) auto
qed

subsection \<open>Processing\<close>

lemma after_units_spec:
  assumes h: "rcv_holds (rc_loss (rv_lists r)) X" "\<forall>x\<in>X. A \<le> x \<and> x \<le> C" and A: "A \<le> C + 1" "q - A < rl_size (rc_loss (rv_lists r))"
    and ls: "ps_losses ps = (if C + 1 < q then [(sq (C + 1), sq (q - 1))] else [])"
    and C: "C - A < rl_size (rc_loss (rv_lists r))"
  shows "\<exists>r'. after_units e ttl fl ps r = Some r' \<and> rv_buffer r' = rv_buffer r \<and> rcv_holds (rc_loss (rv_lists r')) (X \<union> {C + 1..<q}) \<and>
    rl_size (rc_loss (rv_lists r')) = rl_size (rc_loss (rv_lists r)) \<and> rv_RcvCurrSeqNo r' = rv_RcvCurrSeqNo r \<and>
    rv_LastSkipAck r' = rv_LastSkipAck r \<and> rv_LastAck r' = rv_LastAck r \<and>
    (C + 1 < q \<and> \<not> ps_prevent ps \<and> ev_filter e = None \<longrightarrow> Ctrl_LOSSREPORT (sendLossReport [(sq (C + 1), sq (q - 1))]) \<in> set (rv_sent r'))"
proof -
  let ?rep = "\<not> ps_prevent ps \<and> (ev_filter e = None \<or> rv_PktFilterRexmitAlways r)"
  have ne: "sendLossReport [(a, b)] \<noteq> []" for a b by simp
  have "\<exists>l. insert_losses (ps_losses ps) (rc_loss (rv_lists r)) = Some l \<and> rcv_holds l (X \<union> {C + 1..<q}) \<and> rl_size l = rl_size (rc_loss (rv_lists r))"
  proof (cases "C + 1 < q")
    case True
    then obtain l where "rcv_insert (rc_loss (rv_lists r)) (sq (C + 1)) (sq (q - 1)) = Some l" "rcv_holds l (X \<union> {C + 1..q - 1})"
      "rl_size l = rl_size (rc_loss (rv_lists r))"
      using rcv_holds_insert [OF h(1), of "C + 1" "q - 1" A] h(2) A C by fastforce
    moreover have "{C + 1..q - 1} = {C + 1..<q}" by auto
    ultimately show ?thesis using True ls by simp
  qed (use ls h in simp)
  then obtain l where l: "insert_losses (ps_losses ps) (rc_loss (rv_lists r)) = Some l" "rcv_holds l (X \<union> {C + 1..<q})"
    "rl_size l = rl_size (rc_loss (rv_lists r))" by blast
  let ?r1 = "r\<lparr>rv_lists := (rv_lists r)\<lparr>rc_loss := l\<rparr>\<rparr>"
  have r1: "?r1 = r" if "ps_losses ps = []" using l(1) that by simp
  obtain r2 where r2: "(if ps_losses ps \<noteq> [] \<and> ?rep then report_losses e (ps_losses ps) ?r1 else Some ?r1) = Some r2"
    "rv_buffer r2 = rv_buffer r" "rv_lists r2 = rv_lists ?r1" "rv_LastSkipAck r2 = rv_LastSkipAck r" "rv_LastAck r2 = rv_LastAck r"
    "C + 1 < q \<and> \<not> ps_prevent ps \<and> ev_filter e = None \<Longrightarrow> Ctrl_LOSSREPORT (sendLossReport [(sq (C + 1), sq (q - 1))]) \<in> set (rv_sent r2)"
  proof (cases "C + 1 < q \<and> ?rep")
    case True
    then show ?thesis using report_losses_some [of e "ps_losses ps" ?r1] ls ne [of "sq (C + 1)" "sq (q - 1)"] that by (auto simp del: sendLossReport.simps)
  next
    case False
    then show ?thesis using that [of ?r1] ls by auto
  qed
  obtain r3 where r3: "report_losses e fl r2 = Some r3" "rv_buffer r3 = rv_buffer r2" "rv_lists r3 = rv_lists r2"
    "rv_LastSkipAck r3 = rv_LastSkipAck r2" "rv_LastAck r3 = rv_LastAck r2" "set (rv_sent r2) \<subseteq> set (rv_sent r3)"
    using report_losses_some [of e fl r2] by auto
  obtain ld fr where f: "fresh_expire ttl (rc_fresh (rv_lists r3)) = (ld, fr)" by fastforce
  let ?r4 = "r3\<lparr>rv_lists := (rv_lists r3)\<lparr>rc_fresh := fr\<rparr>\<rparr>"
  obtain r5 where r5: "(if ld \<noteq> [] then sendCtrl_LOSSREPORT e (Some ld) ?r4 else Some ?r4) = Some r5" "rv_buffer r5 = rv_buffer r3"
    "rv_lists r5 = rv_lists ?r4" "rv_LastSkipAck r5 = rv_LastSkipAck r3" "rv_LastAck r5 = rv_LastAck r3" "set (rv_sent r3) \<subseteq> set (rv_sent r5)"
    using sendCtrl_LOSSREPORT_some [of e ld ?r4] by (cases "ld \<noteq> []") (auto simp: subset_insertI)
  have "after_units e ttl fl ps r = Some (r5\<lparr>rv_lists := ordered_delivery (ps_in_order ps) (rv_lists r5)\<rparr>)"
  proof (cases "ps_losses ps = []")
    case True
    with r1 r2(1) have "r2 = r" by simp
    then show ?thesis using True r3(1) f r5(1) by (simp add: after_units_def)
  next
    case False
    then have "(if ?rep then report_losses e (ps_losses ps) ?r1 else Some ?r1) = Some r2" using r2(1) by simp
    then show ?thesis using False l(1) r3(1) f r5(1) by (simp add: after_units_def)
  qed
  then show ?thesis using l r2 r3 r5 by (intro exI conjI impI) (assumption | auto)+
qed

text \<open>The packet is counted.\<close>

definition arrived :: "rcv_env \<Rightarrow> nat \<Rightarrow> receiver \<Rightarrow> receiver" where
  "arrived e u r =
     (let packet = rv_packet u r; pktsz = int (getLength packet); seq = m_iSeqNo packet;
          rexmit = (rc_PeerRexmitFlag (rv_lists r) \<and> getRexmitFlag packet);
          r = r\<lparr>rv_EXPCount := 1, rv_LastRspTime := ev_tk e, rv_PktCount := rv_PktCount r + 1,
            rv_window := probeArrival (ev_us e) seq pktsz (seqcmp seq (rv_RcvCurrSeqNo r) \<le> 0 \<or> rexmit)
              (onPktArrival (ev_us e) pktsz (rv_window r))\<rparr>
      in phy_losses packet (rv_count (\<lambda>s. s\<lparr>st_RcvRetrans := st_RcvRetrans s + (if rexmit then 1 else 0), st_Recv := st_Recv s + 1,
            st_BytesRecv := st_BytesRecv s + pktsz\<rparr>) r))"

lemma phy_losses_fields [simp]:
  "rv_buffer (phy_losses p r) = rv_buffer r" "rv_lists (phy_losses p r) = rv_lists r" "rv_LastSkipAck (phy_losses p r) = rv_LastSkipAck r"
  "rv_LastAck (phy_losses p r) = rv_LastAck r" "rv_Closing (phy_losses p r) = rv_Closing r" "rv_sent (phy_losses p r) = rv_sent r"
  by (simp_all add: phy_losses_def Let_def cong: if_cong)

lemma arrived_fields [simp]:
  "rv_buffer (arrived e u r) = rv_buffer r" "rv_lists (arrived e u r) = rv_lists r" "rv_LastSkipAck (arrived e u r) = rv_LastSkipAck r"
  "rv_LastAck (arrived e u r) = rv_LastAck r" "rv_Closing (arrived e u r) = rv_Closing r" "rv_sent (arrived e u r) = rv_sent r"
  by (simp_all add: arrived_def Let_def)

definition pass0 :: rcv_pass where
  "pass0 = \<lparr>ps_losses = [], ps_in_order = True, ps_prevent = False, ps_excessive = True\<rparr>"

definition unit_ttl :: "receiver \<Rightarrow> int" where
  "unit_ttl r = (if rc_PeerRexmitFlag (rv_lists r) then rc_ReorderTolerance (rv_lists r) else 0)"

text \<open>Without a packet filter the one unit is the packet that came.\<close>

lemma processData_one:
  assumes "ev_filter e = None"
  obtains io where "processData e u r = do {
    (go, ps, r') \<leftarrow> receive_unit e (unit_ttl r) io (int (getLength (rv_packet u r))) u (pass0, arrived e u r);
    if \<not> go then Some (- 1, r')
    else (let r' = (if \<not> seqcmp (m_iSeqNo (rv_packet u r)) (rv_LastSkipAck r) < 0 \<and> ps_in_order ps \<and> ev_needsQuickACK e (rv_packet u r')
            then r'\<lparr>rv_NextACKTime := ev_tk e\<rparr> else r')
      in if ps_excessive ps \<or> rv_Closing r' then Some (- 1, r')
         else map_option (\<lambda>r. (0, r)) (after_units e (unit_ttl r) [] ps r'))}"
proof -
  let ?io = "\<not> rc_PeerRexmitFlag (rv_lists r) \<or> rc_PeerRexmitFlag (rv_lists r) \<and> getRexmitFlag (rv_packet u r)"
  have w: "do { (go, pr) \<leftarrow> m; if go then receive_units e t io sz [] pr else Some (False, pr) } = m" for m t io sz
    by (cases m) auto
  have "receive_units e t io sz [u] pr = receive_unit e t io sz u pr" for t io sz pr unfolding receive_units.simps(2) by (rule w)
  then show ?thesis using assms that [of ?io]
    by (simp add: processData_def arrived_def unit_ttl_def pass0_def Let_def cong: if_cong del: receive_units.simps)
qed

lemma arrived_ok: "rcv_inv (arrived e u r) A C X = rcv_inv r A C X" "incoming_ok e (arrived e u r) u q A = incoming_ok e r u q A"
  by (rule rcv_inv_cong; simp) (simp add: incoming_ok_def)

lemma processData_spec:
  assumes i: "rcv_inv r A C X" and q: "incoming_ok e r u q A" and f: "ev_filter e = None" and c: "\<not> rv_Closing r"
  shows "\<exists>r'. processData e u r = Some (if wanted (rv_buffer r) A q then 0 else - 1, r') \<and>
    rb_acked (rv_buffer r') = rb_acked (rv_buffer r) \<and>
    (if wanted (rv_buffer r) A q
     then rcv_inv r' A (max C q) (X \<union> {C + 1..<q} - {q}) \<and>
       map_option un_Packet (rb_pending (rv_buffer r') ! nat (q - A)) = Some (decrypted e (rv_packet u r)) \<and>
       (\<forall>k. k \<noteq> nat (q - A) \<longrightarrow> filled (rv_buffer r) k \<longrightarrow> rb_pending (rv_buffer r') ! k = rb_pending (rv_buffer r) ! k) \<and>
       (C + 1 < q \<and> unit_ttl r = 0 \<longrightarrow> Ctrl_LOSSREPORT (sendLossReport [(sq (C + 1), sq (q - 1))]) \<in> set (rv_sent r'))
     else rcv_inv r' A C X \<and> rb_pending (rv_buffer r') = rb_pending (rv_buffer r))"
proof -
  obtain io where P: "processData e u r = do {
    (go, ps, r') \<leftarrow> receive_unit e (unit_ttl r) io (int (getLength (rv_packet u r))) u (pass0, arrived e u r);
    if \<not> go then Some (- 1, r')
    else (let r' = (if \<not> seqcmp (m_iSeqNo (rv_packet u r)) (rv_LastSkipAck r) < 0 \<and> ps_in_order ps \<and> ev_needsQuickACK e (rv_packet u r')
            then r'\<lparr>rv_NextACKTime := ev_tk e\<rparr> else r')
      in if ps_excessive ps \<or> rv_Closing r' then Some (- 1, r')
         else map_option (\<lambda>r. (0, r)) (after_units e (unit_ttl r) [] ps r'))}"
    by (rule processData_one [OF f])
  let ?sz = "int (getLength (rv_packet u r))"
  have i': "rcv_inv (arrived e u r) A C X" and q': "incoming_ok e (arrived e u r) u q A" using i q by (simp_all add: arrived_ok)
  note D = rcv_invD [OF i]
  show ?thesis
  proof (cases "wanted (rv_buffer r) A q")
    case False
    then obtain go ps' r' where R: "receive_unit e (unit_ttl r) io ?sz u (pass0, arrived e u r) = Some (go, ps', r')"
      "rcv_inv r' A C X" "rb_acked (rv_buffer r') = rb_acked (rv_buffer r)" "rb_pending (rv_buffer r') = rb_pending (rv_buffer r)" "ps_excessive ps'"
      using receive_unit_unwanted [OF i' q', of "unit_ttl r" io ?sz pass0] by (auto simp: pass0_def)
    have "rcv_inv (r'\<lparr>rv_NextACKTime := ev_tk e\<rparr>) A C X = rcv_inv r' A C X" by (rule rcv_inv_cong) simp_all
    then have n: "rcv_inv (r'\<lparr>rv_NextACKTime := ev_tk e\<rparr>) A C X" using R(2) by simp
    define r1 where "r1 = (if \<not> seqcmp (m_iSeqNo (rv_packet u r)) (rv_LastSkipAck r) < 0 \<and> ps_in_order ps' \<and> ev_needsQuickACK e (rv_packet u r')
            then r'\<lparr>rv_NextACKTime := ev_tk e\<rparr> else r')"
    have "rv_buffer r1 = rv_buffer r'" "rcv_inv r1 A C X" using R(2) n by (simp_all add: r1_def)
    moreover have "processData e u r = Some (- 1, if go then r1 else r')" using P R(1,5) by (simp add: r1_def [symmetric])
    ultimately show ?thesis using False R(2-4) by simp
  next
    case True
    define k where "k = nat (q - A)"
    obtain ps' r' x where R: "receive_unit e (unit_ttl r) io ?sz u (pass0, arrived e u r) = Some (True, ps', r')" "\<not> ps_excessive ps'"
      "ps_losses ps' = (if C + 1 < q then [(sq (C + 1), sq (q - 1))] else [])" "unit_ttl r = 0 \<longrightarrow> \<not> ps_prevent ps'"
      "rb_inv (rv_buffer r')" "rb_acked (rv_buffer r') = rb_acked (rv_buffer r)" "rb_size (rv_buffer r') = rb_size (rv_buffer r)"
      "rb_pending (rv_buffer r') = (padded (rv_buffer r) k)[k := Some x]" "un_Packet x = decrypted e (rv_packet u r)"
      "rcv_holds (rc_loss (rv_lists r')) (if C < q then X else X - {q})" "rl_size (rc_loss (rv_lists r')) = rl_size (rc_loss (rv_lists r))"
      "rv_LastSkipAck r' = sq A" "rv_RcvCurrSeqNo r' = sq (max C q)" "\<not> rv_Closing r'"
      using receive_unit_wanted [OF i' q', of "unit_ttl r" io ?sz pass0] True c unfolding pass0_def k_def by auto
    define r1 where "r1 = (if \<not> seqcmp (m_iSeqNo (rv_packet u r)) (rv_LastSkipAck r) < 0 \<and> ps_in_order ps' \<and> ev_needsQuickACK e (rv_packet u r')
            then r'\<lparr>rv_NextACKTime := ev_tk e\<rparr> else r')"
    have r1: "rv_buffer r1 = rv_buffer r'" "rv_lists r1 = rv_lists r'" "rv_LastSkipAck r1 = rv_LastSkipAck r'" "\<not> rv_Closing r1"
      using R(14) by (simp_all add: r1_def)
    have w: "A \<le> q" "q - A < getAvailBufSize (rv_buffer r)" "\<not> filled (rv_buffer r) k" using True by (simp_all add: wanted_def k_def)
    have av: "getAvailBufSize (rv_buffer r) \<le> int (rb_size (rv_buffer r))" using D(1) by (simp add: getAvailBufSize_def)
    have "rcv_holds (rc_loss (rv_lists r1)) (if C < q then X else X - {q})" "\<forall>x\<in>(if C < q then X else X - {q}). A \<le> x \<and> x \<le> C"
      "q - A < rl_size (rc_loss (rv_lists r1))" "C - A < rl_size (rc_loss (rv_lists r1))"
      using R(10,11) D(7-9) r1(2) w(1,2) av by auto
    then obtain r2 where A: "after_units e (unit_ttl r) [] ps' r1 = Some r2" "rv_buffer r2 = rv_buffer r1"
      "rcv_holds (rc_loss (rv_lists r2)) ((if C < q then X else X - {q}) \<union> {C + 1..<q})" "rl_size (rc_loss (rv_lists r2)) = rl_size (rc_loss (rv_lists r1))"
      "rv_RcvCurrSeqNo r2 = rv_RcvCurrSeqNo r1" "rv_LastSkipAck r2 = rv_LastSkipAck r1"
      "C + 1 < q \<and> \<not> ps_prevent ps' \<and> ev_filter e = None \<longrightarrow> Ctrl_LOSSREPORT (sendLossReport [(sq (C + 1), sq (q - 1))]) \<in> set (rv_sent r2)"
      using after_units_spec [of r1 "if C < q then X else X - {q}" A C q ps' e "unit_ttl r" "[]"] D(5) R(3) by blast
    have e: "(if C < q then X else X - {q}) \<union> {C + 1..<q} = X \<union> {C + 1..<q} - {q}" using D(9) by auto
    have "rcv_inv r2 A (max C q) (X \<union> {C + 1..<q} - {q})"
      using stored_inv [OF i w(1) w(3) [unfolded k_def] R(5) R(8) [unfolded k_def] R(7), of r2] A(2-6) R(11-13) r1 e by simp
    moreover have "processData e u r = Some (0, r2)" using P R(1,2) A(1) r1(4) by (simp add: r1_def [symmetric])
    moreover have "length (padded (rv_buffer r) k) > k" by (simp add: padded_def)
    moreover have "filled (rv_buffer r) j \<Longrightarrow> padded (rv_buffer r) k ! j = rb_pending (rv_buffer r) ! j" for j
      by (simp add: padded_def filled_def nth_append)
    ultimately show ?thesis using True A(2,7) R(4,6,8,9) r1(1) f by (simp add: k_def [symmetric])
  qed
qed

subsection \<open>Acknowledging\<close>

text \<open>The position that the next acknowledgement names.\<close>

definition first_missing :: "int \<Rightarrow> int set \<Rightarrow> int" where
  "first_missing C X = (if X = {} then C + 1 else Min X)"

lemma rcv_inv_missing:
  assumes i: "rcv_inv r A C X"
  defines "F \<equiv> first_missing C X"
  shows "A \<le> F" "F \<le> C + 1" "\<And>p. A \<le> p \<Longrightarrow> p < F \<Longrightarrow> filled (rv_buffer r) (nat (p - A))"
    "F \<le> C \<Longrightarrow> \<not> filled (rv_buffer r) (nat (F - A))" "\<And>p. p \<in> X \<Longrightarrow> F \<le> p"
proof -
  note D = rcv_invD [OF i]
  have fin: "finite X" using D(2) by (rule rcv_holds_finite)
  have M: "A \<le> Min X \<and> Min X \<le> C" if "X \<noteq> {}" using Min_in [OF fin that] D(9) by auto
  show "A \<le> F" "F \<le> C + 1" using D(5) M by (cases "X = {}"; simp add: F_def first_missing_def)+
  show le: "F \<le> p" if "p \<in> X" for p using that fin by (auto simp: F_def first_missing_def)
  show "filled (rv_buffer r) (nat (p - A))" if p: "A \<le> p" "p < F" for p
  proof (rule ccontr)
    assume "\<not> filled (rv_buffer r) (nat (p - A))"
    with p \<open>F \<le> C + 1\<close> have "p \<in> {p \<in> {A..C}. \<not> filled (rv_buffer r) (nat (p - A))}" by simp
    then have "p \<in> X" using D(12) by blast
    with le p(2) show False by force
  qed
  show "\<not> filled (rv_buffer r) (nat (F - A))" if "F \<le> C"
  proof -
    have "F \<in> X" using that Min_in [OF fin] by (cases "X = {}") (simp_all add: F_def first_missing_def)
    then show ?thesis using D(12) by blast
  qed
qed

text \<open>The slots in front of the first missing packet are acknowledged.\<close>

lemma acked_inv:
  assumes i: "rcv_inv r A C X"
  defines "F \<equiv> first_missing C X"
  assumes r': "rv_buffer r' = (if A < F then rb_ackData (nat (F - A)) (rv_buffer r) else rv_buffer r)" "rv_lists r' = rv_lists r"
    "rv_LastSkipAck r' = sq F"
  shows "rcv_inv r' F C X \<and> rb_acked (rv_buffer r') = rb_acked (rv_buffer r) @ take (nat (F - A)) (rb_pending (rv_buffer r)) \<and>
    rb_pending (rv_buffer r') = drop (nat (F - A)) (rb_pending (rv_buffer r))"
proof -
  note D = rcv_invD [OF i] and M = rcv_inv_missing [OF i, folded F_def]
  have le: "nat (F - A) \<le> length (rb_pending (rv_buffer r))" using D(11) M(1,2) by linarith
  have B: "rb_inv (rv_buffer r')" "rb_acked (rv_buffer r') = rb_acked (rv_buffer r) @ take (nat (F - A)) (rb_pending (rv_buffer r))"
    "rb_pending (rv_buffer r') = drop (nat (F - A)) (rb_pending (rv_buffer r))" "rb_size (rv_buffer r') = rb_size (rv_buffer r)"
    using ackData_slots [OF D(1) le] r'(1) D(1) by (simp_all add: rb_ackData_def advance_ack_def Let_def)
  have f: "filled (rv_buffer r') (nat (p - F)) = filled (rv_buffer r) (nat (p - A))" if "F \<le> p" for p
  proof -
    have n: "nat (F - A) + nat (p - F) = nat (p - A)" using that M(1) by simp
    have "nat (p - F) < length (rb_pending (rv_buffer r)) - nat (F - A) \<longleftrightarrow> nat (p - A) < length (rb_pending (rv_buffer r))" using n by linarith
    then show ?thesis using le by (simp add: filled_def B(3) n)
  qed
  have "X = {p \<in> {F..C}. \<not> filled (rv_buffer r') (nat (p - F))}"
  proof -
    have "p \<in> X \<longleftrightarrow> p \<in> {F..C} \<and> \<not> filled (rv_buffer r') (nat (p - F))" for p
    proof (cases "F \<le> p")
      case True
      have "p \<in> X \<longleftrightarrow> A \<le> p \<and> p \<le> C \<and> \<not> filled (rv_buffer r) (nat (p - A))" using D(12) by auto
      then show ?thesis using f [OF True] True M(1) by auto
    qed (use M(5) in auto)
    then show ?thesis by blast
  qed
  moreover have "int (length (rb_pending (rv_buffer r'))) = C + 1 - F" using B(3) le D(11) M(1) by simp
  ultimately have "rcv_inv r' F C X" using B(1,4) r'(2,3) D(2,4,8,13) by (simp add: rcv_inv_def)
  then show ?thesis using B(2,3) by simp
qed

lemma sendCtrl_ACK_target:
  assumes i: "rcv_inv r A C X"
  shows "(if rcv_getLossLength (rc_loss (rv_lists r)) = 0 then Some (incseq (rv_RcvCurrSeqNo r)) else rcv_getFirstLostSeq (rc_loss (rv_lists r))) =
    Some (sq (first_missing C X))"
proof -
  note D = rcv_invD [OF i]
  have "finite X" using D(2) by (rule rcv_holds_finite)
  then show ?thesis using rcv_holds_length [OF D(2)] rcv_holds_first [OF D(2)] D(4) by (simp add: first_missing_def incseq_sq)
qed

lemma send_full_ack_fields:
  "rv_buffer (send_full_ack e s) = rv_buffer s" "rv_lists (send_full_ack e s) = rv_lists s"
  "rv_LastSkipAck (send_full_ack e s) = rv_LastSkipAck s" "rv_LastAck (send_full_ack e s) = rv_LastAck s"
  "0 < seqcmp (rv_LastAck s) (rv_LastAckAck s) \<Longrightarrow> \<exists>n d. rv_sent (send_full_ack e s) = rv_sent s @ [Ctrl_ACK n (rv_LastAck s # d)]"
  by (simp_all add: send_full_ack_def ack_data_def Let_def case_prod_beta cong: if_cong)

lemma sendCtrl_ACK_to:
  assumes T: "(if rcv_getLossLength (rc_loss (rv_lists r)) = 0 then Some (incseq (rv_RcvCurrSeqNo r)) else rcv_getFirstLostSeq (rc_loss (rv_lists r))) =
      Some (sq F)"
    and l: "rv_LastSkipAck r = sq A" "rv_LastAck r = sq L" "rv_LastAckAck r = sq M" "M \<le> L" "L < F"
      "\<bar>F - A\<bar> < 1073741823" "\<bar>F - M\<bar> < 1073741823"
  shows "\<exists>r' n d. sendCtrl_ACK e False r = Some r' \<and> rv_buffer r' = (if A < F then rb_ackData (nat (F - A)) (rv_buffer r) else rv_buffer r) \<and>
    rv_lists r' = rv_lists r \<and> rv_LastSkipAck r' = sq F \<and> rv_LastAck r' = sq F \<and> rv_sent r' = rv_sent r @ [Ctrl_ACK n (sq F # d)]"
proof -
  have near: "\<bar>F - L\<bar> < 1073741823" using l(4,5,7) by linarith
  have c: "0 < seqcmp (sq F) (sq L)" "seqoff (sq A) (sq F) = F - A" "sq M \<noteq> sq F" "0 < seqcmp (sq F) (sq M)"
    using near l(4-7) by (auto simp: seqcmp_sq seqoff_sq sq_eq_iff abs_minus_commute)
  define s where "s = (let r1 = r\<lparr>rv_LastAck := sq F, rv_LastSkipAck := sq F\<rparr>
    in if F - A > 0 then r1\<lparr>rv_buffer := rb_ackData (nat (F - A)) (rv_buffer r1)\<rparr> else r1)"
  have s: "rv_buffer s = (if A < F then rb_ackData (nat (F - A)) (rv_buffer r) else rv_buffer r)" "rv_lists s = rv_lists r"
    "rv_LastSkipAck s = sq F" "rv_LastAck s = sq F" "rv_LastAckAck s = sq M" "rv_sent s = rv_sent r"
    using l(3) by (simp_all add: s_def Let_def)
  have "sendCtrl_ACK e False r = Some (send_full_ack e s)"
    using T c l(1-3) by (simp add: sendCtrl_ACK_def s_def Let_def)
  moreover have "\<exists>n d. rv_sent (send_full_ack e s) = rv_sent r @ [Ctrl_ACK n (sq F # d)]"
    using send_full_ack_fields(5) [of s] s(4-6) c(4) by simp
  ultimately show ?thesis using send_full_ack_fields(1-4) [of e s] s(1-4) by auto
qed

lemma sendCtrl_ACK_spec:
  assumes i: "rcv_inv r A C X" and l: "rv_LastAck r = sq L" "L \<le> A" "A - L < 268435456"
    and m: "rv_LastAckAck r = sq M" "M \<le> L" "L - M < 268435456"
  shows "\<exists>r'. sendCtrl_ACK e False r = Some r' \<and>
    (\<forall>p. A \<le> p \<longrightarrow> p < first_missing C X \<longrightarrow> filled (rv_buffer r) (nat (p - A))) \<and>
    (first_missing C X \<le> C \<longrightarrow> \<not> filled (rv_buffer r) (nat (first_missing C X - A))) \<and>
    (if L < first_missing C X
     then rcv_inv r' (first_missing C X) C X \<and> rv_LastAck r' = sq (first_missing C X) \<and>
       (\<exists>n d. rv_sent r' = rv_sent r @ [Ctrl_ACK n (sq (first_missing C X) # d)]) \<and>
       rb_acked (rv_buffer r') = rb_acked (rv_buffer r) @ take (nat (first_missing C X - A)) (rb_pending (rv_buffer r)) \<and>
       rb_pending (rv_buffer r') = drop (nat (first_missing C X - A)) (rb_pending (rv_buffer r))
     else rcv_inv r' A C X \<and> rv_LastAck r' = sq L \<and> rv_buffer r' = rv_buffer r)"
proof -
  define F where "F = first_missing C X"
  note D = rcv_invD [OF i] and M = rcv_inv_missing [OF i, folded F_def] and T = sendCtrl_ACK_target [OF i, folded F_def]
  have near: "\<bar>F - A\<bar> < 1073741823" "\<bar>F - M\<bar> < 1073741823" "\<bar>F - L\<bar> < 1073741823"
    using l(2,3) m(2,3) M(1,2) D(6) by linarith+
  show ?thesis
  proof (cases "L < F")
    case True
    obtain r' n d where r': "sendCtrl_ACK e False r = Some r'" "rv_buffer r' = (if A < F then rb_ackData (nat (F - A)) (rv_buffer r) else rv_buffer r)"
      "rv_lists r' = rv_lists r" "rv_LastSkipAck r' = sq F" "rv_LastAck r' = sq F" "rv_sent r' = rv_sent r @ [Ctrl_ACK n (sq F # d)]"
      using sendCtrl_ACK_to [OF T D(3) l(1) m(1,2) True near(1,2)] by blast
    show ?thesis using acked_inv [OF i, folded F_def, OF r'(2-4)] True M(3,4) r'(1,5,6) by (simp add: F_def [symmetric])
  next
    case False
    have c: "\<not> 0 < seqcmp (sq F) (sq L)" "sq F = sq L \<longleftrightarrow> F = L"
      using near False by (auto simp: seqcmp_sq sq_eq_iff abs_minus_commute)
    define r' where "r' = (if sq M = sq F then r else if F = L then
      (if u64 (ev_tk e - rv_LastAckTime r) < u64 (i32 (rv_RTT r + 4 * rv_RTTVar r) * ev_CPUFrequency e) then r else send_full_ack e r) else r)"
    have "sendCtrl_ACK e False r = Some r'"
      using T c False l(1) m(1) by (simp add: sendCtrl_ACK_def r'_def Let_def)
    moreover have b: "rv_buffer r' = rv_buffer r" "rv_lists r' = rv_lists r" "rv_LastSkipAck r' = rv_LastSkipAck r" "rv_LastAck r' = rv_LastAck r"
      using send_full_ack_fields(1-4) [of e r] by (simp_all add: r'_def)
    moreover have "rcv_inv r' A C X = rcv_inv r A C X" by (rule rcv_inv_cong) (simp_all add: b)
    ultimately show ?thesis using False M(3,4) i l(1) by (simp add: F_def [symmetric])
  qed
qed

subsection \<open>A new connection\<close>

lemma receiver_new_inv:
  assumes "0 < n" "n \<le> 268435456" "int n \<le> flight" "flight \<le> 536870912" "uq_inv pool" "0 < isn" "isn < 2147483648"
  shows "rcv_inv (set_peer_isn isn (receiver_new e n flight pool arr)) isn (isn - 1) {}"
proof -
  have "rb_pending (rb_new n pool) = []" "rb_acked (rb_new n pool) = []"
    by (simp_all add: rb_pending_def rb_acked_def rb_new_def getRcvDataSize_def)
  moreover have "rb_size (rb_new n pool) = n" by (simp add: rb_new_def)
  moreover have "sq isn = isn" "sq (isn - 1) = isn - 1" using assms(6,7) by (simp_all add: sq_def)
  ultimately show ?thesis using assms rb_new_inv [OF assms(1,5)] rcv_holds_new [of flight arr arr]
    by (simp add: rcv_inv_def set_peer_isn_def receiver_new_def rcv_new_def)
qed

subsection \<open>The properties\<close>

text \<open>
  Without a packet filter, \<open>processData\<close> keeps the packet exactly when it is new and fits in the buffer; the
  packets that were missing and the new gap are then in the loss list, and the gap is reported at once unless
  reordering is tolerated. Otherwise the buffer and the loss list stay as they are and the result is \<open>-1\<close>.
\<close>

theorem processData_receives:
  assumes i: "rcv_inv r A C X" and q: "incoming_ok e r u q A" and f: "ev_filter e = None" and c: "\<not> rv_Closing r"
  shows "\<exists>r'. processData e u r = Some (if wanted (rv_buffer r) A q then 0 else - 1, r') \<and>
    rb_acked (rv_buffer r') = rb_acked (rv_buffer r) \<and>
    (if wanted (rv_buffer r) A q
     then rcv_inv r' A (max C q) (X \<union> {C + 1..<q} - {q}) \<and>
       map_option un_Packet (rb_pending (rv_buffer r') ! nat (q - A)) = Some (decrypted e (rv_packet u r)) \<and>
       (\<forall>k. k \<noteq> nat (q - A) \<longrightarrow> filled (rv_buffer r) k \<longrightarrow> rb_pending (rv_buffer r') ! k = rb_pending (rv_buffer r) ! k) \<and>
       (C + 1 < q \<and> unit_ttl r = 0 \<longrightarrow> Ctrl_LOSSREPORT (sendLossReport [(sq (C + 1), sq (q - 1))]) \<in> set (rv_sent r'))
     else rcv_inv r' A C X \<and> rb_pending (rv_buffer r') = rb_pending (rv_buffer r))"
  by (rule processData_spec [OF i q f c])

text \<open>A receiver before the wrap-around of the sequence numbers, with the packet behind the wrap-around in unit 0.\<close>

definition calm_env :: rcv_env where
  "calm_env = \<lparr>ev_tk = 1000, ev_us = 1000, ev_CPUFrequency = 1, ev_ACKInt = 10000, ev_MinNakInt = 20000, ev_MaxSRTPayloadSize = 1456,
     ev_PeerSrtVersion = SrtVersion 1 4 1, ev_ACKMaxPackets = 0, ev_ACKTimeout_us = 0, ev_needsQuickACK = (\<lambda>_. False),
     ev_updateNAKInterval = (\<lambda>t _ _. t), ev_round = (\<lambda>x. x), ev_decrypt = (\<lambda>p. (True, p)), ev_filter = None\<rparr>"

definition sample_of :: "CPacket \<Rightarrow> receiver" where
  "sample_of p = set_peer_isn 0x7FFFFFFF (receiver_new calm_env 8 8 (unit_receive 0 p (uq_init 3 1500)) (\<lambda>_. 7))"

lemma sample_of_ok:
  "rcv_inv (sample_of p) 0x7FFFFFFF 0x7FFFFFFE {}" "wanted (rv_buffer (sample_of p)) 0x7FFFFFFF 0x80000001" "rv_packet 0 (sample_of p) = p"
  "0 < length (uq_unit (rb_pool (rv_buffer (sample_of p))))" "\<not> uq_busy (rb_pool (rv_buffer (sample_of p))) 0" "\<not> rv_Closing (sample_of p)"
  "unit_ttl (sample_of p) = 0" "rv_LastAck (sample_of p) = sq 0x7FFFFFFF" "rv_LastAckAck (sample_of p) = sq 0x7FFFFFFF"
proof -
  let ?pool = "unit_receive 0 p (uq_init 3 1500)"
  have p: "uq_inv ?pool" by (rule uq_inv_unit_receive [OF uq_init_inv]) (simp_all add: uq_init_def)
  show "rcv_inv (sample_of p) 0x7FFFFFFF 0x7FFFFFFE {}"
    unfolding sample_of_def using receiver_new_inv [where n = 8 and flight = 8 and pool = ?pool and isn = "0x7FFFFFFF" and e = calm_env] p by simp
  show "rv_packet 0 (sample_of p) = p" "0 < length (uq_unit (rb_pool (rv_buffer (sample_of p))))" "\<not> uq_busy (rb_pool (rv_buffer (sample_of p))) 0"
    by (simp_all add: sample_of_def set_peer_isn_def receiver_new_def rb_new_def unit_receive_def uq_init_def unit_new_def uq_busy_def)
  show "wanted (rv_buffer (sample_of p)) 0x7FFFFFFF 0x80000001"
    by (simp add: wanted_def filled_def sample_of_def set_peer_isn_def receiver_new_def rb_new_def getAvailBufSize_def getRcvDataSize_def rb_pending_def)
  show "unit_ttl (sample_of p) = 0" "rv_LastAck (sample_of p) = sq 0x7FFFFFFF" "rv_LastAckAck (sample_of p) = sq 0x7FFFFFFF" "\<not> rv_Closing (sample_of p)"
    by (simp_all add: unit_ttl_def sample_of_def set_peer_isn_def receiver_new_def sq_def)
qed

definition sample_rcv :: receiver where
  "sample_rcv = sample_of (data_packet 1 [1, 2] 1)"

lemma sample_rcv_ok:
  "rcv_inv sample_rcv 0x7FFFFFFF 0x7FFFFFFE {}" "incoming_ok calm_env sample_rcv 0 0x80000001 0x7FFFFFFF"
  "wanted (rv_buffer sample_rcv) 0x7FFFFFFF 0x80000001" "rv_packet 0 sample_rcv = data_packet 1 [1, 2] 1" "\<not> rv_Closing sample_rcv"
  "unit_ttl sample_rcv = 0"
proof -
  note S = sample_of_ok [of "data_packet 1 [1, 2] 1", folded sample_rcv_def]
  have "getMsgCryptoFlags (data_packet 1 [1, 2] 1) = 0"
    by (intro bit_eqI) (auto simp: getMsgCryptoFlags_def bit_unwrap bit_1_iff)
  then show "incoming_ok calm_env sample_rcv 0 0x80000001 0x7FFFFFFF"
    using S(3-5) by (simp add: incoming_ok_def m_iSeqNo_def sq_def clear_cipher_def)
qed (use sample_of_ok [of "data_packet 1 [1, 2] 1", folded sample_rcv_def] in simp_all)

theorem processData_receives_witness:
  "\<exists>r'. processData calm_env 0 sample_rcv = Some (0, r') \<and> rcv_inv r' 0x7FFFFFFF 0x80000001 {0x7FFFFFFF, 0x80000000} \<and>
     map_option un_Packet (rb_pending (rv_buffer r') ! 2) = Some (data_packet 1 [1, 2] 1) \<and>
     Ctrl_LOSSREPORT (sendLossReport [(0x7FFFFFFF, 0)]) \<in> set (rv_sent r')"
proof -
  note S = sample_rcv_ok
  have e: "ev_filter calm_env = None" "decrypted calm_env p = p" for p by (simp_all add: calm_env_def decrypted_def)
  have x: "{} \<union> {0x7FFFFFFE + 1..<0x80000001} - {0x80000001} = {0x7FFFFFFF, 0x80000000 :: int}"
  proof -
    have "{} \<union> {c + 1..<c + 3} - {c + 3} = {c + 1, c + 2}" for c :: int by auto
    from this [of "0x7FFFFFFE"] show ?thesis by simp
  qed
  have s: "sq (0x7FFFFFFE + 1) = 0x7FFFFFFF" "sq (0x80000001 - 1) = 0" by (simp_all add: sq_def)
  obtain r' where "processData calm_env 0 sample_rcv = Some (0, r')"
    "rcv_inv r' 0x7FFFFFFF (max 0x7FFFFFFE 0x80000001) {0x7FFFFFFF, 0x80000000}"
    "map_option un_Packet (rb_pending (rv_buffer r') ! nat (0x80000001 - 0x7FFFFFFF)) = Some (decrypted calm_env (rv_packet 0 sample_rcv))"
    "Ctrl_LOSSREPORT (sendLossReport [(sq (0x7FFFFFFE + 1), sq (0x80000001 - 1))]) \<in> set (rv_sent r')"
    using processData_receives [OF S(1,2) e(1) S(5), unfolded x] S(3,6) by (simp only: if_True simp_thms) auto
  then show ?thesis unfolding s e(2) S(4) by (intro exI [of _ r']) (simp add: max_def)
qed

text \<open>
  A full acknowledgement covers exactly the packets that are in the buffer up to the first missing one: the first
  missing position is what it names, all packets in front of it have been received, and these become readable.
\<close>

theorem sendCtrl_ACK_received:
  assumes i: "rcv_inv r A C X" and l: "rv_LastAck r = sq L" "L \<le> A" "A - L < 268435456"
    and m: "rv_LastAckAck r = sq M" "M \<le> L" "L - M < 268435456"
  shows "\<exists>r'. sendCtrl_ACK e False r = Some r' \<and>
    (\<forall>p. A \<le> p \<longrightarrow> p < first_missing C X \<longrightarrow> filled (rv_buffer r) (nat (p - A))) \<and>
    (first_missing C X \<le> C \<longrightarrow> \<not> filled (rv_buffer r) (nat (first_missing C X - A))) \<and>
    (if L < first_missing C X
     then rcv_inv r' (first_missing C X) C X \<and> rv_LastAck r' = sq (first_missing C X) \<and>
       (\<exists>n d. rv_sent r' = rv_sent r @ [Ctrl_ACK n (sq (first_missing C X) # d)]) \<and>
       rb_acked (rv_buffer r') = rb_acked (rv_buffer r) @ take (nat (first_missing C X - A)) (rb_pending (rv_buffer r)) \<and>
       rb_pending (rv_buffer r') = drop (nat (first_missing C X - A)) (rb_pending (rv_buffer r))
     else rcv_inv r' A C X \<and> rv_LastAck r' = sq L \<and> rv_buffer r' = rv_buffer r)"
  by (rule sendCtrl_ACK_spec [OF i l m])

text \<open>The same receiver before the first packet, its predecessor having been given up by the application.\<close>

theorem sendCtrl_ACK_received_witness:
  "\<exists>r n d r'. processData calm_env 0 sample_rcv = Some (0, r) \<and> sendCtrl_ACK calm_env False (r\<lparr>rv_LastAck := 0x7FFFFFFE, rv_LastAckAck := 0x7FFFFFFD\<rparr>) = Some r' \<and>
     rv_LastAck r' = 0x7FFFFFFF \<and> rv_sent r' = rv_sent r @ [Ctrl_ACK n (0x7FFFFFFF # d)]"
proof -
  note S = sample_rcv_ok
  have e: "ev_filter calm_env = None" by (simp add: calm_env_def)
  have x: "{} \<union> {0x7FFFFFFE + 1..<0x80000001} - {0x80000001} = {0x7FFFFFFF, 0x80000000 :: int}"
  proof -
    have "{} \<union> {c + 1..<c + 3} - {c + 3} = {c + 1, c + 2}" for c :: int by auto
    from this [of "0x7FFFFFFE"] show ?thesis by simp
  qed
  obtain r where r: "processData calm_env 0 sample_rcv = Some (0, r)"
    "rcv_inv r 0x7FFFFFFF (max 0x7FFFFFFE 0x80000001) {0x7FFFFFFF, 0x80000000}"
    using processData_spec [OF S(1,2) e S(5), unfolded x] S(3) by (simp only: if_True simp_thms) auto
  define r1 where "r1 = r\<lparr>rv_LastAck := 0x7FFFFFFE, rv_LastAckAck := 0x7FFFFFFD\<rparr>"
  have "rcv_inv r1 0x7FFFFFFF (max 0x7FFFFFFE 0x80000001) {0x7FFFFFFF, 0x80000000} = rcv_inv r 0x7FFFFFFF (max 0x7FFFFFFE 0x80000001) {0x7FFFFFFF, 0x80000000}"
    by (rule rcv_inv_cong) (simp_all add: r1_def)
  with r(2) have i: "rcv_inv r1 0x7FFFFFFF (max 0x7FFFFFFE 0x80000001) {0x7FFFFFFF, 0x80000000}" by simp
  have l: "rv_LastAck r1 = sq 0x7FFFFFFE" "rv_LastAckAck r1 = sq 0x7FFFFFFD" "sq 0x7FFFFFFF = 0x7FFFFFFF" by (simp_all add: r1_def sq_def)
  have f: "first_missing (max 0x7FFFFFFE 0x80000001) {0x7FFFFFFF, 0x80000000} = 0x7FFFFFFF" by (simp add: first_missing_def)
  have "\<exists>r'. sendCtrl_ACK calm_env False r1 = Some r' \<and> rv_LastAck r' = sq 0x7FFFFFFF \<and> (\<exists>n d. rv_sent r' = rv_sent r1 @ [Ctrl_ACK n (sq 0x7FFFFFFF # d)])"
    using sendCtrl_ACK_received [OF i l(1) _ _ l(2), of calm_env, unfolded f] by auto
  moreover have "rv_sent r1 = rv_sent r" by (simp add: r1_def)
  ultimately show ?thesis using r(1) unfolding r1_def l(3) by auto
qed

end
