(* ===== verification/ReceiverGaps.thy ===== *)
theory ReceiverGaps
  imports ReceiverInv
begin

text \<open>
  Where the receiving half does not keep its invariant: a packet that cannot be decrypted hides the gap in front of it.
\<close>

lemma receive_unit_undecrypted:
  assumes i: "rcv_inv r A C X" and u: "u < length (uq_unit (rb_pool (rv_buffer r)))" "\<not> uq_busy (rb_pool (rv_buffer r)) u"
      "m_iSeqNo (rv_packet u r) = sq q" "\<bar>q - A\<bar> < 268435456"
    and d: "getMsgCryptoFlags (rv_packet u r) \<noteq> 0" "ev_decrypt e (rv_packet u r) = (False, p)" "m_iSeqNo p = sq q"
    and w: "wanted (rv_buffer r) A q" "C < q"
  defines "k \<equiv> nat (q - A)"
  shows "\<exists>r' x. receive_unit e ttl io sz u (ps, r) = Some (True, ps\<lparr>ps_excessive := False\<rparr>, r') \<and>
    rb_inv (rv_buffer r') \<and> rb_acked (rv_buffer r') = rb_acked (rv_buffer r) \<and>
    rb_pending (rv_buffer r') = (padded (rv_buffer r) k)[k := Some x] \<and> rc_loss (rv_lists r') = rc_loss (rv_lists r) \<and>
    rv_LastSkipAck r' = sq A \<and> rv_RcvCurrSeqNo r' = sq q \<and> rv_LastAck r' = rv_LastAck r \<and> rv_LastAckAck r' = rv_LastAckAck r \<and> rv_Closing r' = rv_Closing r"
proof -
  note D = rcv_invD [OF i]
  let ?p = "rv_packet u r"
  have W: "A \<le> q" "q - A < getAvailBufSize (rv_buffer r)" "\<not> filled (rv_buffer r) k" using w by (simp_all add: wanted_def k_def)
  have off: "seqoff (rv_LastSkipAck r) (m_iSeqNo ?p) = q - A" using u D(3) by (simp add: seqoff_at)
  obtain b' where a: "addData u k (rv_buffer r) = (0, b')" "rb_inv b'" "rb_acked b' = rb_acked (rv_buffer r)"
    "rb_pending b' = (padded (rv_buffer r) k)[k := Some ((uq_unit (rb_pool (rv_buffer r)) ! u)\<lparr>un_iFlag := GOOD\<rparr>)]"
    "\<exists>j < rb_size b'. j = getRcvDataSize b' + k \<and> ring b' ! j = Some u"
    using addData_cases(2) [OF D(1) u(1,2) _ W(3)] W(1,2) unfolding k_def by auto
  let ?r1 = "r\<lparr>rv_buffer := b'\<rparr>"
  have pk: "rv_packet u ?r1 = ?p" using a(1) u(1) by (auto simp: addData_def Let_def countBytes_def makeUnitGood_def set_flag_of_def nth_list_update split: if_splits)
  define b where "b = b'\<lparr>rb_pool := unit_receive u p (rb_pool b')\<rparr>"
  have B: "rb_inv b" "rb_acked b = rb_acked b'" "rb_pending b = (rb_pending b')[k := Some ((uq_unit (rb_pool b') ! u)\<lparr>un_Packet := p\<rparr>)]"
    using rewrite_pending [OF a(2), of k u p] a(5) by (auto simp: b_def)
  have ul: "u < length (uq_unit (rb_pool b'))" using a(1) u(1) addData_frame(3) [of u k "rv_buffer r"] by simp
  obtain r2 where r2: "decrypt_unit e sz u ?r1 = (False, r2)" "rv_buffer r2 = b" "rv_lists r2 = rv_lists r" "rv_LastSkipAck r2 = rv_LastSkipAck r"
    "rv_LastAck r2 = rv_LastAck r" "rv_LastAckAck r2 = rv_LastAckAck r" "rv_Closing r2 = rv_Closing r" "rv_packet u r2 = p"
    using d(1,2) pk ul by (simp add: decrypt_unit_def Let_def b_def rv_count_def unit_receive_def)
  have cmp: "0 < seqcmp (sq q) (sq C)" using w(2) u(4) D(5,6) by (simp add: seqcmp_sq)
  have "receive_unit e ttl io sz u (ps, r) = Some (True, ps\<lparr>ps_excessive := False\<rparr>, r2\<lparr>rv_lists := (rv_lists r2)\<lparr>rc_RcvCurrSeqNo := sq q\<rparr>\<rparr>)"
    using off W(1,2) a(1) r2(1,3,8) d(3) cmp D(4) by (simp add: receive_unit_def advance_seq_def Let_def k_def [symmetric])
  then show ?thesis using B r2 a(3,4) D(3)
    by (intro exI [of _ "r2\<lparr>rv_lists := (rv_lists r2)\<lparr>rc_RcvCurrSeqNo := sq q\<rparr>\<rparr>"] exI [of _ "(uq_unit (rb_pool b') ! u)\<lparr>un_Packet := p\<rparr>"]) simp
qed

lemma arrived_ackack [simp]: "rv_LastAckAck (arrived e u r) = rv_LastAckAck r"
  by (simp add: arrived_def phy_losses_def rv_count_def Let_def cong: if_cong)

text \<open>Without recorded losses the last part changes neither the loss list nor the buffer.\<close>

lemma after_units_none:
  assumes "ps_losses ps = []"
  shows "\<exists>r'. after_units e ttl [] ps r = Some r' \<and> rv_buffer r' = rv_buffer r \<and> rc_loss (rv_lists r') = rc_loss (rv_lists r) \<and>
    rv_RcvCurrSeqNo r' = rv_RcvCurrSeqNo r \<and> rv_LastSkipAck r' = rv_LastSkipAck r \<and> rv_LastAck r' = rv_LastAck r \<and> rv_LastAckAck r' = rv_LastAckAck r"
proof -
  obtain ld fr where f: "fresh_expire ttl (rc_fresh (rv_lists r)) = (ld, fr)" by fastforce
  have rs: "rv_LastAckAck (rv_send e c s) = rv_LastAckAck s" "rv_LastAckAck (rv_count g s) = rv_LastAckAck s" for c s g
    by (simp_all add: rv_send_def rv_count_def)
  show ?thesis using assms f
    by (simp add: after_units_def report_losses_def sendCtrl_LOSSREPORT_def Let_def rs)
qed

text \<open>
  C29. A packet behind a gap that cannot be decrypted takes its place in the buffer and becomes the newest one, but the gap
  is not recorded: the next acknowledgement covers packets that have never come, and they are handed to the reader as
  missing ones.
\<close>

theorem undecryptable_hides_gap:
  assumes i: "rcv_inv r A C {}" and u: "u < length (uq_unit (rb_pool (rv_buffer r)))" "\<not> uq_busy (rb_pool (rv_buffer r)) u"
      "m_iSeqNo (rv_packet u r) = sq q" "\<bar>q - A\<bar> < 268435456"
    and d: "getMsgCryptoFlags (rv_packet u r) \<noteq> 0" "ev_decrypt e (rv_packet u r) = (False, p)" "m_iSeqNo p = sq q"
    and w: "wanted (rv_buffer r) A q" "C + 1 < q" and f: "ev_filter e = None" "\<not> rv_Closing r"
    and l: "rv_LastAck r = sq A" "rv_LastAckAck r = sq A"
  shows "\<exists>r1 r2. processData e u r = Some (0, r1) \<and> rcv_getLossLength (rc_loss (rv_lists r1)) = 0 \<and>
    sendCtrl_ACK e False r1 = Some r2 \<and> rv_LastAck r2 = sq (q + 1) \<and> (\<exists>n d. last (rv_sent r2) = Ctrl_ACK n (sq (q + 1) # d)) \<and>
    (\<forall>j. C < j \<longrightarrow> j < q \<longrightarrow> rb_acked (rv_buffer r2) ! (length (rb_acked (rv_buffer r)) + nat (j - A)) = None)"
proof -
  define k where "k = nat (q - A)"
  note D = rcv_invD [OF i]
  obtain io where P: "processData e u r = do {
    (go, ps, r') \<leftarrow> receive_unit e (unit_ttl r) io (int (getLength (rv_packet u r))) u (pass0, arrived e u r);
    if \<not> go then Some (- 1, r')
    else (let r' = (if \<not> seqcmp (m_iSeqNo (rv_packet u r)) (rv_LastSkipAck r) < 0 \<and> ps_in_order ps \<and> ev_needsQuickACK e (rv_packet u r')
            then r'\<lparr>rv_NextACKTime := ev_tk e\<rparr> else r')
      in if ps_excessive ps \<or> rv_Closing r' then Some (- 1, r')
         else map_option (\<lambda>r. (0, r)) (after_units e (unit_ttl r) [] ps r'))}"
    by (rule processData_one [OF f(1)])
  have i': "rcv_inv (arrived e u r) A C {}" using i by (simp add: arrived_ok)
  obtain r' x where R: "receive_unit e (unit_ttl r) io (int (getLength (rv_packet u r))) u (pass0, arrived e u r) = Some (True, pass0\<lparr>ps_excessive := False\<rparr>, r')"
    "rb_inv (rv_buffer r')" "rb_acked (rv_buffer r') = rb_acked (rv_buffer r)" "rb_pending (rv_buffer r') = (padded (rv_buffer r) k)[k := Some x]"
    "rc_loss (rv_lists r') = rc_loss (rv_lists r)" "rv_LastSkipAck r' = sq A" "rv_RcvCurrSeqNo r' = sq q" "rv_LastAck r' = sq A" "rv_LastAckAck r' = sq A"
    "\<not> rv_Closing r'"
    using receive_unit_undecrypted [OF i', of u q e p "unit_ttl r" io "int (getLength (rv_packet u r))" pass0] u d w f(2) l by (auto simp: k_def)
  define r0 where "r0 = (if \<not> seqcmp (m_iSeqNo (rv_packet u r)) (rv_LastSkipAck r) < 0 \<and> ps_in_order pass0 \<and>
      ev_needsQuickACK e (rv_packet u r') then r'\<lparr>rv_NextACKTime := ev_tk e\<rparr> else r')"
  have r0: "rv_buffer r0 = rv_buffer r'" "rv_lists r0 = rv_lists r'" "rv_LastSkipAck r0 = rv_LastSkipAck r'" "rv_LastAck r0 = rv_LastAck r'"
    "rv_LastAckAck r0 = rv_LastAckAck r'" "\<not> rv_Closing r0" using R(10) by (simp_all add: r0_def)
  obtain r1 where r1: "after_units e (unit_ttl r) [] (pass0\<lparr>ps_excessive := False\<rparr>) r0 = Some r1" "rv_buffer r1 = rv_buffer r'"
    "rc_loss (rv_lists r1) = rc_loss (rv_lists r)" "rv_RcvCurrSeqNo r1 = sq q" "rv_LastSkipAck r1 = sq A" "rv_LastAck r1 = sq A" "rv_LastAckAck r1 = sq A"
    using after_units_none [of "pass0\<lparr>ps_excessive := False\<rparr>" e "unit_ttl r" r0] r0 R(5-9) by (auto simp: pass0_def)
  have p: "processData e u r = Some (0, r1)" using P R(1) r1(1) r0(6) by (simp add: r0_def [symmetric])
  have len: "rcv_getLossLength (rc_loss (rv_lists r1)) = 0" using rcv_holds_length [OF D(2)] r1(3) by simp
  have qA: "A \<le> q" "q - A < 268435456" using w(1) u(4) by (simp_all add: wanted_def)
  obtain r2 n d' where r2: "sendCtrl_ACK e False r1 = Some r2" "rv_buffer r2 = rb_ackData (nat (q + 1 - A)) (rv_buffer r1)" "rv_LastAck r2 = sq (q + 1)"
    "rv_sent r2 = rv_sent r1 @ [Ctrl_ACK n (sq (q + 1) # d')]"
    using sendCtrl_ACK_to [of r1 "q + 1" A A A e] len r1(4-7) qA by (auto simp: incseq_sq)
  have lp: "length (rb_pending (rv_buffer r')) = nat (q + 1 - A)"
    using R(4) D(11) w(2) qA by (simp add: padded_def k_def del: Suc_nat_eq_nat_zadd1)
  have acked: "rb_acked (rv_buffer r2) = rb_acked (rv_buffer r) @ rb_pending (rv_buffer r')"
    using ackData_slots [OF R(2), of "nat (q + 1 - A)"] lp r2(2) r1(2) R(3) by simp
  have "rb_acked (rv_buffer r2) ! (length (rb_acked (rv_buffer r)) + nat (j - A)) = None" if j: "C < j" "j < q" for j
  proof -
    have k: "nat (j - A) \<noteq> k" "nat (j - A) < k" "length (rb_pending (rv_buffer r)) \<le> nat (j - A)" using j D(5,11) by (auto simp: k_def)
    then have "padded (rv_buffer r) k ! nat (j - A) = None" by (simp add: padded_def nth_append)
    then show ?thesis using acked R(4) k(1) by (simp add: nth_append)
  qed
  then show ?thesis using p len r2 by auto
qed

theorem undecryptable_hides_gap_witness:
  "\<exists>e s r1 r2. processData e 0 s = Some (0, r1) \<and> rcv_inv s 0x7FFFFFFF 0x7FFFFFFE {} \<and> sendCtrl_ACK e False r1 = Some r2 \<and> rv_LastAck r2 = 2 \<and>
     rb_acked (rv_buffer r2) ! 0 = None \<and> rb_acked (rv_buffer r2) ! 1 = None"
proof -
  let ?p = "data_packet 1 [1, 2] (EncryptionKeyBits EK_EVEN)"
  let ?e = "calm_env\<lparr>ev_decrypt := \<lambda>p. (False, p)\<rparr>"
  note S = sample_of_ok [of ?p]
  have "bit (getMsgCryptoFlags ?p) 0"
    by (simp add: getMsgCryptoFlags_def bit_unwrap EncryptionKeyBits_def bits_wrap_def bit_simps bit_BitsetMask)
  then have c: "getMsgCryptoFlags (rv_packet 0 (sample_of ?p)) \<noteq> 0" using S(3) by auto
  have q: "m_iSeqNo (rv_packet 0 (sample_of ?p)) = sq 0x80000001" "m_iSeqNo ?p = sq 0x80000001" "ev_decrypt ?e (rv_packet 0 (sample_of ?p)) = (False, ?p)"
    "ev_filter ?e = None" using S(3) by (simp_all add: m_iSeqNo_def sq_def calm_env_def)
  have a: "rb_acked (rv_buffer (sample_of ?p)) = []"
    by (simp add: sample_of_def set_peer_isn_def receiver_new_def rb_acked_def rb_new_def getRcvDataSize_def)
  have s2: "sq (0x80000001 + 1) = 2" by (simp add: sq_def)
  obtain r1 r2 where R: "processData ?e 0 (sample_of ?p) = Some (0, r1)" "sendCtrl_ACK ?e False r1 = Some r2" "rv_LastAck r2 = 2"
    "\<forall>j. 0x7FFFFFFE < j \<longrightarrow> j < 0x80000001 \<longrightarrow> rb_acked (rv_buffer r2) ! (length (rb_acked (rv_buffer (sample_of ?p))) + nat (j - 0x7FFFFFFF)) = None"
    using undecryptable_hides_gap [OF S(1,4,5) q(1) _ c q(3,2) S(2) _ q(4) S(6,8,9)] s2 by auto
  have "rb_acked (rv_buffer r2) ! 0 = None" "rb_acked (rv_buffer r2) ! 1 = None"
    using R(4) [rule_format, of "0x7FFFFFFF"] R(4) [rule_format, of "0x80000000"] a by simp_all
  then show ?thesis using R(1-3) S(1) by blast
qed

end
