(* ===== verification/Sender.thy ===== *)
theory Sender
  imports Receiver EndToEnd
begin

text \<open>
  The sending half of a connection (\<open>core.cpp\<close>): \<open>CUDT::packData\<close> with \<open>packLostData\<close>, the acknowledgements
  that come back, late packet drop and the timers that retransmit. The loss list, \<open>m_iSndLastAck\<close>,
  \<open>m_iSndCurrSeqNo\<close> and what breaks the connection are those of the loss reports (\<open>nak_state\<close>). The calls of other
  components are recorded in \<open>sd_calls\<close>. \<open>None\<close> is an access outside the array of the loss list, or fuel that has run out.
\<close>

subsection \<open>State\<close>

datatype snd_call =
    SC_SndUList_update bool
  | SC_updateCC_ACK int
  | SC_updateCC_SEND CPacket
  | SC_updateCC_CHECKTIMER bool
  | SC_checkSndTimers bool
  | SC_considerLegacySrtHandshake
  | SC_feedSource CPacket
  | SC_releaseSynch
  | SC_EPoll_out

record snd_stats =
  ss_traceRetrans :: int
  ss_traceBytesRetrans :: int
  ss_sndFilterExtra :: int
  ss_traceSent :: int
  ss_traceBytesSent :: int
  ss_recvACK :: int
  ss_traceSndDrop :: int
  ss_traceSndBytesDrop :: int
  ss_sndDuration :: int
  ss_sndDurationCounter :: int

record sender =
  sd_nak :: nak_state
  sd_buffer :: CSndBuffer
  sd_SndLastDataAck :: int
  sd_SndLastFullAck :: int
  sd_SndLastAck2 :: int
  sd_SndLastAck2Time :: int
  sd_FlowWindowSize :: int
  sd_RTT :: int
  sd_RTTVar :: int
  sd_Bandwidth :: int
  sd_DeliveryRate :: int
  sd_ByteDeliveryRate :: int
  sd_EXPCount :: int
  sd_ReXmitCount :: int
  sd_LastRspTime :: int
  sd_LastRspAckTime :: int
  sd_LastSndTime :: int
  sd_TargetTime :: int
  sd_TimeDiff :: int
  sd_Closing :: bool
  sd_stats :: snd_stats
  sd_sent :: "ctrl list"
  sd_calls :: "snd_call list"

text \<open>
  What the functions get from elsewhere: the clock in ticks and in microseconds, the options, what the congestion
  control says, the cipher and the packet filter. \<open>se_CryptoFlags\<close> is \<open>None\<close> for -1.
\<close>

record snd_env =
  se_tk :: int
  se_us :: int
  se_CPUFrequency :: int
  se_CongestionWindow :: int
  se_Interval_tk :: int
  se_RTO :: int
  se_late_rexmit :: bool
  se_fast_rexmit :: bool
  se_PeerRexmitFlag :: bool
  se_PeerTsbPd :: bool
  se_PeerTLPktDrop :: bool
  se_PeerNakReport :: bool
  se_MessageAPI :: bool
  se_startTime :: int
  se_PeerID :: "32 word"
  se_MaxSRTPayloadSize :: int
  se_MinExpInt_tk :: int
  se_PeerIdleTimeout :: int
  se_SndDropDelay :: int
  se_PeerTsbPdDelay_ms :: int
  se_CryptoFlags :: "EncryptionKeySpec option"
  se_encrypt :: "CPacket \<Rightarrow> CPacket option"
  se_filter :: "(int \<Rightarrow> CPacket option) option"

abbreviation sd_list :: "sender \<Rightarrow> CSndLossList" where
  "sd_list s \<equiv> nk_list (sd_nak s)"

abbreviation sd_SndLastAck :: "sender \<Rightarrow> int" where
  "sd_SndLastAck s \<equiv> nk_SndLastAck (sd_nak s)"

abbreviation sd_SndCurrSeqNo :: "sender \<Rightarrow> int" where
  "sd_SndCurrSeqNo s \<equiv> nk_SndCurrSeqNo (sd_nak s)"

definition sd_set_list :: "CSndLossList \<Rightarrow> sender \<Rightarrow> sender" where
  "sd_set_list l s = s\<lparr>sd_nak := (sd_nak s)\<lparr>nk_list := l\<rparr>\<rparr>"

definition sd_set_curr :: "int \<Rightarrow> sender \<Rightarrow> sender" where
  "sd_set_curr q s = s\<lparr>sd_nak := (sd_nak s)\<lparr>nk_SndCurrSeqNo := q\<rparr>\<rparr>"

definition sd_set_ack :: "int \<Rightarrow> sender \<Rightarrow> sender" where
  "sd_set_ack q s = s\<lparr>sd_nak := (sd_nak s)\<lparr>nk_SndLastAck := q\<rparr>\<rparr>"

definition sd_send :: "snd_env \<Rightarrow> ctrl \<Rightarrow> sender \<Rightarrow> sender" where
  "sd_send e c s = s\<lparr>sd_sent := sd_sent s @ [c], sd_LastSndTime := se_tk e\<rparr>"

definition sd_call :: "snd_call \<Rightarrow> sender \<Rightarrow> sender" where
  "sd_call c s = s\<lparr>sd_calls := sd_calls s @ [c]\<rparr>"

definition sd_count :: "(snd_stats \<Rightarrow> snd_stats) \<Rightarrow> sender \<Rightarrow> sender" where
  "sd_count f s = s\<lparr>sd_stats := f (sd_stats s)\<rparr>"

lemmas sd_defs = sd_set_list_def sd_set_curr_def sd_set_ack_def sd_send_def sd_call_def sd_count_def

subsection \<open>Retransmission\<close>

text \<open>
  \<open>packLostData\<close>: the next lost packet with its source time, or \<open>None\<close>. Each round takes a packet from the list,
  so that its length is fuel enough.
\<close>

fun pack_lost :: "nat \<Rightarrow> snd_env \<Rightarrow> sender \<Rightarrow> ((CPacket \<times> int) option \<times> sender) option" where
  "pack_lost 0 e s = None"
| "pack_lost (Suc n) e s =
     do {
       (seq, l) \<leftarrow> snd_popLostSeq (sd_list s);
       let s = sd_set_list l s;
       if seq < 0 then Some (None, s)
       else
         (let offset = seqoff (sd_SndLastDataAck s) seq
          in if offset < 0 then pack_lost n e s
             else do {
               (d, b) \<leftarrow> sb_readData_at (se_us e) (nat offset) (sd_buffer s);
               let s = s\<lparr>sd_buffer := b\<rparr>;
               (case d of
                  Stale msgno msglen \<Rightarrow>
                    (let hi = incseq_by seq (int msglen); s = sd_send e (Ctrl_DROPREQ msgno seq hi) s
                     in do {
                          l \<leftarrow> snd_remove (sd_list s) hi;
                          let s = sd_set_list l s;
                          pack_lost n e (if seqcmp (sd_SndCurrSeqNo s) (incseq hi) < 0 then sd_set_curr (incseq hi) s else s)
                        })
                | Rexmit data msgno origintime \<Rightarrow>
                    if data = [] then pack_lost n e s
                    else
                      (let s = sd_count (\<lambda>t. t\<lparr>ss_traceRetrans := ss_traceRetrans t + 1,
                             ss_traceBytesRetrans := ss_traceBytesRetrans t + int (length data)\<rparr>) s
                       in Some (Some (data_packet seq data (if se_PeerRexmitFlag e then msgno OR PACKET_SND_REXMIT else msgno), origintime), s)))
             })
     }"

definition packLostData :: "snd_env \<Rightarrow> sender \<Rightarrow> ((CPacket \<times> int) option \<times> sender) option" where
  "packLostData e s = pack_lost (nat (snd_getLossLength (sd_list s)) + 1) e s"

subsection \<open>Packets\<close>

text \<open>
  What \<open>packData\<close> has chosen to send: the packet, its source time, the key for a new one, and whether it is new or
  made by the filter.
\<close>

record choice =
  ch_packet :: CPacket
  ch_origintime :: int
  ch_kflg :: EncryptionKeySpec
  ch_new :: bool
  ch_filter_ctl :: bool

definition new_packet :: "snd_env \<Rightarrow> sender \<Rightarrow> choice option \<times> sender" where
  "new_packet e s =
     (let cwnd = min (sd_FlowWindowSize s) (se_CongestionWindow e);
          seqdiff = seqlen (sd_SndLastAck s) (incseq (sd_SndCurrSeqNo s))
      in if cwnd \<ge> seqdiff then
           (case sb_readData (se_CryptoFlags e) (sd_buffer s) of
              (None, b) \<Rightarrow> (None, s\<lparr>sd_buffer := b\<rparr>)
            | (Some (d, msgno, origintime), b) \<Rightarrow>
                (let s = s\<lparr>sd_buffer := b\<rparr>
                 in if d = [] then (None, s)
                    else
                      (let s = sd_set_curr (incseq (sd_SndCurrSeqNo s)) s
                       in (Some \<lparr>ch_packet = data_packet (sd_SndCurrSeqNo s) d msgno, ch_origintime = origintime,
                             ch_kflg = the (se_CryptoFlags e), ch_new = True, ch_filter_ctl = False\<rparr>, s))))
         else (None, s))"

definition choose_packet :: "snd_env \<Rightarrow> sender \<Rightarrow> (choice option \<times> sender) option" where
  "choose_packet e s =
     do {
       (lost, s) \<leftarrow> packLostData e s;
       (case lost of
          Some (p, t) \<Rightarrow>
            Some (Some \<lparr>ch_packet = p, ch_origintime = t, ch_kflg = EK_NOENC, ch_new = False, ch_filter_ctl = False\<rparr>, s)
        | None \<Rightarrow>
            (case (case se_filter e of None \<Rightarrow> None | Some f \<Rightarrow> f (sd_SndCurrSeqNo s)) of
               Some p \<Rightarrow>
                 Some (Some \<lparr>ch_packet = p, ch_origintime = 0, ch_kflg = EK_NOENC, ch_new = False, ch_filter_ctl = True\<rparr>,
                   sd_count (\<lambda>t. t\<lparr>ss_sndFilterExtra := ss_sndFilterExtra t + 1\<rparr>) s)
             | None \<Rightarrow> Some (new_packet e s)))
     }"

definition stamp :: "snd_env \<Rightarrow> choice \<Rightarrow> CPacket" where
  "stamp e c =
     (let p = ch_packet c;
          p = (if ch_filter_ctl c then p
               else p\<lparr>ph_timestamp := word_of_int (if se_PeerTsbPd e \<and> ch_origintime c \<ge> se_startTime e
                 then ch_origintime c - se_startTime e else se_us e - se_startTime e)\<rparr>)
      in p\<lparr>ph_id := se_PeerID e\<rparr>)"

text \<open>
  The data of a new packet lie in the buffer, where the cipher overwrites them: \<open>c\<close> is the block they are in. The
  length of the block stays.
\<close>

definition encrypt_block :: "nat \<Rightarrow> CPacket \<Rightarrow> sender \<Rightarrow> sender" where
  "encrypt_block c p s =
     (let b = sd_buffer s; d = payload p; k = sb_blk b c
      in s\<lparr>sd_buffer := b\<lparr>sb_blk := (sb_blk b)(c := k\<lparr>bk_data := d @ drop (length d) (bk_data k)\<rparr>)\<rparr>\<rparr>)"

text \<open>The times behind a packet: when the socket wants to send again.\<close>

definition next_time :: "snd_env \<Rightarrow> bool \<Rightarrow> sender \<Rightarrow> int \<times> sender" where
  "next_time e probe s =
     (let (ts, s) =
        (if probe then (se_tk e, s)
         else if sd_TimeDiff s \<ge> se_Interval_tk e then (se_tk e, s\<lparr>sd_TimeDiff := sd_TimeDiff s - se_Interval_tk e\<rparr>)
         else (u64 (se_tk e + se_Interval_tk e - sd_TimeDiff s), s\<lparr>sd_TimeDiff := 0\<rparr>))
      in (ts, s\<lparr>sd_TargetTime := ts\<rparr>))"

text \<open>The packet \<open>p\<close> goes out.\<close>

definition packet_sent :: "snd_env \<Rightarrow> choice \<Rightarrow> CPacket \<Rightarrow> sender \<Rightarrow> int \<times> sender" where
  "packet_sent e c p s =
     (let s = (if ch_new c \<and> se_filter e \<noteq> None then sd_call (SC_feedSource p) s else s);
          s = s\<lparr>sd_LastSndTime := se_tk e\<rparr>;
          s = sd_call (SC_updateCC_SEND p) (sd_call SC_considerLegacySrtHandshake s);
          s = sd_count (\<lambda>t. t\<lparr>ss_traceBytesSent := ss_traceBytesSent t + int (getLength p), ss_traceSent := ss_traceSent t + 1\<rparr>) s
      in next_time e (ch_new c \<and> m_iSeqNo (ch_packet c) AND 0xF = 0) s)"

text \<open>\<open>packData\<close>: the payload size (0: nothing to send, -1: encryption failed), the packet, and \<open>ts_tk\<close>.\<close>

definition packData :: "snd_env \<Rightarrow> sender \<Rightarrow> (int \<times> CPacket option \<times> int \<times> sender) option" where
  "packData e s =
     do {
       let s = (if sd_TargetTime s \<noteq> 0 \<and> se_tk e > sd_TargetTime s
                then s\<lparr>sd_TimeDiff := u64 (sd_TimeDiff s + (se_tk e - sd_TargetTime s))\<rparr> else s);
       let block = sb_pCurrBlock (sd_buffer s);
       (choice, s) \<leftarrow> choose_packet e s;
       (case choice of
          None \<Rightarrow> Some (0, None, 0, s\<lparr>sd_TargetTime := 0, sd_TimeDiff := 0\<rparr>)
        | Some c \<Rightarrow>
            (let p = stamp e c
             in case (if ch_kflg c = EK_NOENC then Some p else se_encrypt e p) of
                  None \<Rightarrow> Some (- 1, None, 0, s)
                | Some p \<Rightarrow>
                    (let s = (if ch_kflg c = EK_NOENC then s else encrypt_block block p s);
                         (ts, s) = packet_sent e c p s
                     in Some (int (getLength p), Some p, ts, s))))
     }"

subsection \<open>Acknowledgements\<close>

definition updateSndLossListOnACK :: "snd_env \<Rightarrow> int \<Rightarrow> sender \<Rightarrow> sender option" where
  "updateSndLossListOnACK e ack s =
     (let offset = seqoff (sd_SndLastDataAck s) ack
      in if offset \<le> 0 then Some s
         else do {
           let s = s\<lparr>sd_SndLastDataAck := ack\<rparr>;
           l \<leftarrow> snd_remove (sd_list s) (decseq ack);
           let s = sd_set_list l s;
           let s = s\<lparr>sd_buffer := sb_ackData (se_us e) (nat offset) (sd_buffer s)\<rparr>;
           let s = sd_call (SC_SndUList_update False) (sd_call SC_EPoll_out s);
           Some (sd_count (\<lambda>t. t\<lparr>ss_sndDuration := ss_sndDuration t + (se_us e - ss_sndDurationCounter t),
             ss_sndDurationCounter := se_us e\<rparr>) s)
         })"

definition avg_iir :: "int \<Rightarrow> int \<Rightarrow> int \<Rightarrow> int" where
  "avg_iir n old new = c_div (i32 (old * (n - 1) + new)) n"

text \<open>The statistics in an acknowledgement of \<open>n\<close> fields.\<close>

definition ack_stats :: "snd_env \<Rightarrow> (nat \<Rightarrow> int) \<Rightarrow> nat \<Rightarrow> sender \<Rightarrow> sender" where
  "ack_stats e ackdata n s =
     (let s = s\<lparr>sd_RTTVar := avg_iir 4 (sd_RTTVar s) \<bar>ackdata 1 - sd_RTT s\<bar>\<rparr>;
          s = s\<lparr>sd_RTT := avg_iir 8 (sd_RTT s) (ackdata 1)\<rparr>
      in if n > 4 then
           (let pktps = ackdata 4; bandwidth = ackdata 5;
                bytesps = (if n > 6 then ackdata 6 else i32 (pktps * se_MaxSRTPayloadSize e))
            in s\<lparr>sd_Bandwidth := avg_iir 8 (sd_Bandwidth s) bandwidth, sd_DeliveryRate := avg_iir 8 (sd_DeliveryRate s) pktps,
                 sd_ByteDeliveryRate := avg_iir 8 (sd_ByteDeliveryRate s) bytesps\<rparr>)
         else s)"

definition process_lite_ack :: "snd_env \<Rightarrow> int \<Rightarrow> sender \<Rightarrow> sender" where
  "process_lite_ack e ack s =
     (if seqcmp ack (sd_SndLastAck s) \<ge> 0
      then sd_set_ack ack (s\<lparr>sd_FlowWindowSize := i32 (sd_FlowWindowSize s - seqoff (sd_SndLastAck s) ack),
        sd_LastRspAckTime := se_tk e, sd_ReXmitCount := 1\<rparr>)
      else s)"

definition answer_ack :: "snd_env \<Rightarrow> int \<Rightarrow> sender \<Rightarrow> sender" where
  "answer_ack e ack_seqno s =
     (if u64 (se_us e - sd_SndLastAck2Time s) > COMM_SYN_INTERVAL_US \<or> ack_seqno = sd_SndLastAck2 s
      then (sd_send e (Ctrl_ACKACK ack_seqno) s)\<lparr>sd_SndLastAck2 := ack_seqno, sd_SndLastAck2Time := se_us e\<rparr> else s)"

text \<open>The part that is done once for a full acknowledgement of \<open>len\<close> bytes.\<close>

definition process_new_ack :: "snd_env \<Rightarrow> (nat \<Rightarrow> int) \<Rightarrow> nat \<Rightarrow> sender \<Rightarrow> sender" where
  "process_new_ack e ackdata len s =
     (let ack = ackdata 0
      in if seqoff (sd_SndLastFullAck s) ack \<le> 0 then s
         else
           (let s = s\<lparr>sd_SndLastFullAck := ack\<rparr>; n = len div 4
            in if n < 4 then s
               else
                 (let s = ack_stats e ackdata n s;
                      s = sd_call (SC_updateCC_ACK ack) (sd_call (SC_checkSndTimers True) s)
                  in sd_count (\<lambda>t. t\<lparr>ss_recvACK := ss_recvACK t + 1\<rparr>) s)))"

definition process_full_ack :: "snd_env \<Rightarrow> (nat \<Rightarrow> int) \<Rightarrow> nat \<Rightarrow> sender \<Rightarrow> sender" where
  "process_full_ack e ackdata len s =
     (let ack = ackdata 0
      in if seqcmp ack (incseq (sd_SndCurrSeqNo s)) > 0
         then s\<lparr>sd_nak := (sd_nak s)\<lparr>nk_broken := True, nk_brokenCounter := 0\<rparr>\<rparr>
         else
           process_new_ack e ackdata len
             (if seqcmp ack (sd_SndLastAck s) \<ge> 0
              then sd_set_ack ack (s\<lparr>sd_FlowWindowSize := ackdata 3, sd_LastRspAckTime := se_tk e, sd_ReXmitCount := 1\<rparr>) else s))"

text \<open>
  \<open>processCtrlAck\<close> for the words \<open>ackdata\<close> of the receive buffer, of which the packet has \<open>len\<close> bytes; fields behind
  the end are read as they lie there.
\<close>

definition processCtrlAck :: "snd_env \<Rightarrow> (nat \<Rightarrow> int) \<Rightarrow> nat \<Rightarrow> int \<Rightarrow> sender \<Rightarrow> sender option" where
  "processCtrlAck e ackdata len ack_seqno s =
     do {
       s \<leftarrow> updateSndLossListOnACK e (ackdata 0) s;
       Some (if len = 4 then process_lite_ack e (ackdata 0) s else process_full_ack e ackdata len (answer_ack e ack_seqno s))
     }"

subsection \<open>Late packets\<close>

text \<open>\<open>checkNeedDrop\<close>: \<open>None\<close> in the first result for the exception, else \<open>bCongestion\<close>.\<close>

definition checkNeedDrop :: "snd_env \<Rightarrow> bool \<Rightarrow> sender \<Rightarrow> (bool option \<times> sender) option" where
  "checkNeedDrop e congestion s =
     (if \<not> se_PeerTLPktDrop e then Some (Some congestion, s)
      else if \<not> se_MessageAPI e then Some (None, s)
      else
        (let (_, _, timespan_ms) = sb_getCurrBufSize (sd_buffer s);
             threshold_ms = (if se_SndDropDelay e \<ge> 0 then max (i32 (se_PeerTsbPdDelay_ms e + se_SndDropDelay e)) 1000 + 2 * COMM_SYN_INTERVAL_US div 1000 else 0)
         in if threshold_ms \<noteq> 0 \<and> timespan_ms > threshold_ms then
              (let (dpkts, dbytes, b) = dropLateData (se_us e) (u64 (se_us e - i32 (threshold_ms * 1000))) (sd_buffer s); s = s\<lparr>sd_buffer := b\<rparr>
               in if dpkts > 0 then do {
                    let s = sd_count (\<lambda>t. t\<lparr>ss_traceSndDrop := ss_traceSndDrop t + dpkts, ss_traceSndBytesDrop := ss_traceSndBytesDrop t + dbytes\<rparr>) s;
                    let fakeack = incseq_by (sd_SndLastDataAck s) dpkts;
                    let s = sd_set_ack fakeack (s\<lparr>sd_SndLastDataAck := fakeack\<rparr>);
                    let minlastack = decseq fakeack;
                    l \<leftarrow> snd_remove (sd_list s) minlastack;
                    let s = sd_set_list l s;
                    Some (Some True, if seqcmp (sd_SndCurrSeqNo s) minlastack < 0 then sd_set_curr minlastack s else s)
                  }
                  else Some (Some True, s))
            else Some (Some (congestion \<or> timespan_ms > c_div (se_PeerTsbPdDelay_ms e) 2), s)))"

subsection \<open>Timers\<close>

definition COMM_RESPONSE_MAX_EXP :: int where
  "COMM_RESPONSE_MAX_EXP = 16"

definition checkExpTimer :: "snd_env \<Rightarrow> sender \<Rightarrow> bool \<times> sender" where
  "checkExpTimer e s =
     (let next_exp_time =
        (if se_RTO e \<noteq> 0 then u64 (sd_LastRspTime s + u64 (se_RTO e * se_CPUFrequency e))
         else
           (let exp_int = u64 (i32 (sd_EXPCount s * (sd_RTT s + 4 * sd_RTTVar s) + COMM_SYN_INTERVAL_US) * se_CPUFrequency e);
                min_int = u64 (sd_EXPCount s * se_MinExpInt_tk e)
            in u64 (sd_LastRspTime s + (if exp_int < min_int then min_int else exp_int))))
      in if se_tk e \<le> next_exp_time then (False, s)
         else if sd_EXPCount s > COMM_RESPONSE_MAX_EXP \<and> u64 (se_tk e - sd_LastRspTime s) > u64 (i32 (se_PeerIdleTimeout e * 1000) * se_CPUFrequency e) then
           (True, sd_call SC_EPoll_out (sd_call SC_releaseSynch (sd_call (SC_SndUList_update True)
             (s\<lparr>sd_Closing := True, sd_nak := (sd_nak s)\<lparr>nk_broken := True, nk_brokenCounter := 30\<rparr>\<rparr>))))
         else (False, s\<lparr>sd_EXPCount := sd_EXPCount s + 1\<rparr>))"

definition checkRexmitTimer :: "snd_env \<Rightarrow> sender \<Rightarrow> sender option" where
  "checkRexmitTimer e s =
     (let rtt_syn = u64 (i32 (sd_RTT s + 4 * sd_RTTVar s + 2 * COMM_SYN_INTERVAL_US));
          exp_int = u64 ((sd_ReXmitCount s * rtt_syn + COMM_SYN_INTERVAL_US) * se_CPUFrequency e);
          curr = incseq (sd_SndCurrSeqNo s)
      in if se_tk e \<le> u64 (sd_LastRspAckTime s + exp_int) then Some s
         else if sb_iCount (sd_buffer s) \<le> 0 then Some s
         else if se_fast_rexmit e \<and> se_PeerNakReport e then Some s
         else do {
           let retransmit = (se_late_rexmit e \<and> curr \<noteq> sd_SndLastAck s \<and> snd_getLossLength (sd_list s) = 0
             \<or> se_fast_rexmit e \<and> seqoff (sd_SndLastAck s) curr > 0);
           s \<leftarrow> (if retransmit then do { nk \<leftarrow> nak_insert (sd_nak s) (sd_SndLastAck s) (sd_SndCurrSeqNo s); Some (s\<lparr>sd_nak := nk\<rparr>) }
                 else Some s);
           let s = s\<lparr>sd_ReXmitCount := sd_ReXmitCount s + 1\<rparr>;
           Some (sd_call (SC_SndUList_update True) (sd_call (SC_updateCC_CHECKTIMER (se_fast_rexmit e)) (sd_call (SC_checkSndTimers False) s)))
         })"

subsection \<open>A new connection\<close>

text \<open>
  \<open>CUDT::open\<close> with the buffers of \<open>prepareConnectionObjects\<close>: \<open>flow\<close> is the flow window of the peer, for which
  the loss list has room twice.
\<close>

definition sender_new :: "snd_env \<Rightarrow> nat \<Rightarrow> int \<Rightarrow> (int \<Rightarrow> int) \<Rightarrow> sender" where
  "sender_new e payloadsize flow arr = \<lparr>
     sd_nak = \<lparr>nk_list = snd_new (flow * 2) arr, nk_SndLastAck = 0, nk_SndCurrSeqNo = - 1, nk_broken = False, nk_brokenCounter = 0,
       nk_traceSndLoss = 0, nk_sndLossTotal = 0, nk_recvNAK = 0, nk_recvNAKTotal = 0, nk_ackLock = 0, nk_calls = []\<rparr>,
     sd_buffer = sb_new 32 payloadsize, sd_SndLastDataAck = 0, sd_SndLastFullAck = 0, sd_SndLastAck2 = 0, sd_SndLastAck2Time = 0,
     sd_FlowWindowSize = flow, sd_RTT = 10 * COMM_SYN_INTERVAL_US, sd_RTTVar = (10 * COMM_SYN_INTERVAL_US) div 2, sd_Bandwidth = 1,
     sd_DeliveryRate = 16, sd_ByteDeliveryRate = 16 * se_MaxSRTPayloadSize e, sd_EXPCount = 1, sd_ReXmitCount = 1,
     sd_LastRspTime = se_tk e, sd_LastRspAckTime = se_tk e, sd_LastSndTime = se_tk e, sd_TargetTime = 0, sd_TimeDiff = 0,
     sd_Closing = False,
     sd_stats = \<lparr>ss_traceRetrans = 0, ss_traceBytesRetrans = 0, ss_sndFilterExtra = 0, ss_traceSent = 0, ss_traceBytesSent = 0,
       ss_recvACK = 0, ss_traceSndDrop = 0, ss_traceSndBytesDrop = 0, ss_sndDuration = 0, ss_sndDurationCounter = 0\<rparr>,
     sd_sent = [], sd_calls = []\<rparr>"

text \<open>The own initial sequence number.\<close>

definition set_isn :: "snd_env \<Rightarrow> int \<Rightarrow> sender \<Rightarrow> sender" where
  "set_isn e isn s = s\<lparr>sd_nak := (sd_nak s)\<lparr>nk_SndLastAck := isn, nk_SndCurrSeqNo := isn - 1\<rparr>, sd_SndLastDataAck := isn,
     sd_SndLastFullAck := isn, sd_SndLastAck2 := isn, sd_SndLastAck2Time := se_us e\<rparr>"

end
