(* ===== verification/SenderInv.thy ===== *)
theory SenderInv
  imports Sender
begin

text \<open>
  What the sending half keeps true: the buffer holds the packets from the last acknowledgement on, the first ones of
  them sent, and the loss list holds some of those. The block of a sequence number is found by its distance from the
  last acknowledgement, so that a retransmission sends what was sent first.
\<close>

subsection \<open>Blocks by their place\<close>

lemma chain_at:
  assumes "sb_chain s xs q c" "i < length xs"
  shows "xs ! i = (sb_next s ^^ i) (sb_pFirstBlock s)"
  using assms(2)
proof (induction i)
  case 0
  then show ?case using assms(1) by (simp add: sb_chain_def sb_ring_def)
next
  case (Suc i)
  have "\<forall>i < length xs. sb_next s (xs ! i) = xs ! ((i + 1) mod length xs)" using assms(1) unfolding sb_chain_def sb_ring_def by blast
  then have "sb_next s (xs ! i) = xs ! Suc i" using Suc.prems by simp
  moreover have "xs ! i = (sb_next s ^^ i) (sb_pFirstBlock s)" using Suc by simp
  ultimately show ?case by simp
qed

lemma sb_readData_at_fresh:
  assumes "sb_rep s q c" "i < length q" "bk_iTTL (q ! i) < 0"
  shows "sb_readData_at now i s = Some (Rexmit (take (nat (bk_iLength (q ! i))) (bk_data (q ! i))) (bk_iMsgNoBitset (q ! i))
    (if bk_ullSourceTime_us (q ! i) \<noteq> 0 then bk_ullSourceTime_us (q ! i) else bk_ullOriginTime_us (q ! i)), s)"
proof -
  obtain xs where x: "sb_chain s xs q c" using assms(1) by (auto simp: sb_rep_def)
  then have "i < length xs" "sb_blk s (xs ! i) = q ! i" using assms(2) by (auto simp: sb_chain_def)
  then have "sb_blk s ((sb_next s ^^ i) (sb_pFirstBlock s)) = q ! i" using chain_at [OF x] by simp
  then show ?thesis using assms(3) by (simp add: sb_readData_at_def Let_def)
qed

text \<open>A block is overwritten by one of the same length.\<close>

lemma sb_rep_overwrite:
  assumes "sb_rep s q c" "i < length q" "bk_iLength k = bk_iLength (q ! i)"
  shows "sb_rep (s\<lparr>sb_blk := (sb_blk s)((sb_next s ^^ i) (sb_pFirstBlock s) := k)\<rparr>) (q[i := k]) c"
proof -
  obtain xs where x: "sb_chain s xs q c" using assms(1) by (auto simp: sb_rep_def)
  then have d: "distinct xs" "length q < length xs" by (auto simp: sb_chain_def sb_ring_def)
  have p: "(sb_next s ^^ i) (sb_pFirstBlock s) = xs ! i" using chain_at [OF x, of i] assms(2) d(2) by simp
  have "sb_chain (s\<lparr>sb_blk := (sb_blk s)(xs ! i := k)\<rparr>) xs (q[i := k]) c"
    using x assms(2) d nth_eq_iff_index_eq [OF d(1)] by (auto simp: sb_chain_def sb_ring_def nth_list_update)
  moreover have "map bk_iLength (q[i := k]) = map bk_iLength q" using assms(2,3) by (auto simp: list_eq_iff_nth_eq nth_list_update)
  ultimately show ?thesis using assms(1) p by (auto simp: sb_rep_def)
qed

lemma sb_curr_at: "sb_rep s q c \<Longrightarrow> sb_pCurrBlock s = (sb_next s ^^ c) (sb_pFirstBlock s)"
proof -
  assume "sb_rep s q c"
  then obtain xs where x: "sb_chain s xs q c" by (auto simp: sb_rep_def)
  then have "c < length xs" "sb_pCurrBlock s = xs ! c" by (simp_all only: sb_chain_def) linarith
  then show ?thesis using chain_at [OF x] by simp
qed

lemma sb_readData_links:
  "sb_next (snd (sb_readData k s)) = sb_next s" "sb_pFirstBlock (snd (sb_readData k s)) = sb_pFirstBlock s"
  "sb_iNextMsgNo (snd (sb_readData k s)) = sb_iNextMsgNo s"
  by (simp_all add: sb_readData_def Let_def case_prod_beta split: option.split)

lemma sb_ackData_msgno: "sb_iNextMsgNo (sb_ackData now n s) = sb_iNextMsgNo s"
proof -
  have "sb_iNextMsgNo (snd (sb_ack_loop n m s)) = sb_iNextMsgNo s" for m by (induction n arbitrary: m s) simp_all
  then show ?thesis by (simp add: sb_ackData_def Let_def case_prod_beta)
qed

subsection \<open>The invariant\<close>

definition plain_block :: "Block \<Rightarrow> bool" where
  "plain_block k \<longleftrightarrow> bk_iTTL k < 0 \<and> bk_iLength k = int (length (bk_data k)) \<and> bk_data k \<noteq> []"

text \<open>
  \<open>S\<close> is the position of the first packet that is not acknowledged, \<open>c\<close> the number of packets sent behind it and
  \<open>X\<close> the set of those to be sent again; sequence numbers are the wrapped positions.
\<close>

definition snd_inv :: "sender \<Rightarrow> Block list \<Rightarrow> int \<Rightarrow> nat \<Rightarrow> int set \<Rightarrow> bool" where
  "snd_inv s q S c X \<longleftrightarrow> sb_rep (sd_buffer s) q c \<and> (\<forall>k\<in>set q. plain_block k) \<and> sd_SndLastDataAck s = sq S \<and> sd_SndLastAck s = sq S \<and>
     sd_SndCurrSeqNo s = sq (S + int c - 1) \<and> snd_holds (sd_list s) X \<and> X \<subseteq> {S..<S + int c} \<and> int c \<le> sl_size (sd_list s) \<and>
     sd_FlowWindowSize s \<le> sl_size (sd_list s) \<and> int c \<le> sd_FlowWindowSize s + sl_size (sd_list s) \<and> sl_size (sd_list s) \<le> 268435456"

lemma snd_invD:
  assumes "snd_inv s q S c X"
  shows "sb_rep (sd_buffer s) q c" "\<And>k. k \<in> set q \<Longrightarrow> plain_block k" "sd_SndLastDataAck s = sq S" "sd_SndLastAck s = sq S"
    "sd_SndCurrSeqNo s = sq (S + int c - 1)" "snd_holds (sd_list s) X" "X \<subseteq> {S..<S + int c}" "int c \<le> sl_size (sd_list s)"
    "sd_FlowWindowSize s \<le> sl_size (sd_list s)" "sl_size (sd_list s) \<le> 268435456" "c \<le> length q" "finite X"
    "int c \<le> sd_FlowWindowSize s + sl_size (sd_list s)"
proof -
  show "c \<le> length q" using assms by (auto simp: snd_inv_def sb_rep_def sb_chain_def)
  show "finite X" using assms snd_holds_finite by (auto simp: snd_inv_def)
qed (use assms in \<open>auto simp: snd_inv_def\<close>)

lemma snd_inv_cong:
  assumes "sd_nak s' = sd_nak s" "sd_buffer s' = sd_buffer s" "sd_SndLastDataAck s' = sd_SndLastDataAck s" "sd_FlowWindowSize s' = sd_FlowWindowSize s"
  shows "snd_inv s' q S c X = snd_inv s q S c X"
  using assms by (simp add: snd_inv_def)

text \<open>What stays as it is at a connection: the room in the loss list, and, but for new messages, the next message number.\<close>

definition snd_base :: "sender \<Rightarrow> int \<times> 32 word \<times> bool" where
  [simp]: "snd_base s = (sl_size (sd_list s), sb_iNextMsgNo (sd_buffer s), nk_broken (sd_nak s))"

lemma sd_fields [simp]:
  "sd_nak (sd_send e c s) = sd_nak s" "sd_buffer (sd_send e c s) = sd_buffer s" "sd_SndLastDataAck (sd_send e c s) = sd_SndLastDataAck s"
  "sd_FlowWindowSize (sd_send e c s) = sd_FlowWindowSize s"
  "sd_nak (sd_call x s) = sd_nak s" "sd_buffer (sd_call x s) = sd_buffer s" "sd_SndLastDataAck (sd_call x s) = sd_SndLastDataAck s"
  "sd_FlowWindowSize (sd_call x s) = sd_FlowWindowSize s"
  "sd_nak (sd_count f s) = sd_nak s" "sd_buffer (sd_count f s) = sd_buffer s" "sd_SndLastDataAck (sd_count f s) = sd_SndLastDataAck s"
  "sd_FlowWindowSize (sd_count f s) = sd_FlowWindowSize s"
  "sd_buffer (sd_set_list l s) = sd_buffer s" "sd_SndLastDataAck (sd_set_list l s) = sd_SndLastDataAck s"
  "sd_FlowWindowSize (sd_set_list l s) = sd_FlowWindowSize s" "sd_nak (sd_set_list l s) = (sd_nak s)\<lparr>nk_list := l\<rparr>"
  "sd_buffer (sd_set_curr q s) = sd_buffer s" "sd_SndLastDataAck (sd_set_curr q s) = sd_SndLastDataAck s"
  "sd_FlowWindowSize (sd_set_curr q s) = sd_FlowWindowSize s" "sd_nak (sd_set_curr q s) = (sd_nak s)\<lparr>nk_SndCurrSeqNo := q\<rparr>"
  "sd_buffer (sd_set_ack q s) = sd_buffer s" "sd_SndLastDataAck (sd_set_ack q s) = sd_SndLastDataAck s"
  "sd_FlowWindowSize (sd_set_ack q s) = sd_FlowWindowSize s" "sd_nak (sd_set_ack q s) = (sd_nak s)\<lparr>nk_SndLastAck := q\<rparr>"
  by (simp_all add: sd_defs)

lemma next_time_fields [simp]:
  "sd_nak (snd (next_time e b s)) = sd_nak s" "sd_buffer (snd (next_time e b s)) = sd_buffer s"
  "sd_SndLastDataAck (snd (next_time e b s)) = sd_SndLastDataAck s" "sd_FlowWindowSize (snd (next_time e b s)) = sd_FlowWindowSize s"
  by (simp_all add: next_time_def Let_def)

subsection \<open>Retransmission\<close>

definition rexmit_packet :: "snd_env \<Rightarrow> int \<Rightarrow> Block \<Rightarrow> CPacket" where
  "rexmit_packet e seq k = data_packet seq (bk_data k)
     (if se_PeerRexmitFlag e then bk_iMsgNoBitset k OR PACKET_SND_REXMIT else bk_iMsgNoBitset k)"

lemma packLostData_none:
  assumes "snd_inv s q S c {}"
  shows "packLostData e s = Some (None, s)"
  using snd_holds_pop(1) [OF snd_invD(6) [OF assms]] by (simp add: packLostData_def sd_set_list_def)

lemma packLostData_some:
  assumes i: "snd_inv s q S c X" and x: "X \<noteq> {}"
  defines "j \<equiv> nat (Min X - S)"
  shows "\<exists>t s'. packLostData e s = Some (Some (rexmit_packet e (sq (Min X)) (q ! j), t), s') \<and> snd_inv s' q S c (X - {Min X}) \<and>
    j < c \<and> sd_buffer s' = sd_buffer s \<and> sl_size (sd_list s') = sl_size (sd_list s) \<and> nk_broken (sd_nak s') = nk_broken (sd_nak s)"
proof -
  note D = snd_invD [OF i]
  have m: "S \<le> Min X" "Min X < S + int c" using Min_in [OF D(12) x] D(7) by auto
  then have j: "j < c" "j < length q" "q ! j \<in> set q" using D(11) by (auto simp: j_def)
  have P: "plain_block (q ! j)" using D(2) j(3) by blast
  obtain l where l: "snd_popLostSeq (sd_list s) = Some (sq (Min X), l)" "snd_holds l (X - {Min X})" "sl_size l = sl_size (sd_list s)"
    using snd_holds_pop(2) [OF D(6) x] by blast
  have off: "seqoff (sq S) (sq (Min X)) = int j" using m D(8,10) by (simp add: seqoff_sq j_def)
  have r: "sb_readData_at (se_us e) j (sd_buffer s) = Some (Rexmit (bk_data (q ! j)) (bk_iMsgNoBitset (q ! j))
    (if bk_ullSourceTime_us (q ! j) \<noteq> 0 then bk_ullSourceTime_us (q ! j) else bk_ullOriginTime_us (q ! j)), sd_buffer s)"
    using sb_readData_at_fresh [OF D(1) j(2)] P by (simp add: plain_block_def)
  let ?s = "sd_count (\<lambda>t. t\<lparr>ss_traceRetrans := ss_traceRetrans t + 1, ss_traceBytesRetrans := ss_traceBytesRetrans t + int (length (bk_data (q ! j)))\<rparr>)
    (sd_set_list l s)"
  have same: "sd_set_list l s\<lparr>sd_buffer := sd_buffer s\<rparr> = sd_set_list l s" by (simp add: sd_set_list_def)
  have "packLostData e s = Some (Some (rexmit_packet e (sq (Min X)) (q ! j),
      if bk_ullSourceTime_us (q ! j) \<noteq> 0 then bk_ullSourceTime_us (q ! j) else bk_ullOriginTime_us (q ! j)), ?s)"
    using l(1) D(3) off r P sq_range(1) [of "Min X"] by (simp add: same packLostData_def Let_def rexmit_packet_def plain_block_def)
  moreover have "snd_inv ?s q S c (X - {Min X})" using i l(2,3) by (auto simp: snd_inv_def)
  ultimately show ?thesis using j(1) by (intro exI [of _ "if bk_ullSourceTime_us (q ! j) \<noteq> 0 then bk_ullSourceTime_us (q ! j) else bk_ullOriginTime_us (q ! j)"] exI [of _ ?s]) (simp add: l(3))
qed

subsection \<open>New packets\<close>

text \<open>The block \<open>k\<close> as it is in the buffer once it has been sent.\<close>

definition keyed :: "EncryptionKeySpec \<Rightarrow> Block \<Rightarrow> Block" where
  "keyed kf k = k\<lparr>bk_iMsgNoBitset := bk_iMsgNoBitset k OR EncryptionKeyBits kf\<rparr>"

lemma new_packet_spec:
  assumes i: "snd_inv s q S c {}" and k: "se_CryptoFlags e = Some kf"
  defines "can \<equiv> c < length q \<and> int c < min (sd_FlowWindowSize s) (se_CongestionWindow e)"
  shows "\<not> can \<Longrightarrow> new_packet e s = (None, s)"
    and "can \<Longrightarrow> \<exists>t s'. new_packet e s = (Some \<lparr>ch_packet = data_packet (sq (S + int c)) (bk_data (q ! c)) (bk_iMsgNoBitset (keyed kf (q ! c))),
        ch_origintime = t, ch_kflg = kf, ch_new = True, ch_filter_ctl = False\<rparr>, s') \<and> snd_inv s' (q[c := keyed kf (q ! c)]) S (c + 1) {} \<and>
      sb_next (sd_buffer s') = sb_next (sd_buffer s) \<and> sb_pFirstBlock (sd_buffer s') = sb_pFirstBlock (sd_buffer s) \<and> snd_base s' = snd_base s"
proof -
  note D = snd_invD [OF i]
  have inc: "incseq (sd_SndCurrSeqNo s) = sq (S + int c)" using D(5) by (simp add: incseq_sq)
  have sl: "seqlen (sd_SndLastAck s) (incseq (sd_SndCurrSeqNo s)) = int c + 1"
    using D(4,8,10) inc by (simp add: seqlen_sq)
  show "new_packet e s = (None, s)" if "\<not> can"
  proof (cases "int c < min (sd_FlowWindowSize s) (se_CongestionWindow e)")
    case True
    then have "c = length q" using that D(11) by (simp add: can_def)
    then show ?thesis using sb_readData_refines(1) [OF D(1)] sl True k by (simp add: new_packet_def)
  next
    case False
    then have "\<not> min (sd_FlowWindowSize s) (se_CongestionWindow e) \<ge> int c + 1" by linarith
    then show ?thesis using sl by (simp only: new_packet_def Let_def if_False)
  qed
  assume can
  then have c: "c < length q" "int c < min (sd_FlowWindowSize s) (se_CongestionWindow e)" by (simp_all add: can_def)
  have P: "plain_block (q ! c)" using D(2) c(1) by simp
  obtain r b where r: "sb_readData (Some kf) (sd_buffer s) = (Some r, b)" "sb_rep b (q[c := keyed kf (q ! c)]) (c + 1)"
    "fst r = bk_data (q ! c)" "fst (snd r) = bk_iMsgNoBitset (keyed kf (q ! c))"
    using sb_readData_refines(2) [OF D(1) c(1), of "Some kf"] P by (auto simp: keyed_def plain_block_def)
  have b: "sb_next b = sb_next (sd_buffer s)" "sb_pFirstBlock b = sb_pFirstBlock (sd_buffer s)" "sb_iNextMsgNo b = sb_iNextMsgNo (sd_buffer s)"
    using sb_readData_links [of "Some kf" "sd_buffer s"] r(1) by simp_all
  let ?s = "sd_set_curr (sq (S + int c)) (s\<lparr>sd_buffer := b\<rparr>)"
  obtain d m t where rr: "r = (d, m, t)" by (cases r)
  have "new_packet e s = (Some \<lparr>ch_packet = data_packet (sq (S + int c)) (bk_data (q ! c)) (bk_iMsgNoBitset (keyed kf (q ! c))),
      ch_origintime = t, ch_kflg = kf, ch_new = True, ch_filter_ctl = False\<rparr>, ?s)"
    using c(2) sl k r rr P inc by (simp add: new_packet_def Let_def plain_block_def)
  moreover have "\<forall>x\<in>set (q[c := keyed kf (q ! c)]). plain_block x"
  proof -
    have "plain_block (keyed kf (q ! c))" using P by (simp add: plain_block_def keyed_def)
    then show ?thesis using D(2) set_update_subset_insert [of q c "keyed kf (q ! c)"] by auto
  qed
  then have "snd_inv ?s (q[c := keyed kf (q ! c)]) S (c + 1) {}"
    using r(2) D(3,4,6,8,9,10,13) c(2) by (simp add: snd_inv_def)
  ultimately show "\<exists>t s'. new_packet e s = (Some \<lparr>ch_packet = data_packet (sq (S + int c)) (bk_data (q ! c)) (bk_iMsgNoBitset (keyed kf (q ! c))),
        ch_origintime = t, ch_kflg = kf, ch_new = True, ch_filter_ctl = False\<rparr>, s') \<and> snd_inv s' (q[c := keyed kf (q ! c)]) S (c + 1) {} \<and>
      sb_next (sd_buffer s') = sb_next (sd_buffer s) \<and> sb_pFirstBlock (sd_buffer s') = sb_pFirstBlock (sd_buffer s) \<and> snd_base s' = snd_base s"
    using b by (intro exI [of _ t] exI [of _ ?s]) (simp add: snd_base_def)
qed

subsection \<open>packData\<close>

text \<open>The cipher, when there is one, keeps the length of the payload and the header.\<close>

definition cipher_ok :: "snd_env \<Rightarrow> bool" where
  "cipher_ok e \<longleftrightarrow> (\<exists>kf. se_CryptoFlags e = Some kf \<and>
     (kf \<noteq> EK_NOENC \<longrightarrow> (\<forall>p. \<exists>d. se_encrypt e p = Some (p\<lparr>pv_data := Some d\<rparr>) \<and> length d = getLength p)))"

lemma stamp_fields [simp]:
  "ph_seqno (stamp e c) = ph_seqno (ch_packet c)" "ph_msgno (stamp e c) = ph_msgno (ch_packet c)" "payload (stamp e c) = payload (ch_packet c)"
  "getLength (stamp e c) = getLength (ch_packet c)" "pv_data (stamp e c) = pv_data (ch_packet c)" "pv_len (stamp e c) = pv_len (ch_packet c)"
  by (simp_all add: stamp_def Let_def payload_def getLength_def cong: option.case_cong)

text \<open>What happens to the chosen packet.\<close>

lemma packet_sent_fields [simp]:
  "sd_nak (snd (packet_sent e c p s)) = sd_nak s" "sd_buffer (snd (packet_sent e c p s)) = sd_buffer s"
  "sd_SndLastDataAck (snd (packet_sent e c p s)) = sd_SndLastDataAck s" "sd_FlowWindowSize (snd (packet_sent e c p s)) = sd_FlowWindowSize s"
  by (simp_all add: packet_sent_def Let_def)

lemma packData_finish:
  assumes c: "choose_packet e (s\<lparr>sd_TimeDiff := td\<rparr>) = Some (Some ch, s1)"
    and td: "td = (if sd_TargetTime s \<noteq> 0 \<and> se_tk e > sd_TargetTime s then u64 (sd_TimeDiff s + (se_tk e - sd_TargetTime s)) else sd_TimeDiff s)"
    and p: "(if ch_kflg ch = EK_NOENC then Some (stamp e ch) else se_encrypt e (stamp e ch)) = Some p"
  defines "s2 \<equiv> if ch_kflg ch = EK_NOENC then s1 else encrypt_block (sb_pCurrBlock (sd_buffer s)) p s1"
  shows "\<exists>ts s'. packData e s = Some (int (getLength p), Some p, ts, s') \<and> sd_nak s' = sd_nak s2 \<and> sd_buffer s' = sd_buffer s2 \<and>
    sd_SndLastDataAck s' = sd_SndLastDataAck s2 \<and> sd_FlowWindowSize s' = sd_FlowWindowSize s2"
proof -
  have s: "(if sd_TargetTime s \<noteq> 0 \<and> se_tk e > sd_TargetTime s then s\<lparr>sd_TimeDiff := u64 (sd_TimeDiff s + (se_tk e - sd_TargetTime s))\<rparr> else s) =
    s\<lparr>sd_TimeDiff := td\<rparr>" using td by simp
  have "packData e s = Some (int (getLength p), Some p, fst (packet_sent e ch p s2), snd (packet_sent e ch p s2))"
    using c p unfolding packData_def s Let_def by (cases "ch_kflg ch = EK_NOENC") (simp_all add: s2_def case_prod_beta)
  then show ?thesis by (intro exI conjI) (assumption | simp)+
qed

lemma sb_blk_at:
  assumes "sb_rep s q c" "i < length q"
  shows "sb_blk s ((sb_next s ^^ i) (sb_pFirstBlock s)) = q ! i"
proof -
  obtain xs where x: "sb_chain s xs q c" using assms(1) by (auto simp: sb_rep_def)
  then have "i < length xs" "sb_blk s (xs ! i) = q ! i" using assms(2) by (simp_all only: sb_chain_def) linarith
  then show ?thesis using chain_at [OF x] by simp
qed

text \<open>The cipher writes the new contents into the block.\<close>

lemma encrypt_block_inv:
  assumes i: "snd_inv s q S c X" and j: "j < length q" "length (payload p) = length (bk_data (q ! j))"
  shows "snd_inv (encrypt_block ((sb_next (sd_buffer s) ^^ j) (sb_pFirstBlock (sd_buffer s))) p s) (q[j := (q ! j)\<lparr>bk_data := payload p\<rparr>]) S c X"
proof -
  note D = snd_invD [OF i]
  let ?k = "(q ! j)\<lparr>bk_data := payload p\<rparr>" and ?a = "(sb_next (sd_buffer s) ^^ j) (sb_pFirstBlock (sd_buffer s))"
  have P: "plain_block (q ! j)" using D(2) j(1) by simp
  have ne: "payload p \<noteq> []" using P j(2) by (auto simp: plain_block_def)
  have e: "encrypt_block ?a p s = s\<lparr>sd_buffer := (sd_buffer s)\<lparr>sb_blk := (sb_blk (sd_buffer s))(?a := ?k)\<rparr>\<rparr>"
    using sb_blk_at [OF D(1) j(1)] j(2) by (simp add: encrypt_block_def Let_def)
  have "sb_rep ((sd_buffer s)\<lparr>sb_blk := (sb_blk (sd_buffer s))(?a := ?k)\<rparr>) (q[j := ?k]) c"
    by (rule sb_rep_overwrite [OF D(1) j(1)]) simp
  moreover have "\<forall>x\<in>set (q[j := ?k]). plain_block x"
  proof -
    have "plain_block ?k" using P j(2) ne by (simp add: plain_block_def)
    then show ?thesis using D(2) set_update_subset_insert [of q j ?k] by auto
  qed
  ultimately show ?thesis using i unfolding e by (simp add: snd_inv_def)
qed

text \<open>
  What is sent: \<open>k\<close> is the block of the packet as it stays in the buffer.
\<close>

definition sent_as :: "CPacket \<Rightarrow> int \<Rightarrow> Block \<Rightarrow> 32 word \<Rightarrow> bool" where
  "sent_as p j k flag \<longleftrightarrow> ph_seqno p = word_of_int (sq j) \<and> payload p = bk_data k \<and> getLength p = length (payload p) \<and>
     ph_msgno p = bk_iMsgNoBitset k OR flag"


text \<open>A retransmission does not go through the cipher.\<close>

lemma packData_rexmit:
  assumes i: "snd_inv s q S c X" and x: "X \<noteq> {}"
  shows "\<exists>n p ts s'. packData e s = Some (n, Some p, ts, s') \<and> sent_as p (Min X) (q ! nat (Min X - S)) (if se_PeerRexmitFlag e then PACKET_SND_REXMIT else 0) \<and>
    nat (Min X - S) < c \<and> snd_inv s' q S c (X - {Min X}) \<and> snd_base s' = snd_base s"
proof -
  define td where "td = (if sd_TargetTime s \<noteq> 0 \<and> se_tk e > sd_TargetTime s then u64 (sd_TimeDiff s + (se_tk e - sd_TargetTime s)) else sd_TimeDiff s)"
  let ?s = "s\<lparr>sd_TimeDiff := td\<rparr>"
  have "snd_inv ?s q S c X = snd_inv s q S c X" by (rule snd_inv_cong) simp_all
  with i have i': "snd_inv ?s q S c X" by simp
  obtain t s1 where r: "packLostData e ?s = Some (Some (rexmit_packet e (sq (Min X)) (q ! nat (Min X - S)), t), s1)" "snd_inv s1 q S c (X - {Min X})"
    "nat (Min X - S) < c" "snd_base s1 = snd_base s" using packLostData_some [OF i' x, of e] by (auto simp: snd_base_def)
  let ?c = "\<lparr>ch_packet = rexmit_packet e (sq (Min X)) (q ! nat (Min X - S)), ch_origintime = t, ch_kflg = EK_NOENC, ch_new = False, ch_filter_ctl = False\<rparr>"
  have c: "choose_packet e ?s = Some (Some ?c, s1)" using r(1) by (simp add: choose_packet_def)
  obtain ts s' where p: "packData e s = Some (int (getLength (stamp e ?c)), Some (stamp e ?c), ts, s')" "sd_nak s' = sd_nak s1"
    "sd_buffer s' = sd_buffer s1" "sd_SndLastDataAck s' = sd_SndLastDataAck s1" "sd_FlowWindowSize s' = sd_FlowWindowSize s1"
    using packData_finish [OF c td_def, of "stamp e ?c"] by auto
  have "sent_as (stamp e ?c) (Min X) (q ! nat (Min X - S)) (if se_PeerRexmitFlag e then PACKET_SND_REXMIT else 0)"
    by (simp add: sent_as_def rexmit_packet_def)
  moreover have "snd_inv s' q S c (X - {Min X})" using r(2) snd_inv_cong [OF p(2-5)] by simp
  ultimately show ?thesis using p(1-3) r(3,4) by (auto simp: snd_base_def)
qed

lemma packData_spec:
  assumes i: "snd_inv s q S c X" and f: "se_filter e = None" and ok: "cipher_ok e"
  shows "\<exists>n po ts s'. packData e s = Some (n, po, ts, s') \<and> snd_base s' = snd_base s \<and>
    (if X \<noteq> {} then \<exists>p. po = Some p \<and> sent_as p (Min X) (q ! nat (Min X - S)) (if se_PeerRexmitFlag e then PACKET_SND_REXMIT else 0) \<and>
       nat (Min X - S) < c \<and> snd_inv s' q S c (X - {Min X})
     else if c < length q \<and> int c < min (sd_FlowWindowSize s) (se_CongestionWindow e)
     then \<exists>p k. po = Some p \<and> sent_as p (S + int c) k 0 \<and> snd_inv s' (q[c := k]) S (c + 1) {} \<and>
       bk_iLength k = bk_iLength (q ! c) \<and> (se_CryptoFlags e = Some EK_NOENC \<longrightarrow> k = q ! c)
     else po = None \<and> n = 0 \<and> snd_inv s' q S c X)"
proof -
  define td where "td = (if sd_TargetTime s \<noteq> 0 \<and> se_tk e > sd_TargetTime s then u64 (sd_TimeDiff s + (se_tk e - sd_TargetTime s)) else sd_TimeDiff s)"
  let ?s = "s\<lparr>sd_TimeDiff := td\<rparr>"
  have s: "(if sd_TargetTime s \<noteq> 0 \<and> se_tk e > sd_TargetTime s then s\<lparr>sd_TimeDiff := u64 (sd_TimeDiff s + (se_tk e - sd_TargetTime s))\<rparr> else s) = ?s"
    by (simp add: td_def)
  have "snd_inv ?s q S c X = snd_inv s q S c X" by (rule snd_inv_cong) simp_all
  with i have i': "snd_inv ?s q S c X" by simp
  note D = snd_invD [OF i]
  obtain kf where kf: "se_CryptoFlags e = Some kf" "kf \<noteq> EK_NOENC \<Longrightarrow> \<exists>d. se_encrypt e p = Some (p\<lparr>pv_data := Some d\<rparr>) \<and> length d = getLength p" for p
    using ok by (auto simp: cipher_ok_def)
  show ?thesis
  proof (cases "X = {}")
    case False
    then show ?thesis using packData_rexmit [OF i False, of e] by fastforce
  next
    case True
    have lost: "packLostData e ?s = Some (None, ?s)" using packLostData_none i' True by simp
    have ch: "choose_packet e ?s = Some (new_packet e ?s)" using lost f by (simp add: choose_packet_def)
    have i0: "snd_inv ?s q S c {}" using i' True by simp
    show ?thesis
    proof (cases "c < length q \<and> int c < min (sd_FlowWindowSize s) (se_CongestionWindow e)")
      case False
      then have "new_packet e ?s = (None, ?s)" using new_packet_spec(1) [OF i0 kf(1)] by simp
      then have "packData e s = Some (0, None, 0, ?s\<lparr>sd_TargetTime := 0, sd_TimeDiff := 0\<rparr>)"
        unfolding packData_def s Let_def using ch by simp
      moreover have "snd_inv (?s\<lparr>sd_TargetTime := 0, sd_TimeDiff := 0\<rparr>) q S c X = snd_inv ?s q S c X" by (rule snd_inv_cong) simp_all
      ultimately show ?thesis using True False i' by (simp only: if_False simp_thms) auto
    next
      case can: True
      let ?k = "keyed kf (q ! c)"
      obtain t s1 where n: "new_packet e ?s = (Some \<lparr>ch_packet = data_packet (sq (S + int c)) (bk_data (q ! c)) (bk_iMsgNoBitset ?k),
          ch_origintime = t, ch_kflg = kf, ch_new = True, ch_filter_ctl = False\<rparr>, s1)" "snd_inv s1 (q[c := ?k]) S (c + 1) {}"
          "sb_next (sd_buffer s1) = sb_next (sd_buffer s)" "sb_pFirstBlock (sd_buffer s1) = sb_pFirstBlock (sd_buffer s)"
          "snd_base s1 = snd_base s" using new_packet_spec(2) [OF i0 kf(1)] can by auto
      let ?c = "\<lparr>ch_packet = data_packet (sq (S + int c)) (bk_data (q ! c)) (bk_iMsgNoBitset ?k), ch_origintime = t, ch_kflg = kf, ch_new = True, ch_filter_ctl = False\<rparr>"
      have c: "choose_packet e ?s = Some (Some ?c, s1)" using ch n(1) by simp
      have at: "sb_pCurrBlock (sd_buffer s) = (sb_next (sd_buffer s1) ^^ c) (sb_pFirstBlock (sd_buffer s1))" using sb_curr_at [OF D(1)] n(3,4) by simp
      have cl: "c < length (q[c := ?k])" using can by simp
      show ?thesis
      proof (cases "kf = EK_NOENC")
        case True
        obtain ts s' where p: "packData e s = Some (int (getLength (stamp e ?c)), Some (stamp e ?c), ts, s')" "sd_nak s' = sd_nak s1"
          "sd_buffer s' = sd_buffer s1" "sd_SndLastDataAck s' = sd_SndLastDataAck s1" "sd_FlowWindowSize s' = sd_FlowWindowSize s1"
          using packData_finish [OF c td_def, of "stamp e ?c"] True by auto
        have "?k = q ! c" using True by (simp add: keyed_def)
        moreover have "sent_as (stamp e ?c) (S + int c) ?k 0" "snd_base s' = snd_base s"
          using p(2,3) n(5) by (simp_all add: sent_as_def keyed_def)
        moreover have "snd_inv s' (q[c := ?k]) S (c + 1) {}" using n(2) snd_inv_cong [OF p(2-5)] by simp
        ultimately show ?thesis using can \<open>X = {}\<close> p(1) by (intro exI conjI) (assumption | auto)+
      next
        case False
        obtain d where d: "se_encrypt e (stamp e ?c) = Some ((stamp e ?c)\<lparr>pv_data := Some d\<rparr>)" "length d = length (bk_data (q ! c))"
          using kf(2) [OF False, of "stamp e ?c"] by auto
        let ?p = "(stamp e ?c)\<lparr>pv_data := Some d\<rparr>" and ?k' = "?k\<lparr>bk_data := d\<rparr>"
        have pl: "payload ?p = d" "getLength ?p = length d" using d(2) by (simp_all add: payload_def getLength_def data_packet_def)
        let ?s2 = "encrypt_block (sb_pCurrBlock (sd_buffer s)) ?p s1"
        obtain ts s' where p: "packData e s = Some (int (getLength ?p), Some ?p, ts, s')" "sd_nak s' = sd_nak ?s2"
          "sd_buffer s' = sd_buffer ?s2" "sd_SndLastDataAck s' = sd_SndLastDataAck ?s2" "sd_FlowWindowSize s' = sd_FlowWindowSize ?s2"
          using packData_finish [OF c td_def, of ?p] False d(1) by auto
        have "length (payload ?p) = length (bk_data (q[c := ?k] ! c))" using pl(1) d(2) can by (simp add: keyed_def)
        then have "snd_inv ?s2 ((q[c := ?k])[c := (q[c := ?k] ! c)\<lparr>bk_data := payload ?p\<rparr>]) S (c + 1) {}"
          using encrypt_block_inv [OF n(2) cl, of ?p] unfolding at by blast
        then have "snd_inv s' (q[c := ?k']) S (c + 1) {}" using snd_inv_cong [OF p(2-5)] can pl by simp
        moreover have "sent_as ?p (S + int c) ?k' 0" "snd_base s' = snd_base s"
          using pl p(2,3) n(5) by (simp_all add: sent_as_def keyed_def encrypt_block_def Let_def)
        moreover have "bk_iLength ?k' = bk_iLength (q ! c)" by (simp add: keyed_def)
        ultimately show ?thesis using can \<open>X = {}\<close> p(1) kf(1) False by (intro exI conjI) (assumption | auto)+
      qed
    qed
  qed
qed


subsection \<open>Acknowledgements\<close>

lemma updateSndLossListOnACK_new:
  assumes i: "snd_inv s q S c X" and a: "S < a" "a \<le> S + int c"
  shows "\<exists>s1. updateSndLossListOnACK e (sq a) s = Some s1 \<and> sd_nak s1 = (sd_nak s)\<lparr>nk_list := sd_list s1\<rparr> \<and> sd_FlowWindowSize s1 = sd_FlowWindowSize s \<and>
    sb_rep (sd_buffer s1) (drop (nat (a - S)) q) (c - nat (a - S)) \<and> snd_holds (sd_list s1) {x \<in> X. a \<le> x} \<and> sl_size (sd_list s1) = sl_size (sd_list s) \<and>
    sd_SndLastDataAck s1 = sq a \<and> sb_iNextMsgNo (sd_buffer s1) = sb_iNextMsgNo (sd_buffer s)"
proof -
  note D = snd_invD [OF i]
  have off: "seqoff (sq S) (sq a) = a - S" using a D(8,10) by (simp add: seqoff_sq)
  have w: "\<forall>x\<in>X. (a - 1) - 536870912 < x \<and> x < (a - 1) + 268435456" using D(7,8,10) a by (auto simp: subset_iff)
  have w2: "\<forall>x\<in>X. S \<le> x \<and> x < S + sl_size (sd_list s)" using D(7,8) by (auto simp: subset_iff)
  obtain l where l: "snd_remove (sd_list s) (sq (a - 1)) = Some l" "snd_holds l {x \<in> X. a - 1 < x}" "sl_size l = sl_size (sd_list s)"
    using snd_holds_remove [OF D(6) w w2] by blast
  have e: "{x \<in> X. a - 1 < x} = {x \<in> X. a \<le> x}" by auto
  have n: "nat (a - S) \<le> length q" using a D(11) by linarith
  show ?thesis using off a(1) D(3) l sb_ackData_rep [OF D(1) n, of "se_us e"]
    by (simp add: updateSndLossListOnACK_def Let_def decseq_sq e sb_ackData_msgno)
qed

text \<open>An acknowledgement that is not newer than the last one.\<close>

lemma updateSndLossListOnACK_old:
  assumes "snd_inv s q S c X" "a \<le> S" "S - a < 268435456"
  shows "updateSndLossListOnACK e (sq a) s = Some s"
  using assms snd_invD(3) [OF assms(1)] by (simp add: updateSndLossListOnACK_def seqoff_sq)

lemma acked_snd_inv:
  assumes i: "snd_inv s q S c X" and a: "S \<le> a" "a \<le> S + int c"
    and s': "sb_rep (sd_buffer s') (drop (nat (a - S)) q) (c - nat (a - S))" "snd_holds (sd_list s') {x \<in> X. a \<le> x}" "sl_size (sd_list s') = sl_size (sd_list s)"
      "sd_SndLastDataAck s' = sq a" "sd_SndLastAck s' = sq a" "sd_SndCurrSeqNo s' = sd_SndCurrSeqNo s" "sd_FlowWindowSize s' \<le> sl_size (sd_list s)"
      "int c \<le> sd_FlowWindowSize s' + (a - S) + sl_size (sd_list s)"
  shows "snd_inv s' (drop (nat (a - S)) q) a (c - nat (a - S)) {x \<in> X. a \<le> x}"
proof -
  note D = snd_invD [OF i]
  have "\<forall>k\<in>set (drop (nat (a - S)) q). plain_block k" using D(2) set_drop_subset [of "nat (a - S)" q] by auto
  moreover have "sd_SndCurrSeqNo s' = sq (a + int (c - nat (a - S)) - 1)" using s'(6) D(5) a by (simp add: of_nat_diff algebra_simps)
  moreover have "{x \<in> X. a \<le> x} \<subseteq> {a..<a + int (c - nat (a - S))}" using D(7) a by auto
  ultimately show ?thesis using s' D(8,10) a by (simp add: snd_inv_def)
qed

lemma nak_same: "(n :: nak_state)\<lparr>nk_list := nk_list n\<rparr> = n"
  by simp

lemma ack_fields [simp]:
  "sd_nak (ack_stats e d m t) = sd_nak t" "sd_buffer (ack_stats e d m t) = sd_buffer t" "sd_SndLastDataAck (ack_stats e d m t) = sd_SndLastDataAck t"
  "sd_FlowWindowSize (ack_stats e d m t) = sd_FlowWindowSize t"
  "sd_nak (process_new_ack e d len t) = sd_nak t" "sd_buffer (process_new_ack e d len t) = sd_buffer t"
  "sd_SndLastDataAck (process_new_ack e d len t) = sd_SndLastDataAck t" "sd_FlowWindowSize (process_new_ack e d len t) = sd_FlowWindowSize t"
  by (simp_all add: process_new_ack_def ack_stats_def Let_def)

lemma processCtrlAck_spec:
  assumes i: "snd_inv s q S c X" and a: "ackdata 0 = sq a" "a \<le> S + int c" "S - a < 268435456"
    and w: "len \<noteq> 4 \<Longrightarrow> 0 \<le> ackdata 3 \<and> ackdata 3 \<le> sl_size (sd_list s)"
  shows "\<exists>s'. processCtrlAck e ackdata len n s = Some s' \<and> nk_broken (sd_nak s') = nk_broken (sd_nak s) \<and> snd_base s' = snd_base s \<and>
    (if S \<le> a then snd_inv s' (drop (nat (a - S)) q) a (c - nat (a - S)) {x \<in> X. a \<le> x} else snd_inv s' q S c X)"
proof -
  note D = snd_invD [OF i]
  obtain s1 where s1: "updateSndLossListOnACK e (sq a) s = Some s1" "sd_nak s1 = (sd_nak s)\<lparr>nk_list := sd_list s1\<rparr>" "sd_FlowWindowSize s1 = sd_FlowWindowSize s"
    "sl_size (sd_list s1) = sl_size (sd_list s)"
    "S \<le> a \<Longrightarrow> sb_rep (sd_buffer s1) (drop (nat (a - S)) q) (c - nat (a - S)) \<and> snd_holds (sd_list s1) {x \<in> X. a \<le> x} \<and> sd_SndLastDataAck s1 = sq a"
    "a < S \<Longrightarrow> s1 = s" "sb_iNextMsgNo (sd_buffer s1) = sb_iNextMsgNo (sd_buffer s)"
  proof (cases "S < a")
    case True
    then show ?thesis using updateSndLossListOnACK_new [OF i True a(2), of e] that by auto
  next
    case False
    have "S = a \<Longrightarrow> {x \<in> X. a \<le> x} = X" using D(7) by auto
    then have "S = a \<Longrightarrow> snd_holds (sd_list s) {x \<in> X. a \<le> x}" using D(6) by simp
    then show ?thesis using updateSndLossListOnACK_old [OF i _ a(3)] that [of s] False D(1,3) by auto
  qed
  have cur: "sd_SndCurrSeqNo s1 = sd_SndCurrSeqNo s" "sd_SndLastAck s1 = sq S" "nk_broken (sd_nak s1) = nk_broken (sd_nak s)"
    using D(4) s1(2) by (metis nak_state.select_convs nak_state.surjective nak_state.update_convs(1))+
  have near: "\<bar>a - S\<bar> < 1073741823" using a(2,3) D(8,10) by linarith
  have cmp: "seqcmp (sq a) (sq S) \<ge> 0 \<longleftrightarrow> S \<le> a" "seqoff (sq S) (sq a) = a - S" using near by (auto simp: seqcmp_sq seqoff_sq not_less [symmetric] abs_minus_commute)
  have ok: "\<not> seqcmp (sq a) (incseq (sd_SndCurrSeqNo s1)) > 0" using a D(5,8,10) cur(1) by (simp add: incseq_sq seqcmp_sq)
  show ?thesis
  proof (cases "len = 4")
    case True
    let ?s = "process_lite_ack e (sq a) s1"
    have p: "processCtrlAck e ackdata len n s = Some ?s" using True a(1) s1(1) by (simp add: processCtrlAck_def)
    show ?thesis
    proof (cases "S \<le> a")
      case True
      have "i32 (sd_FlowWindowSize s1 - (a - S)) = sd_FlowWindowSize s - (a - S)"
        using s1(3) True a(2) D(8,9,10,13) by simp
      then have f: "sd_nak ?s = (sd_nak s1)\<lparr>nk_SndLastAck := sq a\<rparr>" "sd_buffer ?s = sd_buffer s1" "sd_SndLastDataAck ?s = sd_SndLastDataAck s1"
        "sd_FlowWindowSize ?s = sd_FlowWindowSize s - (a - S)" using True cmp cur(2) by (simp_all add: process_lite_ack_def)
      have "snd_inv ?s (drop (nat (a - S)) q) a (c - nat (a - S)) {x \<in> X. a \<le> x}"
        using True s1(4,5) cur(1) D(9,13) f by (intro acked_snd_inv [OF i True a(2)]) simp_all
      then show ?thesis using p True cur(3) s1(4,7) f(1,2) by simp
    next
      case False
      then show ?thesis using p s1(6) i cmp D(4) by (simp add: process_lite_ack_def)
    qed
  next
    case False
    define s2 where "s2 = answer_ack e n s1"
    have s2: "sd_nak s2 = sd_nak s1" "sd_buffer s2 = sd_buffer s1" "sd_SndLastDataAck s2 = sd_SndLastDataAck s1" "sd_FlowWindowSize s2 = sd_FlowWindowSize s1"
      by (simp_all add: s2_def answer_ack_def)
    define s3 where "s3 = (if S \<le> a then sd_set_ack (sq a) (s2\<lparr>sd_FlowWindowSize := ackdata 3, sd_LastRspAckTime := se_tk e, sd_ReXmitCount := 1\<rparr>) else s2)"
    define s4 where "s4 = process_new_ack e ackdata len s3"
    have s4: "sd_nak s4 = sd_nak s3" "sd_buffer s4 = sd_buffer s3" "sd_SndLastDataAck s4 = sd_SndLastDataAck s3" "sd_FlowWindowSize s4 = sd_FlowWindowSize s3"
      by (simp_all add: s4_def)
    have "process_full_ack e ackdata len s2 = s4" using a(1) ok cmp cur(2) s2(1) by (simp add: process_full_ack_def s4_def s3_def Let_def)
    then have p: "processCtrlAck e ackdata len n s = Some s4" using False a(1) s1(1) by (simp add: processCtrlAck_def s2_def)
    show ?thesis
    proof (cases "S \<le> a")
      case True
      have s3: "sd_nak s3 = (sd_nak s1)\<lparr>nk_SndLastAck := sq a\<rparr>" "sd_buffer s3 = sd_buffer s1" "sd_SndLastDataAck s3 = sd_SndLastDataAck s1"
        "sd_FlowWindowSize s3 = ackdata 3" using True s2 by (simp_all add: s3_def)
      have "snd_inv s4 (drop (nat (a - S)) q) a (c - nat (a - S)) {x \<in> X. a \<le> x}"
        using True s1(4,5) cur(1) s3 s4 w False D(8) by (intro acked_snd_inv [OF i True a(2)]) simp_all
      then show ?thesis using p True cur(3) s1(4,7) s3 s4 by simp
    next
      case f: False
      then have "s3 = s2" by (simp add: s3_def)
      then have "snd_inv s4 q S c X = snd_inv s q S c X" using s4 s2 s1(6) f by (intro snd_inv_cong) simp_all
      then show ?thesis using p f i s4(1,2) s2(1,2) s1(6) \<open>s3 = s2\<close> by simp
    qed
  qed
qed


subsection \<open>Loss reports and timeouts\<close>

lemma snd_nak_ready: "snd_inv s q S c X \<Longrightarrow> nak_ready (sd_nak s) S (S + int c - 1) X"
  by (frule snd_invD(4), frule snd_invD(5), frule snd_invD(6), frule snd_invD(7), frule snd_invD(8)) (auto simp: nak_ready_def)

lemma nak_ready_snd:
  assumes i: "snd_inv s q S c X" and n: "nak_ready nk S (S + int c - 1) Y" "sl_size (nk_list nk) = sl_size (sd_list s)"
    and s': "sd_nak s' = nk" "sd_buffer s' = sd_buffer s" "sd_SndLastDataAck s' = sd_SndLastDataAck s" "sd_FlowWindowSize s' = sd_FlowWindowSize s"
  shows "snd_inv s' q S c Y"
proof -
  have "Y \<subseteq> {S..S + int c - 1}" using n(1) by (simp only: nak_ready_def)
  then have "Y \<subseteq> {S..<S + int c}" by auto
  then show ?thesis using i n s' by (simp add: snd_inv_def nak_ready_def)
qed

lemma loss_report_inv:
  assumes i: "snd_inv s q S c X" and xs: "\<forall>(l, h)\<in>set xs. l \<le> h \<and> h < S + int c \<and> S - 268435456 < l"
  shows "\<exists>nk. processCtrl_LOSSREPORT (nak_enc xs) (sd_nak s) = Some nk \<and> snd_inv (s\<lparr>sd_nak := nk\<rparr>) q S c (X \<union> (ivset xs \<inter> {S..})) \<and>
    nk_broken nk = nk_broken (sd_nak s) \<and> sl_size (nk_list nk) = sl_size (sd_list s)"
proof -
  let ?n = "(sd_nak s)\<lparr>nk_ackLock := nk_ackLock (sd_nak s) + 1\<rparr>"
  have r: "nak_ready ?n S (S + int c - 1) X" using snd_nak_ready [OF i] by (simp add: nak_ready_def)
  have xs': "\<forall>(l, h)\<in>set xs. l \<le> h \<and> h \<le> S + int c - 1 \<and> S - 268435456 < l" using xs by auto
  obtain n1 where n1: "nak_loop (nak_enc xs) ?n = Some (True, n1)" "nak_ready n1 S (S + int c - 1) (X \<union> (ivset xs \<inter> {S..}))"
    "nk_broken n1 = nk_broken (sd_nak s)" "sl_size (nk_list n1) = sl_size (sd_list s)"
    using nak_loop_correct [OF r xs'] by auto
  obtain nk where nk: "processCtrl_LOSSREPORT (nak_enc xs) (sd_nak s) = Some nk" "nk_list nk = nk_list n1" "nk_broken nk = nk_broken n1"
    "nk_SndLastAck nk = nk_SndLastAck n1" "nk_SndCurrSeqNo nk = nk_SndCurrSeqNo n1"
    using n1(1) by (simp add: processCtrl_LOSSREPORT_def Let_def)
  have "nak_ready nk S (S + int c - 1) (X \<union> (ivset xs \<inter> {S..}))" using n1(2) nk by (simp add: nak_ready_def)
  then show ?thesis using nak_ready_snd [OF i, of nk] nk n1 by simp
qed

lemma checkRexmitTimer_inv:
  assumes i: "snd_inv s q S c X"
  shows "\<exists>s' X'. checkRexmitTimer e s = Some s' \<and> snd_inv s' q S c X' \<and> (X' = X \<or> X' = {S..<S + int c}) \<and>
    nk_broken (sd_nak s') = nk_broken (sd_nak s) \<and> snd_base s' = snd_base s"
proof -
  note D = snd_invD [OF i]
  define due where "due \<longleftrightarrow> \<not> (se_tk e \<le> u64 (sd_LastRspAckTime s + u64 ((sd_ReXmitCount s * u64 (i32 (sd_RTT s + 4 * sd_RTTVar s + 2 * COMM_SYN_INTERVAL_US)) +
    COMM_SYN_INTERVAL_US) * se_CPUFrequency e))) \<and> \<not> sb_iCount (sd_buffer s) \<le> 0 \<and> \<not> (se_fast_rexmit e \<and> se_PeerNakReport e)"
  define go where "go \<longleftrightarrow> se_late_rexmit e \<and> incseq (sd_SndCurrSeqNo s) \<noteq> sd_SndLastAck s \<and> snd_getLossLength (sd_list s) = 0
    \<or> se_fast_rexmit e \<and> seqoff (sd_SndLastAck s) (incseq (sd_SndCurrSeqNo s)) > 0"
  define fin where "fin s = sd_call (SC_SndUList_update True) (sd_call (SC_updateCC_CHECKTIMER (se_fast_rexmit e)) (sd_call (SC_checkSndTimers False)
    (s\<lparr>sd_ReXmitCount := sd_ReXmitCount s + 1\<rparr>)))" for s :: sender
  have fin: "sd_nak (fin s) = sd_nak s" "sd_buffer (fin s) = sd_buffer s" "sd_SndLastDataAck (fin s) = sd_SndLastDataAck s"
    "sd_FlowWindowSize (fin s) = sd_FlowWindowSize s" for s by (simp_all add: fin_def)
  have r: "checkRexmitTimer e s = (if \<not> due then Some s else do { s \<leftarrow> (if go then do { nk \<leftarrow> nak_insert (sd_nak s) (sd_SndLastAck s) (sd_SndCurrSeqNo s);
      Some (s\<lparr>sd_nak := nk\<rparr>) } else Some s); Some (fin s) })"
  proof (cases due)
    case False
    then show ?thesis unfolding checkRexmitTimer_def Let_def due_def by (simp only: de_Morgan_conj not_not) (elim disjE; simp)
  next
    case True
    then have g: "(se_tk e \<le> u64 (sd_LastRspAckTime s + u64 ((sd_ReXmitCount s * u64 (i32 (sd_RTT s + 4 * sd_RTTVar s + 2 * COMM_SYN_INTERVAL_US)) +
      COMM_SYN_INTERVAL_US) * se_CPUFrequency e))) = False" "(sb_iCount (sd_buffer s) \<le> 0) = False" "(se_fast_rexmit e \<and> se_PeerNakReport e) = False"
      by (simp_all only: due_def simp_thms)
    show ?thesis using True unfolding checkRexmitTimer_def Let_def g if_False go_def [symmetric] fin_def by (simp only: simp_thms if_False if_True)
  qed
  have inc: "incseq (sd_SndCurrSeqNo s) = sq (S + int c)" using D(5) by (simp add: incseq_sq)
  have pos: "0 < c" if go
    using that inc D(4,8,10) by (cases "c = 0") (auto simp: go_def seqoff_sq)
  show ?thesis
  proof (cases "due \<and> go")
    case True
    obtain nk where nk: "nak_insert (sd_nak s) (sq S) (sq (S + int c - 1)) = Some nk" "nak_ready nk S (S + int c - 1) (X \<union> {S..S + int c - 1})"
      "nk_broken nk = nk_broken (sd_nak s)" "sl_size (nk_list nk) = sl_size (sd_list s)"
      using nak_insert_correct [OF snd_nak_ready [OF i], of S "S + int c - 1"] pos True by auto
    have X: "X \<union> {S..S + int c - 1} = {S..<S + int c}" using D(7) by auto
    have "checkRexmitTimer e s = Some (fin (s\<lparr>sd_nak := nk\<rparr>))" using r True nk(1) D(4,5) by simp
    moreover have "snd_inv (fin (s\<lparr>sd_nak := nk\<rparr>)) q S c {S..<S + int c}"
      using nak_ready_snd [OF i nk(2) [unfolded X] nk(4)] fin by simp
    ultimately show ?thesis using nk(3,4) fin(1,2) by auto
  next
    case False
    have "snd_inv (fin s) q S c X = snd_inv s q S c X" by (rule snd_inv_cong) (simp_all add: fin)
    then show ?thesis using r False i fin(1,2) by (cases due) auto
  qed
qed

subsection \<open>A sender at work\<close>

lemma sender_new_inv:
  assumes "0 < mss" "0 < flow" "flow \<le> 134217728" "0 < isn" "isn < 2147483648"
  shows "snd_inv (set_isn e isn (sender_new e mss flow arr)) [] isn 0 {}"
proof -
  have "snd_holds (snd_new (flow * 2) arr) {}" using assms by (intro snd_holds_new) simp_all
  moreover have "sl_size (snd_new (flow * 2) arr) = flow * 2" by (simp add: snd_new_def)
  ultimately show ?thesis
    using sb_new_rep [of 32 mss] assms by (simp add: snd_inv_def set_isn_def sender_new_def sq_def)
qed

lemma addBuffer_inv:
  assumes i: "snd_inv s q S c X" and t: "ttl < 0" and a: "addBuffer data ttl order srctime time (sd_buffer s) = Some (m, b)"
  shows "snd_inv (s\<lparr>sd_buffer := b\<rparr>) (q @ blocks_of data ttl order srctime time (sb_iMSS (sd_buffer s)) (sb_iNextMsgNo (sd_buffer s))) S c X"
proof -
  note D = snd_invD [OF i]
  let ?bs = "blocks_of data ttl order srctime time (sb_iMSS (sd_buffer s)) (sb_iNextMsgNo (sd_buffer s))"
  have m: "0 < sb_iMSS (sd_buffer s)" using D(1) by (auto simp: sb_rep_def sb_chain_def)
  have "plain_block k" if "k \<in> set ?bs" for k
  proof -
    have "bk_iTTL k = ttl" using that by (auto simp: blocks_of_def block_of_def Let_def)
    then show ?thesis using blocks_of_lengths [OF m that] t by (auto simp: plain_block_def)
  qed
  moreover have "sb_rep b (q @ ?bs) c" using addBuffer_blocks [OF D(1), of data ttl order srctime time] a by auto
  ultimately show ?thesis using i by (auto simp: snd_inv_def)
qed

definition calm_snd :: snd_env where
  "calm_snd = \<lparr>se_tk = 1000, se_us = 5000, se_CPUFrequency = 1, se_CongestionWindow = 16, se_Interval_tk = 10, se_RTO = 0,
     se_late_rexmit = True, se_fast_rexmit = False, se_PeerRexmitFlag = True, se_PeerTsbPd = True, se_PeerTLPktDrop = True,
     se_PeerNakReport = True, se_MessageAPI = True, se_startTime = 0, se_PeerID = 7, se_MaxSRTPayloadSize = 1456, se_MinExpInt_tk = 300000,
     se_PeerIdleTimeout = 5000, se_SndDropDelay = 0, se_PeerTsbPdDelay_ms = 120, se_CryptoFlags = Some EK_NOENC, se_encrypt = Some,
     se_filter = None\<rparr>"

text \<open>Three packets of a message, the first under the largest number; and the same with \<open>n\<close> packets sent.\<close>

definition sample_msg :: "int \<Rightarrow> CSndBuffer" where
  "sample_msg ttl = snd (the (addBuffer [1, 2, 3] ttl True 0 700 (sb_new 32 1)))"

definition sample_snd :: sender where
  "sample_snd = (set_isn calm_snd 0x7FFFFFFF (sender_new calm_snd 1 8 (\<lambda>_. 7)))\<lparr>sd_buffer := sample_msg (- 1)\<rparr>"

definition sample_blocks :: "Block list" where
  "sample_blocks = blocks_of [1, 2, 3] (- 1) True 0 700 1 1"

lemma sample_blocks_simps [simp]:
  "length sample_blocks = 3" "bk_data (sample_blocks ! 0) = [1]" "bk_data (sample_blocks ! Suc 0) = [2]"
  by (simp_all add: sample_blocks_def blocks_of_def packets_of_def block_of_def Let_def nth_Cons')

lemma sample_snd_inv: "snd_inv sample_snd sample_blocks 0x7FFFFFFF 0 {}"
proof -
  let ?s = "set_isn calm_snd 0x7FFFFFFF (sender_new calm_snd 1 8 (\<lambda>_. 7))"
  have i: "snd_inv ?s [] 0x7FFFFFFF 0 {}" by (rule sender_new_inv) simp_all
  have b: "sd_buffer ?s = sb_new 32 1" by (simp add: set_isn_def sender_new_def)
  obtain m t where "addBuffer [1, 2, 3] (- 1) True 0 700 (sb_new 32 1) = Some (m, t)"
    using addBuffer_blocks [OF sb_new_rep, of 32 1 "[1, 2, 3]" "- 1" True 0 700] by auto
  then show ?thesis using addBuffer_inv [OF i, of "- 1" "[1, 2, 3]" True 0 700 m t] b
    by (simp add: sample_snd_def sample_msg_def sample_blocks_def sb_new_def)
qed

lemma sample_snd_fields [simp]: "sd_FlowWindowSize sample_snd = 8" "sl_size (sd_list sample_snd) = 16" "nk_broken (sd_nak sample_snd) = False"
  by (simp_all add: sample_snd_def set_isn_def sender_new_def snd_new_def)

definition sample_sent :: sender where
  "sample_sent = sd_set_curr 0 (sample_snd\<lparr>sd_buffer := snd (sb_readData (Some EK_NOENC) (snd (sb_readData (Some EK_NOENC) (sample_msg (- 1)))))\<rparr>)"

lemma sample_sent_inv: "snd_inv sample_sent sample_blocks 0x7FFFFFFF 2 {}"
proof -
  have r: "sb_rep (snd (sb_readData (Some EK_NOENC) b)) sample_blocks (c + 1)" if "sb_rep b sample_blocks c" "c < 3" for b c
    using sb_readData_refines(2) [OF that(1), of "Some EK_NOENC"] that(2) by auto
  have "sb_rep (sample_msg (- 1)) sample_blocks 0" using snd_invD(1) [OF sample_snd_inv] by (simp add: sample_snd_def)
  from r [OF r [OF this]] have "sb_rep (sd_buffer sample_sent) sample_blocks 2" by (simp add: sample_sent_def numeral_2_eq_2)
  then show ?thesis using sample_snd_inv by (simp add: snd_inv_def sample_sent_def sd_defs sq_def)
qed


subsection \<open>The properties\<close>

text \<open>
  C5. \<open>packData\<close> sends the lost packet with the smallest number first, and sends it as it was sent before: the contents
  and the message number of its block, with the retransmission flag. Without losses it sends the next new packet,
  exactly when there is one and both windows leave room, under the next number; the block keeps what was sent.
\<close>

theorem packData_sends:
  assumes i: "snd_inv s q S c X" and f: "se_filter e = None" and ok: "cipher_ok e"
  shows "\<exists>n po ts s'. packData e s = Some (n, po, ts, s') \<and>
    (if X \<noteq> {} then \<exists>p. po = Some p \<and> sent_as p (Min X) (q ! nat (Min X - S)) (if se_PeerRexmitFlag e then PACKET_SND_REXMIT else 0) \<and>
       nat (Min X - S) < c \<and> snd_inv s' q S c (X - {Min X})
     else if c < length q \<and> int c < min (sd_FlowWindowSize s) (se_CongestionWindow e)
     then \<exists>p k. po = Some p \<and> sent_as p (S + int c) k 0 \<and> snd_inv s' (q[c := k]) S (c + 1) {} \<and>
       bk_iLength k = bk_iLength (q ! c) \<and> (se_CryptoFlags e = Some EK_NOENC \<longrightarrow> k = q ! c)
     else po = None \<and> n = 0 \<and> snd_inv s' q S c X)"
proof -
  show ?thesis using packData_spec [OF i f ok] by (elim exE conjE) (intro exI conjI)
qed

theorem packData_sends_witness:
  "\<exists>n p ts s'. packData calm_snd sample_snd = Some (n, Some p, ts, s') \<and> sent_as p 0x7FFFFFFF (sample_blocks ! 0) 0 \<and>
     snd_inv s' sample_blocks 0x7FFFFFFF 1 {}"
proof -
  have e: "se_filter calm_snd = None" "cipher_ok calm_snd" "se_CryptoFlags calm_snd = Some EK_NOENC" "se_CongestionWindow calm_snd = 16"
    by (simp_all add: calm_snd_def cipher_ok_def)
  obtain n po ts s' k p where "packData calm_snd sample_snd = Some (n, po, ts, s')" "po = Some p" "sent_as p 0x7FFFFFFF k 0"
      "snd_inv s' (sample_blocks[0 := k]) 0x7FFFFFFF 1 {}" "k = sample_blocks ! 0"
    using packData_sends [OF sample_snd_inv e(1,2)] e(3,4) by auto
  then show ?thesis by auto
qed

text \<open>
  C6. An acknowledgement of packets that have been sent releases these and no others from the buffer and the loss list,
  whichever kind it is; an old one changes nothing there; neither breaks the connection.
\<close>

theorem processCtrlAck_releases:
  assumes i: "snd_inv s q S c X" and a: "ackdata 0 = sq a" "a \<le> S + int c" "S - a < 268435456"
    and w: "len \<noteq> 4 \<Longrightarrow> 0 \<le> ackdata 3 \<and> ackdata 3 \<le> sl_size (sd_list s)"
  shows "\<exists>s'. processCtrlAck e ackdata len n s = Some s' \<and> nk_broken (sd_nak s') = nk_broken (sd_nak s) \<and>
    (if S \<le> a then snd_inv s' (drop (nat (a - S)) q) a (c - nat (a - S)) {x \<in> X. a \<le> x} else snd_inv s' q S c X)"
  using processCtrlAck_spec [OF i a w] by blast

theorem processCtrlAck_releases_witness:
  "\<exists>s'. processCtrlAck calm_snd (\<lambda>_. 0) 4 0 sample_sent = Some s' \<and> snd_inv s' (drop 1 sample_blocks) 0x80000000 1 {}"
  using processCtrlAck_releases [OF sample_sent_inv, of "\<lambda>_. 0" "0x80000000" 4 calm_snd 0] by (auto simp: sq_def)

end
