(* ===== verification/SenderGaps.thy ===== *)
theory SenderGaps
  imports SenderInv
begin

text \<open>
  What the sending half (\<open>core.cpp\<close>) does not check: acknowledgements of packets that have not been sent, expired
  messages, and a cipher that fails.
\<close>

text \<open>
  C30. A lite acknowledgement of packets that have not been sent yet is accepted: it drops them from the buffer unsent,
  the connection goes on, and \<open>packData\<close> has nothing to send, since the number of the last one sent lies in front of
  the acknowledgement and the flow control takes the distance for a whole turn.
\<close>

theorem lite_ack_unchecked:
  assumes i: "snd_inv s q S c {}" and a: "S + int c + 1 < a" "a \<le> S + int (length q)" "a - S < 268435456"
    and e: "se_filter e = None" "se_CongestionWindow e \<le> 268435456" and d: "ackdata 0 = sq a"
  shows "\<exists>s' s''. processCtrlAck e ackdata 4 n s = Some s' \<and> nk_broken (sd_nak s') = nk_broken (sd_nak s) \<and>
    sb_rep (sd_buffer s') (drop (nat (a - S)) q) 0 \<and> packData e s' = Some (0, None, 0, s'')"
proof -
  note D = snd_invD [OF i]
  have near: "\<bar>a - S\<bar> < 1073741823" using a(1,3) by linarith
  have off: "seqoff (sq S) (sq a) = a - S" "seqcmp (sq a) (sq S) \<ge> 0"
    using near a(1) by (auto simp: seqoff_sq seqcmp_sq not_less [symmetric])
  have w: "\<forall>x\<in>{}. (a - 1) - 536870912 < x \<and> x < (a - 1) + 268435456" "\<forall>x\<in>{}. S \<le> x \<and> x < S + sl_size (sd_list s)" by simp_all
  obtain l where l: "snd_remove (sd_list s) (sq (a - 1)) = Some l" "snd_holds l {}"
    using snd_holds_remove [OF D(6) w] by auto
  have n: "nat (a - S) \<le> length q" using a(1,2) by linarith
  obtain s1 where s1: "updateSndLossListOnACK e (sq a) s = Some s1" "sd_nak s1 = (sd_nak s)\<lparr>nk_list := l\<rparr>"
    "sd_buffer s1 = sb_ackData (se_us e) (nat (a - S)) (sd_buffer s)" "sd_FlowWindowSize s1 = sd_FlowWindowSize s"
    using off(1) a(1) D(3) l(1) by (simp add: updateSndLossListOnACK_def Let_def decseq_sq)
  have rep: "sb_rep (sd_buffer s1) (drop (nat (a - S)) q) 0"
    using sb_ackData_rep [OF D(1) n, of "se_us e"] s1(3) a(1) by simp
  define s' where "s' = process_lite_ack e (sq a) s1"
  have s': "sd_nak s' = (sd_nak s)\<lparr>nk_list := l, nk_SndLastAck := sq a\<rparr>" "sd_buffer s' = sd_buffer s1"
    using s1(2,4) off D(4) by (simp_all add: s'_def process_lite_ack_def)
  have p: "processCtrlAck e ackdata 4 n s = Some s'" using d s1(1) by (simp add: processCtrlAck_def s'_def)
  have inc: "incseq (sd_SndCurrSeqNo s') = sq (S + int c)" using s'(1) D(5) by (simp add: incseq_sq)
  have sl: "seqlen (sq a) (sq (S + int c)) > 268435456"
  proof -
    have "\<bar>(S + int c) - a\<bar> < 1073741823" using near a(1) by linarith
    then have "sq (S + int c) - sq a = (S + int c) - a \<or> sq (S + int c) - sq a = (S + int c) - a + 2147483648"
      using sq_diff_cases [of "S + int c" a] a(1) sq_range(1,2) [of a] sq_range(1,2) [of "S + int c"] by fastforce
    then show ?thesis
    proof
      assume e: "sq (S + int c) - sq a = (S + int c) - a"
      then have "seqlen (sq a) (sq (S + int c)) = i32 ((S + int c) - a + 2147483647 + 2)"
        using a(1) by (simp only: seqlen_def seq_consts) (rule if_not_P [THEN trans], linarith, rule arg_cong [of _ _ i32], linarith)
      then show ?thesis using a by simp
    next
      assume e: "sq (S + int c) - sq a = (S + int c) - a + 2147483648"
      then have "seqlen (sq a) (sq (S + int c)) = i32 ((S + int c) - a + 2147483648 + 1)"
        using a(3) by (simp only: seqlen_def) (rule if_P [THEN trans], linarith, rule arg_cong [of _ _ i32], linarith)
      then show ?thesis using a by simp
    qed
  qed
  have none: "new_packet e t = (None, t)" if "sd_nak t = sd_nak s'" "sd_buffer t = sd_buffer s'" for t
    using that sl s'(1) e(2) inc by (simp add: new_packet_def)
  define td where "td = (if sd_TargetTime s' \<noteq> 0 \<and> se_tk e > sd_TargetTime s' then u64 (sd_TimeDiff s' + (se_tk e - sd_TargetTime s')) else sd_TimeDiff s')"
  let ?t = "s'\<lparr>sd_TimeDiff := td\<rparr>"
  have t: "(if sd_TargetTime s' \<noteq> 0 \<and> se_tk e > sd_TargetTime s' then s'\<lparr>sd_TimeDiff := u64 (sd_TimeDiff s' + (se_tk e - sd_TargetTime s'))\<rparr> else s') = ?t"
    by (simp add: td_def)
  have "packLostData e ?t = Some (None, ?t)"
    using snd_holds_pop(1) [OF l(2)] s'(1) by (simp add: packLostData_def sd_set_list_def)
  then have "choose_packet e ?t = Some (None, ?t)" using none [of ?t] e(1) by (simp add: choose_packet_def)
  then have "packData e s' = Some (0, None, 0, ?t\<lparr>sd_TargetTime := 0, sd_TimeDiff := 0\<rparr>)"
    unfolding packData_def t Let_def by simp
  then show ?thesis using p rep s' by simp
qed

theorem lite_ack_unchecked_witness:
  "\<exists>s' s''. processCtrlAck calm_snd (\<lambda>_. 1) 4 0 sample_snd = Some s' \<and> nk_broken (sd_nak s') = False \<and>
     sb_rep (sd_buffer s') (drop 2 sample_blocks) 0 \<and> packData calm_snd s' = Some (0, None, 0, s'')"
  using lite_ack_unchecked [OF sample_snd_inv, of "0x80000001" calm_snd "\<lambda>_. 1" 0] by (simp add: calm_snd_def sq_def)

lemma skip_message_other:
  assumes "bk_getMsgSeq (sb_blk b p) \<noteq> m"
  shows "skip_message (Suc k) m p False l b = Some (l, b)"
  using assms by simp

lemma sb_size_pos: "sb_rep s q c \<Longrightarrow> \<exists>k. sb_iSize s = Suc k"
  by (auto simp: sb_rep_def sb_chain_def sb_ring_def gr0_conv_Suc [symmetric])

text \<open>
  C31. A lost packet whose message has expired is dropped with a request that names one packet too many, and the current
  number moves two ahead although nothing is skipped in the buffer: the next new packet, which lies \<open>c\<close> places behind the
  last acknowledgement, is sent under the number of place \<open>c + 2\<close>.
\<close>

theorem stale_drop_renumbers:
  assumes r: "sb_rep (sd_buffer s) q c" and c: "0 < c" "c < length q" "int c + 3 \<le> min (sd_FlowWindowSize s) (se_CongestionWindow e)"
      "sl_size (sd_list s) \<le> 268435456" "int c \<le> sl_size (sd_list s)"
    and n: "sd_SndLastDataAck s = sq S" "sd_SndLastAck s = sq S" "sd_SndCurrSeqNo s = sq (S + int c - 1)"
    and h: "snd_holds (sd_list s) {S + int c - 1}"
    and k: "0 \<le> bk_iTTL (q ! (c - 1))" "bk_iTTL (q ! (c - 1)) < u64 (se_us e - bk_ullOriginTime_us (q ! (c - 1))) div 1000"
      "bk_getMsgSeq (q ! c) \<noteq> bk_getMsgSeq (q ! (c - 1))" "plain_block (q ! c)"
    and e: "se_filter e = None" "se_CryptoFlags e = Some EK_NOENC"
  shows "\<exists>n p ts s'. packData e s = Some (n, Some p, ts, s') \<and>
    Ctrl_DROPREQ (bk_getMsgSeq (q ! (c - 1))) (sq (S + int (c - 1))) (sq (S + int c)) \<in> set (sd_sent s') \<and>
    ph_seqno p = word_of_int (sq (S + int (c + 2))) \<and> payload p = bk_data (q ! c)"
proof -
  obtain i where i: "c = Suc i" using c(1) by (cases c) auto
  define td where "td = (if sd_TargetTime s \<noteq> 0 \<and> se_tk e > sd_TargetTime s then u64 (sd_TimeDiff s + (se_tk e - sd_TargetTime s)) else sd_TimeDiff s)"
  let ?t = "s\<lparr>sd_TimeDiff := td\<rparr>" and ?b = "sd_buffer s"
  obtain l where l: "snd_popLostSeq (sd_list s) = Some (sq (S + int i), l)" "snd_holds l {}"
    using snd_holds_pop(2) [OF h] i by auto
  have w: "\<forall>x\<in>{}. (S + int c) - 536870912 < x \<and> x < (S + int c) + 268435456" "\<forall>x\<in>{}. S \<le> x \<and> x < S + sl_size l" by simp_all
  obtain l' where l': "snd_remove l (sq (S + int c)) = Some l'" "snd_holds l' {}"
    using snd_holds_remove [OF l(2) w] by auto
  have len: "nat (snd_getLossLength (sd_list s)) = 1" using snd_holds_length [OF h] by simp
  have off: "seqoff (sq S) (sq (S + int i)) = int i" using c(4,5) i by (simp add: seqoff_sq)
  have blk: "sb_blk ?b ((sb_next ?b ^^ i) (sb_pFirstBlock ?b)) = q ! i" "sb_blk ?b (sb_next ?b ((sb_next ?b ^^ i) (sb_pFirstBlock ?b))) = q ! c"
    using sb_blk_at [OF r, of i] sb_blk_at [OF r, of c] c(2) i by simp_all
  obtain z where z: "sb_iSize ?b = Suc z" using sb_size_pos [OF r] by blast
  have at: "sb_readData_at (se_us e) i ?b = Some (Stale (bk_getMsgSeq (q ! i)) 1, ?b)"
    using k(1-3) i blk unfolding sb_readData_at_def z Let_def by (simp del: skip_message.simps add: skip_message_other)
  define s1 where "s1 = sd_set_curr (sq (S + int c + 1)) (sd_set_list l' (sd_send e (Ctrl_DROPREQ (bk_getMsgSeq (q ! i)) (sq (S + int i)) (sq (S + int c))) (sd_set_list l ?t)))"
  have s1: "sd_list s1 = l'" "sd_buffer s1 = ?b" "sd_SndLastAck s1 = sq S" "sd_SndCurrSeqNo s1 = sq (S + int c + 1)" "sd_FlowWindowSize s1 = sd_FlowWindowSize s"
    "Ctrl_DROPREQ (bk_getMsgSeq (q ! i)) (sq (S + int i)) (sq (S + int c)) \<in> set (sd_sent s1)"
    using n by (simp_all add: s1_def sd_defs)
  have hi: "incseq_by (sq (S + int i)) 1 = sq (S + int c)" "incseq (sq (S + int c)) = sq (S + int c + 1)"
    using i by (simp_all add: incseq_by_sq incseq_sq algebra_simps)
  have cmp: "seqcmp (sq (S + int c - 1)) (sq (S + int c + 1)) < 0" by (simp add: seqcmp_sq)
  have same: "sd_set_list l ?t\<lparr>sd_buffer := ?b\<rparr> = sd_set_list l ?t" by (simp add: sd_set_list_def)
  have emp: "snd_popLostSeq l' = Some (- 1, l')" using snd_holds_pop(1) [OF l'(2)] by simp
  have fin: "pack_lost (Suc 0) e s1 = Some (None, s1)" using emp s1(1) by (simp add: sd_set_list_def s1_def sd_defs)
  have "packLostData e ?t = Some (None, s1)"
  proof -
    have "packLostData e ?t = pack_lost (Suc (Suc 0)) e ?t" using len by (simp add: packLostData_def)
    also have "\<dots> = pack_lost (Suc 0) e s1"
      using l(1) n(1,3) off at l'(1) hi cmp sq_range(1) [of "S + int i"] unfolding pack_lost.simps(2) [of "Suc 0"]
      by (simp del: pack_lost.simps add: same s1_def sd_defs)
    finally show ?thesis using fin by simp
  qed
  then have ch: "choose_packet e ?t = Some (new_packet e s1)" using e(1) by (simp add: choose_packet_def)
  have rd: "\<exists>t b. sb_readData (Some EK_NOENC) ?b = (Some (bk_data (q ! c), bk_iMsgNoBitset (q ! c), t), b)"
    using sb_readData_refines(2) [OF r c(2), of "Some EK_NOENC"] k(4) by (fastforce simp: plain_block_def)
  then obtain tm b where rd: "sb_readData (Some EK_NOENC) ?b = (Some (bk_data (q ! c), bk_iMsgNoBitset (q ! c), tm), b)" by blast
  have inc: "incseq (sq (S + int c + 1)) = sq (S + int c + 2)" by (simp add: incseq_sq algebra_simps)
  have sl: "seqlen (sq S) (sq (S + int c + 2)) = int c + 3" using c(4,5) by (simp add: seqlen_sq)
  let ?c = "\<lparr>ch_packet = data_packet (sq (S + int c + 2)) (bk_data (q ! c)) (bk_iMsgNoBitset (q ! c)), ch_origintime = tm, ch_kflg = EK_NOENC,
    ch_new = True, ch_filter_ctl = False\<rparr>"
  have np: "new_packet e s1 = (Some ?c, sd_set_curr (sq (S + int c + 2)) (s1\<lparr>sd_buffer := b\<rparr>))"
    using s1 inc sl c(3) e(2) rd k(4) by (simp add: new_packet_def Let_def plain_block_def)
  define s2 where "s2 = sd_set_curr (sq (S + int c + 2)) (s1\<lparr>sd_buffer := b\<rparr>)"
  have t: "(if sd_TargetTime s \<noteq> 0 \<and> se_tk e > sd_TargetTime s then s\<lparr>sd_TimeDiff := u64 (sd_TimeDiff s + (se_tk e - sd_TargetTime s))\<rparr> else s) = ?t"
    by (simp add: td_def)
  have pd: "packData e s = Some (int (getLength (stamp e ?c)), Some (stamp e ?c), fst (packet_sent e ?c (stamp e ?c) s2), snd (packet_sent e ?c (stamp e ?c) s2))"
    using ch np unfolding packData_def t Let_def by (simp add: s2_def case_prod_beta)
  have "sd_sent (snd (packet_sent e ?c (stamp e ?c) s2)) = sd_sent s1"
    by (simp add: packet_sent_def next_time_def Let_def s2_def sd_defs)
  moreover obtain ts s' where "packet_sent e ?c (stamp e ?c) s2 = (ts, s')" by fastforce
  ultimately show ?thesis using pd s1(6) i by (auto simp: algebra_simps)
qed

text \<open>A packet that has expired in front of one that does not expire.\<close>

definition stale_blocks :: "Block list" where
  "stale_blocks =
     [\<lparr>bk_data = [1], bk_iLength = 1, bk_iMsgNoBitset = 1, bk_ullOriginTime_us = 700, bk_ullSourceTime_us = 0, bk_iTTL = 0\<rparr>,
      \<lparr>bk_data = [2], bk_iLength = 1, bk_iMsgNoBitset = 2, bk_ullOriginTime_us = 700, bk_ullSourceTime_us = 0, bk_iTTL = - 1\<rparr>]"

definition stale_buffer :: CSndBuffer where
  "stale_buffer = (sb_new 4 1)\<lparr>sb_blk := (\<lambda>i. if i < 2 then stale_blocks ! i else blank_block), sb_pCurrBlock := 1, sb_pLastBlock := 2,
     sb_iCount := 2, sb_iBytesCount := 2\<rparr>"

lemma stale_buffer_rep: "sb_rep stale_buffer stale_blocks 1"
  unfolding sb_rep_def sb_chain_def sb_ring_def
proof (intro conjI exI [of _ "[0 ..< 4]"])
  show "\<forall>i<length stale_blocks. sb_blk stale_buffer ([0 ..< 4] ! i) = stale_blocks ! i"
    by (simp add: stale_blocks_def stale_buffer_def)
qed (simp_all add: stale_buffer_def stale_blocks_def sb_new_def)

definition stale_snd :: "CSndLossList \<Rightarrow> sender" where
  "stale_snd l = sd_set_curr 5 (sd_set_list l ((set_isn calm_snd 5 (sender_new calm_snd 1 8 (\<lambda>_. 7)))\<lparr>sd_buffer := stale_buffer\<rparr>))"

theorem stale_drop_renumbers_witness:
  "\<exists>l n p ts s'. snd_insert (snd_new 16 (\<lambda>_. 7)) 5 5 = Some (1, l) \<and> packData calm_snd (stale_snd l) = Some (n, Some p, ts, s') \<and>
     Ctrl_DROPREQ 1 5 6 \<in> set (sd_sent s') \<and> ph_seqno p = 8 \<and> payload p = [2]"
proof -
  have sq: "sq 5 = 5" "sq (5 + int 1) = 6" "sq (5 + int (1 + 2)) = 8" "sq (5 + int (1 - 1)) = 5" "sq (5 + int 1 - 1) = 5" by (simp_all add: sq_def)
  have size: "sl_size (snd_new 16 (\<lambda>_. 7)) = 16" by (simp add: snd_new_def)
  obtain l where l: "snd_insert (snd_new 16 (\<lambda>_. 7)) 5 5 = Some (1, l)" "snd_holds l {5}" "sl_size l = 16"
    using snd_holds_insert [OF snd_holds_new, of 16 5 5 5 "\<lambda>_. 7"] size sq by auto
  have mask: "1 AND MSGNO_SEQ_mask = 1" "2 AND MSGNO_SEQ_mask = 2" by code_simp+
  have m: "bk_getMsgSeq (stale_blocks ! 0) = 1" "bk_getMsgSeq (stale_blocks ! 1) = 2" "bk_data (stale_blocks ! 1) = [2]"
    by (simp_all add: stale_blocks_def bk_getMsgSeq_def mask)
  have f: "sb_rep (sd_buffer (stale_snd l)) stale_blocks 1" "sd_SndLastDataAck (stale_snd l) = 5" "sd_SndLastAck (stale_snd l) = 5"
    "sd_SndCurrSeqNo (stale_snd l) = 5" "sd_list (stale_snd l) = l" "sd_FlowWindowSize (stale_snd l) = 8"
    using stale_buffer_rep by (simp_all add: stale_snd_def set_isn_def sender_new_def sd_defs)
  have "\<exists>n p ts s'. packData calm_snd (stale_snd l) = Some (n, Some p, ts, s') \<and> Ctrl_DROPREQ 1 5 6 \<in> set (sd_sent s') \<and>
      ph_seqno p = word_of_int 8 \<and> payload p = [2]"
    using stale_drop_renumbers [OF f(1), of calm_snd 5] f(2-6) l(2,3) m unfolding sq
    by (simp add: calm_snd_def stale_blocks_def plain_block_def)
  then show ?thesis using l(1) by auto
qed

text \<open>
  C32. When the cipher fails, the packet is not sent, but its number is used up and its block carries the bits of the key:
  the retransmission that the gap leads to sends the contents in clear, marked as encrypted.
\<close>

theorem encrypt_failure_resends_clear:
  assumes i: "snd_inv s q S c {}" and c: "c < length q" "int c < min (sd_FlowWindowSize s) (se_CongestionWindow e)" "int c < sl_size (sd_list s)"
    and e: "se_filter e = None" "se_CryptoFlags e = Some kf" "kf \<noteq> EK_NOENC" "se_encrypt e = (\<lambda>_. None)"
  shows "\<exists>s1 nk n p ts s2. packData e s = Some (- 1, None, 0, s1) \<and>
    processCtrl_LOSSREPORT [sq (S + int c)] (sd_nak s1) = Some nk \<and> packData e (s1\<lparr>sd_nak := nk\<rparr>) = Some (n, Some p, ts, s2) \<and>
    payload p = bk_data (q ! c) \<and> ph_seqno p = word_of_int (sq (S + int c)) \<and>
    ph_msgno p = bk_iMsgNoBitset (q ! c) OR EncryptionKeyBits kf OR (if se_PeerRexmitFlag e then PACKET_SND_REXMIT else 0)"
proof -
  define td where "td = (if sd_TargetTime s \<noteq> 0 \<and> se_tk e > sd_TargetTime s then u64 (sd_TimeDiff s + (se_tk e - sd_TargetTime s)) else sd_TimeDiff s)"
  let ?t = "s\<lparr>sd_TimeDiff := td\<rparr>" and ?k = "keyed kf (q ! c)"
  have t: "(if sd_TargetTime s \<noteq> 0 \<and> se_tk e > sd_TargetTime s then s\<lparr>sd_TimeDiff := u64 (sd_TimeDiff s + (se_tk e - sd_TargetTime s))\<rparr> else s) = ?t"
    by (simp add: td_def)
  have "snd_inv ?t q S c {} = snd_inv s q S c {}" by (rule snd_inv_cong) simp_all
  with i have i': "snd_inv ?t q S c {}" by simp
  obtain tm s1 where n: "new_packet e ?t = (Some \<lparr>ch_packet = data_packet (sq (S + int c)) (bk_data (q ! c)) (bk_iMsgNoBitset ?k),
      ch_origintime = tm, ch_kflg = kf, ch_new = True, ch_filter_ctl = False\<rparr>, s1)" "snd_inv s1 (q[c := ?k]) S (c + 1) {}"
    using new_packet_spec(2) [OF i' e(2)] c by auto
  have "choose_packet e ?t = Some (new_packet e ?t)" using packLostData_none [OF i'] e(1) by (simp add: choose_packet_def)
  then have p1: "packData e s = Some (- 1, None, 0, s1)" using n(1) e(3,4) unfolding packData_def t Let_def by simp
  obtain nk where nk: "processCtrl_LOSSREPORT (nak_enc [(S + int c, S + int c)]) (sd_nak s1) = Some nk"
    "snd_inv (s1\<lparr>sd_nak := nk\<rparr>) (q[c := ?k]) S (c + 1) ({} \<union> (ivset [(S + int c, S + int c)] \<inter> {S..}))"
    using loss_report_inv [OF n(2), of "[(S + int c, S + int c)]"] by auto
  have x: "{} \<union> (ivset [(S + int c, S + int c)] \<inter> {S..}) = {S + int c}" by auto
  obtain m p ts s2 where r: "packData e (s1\<lparr>sd_nak := nk\<rparr>) = Some (m, Some p, ts, s2)"
    "sent_as p (S + int c) (q[c := ?k] ! c) (if se_PeerRexmitFlag e then PACKET_SND_REXMIT else 0)"
    using packData_rexmit [OF nk(2) [unfolded x], of e] by auto
  have "nak_enc [(S + int c, S + int c)] = [sq (S + int c)]" by simp
  then show ?thesis using p1 nk(1) r c(1) by (auto simp: sent_as_def keyed_def or.assoc)
qed

theorem encrypt_failure_resends_clear_witness:
  "\<exists>s1 nk n p ts s2. packData (calm_snd\<lparr>se_CryptoFlags := Some EK_EVEN, se_encrypt := (\<lambda>_. None)\<rparr>) sample_snd = Some (- 1, None, 0, s1) \<and>
     processCtrl_LOSSREPORT [0x7FFFFFFF] (sd_nak s1) = Some nk \<and>
     packData (calm_snd\<lparr>se_CryptoFlags := Some EK_EVEN, se_encrypt := (\<lambda>_. None)\<rparr>) (s1\<lparr>sd_nak := nk\<rparr>) = Some (n, Some p, ts, s2) \<and> payload p = [1]"
proof -
  let ?e = "calm_snd\<lparr>se_CryptoFlags := Some EK_EVEN, se_encrypt := (\<lambda>_. None)\<rparr>"
  have e: "se_filter ?e = None" "se_CryptoFlags ?e = Some EK_EVEN" "EK_EVEN \<noteq> EK_NOENC" "se_encrypt ?e = (\<lambda>_. None)"
    "int 0 < min (sd_FlowWindowSize sample_snd) (se_CongestionWindow ?e)" by (simp_all add: calm_snd_def)
  have s: "sq (0x7FFFFFFF + int 0) = 0x7FFFFFFF" by (simp add: sq_def)
  show ?thesis using encrypt_failure_resends_clear [OF sample_snd_inv _ e(5) _ e(1-4), unfolded s] by auto
qed

end
