(* ===== verification/ReceiverStream.thy ===== *)
theory ReceiverStream
  imports ReceiverInv
begin

text \<open>
  What the handlers of the receiver leave alone, and the receiver as a source of bytes: reading, the acknowledgement
  timer and the answers to acknowledgements. With it the receiver can be put behind a network.
\<close>

subsection \<open>Fields that processData does not touch\<close>

definition rb_fixed :: "CRcvBuffer \<Rightarrow> nat \<times> bool \<times> nat \<times> nat" where
  "rb_fixed b = (rb_iNotch b, tp_bTsbPdMode (rb_tsbpd b), rb_size b, length (uq_unit (rb_pool b)))"

definition rv_fixed :: "receiver \<Rightarrow> (nat \<times> bool \<times> nat \<times> nat) \<times> int" where
  "rv_fixed r = (rb_fixed (rv_buffer r), rv_LastAck r)"

lemma addData_fixed: "addData u off b = (rc, b') \<Longrightarrow> rb_fixed b' = rb_fixed b"
  by (auto simp: rb_fixed_def addData_def Let_def countBytes_def makeUnitGood_def set_flag_of_def split: if_splits)

lemma getPktTsbPdTime_mode: "tp_bTsbPdMode (snd (getPktTsbPdTime t p)) = tp_bTsbPdMode p"
  by (simp add: getPktTsbPdTime_def getTsbPdTimeBase_def Let_def case_prod_beta)

lemma decrypt_unit_fixed: "decrypt_unit e sz u r = (ok, r') \<Longrightarrow> rv_fixed r' = rv_fixed r"
  by (auto simp: rv_fixed_def rb_fixed_def decrypt_unit_def Let_def case_prod_beta unit_receive_def rv_count_def split: if_splits)

lemma detect_loss_fixed: "rv_fixed (snd (detect_loss e ttl q x)) = rv_fixed (snd x)"
  by (cases x) (simp add: rv_fixed_def detect_loss_def Let_def)

lemma advance_seq_fixed: "advance_seq e io p x = Some y \<Longrightarrow> rv_fixed (snd y) = rv_fixed (snd x)"
  by (cases x) (auto simp: rv_fixed_def advance_seq_def Let_def bind_eq_Some_conv split: if_splits)

lemma rv_fixed_buffer: "rv_fixed (r\<lparr>rv_buffer := b\<rparr>) = (rb_fixed b, rv_LastAck r)"
  by (simp add: rv_fixed_def)

lemma receive_unit_fixed:
  assumes "receive_unit e ttl io sz u (ps, r) = Some (go, ps', r')"
  shows "rv_fixed r' = rv_fixed r"
proof -
  let ?off = "seqoff (rv_LastSkipAck r) (m_iSeqNo (rv_packet u r))"
  consider (old) "?off < 0" | (far) "\<not> ?off < 0" "?off \<ge> getAvailBufSize (rv_buffer r)" | (near) "\<not> ?off < 0" "\<not> ?off \<ge> getAvailBufSize (rv_buffer r)"
    by blast
  then show ?thesis
  proof cases
    case old
    then show ?thesis using assms by (auto simp: receive_unit_def Let_def rv_fixed_def rb_fixed_def rv_count_def getPktTsbPdTime_mode)
  next
    case far
    then show ?thesis using assms by (auto simp: receive_unit_def Let_def rv_fixed_def processClose_def rv_send_def)
  next
    case near
    obtain rc b where a: "addData u (nat ?off) (rv_buffer r) = (rc, b)" by fastforce
    have f1: "rv_fixed (r\<lparr>rv_buffer := b\<rparr>) = rv_fixed r" using addData_fixed [OF a] by (simp add: rv_fixed_def)
    show ?thesis
    proof (cases "rc < 0")
      case True
      then show ?thesis using assms near a f1 by (auto simp: receive_unit_def Let_def dest!: advance_seq_fixed)
    next
      case False
      obtain ok r2 where d: "decrypt_unit e sz u (r\<lparr>rv_buffer := b\<rparr>) = (ok, r2)" by fastforce
      note f2 = decrypt_unit_fixed [OF d]
      define dl where "dl = (if ok then detect_loss e ttl (m_iSeqNo (rv_packet u r2)) (ps\<lparr>ps_excessive := False\<rparr>, r2) else (ps\<lparr>ps_excessive := False\<rparr>, r2))"
      obtain ps2 r3 where dl': "dl = (ps2, r3)" by fastforce
      have f3: "rv_fixed r3 = rv_fixed r2" using dl' detect_loss_fixed [of e ttl "m_iSeqNo (rv_packet u r2)" "(ps\<lparr>ps_excessive := False\<rparr>, r2)"]
        by (simp add: dl_def split: if_splits)
      have "map_option (\<lambda>x. (True, x)) (advance_seq e io (rv_packet u r3) (ps2, r3)) = Some (go, ps', r')"
        using assms near a False d dl' unfolding dl_def [symmetric] by (simp add: receive_unit_def Let_def dl_def)
      then have "advance_seq e io (rv_packet u r3) (ps2, r3) = Some (ps', r')" by auto
      then show ?thesis using f1 f2 f3 advance_seq_fixed by fastforce
    qed
  qed
qed

lemma sendCtrl_LOSSREPORT_fixed: "sendCtrl_LOSSREPORT e (Some d) r = Some r' \<Longrightarrow> rv_fixed r' = rv_fixed r"
  using sendCtrl_LOSSREPORT_some [of e d r] by (auto simp: rv_fixed_def)

lemma report_losses_fixed: "report_losses e ls r = Some r' \<Longrightarrow> rv_fixed r' = rv_fixed r"
  using report_losses_some [of e ls r] by (auto simp: rv_fixed_def)

lemma lists_fixed [simp]: "rv_fixed (r\<lparr>rv_lists := l\<rparr>) = rv_fixed r"
  by (simp add: rv_fixed_def)

lemma after_units_fixed:
  assumes "after_units e ttl fl ps r = Some r'"
  shows "rv_fixed r' = rv_fixed r"
proof -
  let ?m1 = "if ps_losses ps \<noteq> [] then do {
        l \<leftarrow> insert_losses (ps_losses ps) (rc_loss (rv_lists r));
        let r = r\<lparr>rv_lists := (rv_lists r)\<lparr>rc_loss := l\<rparr>\<rparr>;
        if \<not> ps_prevent ps \<and> (ev_filter e = None \<or> rv_PktFilterRexmitAlways r) then report_losses e (ps_losses ps) r else Some r
      } else Some r"
  obtain r1 where r1: "?m1 = Some r1" using assms unfolding after_units_def by (cases ?m1) simp_all
  obtain r2 where r2: "report_losses e fl r1 = Some r2" using report_losses_some by blast
  obtain ld fr where f: "fresh_expire ttl (rc_fresh (rv_lists r2)) = (ld, fr)" by fastforce
  let ?r3 = "r2\<lparr>rv_lists := (rv_lists r2)\<lparr>rc_fresh := fr\<rparr>\<rparr>"
  obtain r4 where r4: "(if ld \<noteq> [] then sendCtrl_LOSSREPORT e (Some ld) ?r3 else Some ?r3) = Some r4"
    using sendCtrl_LOSSREPORT_some [of e ld ?r3] by (cases "ld \<noteq> []") auto
  have "r' = r4\<lparr>rv_lists := ordered_delivery (ps_in_order ps) (rv_lists r4)\<rparr>"
    using assms unfolding after_units_def Let_def r1 [unfolded Let_def] Option.bind.bind_lunit r2 f prod.case r4 by simp
  moreover have "rv_fixed r1 = rv_fixed r"
  proof (cases "ps_losses ps = []")
    case False
    then obtain l where "insert_losses (ps_losses ps) (rc_loss (rv_lists r)) = Some l"
      using r1 by (cases "insert_losses (ps_losses ps) (rc_loss (rv_lists r))") simp_all
    then show ?thesis using False r1 report_losses_fixed [of e "ps_losses ps"] by (auto simp: Let_def split: if_splits)
  qed (use r1 in simp)
  moreover have "rv_fixed r4 = rv_fixed ?r3"
    using r4 sendCtrl_LOSSREPORT_fixed [of e ld ?r3 r4] by (cases "ld \<noteq> []") simp_all
  ultimately show ?thesis using report_losses_fixed [OF r2] by simp
qed

lemma processData_fixed:
  assumes "processData e u r = Some (rc, r')" "ev_filter e = None"
  shows "rv_fixed r' = rv_fixed r"
proof -
  obtain io where P: "processData e u r = do {
    (go, ps, r') \<leftarrow> receive_unit e (unit_ttl r) io (int (getLength (rv_packet u r))) u (pass0, arrived e u r);
    if \<not> go then Some (- 1, r')
    else (let r' = (if \<not> seqcmp (m_iSeqNo (rv_packet u r)) (rv_LastSkipAck r) < 0 \<and> ps_in_order ps \<and> ev_needsQuickACK e (rv_packet u r')
            then r'\<lparr>rv_NextACKTime := ev_tk e\<rparr> else r')
      in if ps_excessive ps \<or> rv_Closing r' then Some (- 1, r')
         else map_option (\<lambda>r. (0, r)) (after_units e (unit_ttl r) [] ps r'))}"
    by (rule processData_one [OF assms(2)])
  let ?m = "receive_unit e (unit_ttl r) io (int (getLength (rv_packet u r))) u (pass0, arrived e u r)"
  obtain go ps r1 where m: "?m = Some (go, ps, r1)" using assms(1) unfolding P by (cases ?m) auto
  have f1: "rv_fixed r1 = rv_fixed r" using receive_unit_fixed [OF m] by (simp add: rv_fixed_def)
  define r2 where "r2 = (if \<not> seqcmp (m_iSeqNo (rv_packet u r)) (rv_LastSkipAck r) < 0 \<and> ps_in_order ps \<and> ev_needsQuickACK e (rv_packet u r1)
            then r1\<lparr>rv_NextACKTime := ev_tk e\<rparr> else r1)"
  have f2: "rv_fixed r2 = rv_fixed r1" by (simp add: r2_def rv_fixed_def)
  show ?thesis
  proof (cases go)
    case False
    then show ?thesis using assms(1) P m f1 by simp
  next
    case True
    then have Q: "(if ps_excessive ps \<or> rv_Closing r2 then Some (- 1, r2) else map_option (\<lambda>r. (0, r)) (after_units e (unit_ttl r) [] ps r2)) = Some (rc, r')"
      using assms(1) unfolding P m Option.bind.bind_lunit prod.case Let_def r2_def [symmetric] by simp
    then show ?thesis using f1 f2 after_units_fixed [of e "unit_ttl r" "[]" ps r2] by (auto split: if_splits)
  qed
qed

subsection \<open>A packet comes into a free unit\<close>

definition received_into :: "nat \<Rightarrow> CPacket \<Rightarrow> receiver \<Rightarrow> receiver" where
  "received_into u p r = r\<lparr>rv_buffer := (rv_buffer r)\<lparr>rb_pool := unit_receive u p (rb_pool (rv_buffer r))\<rparr>\<rparr>"

lemma free_unit_slots:
  fixes p :: CPacket
  assumes i: "rb_inv b" and u: "u < length (uq_unit (rb_pool b))" "\<not> uq_busy (rb_pool b) u"
  defines "c \<equiv> b\<lparr>rb_pool := unit_receive u p (rb_pool b)\<rparr>"
  shows "rb_inv c" "rb_acked c = rb_acked b" "rb_pending c = rb_pending b" "\<not> uq_busy (rb_pool c) u" "rb_fixed c = rb_fixed b"
proof -
  note D = rb_invD [OF i]
  have un: "uq_unit (rb_pool c) = (uq_unit (rb_pool b))[u := (uq_unit (rb_pool b) ! u)\<lparr>un_Packet := p\<rparr>]"
    by (simp add: c_def unit_receive_def)
  have f: "uq_busy (rb_pool c) v = uq_busy (rb_pool b) v" for v
    using u by (simp add: uq_busy_def un nth_list_update)
  have g: "ring c = ring b" "getRcvDataSize c = getRcvDataSize b" "rb_iMaxPos c = rb_iMaxPos b" "rb_size c = rb_size b"
    by (simp_all add: c_def ring_def getRcvDataSize_def)
  have "uq_inv (rb_pool c)" using uq_inv_unit_receive [OF D(5) u(1)] by (simp add: c_def)
  then show "rb_inv c" using i un f unfolding rb_inv_def g by (simp add: c_def)
  have "slots c = slots b"
  proof (rule nth_equalityI)
    fix j assume "j < length (slots c)"
    then have j: "j < rb_size b" by (simp add: g)
    have "ring b ! j \<noteq> Some u" using D(6) [of j u] j u by blast
    then show "slots c ! j = slots b ! j" using j g by (cases "ring b ! j") (auto simp: slots_def un nth_list_update)
  qed (simp add: g)
  then show "rb_acked c = rb_acked b" "rb_pending c = rb_pending b" using g by (simp_all add: rb_acked_def rb_pending_def)
  show "\<not> uq_busy (rb_pool c) u" using f u(2) by simp
  show "rb_fixed c = rb_fixed b" by (simp add: c_def rb_fixed_def unit_receive_def)
qed

lemma received_into_inv:
  assumes i: "rcv_inv r A C X" and u: "u < length (uq_unit (rb_pool (rv_buffer r)))" "\<not> uq_busy (rb_pool (rv_buffer r)) u"
  shows "rcv_inv (received_into u p r) A C X" "rb_acked (rv_buffer (received_into u p r)) = rb_acked (rv_buffer r)"
    "rb_pending (rv_buffer (received_into u p r)) = rb_pending (rv_buffer r)" "rv_fixed (received_into u p r) = rv_fixed r"
    "rv_packet u (received_into u p r) = p" "u < length (uq_unit (rb_pool (rv_buffer (received_into u p r))))"
    "\<not> uq_busy (rb_pool (rv_buffer (received_into u p r))) u" "rv_Closing (received_into u p r) = rv_Closing r"
proof -
  note F = free_unit_slots [OF rcv_invD(1) [OF i] u, where p = p]
  show "rcv_inv (received_into u p r) A C X"
    using F rcv_invD(2,3,4) [OF i] by (intro rcv_inv_same [OF i]) (simp_all add: received_into_def)
qed (use free_unit_slots [OF rcv_invD(1) [OF i] u, where p = p] u(1) in
    \<open>simp_all add: received_into_def rv_fixed_def unit_receive_def\<close>)

subsection \<open>The acknowledgement timer\<close>

definition full_ack_of :: "receiver \<Rightarrow> ctrl \<Rightarrow> bool" where
  "full_ack_of r m \<longleftrightarrow> (\<exists>n d. m = Ctrl_ACK n d \<and> 4 \<le> length d \<and> d ! 0 = rv_LastAck r \<and> d ! 3 = max 2 (getAvailBufSize (rv_buffer r)))"

lemma ack_data_words: "4 \<le> length (ack_data e full r) \<and> ack_data e full r ! 0 = rv_LastAck r \<and> ack_data e full r ! 3 = max 2 (getAvailBufSize (rv_buffer r))"
  by (simp add: ack_data_def Let_def case_prod_beta nth_append)

lemma send_full_ack_msgs:
  "\<exists>ms. rv_sent (send_full_ack e s) = rv_sent s @ ms \<and> (\<forall>m\<in>set ms. full_ack_of (send_full_ack e s) m) \<and> length ms \<le> 1"
proof (cases "seqcmp (rv_LastAck s) (rv_LastAckAck s) > 0")
  case True
  define t where "t = s\<lparr>rv_AckSeqNo := incack (rv_AckSeqNo s)\<rparr>"
  define full where "full \<longleftrightarrow> u64 (ev_tk e - rv_LastAckTime t) > ev_ACKInt e"
  have "rv_sent (send_full_ack e s) = rv_sent s @ [Ctrl_ACK (rv_AckSeqNo t) (ack_data e full t)]"
    "rv_LastAck (send_full_ack e s) = rv_LastAck t" "rv_buffer (send_full_ack e s) = rv_buffer t"
    using True by (simp_all add: send_full_ack_def Let_def t_def full_def)
  then show ?thesis using ack_data_words [of e full t] by (intro exI [of _ "[Ctrl_ACK (rv_AckSeqNo t) (ack_data e full t)]"]) (simp add: full_ack_of_def)
qed (simp add: send_full_ack_def)

lemma rb_ackData_fixed: "rb_fixed (rb_ackData n b) = rb_fixed b"
  by (simp add: rb_fixed_def rb_ackData_def advance_ack_def Let_def)

text \<open>What a full acknowledgement does: nothing, the same again, or it moves on to \<open>ack\<close>.\<close>

lemma sendCtrl_ACK_shape:
  assumes "sendCtrl_ACK e False r = Some r'"
  shows "r' = r \<or> (\<exists>s. r' = send_full_ack e s \<and> rv_sent s = rv_sent r \<and> rb_fixed (rv_buffer s) = rb_fixed (rv_buffer r))"
proof -
  let ?m = "if rcv_getLossLength (rc_loss (rv_lists r)) = 0 then Some (incseq (rv_RcvCurrSeqNo r)) else rcv_getFirstLostSeq (rc_loss (rv_lists r))"
  obtain ack where m: "?m = Some ack" using assms unfolding sendCtrl_ACK_def by (cases ?m) simp_all
  define s where "s = (let r1 = r\<lparr>rv_LastAck := ack, rv_LastSkipAck := ack\<rparr>; n = seqoff (rv_LastSkipAck r) ack
    in if n > 0 then r1\<lparr>rv_buffer := rb_ackData (nat n) (rv_buffer r1)\<rparr> else r1)"
  have s: "rv_sent s = rv_sent r" "rb_fixed (rv_buffer s) = rb_fixed (rv_buffer r)" by (simp_all add: s_def Let_def rb_ackData_fixed)
  note A = assms [unfolded sendCtrl_ACK_def m Option.bind.bind_lunit if_False]
  show ?thesis
  proof (cases "rv_LastAckAck r = ack")
    case True
    then show ?thesis using A by simp
  next
    case a: False
    show ?thesis
    proof (cases "seqcmp ack (rv_LastAck r) > 0")
      case True
      then have "r' = send_full_ack e s" using A a by (simp add: s_def Let_def)
      then show ?thesis using s by blast
    next
      case False
      then have "r' = r \<or> r' = send_full_ack e r" using A a by (simp split: if_splits)
      then show ?thesis by blast
    qed
  qed
qed

lemma sendCtrl_ACK_msgs:
  assumes "sendCtrl_ACK e False r = Some r'"
  shows "\<exists>ms. rv_sent r' = rv_sent r @ ms \<and> (\<forall>m\<in>set ms. full_ack_of r' m)"
proof -
  have "r' = r \<or> (\<exists>s. r' = send_full_ack e s \<and> rv_sent s = rv_sent r)"
    using sendCtrl_ACK_shape [OF assms] by blast
  then show ?thesis
  proof
    assume "\<exists>s. r' = send_full_ack e s \<and> rv_sent s = rv_sent r"
    then obtain s where s: "r' = send_full_ack e s" "rv_sent s = rv_sent r" by blast
    show ?thesis using send_full_ack_msgs [of e s] unfolding s by blast
  qed simp
qed

lemma sendCtrl_lite:
  assumes i: "rcv_inv r A C X"
  shows "\<exists>r' ms. sendCtrl_ACK e True r = Some r' \<and> rv_sent r' = rv_sent r @ ms \<and> set ms \<subseteq> {Ctrl_LITE_ACK (sq (first_missing C X))} \<and>
    rv_buffer r' = rv_buffer r \<and> rv_lists r' = rv_lists r \<and> rv_LastSkipAck r' = rv_LastSkipAck r \<and> rv_LastAck r' = rv_LastAck r"
  using sendCtrl_ACK_target [OF i] by (auto simp: sendCtrl_ACK_def)

lemma sendCtrl_ACK_fixed: "sendCtrl_ACK e False r = Some r' \<Longrightarrow> rb_fixed (rv_buffer r') = rb_fixed (rv_buffer r)"
  using sendCtrl_ACK_shape [of e r r'] by (auto simp: send_full_ack_fields)

lemma checkACKTimer_spec:
  assumes i: "rcv_inv r A C X" and l: "rv_LastAck r = sq A" and m: "rv_LastAckAck r = sq M" "M \<le> A" "A - M < 268435456"
  shows "\<exists>r' A' ms. checkACKTimer e r = Some r' \<and> (A' = A \<or> A' = first_missing C X) \<and> A \<le> A' \<and> rcv_inv r' A' C X \<and> rv_LastAck r' = sq A' \<and>
    rb_acked (rv_buffer r') = rb_acked (rv_buffer r) @ take (nat (A' - A)) (rb_pending (rv_buffer r)) \<and>
    rb_pending (rv_buffer r') = drop (nat (A' - A)) (rb_pending (rv_buffer r)) \<and> rb_fixed (rv_buffer r') = rb_fixed (rv_buffer r) \<and>
    (\<forall>p. A \<le> p \<longrightarrow> p < A' \<longrightarrow> filled (rv_buffer r) (nat (p - A))) \<and>
    rv_sent r' = rv_sent r @ ms \<and> (\<forall>m\<in>set ms. full_ack_of r' m \<or> m = Ctrl_LITE_ACK (sq (first_missing C X)))"
proof -
  let ?F = "first_missing C X"
  consider (full) "ev_tk e > rv_NextACKTime r \<or> (ev_ACKMaxPackets e > 0 \<and> rv_PktCount r \<ge> ev_ACKMaxPackets e)"
    | (lite) "\<not> (ev_tk e > rv_NextACKTime r \<or> (ev_ACKMaxPackets e > 0 \<and> rv_PktCount r \<ge> ev_ACKMaxPackets e))" "rv_PktCount r \<ge> SELF_CLOCK_INTERVAL * rv_LightACKCount r"
    | (none) "\<not> (ev_tk e > rv_NextACKTime r \<or> (ev_ACKMaxPackets e > 0 \<and> rv_PktCount r \<ge> ev_ACKMaxPackets e))" "\<not> rv_PktCount r \<ge> SELF_CLOCK_INTERVAL * rv_LightACKCount r"
    by blast
  then show ?thesis
  proof cases
    case full
    obtain r1 where r1: "sendCtrl_ACK e False r = Some r1" "\<forall>p. A \<le> p \<longrightarrow> p < ?F \<longrightarrow> filled (rv_buffer r) (nat (p - A))"
      "if A < ?F then rcv_inv r1 ?F C X \<and> rv_LastAck r1 = sq ?F \<and>
        rb_acked (rv_buffer r1) = rb_acked (rv_buffer r) @ take (nat (?F - A)) (rb_pending (rv_buffer r)) \<and>
        rb_pending (rv_buffer r1) = drop (nat (?F - A)) (rb_pending (rv_buffer r))
       else rcv_inv r1 A C X \<and> rv_LastAck r1 = sq A \<and> rv_buffer r1 = rv_buffer r"
      using sendCtrl_ACK_spec [OF i l order_refl _ m, of e] by auto
    obtain ms where ms: "rv_sent r1 = rv_sent r @ ms" "\<forall>m\<in>set ms. full_ack_of r1 m" using sendCtrl_ACK_msgs [OF r1(1)] by blast
    define r' where "r' = r1\<lparr>rv_NextACKTime := u64 (ev_tk e + i32 (if ev_ACKTimeout_us e > 0 then u64 (ev_ACKTimeout_us e * ev_CPUFrequency e) else ev_ACKInt e)),
      rv_PktCount := 0, rv_LightACKCount := 1\<rparr>"
    have r': "rv_buffer r' = rv_buffer r1" "rv_LastAck r' = rv_LastAck r1" "rv_sent r' = rv_sent r1" "rcv_inv r' A' C X = rcv_inv r1 A' C X" for A'
      by (simp_all add: r'_def rcv_inv_def)
    have fa: "full_ack_of r' = full_ack_of r1" by (simp add: full_ack_of_def r' fun_eq_iff)
    have "checkACKTimer e r = Some r'" using full r1(1) by (simp add: checkACKTimer_def r'_def Let_def)
    then show ?thesis
      using r1(2,3) ms r' fa sendCtrl_ACK_fixed [OF r1(1)]
      by (intro exI [of _ r'] exI [of _ "if A < ?F then ?F else A"] exI [of _ ms]) auto
  next
    case lite
    obtain r1 ms where r1: "sendCtrl_ACK e True r = Some r1" "rv_sent r1 = rv_sent r @ ms" "set ms \<subseteq> {Ctrl_LITE_ACK (sq ?F)}"
      "rv_buffer r1 = rv_buffer r" "rv_lists r1 = rv_lists r" "rv_LastSkipAck r1 = rv_LastSkipAck r" "rv_LastAck r1 = rv_LastAck r"
      using sendCtrl_lite [OF i, of e] by blast
    let ?r = "r1\<lparr>rv_LightACKCount := rv_LightACKCount r1 + 1\<rparr>"
    have "checkACKTimer e r = Some ?r" using lite r1(1) unfolding checkACKTimer_def by (simp only: if_not_P [OF lite(1)] if_P [OF lite(2)] Option.bind.bind_lunit if_True if_False)
    moreover have "rcv_inv ?r A C X = rcv_inv r A C X" using r1 by (intro rcv_inv_cong) simp_all
    ultimately show ?thesis using i r1 l by (intro exI [of _ ?r] exI [of _ A] exI [of _ ms]) auto
  next
    case none
    then have "checkACKTimer e r = Some r" unfolding checkACKTimer_def by (simp only: if_not_P [OF none(1)] if_not_P [OF none(2)] if_False)
    then show ?thesis using i l by (intro exI [of _ r] exI [of _ A] exI [of _ "[]"]) simp
  qed
qed

subsection \<open>Answers to acknowledgements\<close>

lemma driftSample_mode: "tp_bTsbPdMode (addRcvTsbPdDriftSample now ts p) = tp_bTsbPdMode p"
  by (simp add: addRcvTsbPdDriftSample_def getTsbPdTimeBase_def Let_def case_prod_beta)

lemma processCtrl_ACKACK_inv:
  shows "rcv_inv (processCtrl_ACKACK e n ts r) A C X = rcv_inv r A C X" "rv_fixed (processCtrl_ACKACK e n ts r) = rv_fixed r"
    "rb_acked (rv_buffer (processCtrl_ACKACK e n ts r)) = rb_acked (rv_buffer r)"
    "rb_pending (rv_buffer (processCtrl_ACKACK e n ts r)) = rb_pending (rv_buffer r)"
proof -
  let ?r = "processCtrl_ACKACK e n ts r"
  have b: "rv_buffer ?r = rv_buffer r \<or> rv_buffer ?r = (rv_buffer r)\<lparr>rb_tsbpd := addRcvTsbPdDriftSample (ev_us e) ts (rb_tsbpd (rv_buffer r))\<rparr>"
    "rv_lists ?r = rv_lists r" "rv_LastSkipAck ?r = rv_LastSkipAck r" "rv_LastAck ?r = rv_LastAck r"
    by (simp_all add: processCtrl_ACKACK_def Let_def case_prod_beta)
  then have c: "ring (rv_buffer ?r) = ring (rv_buffer r)" "rb_iStartPos (rv_buffer ?r) = rb_iStartPos (rv_buffer r)"
    "rb_iLastAckPos (rv_buffer ?r) = rb_iLastAckPos (rv_buffer r)" "rb_iMaxPos (rv_buffer ?r) = rb_iMaxPos (rv_buffer r)"
    "rb_pool (rv_buffer ?r) = rb_pool (rv_buffer r)" "rb_size (rv_buffer ?r) = rb_size (rv_buffer r)" by (auto simp: ring_def)
  note g = rb_inv_cong [OF c(1-5)]
  show "rb_acked (rv_buffer ?r) = rb_acked (rv_buffer r)" "rb_pending (rv_buffer ?r) = rb_pending (rv_buffer r)" by (rule g(3), rule g(4))
  show "rv_fixed ?r = rv_fixed r" using b by (auto simp: rv_fixed_def rb_fixed_def driftSample_mode)
  show "rcv_inv ?r A C X = rcv_inv r A C X" using g b(2,3) c(6) by (simp only: rcv_inv_def filled_def)
qed

end
