(* ===== verification/DataTransfer.thy ===== *)
theory DataTransfer
  imports ReceiverStream SenderInv
begin

text \<open>
  A sender and a receiver (\<open>core.cpp\<close>) with a network between them that loses, repeats and reorders what it carries.
  The steps are the handlers of the two halves. \<open>tf_S\<close> and \<open>tf_A\<close> count the packets that the sender has released and
  the receiver has acknowledged, without the wrap-around of the sequence numbers; the handlers do not see them. A packet
  or an acknowledgement is in the network together with its position, and it is not delivered any more when \<open>2^28\<close> newer
  packets have been acknowledged: this is what the comparison of sequence numbers relies on.
\<close>

subsection \<open>State and steps\<close>

record transfer =
  tf_snd :: sender
  tf_rcv :: receiver
  tf_written :: "8 word list"
  tf_blocks :: "Block list"
  tf_read :: "8 word list"
  tf_S :: int
  tf_A :: int
  tf_data :: "(int \<times> CPacket) set"
  tf_acks :: "(int \<times> int \<times> int list) set"

text \<open>How many packets the sender has sent behind the released ones.\<close>

definition outstanding :: "sender \<Rightarrow> int" where
  "outstanding s = seqoff (sd_SndLastDataAck s) (incseq (sd_SndCurrSeqNo s))"

text \<open>What a step puts into the network.\<close>

definition packet_out :: "int \<Rightarrow> sender \<Rightarrow> CPacket option \<Rightarrow> (int \<times> CPacket) set" where
  "packet_out S s po = (case po of None \<Rightarrow> {} | Some p \<Rightarrow> {(S + seqoff (sd_SndLastDataAck s) (m_iSeqNo p), p)})"

fun ack_words :: "ctrl \<Rightarrow> (int \<times> int list) list" where
  "ack_words (Ctrl_ACK n d) = [(n, d)]"
| "ack_words (Ctrl_LITE_ACK a) = [(0, [a])]"
| "ack_words _ = []"

definition acks_out :: "int \<Rightarrow> receiver \<Rightarrow> receiver \<Rightarrow> (int \<times> int \<times> int list) set" where
  "acks_out A r r' = (\<lambda>(n, d). (A + seqoff (rv_LastSkipAck r) (hd d), n, d)) ` set (concat (map ack_words (drop (length (rv_sent r)) (rv_sent r'))))"

inductive transfer_step :: "transfer \<Rightarrow> transfer \<Rightarrow> bool" where
  tf_write: "addBuffer data ttl order srctime time (sd_buffer (tf_snd t)) = Some (m, b) \<Longrightarrow> ttl < 0 \<Longrightarrow>
    transfer_step t (t\<lparr>tf_snd := (tf_snd t)\<lparr>sd_buffer := b\<rparr>, tf_written := tf_written t @ data,
      tf_blocks := tf_blocks t @ blocks_of data ttl order srctime time (sb_iMSS (sd_buffer (tf_snd t))) m\<rparr>)"
| tf_send: "packData e (tf_snd t) = Some (n, po, ts, s') \<Longrightarrow> se_filter e = None \<Longrightarrow> se_CryptoFlags e = Some EK_NOENC \<Longrightarrow>
    transfer_step t (t\<lparr>tf_snd := s', tf_data := tf_data t \<union> packet_out (tf_S t) (tf_snd t) po\<rparr>)"
| tf_arrive: "(q, p) \<in> tf_data t \<Longrightarrow> \<bar>q - tf_A t\<bar> < 268435456 \<Longrightarrow> ev_filter e = None \<Longrightarrow> \<not> rv_Closing (tf_rcv t) \<Longrightarrow>
    u < length (uq_unit (rb_pool (rv_buffer (tf_rcv t)))) \<Longrightarrow> \<not> uq_busy (rb_pool (rv_buffer (tf_rcv t))) u \<Longrightarrow>
    processData e u (received_into u p (tf_rcv t)) = Some (rc, r') \<Longrightarrow> transfer_step t (t\<lparr>tf_rcv := r'\<rparr>)"
| tf_ack: "checkACKTimer e (tf_rcv t) = Some r' \<Longrightarrow> rv_LastAckAck (tf_rcv t) = sq M \<Longrightarrow> M \<le> tf_A t \<Longrightarrow> tf_A t - M < 268435456 \<Longrightarrow>
    transfer_step t (t\<lparr>tf_rcv := r', tf_A := tf_A t + seqoff (rv_LastSkipAck (tf_rcv t)) (rv_LastSkipAck r'),
      tf_acks := tf_acks t \<union> acks_out (tf_A t) (tf_rcv t) r'\<rparr>)"
| tf_acked: "(a, n, d) \<in> tf_acks t \<Longrightarrow> tf_S t - a < 268435456 \<Longrightarrow> (\<forall>i < length d. w i = d ! i) \<Longrightarrow>
    processCtrlAck e w (4 * length d) n (tf_snd t) = Some s' \<Longrightarrow>
    transfer_step t (t\<lparr>tf_snd := s', tf_S := tf_S t + seqoff (sd_SndLastDataAck (tf_snd t)) (sd_SndLastDataAck s')\<rparr>)"
| tf_ackack: "transfer_step t (t\<lparr>tf_rcv := processCtrl_ACKACK e n ts (tf_rcv t)\<rparr>)"
| tf_loss: "\<forall>(l, h)\<in>set xs. l \<le> h \<and> h < tf_S t + outstanding (tf_snd t) \<and> tf_S t - 268435456 < l \<Longrightarrow>
    processCtrl_LOSSREPORT (nak_enc xs) (sd_nak (tf_snd t)) = Some nk \<Longrightarrow> transfer_step t (t\<lparr>tf_snd := (tf_snd t)\<lparr>sd_nak := nk\<rparr>\<rparr>)"
| tf_timeout: "checkRexmitTimer e (tf_snd t) = Some s' \<Longrightarrow> transfer_step t (t\<lparr>tf_snd := s'\<rparr>)"
| tf_reading: "readBuffer now len (rv_buffer (tf_rcv t)) = (Some out, b') \<Longrightarrow>
    transfer_step t (t\<lparr>tf_rcv := (tf_rcv t)\<lparr>rv_buffer := b'\<rparr>, tf_read := tf_read t @ out\<rparr>)"

text \<open>The two ends of a new connection, whose buffers and lists are as large as was agreed.\<close>

definition transfer_init :: "snd_env \<Rightarrow> rcv_env \<Rightarrow> nat \<Rightarrow> nat \<Rightarrow> CUnitQueue \<Rightarrow> (int \<Rightarrow> int) \<Rightarrow> int \<Rightarrow> transfer" where
  "transfer_init se re mss n pool arr isn =
     \<lparr>tf_snd = set_isn se isn (sender_new se mss (int n) arr), tf_rcv = set_peer_isn isn (receiver_new re n (int n) pool arr),
      tf_written = [], tf_blocks = [], tf_read = [], tf_S = isn, tf_A = isn, tf_data = {}, tf_acks = {}\<rparr>"

subsection \<open>The invariant\<close>

text \<open>Nothing in the message number of a block of this connection says that it is encrypted.\<close>

definition clear_block :: "Block \<Rightarrow> bool" where
  "clear_block k \<longleftrightarrow> bits_unwrap 28 27 (bk_iMsgNoBitset k) = 0"

text \<open>Positions count from \<open>isn\<close>; \<open>c\<close> packets are outstanding, of which \<open>X\<close> will be repeated, \<open>C\<close> is the newest one received
  and \<open>Y\<close> are missing.\<close>

definition in_network :: "int \<Rightarrow> transfer \<Rightarrow> int \<Rightarrow> int \<Rightarrow> bool" where
  "in_network isn t N F \<longleftrightarrow>
     (\<forall>(q, p)\<in>tf_data t. isn \<le> q \<and> q < N \<and> (\<exists>flag\<in>{0, PACKET_SND_REXMIT}. sent_as p q (tf_blocks t ! nat (q - isn)) flag)) \<and>
     (\<forall>(a, n, d)\<in>tf_acks t. isn \<le> a \<and> a \<le> F \<and> d \<noteq> [] \<and> d ! 0 = sq a \<and>
       (length d \<noteq> 1 \<longrightarrow> 4 \<le> length d \<and> 0 < d ! 3 \<and> d ! 3 \<le> sl_size (sd_list (tf_snd t))))"

definition received_right :: "int \<Rightarrow> transfer \<Rightarrow> bool" where
  "received_right isn t \<longleftrightarrow>
     (\<forall>k x. k < length (rb_pending (rv_buffer (tf_rcv t))) \<longrightarrow> rb_pending (rv_buffer (tf_rcv t)) ! k = Some x \<longrightarrow>
       sound_unit x \<and> payload (un_Packet x) = bk_data (tf_blocks t ! nat (tf_A t + int k - isn))) \<and>
     stream_ok (rv_buffer (tf_rcv t)) \<and> \<not> tp_bTsbPdMode (rb_tsbpd (rv_buffer (tf_rcv t))) \<and> isn \<le> tf_A t \<and>
     tf_read t @ rb_stream (rv_buffer (tf_rcv t)) = concat (map bk_data (take (nat (tf_A t - isn)) (tf_blocks t)))"

definition sender_right :: "int \<Rightarrow> transfer \<Rightarrow> bool" where
  "sender_right isn t \<longleftrightarrow> isn \<le> tf_S t \<and> nat (tf_S t - isn) \<le> length (tf_blocks t) \<and> \<not> nk_broken (sd_nak (tf_snd t)) \<and>
     tf_written t = concat (map bk_data (tf_blocks t)) \<and> (\<forall>k\<in>set (tf_blocks t). clear_block k) \<and>
     sb_iNextMsgNo (sd_buffer (tf_snd t)) < MSGNO_SEQ_mask \<and>
     2 \<le> sl_size (sd_list (tf_snd t)) \<and> int (rb_size (rv_buffer (tf_rcv t))) \<le> sl_size (sd_list (tf_snd t))"

definition transfer_inv :: "int \<Rightarrow> transfer \<Rightarrow> int \<Rightarrow> nat \<Rightarrow> int set \<Rightarrow> int \<Rightarrow> int set \<Rightarrow> bool" where
  "transfer_inv isn t N c X C Y \<longleftrightarrow>
     snd_inv (tf_snd t) (drop (nat (tf_S t - isn)) (tf_blocks t)) (tf_S t) c X \<and> rcv_inv (tf_rcv t) (tf_A t) C Y \<and> rv_LastAck (tf_rcv t) = sq (tf_A t) \<and>
     N = tf_S t + int c \<and> tf_S t \<le> first_missing C Y \<and> C < N \<and> sender_right isn t \<and> received_right isn t \<and> in_network isn t N (first_missing C Y)"

lemma msgno_mask: "MSGNO_SEQ_mask = mask 26"
  by (intro bit_eqI) (auto simp: MSGNO_SEQ_mask_def bit_BitsetMask bit_mask_iff)

lemma msgno_less: "m < MSGNO_SEQ_mask \<longleftrightarrow> unat m < 67108863"
proof -
  have e: "MSGNO_SEQ_mask = 67108863" by (simp add: msgno_mask mask_eq_exp_minus_1)
  show ?thesis unfolding e word_less_nat_alt by simp
qed

lemma msgno_bits: "m < MSGNO_SEQ_mask \<Longrightarrow> 26 \<le> i \<Longrightarrow> \<not> bit m i"
proof -
  assume m: "m < MSGNO_SEQ_mask" and i: "26 \<le> i"
  have "take_bit 26 (unat m) = unat m" using m unfolding msgno_less by (simp add: take_bit_nat_eq_self_iff)
  then have "\<not> bit (unat m) i" using i by (metis bit_take_bit_iff not_less)
  moreover have "i < 32 \<Longrightarrow> bit (unat m) i = bit m i" by (simp add: bit_unsigned_iff)
  ultimately show ?thesis using bit_imp_le_length [of m i] by (cases "i < 32") auto
qed

lemma next_msgno_small: "m < MSGNO_SEQ_mask \<Longrightarrow> next_msgno m < MSGNO_SEQ_mask"
proof -
  assume m: "m < MSGNO_SEQ_mask"
  have e: "MSGNO_SEQ_mask = 67108863" by (simp add: msgno_mask mask_eq_exp_minus_1)
  have u: "unat (m + 1) = unat m + 1" using unat_add_lem [of m 1] m by (simp add: msgno_less)
  have "unat (m + 1) \<noteq> 67108863" if "m + 1 \<noteq> MSGNO_SEQ_mask" using that unfolding e word_unat_eq_iff by simp
  then show ?thesis using m u by (auto simp: next_msgno_def msgno_less)
qed

lemma blocks_clear:
  assumes "m < MSGNO_SEQ_mask" "k \<in> set (blocks_of data ttl order srctime time mss m)"
  shows "clear_block k"
proof -
  have b: "\<not> bit (bk_iMsgNoBitset k) i" if "i = 27 \<or> i = 28" for i
    using assms(2) msgno_bits [OF assms(1), of i] that
    by (auto simp: blocks_of_def block_of_def Let_def bit_or_iff bound_bits_def PacketBoundaryBits_def bit_BitsetMask bit_wrap split: if_splits)
  show ?thesis unfolding clear_block_def
  proof (intro bit_eqI)
    fix n
    have "27 + n = 27 \<or> 27 + n = 28" if "27 + n \<le> 28" for n :: nat using that by arith
    then show "bit (bits_unwrap 28 27 (bk_iMsgNoBitset k)) n = bit 0 n" using b by (auto simp: bit_unwrap)
  qed
qed

lemma transfer_invD:
  assumes "transfer_inv isn t N c X C Y"
  shows "snd_inv (tf_snd t) (drop (nat (tf_S t - isn)) (tf_blocks t)) (tf_S t) c X" "rcv_inv (tf_rcv t) (tf_A t) C Y"
    "rv_LastAck (tf_rcv t) = sq (tf_A t)" "N = tf_S t + int c" "tf_S t \<le> first_missing C Y" "C < N" "sender_right isn t"
    "received_right isn t" "in_network isn t N (first_missing C Y)"
    "N \<le> isn + int (length (tf_blocks t))" "tf_A t \<le> N" "isn \<le> tf_S t" "isn \<le> tf_A t" "first_missing C Y \<le> N"
proof -
  show I: "snd_inv (tf_snd t) (drop (nat (tf_S t - isn)) (tf_blocks t)) (tf_S t) c X" "rcv_inv (tf_rcv t) (tf_A t) C Y"
    "rv_LastAck (tf_rcv t) = sq (tf_A t)" "N = tf_S t + int c" "tf_S t \<le> first_missing C Y" "C < N" "sender_right isn t"
    "received_right isn t" "in_network isn t N (first_missing C Y)" using assms unfolding transfer_inv_def by blast+
  show S: "isn \<le> tf_S t" "isn \<le> tf_A t" using I(7,8) by (simp_all only: sender_right_def received_right_def)
  have "nat (tf_S t - isn) \<le> length (tf_blocks t)" using I(7) by (simp only: sender_right_def)
  moreover have "c \<le> length (tf_blocks t) - nat (tf_S t - isn)" using snd_invD(11) [OF I(1)] by simp
  ultimately show "N \<le> isn + int (length (tf_blocks t))" using I(4) S(1) by linarith
  show "tf_A t \<le> N" using rcv_invD(5) [OF I(2)] I(6) by linarith
  show "first_missing C Y \<le> N" using rcv_inv_missing(2) [OF I(2)] I(6) by linarith
qed

lemma tf_write_inv:
  assumes i: "transfer_inv isn t N c X C Y" and w: "addBuffer data ttl order srctime time (sd_buffer (tf_snd t)) = Some (m, b)" "ttl < 0"
  shows "transfer_inv isn (t\<lparr>tf_snd := (tf_snd t)\<lparr>sd_buffer := b\<rparr>, tf_written := tf_written t @ data,
    tf_blocks := tf_blocks t @ blocks_of data ttl order srctime time (sb_iMSS (sd_buffer (tf_snd t))) m\<rparr>) N c X C Y" (is "transfer_inv isn ?t N c X C Y")
proof -
  note I = transfer_invD [OF i]
  let ?s = "tf_snd t" and ?k = "nat (tf_S t - isn)" and ?n = "length (tf_blocks t)"
  let ?new = "blocks_of data ttl order srctime time (sb_iMSS (sd_buffer ?s)) (sb_iNextMsgNo (sd_buffer ?s))"
  have m: "m = sb_iNextMsgNo (sd_buffer ?s)" "concat (map bk_data ?new) = data" "sb_iNextMsgNo b = next_msgno (sb_iNextMsgNo (sd_buffer ?s))"
    using addBuffer_blocks [OF snd_invD(1) [OF I(1)], of data ttl order srctime time] w(1) by auto
  have k: "?k \<le> ?n" using I(7) by (simp only: sender_right_def)
  have "snd_inv (?s\<lparr>sd_buffer := b\<rparr>) (drop ?k (tf_blocks t) @ ?new) (tf_S t) c X" by (rule addBuffer_inv [OF I(1) w(2,1)])
  then have s: "snd_inv (tf_snd ?t) (drop (nat (tf_S ?t - isn)) (tf_blocks ?t)) (tf_S ?t) c X" using k m(1) by simp
  have "clear_block x" if "x \<in> set ?new" for x
    using blocks_clear [OF _ that] I(7) by (simp add: sender_right_def)
  then have sr: "sender_right isn ?t" using I(7) m k by (auto simp: sender_right_def next_msgno_small)
  have nth: "(tf_blocks t @ ?new) ! nat (q - isn) = tf_blocks t ! nat (q - isn)" if "q < N" "isn \<le> q" for q
    using that I(10) by (intro nth_append_left) linarith
  have "in_network isn ?t N (first_missing C Y)"
    using I(9) nth m(1) unfolding in_network_def by fastforce
  moreover have "received_right isn ?t"
  proof -
    have "(tf_blocks t @ ?new) ! nat (tf_A t + int k - isn) = tf_blocks t ! nat (tf_A t + int k - isn)"
      if "k < length (rb_pending (rv_buffer (tf_rcv t)))" for k
      using that nth [of "tf_A t + int k"] rcv_invD(11) [OF I(2)] I(6,13) by auto
    moreover have "nat (tf_A t - isn) \<le> ?n" using I(10,11) by linarith
    ultimately show ?thesis using I(8) m(1) by (simp add: received_right_def)
  qed
  ultimately show ?thesis using I(2-6) s sr by (simp add: transfer_inv_def)
qed


lemma m_iSeqNo_sent: "ph_seqno p = word_of_int (sq q) \<Longrightarrow> m_iSeqNo p = sq q"
proof -
  have "signed_take_bit 31 x = x" if "0 \<le> x" "x < 2147483648" for x :: int using that by (intro signed_take_bit_int_eq_self) simp_all
  from this [OF sq_range(1,2)] have "signed_take_bit 31 (sq q) = sq q" .
  then show "ph_seqno p = word_of_int (sq q) \<Longrightarrow> m_iSeqNo p = sq q" by (simp add: m_iSeqNo_def sint_sbintrunc')
qed

lemma tf_send_inv:
  assumes i: "transfer_inv isn t N c X C Y" and e: "packData e (tf_snd t) = Some (n, po, ts, s')" "se_filter e = None" "se_CryptoFlags e = Some EK_NOENC"
  shows "\<exists>N' c' X'. transfer_inv isn (t\<lparr>tf_snd := s', tf_data := tf_data t \<union> packet_out (tf_S t) (tf_snd t) po\<rparr>) N' c' X' C Y"
proof -
  note I = transfer_invD [OF i]
  let ?s = "tf_snd t" and ?q = "drop (nat (tf_S t - isn)) (tf_blocks t)" and ?S = "tf_S t"
  let ?t = "t\<lparr>tf_snd := s', tf_data := tf_data t \<union> packet_out ?S ?s po\<rparr>"
  note D = snd_invD [OF I(1)]
  have at: "?q ! j = tf_blocks t ! nat (?S + int j - isn)" if "j < length ?q" for j
  proof -
    have "nat (?S + int j - isn) = nat (?S - isn) + j" using I(12) by linarith
    then show ?thesis using that by simp
  qed
  have "cipher_ok e" using e(3) by (simp add: cipher_ok_def)
  from packData_spec [OF I(1) e(2) this] e(1) have base: "snd_base s' = snd_base ?s" and P:
    "if X \<noteq> {} then \<exists>p. po = Some p \<and> sent_as p (Min X) (?q ! nat (Min X - ?S)) (if se_PeerRexmitFlag e then PACKET_SND_REXMIT else 0) \<and>
       nat (Min X - ?S) < c \<and> snd_inv s' ?q ?S c (X - {Min X})
     else if c < length ?q \<and> int c < min (sd_FlowWindowSize ?s) (se_CongestionWindow e)
     then \<exists>p k. po = Some p \<and> sent_as p (?S + int c) k 0 \<and> snd_inv s' (?q[c := k]) ?S (c + 1) {} \<and>
       bk_iLength k = bk_iLength (?q ! c) \<and> (se_CryptoFlags e = Some EK_NOENC \<longrightarrow> k = ?q ! c)
     else po = None \<and> n = 0 \<and> snd_inv s' ?q ?S c X" by auto
  have sr: "sender_right isn ?t" using I(7) base by (simp add: sender_right_def)
  have rr: "received_right isn ?t" using I(8) by (simp add: received_right_def)
  have fin: "transfer_inv isn ?t N' c' X' C Y" if "snd_inv s' ?q ?S c' X'" "N \<le> N'" "N' = ?S + int c'"
      "\<forall>(q, p)\<in>packet_out ?S ?s po. isn \<le> q \<and> q < N' \<and> (\<exists>flag\<in>{0, PACKET_SND_REXMIT}. sent_as p q (tf_blocks t ! nat (q - isn)) flag)" for N' c' X'
  proof -
    have "in_network isn ?t N' (first_missing C Y)" using I(9) that(2,4) base by (fastforce simp: in_network_def)
    then show ?thesis using I(2,3,5,6) that(1-3) sr rr by (simp add: transfer_inv_def)
  qed
  have out: "packet_out ?S ?s (Some p) = {(q, p)}" if "sent_as p q k f" "?S \<le> q" "q \<le> ?S + int c" for p q k f
    using that D(3,8,10) m_iSeqNo_sent [of p q] by (simp add: packet_out_def sent_as_def seqoff_sq)
  show ?thesis
  proof (cases "X = {}")
    case False
    then obtain p where p: "po = Some p" "sent_as p (Min X) (?q ! nat (Min X - ?S)) (if se_PeerRexmitFlag e then PACKET_SND_REXMIT else 0)"
      "nat (Min X - ?S) < c" "snd_inv s' ?q ?S c (X - {Min X})" using P by auto
    have m: "?S \<le> Min X" "Min X < ?S + int c" using Min_in [OF D(12) False] D(7) by auto
    have "?q ! nat (Min X - ?S) = tf_blocks t ! nat (Min X - isn)" using at [of "nat (Min X - ?S)"] p(3) D(11) m by simp
    then have "transfer_inv isn ?t N c (X - {Min X}) C Y"
      using out [OF p(2)] m p I(4,12) by (intro fin) (auto split: if_splits)
    then show ?thesis by blast
  next
    case X: True
    show ?thesis
    proof (cases "c < length ?q \<and> int c < min (sd_FlowWindowSize ?s) (se_CongestionWindow e)")
      case True
      then obtain p where p: "po = Some p" "sent_as p (?S + int c) (?q ! c) 0" "snd_inv s' ?q ?S (c + 1) {}" using P X e(3) by auto
      have "transfer_inv isn ?t (N + 1) (c + 1) {} C Y"
        using out [OF p(2)] p I(4,12) at [of c] True by (intro fin) auto
      then show ?thesis by blast
    next
      case False
      then have "po = None" "snd_inv s' ?q ?S c X" using P X by auto
      then have "transfer_inv isn ?t N c X C Y" using I(4) by (intro fin) (auto simp: packet_out_def)
      then show ?thesis by blast
    qed
  qed
qed


lemma sent_clear: "sent_as p q k flag \<Longrightarrow> flag \<in> {0, PACKET_SND_REXMIT} \<Longrightarrow> clear_block k \<Longrightarrow> getMsgCryptoFlags p = 0"
proof -
  assume p: "sent_as p q k flag" and f: "flag \<in> {0, PACKET_SND_REXMIT}" and k: "clear_block k"
  have "bits_unwrap 28 27 (x OR flag) = bits_unwrap 28 27 x" for x :: "32 word"
    using f by (intro bit_eqI) (auto simp: bit_unwrap bit_or_iff PACKET_SND_REXMIT_def bit_BitsetMask)
  then show ?thesis using p k by (simp add: getMsgCryptoFlags_def sent_as_def clear_block_def)
qed

lemma first_missing_mono:
  assumes i: "rcv_inv r A C Y" and j: "rcv_inv r' A' C' Y'" and C: "C \<le> C'" and Y: "Y' \<subseteq> Y \<union> {C + 1..}"
  shows "first_missing C Y \<le> first_missing C' Y'"
proof (cases "Y' = {}")
  case True
  then show ?thesis using rcv_inv_missing(2) [OF i] C by (simp add: first_missing_def)
next
  case False
  have "finite Y'" using rcv_invD(2) [OF j] by (rule rcv_holds_finite)
  then have "Min Y' \<in> Y \<union> {C + 1..}" using Min_in [OF _ False] Y by blast
  then have "first_missing C Y \<le> Min Y'" using rcv_inv_missing(2,5) [OF i] by fastforce
  then show ?thesis using False by (simp add: first_missing_def)
qed

lemma tf_arrive_inv:
  assumes i: "transfer_inv isn t N c X C Y" and q: "(q, p) \<in> tf_data t" "\<bar>q - tf_A t\<bar> < 268435456" and f: "ev_filter e = None"
    and cl: "\<not> rv_Closing (tf_rcv t)"
    and u: "u < length (uq_unit (rb_pool (rv_buffer (tf_rcv t))))" "\<not> uq_busy (rb_pool (rv_buffer (tf_rcv t))) u"
    and r': "processData e u (received_into u p (tf_rcv t)) = Some (rc, r')"
  shows "\<exists>C' Y'. transfer_inv isn (t\<lparr>tf_rcv := r'\<rparr>) N c X C' Y'"
proof -
  note I = transfer_invD [OF i]
  let ?r = "received_into u p (tf_rcv t)" and ?A = "tf_A t" and ?t = "t\<lparr>tf_rcv := r'\<rparr>"
  note R = received_into_inv [OF I(2) u, where p = p]
  obtain flag where p: "isn \<le> q" "q < N" "flag \<in> {0, PACKET_SND_REXMIT}" "sent_as p q (tf_blocks t ! nat (q - isn)) flag"
    using conjunct1 [OF I(9) [unfolded in_network_def], THEN bspec, OF q(1)] that by auto
  have "nat (q - isn) < length (tf_blocks t)" using p(1,2) I(10) by linarith
  then have "clear_block (tf_blocks t ! nat (q - isn))" using I(7) by (simp add: sender_right_def)
  then have clear: "getMsgCryptoFlags p = 0" by (rule sent_clear [OF p(4,3)])
  have ok: "incoming_ok e ?r u q ?A"
    using R(5-7) q(2) clear m_iSeqNo_sent [of p q] p(4) by (simp add: incoming_ok_def clear_cipher_def sent_as_def)
  have cl': "\<not> rv_Closing ?r" using R(8) cl by simp
  have fx: "rv_fixed r' = rv_fixed (tf_rcv t)" using processData_fixed [OF r' f] R(4) by simp
  then have L: "rv_LastAck r' = sq ?A" "rb_iNotch (rv_buffer r') = rb_iNotch (rv_buffer (tf_rcv t))" "rb_size (rv_buffer r') = rb_size (rv_buffer (tf_rcv t))"
    "tp_bTsbPdMode (rb_tsbpd (rv_buffer r')) = tp_bTsbPdMode (rb_tsbpd (rv_buffer (tf_rcv t)))"
    using I(3) by (simp_all add: rv_fixed_def rb_fixed_def)
  let ?w = "wanted (rv_buffer ?r) ?A q"
  from processData_spec [OF R(1) ok f cl'] r' have acked: "rb_acked (rv_buffer r') = rb_acked (rv_buffer (tf_rcv t))" and P:
    "if ?w then rcv_inv r' ?A (max C q) (Y \<union> {C + 1..<q} - {q}) \<and>
       map_option un_Packet (rb_pending (rv_buffer r') ! nat (q - ?A)) = Some (decrypted e (rv_packet u ?r)) \<and>
       (\<forall>k. k \<noteq> nat (q - ?A) \<longrightarrow> filled (rv_buffer ?r) k \<longrightarrow> rb_pending (rv_buffer r') ! k = rb_pending (rv_buffer ?r) ! k)
     else rcv_inv r' ?A C Y \<and> rb_pending (rv_buffer r') = rb_pending (rv_buffer ?r)" using R(2) by (auto split: if_splits)
  have stream: "stream_ok (rv_buffer r') \<and> rb_stream (rv_buffer r') = rb_stream (rv_buffer (tf_rcv t))" if "rb_inv (rv_buffer r')"
    using that acked L(2) I(8) by (simp add: stream_ok_def rb_stream_def received_right_def)
  have sr: "sender_right isn ?t" using I(7) L(3) by (simp add: sender_right_def)
  show ?thesis
  proof (cases ?w)
    case False
    then have j: "rcv_inv r' ?A C Y" "rb_pending (rv_buffer r') = rb_pending (rv_buffer (tf_rcv t))" using P R(3) by simp_all
    have "received_right isn ?t" using I(8) j(2) L(4) stream [OF rcv_invD(1) [OF j(1)]] by (simp add: received_right_def)
    moreover have "in_network isn ?t N (first_missing C Y)" using I(9) by (simp add: in_network_def)
    ultimately have "transfer_inv isn ?t N c X C Y" using I(1,4-6) j(1) L(1) sr by (simp add: transfer_inv_def)
    then show ?thesis by blast
  next
    case True
    let ?C = "max C q" and ?Y = "Y \<union> {C + 1..<q} - {q}" and ?k = "nat (q - ?A)"
    have j: "rcv_inv r' ?A ?C ?Y" "map_option un_Packet (rb_pending (rv_buffer r') ! ?k) = Some p"
      "\<And>k. k \<noteq> ?k \<Longrightarrow> filled (rv_buffer (tf_rcv t)) k \<Longrightarrow> rb_pending (rv_buffer r') ! k = rb_pending (rv_buffer (tf_rcv t)) ! k"
      using P True R(3,5) clear by (simp_all add: decrypted_def filled_def)
    have A: "?A \<le> q" using True by (simp add: wanted_def)
    have mono: "first_missing C Y \<le> first_missing ?C ?Y" by (rule first_missing_mono [OF I(2) j(1)]) auto
    have "sound_unit x \<and> payload (un_Packet x) = bk_data (tf_blocks t ! nat (?A + int k - isn))"
      if k: "k < length (rb_pending (rv_buffer r'))" "rb_pending (rv_buffer r') ! k = Some x" for k x
    proof (cases "k = ?k")
      case True
      then show ?thesis using k(2) j(2) p(4) A by (simp add: sound_unit_def sent_as_def)
    next
      case False
      have "filled (rv_buffer r') k" using k by (simp add: filled_def)
      then have "?A + int k \<le> ?C" "?A + int k \<notin> ?Y" using rcv_invD(10,12) [OF j(1)] by auto
      then have "?A + int k \<le> C \<and> ?A + int k \<notin> Y" using False A by (auto simp: max_def split: if_splits)
      then have g: "filled (rv_buffer (tf_rcv t)) k" using rcv_invD(12) [OF I(2)] by auto
      then show ?thesis using j(3) [OF False g] k(2) I(8) by (auto simp: filled_def received_right_def)
    qed
    then have "received_right isn ?t" using I(8) L(4) stream [OF rcv_invD(1) [OF j(1)]] by (simp add: received_right_def)
    moreover have "in_network isn ?t N (first_missing ?C ?Y)" using I(9) mono by (fastforce simp: in_network_def)
    ultimately have "transfer_inv isn ?t N c X ?C ?Y" using I(1,4-6) j(1) L(1) sr mono p(2) by (simp add: transfer_inv_def)
    then show ?thesis by blast
  qed
qed


lemma ack_words_out:
  assumes "rv_sent r' = rv_sent r @ ms" "x \<in> acks_out A r r'"
  shows "\<exists>m\<in>set ms. \<exists>(n, d)\<in>set (ack_words m). x = (A + seqoff (rv_LastSkipAck r) (hd d), n, d)"
  using assms by (fastforce simp: acks_out_def)

lemma stream_append:
  assumes s: "stream_ok b" and b': "rb_inv b'" "rb_acked b' = rb_acked b @ map Some us" "rb_iNotch b' = rb_iNotch b" and u: "\<forall>x\<in>set us. sound_unit x"
  shows "stream_ok b'" "rb_stream b' = rb_stream b @ concat (map (\<lambda>x. payload (un_Packet x)) us)"
proof -
  obtain vs where v: "rb_acked b = map Some vs" "\<forall>x\<in>set vs. sound_unit x" "notch_ok (rb_iNotch b) vs"
    using s by (auto simp: stream_ok_def)
  have a: "rb_acked b' = map Some (vs @ us)" using b'(2) v(1) by simp
  have n: "notch_ok (rb_iNotch b') (vs @ us)" using v(3) b'(3) by (cases vs) (auto simp: notch_ok_def split: list.split)
  show "stream_ok b'" unfolding stream_ok_def using b'(1) a n v(2) u by (intro conjI exI [of _ "vs @ us"]) auto
  have "rb_iNotch b \<le> length (message_bytes vs)"
    using v(2,3) by (cases vs) (auto simp: notch_ok_def sound_unit_def)
  then show "rb_stream b' = rb_stream b @ concat (map (\<lambda>x. payload (un_Packet x)) us)"
    unfolding rb_stream_def a v(1) map_filter_Some b'(3) by (simp add: message_bytes_def)
qed

lemma tf_ack_inv:
  assumes i: "transfer_inv isn t N c X C Y" and e: "checkACKTimer e (tf_rcv t) = Some r'"
    and M: "rv_LastAckAck (tf_rcv t) = sq M" "M \<le> tf_A t" "tf_A t - M < 268435456"
  shows "transfer_inv isn (t\<lparr>tf_rcv := r', tf_A := tf_A t + seqoff (rv_LastSkipAck (tf_rcv t)) (rv_LastSkipAck r'),
      tf_acks := tf_acks t \<union> acks_out (tf_A t) (tf_rcv t) r'\<rparr>) N c X C Y" (is "transfer_inv isn ?t N c X C Y")
proof -
  note I = transfer_invD [OF i]
  let ?r = "tf_rcv t" and ?A = "tf_A t" and ?F = "first_missing C Y" and ?b = "rv_buffer (tf_rcv t)"
  note D = rcv_invD [OF I(2)] and F = rcv_inv_missing [OF I(2)]
  obtain A' ms where A': "A' = ?A \<or> A' = ?F" "?A \<le> A'" and j: "rcv_inv r' A' C Y" "rv_LastAck r' = sq A'"
      "rb_acked (rv_buffer r') = rb_acked ?b @ take (nat (A' - ?A)) (rb_pending ?b)"
      "rb_pending (rv_buffer r') = drop (nat (A' - ?A)) (rb_pending ?b)"
    and fx: "rb_fixed (rv_buffer r') = rb_fixed ?b" and full: "\<forall>p. ?A \<le> p \<longrightarrow> p < A' \<longrightarrow> filled ?b (nat (p - ?A))"
    and ms: "rv_sent r' = rv_sent ?r @ ms" "\<forall>m\<in>set ms. full_ack_of r' m \<or> m = Ctrl_LITE_ACK (sq ?F)"
    using checkACKTimer_spec [OF I(2,3) M, of e] e by auto
  have le: "A' \<le> ?F" using A' F(1) by auto
  have near: "\<bar>A' - ?A\<bar> < 1073741823" "\<bar>?F - ?A\<bar> < 1073741823" using A'(2) le F(2) D(6) by linarith+
  have off: "seqoff (rv_LastSkipAck ?r) (sq A') = A' - ?A" "seqoff (rv_LastSkipAck ?r) (sq ?F) = ?F - ?A"
    using near D(3) by (simp_all add: seqoff_sq)
  have A: "tf_A ?t = A'" using off(1) rcv_invD(3) [OF j(1)] by simp
  have fix': "rb_iNotch (rv_buffer r') = rb_iNotch ?b" "rb_size (rv_buffer r') = rb_size ?b"
    "tp_bTsbPdMode (rb_tsbpd (rv_buffer r')) = tp_bTsbPdMode (rb_tsbpd ?b)" using fx by (simp_all add: rb_fixed_def)
  have sr: "sender_right isn ?t" using I(7) fix'(2) by (simp add: sender_right_def)
  let ?n = "nat (A' - ?A)" and ?us = "map the (take (nat (A' - ?A)) (rb_pending ?b))"
  have nl: "?n \<le> length (rb_pending ?b)" using D(11) le F(2) by linarith
  have some: "\<exists>x. rb_pending ?b ! k = Some x" if "k < ?n" for k
    using full [rule_format, of "?A + int k"] that A'(2) by (auto simp: filled_def)
  have right: "sound_unit x \<and> payload (un_Packet x) = bk_data (tf_blocks t ! nat (?A + int k - isn))"
    if "k < length (rb_pending ?b)" "rb_pending ?b ! k = Some x" for k x using I(8) that by (simp add: received_right_def)
  have us1: "take ?n (rb_pending ?b) = map Some ?us"
  proof (rule nth_equalityI)
    fix k assume "k < length (take ?n (rb_pending ?b))"
    then have k: "k < ?n" "k < length (rb_pending ?b)" by simp_all
    then show "take ?n (rb_pending ?b) ! k = map Some ?us ! k" using some [OF k(1)] by auto
  qed simp
  have us2: "\<forall>x\<in>set ?us. sound_unit x"
  proof
    fix x assume "x \<in> set ?us"
    then obtain k where k: "k < ?n" "k < length (rb_pending ?b)" "x = the (rb_pending ?b ! k)" by (auto simp: in_set_conv_nth)
    then show "sound_unit x" using some [OF k(1)] right [OF k(2), of x] by auto
  qed
  have pl: "map (\<lambda>x. payload (un_Packet x)) ?us = map bk_data (take ?n (drop (nat (?A - isn)) (tf_blocks t)))"
  proof (rule nth_equalityI)
    have "nat (A' - isn) \<le> length (tf_blocks t)" using le I(10,14) by linarith
    then show "length (map (\<lambda>x. payload (un_Packet x)) ?us) = length (map bk_data (take ?n (drop (nat (?A - isn)) (tf_blocks t))))"
      using nl I(13) A'(2) by simp
    fix k assume "k < length (map (\<lambda>x. payload (un_Packet x)) ?us)"
    then have k: "k < ?n" "k < length (rb_pending ?b)" by simp_all
    have "nat (?A + int k - isn) = nat (?A - isn) + k" using I(13) by simp
    then show "map (\<lambda>x. payload (un_Packet x)) ?us ! k = map bk_data (take ?n (drop (nat (?A - isn)) (tf_blocks t))) ! k"
      using right [OF k(2), of "the (rb_pending ?b ! k)"] some [OF k(1)] k \<open>nat (A' - isn) \<le> length (tf_blocks t)\<close> I(13) A'(2) by auto
  qed
  have j3: "rb_acked (rv_buffer r') = rb_acked ?b @ map Some ?us"
    by (rule trans [OF j(3)]) (rule arg_cong [OF us1, where f = "\<lambda>x. rb_acked ?b @ x"])
  note st = stream_append [OF _ rcv_invD(1) [OF j(1)] j3 fix'(1) us2]
  have "received_right isn ?t"
  proof -
    have "nat (A' - isn) = nat (?A - isn) + ?n" using I(13) A'(2) by simp
    then have "take (nat (A' - isn)) (tf_blocks t) = take (nat (?A - isn)) (tf_blocks t) @ take ?n (drop (nat (?A - isn)) (tf_blocks t))"
      by (simp add: take_add)
    then have "tf_read t @ rb_stream (rv_buffer r') = concat (map bk_data (take (nat (A' - isn)) (tf_blocks t)))"
      using st(2) I(8) pl by (simp add: received_right_def)
    moreover have "sound_unit x \<and> payload (un_Packet x) = bk_data (tf_blocks t ! nat (A' + int k - isn))"
      if "k < length (rb_pending (rv_buffer r'))" "rb_pending (rv_buffer r') ! k = Some x" for k x
      using right [of "?n + k" x] that j(4) A'(2) nl by (simp add: add.assoc)
    ultimately show ?thesis using st(1) I(8,13) A fix'(3) A'(2) by (simp add: received_right_def)
  qed
  moreover have "in_network isn ?t N ?F"
  proof -
    have "isn \<le> a \<and> a \<le> ?F \<and> d \<noteq> [] \<and> d ! 0 = sq a \<and> (length d \<noteq> 1 \<longrightarrow> 4 \<le> length d \<and> 0 < d ! 3 \<and> d ! 3 \<le> sl_size (sd_list (tf_snd t)))"
      if out: "(a, n, d) \<in> acks_out ?A ?r r'" for a n d
    proof -
      obtain m where m: "m \<in> set ms" "(n, d) \<in> set (ack_words m)" "a = ?A + seqoff (rv_LastSkipAck ?r) (hd d)"
        using ack_words_out [OF ms(1) out] by auto
      consider (full) "full_ack_of r' m" | (lite) "m = Ctrl_LITE_ACK (sq ?F)" using ms(2) m(1) by blast
      then show ?thesis
      proof cases
        case full
        then have d: "4 \<le> length d" "d ! 0 = sq A'" "d ! 3 = max 2 (getAvailBufSize (rv_buffer r'))" using m(2) j(2) by (auto simp: full_ack_of_def)
        have "hd d = sq A'" using d(1,2) by (cases d) auto
        moreover have "getAvailBufSize (rv_buffer r') \<le> int (rb_size ?b)" using fix'(2) by (simp add: getAvailBufSize_def)
        ultimately show ?thesis using d m(3) off(1) le A'(2) I(7,13) by (auto simp: sender_right_def)
      next
        case lite
        then show ?thesis using m(2,3) off(2) F(1) I(13) by simp
      qed
    qed
    then show ?thesis using I(9) by (auto simp: in_network_def)
  qed
  ultimately show ?thesis using I(1,4-6) j(1,2) A sr by (simp add: transfer_inv_def)
qed

lemma tf_acked_inv:
  assumes i: "transfer_inv isn t N c X C Y" and m: "(a, n, d) \<in> tf_acks t" "tf_S t - a < 268435456" "\<forall>i < length d. w i = d ! i"
    and e: "processCtrlAck e w (4 * length d) n (tf_snd t) = Some s'"
  shows "\<exists>c' X'. transfer_inv isn (t\<lparr>tf_snd := s', tf_S := tf_S t + seqoff (sd_SndLastDataAck (tf_snd t)) (sd_SndLastDataAck s')\<rparr>) N c' X' C Y"
proof -
  note I = transfer_invD [OF i]
  let ?s = "tf_snd t" and ?q = "drop (nat (tf_S t - isn)) (tf_blocks t)" and ?S = "tf_S t"
  note D = snd_invD [OF I(1)]
  have a: "isn \<le> a" "a \<le> first_missing C Y" "d \<noteq> []" "d ! 0 = sq a"
      "length d \<noteq> 1 \<Longrightarrow> 4 \<le> length d \<and> 0 < d ! 3 \<and> d ! 3 \<le> sl_size (sd_list ?s)"
    using conjunct2 [OF I(9) [unfolded in_network_def], THEN bspec, OF m(1)] by auto
  have w: "w 0 = sq a" "4 * length d \<noteq> 4 \<Longrightarrow> 0 \<le> w 3 \<and> w 3 \<le> sl_size (sd_list ?s)"
    using a(3-5) m(3) by (auto simp: length_greater_0_conv [symmetric] simp del: length_greater_0_conv)
  have le: "a \<le> ?S + int c" using a(2) I(4,14) by linarith
  from processCtrlAck_spec [where len = "4 * length d" and e = e and n = n, OF I(1) w(1) le m(2) w(2)] e have
    base: "snd_base s' = snd_base ?s" and
    P: "if ?S \<le> a then snd_inv s' (drop (nat (a - ?S)) ?q) a (c - nat (a - ?S)) {x \<in> X. a \<le> x} else snd_inv s' ?q ?S c X" by auto
  have fin: "transfer_inv isn (t\<lparr>tf_snd := s', tf_S := ?S + seqoff (sd_SndLastDataAck ?s) (sd_SndLastDataAck s')\<rparr>) N c' X' C Y"
    if j: "snd_inv s' (drop (nat (S' - isn)) (tf_blocks t)) S' c' X'" and S': "?S \<le> S'" "S' \<le> first_missing C Y" "N = S' + int c'" for S' c' X'
  proof -
    have "\<bar>S' - ?S\<bar> < 1073741823" using S'(1,2) I(4,14) D(8,10) by linarith
    then have T: "?S + seqoff (sd_SndLastDataAck ?s) (sd_SndLastDataAck s') = S'" using D(3) snd_invD(3) [OF j] by (simp add: seqoff_sq)
    have "nat (S' - isn) \<le> length (tf_blocks t)" using S'(2) I(10,14) by linarith
    then have "sender_right isn (t\<lparr>tf_snd := s', tf_S := S'\<rparr>)" using I(7) base S'(1) by (simp add: sender_right_def)
    moreover have "received_right isn (t\<lparr>tf_snd := s', tf_S := S'\<rparr>)" using I(8) by (simp add: received_right_def)
    moreover have "in_network isn (t\<lparr>tf_snd := s', tf_S := S'\<rparr>) N (first_missing C Y)" using I(9) base by (simp add: in_network_def)
    ultimately show ?thesis unfolding T using I(2,3,6) j S' by (simp add: transfer_inv_def)
  qed
  show ?thesis
  proof (cases "?S \<le> a")
    case True
    have "nat (a - isn) = nat (a - ?S) + nat (?S - isn)" using True I(12) by simp
    then have "snd_inv s' (drop (nat (a - isn)) (tf_blocks t)) a (c - nat (a - ?S)) {x \<in> X. a \<le> x}" using P True by simp
    moreover have "N = a + int (c - nat (a - ?S))" using True le I(4) by (simp add: of_nat_diff)
    ultimately show ?thesis using fin [of a] True a(2) by blast
  next
    case False
    then show ?thesis using P fin [of ?S c X] I(4,5) by auto
  qed
qed

lemma receiver_fixed_inv:
  assumes i: "transfer_inv isn t N c X C Y"
    and r': "rcv_inv r' (tf_A t) C Y" "rv_fixed r' = rv_fixed (tf_rcv t)" "rb_acked (rv_buffer r') = rb_acked (rv_buffer (tf_rcv t))"
      "rb_pending (rv_buffer r') = rb_pending (rv_buffer (tf_rcv t))"
  shows "transfer_inv isn (t\<lparr>tf_rcv := r'\<rparr>) N c X C Y"
proof -
  note I = transfer_invD [OF i]
  have f: "rv_LastAck r' = sq (tf_A t)" "rb_iNotch (rv_buffer r') = rb_iNotch (rv_buffer (tf_rcv t))" "rb_size (rv_buffer r') = rb_size (rv_buffer (tf_rcv t))"
    "tp_bTsbPdMode (rb_tsbpd (rv_buffer r')) = tp_bTsbPdMode (rb_tsbpd (rv_buffer (tf_rcv t)))"
    using r'(2) I(3) by (simp_all add: rv_fixed_def rb_fixed_def)
  have "received_right isn (t\<lparr>tf_rcv := r'\<rparr>)"
    using I(8) rcv_invD(1) [OF r'(1)] r'(3,4) f by (simp add: received_right_def stream_ok_def rb_stream_def)
  moreover have "sender_right isn (t\<lparr>tf_rcv := r'\<rparr>)" using I(7) f by (simp add: sender_right_def)
  moreover have "in_network isn (t\<lparr>tf_rcv := r'\<rparr>) N (first_missing C Y)" using I(9) by (simp add: in_network_def)
  ultimately show ?thesis using I(1,4-6) r'(1) f(1) by (simp add: transfer_inv_def)
qed

lemma sender_lists_inv:
  assumes i: "transfer_inv isn t N c X C Y"
    and s': "snd_inv s' (drop (nat (tf_S t - isn)) (tf_blocks t)) (tf_S t) c X'" "snd_base s' = snd_base (tf_snd t)"
  shows "transfer_inv isn (t\<lparr>tf_snd := s'\<rparr>) N c X' C Y"
proof -
  note I = transfer_invD [OF i]
  have "received_right isn (t\<lparr>tf_snd := s'\<rparr>)" using I(8) by (simp add: received_right_def)
  moreover have "sender_right isn (t\<lparr>tf_snd := s'\<rparr>)" using I(7) s'(2) by (simp add: sender_right_def)
  moreover have "in_network isn (t\<lparr>tf_snd := s'\<rparr>) N (first_missing C Y)" using I(9) s'(2) by (simp add: in_network_def)
  ultimately show ?thesis using I(2-6) s'(1) by (simp add: transfer_inv_def)
qed

lemma tf_loss_inv:
  assumes i: "transfer_inv isn t N c X C Y"
    and xs: "\<forall>(l, h)\<in>set xs. l \<le> h \<and> h < tf_S t + outstanding (tf_snd t) \<and> tf_S t - 268435456 < l"
    and nk: "processCtrl_LOSSREPORT (nak_enc xs) (sd_nak (tf_snd t)) = Some nk"
  shows "\<exists>X'. transfer_inv isn (t\<lparr>tf_snd := (tf_snd t)\<lparr>sd_nak := nk\<rparr>\<rparr>) N c X' C Y"
proof -
  note I = transfer_invD [OF i]
  note D = snd_invD [OF I(1)]
  have "outstanding (tf_snd t) = int c" using D(3,5,8,10) by (simp add: outstanding_def incseq_sq seqoff_sq)
  then have xs': "\<forall>(l, h)\<in>set xs. l \<le> h \<and> h < tf_S t + int c \<and> tf_S t - 268435456 < l" using xs by simp
  show ?thesis using loss_report_inv [OF I(1) xs'] nk by (intro exI sender_lists_inv [OF i]) auto
qed

lemma tf_read_inv:
  assumes i: "transfer_inv isn t N c X C Y" and e: "readBuffer now len (rv_buffer (tf_rcv t)) = (Some out, b')"
  shows "transfer_inv isn (t\<lparr>tf_rcv := (tf_rcv t)\<lparr>rv_buffer := b'\<rparr>, tf_read := tf_read t @ out\<rparr>) N c X C Y" (is "transfer_inv isn ?t N c X C Y")
proof -
  note I = transfer_invD [OF i]
  have b: "stream_ok (rv_buffer (tf_rcv t))" "\<not> tp_bTsbPdMode (rb_tsbpd (rv_buffer (tf_rcv t)))" using I(8) by (simp_all add: received_right_def)
  from readBuffer_spec [OF b, of now len] e have R: "out = take len (rb_stream (rv_buffer (tf_rcv t)))" "stream_ok b'"
    "rb_stream b' = drop len (rb_stream (rv_buffer (tf_rcv t)))" "rb_pending b' = rb_pending (rv_buffer (tf_rcv t))"
    "rb_size b' = rb_size (rv_buffer (tf_rcv t))" "rb_tsbpd b' = rb_tsbpd (rv_buffer (tf_rcv t))" by auto
  have j: "rcv_inv ((tf_rcv t)\<lparr>rv_buffer := b'\<rparr>) (tf_A t) C Y"
    using R rcv_invD(2-4) [OF I(2)] by (intro rcv_inv_same [OF I(2)]) (simp_all add: stream_ok_def)
  have "received_right isn ?t" using I(8) R by (simp add: received_right_def)
  moreover have "sender_right isn ?t" using I(7) R(5) by (simp add: sender_right_def)
  moreover have "in_network isn ?t N (first_missing C Y)" using I(9) by (simp add: in_network_def)
  ultimately show ?thesis using I(1,3-6) j by (simp add: transfer_inv_def)
qed

subsection \<open>All steps\<close>

lemma transfer_step_inv:
  assumes "transfer_step t t'" "transfer_inv isn t N c X C Y"
  shows "\<exists>N' c' X' C' Y'. transfer_inv isn t' N' c' X' C' Y'"
  using assms
proof (cases rule: transfer_step.cases)
  case (tf_write data ttl order srctime time m b)
  then show ?thesis using tf_write_inv [OF assms(2)] by blast
next
  case (tf_send e n po ts s')
  then show ?thesis using tf_send_inv [OF assms(2)] by blast
next
  case (tf_arrive q p e u rc r')
  then show ?thesis using tf_arrive_inv [OF assms(2)] by blast
next
  case (tf_ack e r' M)
  then show ?thesis using tf_ack_inv [OF assms(2)] by blast
next
  case (tf_acked a n d w e s')
  then show ?thesis using tf_acked_inv [OF assms(2)] by blast
next
  case (tf_ackack e n ts)
  note P = processCtrl_ACKACK_inv [where e = e and n = n and ts = ts and r = "tf_rcv t"]
  have "transfer_inv isn (t\<lparr>tf_rcv := processCtrl_ACKACK e n ts (tf_rcv t)\<rparr>) N c X C Y"
    using P(2-4) transfer_invD(2) [OF assms(2)] by (intro receiver_fixed_inv [OF assms(2)]) (simp_all add: P(1))
  then show ?thesis using tf_ackack by blast
next
  case (tf_loss xs nk)
  then show ?thesis using tf_loss_inv [OF assms(2)] by blast
next
  case (tf_timeout e s')
  then obtain X' where "snd_inv s' (drop (nat (tf_S t - isn)) (tf_blocks t)) (tf_S t) c X'" "snd_base s' = snd_base (tf_snd t)"
    using checkRexmitTimer_inv [OF transfer_invD(1) [OF assms(2)], of e] by auto
  then show ?thesis using sender_lists_inv [OF assms(2)] tf_timeout by blast
next
  case (tf_reading now len out b')
  then show ?thesis using tf_read_inv [OF assms(2)] by blast
qed

lemma transfer_init_inv:
  assumes "0 < n" "n \<le> 134217728" "0 < mss" "uq_inv pool" "0 < isn" "isn < 2147483648"
  shows "transfer_inv isn (transfer_init se re mss n pool arr isn) isn 0 {} (isn - 1) {}"
proof -
  let ?t = "transfer_init se re mss n pool arr isn"
  have s: "snd_inv (tf_snd ?t) [] isn 0 {}" using sender_new_inv [of mss "int n" isn se arr] assms by (simp add: transfer_init_def)
  have r: "rcv_inv (tf_rcv ?t) isn (isn - 1) {}" using receiver_new_inv [of n "int n" pool isn re arr] assms by (simp add: transfer_init_def)
  have b: "rb_acked (rv_buffer (tf_rcv ?t)) = []" "rb_pending (rv_buffer (tf_rcv ?t)) = []" "rb_iNotch (rv_buffer (tf_rcv ?t)) = 0"
    "\<not> tp_bTsbPdMode (rb_tsbpd (rv_buffer (tf_rcv ?t)))" "rb_size (rv_buffer (tf_rcv ?t)) = n" "rv_LastAck (tf_rcv ?t) = isn"
    by (simp_all add: transfer_init_def set_peer_isn_def receiver_new_def rb_new_def rb_acked_def rb_pending_def getRcvDataSize_def tsbpd_new_def)
  have sq: "sq isn = isn" using assms(5,6) by (simp add: sq_def)
  have "received_right isn ?t"
    using b rcv_invD(1) [OF r] by (simp add: received_right_def stream_ok_def rb_stream_def map_filter_simps) (simp add: transfer_init_def)
  moreover have "sender_right isn ?t"
    using assms b(5) by (simp add: sender_right_def msgno_less transfer_init_def set_isn_def sender_new_def sb_new_def snd_new_def)
  moreover have "in_network isn ?t isn isn" by (simp add: in_network_def transfer_init_def)
  moreover have "tf_S ?t = isn" "tf_A ?t = isn" "tf_blocks ?t = []" by (simp_all add: transfer_init_def)
  ultimately show ?thesis using s r b(6) sq by (simp add: transfer_inv_def first_missing_def)
qed

lemma transfer_reach_inv:
  assumes "transfer_step\<^sup>*\<^sup>* t0 t" "transfer_inv isn t0 N c X C Y"
  shows "\<exists>N c X C Y. transfer_inv isn t N c X C Y"
  using assms(1)
proof (induction rule: rtranclp_induct)
  case base
  show ?case using assms(2) by blast
next
  case (step y z)
  then show ?case using transfer_step_inv by blast
qed

lemma transfer_inv_prefix:
  assumes i: "transfer_inv isn t N c X C Y"
  shows "\<exists>rest. tf_written t = tf_read t @ rest" "\<not> nk_broken (sd_nak (tf_snd t))"
proof -
  note I = transfer_invD [OF i]
  have "tf_written t = concat (map bk_data (take (nat (tf_A t - isn)) (tf_blocks t))) @ concat (map bk_data (drop (nat (tf_A t - isn)) (tf_blocks t)))"
    using I(7) by (simp add: sender_right_def flip: concat_append map_append)
  moreover have "concat (map bk_data (take (nat (tf_A t - isn)) (tf_blocks t))) = tf_read t @ rb_stream (rv_buffer (tf_rcv t))"
    using I(8) by (simp add: received_right_def)
  ultimately show "\<exists>rest. tf_written t = tf_read t @ rest" by simp
  show "\<not> nk_broken (sd_nak (tf_snd t))" using I(7) by (simp add: sender_right_def)
qed


lemma transfer_inv_released:
  assumes i: "transfer_inv isn t N c X C Y" and p: "tf_A t \<le> p" "p < tf_S t"
  shows "filled (rv_buffer (tf_rcv t)) (nat (p - tf_A t))"
  using transfer_invD(5) [OF i] rcv_inv_missing(3) [OF transfer_invD(2) [OF i] p(1)] p(2) by simp

subsection \<open>The properties\<close>

text \<open>
  C1. Over a network that loses, repeats and reorders packets and acknowledgements, with any loss reports about packets
  that have been sent, any timeouts and any order of reading and writing: what the receiving application has read is
  always an initial part of what the sending application has written, the sender has released only packets that
  the receiver holds or has passed on, and no loss report breaks the connection.
\<close>

theorem transfer_safe:
  assumes "0 < n" "n \<le> 134217728" "0 < mss" "uq_inv pool" "0 < isn" "isn < 2147483648"
    and "transfer_step\<^sup>*\<^sup>* (transfer_init se re mss n pool arr isn) t"
  shows "(\<exists>rest. tf_written t = tf_read t @ rest) \<and>
    (\<forall>p. tf_A t \<le> p \<and> p < tf_S t \<longrightarrow> filled (rv_buffer (tf_rcv t)) (nat (p - tf_A t))) \<and> \<not> nk_broken (sd_nak (tf_snd t))"
proof -
  obtain N c X C Y where i: "transfer_inv isn t N c X C Y"
    using transfer_reach_inv [OF assms(7) transfer_init_inv [OF assms(1-6)]] by blast
  show ?thesis using transfer_inv_prefix [OF i] transfer_inv_released [OF i] by blast
qed

text \<open>The bytes 1, 2, 3 are written and the first packet is sent.\<close>

theorem transfer_safe_witness:
  "\<exists>t. transfer_step\<^sup>*\<^sup>* (transfer_init calm_snd calm_env 1 8 (uq_init 3 1500) (\<lambda>_. 7) 0x7FFFFFFF) t \<and>
     tf_written t = [1, 2, 3] \<and> tf_data t \<noteq> {} \<and> (\<exists>rest. tf_written t = tf_read t @ rest) \<and>
     (\<forall>p. tf_A t \<le> p \<and> p < tf_S t \<longrightarrow> filled (rv_buffer (tf_rcv t)) (nat (p - tf_A t)))"
proof -
  let ?t0 = "transfer_init calm_snd calm_env 1 8 (uq_init 3 1500) (\<lambda>_. 7) 0x7FFFFFFF"
  let ?s0 = "set_isn calm_snd 0x7FFFFFFF (sender_new calm_snd 1 8 (\<lambda>_. 7))"
  have s0: "tf_snd ?t0 = ?s0" "sd_buffer ?s0 = sb_new 32 1" "tf_data ?t0 = {}" "tf_written ?t0 = []"
    by (simp_all add: transfer_init_def set_isn_def sender_new_def)
  obtain b where b: "addBuffer [1, 2, 3] (- 1) True 0 700 (sb_new 32 1) = Some (1, b)"
    using addBuffer_blocks [OF sb_new_rep, of 32 1 "[1, 2, 3]" "- 1" True 0 700] by (auto simp: sb_new_def)
  define t1 where "t1 = ?t0\<lparr>tf_snd := ?s0\<lparr>sd_buffer := b\<rparr>, tf_written := [1, 2, 3],
    tf_blocks := tf_blocks ?t0 @ blocks_of [1, 2, 3] (- 1) True 0 700 (sb_iMSS (sd_buffer ?s0)) 1\<rparr>"
  have "transfer_step ?t0 t1" using tf_write [of "[1, 2, 3]" "- 1" True 0 700 ?t0 1 b] s0 b by (simp add: t1_def)
  moreover have "tf_snd t1 = sample_snd" using b by (simp add: t1_def sample_snd_def sample_msg_def)
  moreover have e: "se_filter calm_snd = None" "cipher_ok calm_snd" "se_CryptoFlags calm_snd = Some EK_NOENC" "se_CongestionWindow calm_snd = 16"
    by (simp_all add: calm_snd_def cipher_ok_def)
  moreover obtain n p ts s' where s': "packData calm_snd sample_snd = Some (n, Some p, ts, s')"
    using packData_spec [OF sample_snd_inv e(1,2)] e(4) by auto
  moreover define t2 where "t2 = t1\<lparr>tf_snd := s', tf_data := tf_data t1 \<union> packet_out (tf_S t1) (tf_snd t1) (Some p)\<rparr>"
  ultimately have "transfer_step\<^sup>*\<^sup>* ?t0 t2" using tf_send [of calm_snd t1 n "Some p" ts s'] by auto
  moreover have "tf_written t2 = [1, 2, 3]" "tf_data t2 \<noteq> {}" by (simp_all add: t2_def t1_def packet_out_def)
  ultimately show ?thesis
    using transfer_safe [of 8 1 "uq_init 3 1500" "0x7FFFFFFF" calm_snd calm_env "\<lambda>_. 7" t2] uq_init_inv [of 3 1500] by auto
qed

end
