(* ===== verification/Epoll.thy ===== *)
theory Epoll
  imports Prelude "HOL-Library.AList"
begin

unbundle bit_operations_syntax

text \<open>
  The event polls (\<open>CEPollDesc\<close> of \<open>include/epoll.h\<close>, \<open>CEPoll\<close> of \<open>epoll.cpp\<close>, as built for Linux). A poll has a
  subscription (\<open>Wait\<close>) for each socket, with the events that are on, and a list of notices that the waiting calls
  report. An iterator into that list is the number of its notice, and the pointer of a notice to its subscription is the
  socket of that. The system's own poll is a parameter: what \<open>epoll_ctl\<close> and \<open>epoll_wait\<close> answer.
\<close>

subsection \<open>One poll\<close>

definition SRT_EPOLL_IN :: "32 word" where "SRT_EPOLL_IN = 0x1"
definition SRT_EPOLL_OUT :: "32 word" where "SRT_EPOLL_OUT = 0x4"
definition SRT_EPOLL_ERR :: "32 word" where "SRT_EPOLL_ERR = 0x8"
definition SRT_EPOLL_ET :: "32 word" where "SRT_EPOLL_ET = 0x80000000"
definition SRT_EPOLL_ENABLE_EMPTY :: "32 word" where "SRT_EPOLL_ENABLE_EMPTY = 1"
definition SRT_EPOLL_ENABLE_OUTPUTCHECK :: "32 word" where "SRT_EPOLL_ENABLE_OUTPUTCHECK = 2"

lemmas epoll_bits = SRT_EPOLL_IN_def SRT_EPOLL_OUT_def SRT_EPOLL_ERR_def SRT_EPOLL_ET_def

record Wait =
  w_watch :: "32 word"
  w_edge :: "32 word"
  w_state :: "32 word"
  w_notit :: "nat option"

record Notice =
  nt_id :: nat
  nt_parent :: int
  nt_fd :: int
  nt_events :: "32 word"

record CEPollDesc =
  ed_iID :: int
  ed_USockWatchState :: "(int \<times> Wait) list"
  ed_USockEventNotice :: "Notice list"
  ed_fresh :: nat
  ed_Flags :: "32 word"
  ed_iLocalID :: int
  ed_sLocals :: "int set"

definition ed_new :: "int \<Rightarrow> int \<Rightarrow> CEPollDesc" where
  "ed_new i localID = \<lparr>ed_iID = i, ed_USockWatchState = [], ed_USockEventNotice = [], ed_fresh = 0, ed_Flags = 0, ed_iLocalID = localID, ed_sLocals = {}\<rparr>"

definition ed_flags :: "32 word \<Rightarrow> CEPollDesc \<Rightarrow> bool" where
  "ed_flags f d \<longleftrightarrow> ed_Flags d AND f \<noteq> 0"

definition watch_empty :: "CEPollDesc \<Rightarrow> bool" where
  "watch_empty d \<longleftrightarrow> ed_USockWatchState d = []"

definition watch_find :: "int \<Rightarrow> CEPollDesc \<Rightarrow> Wait option" where
  "watch_find u d = map_of (ed_USockWatchState d) u"

definition set_wait :: "int \<Rightarrow> Wait \<Rightarrow> CEPollDesc \<Rightarrow> CEPollDesc" where
  "set_wait u w d = d\<lparr>ed_USockWatchState := AList.update u w (ed_USockWatchState d)\<rparr>"

definition wait_new :: "32 word \<Rightarrow> bool \<Rightarrow> Wait" where
  "wait_new sub etr = \<lparr>w_watch = sub, w_edge = (if etr then sub else 0), w_state = 0, w_notit = None\<rparr>"

definition edgeOnly :: "Wait \<Rightarrow> 32 word" where
  "edgeOnly w = w_edge w AND w_watch w"

text \<open>The subscription of the socket, whether it is new, and the poll.\<close>

definition addWatch :: "int \<Rightarrow> 32 word \<Rightarrow> bool \<Rightarrow> CEPollDesc \<Rightarrow> Wait \<times> bool \<times> CEPollDesc" where
  "addWatch u events edgeTrg d =
     (case watch_find u d of
        Some w \<Rightarrow> (w, False, d)
      | None \<Rightarrow> (let w = wait_new events edgeTrg in (w, True, set_wait u w d)))"

definition map_notice :: "nat \<Rightarrow> (Notice \<Rightarrow> Notice) \<Rightarrow> CEPollDesc \<Rightarrow> CEPollDesc" where
  "map_notice i f d = d\<lparr>ed_USockEventNotice := map (\<lambda>n. if nt_id n = i then f n else n) (ed_USockEventNotice d)\<rparr>"

definition erase_notice :: "nat \<Rightarrow> CEPollDesc \<Rightarrow> CEPollDesc" where
  "erase_notice i d = d\<lparr>ed_USockEventNotice := filter (\<lambda>n. nt_id n \<noteq> i) (ed_USockEventNotice d)\<rparr>"

definition find_notice :: "nat \<Rightarrow> CEPollDesc \<Rightarrow> Notice option" where
  "find_notice i d = find (\<lambda>n. nt_id n = i) (ed_USockEventNotice d)"

definition addEventNotice :: "int \<Rightarrow> Wait \<Rightarrow> 32 word \<Rightarrow> CEPollDesc \<Rightarrow> CEPollDesc" where
  "addEventNotice u w events d =
     (case w_notit w of
        None \<Rightarrow>
          (let i = ed_fresh d; d = d\<lparr>ed_USockEventNotice := ed_USockEventNotice d @ [\<lparr>nt_id = i, nt_parent = u, nt_fd = u, nt_events = events\<rparr>], ed_fresh := i + 1\<rparr>
           in set_wait u (w\<lparr>w_notit := Some i\<rparr>) d)
      | Some i \<Rightarrow> map_notice i (\<lambda>n. n\<lparr>nt_events := nt_events n OR events\<rparr>) d)"

definition removeExistingNotices :: "int \<Rightarrow> Wait \<Rightarrow> CEPollDesc \<Rightarrow> CEPollDesc" where
  "removeExistingNotices u w d =
     (case w_notit w of None \<Rightarrow> d | Some i \<Rightarrow> set_wait u (w\<lparr>w_notit := None\<rparr>) (erase_notice i d))"

definition removeExcessEvents :: "int \<Rightarrow> Wait \<Rightarrow> 32 word \<Rightarrow> CEPollDesc \<Rightarrow> CEPollDesc" where
  "removeExcessEvents u w nevts d =
     (case w_notit w of
        None \<Rightarrow> d
      | Some i \<Rightarrow>
          (case find_notice i d of
             None \<Rightarrow> d
           | Some n \<Rightarrow>
               (let newstate = nt_events n AND nevts
                in if newstate \<noteq> 0 then map_notice i (\<lambda>n. n\<lparr>nt_events := newstate\<rparr>) d else removeExistingNotices u w d)))"

definition updateEventNotice :: "int \<Rightarrow> Wait \<Rightarrow> 32 word \<Rightarrow> bool \<Rightarrow> CEPollDesc \<Rightarrow> CEPollDesc" where
  "updateEventNotice u w events enable d = (if enable then addEventNotice u w events d else removeExcessEvents u w (NOT events) d)"

definition removeSubscription :: "int \<Rightarrow> CEPollDesc \<Rightarrow> CEPollDesc" where
  "removeSubscription u d =
     (case watch_find u d of
        None \<Rightarrow> d
      | Some w \<Rightarrow>
          (let d = (case w_notit w of None \<Rightarrow> d | Some i \<Rightarrow> erase_notice i d)
           in d\<lparr>ed_USockWatchState := AList.delete u (ed_USockWatchState d)\<rparr>))"

text \<open>A notice that has been reported loses its edge-triggered events.\<close>

definition checkEdge :: "Notice \<Rightarrow> CEPollDesc \<Rightarrow> CEPollDesc" where
  "checkEdge n d =
     (case watch_find (nt_parent n) d of
        None \<Rightarrow> d
      | Some w \<Rightarrow>
          (let events = nt_events n AND NOT (edgeOnly w)
           in if events = 0 then removeExistingNotices (nt_parent n) w d else map_notice (nt_id n) (\<lambda>n. n\<lparr>nt_events := events\<rparr>) d))"

subsection \<open>All polls\<close>

datatype ep_error = EP_SETUP | EP_EIDINVAL | EP_INVAL | EP_XMTIMEOUT | EP_SYSTEM

record CEPoll =
  ep_iIDSeed :: int
  ep_mPolls :: "int \<rightharpoonup> CEPollDesc"

definition ep_new :: CEPoll where
  "ep_new = \<lparr>ep_iIDSeed = 0, ep_mPolls = Map.empty\<rparr>"

text \<open>The result of \<open>epoll_create\<close> is \<open>localid\<close>.\<close>

definition ep_create :: "int \<Rightarrow> CEPoll \<Rightarrow> (ep_error + int) \<times> CEPoll" where
  "ep_create localid p =
     (let seed = (if ep_iIDSeed p + 1 \<ge> 0x7FFFFFFF then 0 else ep_iIDSeed p + 1); p = p\<lparr>ep_iIDSeed := seed\<rparr>
      in if ep_mPolls p seed \<noteq> None then (Inl EP_SETUP, p)
         else if localid < 0 then (Inl EP_SETUP, p)
         else (Inr seed, p\<lparr>ep_mPolls := (ep_mPolls p)(seed \<mapsto> ed_new seed localid)\<rparr>))"

definition add_ssock :: "bool \<Rightarrow> int \<Rightarrow> int \<Rightarrow> CEPoll \<Rightarrow> (ep_error + unit) \<times> CEPoll" where
  "add_ssock ctl_ok eid s p =
     (case ep_mPolls p eid of
        None \<Rightarrow> (Inl EP_EIDINVAL, p)
      | Some d \<Rightarrow> if \<not> ctl_ok then (Inl EP_SYSTEM, p)
          else (Inr (), p\<lparr>ep_mPolls := (ep_mPolls p)(eid \<mapsto> d\<lparr>ed_sLocals := insert s (ed_sLocals d)\<rparr>)\<rparr>))"

definition remove_ssock :: "bool \<Rightarrow> int \<Rightarrow> int \<Rightarrow> CEPoll \<Rightarrow> (ep_error + unit) \<times> CEPoll" where
  "remove_ssock ctl_ok eid s p =
     (case ep_mPolls p eid of
        None \<Rightarrow> (Inl EP_EIDINVAL, p)
      | Some d \<Rightarrow> if \<not> ctl_ok then (Inl EP_SYSTEM, p)
          else (Inr (), p\<lparr>ep_mPolls := (ep_mPolls p)(eid \<mapsto> d\<lparr>ed_sLocals := ed_sLocals d - {s}\<rparr>)\<rparr>))"

definition update_ssock :: "bool \<Rightarrow> int \<Rightarrow> int \<Rightarrow> CEPoll \<Rightarrow> (ep_error + unit) \<times> CEPoll" where
  "update_ssock ctl_ok eid s p =
     (case ep_mPolls p eid of None \<Rightarrow> (Inl EP_EIDINVAL, p) | Some d \<Rightarrow> if \<not> ctl_ok then (Inl EP_SYSTEM, p) else (Inr (), p))"

text \<open>The body of \<open>update_usock\<close> on the poll; \<open>None\<close> for \<open>events\<close> is the null pointer.\<close>

definition subscribe :: "int \<Rightarrow> 32 word \<Rightarrow> bool \<Rightarrow> CEPollDesc \<Rightarrow> CEPollDesc" where
  "subscribe u evts edgeTriggered d =
     (let (w, new, d) = addWatch u evts edgeTriggered d;
          d = (if \<not> new then
                 (let d = (if w_watch w AND NOT evts \<noteq> 0 then removeExcessEvents u w evts d else d);
                      w = the (watch_find u d)
                  in set_wait u (w\<lparr>w_watch := evts, w_edge := (if edgeTriggered then evts else w_edge w)\<rparr>) d)
               else d);
          w = the (watch_find u d);
          newstate = w_watch w AND w_state w
      in if newstate \<noteq> 0 then addEventNotice u w newstate d else d)"

definition update_usock :: "int \<Rightarrow> int \<Rightarrow> 32 word option \<Rightarrow> CEPoll \<Rightarrow> (ep_error + unit) \<times> CEPoll" where
  "update_usock eid u events p =
     (case ep_mPolls p eid of
        None \<Rightarrow> (Inl EP_EIDINVAL, p)
      | Some d \<Rightarrow>
          (let evts = (case events of Some x \<Rightarrow> x | None \<Rightarrow> SRT_EPOLL_IN OR SRT_EPOLL_OUT OR SRT_EPOLL_ERR);
               edgeTriggered = (evts AND SRT_EPOLL_ET \<noteq> 0); evts = evts AND NOT SRT_EPOLL_ET
           in if evts \<noteq> 0 then (Inr (), p\<lparr>ep_mPolls := (ep_mPolls p)(eid \<mapsto> subscribe u evts edgeTriggered d)\<rparr>)
              else if edgeTriggered then (Inl EP_INVAL, p)
              else (Inr (), p\<lparr>ep_mPolls := (ep_mPolls p)(eid \<mapsto> removeSubscription u d)\<rparr>)))"

definition ep_setflags :: "int \<Rightarrow> 32 word \<Rightarrow> CEPoll \<Rightarrow> (ep_error + 32 word) \<times> CEPoll" where
  "ep_setflags eid flags p =
     (case ep_mPolls p eid of
        None \<Rightarrow> (Inl EP_EIDINVAL, p)
      | Some d \<Rightarrow>
          (let oflags = ed_Flags d
           in if flags = - 1 then (Inr oflags, p)
              else (Inr oflags, p\<lparr>ep_mPolls := (ep_mPolls p)(eid \<mapsto> d\<lparr>ed_Flags :=
                (if flags = 0 then ed_Flags d AND NOT (NOT 0) else ed_Flags d OR flags)\<rparr>)\<rparr>)))"

definition ep_release :: "int \<Rightarrow> CEPoll \<Rightarrow> (ep_error + unit) \<times> CEPoll" where
  "ep_release eid p = (if ep_mPolls p eid = None then (Inl EP_EIDINVAL, p) else (Inr (), p\<lparr>ep_mPolls := (ep_mPolls p)(eid := None)\<rparr>))"

text \<open>The change of the events of socket \<open>u\<close> in one poll.\<close>

definition poll_events :: "int \<Rightarrow> 32 word \<Rightarrow> bool \<Rightarrow> CEPollDesc \<Rightarrow> CEPollDesc" where
  "poll_events u events enable d =
     (case watch_find u d of
        None \<Rightarrow> d
      | Some w \<Rightarrow>
          (let newstate = (if enable then w_state w OR events else w_state w AND NOT events); changes = w_state w XOR newstate
           in if changes = 0 then d
              else (let w = w\<lparr>w_state := newstate\<rparr>; d = set_wait u w d
                    in if changes AND w_watch w = 0 then d else updateEventNotice u w events enable d)))"

text \<open>The polls \<open>eids\<close> that a socket knows, in the order of the set; those that are gone are taken out of it.\<close>

fun update_events :: "int \<Rightarrow> int list \<Rightarrow> 32 word \<Rightarrow> bool \<Rightarrow> CEPoll \<Rightarrow> int list \<times> CEPoll" where
  "update_events u [] events enable p = ([], p)"
| "update_events u (eid # eids) events enable p =
     (case ep_mPolls p eid of
        None \<Rightarrow> update_events u eids events enable p
      | Some d \<Rightarrow>
          (let (rest, p) = update_events u eids events enable (p\<lparr>ep_mPolls := (ep_mPolls p)(eid \<mapsto> poll_events u events enable d)\<rparr>)
           in (eid # rest, p)))"

subsection \<open>Waiting\<close>

text \<open>The loop of \<open>uwait\<close> over the notices: the count and what is reported.\<close>

fun report_notices :: "int \<Rightarrow> int \<Rightarrow> Notice list \<Rightarrow> CEPollDesc \<Rightarrow> int \<times> (int \<times> 32 word) list \<times> CEPollDesc" where
  "report_notices fdsSize cnt [] d = (cnt, [], d)"
| "report_notices fdsSize cnt (n # ns) d =
     (if cnt + 1 > fdsSize then (cnt + 1, [], d)
      else (let (t, out, d) = report_notices fdsSize (cnt + 1) ns (checkEdge n d) in (t, (nt_fd n, nt_events n) # out, d)))"

text \<open>One round of \<open>uwait\<close>: an error, or the count, which ends the call unless it is 0, and the events.\<close>

definition uwait_round :: "int \<Rightarrow> int \<Rightarrow> bool \<Rightarrow> CEPoll \<Rightarrow> (ep_error + int \<times> (int \<times> 32 word) list) \<times> CEPoll" where
  "uwait_round eid fdsSize fdsSet_null p =
     (case ep_mPolls p eid of
        None \<Rightarrow> (Inl EP_EIDINVAL, p)
      | Some d \<Rightarrow>
          if \<not> ed_flags SRT_EPOLL_ENABLE_EMPTY d \<and> watch_empty d then (Inl EP_INVAL, p)
          else if ed_flags SRT_EPOLL_ENABLE_OUTPUTCHECK d \<and> (fdsSet_null \<or> fdsSize = 0) then (Inl EP_INVAL, p)
          else if ed_sLocals d \<noteq> {} then (Inl EP_INVAL, p)
          else (let (cnt, out, d) = report_notices fdsSize 0 (ed_USockEventNotice d) d
                in (Inr (cnt, out), p\<lparr>ep_mPolls := (ep_mPolls p)(eid \<mapsto> d)\<rparr>)))"

text \<open>
  The loop, with the time at the end of each round and what others do to the polls while it waits
  (\<open>None\<close>: the list is used up, it would go on waiting).
\<close>

fun uwait_rounds :: "int \<Rightarrow> int \<Rightarrow> bool \<Rightarrow> int \<Rightarrow> int \<Rightarrow> (int \<times> (CEPoll \<Rightarrow> CEPoll)) list \<Rightarrow> CEPoll \<Rightarrow>
    ((ep_error + int \<times> (int \<times> 32 word) list) \<times> CEPoll) option" where
  "uwait_rounds eid fdsSize fdsSet_null msTimeOut entertime [] p = None"
| "uwait_rounds eid fdsSize fdsSet_null msTimeOut entertime ((now, others) # rounds) p =
     (case uwait_round eid fdsSize fdsSet_null p of
        (Inl e, p) \<Rightarrow> Some (Inl e, p)
      | (Inr (cnt, out), p) \<Rightarrow>
          if cnt \<noteq> 0 then Some (Inr (cnt, out), p)
          else if msTimeOut \<ge> 0 \<and> now - entertime \<ge> msTimeOut * 1000 then Some (Inr (0, []), p)
          else uwait_rounds eid fdsSize fdsSet_null msTimeOut entertime rounds (others p))"

definition uwait :: "int \<Rightarrow> int \<Rightarrow> bool \<Rightarrow> int \<Rightarrow> int \<Rightarrow> (int \<times> (CEPoll \<Rightarrow> CEPoll)) list \<Rightarrow> CEPoll \<Rightarrow>
    ((ep_error + int \<times> (int \<times> 32 word) list) \<times> CEPoll) option" where
  "uwait eid fdsSize fdsSet_null msTimeOut entertime rounds p =
     (if fdsSize < 0 \<or> fdsSize > 0 \<and> fdsSet_null then Some (Inl EP_INVAL, p)
      else uwait_rounds eid fdsSize fdsSet_null msTimeOut entertime rounds p)"

text \<open>A set that may be a null pointer, and the insertion that counts new elements.\<close>

definition report_fd :: "bool \<Rightarrow> int \<Rightarrow> int set option \<Rightarrow> int \<Rightarrow> int set option \<times> int" where
  "report_fd on fd fds cnt =
     (case fds of
        None \<Rightarrow> (None, cnt)
      | Some s \<Rightarrow> if on then (Some (insert fd s), if fd \<in> s then cnt else cnt + 1) else (Some s, cnt))"

fun report_sets :: "Notice list \<Rightarrow> int set option \<Rightarrow> int set option \<Rightarrow> int \<Rightarrow> CEPollDesc \<Rightarrow> int set option \<times> int set option \<times> int \<times> CEPollDesc" where
  "report_sets [] rs ws cnt d = (rs, ws, cnt, d)"
| "report_sets (n # ns) rs ws cnt d =
     (let (rs, cnt) = report_fd (nt_events n AND SRT_EPOLL_IN \<noteq> 0 \<or> nt_events n AND SRT_EPOLL_ERR \<noteq> 0) (nt_fd n) rs cnt;
          (ws, cnt) = report_fd (nt_events n AND SRT_EPOLL_OUT \<noteq> 0 \<or> nt_events n AND SRT_EPOLL_ERR \<noteq> 0) (nt_fd n) ws cnt
      in report_sets ns rs ws cnt (checkEdge n d))"

text \<open>What the system's poll reports: descriptors with readable and writable.\<close>

fun report_locals :: "(int \<times> bool \<times> bool) list \<Rightarrow> int set option \<Rightarrow> int set option \<Rightarrow> int \<Rightarrow> int set option \<times> int set option \<times> int" where
  "report_locals [] rs ws cnt = (rs, ws, cnt)"
| "report_locals ((fd, r, w) # xs) rs ws cnt =
     report_locals xs (if r then map_option (insert fd) rs else rs) (if w then map_option (insert fd) ws else ws)
       (cnt + (if r \<and> rs \<noteq> None then 1 else 0) + (if w \<and> ws \<noteq> None then 1 else 0))"

record ep_sets =
  es_readfds :: "int set option"
  es_writefds :: "int set option"
  es_lrfds :: "int set option"
  es_lwfds :: "int set option"

definition wait_round :: "(int \<times> bool \<times> bool) list \<Rightarrow> int \<Rightarrow> ep_sets \<Rightarrow> CEPoll \<Rightarrow> (ep_error + int \<times> ep_sets) \<times> CEPoll" where
  "wait_round ready eid fds p =
     (case ep_mPolls p eid of
        None \<Rightarrow> (Inl EP_EIDINVAL, p)
      | Some d \<Rightarrow>
          if \<not> ed_flags SRT_EPOLL_ENABLE_EMPTY d \<and> watch_empty d \<and> ed_sLocals d = {} then (Inl EP_INVAL, p)
          else if ed_flags SRT_EPOLL_ENABLE_OUTPUTCHECK d \<and> ed_sLocals d \<noteq> {} \<and> (es_lrfds fds = None \<or> es_lwfds fds = None) then (Inl EP_INVAL, p)
          else if ed_flags SRT_EPOLL_ENABLE_OUTPUTCHECK d \<and> \<not> watch_empty d \<and> (es_readfds fds = None \<or> es_writefds fds = None) then (Inl EP_INVAL, p)
          else
            (let (rs, ws, cnt, d) = report_sets (ed_USockEventNotice d) (es_readfds fds) (es_writefds fds) 0 d;
                 (lrs, lws, cnt) = (if es_lrfds fds \<noteq> None \<or> es_lwfds fds \<noteq> None then report_locals ready (es_lrfds fds) (es_lwfds fds) cnt
                    else (es_lrfds fds, es_lwfds fds, cnt))
             in (Inr (cnt, \<lparr>es_readfds = rs, es_writefds = ws, es_lrfds = lrs, es_lwfds = lws\<rparr>), p\<lparr>ep_mPolls := (ep_mPolls p)(eid \<mapsto> d)\<rparr>)))"

fun wait_rounds :: "int \<Rightarrow> int \<Rightarrow> int \<Rightarrow> (int \<times> (int \<times> bool \<times> bool) list \<times> (CEPoll \<Rightarrow> CEPoll)) list \<Rightarrow> ep_sets \<Rightarrow> CEPoll \<Rightarrow>
    ((ep_error + int \<times> ep_sets) \<times> CEPoll) option" where
  "wait_rounds eid msTimeOut entertime [] fds p = None"
| "wait_rounds eid msTimeOut entertime ((now, ready, others) # rounds) fds p =
     (case wait_round ready eid fds p of
        (Inl e, p) \<Rightarrow> Some (Inl e, p)
      | (Inr (cnt, fds), p) \<Rightarrow>
          if cnt > 0 then Some (Inr (cnt, fds), p)
          else if msTimeOut \<ge> 0 \<and> now - entertime \<ge> msTimeOut * 1000 then Some (Inl EP_XMTIMEOUT, p)
          else wait_rounds eid msTimeOut entertime rounds fds (others p))"

definition ep_wait :: "int \<Rightarrow> int \<Rightarrow> int \<Rightarrow> (int \<times> (int \<times> bool \<times> bool) list \<times> (CEPoll \<Rightarrow> CEPoll)) list \<Rightarrow> ep_sets \<Rightarrow> CEPoll \<Rightarrow>
    ((ep_error + int \<times> ep_sets) \<times> CEPoll) option" where
  "ep_wait eid msTimeOut entertime rounds fds p =
     (if es_readfds fds = None \<and> es_writefds fds = None \<and> es_lrfds fds = None \<and> es_lwfds fds = None \<and> msTimeOut < 0 then Some (Inl EP_INVAL, p)
      else (let clear = map_option (\<lambda>_. {})
            in wait_rounds eid msTimeOut entertime rounds \<lparr>es_readfds = clear (es_readfds fds), es_writefds = clear (es_writefds fds),
                 es_lrfds = clear (es_lrfds fds), es_lwfds = clear (es_lwfds fds)\<rparr> p))"

subsection \<open>The view of the subscribers\<close>

text \<open>Every notice belongs to the subscription that points to it, and the other way round.\<close>

definition ed_ok :: "CEPollDesc \<Rightarrow> bool" where
  "ed_ok d \<longleftrightarrow> distinct (map nt_id (ed_USockEventNotice d)) \<and>
     (\<forall>n\<in>set (ed_USockEventNotice d). nt_id n < ed_fresh d \<and> nt_fd n = nt_parent n \<and> nt_events n \<noteq> 0 \<and>
       (\<exists>w. watch_find (nt_parent n) d = Some w \<and> w_notit w = Some (nt_id n))) \<and>
     (\<forall>u w i. watch_find u d = Some w \<longrightarrow> w_notit w = Some i \<longrightarrow> (\<exists>n\<in>set (ed_USockEventNotice d). nt_id n = i \<and> nt_parent n = u))"

record subscriber =
  vw_watch :: "32 word"
  vw_edge :: "32 word"
  vw_state :: "32 word"
  vw_events :: "32 word"

definition noticed :: "CEPollDesc \<Rightarrow> Wait \<Rightarrow> 32 word" where
  "noticed d w = (case w_notit w of None \<Rightarrow> 0 | Some i \<Rightarrow> (case find_notice i d of None \<Rightarrow> 0 | Some n \<Rightarrow> nt_events n))"

definition view_of :: "CEPollDesc \<Rightarrow> Wait \<Rightarrow> subscriber" where
  "view_of d w = \<lparr>vw_watch = w_watch w, vw_edge = w_edge w, vw_state = w_state w, vw_events = noticed d w\<rparr>"

definition ed_view :: "CEPollDesc \<Rightarrow> int \<rightharpoonup> subscriber" where
  "ed_view d u = map_option (view_of d) (watch_find u d)"

lemma watch_find_set [simp]: "watch_find v (set_wait u w d) = (if v = u then Some w else watch_find v d)"
  by (simp add: watch_find_def set_wait_def update_conv')

lemma set_wait_fields [simp]:
  "ed_USockEventNotice (set_wait u w d) = ed_USockEventNotice d" "ed_fresh (set_wait u w d) = ed_fresh d" "find_notice i (set_wait u w d) = find_notice i d"
  by (simp_all add: set_wait_def find_notice_def)

lemma notice_list_fields [simp]:
  "watch_find u (map_notice i f d) = watch_find u d" "watch_find u (erase_notice i d) = watch_find u d"
  "ed_fresh (map_notice i f d) = ed_fresh d" "ed_fresh (erase_notice i d) = ed_fresh d"
  by (simp_all add: map_notice_def erase_notice_def watch_find_def)

lemma find_notice_iff:
  assumes "distinct (map nt_id (ed_USockEventNotice d))"
  shows "find_notice i d = Some n \<longleftrightarrow> n \<in> set (ed_USockEventNotice d) \<and> nt_id n = i"
proof -
  have "find (\<lambda>n. nt_id n = i) ns = Some n \<longleftrightarrow> n \<in> set ns \<and> nt_id n = i" if "distinct (map nt_id ns)" for ns
    using that by (induction ns) auto
  then show ?thesis using assms by (simp add: find_notice_def)
qed

lemma find_map_notice:
  assumes "\<And>n. nt_id (f n) = nt_id n"
  shows "find_notice j (map_notice i f d) = (if j = i then map_option f (find_notice j d) else find_notice j d)"
proof -
  have "find (\<lambda>n. nt_id n = j) (map (\<lambda>n. if nt_id n = i then f n else n) ns) =
      (if j = i then map_option f (find (\<lambda>n. nt_id n = j) ns) else find (\<lambda>n. nt_id n = j) ns)" for ns
    using assms by (induction ns) auto
  then show ?thesis by (simp add: find_notice_def map_notice_def)
qed

lemma find_erase_notice: "find_notice j (erase_notice i d) = (if j = i then None else find_notice j d)"
proof -
  have "find (\<lambda>n. nt_id n = j) (filter (\<lambda>n. nt_id n \<noteq> i) ns) = (if j = i then None else find (\<lambda>n. nt_id n = j) ns)" for ns :: "Notice list"
    by (induction ns) auto
  then show ?thesis by (simp add: find_notice_def erase_notice_def)
qed

lemma ed_okD:
  assumes "ed_ok d"
  shows "distinct (map nt_id (ed_USockEventNotice d))" "\<And>n. n \<in> set (ed_USockEventNotice d) \<Longrightarrow> nt_id n < ed_fresh d"
    "\<And>n. n \<in> set (ed_USockEventNotice d) \<Longrightarrow> nt_fd n = nt_parent n" "\<And>n. n \<in> set (ed_USockEventNotice d) \<Longrightarrow> nt_events n \<noteq> 0"
    "\<And>n. n \<in> set (ed_USockEventNotice d) \<Longrightarrow> \<exists>w. watch_find (nt_parent n) d = Some w \<and> w_notit w = Some (nt_id n)"
    "\<And>u w i. watch_find u d = Some w \<Longrightarrow> w_notit w = Some i \<Longrightarrow> \<exists>n. find_notice i d = Some n \<and> n \<in> set (ed_USockEventNotice d) \<and> nt_id n = i \<and> nt_parent n = u"
  using assms find_notice_iff [of d] unfolding ed_ok_def by blast+

lemma ed_ok_owner:
  assumes o: "ed_ok d" and w: "watch_find u d = Some w" "w_notit w = Some i" and v: "watch_find v d = Some x" "w_notit x = Some i"
  shows "v = u"
  using ed_okD(6) [OF o w] ed_okD(6) [OF o v] by auto

lemma ed_view_eqI:
  assumes "watch_find u d' = Some w'" "view_of d' w' = s" "\<And>v. v \<noteq> u \<Longrightarrow> watch_find v d' = watch_find v d"
    "\<And>v x. v \<noteq> u \<Longrightarrow> watch_find v d = Some x \<Longrightarrow> noticed d' x = noticed d x"
  shows "ed_view d' = (ed_view d)(u \<mapsto> s)"
proof
  fix v
  show "ed_view d' v = ((ed_view d)(u \<mapsto> s)) v"
    using assms(1,2) assms(3) [of v] assms(4) [of v] by (cases "v = u"; cases "watch_find v d") (simp_all add: ed_view_def view_of_def)
qed

lemma noticed_set [simp]: "noticed (set_wait u w d) = noticed d"
  by (simp add: fun_eq_iff noticed_def cong: option.case_cong)

lemma set_wait_view:
  assumes o: "ed_ok d" and w: "watch_find u d = Some w" and w': "w_notit w' = w_notit w"
  shows "ed_ok (set_wait u w' d)" "ed_view (set_wait u w' d) = (ed_view d)(u \<mapsto> view_of d w')"
proof -
  show "ed_ok (set_wait u w' d)" using o w w' unfolding ed_ok_def by (auto split: if_splits)
  show "ed_view (set_wait u w' d) = (ed_view d)(u \<mapsto> view_of d w')"
    by (rule ed_view_eqI [of _ _ w']) (simp_all add: view_of_def)
qed

lemma map_notice_view:
  assumes o: "ed_ok d" and w: "watch_find u d = Some w" "w_notit w = Some i" and e: "f (noticed d w) \<noteq> 0"
  defines "d' \<equiv> map_notice i (\<lambda>n. n\<lparr>nt_events := f (nt_events n)\<rparr>) d"
  shows "ed_ok d'" "ed_view d' = (ed_view d)(u \<mapsto> (view_of d w)\<lparr>vw_events := f (noticed d w)\<rparr>)"
proof -
  obtain n where n: "find_notice i d = Some n" "n \<in> set (ed_USockEventNotice d)" "nt_id n = i" "nt_parent n = u" using ed_okD(6) [OF o w] by blast
  have nt: "noticed d w = nt_events n" using w(2) n(1) by (simp add: noticed_def)
  have f: "find_notice j d' = (if j = i then map_option (\<lambda>n. n\<lparr>nt_events := f (nt_events n)\<rparr>) (find_notice j d) else find_notice j d)" for j
    unfolding d'_def by (rule find_map_notice) simp
  have only: "m = n" if "m \<in> set (ed_USockEventNotice d)" "nt_id m = i" for m
    using that find_notice_iff [OF ed_okD(1) [OF o]] n(1) by (metis option.inject)
  have ids: "map nt_id (ed_USockEventNotice d') = map nt_id (ed_USockEventNotice d)" by (simp add: d'_def map_notice_def)
  have mem: "m \<in> set (ed_USockEventNotice d') \<longleftrightarrow> (\<exists>k\<in>set (ed_USockEventNotice d). m = (if nt_id k = i then k\<lparr>nt_events := f (nt_events k)\<rparr> else k))" for m
    unfolding d'_def map_notice_def by (simp del: if_image_distrib add: image_iff)
  have wf: "watch_find v d' = watch_find v d" "ed_fresh d' = ed_fresh d" for v by (simp_all add: d'_def)
  have 1: "nt_id m < ed_fresh d' \<and> nt_fd m = nt_parent m \<and> nt_events m \<noteq> 0 \<and> (\<exists>w. watch_find (nt_parent m) d' = Some w \<and> w_notit w = Some (nt_id m))"
    if m: "m \<in> set (ed_USockEventNotice d')" for m
  proof -
    obtain k where k: "k \<in> set (ed_USockEventNotice d)" "m = (if nt_id k = i then k\<lparr>nt_events := f (nt_events k)\<rparr> else k)"
      using mem [THEN iffD1, OF m] by blast
    have "nt_events m \<noteq> 0" using k only [OF k(1)] e nt ed_okD(4) [OF o k(1)] by auto
    moreover have "nt_id m = nt_id k" "nt_parent m = nt_parent k" "nt_fd m = nt_fd k" using k(2) by simp_all
    ultimately show ?thesis using ed_okD(2,3,5) [OF o k(1)] wf by simp
  qed
  have 2: "\<exists>m\<in>set (ed_USockEventNotice d'). nt_id m = j \<and> nt_parent m = v" if vx: "watch_find v d' = Some x" "w_notit x = Some j" for v x j
  proof -
    obtain k where "k \<in> set (ed_USockEventNotice d)" "nt_id k = j" "nt_parent k = v" using ed_okD(6) [OF o, of v x j] vx wf by auto
    then show ?thesis unfolding mem by (intro bexI [of _ "if nt_id k = i then k\<lparr>nt_events := f (nt_events k)\<rparr> else k"]) (auto simp: mem)
  qed
  show "ed_ok d'" unfolding ed_ok_def ids using ed_okD(1) [OF o] 1 2 by blast
  show "ed_view d' = (ed_view d)(u \<mapsto> (view_of d w)\<lparr>vw_events := f (noticed d w)\<rparr>)"
  proof (rule ed_view_eqI)
    show "watch_find u d' = Some w" using wf w by simp
    show "view_of d' w = (view_of d w)\<lparr>vw_events := f (noticed d w)\<rparr>" using w(2) n(1) f [of i] by (simp add: view_of_def noticed_def)
    show "noticed d' x = noticed d x" if "v \<noteq> u" "watch_find v d = Some x" for v x
    proof -
      have "w_notit x \<noteq> Some i" using ed_ok_owner [OF o w that(2)] that(1) by blast
      then show ?thesis using f by (auto simp: noticed_def split: option.splits)
    qed
  qed (use wf in simp)
qed

lemma erase_notice_view:
  assumes o: "ed_ok d" and w: "watch_find u d = Some w" "w_notit w = Some i"
  defines "d' \<equiv> set_wait u (w\<lparr>w_notit := None\<rparr>) (erase_notice i d)"
  shows "ed_ok d'" "ed_view d' = (ed_view d)(u \<mapsto> (view_of d w)\<lparr>vw_events := 0\<rparr>)"
proof -
  obtain n where n: "find_notice i d = Some n" "n \<in> set (ed_USockEventNotice d)" "nt_id n = i" "nt_parent n = u" using ed_okD(6) [OF o w] by blast
  have ns: "ed_USockEventNotice d' = filter (\<lambda>n. nt_id n \<noteq> i) (ed_USockEventNotice d)" by (simp add: d'_def erase_notice_def)
  have wf: "watch_find v d' = (if v = u then Some (w\<lparr>w_notit := None\<rparr>) else watch_find v d)" "ed_fresh d' = ed_fresh d" for v by (simp_all add: d'_def)
  have other: "w_notit x \<noteq> Some i" if "v \<noteq> u" "watch_find v d = Some x" for v x using ed_ok_owner [OF o w that(2)] that(1) by blast
  have "distinct (map nt_id (ed_USockEventNotice d'))" using ed_okD(1) [OF o] unfolding ns by (rule distinct_map_filter)
  moreover have "nt_id m < ed_fresh d' \<and> nt_fd m = nt_parent m \<and> nt_events m \<noteq> 0 \<and> (\<exists>w. watch_find (nt_parent m) d' = Some w \<and> w_notit w = Some (nt_id m))"
    if "m \<in> set (ed_USockEventNotice d')" for m
  proof -
    have m: "m \<in> set (ed_USockEventNotice d)" "nt_id m \<noteq> i" using that ns by auto
    then obtain x where x: "watch_find (nt_parent m) d = Some x" "w_notit x = Some (nt_id m)" using ed_okD(5) [OF o] by blast
    then have "nt_parent m \<noteq> u" using w m(2) by auto
    then show ?thesis using ed_okD(2-4) [OF o m(1)] x wf by auto
  qed
  moreover have "\<exists>m\<in>set (ed_USockEventNotice d'). nt_id m = j \<and> nt_parent m = v" if "watch_find v d' = Some x" "w_notit x = Some j" for v x j
  proof -
    have v: "v \<noteq> u" "watch_find v d = Some x" using that wf by (auto split: if_splits)
    then show ?thesis using ed_okD(6) [OF o v(2) that(2)] other [OF v] that(2) unfolding ns by auto
  qed
  ultimately show "ed_ok d'" unfolding ed_ok_def by blast
  show "ed_view d' = (ed_view d)(u \<mapsto> (view_of d w)\<lparr>vw_events := 0\<rparr>)"
  proof (rule ed_view_eqI)
    show "watch_find u d' = Some (w\<lparr>w_notit := None\<rparr>)" using wf by simp
    show "view_of d' (w\<lparr>w_notit := None\<rparr>) = (view_of d w)\<lparr>vw_events := 0\<rparr>" by (simp add: view_of_def noticed_def)
    show "noticed d' x = noticed d x" if "v \<noteq> u" "watch_find v d = Some x" for v x
      using other [OF that] by (auto simp: noticed_def d'_def find_erase_notice split: option.splits)
  qed (use wf in simp)
qed

subsection \<open>The operations on the view\<close>

lemma noticed_nonzero: "ed_ok d \<Longrightarrow> watch_find u d = Some w \<Longrightarrow> w_notit w = Some i \<Longrightarrow> noticed d w \<noteq> 0"
  using ed_okD(6) [of d u w i] ed_okD(4) [of d] by (auto simp: noticed_def)

lemma addEventNotice_view:
  assumes o: "ed_ok d" and w: "watch_find u d = Some w" and e: "ev \<noteq> 0"
  shows "ed_ok (addEventNotice u w ev d)" "ed_view (addEventNotice u w ev d) = (ed_view d)(u \<mapsto> (view_of d w)\<lparr>vw_events := noticed d w OR ev\<rparr>)"
proof -
  let ?d = "addEventNotice u w ev d"
  have "ed_ok ?d \<and> ed_view ?d = (ed_view d)(u \<mapsto> (view_of d w)\<lparr>vw_events := noticed d w OR ev\<rparr>)"
  proof (cases "w_notit w")
    case None
    define d1 where "d1 = d\<lparr>ed_USockEventNotice := ed_USockEventNotice d @ [\<lparr>nt_id = ed_fresh d, nt_parent = u, nt_fd = u, nt_events = ev\<rparr>], ed_fresh := ed_fresh d + 1\<rparr>"
    have d': "?d = set_wait u (w\<lparr>w_notit := Some (ed_fresh d)\<rparr>) d1" using None by (simp add: addEventNotice_def Let_def d1_def)
    have wf: "watch_find v ?d = (if v = u then Some (w\<lparr>w_notit := Some (ed_fresh d)\<rparr>) else watch_find v d)" for v
    proof -
      have "watch_find v d1 = watch_find v d" by (simp add: d1_def watch_find_def)
      then show ?thesis unfolding d' by simp
    qed
    have ns: "ed_USockEventNotice ?d = ed_USockEventNotice d @ [\<lparr>nt_id = ed_fresh d, nt_parent = u, nt_fd = u, nt_events = ev\<rparr>]" "ed_fresh ?d = ed_fresh d + 1"
      unfolding d' by (simp_all add: d1_def)
    have fresh: "ed_fresh d \<notin> nt_id ` set (ed_USockEventNotice d)" using ed_okD(2) [OF o] by fastforce
    have fn: "find_notice j ?d = (if j = ed_fresh d then Some \<lparr>nt_id = ed_fresh d, nt_parent = u, nt_fd = u, nt_events = ev\<rparr> else find_notice j d)" for j
    proof -
      have "find (\<lambda>n. nt_id n = j) (xs @ [y]) = (case find (\<lambda>n. nt_id n = j) xs of Some n \<Rightarrow> Some n | None \<Rightarrow> if nt_id y = j then Some y else None)"
        for xs and y :: Notice by (induction xs) auto
      moreover have "find_notice (ed_fresh d) d = None" using fresh unfolding find_notice_def find_None_iff by (metis image_eqI)
      ultimately show ?thesis unfolding find_notice_def ns by (simp split: option.split)
    qed
    have "distinct (map nt_id (ed_USockEventNotice ?d))" using ed_okD(1) [OF o] fresh ns by simp
    moreover have "nt_id m < ed_fresh ?d \<and> nt_fd m = nt_parent m \<and> nt_events m \<noteq> 0 \<and> (\<exists>w. watch_find (nt_parent m) ?d = Some w \<and> w_notit w = Some (nt_id m))"
      if "m \<in> set (ed_USockEventNotice ?d)" for m
    proof (cases "m \<in> set (ed_USockEventNotice d)")
      case True
      then obtain x where x: "watch_find (nt_parent m) d = Some x" "w_notit x = Some (nt_id m)" using ed_okD(5) [OF o] by blast
      then have "nt_parent m \<noteq> u" using w None by auto
      then show ?thesis using ed_okD(2-4) [OF o True] x wf ns by (auto intro: less_SucI)
    next
      case False
      then show ?thesis using that ns wf e by auto
    qed
    moreover have "\<exists>m\<in>set (ed_USockEventNotice ?d). nt_id m = j \<and> nt_parent m = v" if "watch_find v ?d = Some x" "w_notit x = Some j" for v x j
      using that wf ns ed_okD(6) [OF o, of v x j] by (cases "v = u") auto
    ultimately have "ed_ok ?d" unfolding ed_ok_def by blast
    moreover have "ed_view ?d = (ed_view d)(u \<mapsto> (view_of d w)\<lparr>vw_events := noticed d w OR ev\<rparr>)"
    proof (rule ed_view_eqI)
      show "watch_find u ?d = Some (w\<lparr>w_notit := Some (ed_fresh d)\<rparr>)" using wf by simp
      show "view_of ?d (w\<lparr>w_notit := Some (ed_fresh d)\<rparr>) = (view_of d w)\<lparr>vw_events := noticed d w OR ev\<rparr>"
        using fn None by (simp add: view_of_def noticed_def)
      show "noticed ?d x = noticed d x" if "v \<noteq> u" "watch_find v d = Some x" for v x
      proof (cases "w_notit x")
        case (Some j)
        then have "j < ed_fresh d" using ed_okD(6) [OF o that(2)] ed_okD(2) [OF o] by blast
        then show ?thesis using Some fn by (simp add: noticed_def)
      qed (simp add: noticed_def)
    qed (use wf in simp)
    ultimately show ?thesis by blast
  next
    case (Some i)
    have "noticed d w OR ev \<noteq> 0" using e by (simp add: or_eq_0_iff)
    then show ?thesis using map_notice_view [OF o w Some, of "\<lambda>x. x OR ev"] Some by (simp add: addEventNotice_def)
  qed
  then show "ed_ok ?d" "ed_view ?d = (ed_view d)(u \<mapsto> (view_of d w)\<lparr>vw_events := noticed d w OR ev\<rparr>)" by blast+
qed

lemma view_same: "watch_find u d = Some w \<Longrightarrow> (ed_view d)(u \<mapsto> view_of d w) = ed_view d"
  by (auto simp: ed_view_def)

lemma removeExcessEvents_view:
  assumes o: "ed_ok d" and w: "watch_find u d = Some w"
  shows "ed_ok (removeExcessEvents u w nevts d)"
    "ed_view (removeExcessEvents u w nevts d) = (ed_view d)(u \<mapsto> (view_of d w)\<lparr>vw_events := noticed d w AND nevts\<rparr>)"
proof -
  let ?d = "removeExcessEvents u w nevts d"
  have "ed_ok ?d \<and> ed_view ?d = (ed_view d)(u \<mapsto> (view_of d w)\<lparr>vw_events := noticed d w AND nevts\<rparr>)"
  proof (cases "w_notit w")
    case None
    then have "noticed d w = 0" by (simp add: noticed_def)
    moreover have "view_of d w = (view_of d w)\<lparr>vw_events := noticed d w\<rparr>" by (simp add: view_of_def)
    ultimately show ?thesis using None o view_same [OF w] by (simp add: removeExcessEvents_def)
  next
    case (Some i)
    obtain n where n: "find_notice i d = Some n" using ed_okD(6) [OF o w Some] by blast
    have nt: "noticed d w = nt_events n" using Some n by (simp add: noticed_def)
    show ?thesis
    proof (cases "nt_events n AND nevts = 0")
      case True
      then show ?thesis using erase_notice_view [OF o w Some] Some n nt by (simp add: removeExcessEvents_def removeExistingNotices_def)
    next
      case False
      then show ?thesis using map_notice_view [OF o w Some, of "\<lambda>_. nt_events n AND nevts"] Some n nt by (simp add: removeExcessEvents_def Let_def)
    qed
  qed
  then show "ed_ok ?d" "ed_view ?d = (ed_view d)(u \<mapsto> (view_of d w)\<lparr>vw_events := noticed d w AND nevts\<rparr>)" by blast+
qed

lemma checkEdge_view:
  assumes o: "ed_ok d" and n: "n \<in> set (ed_USockEventNotice d)"
  obtains w where "watch_find (nt_parent n) d = Some w" "noticed d w = nt_events n" "ed_ok (checkEdge n d)"
    "ed_view (checkEdge n d) = (ed_view d)(nt_parent n \<mapsto> (view_of d w)\<lparr>vw_events := nt_events n AND NOT (edgeOnly w)\<rparr>)"
proof -
  obtain w where w: "watch_find (nt_parent n) d = Some w" "w_notit w = Some (nt_id n)" using ed_okD(5) [OF o n] by blast
  have f: "find_notice (nt_id n) d = Some n" using find_notice_iff [OF ed_okD(1) [OF o]] n by blast
  then have nt: "noticed d w = nt_events n" using w(2) by (simp add: noticed_def)
  show thesis
  proof (cases "nt_events n AND NOT (edgeOnly w) = 0")
    case True
    then show ?thesis using that [OF w(1) nt] erase_notice_view [OF o w] w by (simp add: checkEdge_def removeExistingNotices_def)
  next
    case False
    then show ?thesis using that [OF w(1) nt] map_notice_view [OF o w, of "\<lambda>_. nt_events n AND NOT (edgeOnly w)"] w by (simp add: checkEdge_def Let_def)
  qed
qed

lemma removeSubscription_view:
  assumes o: "ed_ok d"
  shows "ed_ok (removeSubscription u d)" "ed_view (removeSubscription u d) = (ed_view d)(u := None)"
proof -
  let ?d = "removeSubscription u d"
  have "ed_ok ?d \<and> ed_view ?d = (ed_view d)(u := None)"
  proof (cases "watch_find u d")
    case None
    then show ?thesis using o by (auto simp: removeSubscription_def ed_view_def)
  next
    case (Some w)
    define ns where "ns = (case w_notit w of None \<Rightarrow> ed_USockEventNotice d | Some i \<Rightarrow> filter (\<lambda>n. nt_id n \<noteq> i) (ed_USockEventNotice d))"
    have d': "ed_USockEventNotice ?d = ns" "ed_fresh ?d = ed_fresh d" "watch_find v ?d = (if v = u then None else watch_find v d)" for v
      using Some by (simp_all add: removeSubscription_def Let_def ns_def erase_notice_def watch_find_def delete_conv' split: option.split)
    have gone: "m \<in> set ns \<longleftrightarrow> m \<in> set (ed_USockEventNotice d) \<and> nt_parent m \<noteq> u" for m
    proof (cases "m \<in> set (ed_USockEventNotice d)")
      case True
      then obtain x where x: "watch_find (nt_parent m) d = Some x" "w_notit x = Some (nt_id m)" using ed_okD(5) [OF o] by blast
      have "w_notit w = Some (nt_id m) \<longleftrightarrow> nt_parent m = u" using x Some ed_ok_owner [OF o x Some] by auto
      then show ?thesis using True by (auto simp: ns_def split: option.splits)
    qed (simp add: ns_def split: option.split)
    have "distinct (map nt_id ns)" using ed_okD(1) [OF o] by (cases "w_notit w") (simp_all add: ns_def distinct_map_filter)
    then have "ed_ok ?d" unfolding ed_ok_def d' using ed_okD(2-5) [OF o] ed_okD(6) [OF o] gone by (auto split: if_splits) blast+
    moreover have "noticed ?d x = noticed d x" if v: "v \<noteq> u" "watch_find v d = Some x" for v x
    proof (cases "w_notit x")
      case s: (Some j)
      then obtain n where n: "find_notice j d = Some n" "n \<in> set (ed_USockEventNotice d)" "nt_id n = j" "nt_parent n = v" using ed_okD(6) [OF o v(2)] by blast
      then have "find_notice j ?d = Some n" using find_notice_iff [of ?d j n] \<open>distinct _\<close> d'(1) gone v(1) by simp
      then show ?thesis using s n(1) by (simp add: noticed_def)
    qed (simp add: noticed_def)
    then have "ed_view ?d = (ed_view d)(u := None)" using d'(3) by (auto simp: ed_view_def view_of_def fun_eq_iff split: option.split) (metis not_None_eq option.map(1) option.map(2) view_of_def)
    ultimately show ?thesis by blast
  qed
  then show "ed_ok ?d" "ed_view ?d = (ed_view d)(u := None)" by blast+
qed

subsection \<open>What the calls do to a subscriber\<close>

definition view_events :: "32 word \<Rightarrow> bool \<Rightarrow> subscriber \<Rightarrow> subscriber" where
  "view_events events enable v =
     (let st = (if enable then vw_state v OR events else vw_state v AND NOT events)
      in v\<lparr>vw_state := st, vw_events := (if (vw_state v XOR st) AND vw_watch v = 0 then vw_events v
           else if enable then vw_events v OR events else vw_events v AND NOT events)\<rparr>)"

definition view_subscribe :: "32 word \<Rightarrow> bool \<Rightarrow> subscriber option \<Rightarrow> subscriber" where
  "view_subscribe evts et vo =
     (case vo of
        None \<Rightarrow> \<lparr>vw_watch = evts, vw_edge = (if et then evts else 0), vw_state = 0, vw_events = 0\<rparr>
      | Some v \<Rightarrow> \<lparr>vw_watch = evts, vw_edge = (if et then evts else vw_edge v), vw_state = vw_state v,
          vw_events = (if vw_watch v AND NOT evts \<noteq> 0 then vw_events v AND evts else vw_events v) OR (evts AND vw_state v)\<rparr>)"

definition view_reported :: "subscriber \<Rightarrow> subscriber" where
  "view_reported v = v\<lparr>vw_events := vw_events v AND NOT (vw_edge v AND vw_watch v)\<rparr>"

lemma poll_events_view:
  assumes o: "ed_ok d"
  shows "ed_ok (poll_events u ev en d)"
    "ed_view (poll_events u ev en d) = (case ed_view d u of None \<Rightarrow> ed_view d | Some v \<Rightarrow> (ed_view d)(u \<mapsto> view_events ev en v))"
proof -
  let ?d = "poll_events u ev en d"
  have "ed_ok ?d \<and> ed_view ?d = (case ed_view d u of None \<Rightarrow> ed_view d | Some v \<Rightarrow> (ed_view d)(u \<mapsto> view_events ev en v))"
  proof (cases "watch_find u d")
    case None
    then show ?thesis using o by (simp add: poll_events_def ed_view_def)
  next
    case (Some w)
    define st where "st = (if en then w_state w OR ev else w_state w AND NOT ev)"
    have v: "ed_view d u = Some (view_of d w)" using Some by (simp add: ed_view_def)
    have ve: "view_events ev en (view_of d w) = (view_of d w)\<lparr>vw_state := st, vw_events := (if (w_state w XOR st) AND w_watch w = 0 then noticed d w
           else if en then noticed d w OR ev else noticed d w AND NOT ev)\<rparr>" by (simp add: view_events_def view_of_def st_def Let_def)
    show ?thesis
    proof (cases "w_state w XOR st = 0")
      case True
      then have "st = w_state w" by (metis xor_self_eq xor.assoc xor.left_neutral)
      then have "view_events ev en (view_of d w) = view_of d w" unfolding ve by (simp add: view_of_def)
      moreover have "?d = d" using Some True by (simp add: poll_events_def st_def [symmetric] Let_def)
      ultimately show ?thesis using v view_same [OF Some] o by simp
    next
      case False
      let ?w = "w\<lparr>w_state := st\<rparr>" and ?d1 = "set_wait u (w\<lparr>w_state := st\<rparr>) d"
      note S = set_wait_view [OF o Some, of ?w]
      have wf: "watch_find u ?d1 = Some ?w" "noticed ?d1 ?w = noticed d w" "view_of ?d1 ?w = (view_of d w)\<lparr>vw_state := st\<rparr>"
        by (simp_all add: view_of_def) (simp_all add: noticed_def)
      have d': "?d = (if (w_state w XOR st) AND w_watch w = 0 then ?d1 else updateEventNotice u ?w ev en ?d1)"
        using Some False by (simp add: poll_events_def st_def [symmetric] Let_def)
      have ne: "ev \<noteq> 0" using False by (auto simp: st_def split: if_splits)
      show ?thesis
      proof (cases "(w_state w XOR st) AND w_watch w = 0")
        case True
        have "view_of d ?w = view_events ev en (view_of d w)" unfolding ve using True by (simp add: view_of_def noticed_def)
        then show ?thesis using S v True by (simp add: d')
      next
        case c: False
        have g: "(case ed_view d u of None \<Rightarrow> ed_view d | Some v \<Rightarrow> (ed_view d)(u \<mapsto> view_events ev en v)) = (ed_view d)(u \<mapsto> view_events ev en (view_of d w))" by (simp add: v)
        have S': "ed_ok ?d1" "ed_view ?d1 = (ed_view d)(u \<mapsto> (view_of d w)\<lparr>vw_state := st\<rparr>)" using S wf(3) by (simp_all add: view_of_def noticed_def)
        show ?thesis
        proof (cases en)
          case True
          then show ?thesis using addEventNotice_view [OF S'(1) wf(1) ne] S'(2) wf(2,3) c unfolding d' g ve by (simp add: updateEventNotice_def)
        next
          case False
          then show ?thesis using removeExcessEvents_view [OF S'(1) wf(1)] S'(2) wf(2,3) c unfolding d' g ve by (simp add: updateEventNotice_def)
        qed
      qed
    qed
  qed
  then show "ed_ok ?d" "ed_view ?d = (case ed_view d u of None \<Rightarrow> ed_view d | Some v \<Rightarrow> (ed_view d)(u \<mapsto> view_events ev en v))" by blast+
qed

lemma addWatch_new_view:
  assumes o: "ed_ok d" and n: "watch_find u d = None"
  shows "ed_ok (set_wait u (wait_new evts et) d)"
    "ed_view (set_wait u (wait_new evts et) d) = (ed_view d)(u \<mapsto> view_subscribe evts et None)"
proof -
  let ?w = "wait_new evts et" and ?d = "set_wait u (wait_new evts et) d"
  have "nt_parent m \<noteq> u" if "m \<in> set (ed_USockEventNotice d)" for m using ed_okD(5) [OF o that] n by auto
  then show "ed_ok ?d" using o n unfolding ed_ok_def by (auto simp: wait_new_def split: if_splits)
  show "ed_view ?d = (ed_view d)(u \<mapsto> view_subscribe evts et None)"
    by (rule ed_view_eqI [of _ _ ?w]) (simp_all add: view_of_def wait_new_def noticed_def view_subscribe_def)
qed

lemma subscribe_view:
  assumes o: "ed_ok d"
  shows "ed_ok (subscribe u evts et d)" "ed_view (subscribe u evts et d) = (ed_view d)(u \<mapsto> view_subscribe evts et (ed_view d u))"
proof -
  let ?d = "subscribe u evts et d"
  have "ed_ok ?d \<and> ed_view ?d = (ed_view d)(u \<mapsto> view_subscribe evts et (ed_view d u))"
  proof (cases "watch_find u d")
    case None
    have "?d = set_wait u (wait_new evts et) d" using None by (simp add: subscribe_def addWatch_def Let_def) (simp add: wait_new_def)
    moreover have "ed_view d u = None" using None by (simp add: ed_view_def)
    ultimately show ?thesis using addWatch_new_view [OF o None] by simp
  next
    case (Some w)
    have v: "ed_view d u = Some (view_of d w)" using Some by (simp add: ed_view_def)
    define d1 where "d1 = (if w_watch w AND NOT evts \<noteq> 0 then removeExcessEvents u w evts d else d)"
    define e1 where "e1 = (if w_watch w AND NOT evts \<noteq> 0 then noticed d w AND evts else noticed d w)"
    have D1: "ed_ok d1" "ed_view d1 = (ed_view d)(u \<mapsto> (view_of d w)\<lparr>vw_events := e1\<rparr>)"
      using removeExcessEvents_view [OF o Some, of evts] o view_same [OF Some] by (auto simp: d1_def e1_def view_of_def)
    have "ed_view d1 u \<noteq> None" using D1(2) by simp
    then obtain w1 where w1: "watch_find u d1 = Some w1" by (auto simp: ed_view_def)
    have f1: "w_watch w1 = w_watch w" "w_edge w1 = w_edge w" "w_state w1 = w_state w" "noticed d1 w1 = e1"
      using fun_cong [OF D1(2), of u] w1 by (auto simp: ed_view_def view_of_def)
    define w2 where "w2 = w1\<lparr>w_watch := evts, w_edge := (if et then evts else w_edge w1)\<rparr>"
    define d2 where "d2 = set_wait u w2 d1"
    have D2: "ed_ok d2" "ed_view d2 = (ed_view d)(u \<mapsto> view_of d1 w2)" using set_wait_view [OF D1(1) w1, of w2] D1(2) by (simp_all add: d2_def w2_def)
    have n2: "noticed d1 w2 = e1" using f1(4) by (simp add: w2_def noticed_def)
    have w2: "watch_find u d2 = Some w2" "noticed d2 w2 = e1" "view_of d2 w2 = view_of d1 w2" using n2 by (simp_all add: d2_def view_of_def noticed_def)
    have d': "?d = (if evts AND w_state w \<noteq> 0 then addEventNotice u w2 (evts AND w_state w) d2 else d2)"
      using Some f1(3) w1 by (cases et) (simp_all add: subscribe_def addWatch_def Let_def d1_def [symmetric] d2_def w2_def)
    have vs: "view_subscribe evts et (ed_view d u) = (view_of d1 w2)\<lparr>vw_events := e1 OR (evts AND w_state w)\<rparr>"
      unfolding v using f1 by (simp add: view_subscribe_def view_of_def e1_def w2_def)
    have e1': "vw_events (view_of d1 w2) = e1" using n2 by (simp add: view_of_def)
    show ?thesis
    proof (cases "evts AND w_state w = 0")
      case True
      have "(view_of d1 w2)\<lparr>vw_events := e1\<rparr> = view_of d1 w2" using e1' by (cases "view_of d1 w2") simp
      then show ?thesis using True D2 unfolding d' vs by simp
    next
      case False
      then show ?thesis using addEventNotice_view [OF D2(1) w2(1) False] D2(2) w2(2,3) unfolding d' vs by simp
    qed
  qed
  then show "ed_ok ?d" "ed_view ?d = (ed_view d)(u \<mapsto> view_subscribe evts et (ed_view d u))" by blast+
qed

subsection \<open>What the waiting calls report\<close>

lemma ed_ok_other_notice:
  assumes "ed_ok d" "m \<in> set (ed_USockEventNotice d)" "n \<in> set (ed_USockEventNotice d)" "m \<noteq> n"
  shows "nt_id m \<noteq> nt_id n" "nt_parent m \<noteq> nt_parent n" "m \<in> set (ed_USockEventNotice (checkEdge n d))"
proof -
  show i: "nt_id m \<noteq> nt_id n" using ed_okD(1) [OF assms(1)] assms(2-4) by (auto simp: distinct_map inj_on_def)
  show "nt_parent m \<noteq> nt_parent n" using ed_okD(5) [OF assms(1,2)] ed_okD(5) [OF assms(1,3)] i by auto
  obtain w where "watch_find (nt_parent n) d = Some w" "w_notit w = Some (nt_id n)" using ed_okD(5) [OF assms(1,3)] by blast
  then show "m \<in> set (ed_USockEventNotice (checkEdge n d))"
    using assms(2) i by (auto simp: checkEdge_def Let_def removeExistingNotices_def erase_notice_def map_notice_def intro: rev_image_eqI)
qed

lemma checkEdge_reported:
  assumes "ed_ok d" "n \<in> set (ed_USockEventNotice d)"
  shows "ed_ok (checkEdge n d)" "\<exists>v. ed_view d (nt_fd n) = Some v \<and> vw_events v = nt_events n"
    "ed_view (checkEdge n d) = (ed_view d)(nt_fd n := map_option view_reported (ed_view d (nt_fd n)))"
proof -
  note fd = ed_okD(3) [OF assms]
  obtain w where w: "watch_find (nt_parent n) d = Some w" "noticed d w = nt_events n" "ed_ok (checkEdge n d)"
    "ed_view (checkEdge n d) = (ed_view d)(nt_parent n \<mapsto> (view_of d w)\<lparr>vw_events := nt_events n AND NOT (edgeOnly w)\<rparr>)"
    using checkEdge_view [OF assms] by blast
  have v: "ed_view d (nt_fd n) = Some (view_of d w)" using w(1) fd by (simp add: ed_view_def)
  show "ed_ok (checkEdge n d)" by (rule w(3))
  show "\<exists>v. ed_view d (nt_fd n) = Some v \<and> vw_events v = nt_events n" using v w(2) by (simp add: view_of_def)
  have "view_reported (view_of d w) = (view_of d w)\<lparr>vw_events := nt_events n AND NOT (edgeOnly w)\<rparr>"
    using w(2) by (simp add: view_reported_def view_of_def edgeOnly_def)
  then show "ed_view (checkEdge n d) = (ed_view d)(nt_fd n := map_option view_reported (ed_view d (nt_fd n)))" using w(4) v fd by simp
qed

definition report_view :: "int set \<Rightarrow> (int \<rightharpoonup> subscriber) \<Rightarrow> (int \<rightharpoonup> subscriber)" where
  "report_view A m u = (if u \<in> A then map_option view_reported (m u) else m u)"

lemma report_view_insert: "u \<notin> A \<Longrightarrow> report_view A (m(u := map_option view_reported (m u))) = report_view (insert u A) m"
  by (auto simp: report_view_def fun_eq_iff)

lemma checkEdge_rest:
  assumes o: "ed_ok d" and d: "distinct (n # ns)" and s: "set (n # ns) \<subseteq> set (ed_USockEventNotice d)"
  shows "set ns \<subseteq> set (ed_USockEventNotice (checkEdge n d))" "nt_fd n \<notin> nt_fd ` set ns"
proof -
  have ne: "m \<noteq> n" "m \<in> set (ed_USockEventNotice d)" if "m \<in> set ns" for m using that d s by auto
  have n: "n \<in> set (ed_USockEventNotice d)" using s by simp
  show "set ns \<subseteq> set (ed_USockEventNotice (checkEdge n d))" using ed_ok_other_notice(3) [OF o ne(2) n ne(1)] by blast
  show "nt_fd n \<notin> nt_fd ` set ns" using ed_ok_other_notice(2) [OF o ne(2) n ne(1)] ed_okD(3) [OF o n] ed_okD(3) [OF o ne(2)] by fastforce
qed

lemma report_notices_spec:
  assumes "ed_ok d" "distinct ns" "set ns \<subseteq> set (ed_USockEventNotice d)" "cnt \<le> fdsSize" "report_notices fdsSize cnt ns d = (t, out, d')"
  shows "ed_ok d' \<and> ed_view d' = report_view (nt_fd ` set (take (nat (fdsSize - cnt)) ns)) (ed_view d) \<and>
    out = map (\<lambda>n. (nt_fd n, nt_events n)) (take (nat (fdsSize - cnt)) ns) \<and> t = min (cnt + int (length ns)) (fdsSize + 1)"
  using assms
proof (induction fdsSize cnt ns d arbitrary: t out rule: report_notices.induct)
  case (1 fdsSize cnt d)
  then show ?case by (simp add: report_view_def fun_eq_iff)
next
  case (2 fdsSize cnt n ns d)
  show ?case
  proof (cases "cnt + 1 > fdsSize")
    case True
    then show ?thesis using 2 by (simp add: report_view_def fun_eq_iff)
  next
    case False
    obtain t1 out1 d1 where r: "report_notices fdsSize (cnt + 1) ns (checkEdge n d) = (t1, out1, d1)" by (metis prod_cases3)
    have n: "n \<in> set (ed_USockEventNotice d)" using "2.prems"(3) by simp
    note c = checkEdge_reported [OF "2.prems"(1) n] and rest = checkEdge_rest [OF "2.prems"(1-3)]
    have eq: "t = t1" "out = (nt_fd n, nt_events n) # out1" "d' = d1" using "2.prems"(5) False r by simp_all
    have k: "nat (fdsSize - cnt) = Suc (nat (fdsSize - (cnt + 1)))" using False by simp
    have I: "ed_ok d' \<and> ed_view d' = report_view (nt_fd ` set (take (nat (fdsSize - (cnt + 1))) ns)) (ed_view (checkEdge n d)) \<and>
      out1 = map (\<lambda>n. (nt_fd n, nt_events n)) (take (nat (fdsSize - (cnt + 1))) ns) \<and> t1 = min (cnt + 1 + int (length ns)) (fdsSize + 1)"
      by (rule "2.IH" [OF False c(1) _ rest(1)]) (use "2.prems"(2) False r eq in simp_all)
    have "nt_fd n \<notin> nt_fd ` set (take (nat (fdsSize - (cnt + 1))) ns)" using rest(2) by (meson image_mono set_take_subset subsetD)
    then show ?thesis using I unfolding c(3) eq k by (simp add: report_view_insert ac_simps)
  qed
qed

lemma report_sets_spec:
  assumes "ed_ok d" "distinct ns" "set ns \<subseteq> set (ed_USockEventNotice d)" "report_sets ns rs ws cnt d = (rs', ws', cnt', d')"
  shows "ed_ok d' \<and> ed_view d' = report_view (nt_fd ` set ns) (ed_view d) \<and>
    rs' = map_option ((\<union>) {nt_fd n |n. n \<in> set ns \<and> nt_events n AND (SRT_EPOLL_IN OR SRT_EPOLL_ERR) \<noteq> 0}) rs \<and>
    ws' = map_option ((\<union>) {nt_fd n |n. n \<in> set ns \<and> nt_events n AND (SRT_EPOLL_OUT OR SRT_EPOLL_ERR) \<noteq> 0}) ws"
  using assms
proof (induction ns rs ws cnt d rule: report_sets.induct)
  case (1 rs ws cnt d)
  then show ?case by (simp add: report_view_def fun_eq_iff option.map_ident [unfolded id_def])
next
  case (2 n ns rs ws cnt d)
  have n: "n \<in> set (ed_USockEventNotice d)" using "2.prems"(3) by simp
  note c = checkEdge_reported [OF "2.prems"(1) n] and rest = checkEdge_rest [OF "2.prems"(1-3)]
  define onr where "onr \<longleftrightarrow> nt_events n AND SRT_EPOLL_IN \<noteq> 0 \<or> nt_events n AND SRT_EPOLL_ERR \<noteq> 0"
  define onw where "onw \<longleftrightarrow> nt_events n AND SRT_EPOLL_OUT \<noteq> 0 \<or> nt_events n AND SRT_EPOLL_ERR \<noteq> 0"
  obtain r1 c1 where r1: "report_fd onr (nt_fd n) rs cnt = (r1, c1)" by fastforce
  obtain w1 c2 where w1: "report_fd onw (nt_fd n) ws c1 = (w1, c2)" by fastforce
  have eq: "report_sets ns r1 w1 c2 (checkEdge n d) = (rs', ws', cnt', d')" using "2.prems"(4) r1 w1 by (simp add: onr_def onw_def)
  have on: "onr \<longleftrightarrow> nt_events n AND (SRT_EPOLL_IN OR SRT_EPOLL_ERR) \<noteq> 0" "onw \<longleftrightarrow> nt_events n AND (SRT_EPOLL_OUT OR SRT_EPOLL_ERR) \<noteq> 0"
    by (simp_all add: onr_def onw_def bit.conj_disj_distrib or_eq_0_iff)
  have f: "r1 = map_option (\<lambda>s. if onr then insert (nt_fd n) s else s) rs" "w1 = map_option (\<lambda>s. if onw then insert (nt_fd n) s else s) ws"
    using r1 w1 by (auto simp: report_fd_def split: option.splits if_splits)
  have I: "ed_ok d' \<and> ed_view d' = report_view (nt_fd ` set ns) (ed_view (checkEdge n d)) \<and>
    rs' = map_option ((\<union>) {nt_fd n |n. n \<in> set ns \<and> nt_events n AND (SRT_EPOLL_IN OR SRT_EPOLL_ERR) \<noteq> 0}) r1 \<and>
    ws' = map_option ((\<union>) {nt_fd n |n. n \<in> set ns \<and> nt_events n AND (SRT_EPOLL_OUT OR SRT_EPOLL_ERR) \<noteq> 0}) w1"
    by (rule "2.IH" [OF _ _ _ _ c(1) _ rest(1) eq]) (use "2.prems"(2) r1 w1 [symmetric] in \<open>simp_all add: onr_def onw_def\<close>)
  have "rs' = map_option ((\<union>) {nt_fd m |m. m \<in> set (n # ns) \<and> nt_events m AND (SRT_EPOLL_IN OR SRT_EPOLL_ERR) \<noteq> 0}) rs"
    using I on(1) unfolding f(1) by (cases rs; cases onr) auto
  moreover have "ws' = map_option ((\<union>) {nt_fd m |m. m \<in> set (n # ns) \<and> nt_events m AND (SRT_EPOLL_OUT OR SRT_EPOLL_ERR) \<noteq> 0}) ws"
    using I on(2) unfolding f(2) by (cases ws; cases onw) auto
  moreover have "ed_view d' = report_view (nt_fd ` set (n # ns)) (ed_view d)" using I rest(2) unfolding c(3) by (simp add: report_view_insert)
  ultimately show ?case using I by blast
qed

lemma ready_notices:
  assumes "ed_ok d"
  shows "distinct (ed_USockEventNotice d)" "distinct (map nt_fd (ed_USockEventNotice d))"
    "{(nt_fd n, nt_events n) |n. n \<in> set (ed_USockEventNotice d)} = {(u, vw_events v) |u v. ed_view d u = Some v \<and> vw_events v \<noteq> 0}"
proof -
  show di: "distinct (ed_USockEventNotice d)" using ed_okD(1) [OF assms] by (simp add: distinct_map)
  show "distinct (map nt_fd (ed_USockEventNotice d))"
    using di ed_ok_other_notice(2) [OF assms] ed_okD(3) [OF assms] by (auto simp: distinct_map inj_on_def)
  have "\<exists>n\<in>set (ed_USockEventNotice d). nt_fd n = u \<and> nt_events n = vw_events v" if v: "ed_view d u = Some v" "vw_events v \<noteq> 0" for u v
  proof -
    obtain w where w: "watch_find u d = Some w" "v = view_of d w" using v(1) by (auto simp: ed_view_def)
    obtain i where i: "w_notit w = Some i" using v(2) w(2) by (cases "w_notit w") (simp_all add: view_of_def noticed_def)
    obtain n where n: "find_notice i d = Some n" "n \<in> set (ed_USockEventNotice d)" "nt_parent n = u" using ed_okD(6) [OF assms w(1) i] by blast
    then have "nt_fd n = u" "nt_events n = vw_events v" using ed_okD(3) [OF assms n(2)] w(2) i by (simp_all add: view_of_def noticed_def)
    then show ?thesis using n(2) by blast
  qed
  moreover have "\<exists>v. ed_view d (nt_fd n) = Some v \<and> vw_events v = nt_events n \<and> nt_events n \<noteq> 0" if "n \<in> set (ed_USockEventNotice d)" for n
    using checkEdge_reported(2) [OF assms that] ed_okD(4) [OF assms that] by blast
  ultimately show "{(nt_fd n, nt_events n) |n. n \<in> set (ed_USockEventNotice d)} = {(u, vw_events v) |u v. ed_view d u = Some v \<and> vw_events v \<noteq> 0}"
    by (intro equalityI subsetI) (clarsimp, metis)+
qed

subsection \<open>Every poll the calls can reach\<close>

definition one_event :: "32 word \<Rightarrow> bool" where
  "one_event ev \<longleftrightarrow> ev \<in> {SRT_EPOLL_IN, SRT_EPOLL_OUT, SRT_EPOLL_ERR}"

text \<open>With \<open>one\<close> the sockets switch events on one at a time.\<close>

inductive polls :: "bool \<Rightarrow> CEPoll \<Rightarrow> bool" for one where
  polls_new: "polls one ep_new"
| polls_create: "polls one p \<Longrightarrow> polls one (snd (ep_create localid p))"
| polls_release: "polls one p \<Longrightarrow> polls one (snd (ep_release eid p))"
| polls_add_ssock: "polls one p \<Longrightarrow> polls one (snd (add_ssock ok eid s p))"
| polls_remove_ssock: "polls one p \<Longrightarrow> polls one (snd (remove_ssock ok eid s p))"
| polls_update_usock: "polls one p \<Longrightarrow> polls one (snd (update_usock eid u events p))"
| polls_setflags: "polls one p \<Longrightarrow> polls one (snd (ep_setflags eid flags p))"
| polls_events: "polls one p \<Longrightarrow> \<not> one \<or> \<not> enable \<or> one_event ev \<Longrightarrow> polls one (snd (update_events u eids ev enable p))"
| polls_uwait: "polls one p \<Longrightarrow> polls one (snd (uwait_round eid fdsSize null p))"
| polls_wait: "polls one p \<Longrightarrow> polls one (snd (wait_round ready eid fds p))"

definition subscriber_ok :: "bool \<Rightarrow> subscriber \<Rightarrow> bool" where
  "subscriber_ok one v \<longleftrightarrow> vw_state v AND vw_watch v AND NOT (vw_edge v) AND NOT (vw_events v) = 0 \<and>
     (one \<longrightarrow> vw_events v AND NOT (vw_watch v AND vw_state v) = 0)"

definition poll_ok :: "bool \<Rightarrow> CEPollDesc \<Rightarrow> bool" where
  "poll_ok one d \<longleftrightarrow> ed_ok d \<and> (\<forall>u v. ed_view d u = Some v \<longrightarrow> subscriber_ok one v)"

lemma subscriber_ok_bits:
  "subscriber_ok one v \<longleftrightarrow> (\<forall>i. (bit (vw_state v) i \<longrightarrow> bit (vw_watch v) i \<longrightarrow> \<not> bit (vw_edge v) i \<longrightarrow> bit (vw_events v) i) \<and>
     (one \<longrightarrow> bit (vw_events v) i \<longrightarrow> bit (vw_watch v) i \<and> bit (vw_state v) i))"
proof -
  have b: "i < 32" if "bit x i" for x :: "32 word" and i using bit_imp_le_length [OF that] by simp
  show ?thesis unfolding subscriber_ok_def bit_eq_iff bit_0_eq bot_fun_def bot_bool_def
    by (simp add: bit_simps) (use b in blast)
qed

lemma one_event_bit: "one_event ev \<Longrightarrow> bit ev i \<Longrightarrow> bit ev j \<Longrightarrow> i = j"
  unfolding one_event_def epoll_bits by (auto simp: bit_1_iff bit_numeral_word_iff bit_numeral_rec split: nat.splits)

lemma word_0_bits: "(x :: 32 word) = 0 \<longleftrightarrow> (\<forall>i. \<not> bit x i)"
proof -
  have "i < 32" if "bit x i" for i using bit_imp_le_length [OF that] by simp
  then show ?thesis by (auto simp: bit_eq_iff)
qed

lemma bit_lt_32: "bit (x :: 32 word) i \<Longrightarrow> i < 32"
  using bit_imp_le_length [of x i] by simp

lemma bits_and_not: "bit (x AND NOT y :: 32 word) i \<longleftrightarrow> bit x i \<and> \<not> bit y i"
  using bit_imp_le_length [of x i] by (auto simp: bit_simps)

lemma subscriber_ok_events:
  assumes v: "subscriber_ok one v" and e: "\<not> one \<or> \<not> en \<or> one_event ev"
  shows "subscriber_ok one (view_events ev en v)"
proof (cases en)
  case True
  have "bit (vw_watch v) i" if "one" "bit ev i" "bit ((vw_state v XOR (vw_state v OR ev)) AND vw_watch v) j" for i j
    using that one_event_bit [of ev i j] e True by (auto simp: bit_simps)
  then show ?thesis using True v unfolding subscriber_ok_bits view_events_def Let_def
    by (auto simp: word_0_bits bit_or_iff bit_and_iff bit_xor_iff)
next
  case False
  then show ?thesis using v unfolding subscriber_ok_bits view_events_def Let_def
    by (auto simp: word_0_bits bits_and_not bit_and_iff bit_xor_iff)
qed

lemma subscriber_ok_subscribe: "(\<And>v. vo = Some v \<Longrightarrow> subscriber_ok one v) \<Longrightarrow> subscriber_ok one (view_subscribe evts et vo)"
  unfolding subscriber_ok_bits view_subscribe_def by (auto simp: word_0_bits bit_not_iff bit_and_iff bit_or_iff dest: bit_lt_32 split: option.splits)

lemma subscriber_ok_reported: "subscriber_ok one v \<Longrightarrow> subscriber_ok one (view_reported v)"
  unfolding subscriber_ok_bits view_reported_def by (auto simp: bit_not_iff bit_and_iff dest: bit_lt_32 simp del: bit.de_Morgan_conj)

lemma poll_okI:
  assumes "ed_ok d'" "\<And>u v. ed_view d' u = Some v \<Longrightarrow> subscriber_ok one v"
  shows "poll_ok one d'"
  using assms by (simp add: poll_ok_def)

lemma poll_okD: "poll_ok one d \<Longrightarrow> ed_ok d" "poll_ok one d \<Longrightarrow> ed_view d u = Some v \<Longrightarrow> subscriber_ok one v"
  by (auto simp: poll_ok_def)

lemma poll_ok_new: "poll_ok one (ed_new i localID)"
  by (simp add: poll_ok_def ed_ok_def ed_new_def ed_view_def watch_find_def)

lemma poll_ok_fields:
  "poll_ok one (d\<lparr>ed_Flags := f\<rparr>) = poll_ok one d" "poll_ok one (d\<lparr>ed_sLocals := s\<rparr>) = poll_ok one d"
proof -
  have v: "view_of (d\<lparr>ed_Flags := f\<rparr>) = view_of d" "view_of (d\<lparr>ed_sLocals := s\<rparr>) = view_of d"
    by (rule ext, simp add: view_of_def noticed_def find_notice_def cong: option.case_cong)+
  show "poll_ok one (d\<lparr>ed_Flags := f\<rparr>) = poll_ok one d" "poll_ok one (d\<lparr>ed_sLocals := s\<rparr>) = poll_ok one d"
    by (simp_all add: poll_ok_def ed_ok_def ed_view_def watch_find_def v)
qed

lemma poll_ok_poll_events: "poll_ok one d \<Longrightarrow> \<not> one \<or> \<not> en \<or> one_event ev \<Longrightarrow> poll_ok one (poll_events u ev en d)"
  by (rule poll_okI [OF poll_events_view(1)])
    (auto simp: poll_events_view(2) poll_okD split: option.splits if_splits intro: subscriber_ok_events poll_okD(2))

lemma poll_ok_subscribe: "poll_ok one d \<Longrightarrow> poll_ok one (subscribe u evts et d)"
  by (rule poll_okI [OF subscribe_view(1)])
    (auto simp: subscribe_view(2) poll_okD(1) split: if_splits intro: subscriber_ok_subscribe poll_okD(2))

lemma poll_ok_removeSubscription: "poll_ok one d \<Longrightarrow> poll_ok one (removeSubscription u d)"
  by (rule poll_okI [OF removeSubscription_view(1)]) (auto simp: removeSubscription_view(2) poll_okD(1) split: if_splits intro: poll_okD(2))

lemma poll_ok_report: "poll_ok one d \<Longrightarrow> ed_ok d' \<Longrightarrow> ed_view d' = report_view A (ed_view d) \<Longrightarrow> poll_ok one d'"
  by (rule poll_okI) (auto simp: report_view_def split: if_splits intro: subscriber_ok_reported poll_okD(2))

definition polls_ok :: "bool \<Rightarrow> CEPoll \<Rightarrow> bool" where
  "polls_ok one p \<longleftrightarrow> (\<forall>eid d. ep_mPolls p eid = Some d \<longrightarrow> poll_ok one d)"

lemma polls_okD: "polls_ok one p \<Longrightarrow> ep_mPolls p eid = Some d \<Longrightarrow> poll_ok one d"
  by (simp add: polls_ok_def)

lemma polls_ok_upd: "polls_ok one p \<Longrightarrow> poll_ok one d \<Longrightarrow> polls_ok one (p\<lparr>ep_mPolls := (ep_mPolls p)(eid \<mapsto> d)\<rparr>)"
  by (simp add: polls_ok_def)

lemma polls_ok_update_events:
  "polls_ok one p \<Longrightarrow> \<not> one \<or> \<not> en \<or> one_event ev \<Longrightarrow> polls_ok one (snd (update_events u eids ev en p))"
proof (induction u eids ev en p rule: update_events.induct)
  case (2 u eid eids ev en p)
  then show ?case
    by (cases "ep_mPolls p eid") (simp_all add: polls_ok_upd polls_okD poll_ok_poll_events split: prod.split, metis snd_conv)
qed simp

lemma polls_ok_rounds:
  assumes "polls_ok one p"
  shows "polls_ok one (snd (uwait_round eid fdsSize null p))" "polls_ok one (snd (wait_round ready eid fds p))"
proof -
  have "poll_ok one d'" if d: "ep_mPolls p eid = Some d" and r: "report_notices fdsSize 0 (ed_USockEventNotice d) d = (t, out, d')" and f: "\<not> fdsSize < 0" for d t out d'
    using report_notices_spec [OF poll_okD(1) [OF polls_okD [OF assms d]] ready_notices(1) [OF poll_okD(1) [OF polls_okD [OF assms d]]] subset_refl _ r] f
      poll_ok_report [OF polls_okD [OF assms d]] by auto
  moreover have "d' = d" if "report_notices fdsSize 0 (ed_USockEventNotice d) d = (t, out, d')" "fdsSize < 0" for d t out d'
    using that by (cases "ed_USockEventNotice d") auto
  ultimately have "poll_ok one d'" if "ep_mPolls p eid = Some d" "report_notices fdsSize 0 (ed_USockEventNotice d) d = (t, out, d')" for d t out d'
    using that polls_okD [OF assms that(1)] by metis
  then show "polls_ok one (snd (uwait_round eid fdsSize null p))"
    using assms by (auto simp: uwait_round_def Let_def polls_ok_upd split: option.splits prod.splits)
  have "poll_ok one d'" if d: "ep_mPolls p eid = Some d" and r: "report_sets (ed_USockEventNotice d) rs ws 0 d = (rs', ws', t, d')" for d rs ws rs' ws' t d'
    using report_sets_spec [OF poll_okD(1) [OF polls_okD [OF assms d]] ready_notices(1) [OF poll_okD(1) [OF polls_okD [OF assms d]]] subset_refl r]
      poll_ok_report [OF polls_okD [OF assms d]] by auto
  then show "polls_ok one (snd (wait_round ready eid fds p))"
    using assms by (auto simp: wait_round_def Let_def polls_ok_upd split: option.splits prod.splits)
qed

lemma polls_inv: "polls one p \<Longrightarrow> polls_ok one p"
proof (induction rule: polls.induct)
  case polls_new
  then show ?case by (simp add: polls_ok_def ep_new_def)
next
  case (polls_create p localid)
  then show ?case by (auto simp: ep_create_def Let_def polls_ok_def poll_ok_new split: if_splits)
next
  case (polls_release p eid)
  then show ?case by (auto simp: ep_release_def polls_ok_def split: if_splits)
next
  case (polls_update_usock p eid u events)
  then show ?case by (auto simp: update_usock_def Let_def polls_ok_upd polls_okD poll_ok_subscribe poll_ok_removeSubscription split: option.splits)
next
  case (polls_events p en ev u eids)
  then show ?case by (blast intro: polls_ok_update_events)
next
  case (polls_uwait p eid fdsSize null)
  show ?case by (rule polls_ok_rounds [OF polls_uwait.IH])
next
  case (polls_wait p ready eid fds)
  show ?case by (rule polls_ok_rounds [OF polls_wait.IH])
qed (auto simp: add_ssock_def remove_ssock_def ep_setflags_def Let_def polls_ok_upd polls_okD poll_ok_fields split: option.splits)

lemmas polls_poll_ok = polls_okD [OF polls_inv]

subsection \<open>The properties\<close>

text \<open>
  C13. In every poll that the calls can reach, when the sockets switch their events on one at a time, a socket subscribed
  without edge trigger has in its notice exactly the events that it watches and that are on; with edge trigger the notice
  has no other events than these. So the waiting calls neither miss nor make up an event.
\<close>

theorem epoll_notices_exact:
  assumes "polls True p" "ep_mPolls p eid = Some d" "ed_view d u = Some v"
  shows "vw_events v AND NOT (vw_watch v AND vw_state v) = 0 \<and> (vw_edge v AND vw_watch v = 0 \<longrightarrow> vw_events v = vw_watch v AND vw_state v)"
proof -
  have ok: "subscriber_ok True v" by (rule poll_okD(2) [OF polls_poll_ok [OF assms(1,2)] assms(3)])
  then have b: "(bit (vw_state v) i \<longrightarrow> bit (vw_watch v) i \<longrightarrow> \<not> bit (vw_edge v) i \<longrightarrow> bit (vw_events v) i) \<and>
     (bit (vw_events v) i \<longrightarrow> bit (vw_watch v) i \<and> bit (vw_state v) i)" for i unfolding subscriber_ok_bits by blast
  have "vw_events v = vw_watch v AND vw_state v" if "vw_edge v AND vw_watch v = 0"
  proof (rule bit_word_eqI)
    fix i
    show "bit (vw_events v) i = bit (vw_watch v AND vw_state v) i" using b that unfolding word_0_bits bit_and_iff by blast
  qed
  then show ?thesis using ok by (auto simp: subscriber_ok_def)
qed

text \<open>
  The waiting call that reports into an array returns the sockets that have a notice, each once with its events, in a
  count that is the number of them when they fit and one more than the size of the array when they do not; it then takes
  from the notices it reported the edge-triggered events, and nothing else.
\<close>

theorem uwait_reports:
  assumes "polls one p" "ep_mPolls p eid = Some d" "0 \<le> fdsSize" "uwait_round eid fdsSize null p = (Inr (cnt, out), p')"
  shows "distinct (map fst out) \<and> set out \<subseteq> {(u, vw_events v) |u v. ed_view d u = Some v \<and> vw_events v \<noteq> 0} \<and>
    (cnt \<le> fdsSize \<longrightarrow> set out = {(u, vw_events v) |u v. ed_view d u = Some v \<and> vw_events v \<noteq> 0}) \<and>
    cnt = min (int (card {u. \<exists>v. ed_view d u = Some v \<and> vw_events v \<noteq> 0})) (fdsSize + 1) \<and>
    (\<exists>d'. ep_mPolls p' = (ep_mPolls p)(eid \<mapsto> d') \<and> ed_view d' = report_view (fst ` set out) (ed_view d))"
proof -
  have o: "ed_ok d" by (rule poll_okD(1) [OF polls_poll_ok [OF assms(1,2)]])
  note R = ready_notices [OF o]
  obtain d' where r: "report_notices fdsSize 0 (ed_USockEventNotice d) d = (cnt, out, d')" and p': "p' = p\<lparr>ep_mPolls := (ep_mPolls p)(eid \<mapsto> d')\<rparr>"
    using assms(2,4) by (auto simp: uwait_round_def Let_def split: if_splits prod.splits)
  have S: "ed_view d' = report_view (nt_fd ` set (take (nat fdsSize) (ed_USockEventNotice d))) (ed_view d)"
      "out = map (\<lambda>n. (nt_fd n, nt_events n)) (take (nat fdsSize) (ed_USockEventNotice d))"
      "cnt = min (int (length (ed_USockEventNotice d))) (fdsSize + 1)"
    using report_notices_spec [OF o R(1) subset_refl assms(3) r] by simp_all
  have fst: "map fst out = take (nat fdsSize) (map nt_fd (ed_USockEventNotice d))" unfolding S(2) by (simp add: take_map comp_def)
  have all: "set (map (\<lambda>n. (nt_fd n, nt_events n)) (ed_USockEventNotice d)) = {(u, vw_events v) |u v. ed_view d u = Some v \<and> vw_events v \<noteq> 0}"
    unfolding R(3) [symmetric] by auto
  have "{u. \<exists>v. ed_view d u = Some v \<and> vw_events v \<noteq> 0} = set (map nt_fd (ed_USockEventNotice d))"
    using arg_cong [OF all, of "image fst"] by (force simp: image_iff)
  then have "card {u. \<exists>v. ed_view d u = Some v \<and> vw_events v \<noteq> 0} = length (ed_USockEventNotice d)"
    using distinct_card [OF R(2)] by simp
  then have c: "cnt = min (int (card {u. \<exists>v. ed_view d u = Some v \<and> vw_events v \<noteq> 0})) (fdsSize + 1)" using S(3) by simp
  have di: "distinct (map fst out)" unfolding fst by (rule distinct_take [OF R(2)])
  have sub: "set out \<subseteq> {(u, vw_events v) |u v. ed_view d u = Some v \<and> vw_events v \<noteq> 0}"
    unfolding S(2) all [symmetric] by (auto dest: in_set_takeD)
  have fits: "set out = {(u, vw_events v) |u v. ed_view d u = Some v \<and> vw_events v \<noteq> 0}" if "cnt \<le> fdsSize"
    using that S(3) unfolding S(2) all [symmetric] by simp
  have "fst ` set out = nt_fd ` set (take (nat fdsSize) (ed_USockEventNotice d))" unfolding S(2) by force
  then have v: "ed_view d' = report_view (fst ` set out) (ed_view d)" using S(1) by simp
  have m: "ep_mPolls p' = (ep_mPolls p)(eid \<mapsto> d')" using p' by simp
  show ?thesis by (intro conjI impI exI [of _ d'] di sub fits c m v)
qed

text \<open>
  The waiting call that reports into sets puts a socket into the set of those to read when its notice has the event
  for reading or for an error, and into the set of those to write likewise, and takes from every notice its edge-triggered
  events, also when the set that they belong in is a null pointer.
\<close>

theorem wait_reports:
  assumes "polls one p" "ep_mPolls p eid = Some d" "wait_round ready eid fds p = (Inr (cnt, fds'), p')"
  shows "es_readfds fds' = map_option ((\<union>) {u. \<exists>v. ed_view d u = Some v \<and> vw_events v AND (SRT_EPOLL_IN OR SRT_EPOLL_ERR) \<noteq> 0}) (es_readfds fds) \<and>
    es_writefds fds' = map_option ((\<union>) {u. \<exists>v. ed_view d u = Some v \<and> vw_events v AND (SRT_EPOLL_OUT OR SRT_EPOLL_ERR) \<noteq> 0}) (es_writefds fds) \<and>
    (\<exists>d'. ep_mPolls p' = (ep_mPolls p)(eid \<mapsto> d') \<and> ed_view d' = (\<lambda>u. map_option view_reported (ed_view d u)))"
proof -
  have o: "ed_ok d" by (rule poll_okD(1) [OF polls_poll_ok [OF assms(1,2)]])
  note R = ready_notices [OF o]
  obtain rs ws c d' where r: "report_sets (ed_USockEventNotice d) (es_readfds fds) (es_writefds fds) 0 d = (rs, ws, c, d')"
    and p': "p' = p\<lparr>ep_mPolls := (ep_mPolls p)(eid \<mapsto> d')\<rparr>" "es_readfds fds' = rs" "es_writefds fds' = ws"
    using assms(2,3) by (auto simp: wait_round_def Let_def split: if_splits prod.splits)
  note S = report_sets_spec [OF o R(1) subset_refl r]
  have N: "(\<exists>n. n \<in> set (ed_USockEventNotice d) \<and> nt_fd n = u \<and> nt_events n = e) \<longleftrightarrow> (\<exists>v. ed_view d u = Some v \<and> vw_events v = e \<and> e \<noteq> 0)" for u e
    using eqset_imp_iff [OF R(3), of "(u, e)"] by auto
  have A: "{nt_fd n |n. n \<in> set (ed_USockEventNotice d) \<and> nt_events n AND m \<noteq> 0} = {u. \<exists>v. ed_view d u = Some v \<and> vw_events v AND m \<noteq> 0}" for m
  proof -
    have "(\<exists>n. n \<in> set (ed_USockEventNotice d) \<and> nt_fd n = u \<and> nt_events n AND m \<noteq> 0) \<longleftrightarrow> (\<exists>v. ed_view d u = Some v \<and> vw_events v AND m \<noteq> 0)" for u
      using N [of u] by (metis and_zero_eq bit.conj_zero_left)
    moreover have "{nt_fd n |n. n \<in> set (ed_USockEventNotice d) \<and> nt_events n AND m \<noteq> 0} =
      {u. \<exists>n. n \<in> set (ed_USockEventNotice d) \<and> nt_fd n = u \<and> nt_events n AND m \<noteq> 0}" by blast
    ultimately show ?thesis by simp
  qed
  have "report_view (nt_fd ` set (ed_USockEventNotice d)) (ed_view d) = (\<lambda>u. map_option view_reported (ed_view d u))"
  proof
    fix u
    have "view_reported v = v" if "vw_events v = 0" for v using that by (simp add: view_reported_def)
    then show "report_view (nt_fd ` set (ed_USockEventNotice d)) (ed_view d) u = map_option view_reported (ed_view d u)"
      using N [of u] unfolding report_view_def by (cases "ed_view d u") (auto simp: image_iff, metis)
  qed
  moreover have "ep_mPolls p' = (ep_mPolls p)(eid \<mapsto> d')" using p'(1) by simp
  ultimately show ?thesis using S unfolding p'(2,3) A by metis
qed

text \<open>
  When events are switched on together, a notice gets those that the subscription does not watch too, as soon as one
  of them is watched; switching these off again leaves them in the notice.
\<close>

theorem unwatched_events_stay:
  assumes "polls one p" "ep_mPolls p eid = Some d" "ed_view d u = Some v" "vw_state v = 0" "vw_events v = 0"
    and "ev AND vw_watch v \<noteq> 0" "off AND vw_watch v = 0"
  shows "\<exists>v'. ed_view (poll_events u off False (poll_events u ev True d)) u = Some v' \<and> vw_watch v' = vw_watch v \<and>
    vw_state v' = ev AND NOT off \<and> vw_events v' = ev"
proof -
  have o: "ed_ok d" by (rule poll_okD(1) [OF polls_poll_ok [OF assms(1,2)]])
  define v1 where "v1 = v\<lparr>vw_state := ev, vw_events := ev\<rparr>"
  have v1: "ed_view (poll_events u ev True d) u = Some v1"
    using assms(3-6) by (simp add: poll_events_view(2) [OF o] view_events_def v1_def)
  have "(ev XOR ev AND NOT off) AND vw_watch v = 0"
    using assms(7) unfolding word_0_bits by (auto simp: bit_and_iff bit_xor_iff bit_not_iff dest: bit_lt_32)
  then show ?thesis using v1 unfolding poll_events_view(2) [OF poll_events_view(1) [OF o]] by (simp add: view_events_def v1_def)
qed

subsection \<open>A poll with one socket\<close>

definition sample_polls :: CEPoll where
  "sample_polls = snd (update_events 7 [1] SRT_EPOLL_IN True (snd (update_usock 1 7 (Some (SRT_EPOLL_IN OR SRT_EPOLL_ERR)) (snd (ep_create 3 ep_new)))))"

definition sample_poll :: CEPollDesc where
  "sample_poll = \<lparr>ed_iID = 1, ed_USockWatchState = [(7, \<lparr>w_watch = 9, w_edge = 0, w_state = 1, w_notit = Some 0\<rparr>)],
     ed_USockEventNotice = [\<lparr>nt_id = 0, nt_parent = 7, nt_fd = 7, nt_events = 1\<rparr>], ed_fresh = 1, ed_Flags = 0, ed_iLocalID = 3, ed_sLocals = {}\<rparr>"

lemma sample_polls_ok: "polls True sample_polls"
  unfolding sample_polls_def by (intro polls_events polls_update_usock polls_create polls_new) (simp add: one_event_def)

lemma sample_polls_desc: "ep_mPolls sample_polls 1 = Some sample_poll"
  by (simp add: sample_polls_def sample_poll_def ep_create_def ep_new_def ed_new_def update_usock_def subscribe_def addWatch_def watch_find_def
      set_wait_def wait_new_def poll_events_def updateEventNotice_def addEventNotice_def epoll_bits Let_def)

lemma sample_poll_view: "ed_view sample_poll 7 = Some \<lparr>vw_watch = 9, vw_edge = 0, vw_state = 1, vw_events = 1\<rparr>"
  by (simp add: sample_poll_def ed_view_def watch_find_def view_of_def noticed_def find_notice_def)

lemma sample_poll_fields: "ed_flags f sample_poll = False" "watch_empty sample_poll = False" "ed_sLocals sample_poll = {}"
  by (simp_all add: sample_poll_def ed_flags_def watch_empty_def)

theorem epoll_notices_exact_witness:
  "(\<exists>v. ed_view sample_poll 7 = Some v \<and> vw_events v = vw_watch v AND vw_state v) \<and> polls True sample_polls \<and> ep_mPolls sample_polls 1 = Some sample_poll"
  using epoll_notices_exact [OF sample_polls_ok sample_polls_desc sample_poll_view] sample_poll_view sample_polls_ok sample_polls_desc by simp

theorem uwait_reports_witness:
  "\<exists>cnt out p'. uwait_round 1 5 False sample_polls = (Inr (cnt, out), p') \<and> cnt = 1 \<and> out = [(7, 1)]"
proof -
  obtain cnt out p' where r: "uwait_round 1 5 False sample_polls = (Inr (cnt, out), p')" "cnt = 1" "out = [(7, 1)]"
    by (simp add: uwait_round_def sample_polls_desc sample_poll_fields) (simp add: sample_poll_def)
  from uwait_reports [OF sample_polls_ok sample_polls_desc _ r(1)] r show ?thesis by simp
qed

theorem wait_reports_witness:
  "\<exists>cnt fds p'. wait_round [] 1 \<lparr>es_readfds = Some {}, es_writefds = None, es_lrfds = None, es_lwfds = None\<rparr> sample_polls = (Inr (cnt, fds), p') \<and> 7 \<in> the (es_readfds fds)"
proof -
  let ?f = "\<lparr>es_readfds = Some {}, es_writefds = None, es_lrfds = None, es_lwfds = None\<rparr>"
  obtain cnt fds p' where r: "wait_round [] 1 ?f sample_polls = (Inr (cnt, fds), p')"
    by (simp add: wait_round_def sample_polls_desc sample_poll_fields split_beta)
  from wait_reports [OF sample_polls_ok sample_polls_desc r]
  have "es_readfds fds = Some {u. \<exists>v. ed_view sample_poll u = Some v \<and> vw_events v AND (SRT_EPOLL_IN OR SRT_EPOLL_ERR) \<noteq> 0}" by simp
  moreover have "\<exists>v. ed_view sample_poll 7 = Some v \<and> vw_events v AND (SRT_EPOLL_IN OR SRT_EPOLL_ERR) \<noteq> 0"
    by (simp add: sample_poll_view epoll_bits)
  ultimately show ?thesis using r by auto
qed

end
