(* ===== verification/Spec2Isabelle.thy ===== *)
theory Spec2Isabelle
  imports SndLossList RcvLossList Packet LossReport Windows Negotiation RendezvousNet SndSchedule EndToEnd FecRow FecMatrix ReceiverGaps SenderGaps DataTransfer Epoll
begin

text \<open>
  Verification library for the transport core of SRT 1.4.1 (\<open>src/Sources/CSRT\<close>).

  SRT carries messages or a byte stream over UDP. The sender cuts the data of the application into packets
  (\<open>CSndBuffer\<close>), sends them when its schedule (\<open>CSndUList\<close>) and its windows allow, and sends again what the receiver
  reports as lost (\<open>CSndLossList\<close>). The receiver puts packets into the units of a pool (\<open>CUnitQueue\<close>), keeps them in a
  ring (\<open>CRcvBuffer\<close>), records and reports the gaps (\<open>CRcvLossList\<close>, \<open>CRcvFreshLoss\<close>), acknowledges what is complete and hands
  it out, in time stamp mode not before its delivery time. The two halves meet in \<open>CUDT\<close> (\<open>core.cpp\<close>). A connection is set up by
  handshakes, in which the features are negotiated. An optional packet filter adds packets from which lost ones can be
  rebuilt. Applications wait for events with polls (\<open>CEPoll\<close>).

  \<^bold>\<open>The theories and the code\<close>

  \<^item> \<open>Prelude\<close>: wrapped integers, C++ division, arrays with checked access. \<open>Intervals\<close>: sorted lists of intervals.
  \<^item> \<open>SeqNo\<close>: \<open>CSeqNo\<close>, \<open>CAckNo\<close> (\<open>include/common.h\<close>). The map \<open>sq\<close> takes unbounded positions to sequence numbers; its lemmas
    turn the arithmetic of numbers at most \<open>2^30\<close> apart into that of integers.
  \<^item> \<open>BitFields\<close>: \<open>BitsetMask\<close>, \<open>Bits\<close> (\<open>include/utilities.h\<close>). \<open>Packet\<close>: \<open>CPacket\<close> (\<open>packet.cpp\<close>, \<open>include/packet.h\<close>), the header
    words and control packets.
  \<^item> \<open>SndLossList\<close>, \<open>RcvLossList\<close>: the two loss lists (\<open>list.cpp\<close>), linked lists of ranges inside an array, refined to a
    set of positions. Sequence numbers wrap around; the set does not.
  \<^item> \<open>NakCodec\<close>, \<open>LossReport\<close>: the loss report from the array of the receiver to the list of the sender (\<open>core.cpp\<close>,
    \<open>UMSG_LOSSREPORT\<close>, \<open>unlose\<close>, \<open>dropFromLossLists\<close>).
  \<^item> \<open>Windows\<close>: \<open>CACKWindow\<close>, \<open>CPktTimeWindow\<close> (\<open>window.cpp\<close>). \<open>TsbPd\<close>: the delivery times and \<open>DriftTracer\<close>.
  \<^item> \<open>UnitQueue\<close>: \<open>CUnitQueue\<close>; \<open>SndSchedule\<close>: \<open>CSndUList\<close> (\<open>queue.cpp\<close>).
  \<^item> \<open>SndBuffer\<close>: \<open>CSndBuffer\<close>; \<open>RcvBuffer\<close>, \<open>RcvBufferInv\<close>, \<open>RcvRead\<close>: \<open>CRcvBuffer\<close> (\<open>buffer.cpp\<close>). The linked blocks and the
    ring of units are seen as queues; every operation is refined to one on the queue.
  \<^item> \<open>EndToEnd\<close>: a message from \<open>addBuffer\<close> to \<open>readMsg\<close>.
  \<^item> \<open>Handshake\<close>: \<open>CHandShake\<close> (\<open>handshake.cpp\<close>). \<open>Negotiation\<close>: the HSREQ and HSRSP blocks (\<open>core.cpp\<close>). \<open>Rendezvous\<close>,
    \<open>RendezvousNet\<close>: the rendezvous state machine, its handlers, and two parties with a network between them.
  \<^item> \<open>Fec\<close>, \<open>FecRow\<close>, \<open>FecMatrix\<close>: the built-in packet filter (\<open>fec.cpp\<close>). The clips (exclusive ors of packets) are elements of a
    commutative group of which every element is its own inverse.
  \<^item> \<open>Receiver\<close>, \<open>ReceiverInv\<close>, \<open>ReceiverStream\<close>, \<open>ReceiverGaps\<close>: \<open>processData\<close>, \<open>sendCtrl\<close> (\<open>UMSG_ACK\<close>, \<open>UMSG_LOSSREPORT\<close>), the
    timers, \<open>UMSG_ACKACK\<close>, \<open>UMSG_DROPREQ\<close> and the dropping part of \<open>tsbpd\<close> (\<open>core.cpp\<close>).
  \<^item> \<open>Sender\<close>, \<open>SenderInv\<close>, \<open>SenderGaps\<close>: \<open>packData\<close>, \<open>packLostData\<close>, \<open>processCtrlAck\<close>, late packet drop and the
    retransmission timers (\<open>core.cpp\<close>).
  \<^item> \<open>DataTransfer\<close>: both halves with a network that loses, repeats and reorders.
  \<^item> \<open>Epoll\<close>: \<open>CEPollDesc\<close>, \<open>CEPoll\<close> (\<open>epoll.cpp\<close>, \<open>include/epoll.h\<close>).

  \<^bold>\<open>What is shown\<close>

  \<^item> The composition: what the reader has got is an initial part of what was written, and the sender only releases what the receiver
    holds (\<open>transfer_safe\<close>); a message arrives whole (\<open>message_end_to_end\<close>); loss reports arrive exactly (\<open>loss_report_end_to_end\<close>); both ends
    agree on the features (\<open>negotiation_agrees\<close>); the rendezvous is safe and can always be completed.
  \<^item> The halves: the invariants \<open>rcv_inv\<close> and \<open>snd_inv\<close> of \<open>CUDT\<close>, which every handler keeps, with what each handler does on
    every branch. The theories \<open>ReceiverGaps\<close> and \<open>SenderGaps\<close> show inputs for which the code leaves its invariant.
  \<^item> The components: refinements of the lists, buffers and polls to sets, queues and views; round trips of the wire formats; bounds
    of the bandwidth estimate; the end of the recursion of the filter; the delivery times over any number of wrap-arounds.

  \<^bold>\<open>Conventions, bounds and fuel\<close>

  \<^item> An \<open>int32_t\<close> is an \<open>int\<close> with \<open>i32\<close> written where a result can leave the range, header words are \<open>32 word\<close>, times are \<open>int\<close>
    with \<open>u64\<close> or \<open>i64\<close>. \<open>None\<close> as the result of an operation is an access outside of an array, a null pointer or, where
    the text says so, the end of the fuel; a theorem with \<open>Some\<close> in its conclusion rules these out.
  \<^item> The growth of \<open>CSndBuffer\<close> has the fuel of one round for each missing block; \<open>sb_grow_enough\<close> shows that it suffices. The loops
    through the linked arrays of the loss lists and through blocks are bounded by the number of their nodes. \<open>skip_message\<close> has the
    size of the ring, after which the code would go round for ever. \<open>RcvRebuild\<close> recurses without fuel in the code;
    \<open>RcvRebuild_ends\<close> bounds the depth. The waiting loops of \<open>CEPoll\<close> have one entry for each round; without a result they go on waiting.
  \<^item> The invariants ask for fewer than \<open>2^29\<close> outstanding packets, as the comparison of sequence numbers does. In \<open>DataTransfer\<close> a
    packet is delivered only while it is less than \<open>2^28\<close> behind, and the last confirmed acknowledgement is less than \<open>2^28\<close> behind.
  \<^item> A first sequence number of 0 makes \<open>m_iRcvCurrSeqNo\<close> -1 before the first packet (\<open>decseq\<close> is not used by the code there); this start is
    left out of the invariants.

  \<^bold>\<open>Parameters\<close>

  The records \<open>rcv_env\<close> and \<open>snd_env\<close> hold what the handlers of \<open>CUDT\<close> get from elsewhere: the clocks, the options of the connection, the
  answers of the congestion control, the cipher and the packet filter; \<open>conn_env\<close> does the same for the connection setup. Theorems
  about data say when they need the cipher to be off or to keep the length, or no filter. Floating point results go through a rounding
  function, of which only monotonicity and exactness on integers below \<open>2^53\<close> are used. Allocation fails only where it is an argument. In
  \<open>Epoll\<close> the answers of the system's poll and what other threads do between two rounds are arguments. Locks are
  not modelled: each operation is one step, as under the mutex that the code holds.

  \<^bold>\<open>Not modelled\<close>

  The registry of sockets and the API (\<open>api.cpp\<close>), the threads of the multiplexer and its other lists (\<open>queue.cpp\<close>), \<open>CChannel\<close>, the
  key exchange and ciphers (\<open>crypto.cpp\<close>, \<open>hcrypt*\<close>), congestion control (\<open>congctl.cpp\<close>, floating point), the options and the blocking calls of
  \<open>CUDT\<close>, the listener's side of the connection setup, files, statistics and logging: threads, system calls and third-party
  code dominate there, and the modelled handlers take their results as arguments. \<open>party_recv\<close> leaves out the answer ROGUE of a party that is
  connected already to a handshake with extensions that it cannot take (\<open>core.cpp\<close> 7640-7657).
\<close>

end
